(* ===== verification/Oseo_Prelude.thy ===== *)
theory Oseo_Prelude
  imports Main "HOL-Library.Word"
begin

unbundle bit_operations_syntax

text \<open>
  Shared ground of the development: the machine integers of the C runtime, the results its
  functions return, and the allocation counters of \<open>OseoContext\<close> that decide whether an
  allocation is refused.

  A runtime function returns an \<open>OseoResult\<close>. A normal one is \<open>Inr v\<close>. An abrupt one is
  \<open>Inl e\<close>: \<open>failure(context, code, message)\<close> of \<open>runtime_internal.h\<close> is
  \<open>Inl (Diagnostic code message)\<close>, a host diagnostic no program can catch, and
  \<open>oseo_internal_throw_error(context, kind, message)\<close> of \<open>runtime_error.c\<close> is
  \<open>Inl (LanguageError kind message)\<close>, a catchable JavaScript exception. The error object that
  the latter allocates is not modelled.
\<close>

subsection \<open>Machine integers\<close>

type_synonym u8 = "8 word"
type_synonym u16 = "16 word"
type_synonym u32 = "32 word"
type_synonym u64 = "64 word"

text \<open>\<open>size_t\<close> has 64 bits on both execution targets. Lengths and indexes are \<open>nat\<close>, with
  every comparison against \<open>SIZE_MAX\<close> that the code makes written out.\<close>

definition SIZE_MAX :: nat where
  "SIZE_MAX = 2 ^ 64 - 1"

named_theorems word_nat \<open>reading word operations as arithmetic on nat\<close>

lemma unat_ucast_le:
  assumes "LENGTH('a::len) \<le> LENGTH('b::len)"
  shows "unat (ucast (x :: 'a word) :: 'b word) = unat x"
  using assms by (simp add: unsigned_ucast_eq take_bit_nat_eq_self less_le_trans [OF unsigned_less])

lemma unat_u32_u64 [simp, word_nat]: "unat (ucast (x :: u32) :: u64) = unat x"
  by (rule unat_ucast_le) simp

lemma unat_u16_u32 [simp, word_nat]: "unat (ucast (x :: u16) :: u32) = unat x"
  by (rule unat_ucast_le) simp

lemma unat_u8_u32 [simp, word_nat]: "unat (ucast (x :: u8) :: u32) = unat x"
  by (rule unat_ucast_le) simp

lemma unat_u8_u16 [simp, word_nat]: "unat (ucast (x :: u8) :: u16) = unat x"
  by (rule unat_ucast_le) simp

lemma unat_ucast_mod: "unat (ucast (x :: 'a::len word) :: 'b::len word) = unat x mod 2 ^ LENGTH('b)"
  by (simp add: unsigned_ucast_eq take_bit_eq_mod)

lemma unat_drop_bit [word_nat]: "unat (drop_bit n (x :: 'a::len word)) = unat x div 2 ^ n"
  by (subst unat_drop_bit_eq) (rule drop_bit_eq_div)

lemma unat_and_mask [word_nat]:
  "unat ((x :: 'a::len word) AND mask n) = unat x mod 2 ^ n"
  unfolding take_bit_eq_mask [symmetric] unsigned_take_bit_eq by (rule take_bit_eq_mod)

lemma unat_add_no_wrap:
  "unat (x :: 'a::len word) + unat y < 2 ^ LENGTH('a) \<Longrightarrow> unat (x + y) = unat x + unat y"
  by (simp add: unat_word_ariths)

lemma unat_mult_no_wrap:
  "unat (x :: 'a::len word) * unat y < 2 ^ LENGTH('a) \<Longrightarrow> unat (x * y) = unat x * unat y"
  by (simp add: unat_word_ariths)

lemma unat_sub_no_wrap:
  "unat (y :: 'a::len word) \<le> unat x \<Longrightarrow> unat (x - y) = unat x - unat y"
  by (simp add: unat_sub word_le_nat_alt)

lemma bit_word_odd: "drop_bit s (x :: 'a::len word) AND 1 \<noteq> 0 \<longleftrightarrow> odd (unat x div 2 ^ s)"
proof -
  have "drop_bit s x AND 1 \<noteq> 0 \<longleftrightarrow> odd (drop_bit s x)" by (simp add: and_one_eq odd_iff_mod_2_eq_one)
  also have "\<dots> \<longleftrightarrow> bit (unat x) s" by (simp add: bit_iff_odd_drop_bit [symmetric] bit_unsigned_iff)
  also have "\<dots> \<longleftrightarrow> odd (unat x div 2 ^ s)" by (rule bit_iff_odd)
  finally show ?thesis .
qed

lemma unat_or_disjoint:
  assumes "(x :: 'a::len word) AND y = 0"
  shows "unat (x OR y) = unat x + unat y"
proof -
  have "x OR y = x + y" using assms by (simp add: disjunctive_add_eq_or)
  moreover have "unat x + unat y < 2 ^ LENGTH('a)"
  proof -
    have "unat x AND unat y = 0" using assms by (metis unsigned_and_eq unsigned_0)
    then have "unat x + unat y = unat x OR unat y" by (simp add: disjunctive_add_eq_or)
    also have "\<dots> = unat (x OR y)" by (simp add: unsigned_or_eq)
    finally show ?thesis by simp
  qed
  ultimately show ?thesis by (simp add: unat_add_no_wrap)
qed

lemma and_zeroI: "(\<And>n. bit (x :: 'a::len word) n \<Longrightarrow> bit y n \<Longrightarrow> False) \<Longrightarrow> x AND y = 0"
  by (rule bit_eqI) (auto simp: bit_and_iff)

lemma bit_small: "unat (x :: 'a::len word) < 2 ^ k \<Longrightarrow> bit x n \<Longrightarrow> n < k"
proof -
  assume "unat x < 2 ^ k" "bit x n"
  then have "odd (unat x div 2 ^ n)" by (simp add: bit_iff_odd [symmetric] bit_unsigned_iff)
  then have "2 ^ n \<le> unat x" by (cases "unat x < 2 ^ n") auto
  with \<open>unat x < 2 ^ k\<close> have "(2::nat) ^ n < 2 ^ k" by linarith
  then show "n < k" by simp
qed

lemma unat_or_small:
  assumes "unat (x :: 'a::len word) < 2 ^ k" "unat y < 2 ^ k"
  shows "unat (x OR y) < 2 ^ k"
proof -
  have "take_bit k (unat x) = unat x" "take_bit k (unat y) = unat y"
    using assms by (simp_all add: take_bit_nat_eq_self)
  then have "unat (x OR y) = take_bit k (unat x OR unat y)" by (simp add: unsigned_or_eq take_bit_or)
  then show ?thesis by (metis take_bit_nat_less_exp)
qed

lemma last_take_nth: "0 < n \<Longrightarrow> n \<le> length xs \<Longrightarrow> last (take n xs) = xs ! (n - 1)"
  by (subst last_conv_nth) auto

subsection \<open>Bit lengths\<close>

text \<open>The number of bits of a natural number, \<open>0\<close> for \<open>0\<close>.\<close>

fun nbits :: "nat \<Rightarrow> nat" where
  "nbits n = (if n = 0 then 0 else Suc (nbits (n div 2)))"

declare nbits.simps [simp del]

lemma nbits_0 [simp]: "nbits 0 = 0"
  by (simp add: nbits.simps)

lemma nbits_pos: "0 < n \<Longrightarrow> nbits n = Suc (nbits (n div 2))"
  by (subst nbits.simps) simp

lemma less_two_pow_nbits: "n < 2 ^ nbits n"
proof (induction n rule: nbits.induct)
  case (1 n)
  show ?case
  proof (cases "n = 0")
    case False
    with 1 have "n div 2 < 2 ^ nbits (n div 2)" by simp
    with False show ?thesis by (simp add: nbits_pos)
  qed simp
qed

lemma two_pow_nbits_le: "0 < n \<Longrightarrow> 2 ^ (nbits n - 1) \<le> n"
proof (induction n rule: nbits.induct)
  case (1 n)
  show ?case
  proof (cases "n div 2 = 0")
    case True
    with 1 show ?thesis by (simp add: nbits_pos)
  next
    case False
    with 1 have ih: "2 ^ (nbits (n div 2) - 1) \<le> n div 2" by simp
    from False have "nbits (n div 2) = Suc (nbits (n div 2) - 1)" by (simp add: nbits_pos)
    then have "2 ^ nbits (n div 2) = 2 * (2::nat) ^ (nbits (n div 2) - 1)"
      by (metis power_Suc)
    with ih have "2 ^ nbits (n div 2) \<le> n" by linarith
    with 1 show ?thesis by (simp add: nbits_pos)
  qed
qed

lemma nbits_le_iff: "nbits n \<le> k \<longleftrightarrow> n < 2 ^ k"
proof
  assume "nbits n \<le> k"
  then have "(2::nat) ^ nbits n \<le> 2 ^ k" by simp
  with less_two_pow_nbits [of n] show "n < 2 ^ k" by linarith
next
  assume less: "n < 2 ^ k"
  show "nbits n \<le> k"
  proof (rule ccontr)
    assume "\<not> nbits n \<le> k"
    then have "k \<le> nbits n - 1" and "0 < n" by (auto intro: Suc_leI gr0I)
    then have "(2::nat) ^ k \<le> n"
      using two_pow_nbits_le [of n] power_increasing [of k "nbits n - 1" "2::nat"] by linarith
    with less show False by simp
  qed
qed

lemma nbits_less_iff: "k < nbits n \<longleftrightarrow> 2 ^ k \<le> n"
  using nbits_le_iff [of n k] by linarith

lemma nbits_eq_0_iff [simp]: "nbits n = 0 \<longleftrightarrow> n = 0"
  using nbits_le_iff [of n 0] by auto

lemma nbits_mono: "m \<le> n \<Longrightarrow> nbits m \<le> nbits n"
  using less_two_pow_nbits [of n] by (auto simp: nbits_le_iff)

lemma nbits_eqI: "2 ^ k \<le> n \<Longrightarrow> n < 2 ^ Suc k \<Longrightarrow> nbits n = Suc k"
  using nbits_le_iff [of n "Suc k"] nbits_less_iff [of k n] by linarith

lemma nbits_shift: "0 < n \<Longrightarrow> nbits (n * 2 ^ k) = nbits n + k"
proof -
  assume n: "0 < n"
  obtain m where m: "nbits n = Suc m" using n by (cases "nbits n") auto
  have "2 ^ m \<le> n" using two_pow_nbits_le [OF n] m by simp
  moreover have "n < 2 ^ Suc m" using less_two_pow_nbits [of n] m by simp
  ultimately have "2 ^ (m + k) \<le> n * 2 ^ k" and "n * 2 ^ k < 2 ^ Suc (m + k)"
    by (simp_all add: power_add)
  then show ?thesis using nbits_eqI [of "m + k"] m by simp
qed

subsection \<open>Results\<close>

text \<open>\<open>OseoErrorKind\<close> of \<open>oseo_runtime.h\<close>.\<close>

datatype error_kind =
    ERROR_ERROR | ERROR_EVAL | ERROR_RANGE | ERROR_REFERENCE | ERROR_SYNTAX | ERROR_TYPE
  | ERROR_URI | ERROR_AGGREGATE | ERROR_SUPPRESSED

datatype rt_error =
    Diagnostic (error_code: string) (error_message: string)
  | LanguageError error_kind (error_message: string)

subsection \<open>Allocation\<close>

text \<open>
  The fields of \<open>OseoContext\<close> that \<open>oseo_internal_allocate_heap_bytes\<close> and
  \<open>oseo_internal_allocate_work_bytes\<close> read and write. \<open>host_malloc n s\<close> is the host's
  answer to the \<open>n\<close>-th request, for \<open>s\<close> bytes: the address \<open>malloc\<close> returns, \<open>0\<close> for
  \<open>NULL\<close>. The collection that \<open>collect_every_safepoint\<close> requests before a heap allocation
  changes no value a rooted computation reads; the collector has theories of its own.
\<close>

record alloc_context =
  allocation_attempts :: u64
  fail_allocation_at :: u64
  host_malloc :: "u64 \<Rightarrow> nat \<Rightarrow> u64"

definition allocate_bytes :: "nat \<Rightarrow> 'c alloc_context_scheme \<Rightarrow> u64 \<times> 'c alloc_context_scheme" where
  "allocate_bytes bytes ctx =
     (let attempts = allocation_attempts ctx + 1;
          ctx' = ctx\<lparr>allocation_attempts := attempts\<rparr>
      in if fail_allocation_at ctx \<noteq> 0 \<and> attempts = fail_allocation_at ctx then (0, ctx')
         else (host_malloc ctx attempts bytes, ctx'))"

text \<open>\<open>oseo_internal_publish_heap\<close> for the kinds whose records are not counted: a block whose
  address has more than 48 bits is freed and refused.\<close>

definition PAYLOAD_MASK :: u64 where
  "PAYLOAD_MASK = 0x0000ffffffffffff"

definition unrepresentable :: rt_error where
  "unrepresentable = Diagnostic ''OSEO3001'' ''The host cannot represent a heap address in 48 bits.''"

definition publish_heap :: "u64 \<Rightarrow> rt_error + unit" where
  "publish_heap address =
     (if address = 0 \<or> address > PAYLOAD_MASK then Inl unrepresentable else Inr ())"

text \<open>A context in which every allocation is granted, at an address a value can hold.\<close>

definition never_refuses :: "'c alloc_context_scheme \<Rightarrow> bool" where
  "never_refuses ctx \<longleftrightarrow>
     fail_allocation_at ctx = 0 \<and> (\<forall>n s. host_malloc ctx n s \<noteq> 0 \<and> host_malloc ctx n s \<le> PAYLOAD_MASK)"

lemma allocate_bytes_granted:
  assumes "never_refuses ctx"
  shows "fst (allocate_bytes bytes ctx) \<noteq> 0" and "publish_heap (fst (allocate_bytes bytes ctx)) = Inr ()"
  using assms by (auto simp: allocate_bytes_def never_refuses_def publish_heap_def Let_def not_less)

lemma allocate_bytes_never_refuses [simp]:
  "never_refuses (snd (allocate_bytes bytes ctx)) \<longleftrightarrow> never_refuses ctx"
  by (simp add: allocate_bytes_def never_refuses_def Let_def)

subsection \<open>Computations that allocate\<close>

text \<open>
  An operation that allocates takes the context and returns its result with the context after
  it. \<open>and_then\<close> is the C idiom \<open>if (result.status != OSEO_STATUS_NORMAL) return result;\<close>.
\<close>

type_synonym ('a, 'c) run = "'c alloc_context_scheme \<Rightarrow> 'a \<times> 'c alloc_context_scheme"

definition give :: "'a \<Rightarrow> ('a, 'c) run" where
  "give x = (\<lambda>ctx. (x, ctx))"

definition after :: "('a, 'c) run \<Rightarrow> ('a \<Rightarrow> ('b, 'c) run) \<Rightarrow> ('b, 'c) run" where
  "after m f = (\<lambda>ctx. case m ctx of (x, ctx') \<Rightarrow> f x ctx')"

definition and_then :: "('e + 'a, 'c) run \<Rightarrow> ('a \<Rightarrow> ('e + 'b, 'c) run) \<Rightarrow> ('e + 'b, 'c) run" where
  "and_then m f = after m (\<lambda>r. case r of Inl e \<Rightarrow> give (Inl e) | Inr v \<Rightarrow> f v)"

text \<open>\<open>computes refused m x\<close>: the computation \<open>m\<close> gives \<open>x\<close>, unless an allocation it asks for is
  refused, and then its result is one of \<open>refused\<close>. A context that never refuses stays one.\<close>

definition computes :: "('a \<Rightarrow> bool) \<Rightarrow> ('a, 'c) run \<Rightarrow> 'a \<Rightarrow> bool" where
  "computes refused m x \<longleftrightarrow>
     (\<forall>ctx. (fst (m ctx) = x \<or> refused (fst (m ctx)) \<and> \<not> never_refuses ctx)
          \<and> (never_refuses (snd (m ctx)) \<longleftrightarrow> never_refuses ctx))"

lemma computesI:
  "(\<And>ctx. fst (m ctx) = x \<or> refused (fst (m ctx)) \<and> \<not> never_refuses ctx) \<Longrightarrow>
   (\<And>ctx. never_refuses (snd (m ctx)) \<longleftrightarrow> never_refuses ctx) \<Longrightarrow> computes refused m x"
  by (simp add: computes_def)

lemma computes_granted: "computes refused m x \<Longrightarrow> never_refuses ctx \<Longrightarrow> fst (m ctx) = x"
  by (auto simp: computes_def)

lemma computes_cases: "computes refused m x \<Longrightarrow> fst (m ctx) = x \<or> refused (fst (m ctx))"
  by (auto simp: computes_def)

lemma computes_give [simp, intro]: "computes refused (give x) x"
  by (simp add: computes_def give_def)

lemma computes_give_refused: "computes refused m x \<Longrightarrow> computes refused' m x" if "\<And>y. refused y \<Longrightarrow> refused' y"
  using that by (auto simp: computes_def)

lemma computes_after:
  assumes "computes refused m x" "computes refused' (f x) y"
    and "\<And>z. refused z \<Longrightarrow> computes (\<lambda>r. False) (f z) (g z) \<and> refused' (g z)"
  shows "computes refused' (after m f) y"
proof (rule computesI)
  fix ctx
  obtain z ctx' where m: "m ctx = (z, ctx')" by (cases "m ctx")
  consider (ok) "z = x" | (bad) "refused z" "\<not> never_refuses ctx"
    using assms(1) m by (auto simp: computes_def dest!: spec [of _ ctx])
  note c = this
  have n: "never_refuses ctx' \<longleftrightarrow> never_refuses ctx"
    using assms(1) m by (auto simp: computes_def dest!: spec [of _ ctx])
  from c show "fst (after m f ctx) = y \<or> refused' (fst (after m f ctx)) \<and> \<not> never_refuses ctx"
    by cases (use assms(2) assms(3) [of z] m n in \<open>auto simp: computes_def after_def\<close>)
  from c show "never_refuses (snd (after m f ctx)) \<longleftrightarrow> never_refuses ctx"
    by cases (use assms(2) assms(3) [of z] m n in \<open>auto simp: computes_def after_def\<close>)
qed

text \<open>For operations whose refusals are the diagnostics of \<open>F\<close>.\<close>

definition refused_with :: "rt_error set \<Rightarrow> rt_error + 'a \<Rightarrow> bool" where
  "refused_with F r \<longleftrightarrow> (\<exists>e \<in> F. r = Inl e)"

lemma computes_and_then:
  assumes "computes (refused_with F) m (Inr v)" "computes (refused_with F) (f v) r"
  shows "computes (refused_with F) (and_then m f) r"
  unfolding and_then_def
  by (rule computes_after [OF assms(1), where g = "\<lambda>r. case r of Inl e \<Rightarrow> Inl e | Inr v \<Rightarrow> undefined"])
     (use assms(2) in \<open>auto simp: refused_with_def\<close>)

lemma computes_and_then_error:
  assumes "computes (refused_with F) m (Inl e)"
  shows "computes (refused_with F) (and_then m f) (Inl e)"
  unfolding and_then_def
  by (rule computes_after [OF assms(1), where g = "\<lambda>r. case r of Inl e \<Rightarrow> Inl e | Inr v \<Rightarrow> undefined"])
     (auto simp: refused_with_def)

text \<open>A block of work memory, \<open>None\<close> for \<open>NULL\<close>.\<close>

definition refused_block :: "'a option \<Rightarrow> bool" where
  "refused_block r \<longleftrightarrow> r = None"

end
