(* ===== verification/BigInt_Magnitude.thy ===== *)
theory BigInt_Magnitude
  imports Oseo_Prelude
begin

text \<open>
  Magnitudes of the exact integers of \<open>runtime_bigint.c\<close>: little-endian sequences of 30-bit
  limbs, each in a \<open>uint32_t\<close>, with every intermediate in a \<open>uint64_t\<close>. A C array of limbs is
  the list of its cells. The loops run over the list in the order the code visits the indexes.
  \<open>limbs_val\<close> is the number a magnitude stands for, and each operation is shown to compute the
  operation of its name on it.
\<close>

subsection \<open>Constants and the number a magnitude stands for\<close>

definition BIGINT_BITS :: nat where
  "BIGINT_BITS = 30"

definition BIGINT_BASE :: u32 where
  "BIGINT_BASE = push_bit BIGINT_BITS 1"

definition BIGINT_MASK :: u32 where
  "BIGINT_MASK = BIGINT_BASE - 1"

definition BIGINT_MAX_BITS :: nat where
  "BIGINT_MAX_BITS = 65536"

definition BIGINT_MAX_LIMBS :: nat where
  "BIGINT_MAX_LIMBS = (BIGINT_MAX_BITS + BIGINT_BITS - 1) div BIGINT_BITS"

primrec limbs_val :: "u32 list \<Rightarrow> nat" where
  "limbs_val [] = 0"
| "limbs_val (x # xs) = unat x + 2 ^ 30 * limbs_val xs"

definition limbs_ok :: "u32 list \<Rightarrow> bool" where
  "limbs_ok xs \<longleftrightarrow> list_all (\<lambda>x. unat x < 2 ^ 30) xs"

lemma BIGINT_BITS_eq [simp]: "BIGINT_BITS = 30"
  by (simp add: BIGINT_BITS_def)

lemma unat_BIGINT_BASE [simp]: "unat BIGINT_BASE = 2 ^ 30"
  by (simp add: BIGINT_BASE_def)

lemma BIGINT_MASK_mask: "BIGINT_MASK = mask 30"
  by (simp add: BIGINT_MASK_def BIGINT_BASE_def mask_eq_decr_exp)

lemma ucast_BIGINT_MASK: "(ucast BIGINT_MASK :: u64) = mask 30"
  by (simp add: BIGINT_MASK_def BIGINT_BASE_def mask_eq_decr_exp)

text \<open>Splitting a 64-bit intermediate into a limb and the carry: \<open>(uint32_t)(s & BIGINT_MASK)\<close>
  and \<open>s >> BIGINT_BITS\<close>.\<close>

definition limb_of :: "u64 \<Rightarrow> u32" where
  "limb_of s = ucast (s AND ucast BIGINT_MASK)"

definition carry_of :: "u64 \<Rightarrow> u64" where
  "carry_of s = drop_bit BIGINT_BITS s"

lemma unat_limb_of [simp]: "unat (limb_of s) = unat s mod 2 ^ 30"
  by (simp add: limb_of_def ucast_BIGINT_MASK unat_ucast_mod unat_and_mask)

lemma unat_carry_of [simp]: "unat (carry_of s) = unat s div 2 ^ 30"
  by (simp add: carry_of_def unat_drop_bit)

lemma limb_carry_split: "unat (limb_of s) + 2 ^ 30 * unat (carry_of s) = unat s"
  by simp

lemma unat_mask_u32 [simp]: "unat (x AND BIGINT_MASK) = unat x mod 2 ^ 30"
  by (simp only: BIGINT_MASK_mask unat_and_mask)

lemma limbs_ok_Nil [simp]: "limbs_ok []"
  and limbs_ok_Cons [simp]: "limbs_ok (x # xs) \<longleftrightarrow> unat x < 2 ^ 30 \<and> limbs_ok xs"
  and limbs_ok_append [simp]: "limbs_ok (xs @ ys) \<longleftrightarrow> limbs_ok xs \<and> limbs_ok ys"
  by (simp_all add: limbs_ok_def)

lemma limbs_ok_nth: "limbs_ok xs \<Longrightarrow> i < length xs \<Longrightarrow> unat (xs ! i) < 2 ^ 30"
  by (simp add: limbs_ok_def list_all_length)

lemma limbs_ok_take [simp]: "limbs_ok xs \<Longrightarrow> limbs_ok (take n xs)"
  and limbs_ok_drop [simp]: "limbs_ok xs \<Longrightarrow> limbs_ok (drop n xs)"
  and limbs_ok_tl [simp]: "limbs_ok xs \<Longrightarrow> limbs_ok (tl xs)"
  by (auto simp: limbs_ok_def list_all_iff dest: in_set_takeD in_set_dropD)
     (cases xs; simp)+

lemma limbs_ok_replicate [simp]: "limbs_ok (replicate n 0)"
  by (simp add: limbs_ok_def list_all_iff)

lemma limbs_ok_update [simp]: "limbs_ok xs \<Longrightarrow> unat x < 2 ^ 30 \<Longrightarrow> limbs_ok (xs[i := x])"
  by (auto simp: limbs_ok_def list_all_iff dest!: set_update_subset_insert [THEN subsetD])

lemma limbs_val_append: "limbs_val (xs @ ys) = limbs_val xs + 2 ^ (30 * length xs) * limbs_val ys"
  by (induction xs) (simp_all add: power_add algebra_simps)

lemma limbs_val_replicate [simp]: "limbs_val (replicate n 0) = 0"
  by (induction n) simp_all

lemma limbs_val_bound: "limbs_ok xs \<Longrightarrow> limbs_val xs < 2 ^ (30 * length xs)"
proof (induction xs)
  case (Cons x xs)
  then have x: "unat x < 2 ^ 30" and "limbs_val xs < 2 ^ (30 * length xs)" by simp_all
  then have "limbs_val xs + 1 \<le> 2 ^ (30 * length xs)" by simp
  then have "2 ^ 30 * (limbs_val xs + 1) \<le> 2 ^ 30 * 2 ^ (30 * length xs)" by (rule mult_left_mono) simp
  with x show ?case by (simp add: power_add)
qed simp

lemma limbs_val_take_drop: "limbs_val xs = limbs_val (take n xs) + 2 ^ (30 * min n (length xs)) * limbs_val (drop n xs)"
  by (metis append_take_drop_id length_take limbs_val_append min.commute)

lemma limbs_val_div: "limbs_ok xs \<Longrightarrow> n \<le> length xs \<Longrightarrow> limbs_val xs div 2 ^ (30 * n) = limbs_val (drop n xs)"
  using limbs_val_take_drop [of xs n] limbs_val_bound [of "take n xs"] by (simp add: min_absorb1)

lemma limbs_val_mod: "limbs_ok xs \<Longrightarrow> n \<le> length xs \<Longrightarrow> limbs_val xs mod 2 ^ (30 * n) = limbs_val (take n xs)"
  using limbs_val_take_drop [of xs n] limbs_val_bound [of "take n xs"] by (simp add: min_absorb1)

lemma limbs_val_update:
  "i < length xs \<Longrightarrow> limbs_val (xs[i := x]) + 2 ^ (30 * i) * unat (xs ! i) = limbs_val xs + 2 ^ (30 * i) * unat x"
proof (induction xs arbitrary: i)
  case (Cons y ys)
  show ?case
  proof (cases i)
    case (Suc j)
    with Cons have "limbs_val (ys[j := x]) + 2 ^ (30 * j) * unat (ys ! j) = limbs_val ys + 2 ^ (30 * j) * unat x"
      by simp
    then have "2 ^ 30 * (limbs_val (ys[j := x]) + 2 ^ (30 * j) * unat (ys ! j)) = 2 ^ 30 * (limbs_val ys + 2 ^ (30 * j) * unat x)"
      by simp
    with Suc show ?thesis by (simp add: power_add algebra_simps)
  qed simp
qed simp

lemma limbs_val_0_iff: "limbs_val xs = 0 \<longleftrightarrow> list_all (\<lambda>x. x = 0) xs"
  by (induction xs) (auto simp: unat_eq_0)

subsection \<open>Normalization\<close>

fun normalized_length :: "u32 list \<Rightarrow> nat \<Rightarrow> nat" where
  "normalized_length ls 0 = 0"
| "normalized_length ls (Suc n) = (if Suc n > 1 \<and> ls ! n = 0 then normalized_length ls n else Suc n)"

text \<open>\<open>(Magnitude){limbs, normalized_length(limbs, length)}\<close>: the part of the block in use.\<close>

definition in_use :: "u32 list \<Rightarrow> u32 list" where
  "in_use ls = take (normalized_length ls (length ls)) ls"

text \<open>No leading zero limb, but at least one limb.\<close>

definition trimmed :: "u32 list \<Rightarrow> bool" where
  "trimmed ls \<longleftrightarrow> ls \<noteq> [] \<and> (length ls > 1 \<longrightarrow> last ls \<noteq> 0)"

lemma normalized_length_le: "normalized_length ls n \<le> n"
  by (induction n) auto

lemma normalized_length_pos: "0 < n \<Longrightarrow> 0 < normalized_length ls n"
  by (induction n) auto

lemma normalized_length_top: "1 < normalized_length ls n \<Longrightarrow> ls ! (normalized_length ls n - 1) \<noteq> 0"
  by (induction n) auto

lemma limbs_val_normalized: "n \<le> length ls \<Longrightarrow> limbs_val (take (normalized_length ls n) ls) = limbs_val (take n ls)"
proof (induction n)
  case (Suc n)
  then have "take (Suc n) ls = take n ls @ [ls ! n]" by (simp add: take_Suc_conv_app_nth)
  with Suc show ?case by (auto simp: limbs_val_append)
qed simp

lemma limbs_val_in_use [simp]: "limbs_val (in_use ls) = limbs_val ls"
  by (simp add: in_use_def limbs_val_normalized)

lemma limbs_ok_in_use [simp]: "limbs_ok ls \<Longrightarrow> limbs_ok (in_use ls)"
  by (simp add: in_use_def)

lemma length_in_use: "length (in_use ls) \<le> length ls"
  by (simp add: in_use_def)

lemma trimmed_in_use: "ls \<noteq> [] \<Longrightarrow> trimmed (in_use ls)"
proof -
  assume ls: "ls \<noteq> []"
  let ?n = "normalized_length ls (length ls)"
  have n: "0 < ?n" "?n \<le> length ls"
    using ls by (auto intro: normalized_length_pos normalized_length_le)
  then have "last (take ?n ls) = ls ! (?n - 1)" by (rule last_take_nth)
  with n ls normalized_length_top [of ls "length ls"] show ?thesis
    by (auto simp: trimmed_def in_use_def)
qed

lemma trimmed_normalized_length: "trimmed ls \<Longrightarrow> normalized_length ls (length ls) = length ls"
  by (cases "length ls") (auto simp: trimmed_def last_conv_nth)

lemma in_use_trimmed [simp]: "trimmed ls \<Longrightarrow> in_use ls = ls"
  by (simp add: in_use_def trimmed_normalized_length)

lemma trimmed_lower: "trimmed ls \<Longrightarrow> 1 < length ls \<Longrightarrow> 2 ^ (30 * (length ls - 1)) \<le> limbs_val ls"
proof -
  assume a: "trimmed ls" "1 < length ls"
  then have "ls = butlast ls @ [last ls]" and "last ls \<noteq> 0" by (auto simp: trimmed_def)
  then have "limbs_val ls = limbs_val (butlast ls) + 2 ^ (30 * (length ls - 1)) * unat (last ls)"
    by (metis length_butlast limbs_val.simps limbs_val_append add.right_neutral mult_0_right)
  moreover have "1 \<le> unat (last ls)" using \<open>last ls \<noteq> 0\<close> by (simp add: unat_eq_0 Suc_le_eq unat_gt_0)
  ultimately show ?thesis by (simp add: trans_le_add2)
qed

text \<open>A trimmed magnitude is determined by its number.\<close>

lemma trimmed_length:
  assumes "trimmed xs" "limbs_ok xs" "trimmed ys" "limbs_ok ys" "length xs < length ys"
  shows "limbs_val xs < limbs_val ys"
proof -
  have ys: "1 < length ys" using assms(1,5) by (cases xs) (auto simp: trimmed_def)
  have "limbs_val xs < 2 ^ (30 * length xs)" using assms by (simp add: limbs_val_bound)
  also have "\<dots> \<le> 2 ^ (30 * (length ys - 1))" using assms by (intro power_increasing) auto
  also have "\<dots> \<le> limbs_val ys" using assms(3) ys by (rule trimmed_lower)
  finally show ?thesis .
qed

lemma limbs_val_inj: "length xs = length ys \<Longrightarrow> limbs_ok xs \<Longrightarrow> limbs_ok ys \<Longrightarrow> limbs_val xs = limbs_val ys \<Longrightarrow> xs = ys"
proof (induction xs ys rule: list_induct2)
  case (Cons x xs y ys)
  then have "unat x < 2 ^ 30" "unat y < 2 ^ 30"
    and eq: "unat x + 2 ^ 30 * limbs_val xs = unat y + 2 ^ 30 * limbs_val ys" by simp_all
  then have "unat x = unat y" by (metis mod_less mod_mult_self2)
  moreover from this eq have "limbs_val xs = limbs_val ys" by simp
  with Cons have "xs = ys" by simp
  ultimately show ?case by (simp add: word_unat_eq_iff)
qed simp

subsection \<open>Comparison\<close>

text \<open>The loop of \<open>compare_magnitude\<close> from the top limb down.\<close>

fun compare_limbs :: "u32 list \<Rightarrow> u32 list \<Rightarrow> nat \<Rightarrow> int" where
  "compare_limbs left right 0 = 0"
| "compare_limbs left right (Suc i) =
     (if left ! i < right ! i then -1
      else if left ! i > right ! i then 1
      else compare_limbs left right i)"

definition compare_magnitude :: "u32 list \<Rightarrow> u32 list \<Rightarrow> int" where
  "compare_magnitude left right =
     (let left_length = normalized_length left (length left);
          right_length = normalized_length right (length right)
      in if left_length < right_length then -1
         else if left_length > right_length then 1
         else compare_limbs left right left_length)"

lemma compare_limbs_sgn:
  assumes "limbs_ok xs" "limbs_ok ys" "n \<le> length xs" "n \<le> length ys"
  shows "compare_limbs xs ys n = sgn (int (limbs_val (take n xs)) - int (limbs_val (take n ys)))"
  using assms(3,4)
proof (induction n)
  case (Suc n)
  let ?X = "limbs_val (take n xs)" and ?Y = "limbs_val (take n ys)" and ?b = "2 ^ (30 * n) :: nat"
  have X: "?X < ?b" and Y: "?Y < ?b"
    using assms(1,2) Suc.prems limbs_val_bound [of "take n xs"] limbs_val_bound [of "take n ys"] by auto
  have "limbs_val (take (Suc n) xs) = ?X + ?b * unat (xs ! n)"
    and "limbs_val (take (Suc n) ys) = ?Y + ?b * unat (ys ! n)"
    using Suc.prems by (simp_all add: take_Suc_conv_app_nth limbs_val_append)
  note vals = this
  have lt: "u + ?b * p < v + ?b * q" if "p < q" "u < ?b" for p q u v
  proof -
    have "u + ?b * p < ?b * Suc p" using that by simp
    also have "\<dots> \<le> ?b * q" using that(1) by (intro mult_left_mono) auto
    finally show ?thesis by simp
  qed
  show ?case
  proof (cases "unat (xs ! n)" "unat (ys ! n)" rule: linorder_cases)
    case less
    then have "limbs_val (take (Suc n) xs) < limbs_val (take (Suc n) ys)" by (simp only: vals lt X)
    with less show ?thesis by (simp add: word_less_nat_alt)
  next
    case equal
    then have "xs ! n = ys ! n" by (simp add: word_unat_eq_iff)
    with Suc show ?thesis by (simp add: vals)
  next
    case greater
    then have "limbs_val (take (Suc n) ys) < limbs_val (take (Suc n) xs)" by (simp only: vals lt Y)
    with greater show ?thesis by (simp add: word_less_nat_alt)
  qed
qed simp

lemma compare_magnitude_sgn:
  assumes "limbs_ok xs" "limbs_ok ys" "xs \<noteq> []" "ys \<noteq> []"
  shows "compare_magnitude xs ys = sgn (int (limbs_val xs) - int (limbs_val ys))"
proof -
  let ?m = "normalized_length xs (length xs)" and ?n = "normalized_length ys (length ys)"
  have t: "trimmed (in_use xs)" "trimmed (in_use ys)" using assms by (simp_all add: trimmed_in_use)
  have l: "length (in_use xs) = ?m" "length (in_use ys) = ?n"
    by (simp_all add: in_use_def normalized_length_le)
  show ?thesis
  proof (cases ?m ?n rule: linorder_cases)
    case less
    then have "limbs_val (in_use xs) < limbs_val (in_use ys)"
      using assms t l by (intro trimmed_length) auto
    with less show ?thesis by (simp add: compare_magnitude_def)
  next
    case equal
    then have "compare_magnitude xs ys = compare_limbs xs ys ?m" by (simp add: compare_magnitude_def)
    also have "\<dots> = sgn (int (limbs_val (in_use xs)) - int (limbs_val (in_use ys)))"
      using assms equal normalized_length_le [of xs "length xs"] normalized_length_le [of ys "length ys"]
      by (subst compare_limbs_sgn) (auto simp: in_use_def)
    finally show ?thesis by simp
  next
    case greater
    then have "limbs_val (in_use ys) < limbs_val (in_use xs)"
      using assms t l by (intro trimmed_length) auto
    with greater show ?thesis by (simp add: compare_magnitude_def)
  qed
qed

subsection \<open>Addition\<close>

text \<open>The loop over the longer operand, and the final store of the carry.\<close>

fun add_limbs :: "u32 list \<Rightarrow> u32 list \<Rightarrow> u64 \<Rightarrow> u32 list" where
  "add_limbs [] [] carry = [ucast carry]"
| "add_limbs (x # xs) [] carry =
     (let sum = carry + ucast x in limb_of sum # add_limbs xs [] (carry_of sum))"
| "add_limbs [] (y # ys) carry =
     (let sum = carry + ucast y in limb_of sum # add_limbs [] ys (carry_of sum))"
| "add_limbs (x # xs) (y # ys) carry =
     (let sum = carry + ucast x + ucast y in limb_of sum # add_limbs xs ys (carry_of sum))"

lemma small_sum_u64 [word_nat]:
  "unat c \<le> 1 \<Longrightarrow> unat x < 2 ^ 30 \<Longrightarrow> unat (c + ucast (x :: u32) :: u64) = unat c + unat x"
  by (subst unat_add_no_wrap) auto

lemma small_sum2_u64 [word_nat]:
  "unat c \<le> 1 \<Longrightarrow> unat x < 2 ^ 30 \<Longrightarrow> unat y < 2 ^ 30 \<Longrightarrow>
   unat (c + ucast (x :: u32) + ucast (y :: u32) :: u64) = unat c + unat x + unat y"
  by (subst unat_add_no_wrap; simp add: small_sum_u64)

lemma unat_ucast_carry: "unat (c :: u64) \<le> 1 \<Longrightarrow> unat (ucast c :: u32) = unat c"
  by (simp add: unat_ucast_mod)

lemma carry_of_small: "unat s = c + x \<Longrightarrow> c \<le> 1 \<Longrightarrow> x < 2 ^ 30 \<Longrightarrow> unat (carry_of s) \<le> 1"
  and carry_of_small2: "unat s = c + x + y \<Longrightarrow> c \<le> 1 \<Longrightarrow> x < 2 ^ 30 \<Longrightarrow> y < 2 ^ 30 \<Longrightarrow> unat (carry_of s) \<le> 1"
  using less_mult_imp_div_less [of "unat s" 2 "2 ^ 30"] by simp_all

lemma add_limbs_correct:
  "limbs_ok xs \<Longrightarrow> limbs_ok ys \<Longrightarrow> unat c \<le> 1 \<Longrightarrow>
   limbs_val (add_limbs xs ys c) = limbs_val xs + limbs_val ys + unat c \<and>
   limbs_ok (add_limbs xs ys c) \<and> add_limbs xs ys c \<noteq> []"
proof (induction xs ys c rule: add_limbs.induct)
  case (1 c)
  then show ?case by (simp add: unat_ucast_carry)
next
  case (2 x xs c)
  let ?s = "c + ucast x"
  have s: "unat ?s = unat c + unat x" using 2 by (simp add: small_sum_u64)
  then have "unat (carry_of ?s) \<le> 1" by (rule carry_of_small) (use 2 in simp_all)
  with 2 have "limbs_val (add_limbs xs [] (carry_of ?s)) = limbs_val xs + unat (carry_of ?s)"
    and "limbs_ok (add_limbs xs [] (carry_of ?s))" by simp_all
  with s limb_carry_split [of ?s] show ?case by (simp add: Let_def algebra_simps)
next
  case (3 y ys c)
  let ?s = "c + ucast y"
  have s: "unat ?s = unat c + unat y" using 3 by (simp add: small_sum_u64)
  then have "unat (carry_of ?s) \<le> 1" by (rule carry_of_small) (use 3 in simp_all)
  with 3 have "limbs_val (add_limbs [] ys (carry_of ?s)) = limbs_val ys + unat (carry_of ?s)"
    and "limbs_ok (add_limbs [] ys (carry_of ?s))" by simp_all
  with s limb_carry_split [of ?s] show ?case by (simp add: Let_def algebra_simps)
next
  case (4 x xs y ys c)
  let ?s = "c + ucast x + ucast y"
  have s: "unat ?s = unat c + unat x + unat y" using 4 by (simp add: small_sum2_u64)
  then have "unat (carry_of ?s) \<le> 1" by (rule carry_of_small2) (use 4 in simp_all)
  with 4 have "limbs_val (add_limbs xs ys (carry_of ?s)) = limbs_val xs + limbs_val ys + unat (carry_of ?s)"
    and "limbs_ok (add_limbs xs ys (carry_of ?s))" by simp_all
  with s limb_carry_split [of ?s] show ?case by (simp add: Let_def algebra_simps)
qed

subsection \<open>Subtraction\<close>

text \<open>The loop \<open>subtract_magnitude\<close> and \<open>subtract_in_place\<close> share: a limb the right operand does
  not have reads as 0.\<close>

fun subtract_limbs :: "u32 list \<Rightarrow> u32 list \<Rightarrow> u64 \<Rightarrow> u32 list" where
  "subtract_limbs [] right borrow = []"
| "subtract_limbs (x # xs) right borrow =
     (let right_limb = (case right of [] \<Rightarrow> 0 | y # _ \<Rightarrow> ucast y);
          needed = right_limb + borrow
      in if ucast x < needed
         then ucast (ucast x + ucast BIGINT_BASE - needed) # subtract_limbs xs (tl right) 1
         else ucast (ucast x - needed) # subtract_limbs xs (tl right) 0)"

definition subtract_in_place :: "u32 list \<Rightarrow> u32 list \<Rightarrow> u32 list" where
  "subtract_in_place left right = subtract_limbs left right 0"

lemma length_subtract_limbs [simp]: "length (subtract_limbs xs ys b) = length xs"
  by (induction xs ys b rule: subtract_limbs.induct) (simp_all add: Let_def)

lemma subtract_limbs_correct:
  "limbs_ok xs \<Longrightarrow> limbs_ok ys \<Longrightarrow> unat b \<le> 1 \<Longrightarrow> length ys \<le> length xs \<Longrightarrow>
   limbs_ok (subtract_limbs xs ys b) \<and>
   (\<exists>out \<le> 1. limbs_val (subtract_limbs xs ys b) + limbs_val ys + unat b = limbs_val xs + out * 2 ^ (30 * length xs))"
proof (induction xs ys b rule: subtract_limbs.induct)
  case (1 ys b)
  then show ?case by (auto intro: exI [of _ "unat b"])
next
  case (2 x xs ys b)
  define y where "y = (case ys of [] \<Rightarrow> 0 | y # _ \<Rightarrow> unat y)"
  define needed :: u64 where "needed = (case ys of [] \<Rightarrow> 0 | y # _ \<Rightarrow> ucast y) + b"
  have y: "y < 2 ^ 30" and ysval: "limbs_val ys = y + 2 ^ 30 * limbs_val (tl ys)"
    using 2 by (cases ys; simp add: y_def)+
  have x: "unat x < 2 ^ 30" using 2 by simp
  have needed: "unat needed = y + unat b"
    using 2 y unfolding needed_def y_def by (cases ys; simp; subst unat_add_no_wrap; simp)
  have tl: "limbs_ok (tl ys)" "length (tl ys) \<le> length xs" "limbs_ok xs" using 2 by auto
  show ?case
  proof (cases "(ucast x :: u64) < needed")
    case True
    then have lt: "unat x < y + unat b" by (simp add: word_less_nat_alt needed)
    have plus: "unat (ucast x + ucast BIGINT_BASE :: u64) = unat x + 2 ^ 30"
      using x by (subst unat_add_no_wrap) auto
    then have "unat (ucast x + ucast BIGINT_BASE - needed) = unat x + 2 ^ 30 - (y + unat b)"
      using y 2 needed by (subst unat_sub_no_wrap) auto
    then have limb: "unat (ucast (ucast x + ucast BIGINT_BASE - needed) :: u32) = unat x + 2 ^ 30 - (y + unat b)"
      using lt x by (simp add: unat_ucast_mod)
    obtain out where IH: "limbs_ok (subtract_limbs xs (tl ys) 1)" "out \<le> 1"
      "limbs_val (subtract_limbs xs (tl ys) 1) + limbs_val (tl ys) + 1 = limbs_val xs + out * 2 ^ (30 * length xs)"
      using 2(1) [OF _ _ True [unfolded needed_def]] tl by (auto simp: needed_def)
    have diff: "unat x + 2 ^ 30 - (y + unat b) + y + unat b = unat x + 2 ^ 30"
      using lt y 2(5) by simp
    have step: "subtract_limbs (x # xs) ys b
        = ucast (ucast x + ucast BIGINT_BASE - needed) # subtract_limbs xs (tl ys) 1"
      using True by (simp add: Let_def needed_def)
    have "limbs_val (subtract_limbs (x # xs) ys b) + limbs_val ys + unat b
        = unat x + 2 ^ 30 * (limbs_val (subtract_limbs xs (tl ys) 1) + limbs_val (tl ys) + 1)"
      using diff unfolding step limbs_val.simps limb ysval by (simp add: algebra_simps)
    also have "\<dots> = limbs_val (x # xs) + out * 2 ^ (30 * length (x # xs))"
      unfolding IH(3) by (simp add: power_add algebra_simps)
    finally have "limbs_val (subtract_limbs (x # xs) ys b) + limbs_val ys + unat b
        = limbs_val (x # xs) + out * 2 ^ (30 * length (x # xs))" .
    moreover have "limbs_ok (subtract_limbs (x # xs) ys b)"
      using lt IH(1) limb unfolding step by simp
    ultimately show ?thesis using IH(2) by blast
  next
    case False
    then have ge: "y + unat b \<le> unat x" by (simp add: word_less_nat_alt needed)
    then have "unat (ucast x - needed) = unat x - (y + unat b)"
      using needed by (subst unat_sub_no_wrap) auto
    then have limb: "unat (ucast (ucast x - needed) :: u32) = unat x - (y + unat b)"
      using x by (simp add: unat_ucast_mod)
    obtain out where IH: "limbs_ok (subtract_limbs xs (tl ys) 0)" "out \<le> 1"
      "limbs_val (subtract_limbs xs (tl ys) 0) + limbs_val (tl ys) = limbs_val xs + out * 2 ^ (30 * length xs)"
      using 2(2) [OF _ _ False [unfolded needed_def]] tl by (auto simp: needed_def)
    have diff: "unat x - (y + unat b) + y + unat b = unat x" using ge by simp
    have step: "subtract_limbs (x # xs) ys b = ucast (ucast x - needed) # subtract_limbs xs (tl ys) 0"
      using False by (simp add: Let_def needed_def)
    have "limbs_val (subtract_limbs (x # xs) ys b) + limbs_val ys + unat b
        = unat x + 2 ^ 30 * (limbs_val (subtract_limbs xs (tl ys) 0) + limbs_val (tl ys))"
      using diff unfolding step limbs_val.simps limb ysval by (simp add: algebra_simps)
    also have "\<dots> = limbs_val (x # xs) + out * 2 ^ (30 * length (x # xs))"
      unfolding IH(3) by (simp add: power_add algebra_simps)
    finally have "limbs_val (subtract_limbs (x # xs) ys b) + limbs_val ys + unat b
        = limbs_val (x # xs) + out * 2 ^ (30 * length (x # xs))" .
    moreover have "limbs_ok (subtract_limbs (x # xs) ys b)"
      using x IH(1) limb unfolding step by simp
    ultimately show ?thesis using IH(2) by blast
  qed
qed

lemma subtract_limbs_val:
  assumes "limbs_ok xs" "limbs_ok ys" "length ys \<le> length xs" "limbs_val ys \<le> limbs_val xs"
  shows "limbs_val (subtract_limbs xs ys 0) = limbs_val xs - limbs_val ys"
    and "limbs_ok (subtract_limbs xs ys 0)"
proof -
  obtain out where out: "out \<le> 1" and ok: "limbs_ok (subtract_limbs xs ys 0)"
    and eq: "limbs_val (subtract_limbs xs ys 0) + limbs_val ys = limbs_val xs + out * 2 ^ (30 * length xs)"
    using subtract_limbs_correct [of xs ys 0] assms by auto
  have "limbs_val (subtract_limbs xs ys 0) < 2 ^ (30 * length xs)"
    using limbs_val_bound [OF ok] by simp
  with eq assms(4) out have "out = 0" by (cases "out = 0") (auto simp: le_Suc_eq)
  with eq show "limbs_val (subtract_limbs xs ys 0) = limbs_val xs - limbs_val ys" by simp
  show "limbs_ok (subtract_limbs xs ys 0)" by (rule ok)
qed

end
