(* ===== verification/BigInt_Division.thy ===== *)
theory BigInt_Division
  imports BigInt_Magnitude
begin

text \<open>
  Products and quotients of magnitudes (\<open>runtime_bigint.c\<close>): the schoolbook multiplication over a
  zeroed block, the bit length and single bits of a magnitude, and the bitwise long division that
  shifts one bit of the dividend at a time into the remainder.
\<close>

subsection \<open>Multiplication\<close>

text \<open>The inner loop over the right operand, on the part of the result block that starts at
  \<open>left_index\<close>; the last store writes the carry over the next cell.\<close>

fun multiply_row :: "u32 \<Rightarrow> u32 list \<Rightarrow> u32 list \<Rightarrow> u64 \<Rightarrow> u32 list" where
  "multiply_row l (r # rs) (cell # cells) carry =
     (let product = ucast l * ucast r + ucast cell + carry
      in limb_of product # multiply_row l rs cells (carry_of product))"
| "multiply_row l [] (cell # cells) carry = ucast carry # cells"
| "multiply_row l rs [] carry = []"

text \<open>The outer loop: the lowest cell is final after its row.\<close>

fun multiply_rows :: "u32 list \<Rightarrow> u32 list \<Rightarrow> u32 list \<Rightarrow> u32 list" where
  "multiply_rows [] right cells = cells"
| "multiply_rows (l # ls) right cells =
     (case multiply_row l right cells 0 of
        [] \<Rightarrow> []
      | cell # rest \<Rightarrow> cell # multiply_rows ls right rest)"

lemma product_u64:
  assumes "unat l < 2 ^ 30" "unat r < 2 ^ 30" "unat cell < 2 ^ 30" "unat c < 2 ^ 30"
  defines "p \<equiv> ucast (l :: u32) * ucast (r :: u32) + ucast (cell :: u32) + (c :: u64)"
  shows "unat p = unat l * unat r + unat cell + unat c"
    and "unat (carry_of p) < 2 ^ 30"
proof -
  have "unat l * unat r \<le> (2 ^ 30 - 1) * (2 ^ 30 - 1)" using assms by (intro mult_le_mono) auto
  then have b: "unat l * unat r + unat cell + unat c < 2 ^ 60" using assms by simp
  then have m: "unat (ucast l * ucast r :: u64) = unat l * unat r"
    by (subst unat_mult_no_wrap) auto
  with b have a: "unat (ucast l * ucast r + ucast cell :: u64) = unat l * unat r + unat cell"
    by (subst unat_add_no_wrap) auto
  with b show p: "unat p = unat l * unat r + unat cell + unat c"
    unfolding p_def by (subst unat_add_no_wrap) auto
  show "unat (carry_of p) < 2 ^ 30" using b p by (simp add: less_mult_imp_div_less)
qed

lemma multiply_row_correct:
  "unat l < 2 ^ 30 \<Longrightarrow> limbs_ok rs \<Longrightarrow> limbs_ok cells \<Longrightarrow> length cells = length rs \<Longrightarrow> unat c < 2 ^ 30 \<Longrightarrow>
   \<exists>out. multiply_row l rs (cells @ cell # zs) c = out @ zs \<and> length out = Suc (length rs) \<and> limbs_ok out
     \<and> limbs_val out = unat l * limbs_val rs + limbs_val cells + unat c"
proof (induction rs arbitrary: cells c)
  case Nil
  then show ?case by (auto intro!: exI [of _ "[ucast c]"] simp: unat_ucast_mod)
next
  case (Cons r rs)
  then obtain a as where cells: "cells = a # as" by (cases cells) auto
  define p where "p = ucast l * ucast r + ucast a + c"
  have p: "unat p = unat l * unat r + unat a + unat c" "unat (carry_of p) < 2 ^ 30"
    unfolding p_def by (rule product_u64; use Cons.prems cells in simp)+
  obtain out where out: "multiply_row l rs (as @ cell # zs) (carry_of p) = out @ zs"
    "length out = Suc (length rs)" "limbs_ok out"
    "limbs_val out = unat l * limbs_val rs + limbs_val as + unat (carry_of p)"
    using Cons.IH [of as "carry_of p"] Cons.prems cells p(2) by auto
  have "limbs_val (limb_of p # out) = unat (limb_of p) + 2 ^ 30 * unat (carry_of p) + 2 ^ 30 * (unat l * limbs_val rs + limbs_val as)"
    by (simp only: limbs_val.simps out(4)) (simp add: algebra_simps)
  also have "\<dots> = unat l * limbs_val (r # rs) + limbs_val cells + unat c"
    unfolding limb_carry_split p(1) cells by (simp add: algebra_simps)
  finally have "limbs_val (limb_of p # out) = unat l * limbs_val (r # rs) + limbs_val cells + unat c" .
  moreover have "multiply_row l (r # rs) (cells @ cell # zs) c = (limb_of p # out) @ zs"
    using out(1) by (simp add: cells Let_def p_def)
  ultimately show ?case using out(2,3) by (intro exI [of _ "limb_of p # out"]) auto
qed

lemma multiply_rows_correct:
  "limbs_ok ls \<Longrightarrow> limbs_ok rs \<Longrightarrow> limbs_ok cells \<Longrightarrow> length cells = length rs \<Longrightarrow>
   limbs_val (multiply_rows ls rs (cells @ replicate (length ls) 0)) = limbs_val ls * limbs_val rs + limbs_val cells
   \<and> limbs_ok (multiply_rows ls rs (cells @ replicate (length ls) 0))
   \<and> length (multiply_rows ls rs (cells @ replicate (length ls) 0)) = length ls + length rs"
proof (induction ls arbitrary: cells)
  case (Cons l ls)
  obtain out where out: "multiply_row l rs (cells @ 0 # replicate (length ls) 0) 0 = out @ replicate (length ls) 0"
    "length out = Suc (length rs)" "limbs_ok out" "limbs_val out = unat l * limbs_val rs + limbs_val cells"
    using multiply_row_correct [of l rs cells 0 0 "replicate (length ls) 0"] Cons.prems by auto
  obtain a as where as: "out = a # as" using out(2) by (cases out) auto
  have IH: "limbs_val (multiply_rows ls rs (as @ replicate (length ls) 0)) = limbs_val ls * limbs_val rs + limbs_val as"
    "limbs_ok (multiply_rows ls rs (as @ replicate (length ls) 0))"
    "length (multiply_rows ls rs (as @ replicate (length ls) 0)) = length ls + length rs"
    using Cons.IH [of as] Cons.prems out as by auto
  have "multiply_rows (l # ls) rs (cells @ replicate (length (l # ls)) 0) = a # multiply_rows ls rs (as @ replicate (length ls) 0)"
    using out(1) by (simp add: as)
  moreover have "unat a + 2 ^ 30 * (limbs_val ls * limbs_val rs + limbs_val as) = limbs_val (l # ls) * limbs_val rs + limbs_val cells"
    using out(4) by (simp add: as algebra_simps)
  ultimately show ?case using IH out(3) by (simp add: as)
qed simp

subsection \<open>Bit length and single bits\<close>

function top_bits :: "u32 \<Rightarrow> nat \<Rightarrow> nat" where
  "top_bits t n = (if t \<noteq> 0 then top_bits (drop_bit 1 t) (n + 1) else n)"
  by pat_completeness auto
termination
  by (relation "measure (\<lambda>(t, n). unat t)") (auto simp: unat_drop_bit unat_gt_0)

declare top_bits.simps [simp del]

definition magnitude_bits :: "u32 list \<Rightarrow> nat" where
  "magnitude_bits ls =
     (let length = normalized_length ls (length ls)
      in (length - 1) * BIGINT_BITS + top_bits (ls ! (length - 1)) 0)"

definition magnitude_bit :: "u32 list \<Rightarrow> nat \<Rightarrow> bool" where
  "magnitude_bit ls b =
     (let index = b div BIGINT_BITS
      in if index \<ge> length ls then False
         else drop_bit (b mod BIGINT_BITS) (ls ! index) AND 1 \<noteq> 0)"

lemma top_bits_nbits: "top_bits t n = n + nbits (unat t)"
proof (induction t n rule: top_bits.induct)
  case (1 t n)
  then show ?case by (subst top_bits.simps) (simp add: unat_drop_bit nbits_pos unat_gt_0)
qed

lemma nbits_concat:
  assumes "low < 2 ^ k" "0 < t"
  shows "nbits (low + 2 ^ k * t) = k + nbits t"
proof -
  obtain m where m: "nbits t = Suc m" using assms(2) by (cases "nbits t") auto
  have "2 ^ m \<le> t" using two_pow_nbits_le [OF assms(2)] m by simp
  then have "2 ^ k * 2 ^ m \<le> 2 ^ k * t" by (rule mult_left_mono) simp
  then have lower: "2 ^ (k + m) \<le> low + 2 ^ k * t" by (simp add: power_add trans_le_add2)
  have "Suc t \<le> 2 ^ Suc m" using less_two_pow_nbits [of t] m by simp
  then have "2 ^ k * Suc t \<le> 2 ^ k * 2 ^ Suc m" by (rule mult_left_mono) simp
  with assms(1) have "low + 2 ^ k * t < 2 ^ Suc (k + m)" by (simp add: power_add)
  with lower show ?thesis using nbits_eqI [of "k + m"] m by simp
qed

lemma magnitude_bits_nbits:
  assumes "limbs_ok ls" "ls \<noteq> []"
  shows "magnitude_bits ls = nbits (limbs_val ls)"
proof -
  let ?n = "normalized_length ls (length ls)"
  have n: "0 < ?n" "?n \<le> length ls"
    using assms by (auto intro: normalized_length_pos normalized_length_le)
  then obtain k where k: "?n = Suc k" and "k < length ls" by (cases ?n) auto
  then have "limbs_val (take ?n ls) = limbs_val (take k ls) + 2 ^ (30 * k) * unat (ls ! k)"
    by (simp add: take_Suc_conv_app_nth limbs_val_append)
  moreover have "limbs_val (take ?n ls) = limbs_val ls" by (simp add: limbs_val_normalized)
  ultimately have val: "limbs_val ls = limbs_val (take (?n - 1) ls) + 2 ^ (30 * (?n - 1)) * unat (ls ! (?n - 1))"
    by (simp add: k)
  show ?thesis
  proof (cases "ls ! (?n - 1) = 0")
    case True
    then have "?n = 1" using normalized_length_top [of ls "length ls"] n by (cases "?n = 1") auto
    with val True show ?thesis by (simp add: magnitude_bits_def top_bits_nbits Let_def)
  next
    case False
    have "limbs_val (take (?n - 1) ls) < 2 ^ (30 * (?n - 1))"
      using limbs_val_bound [of "take (?n - 1) ls"] assms n by (simp add: min_absorb2)
    then have "nbits (limbs_val ls) = 30 * (?n - 1) + nbits (unat (ls ! (?n - 1)))"
      using False by (subst val) (rule nbits_concat, simp_all add: unat_gt_0)
    then show ?thesis by (simp add: magnitude_bits_def top_bits_nbits Let_def)
  qed
qed

lemma magnitude_bit_odd:
  assumes "limbs_ok ls"
  shows "magnitude_bit ls b \<longleftrightarrow> odd (limbs_val ls div 2 ^ b)"
proof -
  let ?i = "b div 30" and ?s = "b mod 30"
  have b: "b = 30 * ?i + ?s" by simp
  show ?thesis
  proof (cases "?i < length ls")
    case False
    then have "30 * length ls \<le> b" by (simp add: less_eq_div_iff_mult_less_eq)
    then have "(2::nat) ^ (30 * length ls) \<le> 2 ^ b" by simp
    with limbs_val_bound [OF assms] have "limbs_val ls < 2 ^ b" by linarith
    then have "limbs_val ls div 2 ^ b = 0" by simp
    with False show ?thesis by (simp add: magnitude_bit_def)
  next
    case True
    let ?x = "unat (ls ! ?i)"
    have "limbs_val ls div 2 ^ b = limbs_val ls div 2 ^ (30 * ?i) div 2 ^ ?s"
      by (subst b) (simp only: power_add div_mult2_eq)
    also have "\<dots> = (?x + 2 ^ 30 * limbs_val (drop (Suc ?i) ls)) div 2 ^ ?s"
      using True assms by (simp add: limbs_val_div Cons_nth_drop_Suc [symmetric])
    also have "(2::nat) ^ 30 = 2 ^ ?s * (2 * 2 ^ (29 - ?s))"
    proof -
      have "?s + Suc (29 - ?s) = 30" using mod_less_divisor [of 30 b] by simp
      then show ?thesis by (metis power_Suc power_add)
    qed
    also have "(?x + 2 ^ ?s * (2 * 2 ^ (29 - ?s)) * limbs_val (drop (Suc ?i) ls)) div 2 ^ ?s
        = ?x div 2 ^ ?s + 2 * (2 ^ (29 - ?s) * limbs_val (drop (Suc ?i) ls))"
      by (simp only: mult.assoc) (simp add: add.commute)
    finally have "odd (limbs_val ls div 2 ^ b) \<longleftrightarrow> odd (?x div 2 ^ ?s)" by simp
    with True show ?thesis by (simp add: magnitude_bit_def bit_word_odd)
  qed
qed

subsection \<open>Long division\<close>

text \<open>\<open>shift_one_add\<close>: the magnitude doubled, with a bit shifted in at the bottom.\<close>

fun shift_one_loop :: "u32 list \<Rightarrow> u32 \<Rightarrow> u32 list" where
  "shift_one_loop [] carry = []"
| "shift_one_loop (x # xs) carry =
     (let next = drop_bit (BIGINT_BITS - 1) x
      in ((push_bit 1 x AND BIGINT_MASK) OR carry) # shift_one_loop xs next)"

definition shift_one_add :: "u32 list \<Rightarrow> bool \<Rightarrow> u32 list" where
  "shift_one_add ls b = shift_one_loop ls (if b then 1 else 0)"

text \<open>The loop of \<open>divide_magnitude\<close> over \<open>cursor\<close>, from the top bit of the dividend down.\<close>

fun divide_loop :: "u32 list \<Rightarrow> u32 list \<Rightarrow> nat \<Rightarrow> u32 list \<Rightarrow> u32 list \<Rightarrow> u32 list \<times> u32 list" where
  "divide_loop dividend divisor 0 quot rest = (quot, rest)"
| "divide_loop dividend divisor (Suc b) quot rest =
     (let shifted = shift_one_add rest (magnitude_bit dividend b)
      in if compare_magnitude shifted divisor \<ge> 0
         then divide_loop dividend divisor b
                (quot[b div BIGINT_BITS := (quot ! (b div BIGINT_BITS)) OR push_bit (b mod BIGINT_BITS) 1])
                (subtract_in_place shifted divisor)
         else divide_loop dividend divisor b quot shifted)"

lemma doubled_limb:
  assumes "unat (x :: u32) < 2 ^ 30" "unat c \<le> 1"
  defines "y \<equiv> (push_bit 1 x AND BIGINT_MASK) OR c"
  shows "unat y + 2 ^ 30 * unat (drop_bit 29 x) = 2 * unat x + unat c"
    and "unat y < 2 ^ 30" and "unat (drop_bit 29 x) \<le> 1"
proof -
  have p: "unat (push_bit 1 x) = 2 * unat x"
    using assms(1) by (simp add: push_bit_eq_mult unat_mult_no_wrap)
  have "(push_bit 1 x AND BIGINT_MASK) AND c = 0"
  proof (rule and_zeroI)
    fix n
    assume "bit (push_bit 1 x AND BIGINT_MASK) n" and "bit c n"
    with bit_small [of c 1 n] assms(2) show False
      by (auto simp only: bit_and_iff bit_push_bit_iff) simp
  qed
  then have y: "unat y = 2 * unat x mod 2 ^ 30 + unat c"
    unfolding y_def by (simp only: unat_or_disjoint unat_mask_u32 p)
  have d: "unat (drop_bit 29 x) = 2 * unat x div 2 ^ 30"
    using div_mult2_eq [of "2 * unat x" 2 "2 ^ 29"] by (simp add: unat_drop_bit)
  show "unat y + 2 ^ 30 * unat (drop_bit 29 x) = 2 * unat x + unat c"
    unfolding y d by (simp only: ac_simps mod_mult_div_eq mult_div_mod_eq div_mult_mod_eq)
  show "unat (drop_bit 29 x) \<le> 1"
    unfolding d using assms(1) less_mult_imp_div_less [of "2 * unat x" 2 "2 ^ 30"] by simp
  have "2 * unat x mod 2 ^ 30 = 2 * (unat x mod 2 ^ 29)"
    using mult_mod_right [of 2 "unat x" "2 ^ 29"] by simp
  moreover have "unat x mod 2 ^ 29 < 2 ^ 29" by simp
  ultimately have "2 * unat x mod 2 ^ 30 + 1 < 2 ^ 30" by simp
  with assms(2) y show "unat y < 2 ^ 30" by linarith
qed

lemma length_shift_one_loop [simp]: "length (shift_one_loop xs c) = length xs"
  by (induction xs c rule: shift_one_loop.induct) (simp_all add: Let_def)

lemma shift_one_loop_correct:
  "limbs_ok xs \<Longrightarrow> unat c \<le> 1 \<Longrightarrow>
   limbs_ok (shift_one_loop xs c) \<and>
   (\<exists>out. limbs_val (shift_one_loop xs c) + out * 2 ^ (30 * length xs) = 2 * limbs_val xs + unat c)"
proof (induction xs c rule: shift_one_loop.induct)
  case (1 c)
  then show ?case by (auto intro: exI [of _ "unat c"])
next
  case (2 x xs c)
  let ?y = "(push_bit 1 x AND BIGINT_MASK) OR c" and ?d = "drop_bit 29 x"
  have y: "unat ?y + 2 ^ 30 * unat ?d = 2 * unat x + unat c" "unat ?y < 2 ^ 30" "unat ?d \<le> 1"
    by (rule doubled_limb; use 2 in simp)+
  obtain out where IH: "limbs_ok (shift_one_loop xs ?d)"
    "limbs_val (shift_one_loop xs ?d) + out * 2 ^ (30 * length xs) = 2 * limbs_val xs + unat ?d"
    using 2 y(3) by auto
  have step: "shift_one_loop (x # xs) c = ?y # shift_one_loop xs ?d" by (simp add: Let_def)
  have "limbs_val (shift_one_loop (x # xs) c) + out * 2 ^ (30 * length (x # xs))
      = unat ?y + 2 ^ 30 * (limbs_val (shift_one_loop xs ?d) + out * 2 ^ (30 * length xs))"
    unfolding step by (simp add: power_add algebra_simps)
  also have "\<dots> = 2 * limbs_val (x # xs) + unat c"
    using y(1) unfolding IH(2) by (simp add: algebra_simps)
  finally show ?case using IH(1) y(2) unfolding step by auto
qed

lemma shift_one_add_val:
  assumes "limbs_ok xs" "2 * limbs_val xs + 1 < 2 ^ (30 * length xs)"
  shows "limbs_val (shift_one_add xs b) = 2 * limbs_val xs + (if b then 1 else 0)"
    and "limbs_ok (shift_one_add xs b)" and "length (shift_one_add xs b) = length xs"
proof -
  let ?c = "if b then 1 else 0 :: u32"
  obtain out where "limbs_ok (shift_one_loop xs ?c)"
    and eq: "limbs_val (shift_one_loop xs ?c) + out * 2 ^ (30 * length xs) = 2 * limbs_val xs + unat ?c"
    using shift_one_loop_correct [OF assms(1), of ?c] by (cases b) auto
  then show "limbs_ok (shift_one_add xs b)" by (simp add: shift_one_add_def)
  have "out = 0"
  proof (rule ccontr)
    assume "out \<noteq> 0"
    then have "2 ^ (30 * length xs) \<le> out * 2 ^ (30 * length xs)" by (cases out) auto
    moreover have "unat ?c \<le> 1" by simp
    ultimately show False using eq assms(2) by linarith
  qed
  with eq show "limbs_val (shift_one_add xs b) = 2 * limbs_val xs + (if b then 1 else 0)"
    by (simp add: shift_one_add_def split: if_splits)
  show "length (shift_one_add xs b) = length xs" by (simp add: shift_one_add_def)
qed

text \<open>Setting a bit that is still clear adds its weight.\<close>

lemma set_limb_bit:
  assumes "limbs_ok q" "b div 30 < length q" "even (limbs_val q div 2 ^ b)"
  defines "q' \<equiv> q[b div 30 := (q ! (b div 30)) OR push_bit (b mod 30) 1]"
  shows "limbs_val q' = limbs_val q + 2 ^ b" and "limbs_ok q'"
proof -
  let ?i = "b div 30" and ?s = "b mod 30"
  have s: "?s < 30" by simp
  have "\<not> magnitude_bit q b" using magnitude_bit_odd [OF assms(1)] assms(3) by simp
  then have clear: "\<not> bit (q ! ?i) ?s"
    using assms(2) by (simp add: magnitude_bit_def bit_word_odd bit_iff_odd [symmetric] bit_unsigned_iff)
  have one: "unat (push_bit ?s 1 :: u32) = 2 ^ ?s"
  proof -
    have "(2::nat) ^ ?s < 2 ^ 32" using s by (intro power_strict_increasing) auto
    then show ?thesis by (simp only: unsigned_push_bit_eq) (simp add: take_bit_nat_eq_self)
  qed
  have "(q ! ?i) AND push_bit ?s 1 = 0"
    using clear by (intro and_zeroI) (simp only: bit_push_bit_iff bit_1_iff, metis diff_is_0_eq le_antisym)
  then have sum: "unat ((q ! ?i) OR push_bit ?s 1) = unat (q ! ?i) + 2 ^ ?s"
    by (simp only: unat_or_disjoint one)
  have "(2::nat) ^ b = 2 ^ (30 * ?i) * 2 ^ ?s" by (simp flip: power_add)
  with limbs_val_update [OF assms(2), of "(q ! ?i) OR push_bit ?s 1"]
  show "limbs_val q' = limbs_val q + 2 ^ b"
    unfolding q'_def sum by (simp add: algebra_simps)
  have "(2::nat) ^ ?s < 2 ^ 30" using s by (intro power_strict_increasing) auto
  then show "limbs_ok q'"
    unfolding q'_def using assms(1,2) one
    by (intro limbs_ok_update unat_or_small limbs_ok_nth) auto
qed

lemma division_step:
  fixes D d b :: nat
  assumes "D div 2 ^ Suc b = q * d + r"
  shows "D div 2 ^ b = 2 * q * d + (2 * r + (if odd (D div 2 ^ b) then 1 else 0))"
proof -
  have "D div 2 ^ Suc b = D div 2 ^ b div 2" by (simp add: div_mult2_eq [symmetric] mult.commute)
  with assms have "D div 2 ^ b div 2 = q * d + r" by simp
  moreover have "D div 2 ^ b = 2 * (D div 2 ^ b div 2) + (if odd (D div 2 ^ b) then 1 else 0)"
    using odd_two_times_div_two_succ [of "D div 2 ^ b"] by auto
  ultimately show ?thesis by (simp add: algebra_simps)
qed

lemma divide_loop_correct:
  assumes ok: "limbs_ok dividend" "limbs_ok divisor" "divisor \<noteq> []" "0 < limbs_val divisor"
  shows "limbs_ok q \<Longrightarrow> limbs_ok r \<Longrightarrow> length r = Suc (length divisor) \<Longrightarrow>
    limbs_val q = Q * 2 ^ b \<Longrightarrow> limbs_val dividend div 2 ^ b = Q * limbs_val divisor + limbs_val r \<Longrightarrow>
    limbs_val r < limbs_val divisor \<Longrightarrow> b \<le> 30 * length q \<Longrightarrow>
    divide_loop dividend divisor b q r = (q', r') \<Longrightarrow>
    limbs_val q' = limbs_val dividend div limbs_val divisor \<and> limbs_val r' = limbs_val dividend mod limbs_val divisor
    \<and> limbs_ok q' \<and> limbs_ok r' \<and> length q' = length q \<and> length r' = Suc (length divisor)"
proof (induction b arbitrary: q r Q)
  case 0
  then have "limbs_val dividend = Q * limbs_val divisor + limbs_val r" by simp
  with 0 show ?case using ok(4) by auto
next
  case (Suc b)
  let ?d = "limbs_val divisor"
  define s where "s = shift_one_add r (magnitude_bit dividend b)"
  have db: "?d < 2 ^ (30 * length divisor)" using ok(2) by (rule limbs_val_bound)
  then have room: "2 * limbs_val r + 1 < 2 ^ (30 * length r)"
    using Suc.prems(3,6) by (simp add: power_add)
  have s: "limbs_val s = 2 * limbs_val r + (if odd (limbs_val dividend div 2 ^ b) then 1 else 0)"
    "limbs_ok s" "length s = length r"
    using shift_one_add_val [OF Suc.prems(2) room] magnitude_bit_odd [OF ok(1)] by (auto simp: s_def)
  have D: "limbs_val dividend div 2 ^ b = 2 * Q * ?d + limbs_val s"
    unfolding s(1) by (rule division_step) (rule Suc.prems(5))
  have cmp: "compare_magnitude s divisor \<ge> 0 \<longleftrightarrow> ?d \<le> limbs_val s"
    using ok s(2,3) Suc.prems(3) by (subst compare_magnitude_sgn) (auto simp: sgn_if)
  show ?case
  proof (cases "?d \<le> limbs_val s")
    case True
    let ?q = "q[b div 30 := (q ! (b div 30)) OR push_bit (b mod 30) 1]"
    have "b div 30 < length q" using Suc.prems(7) by (simp add: less_mult_imp_div_less mult.commute)
    moreover have "even (limbs_val q div 2 ^ b)" using Suc.prems(4) by simp
    ultimately have q: "limbs_val ?q = limbs_val q + 2 ^ b" "limbs_ok ?q"
      by (rule set_limb_bit [OF Suc.prems(1)])+
    have sub: "limbs_val (subtract_in_place s divisor) = limbs_val s - ?d"
      "limbs_ok (subtract_in_place s divisor)" "length (subtract_in_place s divisor) = length s"
      using subtract_limbs_val [OF s(2) ok(2)] True s(3) Suc.prems(3) by (simp_all add: subtract_in_place_def)
    have "limbs_val ?q = (2 * Q + 1) * 2 ^ b" using q(1) Suc.prems(4) by (simp add: algebra_simps)
    moreover have "limbs_val dividend div 2 ^ b = (2 * Q + 1) * ?d + limbs_val (subtract_in_place s divisor)"
      using D True sub(1) by (simp add: algebra_simps)
    moreover have "limbs_val (subtract_in_place s divisor) < ?d"
      using True sub(1) s(1) Suc.prems(6) by (simp split: if_splits)
    moreover have "divide_loop dividend divisor b ?q (subtract_in_place s divisor) = (q', r')"
      using Suc.prems(8) True cmp by (simp add: Let_def s_def)
    ultimately show ?thesis
      using Suc.IH [of ?q "subtract_in_place s divisor" "2 * Q + 1"] q(2) sub(2,3) s(3) Suc.prems(3,7) by simp
  next
    case False
    have "limbs_val q = (2 * Q) * 2 ^ b" using Suc.prems(4) by simp
    moreover have "divide_loop dividend divisor b q s = (q', r')"
      using Suc.prems(8) False cmp by (simp add: Let_def s_def)
    ultimately show ?thesis
      using Suc.IH [of q s "2 * Q"] D False s(2,3) Suc.prems(1,3,7) by simp
  qed
qed

end
