(* ===== verification/BigInt_Value.thy ===== *)
theory BigInt_Value
  imports BigInt_Division
begin

text \<open>
  The immutable \<open>OseoBigInt\<close> of \<open>runtime_internal.h\<close>, its canonical form, and how
  \<open>runtime_bigint.c\<close> allocates blocks of limbs and publishes results: a result is normalized,
  loses the sign of zero, and is refused with a \<open>RangeError\<close> when it has more than 65,536 bits.
\<close>

subsection \<open>The data and the integer it stands for\<close>

record bigint =
  negative :: bool
  limbs :: "u32 list"

definition signed :: "bool \<Rightarrow> nat \<Rightarrow> int" where
  "signed neg n = (if neg then - int n else int n)"

definition bigint_val :: "bigint \<Rightarrow> int" where
  "bigint_val b = signed (negative b) (limbs_val (limbs b))"

definition bigint_ok :: "bigint \<Rightarrow> bool" where
  "bigint_ok b \<longleftrightarrow> limbs_ok (limbs b) \<and> trimmed (limbs b) \<and> (negative b \<longrightarrow> limbs_val (limbs b) \<noteq> 0)
     \<and> nbits (limbs_val (limbs b)) \<le> BIGINT_MAX_BITS"

text \<open>The canonical representation of an integer.\<close>

fun nat_limbs :: "nat \<Rightarrow> u32 list" where
  "nat_limbs n = (if n < 2 ^ 30 then [of_nat n] else of_nat (n mod 2 ^ 30) # nat_limbs (n div 2 ^ 30))"

declare nat_limbs.simps [simp del]

definition bigint_of :: "int \<Rightarrow> bigint" where
  "bigint_of n = \<lparr>negative = n < 0, limbs = nat_limbs (nat \<bar>n\<bar>)\<rparr>"

lemma signed_0 [simp]: "signed neg 0 = 0"
  and signed_False [simp]: "signed False n = int n"
  and signed_True [simp]: "signed True n = - int n"
  by (simp_all add: signed_def)

lemma abs_signed [simp]: "\<bar>signed neg n\<bar> = int n"
  by (simp add: signed_def)

lemma signed_neg_iff: "signed neg n < 0 \<longleftrightarrow> neg \<and> n \<noteq> 0"
  by (auto simp: signed_def)

lemma signed_eq_0_iff [simp]: "signed neg n = 0 \<longleftrightarrow> n = 0"
  by (simp add: signed_def)

lemma signed_mult: "signed a m * signed b n = signed (a \<noteq> b) (m * n)"
  by (auto simp: signed_def)

lemma limbs_val_nat_limbs [simp]: "limbs_val (nat_limbs n) = n"
proof (induction n rule: nat_limbs.induct)
  case (1 n)
  show ?case
  proof (cases "n < 2 ^ 30")
    case True
    then have "unat (of_nat n :: u32) = n" by (simp add: unat_of_nat take_bit_nat_eq_self)
    with True show ?thesis by (subst nat_limbs.simps) simp
  next
    case False
    have "unat (of_nat (n mod 2 ^ 30) :: u32) = n mod 2 ^ 30"
      by (simp add: unat_of_nat)
    with False 1 show ?thesis by (subst nat_limbs.simps) simp
  qed
qed

lemma limbs_ok_nat_limbs [simp]: "limbs_ok (nat_limbs n)"
proof (induction n rule: nat_limbs.induct)
  case (1 n)
  have r: "unat (of_nat m :: u32) \<le> m" for m :: nat by (simp add: unat_of_nat)
  have "unat (of_nat (n mod 2 ^ 30) :: u32) < 2 ^ 30"
    by (rule le_less_trans [OF r]) simp
  with 1 r [of n] show ?case by (subst nat_limbs.simps) auto
qed

lemma trimmed_nat_limbs [simp]: "trimmed (nat_limbs n)"
proof (induction n rule: nat_limbs.induct)
  case (1 n)
  show ?case
  proof (cases "n < 2 ^ 30")
    case True
    then show ?thesis by (subst nat_limbs.simps) (simp add: trimmed_def)
  next
    case False
    let ?r = "nat_limbs (n div 2 ^ 30)"
    have t: "trimmed ?r" using 1 False by simp
    have "last ?r \<noteq> 0"
    proof
      assume "last ?r = 0"
      with t have "?r = [0]" by (cases ?r) (auto simp: trimmed_def split: if_splits)
      then have "limbs_val ?r = 0" by simp
      with False show False by simp
    qed
    moreover have "?r \<noteq> []" using t by (simp add: trimmed_def)
    ultimately show ?thesis using False by (subst nat_limbs.simps) (simp add: trimmed_def)
  qed
qed

lemma trimmed_unique:
  assumes "limbs_ok xs" "trimmed xs"
  shows "nat_limbs (limbs_val xs) = xs"
proof (rule limbs_val_inj)
  let ?n = "nat_limbs (limbs_val xs)"
  show "length ?n = length xs"
    using trimmed_length [of ?n xs] trimmed_length [of xs ?n] assms
    by (cases "length ?n" "length xs" rule: linorder_cases) auto
qed (use assms in simp_all)

lemma bigint_of_val: "bigint_ok b \<Longrightarrow> bigint_of (bigint_val b) = b"
  by (auto simp: bigint_ok_def bigint_of_def bigint_val_def signed_neg_iff trimmed_unique)

lemma bigint_val_of [simp]: "bigint_val (bigint_of n) = n"
  by (simp add: bigint_val_def bigint_of_def signed_def)

lemma bigint_ok_of: "nbits (nat \<bar>n\<bar>) \<le> BIGINT_MAX_BITS \<Longrightarrow> bigint_ok (bigint_of n)"
  by (simp add: bigint_ok_def bigint_of_def)

lemma bigint_val_inj: "bigint_ok a \<Longrightarrow> bigint_ok b \<Longrightarrow> bigint_val a = bigint_val b \<longleftrightarrow> a = b"
  by (metis bigint_of_val)

lemma bigint_okD:
  assumes "bigint_ok b"
  shows "limbs_ok (limbs b)" "trimmed (limbs b)" "limbs b \<noteq> []" "nbits (limbs_val (limbs b)) \<le> 65536"
    and "nat \<bar>bigint_val b\<bar> = limbs_val (limbs b)" "negative b \<longleftrightarrow> bigint_val b < 0"
  using assms by (auto simp: bigint_ok_def trimmed_def bigint_val_def signed_neg_iff BIGINT_MAX_BITS_def)

text \<open>A magnitude within the limit has at most 2,185 limbs.\<close>

lemma length_in_limit:
  assumes "trimmed ls" "nbits (limbs_val ls) \<le> 65536"
  shows "length ls \<le> 2185"
proof (rule ccontr)
  assume a: "\<not> length ls \<le> 2185"
  then have "2 ^ (30 * (length ls - 1)) \<le> limbs_val ls" using assms(1) by (intro trimmed_lower) auto
  moreover have "(2::nat) ^ 65536 \<le> 2 ^ (30 * (length ls - 1))" using a by (intro power_increasing) auto
  moreover have "limbs_val ls < 2 ^ 65536" using assms(2) by (simp only: nbits_le_iff)
  ultimately show False by (meson leD le_trans)
qed

lemma bigint_length: "bigint_ok b \<Longrightarrow> length (limbs b) \<le> 2185"
  by (rule length_in_limit) (auto dest: bigint_okD)

subsection \<open>Blocks of limbs\<close>

text \<open>\<open>sizeof(uint32_t)\<close>, and \<open>sizeof(OseoBigInt)\<close> on the 64-bit targets: the 32 bytes of
  \<open>OseoHeapObject\<close>, the sign padded to a word, and the length.\<close>

definition SIZEOF_U32 :: nat where
  "SIZEOF_U32 = 4"

definition SIZEOF_BIGINT :: nat where
  "SIZEOF_BIGINT = 48"

definition allocation_failure :: rt_error where
  "allocation_failure = Diagnostic ''OSEO2001'' ''BigInt allocation failed.''"

definition bigint_limit_error :: rt_error where
  "bigint_limit_error = LanguageError ERROR_RANGE ''BigInt exceeds the 65,536-bit implementation limit.''"

definition checked_limb_bytes :: "nat \<Rightarrow> nat option" where
  "checked_limb_bytes n =
     (if n = 0 \<or> n > (SIZE_MAX - SIZEOF_BIGINT) div SIZEOF_U32 then None
      else Some (SIZEOF_BIGINT + n * SIZEOF_U32))"

definition allocate_limbs :: "nat \<Rightarrow> (u32 list option, 'c) run" where
  "allocate_limbs n =
     (if n = 0 \<or> n > SIZE_MAX div SIZEOF_U32 then give None
      else after (allocate_bytes (n * SIZEOF_U32)) (\<lambda>address.
        give (if address = 0 then None else Some (replicate n 0))))"

definition publish_bigint :: "bool \<Rightarrow> u32 list \<Rightarrow> (rt_error + bigint, 'c) run" where
  "publish_bigint neg ls =
     (let length = normalized_length ls (length ls);
          neg' = (if length = 1 \<and> ls ! 0 = 0 then False else neg)
      in if magnitude_bits (take length ls) > BIGINT_MAX_BITS then give (Inl bigint_limit_error)
         else case checked_limb_bytes length of
           None \<Rightarrow> give (Inl (Diagnostic ''OSEO2001'' ''BigInt is too large.''))
         | Some bytes \<Rightarrow> after (allocate_bytes bytes) (\<lambda>address.
             if address = 0 then give (Inl allocation_failure)
             else give (case publish_heap address of
                 Inl e \<Rightarrow> Inl e
               | Inr _ \<Rightarrow> Inr \<lparr>negative = neg', limbs = take length ls\<rparr>)))"

definition small_bigint :: "bool \<Rightarrow> u32 \<Rightarrow> (rt_error + bigint, 'c) run" where
  "small_bigint neg value = publish_bigint neg [value]"

text \<open>\<open>arithmetic_result\<close>: publishes the block an operation built, \<open>None\<close> for \<open>NULL\<close>.\<close>

definition arithmetic_result :: "bool \<Rightarrow> u32 list option \<Rightarrow> (rt_error + bigint, 'c) run" where
  "arithmetic_result neg magnitude =
     (case magnitude of
        None \<Rightarrow> give (Inl allocation_failure)
      | Some ls \<Rightarrow> publish_bigint neg ls)"

subsection \<open>What publishing delivers\<close>

text \<open>The result ECMA-262 gives the integer \<open>n\<close>, within the limit of the implementation.\<close>

definition fits :: "int \<Rightarrow> rt_error + bigint" where
  "fits n = (if nbits (nat \<bar>n\<bar>) \<le> BIGINT_MAX_BITS then Inr (bigint_of n) else Inl bigint_limit_error)"

definition bigint_refusals :: "rt_error set" where
  "bigint_refusals = {allocation_failure, unrepresentable}"

abbreviation delivers :: "(rt_error + 'a, 'c) run \<Rightarrow> rt_error + 'a \<Rightarrow> bool" where
  "delivers \<equiv> computes (refused_with bigint_refusals)"

abbreviation builds :: "(u32 list option, 'c) run \<Rightarrow> u32 list \<Rightarrow> bool" where
  "builds m ls \<equiv> computes refused_block m (Some ls)"

lemma builds_allocate:
  assumes "0 < n" "n \<le> SIZE_MAX div 4"
  shows "builds (allocate_limbs n) (replicate n 0)"
proof (rule computesI)
  fix ctx :: "'c alloc_context_scheme"
  obtain address ctx' where a: "allocate_bytes (n * 4) ctx = (address, ctx')"
    by (cases "allocate_bytes (n * 4) ctx")
  show "fst (allocate_limbs n ctx) = Some (replicate n 0) \<or> refused_block (fst (allocate_limbs n ctx)) \<and> \<not> never_refuses ctx"
    using assms a allocate_bytes_granted [of ctx "n * 4"]
    by (auto simp: allocate_limbs_def SIZEOF_U32_def after_def give_def refused_block_def)
  show "never_refuses (snd (allocate_limbs n ctx)) \<longleftrightarrow> never_refuses ctx"
    using assms a allocate_bytes_never_refuses [of "n * 4" ctx]
    by (auto simp: allocate_limbs_def SIZEOF_U32_def after_def give_def)
qed

lemma delivers_allocated:
  "delivers (after (allocate_bytes bytes) (\<lambda>address.
      if address = 0 then give (Inl allocation_failure)
      else give (case publish_heap address of Inl e \<Rightarrow> Inl e | Inr _ \<Rightarrow> Inr v))) (Inr v)"
proof (rule computesI)
  fix ctx :: "'c alloc_context_scheme"
  obtain address ctx' where a: "allocate_bytes bytes ctx = (address, ctx')"
    by (cases "allocate_bytes bytes ctx")
  let ?m = "after (allocate_bytes bytes) (\<lambda>address.
      if address = 0 then give (Inl allocation_failure)
      else give (case publish_heap address of Inl e \<Rightarrow> Inl e | Inr _ \<Rightarrow> Inr v))"
  show "fst (?m ctx) = Inr v \<or> refused_with bigint_refusals (fst (?m ctx)) \<and> \<not> never_refuses ctx"
    using a allocate_bytes_granted [of ctx bytes]
    by (auto simp: after_def give_def refused_with_def bigint_refusals_def publish_heap_def)
  show "never_refuses (snd (?m ctx)) \<longleftrightarrow> never_refuses ctx"
    using a allocate_bytes_never_refuses [of bytes ctx] by (auto simp: after_def give_def)
qed

lemma in_use_zero: "ls \<noteq> [] \<Longrightarrow> limbs_val ls = 0 \<longleftrightarrow> normalized_length ls (length ls) = 1 \<and> ls ! 0 = 0"
proof -
  assume ls: "ls \<noteq> []"
  let ?n = "normalized_length ls (length ls)"
  have t: "trimmed (in_use ls)" "length (in_use ls) = ?n" "0 < ?n"
    using ls trimmed_in_use [OF ls] by (auto simp: in_use_def normalized_length_le normalized_length_pos)
  have z: "limbs_val ls = limbs_val (in_use ls)" by simp
  show ?thesis
  proof (cases "?n = 1")
    case True
    then have "in_use ls = [ls ! 0]" using ls by (cases ls) (auto simp: in_use_def)
    with True z show ?thesis by (simp add: unat_eq_0)
  next
    case False
    then have "1 < length (in_use ls)" using t by simp
    then have "2 ^ (30 * (length (in_use ls) - 1)) \<le> limbs_val (in_use ls)" using t by (intro trimmed_lower)
    then have "0 < limbs_val (in_use ls)" by (metis gr0I le_zero_eq power_not_zero zero_neq_numeral)
    with False z show ?thesis by simp
  qed
qed

lemma publish_bigint_fits:
  assumes "limbs_ok ls" "ls \<noteq> []"
  shows "delivers (publish_bigint neg ls) (fits (signed neg (limbs_val ls)))"
proof -
  let ?n = "normalized_length ls (length ls)"
  have t: "take ?n ls = in_use ls" "trimmed (in_use ls)" "length (in_use ls) = ?n" "limbs_ok (in_use ls)"
    using assms trimmed_in_use [OF assms(2)] by (auto simp: in_use_def normalized_length_le)
  have bits: "magnitude_bits (take ?n ls) = nbits (limbs_val ls)"
    using t by (simp add: magnitude_bits_nbits trimmed_def)
  show ?thesis
  proof (cases "nbits (limbs_val ls) \<le> 65536")
    case False
    then show ?thesis
      using bits by (simp add: publish_bigint_def fits_def BIGINT_MAX_BITS_def Let_def)
  next
    case True
    then have "?n \<le> 2185" using length_in_limit [of "in_use ls"] t by simp
    moreover have "0 < ?n" using assms by (simp add: normalized_length_pos)
    ultimately have bytes: "checked_limb_bytes ?n = Some (SIZEOF_BIGINT + ?n * SIZEOF_U32)"
      by (simp add: checked_limb_bytes_def SIZEOF_BIGINT_def SIZEOF_U32_def SIZE_MAX_def)
    have "bigint_of (signed neg (limbs_val ls)) = \<lparr>negative = neg \<and> limbs_val ls \<noteq> 0, limbs = in_use ls\<rparr>"
      using trimmed_unique [OF t(4,2)] by (simp add: bigint_of_def signed_neg_iff)
    then have rec: "bigint_of (signed neg (limbs_val ls))
        = \<lparr>negative = (if ?n = 1 \<and> ls ! 0 = 0 then False else neg), limbs = take ?n ls\<rparr>"
      using in_use_zero [OF assms(2)] t(1) by simp
    have fits: "fits (signed neg (limbs_val ls)) = Inr (bigint_of (signed neg (limbs_val ls)))"
      using True by (simp add: fits_def BIGINT_MAX_BITS_def)
    have small: "\<not> nbits (limbs_val ls) > BIGINT_MAX_BITS" using True by (simp add: BIGINT_MAX_BITS_def)
    show ?thesis
      unfolding publish_bigint_def Let_def bits bytes fits rec if_not_P [OF small] option.case
      by (rule delivers_allocated)
  qed
qed

lemma small_bigint_fits: "unat v < 2 ^ 30 \<Longrightarrow> delivers (small_bigint neg v) (fits (signed neg (unat v)))"
  using publish_bigint_fits [of "[v]" neg] by (simp add: small_bigint_def)

lemma arithmetic_result_fits:
  assumes "builds m ls" "limbs_ok ls" "ls \<noteq> []" "n = signed neg (limbs_val ls)"
  shows "delivers (after m (arithmetic_result neg)) (fits n)"
  by (rule computes_after [OF assms(1), where g = "\<lambda>_. Inl allocation_failure"])
     (use assms publish_bigint_fits [of ls neg] in
       \<open>auto simp: arithmetic_result_def refused_block_def refused_with_def bigint_refusals_def\<close>)

lemma builds_after:
  assumes "builds m ls" "builds (f (Some ls)) ls'" "f None = give None"
  shows "builds (after m f) ls'"
  by (rule computes_after [OF assms(1), where g = "\<lambda>_. None"])
     (use assms in \<open>auto simp: refused_block_def\<close>)

end
