(* ===== verification/BigInt_Arith.thy ===== *)
theory BigInt_Arith
  imports BigInt_Value "HOL-Library.Signed_Division"
begin

text \<open>
  Addition, subtraction, multiplication, division and comparison of \<open>OseoBigInt\<close> values
  (\<open>runtime_bigint.c\<close>): the functions that allocate a block for the result, fill it with the loops
  of the theories below, and publish it. Each is shown to deliver the integer ECMA-262 specifies
  or the \<open>RangeError\<close> of the limit, whatever the allocator answers.
\<close>

subsection \<open>Operations on magnitudes\<close>

definition add_magnitude :: "bigint \<Rightarrow> bigint \<Rightarrow> (u32 list option, 'c) run" where
  "add_magnitude left right =
     (let n = (if length (limbs left) > length (limbs right) then length (limbs left) else length (limbs right))
      in if n = SIZE_MAX then give None
         else after (allocate_limbs (n + 1)) (\<lambda>block. case block of
             None \<Rightarrow> give None
           | Some _ \<Rightarrow> give (Some (in_use (add_limbs (limbs left) (limbs right) 0)))))"

text \<open>Requires \<open>|left| >= |right|\<close>.\<close>

definition subtract_magnitude :: "u32 list \<Rightarrow> u32 list \<Rightarrow> (u32 list option, 'c) run" where
  "subtract_magnitude left right =
     after (allocate_limbs (length left)) (\<lambda>block. case block of
         None \<Rightarrow> give None
       | Some _ \<Rightarrow> give (Some (in_use (subtract_limbs left right 0))))"

definition multiply_magnitude :: "bigint \<Rightarrow> bigint \<Rightarrow> (u32 list option, 'c) run" where
  "multiply_magnitude left right =
     (if length (limbs left) > SIZE_MAX - length (limbs right) then give None
      else after (allocate_limbs (length (limbs left) + length (limbs right))) (\<lambda>block. case block of
          None \<Rightarrow> give None
        | Some result \<Rightarrow> give (Some (in_use (multiply_rows (limbs left) (limbs right) result)))))"

definition divide_magnitude :: "bigint \<Rightarrow> bigint \<Rightarrow> ((u32 list \<times> u32 list) option, 'c) run" where
  "divide_magnitude dividend divisor =
     (if length (limbs divisor) > SIZE_MAX - 1 then give None
      else after (allocate_limbs (length (limbs dividend))) (\<lambda>quot. case quot of
          None \<Rightarrow> give None
        | Some quot \<Rightarrow> after (allocate_limbs (length (limbs divisor) + 1)) (\<lambda>rest. case rest of
            None \<Rightarrow> give None
          | Some rest \<Rightarrow>
              (case divide_loop (limbs dividend) (limbs divisor) (magnitude_bits (limbs dividend)) quot rest of
                 (quot', rest') \<Rightarrow> give (Some (in_use quot', in_use rest'))))))"

lemma builds_computed:
  assumes "0 < n" "n \<le> SIZE_MAX div 4" "ls = f (replicate n 0)"
  shows "builds (after (allocate_limbs n) (\<lambda>block. case block of None \<Rightarrow> give None | Some b \<Rightarrow> give (Some (f b)))) ls"
  by (rule builds_after [OF builds_allocate [OF assms(1,2)]]) (simp_all add: assms(3))

text \<open>Every block the operations ask for is far below the bound of \<open>allocate_limbs\<close>.\<close>

lemma small_block: "n \<le> 100000 \<Longrightarrow> n \<le> SIZE_MAX div 4" "n \<le> 100000 \<Longrightarrow> n \<noteq> SIZE_MAX" "n \<le> 100000 \<Longrightarrow> \<not> n > SIZE_MAX - 1"
  by (simp_all add: SIZE_MAX_def)

lemma add_magnitude_builds:
  assumes "bigint_ok a" "bigint_ok b"
  obtains ls where "builds (add_magnitude a b) ls" "limbs_ok ls" "ls \<noteq> []"
    "limbs_val ls = limbs_val (limbs a) + limbs_val (limbs b)"
proof (rule that)
  let ?ls = "in_use (add_limbs (limbs a) (limbs b) 0)"
  let ?n = "if length (limbs a) > length (limbs b) then length (limbs a) else length (limbs b)"
  have n: "?n \<le> 2185" using assms by (auto dest: bigint_length)
  have c: "limbs_val (add_limbs (limbs a) (limbs b) 0) = limbs_val (limbs a) + limbs_val (limbs b) \<and>
      limbs_ok (add_limbs (limbs a) (limbs b) 0) \<and> add_limbs (limbs a) (limbs b) 0 \<noteq> []"
    using add_limbs_correct [of "limbs a" "limbs b" 0] assms by (auto dest: bigint_okD)
  show "builds (add_magnitude a b) ?ls"
    using n unfolding add_magnitude_def Let_def
    by (subst if_not_P [of "?n = SIZE_MAX"]) (simp add: SIZE_MAX_def, rule builds_computed, simp_all add: SIZE_MAX_def)
  show "limbs_ok ?ls" "limbs_val ?ls = limbs_val (limbs a) + limbs_val (limbs b)" using c by simp_all
  show "?ls \<noteq> []" using c trimmed_in_use [of "add_limbs (limbs a) (limbs b) 0"] by (simp add: trimmed_def)
qed

lemma subtract_magnitude_builds:
  assumes "bigint_ok a" "bigint_ok b" "limbs_val (limbs b) \<le> limbs_val (limbs a)"
  obtains ls where "builds (subtract_magnitude (limbs a) (limbs b)) ls" "limbs_ok ls" "ls \<noteq> []"
    "limbs_val ls = limbs_val (limbs a) - limbs_val (limbs b)"
proof (rule that)
  let ?s = "subtract_limbs (limbs a) (limbs b) 0"
  have len: "length (limbs b) \<le> length (limbs a)"
    using trimmed_length [of "limbs a" "limbs b"] assms by (cases "length (limbs a) < length (limbs b)") (auto dest: bigint_okD)
  have c: "limbs_val ?s = limbs_val (limbs a) - limbs_val (limbs b)" "limbs_ok ?s"
    by (rule subtract_limbs_val; use assms len in \<open>auto dest: bigint_okD\<close>)+
  have ne: "limbs a \<noteq> []" using assms by (auto dest: bigint_okD)
  then have "length ?s \<noteq> 0" by simp
  then have ne': "?s \<noteq> []" by (metis list.size(3))
  show "builds (subtract_magnitude (limbs a) (limbs b)) (in_use ?s)"
    using ne bigint_length [OF assms(1)] unfolding subtract_magnitude_def
    by (intro builds_computed) (simp_all add: SIZE_MAX_def)
  show "limbs_ok (in_use ?s)" "limbs_val (in_use ?s) = limbs_val (limbs a) - limbs_val (limbs b)" using c by simp_all
  show "in_use ?s \<noteq> []" using ne' trimmed_in_use [of ?s] by (simp add: trimmed_def)
qed

lemma multiply_magnitude_builds:
  assumes "bigint_ok a" "bigint_ok b"
  obtains ls where "builds (multiply_magnitude a b) ls" "limbs_ok ls" "ls \<noteq> []"
    "limbs_val ls = limbs_val (limbs a) * limbs_val (limbs b)"
proof (rule that)
  let ?n = "length (limbs a) + length (limbs b)"
  let ?m = "multiply_rows (limbs a) (limbs b) (replicate ?n 0)"
  have "?m = multiply_rows (limbs a) (limbs b) (replicate (length (limbs b)) 0 @ replicate (length (limbs a)) 0)"
    by (simp add: replicate_add [symmetric] add.commute)
  then have c: "limbs_val ?m = limbs_val (limbs a) * limbs_val (limbs b)" "limbs_ok ?m" "length ?m = ?n"
    using multiply_rows_correct [of "limbs a" "limbs b" "replicate (length (limbs b)) 0"] assms
    by (auto dest: bigint_okD)
  have n: "0 < ?n" "?n \<le> 4370" using assms bigint_length [of a] bigint_length [of b] by (auto dest: bigint_okD)
  then have ne: "?m \<noteq> []" using c(3) by (metis list.size(3) nat_less_le)
  show "builds (multiply_magnitude a b) (in_use ?m)"
    using n unfolding multiply_magnitude_def
    by (subst if_not_P) (simp add: SIZE_MAX_def, rule builds_computed, simp_all add: SIZE_MAX_def)
  show "limbs_ok (in_use ?m)" "limbs_val (in_use ?m) = limbs_val (limbs a) * limbs_val (limbs b)" using c by simp_all
  show "in_use ?m \<noteq> []" using ne trimmed_in_use [of ?m] by (simp add: trimmed_def)
qed

lemma divide_magnitude_builds:
  assumes "bigint_ok a" "bigint_ok b" "limbs_val (limbs b) \<noteq> 0"
  obtains q r where "computes refused_block (divide_magnitude a b) (Some (q, r))"
    "limbs_ok q" "q \<noteq> []" "limbs_ok r" "r \<noteq> []"
    "limbs_val q = limbs_val (limbs a) div limbs_val (limbs b)" "limbs_val r = limbs_val (limbs a) mod limbs_val (limbs b)"
proof -
  let ?D = "limbs a" and ?d = "limbs b"
  let ?q = "replicate (length ?D) 0 :: u32 list" and ?r = "replicate (length ?d + 1) 0 :: u32 list"
  have ok: "limbs_ok ?D" "?D \<noteq> []" "limbs_ok ?d" "?d \<noteq> []" using assms by (auto dest: bigint_okD)
  have len: "length ?D \<le> 2185" "length ?d \<le> 2185" using assms by (auto dest: bigint_length)
  obtain q r where loop: "divide_loop ?D ?d (magnitude_bits ?D) ?q ?r = (q, r)" by (cases "divide_loop ?D ?d (magnitude_bits ?D) ?q ?r")
  have bits: "magnitude_bits ?D = nbits (limbs_val ?D)" using ok by (simp add: magnitude_bits_nbits)
  have "nbits (limbs_val ?D) \<le> 30 * length ?D" using limbs_val_bound [OF ok(1)] by (simp only: nbits_le_iff)
  moreover have "limbs_val ?D div 2 ^ magnitude_bits ?D = 0" using less_two_pow_nbits bits by simp
  ultimately have c: "limbs_val q = limbs_val ?D div limbs_val ?d \<and> limbs_val r = limbs_val ?D mod limbs_val ?d
      \<and> limbs_ok q \<and> limbs_ok r \<and> length q = length ?q \<and> length r = Suc (length ?d)"
    using divide_loop_correct [OF ok(1,3,4) _ _ _ _ _ _ _ _ loop, of 0] assms(3) bits by simp
  have ne: "q \<noteq> []" "r \<noteq> []" using c ok by auto
  show thesis
  proof (rule that)
    show "limbs_ok (in_use q)" "limbs_ok (in_use r)" "limbs_val (in_use q) = limbs_val ?D div limbs_val ?d"
      "limbs_val (in_use r) = limbs_val ?D mod limbs_val ?d" using c by simp_all
    show "in_use q \<noteq> []" "in_use r \<noteq> []" using ne trimmed_in_use [of q] trimmed_in_use [of r] by (simp_all add: trimmed_def)
    have len': "0 < length ?D" "length ?D \<le> SIZE_MAX div 4" "0 < length ?d + 1" "length ?d + 1 \<le> SIZE_MAX div 4"
      using ok len by (simp_all add: SIZE_MAX_def)
    have n: "\<not> length ?d > SIZE_MAX - 1" using len by (simp add: SIZE_MAX_def)
    show "computes refused_block (divide_magnitude a b) (Some (in_use q, in_use r))"
      unfolding divide_magnitude_def if_not_P [OF n]
      by (rule computes_after [OF builds_allocate [OF len'(1,2)], where g = "\<lambda>_. None"], unfold option.case,
          rule computes_after [OF builds_allocate [OF len'(3,4)], where g = "\<lambda>_. None"])
         (use loop in \<open>simp_all add: refused_block_def\<close>)
  qed
qed

subsection \<open>Addition and subtraction\<close>

definition add_or_subtract :: "bigint \<Rightarrow> bigint \<Rightarrow> bool \<Rightarrow> (rt_error + bigint, 'c) run" where
  "add_or_subtract left right subtract =
     (let right_negative = (negative right \<noteq> subtract)
      in if negative left = right_negative
         then after (add_magnitude left right) (arithmetic_result (negative left))
         else
           let order = compare_magnitude (limbs left) (limbs right)
           in if order = 0 then small_bigint False 0
              else let larger = (if order > 0 then left else right);
                       smaller = (if order > 0 then right else left);
                       neg = (if order > 0 then negative left else right_negative)
                   in after (subtract_magnitude (limbs larger) (limbs smaller)) (arithmetic_result neg))"

lemma delivers_zero: "delivers (small_bigint neg 0) (fits 0)"
  using small_bigint_fits [of 0 neg] by simp

lemma delivers_one: "delivers (small_bigint neg 1) (fits (signed neg 1))"
  using small_bigint_fits [of 1 neg] by simp

lemma fits_ok: "bigint_ok b \<Longrightarrow> fits (bigint_val b) = Inr b"
  by (simp add: fits_def bigint_okD BIGINT_MAX_BITS_def bigint_of_val)

lemma fits_one: "fits (signed neg 1) = Inr (bigint_of (signed neg 1))"
  by (simp add: fits_def BIGINT_MAX_BITS_def nbits_pos)

lemma bigint_ok_one: "bigint_ok (bigint_of (signed neg 1))"
  by (rule bigint_ok_of) (simp add: BIGINT_MAX_BITS_def nbits_pos)

lemma fits_Inr: "fits n = Inr b \<Longrightarrow> bigint_ok b \<and> bigint_val b = n"
  by (auto simp: fits_def bigint_ok_of split: if_splits)

lemma add_or_subtract_fits:
  assumes a: "bigint_ok a" and b: "bigint_ok b"
  shows "delivers (add_or_subtract a b s :: (rt_error + bigint, 'c) run) (fits (bigint_val a + (if s then - bigint_val b else bigint_val b)))"
proof (cases "negative a = (negative b \<noteq> s)")
  case True
  obtain ls where ls: "builds (add_magnitude a b :: (u32 list option, 'c) run) ls" "limbs_ok ls" "ls \<noteq> []"
    "limbs_val ls = limbs_val (limbs a) + limbs_val (limbs b)"
    using add_magnitude_builds [OF a b] .
  have "bigint_val a + (if s then - bigint_val b else bigint_val b) = signed (negative a) (limbs_val ls)"
    using True ls(4) by (auto simp: bigint_val_def signed_def)
  from arithmetic_result_fits [OF ls(1-3) this] show ?thesis
    unfolding add_or_subtract_def Let_def if_P [OF True] .
next
  case False
  let ?A = "limbs_val (limbs a)" and ?B = "limbs_val (limbs b)"
  have cmp: "compare_magnitude (limbs a) (limbs b) = sgn (int ?A - int ?B)"
    using a b by (simp add: compare_magnitude_sgn bigint_okD)
  show ?thesis
  proof (cases ?A ?B rule: linorder_cases)
    case less
    obtain ls where ls: "builds (subtract_magnitude (limbs b) (limbs a) :: (u32 list option, 'c) run) ls" "limbs_ok ls" "ls \<noteq> []" "limbs_val ls = ?B - ?A"
      using subtract_magnitude_builds [OF b a] less by (metis less_imp_le)
    have "bigint_val a + (if s then - bigint_val b else bigint_val b) = signed (negative b \<noteq> s) (limbs_val ls)"
      using False ls(4) less by (auto simp: bigint_val_def signed_def)
    from arithmetic_result_fits [OF ls(1-3) this] show ?thesis
      using False less cmp by (simp add: add_or_subtract_def Let_def)
  next
    case equal
    then have "bigint_val a + (if s then - bigint_val b else bigint_val b) = 0"
      using False by (auto simp: bigint_val_def signed_def)
    with equal show ?thesis
      unfolding add_or_subtract_def Let_def if_not_P [OF False] cmp by (simp add: delivers_zero)
  next
    case greater
    obtain ls where ls: "builds (subtract_magnitude (limbs a) (limbs b) :: (u32 list option, 'c) run) ls" "limbs_ok ls" "ls \<noteq> []" "limbs_val ls = ?A - ?B"
      using subtract_magnitude_builds [OF a b] greater by (metis less_imp_le)
    have "bigint_val a + (if s then - bigint_val b else bigint_val b) = signed (negative a) (limbs_val ls)"
      using False ls(4) greater by (auto simp: bigint_val_def signed_def)
    from arithmetic_result_fits [OF ls(1-3) this] show ?thesis
      using False greater cmp by (simp add: add_or_subtract_def Let_def)
  qed
qed

subsection \<open>Zero, equality, comparison, negation\<close>

definition bigint_is_zero :: "bigint \<Rightarrow> bool" where
  "bigint_is_zero b \<longleftrightarrow> length (limbs b) = 1 \<and> limbs b ! 0 = 0"

definition bigint_equal :: "bigint \<Rightarrow> bigint \<Rightarrow> bool" where
  "bigint_equal left right \<longleftrightarrow> negative left = negative right \<and> length (limbs left) = length (limbs right)
     \<and> limbs left = limbs right"

definition bigint_compare :: "bigint \<Rightarrow> bigint \<Rightarrow> int" where
  "bigint_compare left right =
     (if negative left \<noteq> negative right then (if negative left then -1 else 1)
      else let order = compare_magnitude (limbs left) (limbs right)
           in if negative left then - order else order)"

definition bigint_negate :: "bigint \<Rightarrow> (rt_error + bigint, 'c) run" where
  "bigint_negate b =
     (let neg = \<not> negative b;
          neg = (if bigint_is_zero b then False else neg)
      in publish_bigint neg (limbs b))"

definition bigint_not :: "bigint \<Rightarrow> (rt_error + bigint, 'c) run" where
  "bigint_not b =
     and_then (small_bigint False 1) (\<lambda>one.
       and_then (bigint_negate b) (\<lambda>neg. add_or_subtract neg one True))"

lemma bigint_is_zero_val: "bigint_ok b \<Longrightarrow> bigint_is_zero b \<longleftrightarrow> bigint_val b = 0"
  using in_use_zero [of "limbs b"] trimmed_normalized_length [of "limbs b"] bigint_okD(2,3) [of b]
  by (auto simp: bigint_val_def bigint_is_zero_def)

lemma bigint_equal_val: "bigint_ok a \<Longrightarrow> bigint_ok b \<Longrightarrow> bigint_equal a b \<longleftrightarrow> bigint_val a = bigint_val b"
  by (subst bigint_val_inj) (auto simp: bigint_equal_def)

lemma bigint_compare_val:
  assumes "bigint_ok a" "bigint_ok b"
  shows "bigint_compare a b = sgn (bigint_val a - bigint_val b)"
proof -
  have cmp: "compare_magnitude (limbs a) (limbs b) = sgn (int (limbs_val (limbs a)) - int (limbs_val (limbs b)))"
    using assms by (simp add: compare_magnitude_sgn bigint_okD)
  have neg: "negative a \<longleftrightarrow> bigint_val a < 0" "negative b \<longleftrightarrow> bigint_val b < 0"
    using assms by (simp_all add: bigint_okD)
  show ?thesis
    unfolding bigint_compare_def cmp Let_def using neg
    by (auto simp: bigint_val_def signed_def sgn_if split: if_splits)
qed

lemma bigint_negate_fits:
  assumes "bigint_ok b"
  shows "delivers (bigint_negate b) (fits (- bigint_val b))"
proof -
  let ?neg = "if bigint_is_zero b then False else \<not> negative b"
  have "- bigint_val b = signed ?neg (limbs_val (limbs b))"
    using bigint_is_zero_val [OF assms] by (auto simp: bigint_val_def signed_def)
  moreover have "delivers (publish_bigint ?neg (limbs b)) (fits (signed ?neg (limbs_val (limbs b))))"
    using assms by (intro publish_bigint_fits) (auto dest: bigint_okD)
  ultimately show ?thesis by (simp only: bigint_negate_def Let_def)
qed

lemma fits_uminus: "fits n = Inr b \<Longrightarrow> fits (- n) = Inr (bigint_of (- n))"
  by (auto simp: fits_def split: if_splits)

lemma bigint_not_fits:
  assumes "bigint_ok b"
  shows "delivers (bigint_not b) (fits (NOT (bigint_val b)))"
proof -
  let ?one = "bigint_of 1" and ?neg = "bigint_of (- bigint_val b)"
  have one: "delivers (small_bigint False 1) (Inr ?one)"
    using delivers_one [of False] fits_one [of False] by simp
  have f: "fits (- bigint_val b) = Inr ?neg" using fits_uminus [OF fits_ok [OF assms]] .
  then have neg: "delivers (bigint_negate b) (Inr ?neg)" using bigint_negate_fits [OF assms] by simp
  have ok: "bigint_ok ?one" "bigint_ok ?neg"
    using bigint_ok_one [of False] fits_Inr [OF f] by simp_all
  have "delivers (add_or_subtract ?neg ?one True) (fits (NOT (bigint_val b)))"
    using add_or_subtract_fits [OF ok(2,1), of True] by (simp add: not_int_def)
  then show ?thesis
    unfolding bigint_not_def by (intro computes_and_then [OF one] computes_and_then [OF neg])
qed

end
