(* ===== verification/BigInt_Bits.thy ===== *)
theory BigInt_Bits
  imports BigInt_Arith
begin

text \<open>
  Shifts and the bitwise operators of \<open>runtime_bigint.c\<close>. A right shift rounds towards minus
  infinity, and \<open>&\<close>, \<open>|\<close> and \<open>^\<close> act on two's complement of unbounded width: the code works on a
  two's complement one limb wider than both operands.
\<close>

subsection \<open>Reading a BigInt as a size\<close>

fun to_size_loop :: "u32 list \<Rightarrow> nat \<Rightarrow> nat \<Rightarrow> nat option" where
  "to_size_loop ls 0 result = Some result"
| "to_size_loop ls (Suc i) result =
     (if result > (SIZE_MAX - unat (ls ! i)) div unat BIGINT_BASE then None
      else to_size_loop ls i (result * unat BIGINT_BASE + unat (ls ! i)))"

definition bigint_to_size :: "bigint \<Rightarrow> nat option" where
  "bigint_to_size b = to_size_loop (limbs b) (length (limbs b)) 0"

lemma size_guard:
  assumes "x \<le> S" "0 < (B :: nat)"
  shows "r > (S - x) div B \<longleftrightarrow> r * B + x > S"
proof -
  have "r \<le> (S - x) div B \<longleftrightarrow> r * B \<le> S - x" using assms(2) by (rule less_eq_div_iff_mult_less_eq)
  then show ?thesis using assms(1) by linarith
qed

lemma to_size_loop_correct:
  "limbs_ok ls \<Longrightarrow> n \<le> length ls \<Longrightarrow> r \<le> SIZE_MAX \<Longrightarrow>
   to_size_loop ls n r =
     (let total = r * 2 ^ (30 * n) + limbs_val (take n ls) in if total \<le> SIZE_MAX then Some total else None)"
proof (induction n arbitrary: r)
  case (Suc n)
  let ?x = "unat (ls ! n)" and ?r = "r * 2 ^ 30 + unat (ls ! n)"
  have x: "?x < 2 ^ 30" using Suc.prems by (intro limbs_ok_nth) auto
  have total: "r * 2 ^ (30 * Suc n) + limbs_val (take (Suc n) ls) = ?r * 2 ^ (30 * n) + limbs_val (take n ls)"
    using Suc.prems by (simp add: take_Suc_conv_app_nth limbs_val_append power_add algebra_simps)
  have guard: "r > (SIZE_MAX - ?x) div 2 ^ 30 \<longleftrightarrow> ?r > SIZE_MAX"
    by (rule size_guard) (use x in \<open>simp_all add: SIZE_MAX_def\<close>)
  show ?case
  proof (cases "?r > SIZE_MAX")
    case True
    have "?r \<le> ?r * 2 ^ (30 * n)" by simp
    with True have "\<not> ?r * 2 ^ (30 * n) + limbs_val (take n ls) \<le> SIZE_MAX" by linarith
    with True guard show ?thesis unfolding total Let_def by (simp del: mult_Suc_right)
  next
    case False
    with guard have "to_size_loop ls (Suc n) r = to_size_loop ls n ?r" by simp
    then show ?thesis using Suc.IH [of ?r] Suc.prems False unfolding total by simp
  qed
qed simp

lemma bigint_to_size_val:
  "bigint_ok b \<Longrightarrow> bigint_to_size b = (if limbs_val (limbs b) \<le> SIZE_MAX then Some (limbs_val (limbs b)) else None)"
  using to_size_loop_correct [of "limbs b" "length (limbs b)" 0]
  by (simp add: bigint_to_size_def bigint_okD SIZE_MAX_def)

subsection \<open>Left shift\<close>

fun left_shift_loop :: "u32 list \<Rightarrow> nat \<Rightarrow> u32 \<Rightarrow> u32 list" where
  "left_shift_loop [] bit_shift carry = [carry]"
| "left_shift_loop (x # xs) bit_shift carry =
     (let shifted = push_bit bit_shift (ucast x) OR ucast carry
      in limb_of shifted # left_shift_loop xs bit_shift (ucast (carry_of shifted)))"

definition left_shift_magnitude :: "bigint \<Rightarrow> nat \<Rightarrow> (u32 list option, 'c) run" where
  "left_shift_magnitude value shift =
     (let limb_shift = shift div BIGINT_BITS; bit_shift = shift mod BIGINT_BITS
      in if int (length (limbs value)) > int SIZE_MAX - int limb_shift - 1 then give None
         else after (allocate_limbs (length (limbs value) + limb_shift + 1)) (\<lambda>block. case block of
             None \<Rightarrow> give None
           | Some result \<Rightarrow> give (Some (in_use (take limb_shift result @ left_shift_loop (limbs value) bit_shift 0)))))"

lemma shifted_limb:
  assumes "unat x < 2 ^ 30" "s < 30" "unat c < 2 ^ s"
  defines "y \<equiv> push_bit s (ucast (x :: u32)) OR ucast (c :: u32) :: u64"
  shows "unat y = unat x * 2 ^ s + unat c" and "unat (ucast (carry_of y) :: u32) = (unat x * 2 ^ s + unat c) div 2 ^ 30"
    and "(unat x * 2 ^ s + unat c) div 2 ^ 30 < 2 ^ s"
proof -
  have s: "(2::nat) ^ s \<le> 2 ^ 29" using assms(2) by (intro power_increasing) auto
  have b: "unat x * 2 ^ s + unat c < 2 ^ 30 * 2 ^ s"
  proof -
    have "unat x * 2 ^ s + unat c < Suc (unat x) * 2 ^ s" using assms(3) by simp
    also have "\<dots> \<le> 2 ^ 30 * 2 ^ s" using assms(1) by (intro mult_right_mono) auto
    finally show ?thesis .
  qed
  also have "\<dots> \<le> 2 ^ 30 * 2 ^ 29" using s by (rule mult_left_mono) simp
  finally have b60: "unat x * 2 ^ s + unat c < 2 ^ 59" by simp
  have p: "unat (push_bit s (ucast x) :: u64) = unat x * 2 ^ s"
    using b60 by (simp only: unsigned_push_bit_eq unat_u32_u64) (simp add: push_bit_eq_mult take_bit_nat_eq_self)
  have "(push_bit s (ucast x) :: u64) AND ucast c = 0"
  proof (rule and_zeroI)
    fix n
    assume h: "bit (push_bit s (ucast x) :: u64) n" "bit (ucast c :: u64) n"
    have "n < s" by (rule bit_small [of "ucast c :: u64"]) (use h(2) assms(3) in simp_all)
    with h(1) show False by (simp add: bit_push_bit_iff)
  qed
  then show y: "unat y = unat x * 2 ^ s + unat c" unfolding y_def by (simp only: unat_or_disjoint p unat_u32_u64)
  show d: "(unat x * 2 ^ s + unat c) div 2 ^ 30 < 2 ^ s"
    by (rule less_mult_imp_div_less) (use b in \<open>simp add: mult.commute\<close>)
  with s show "unat (ucast (carry_of y) :: u32) = (unat x * 2 ^ s + unat c) div 2 ^ 30"
    unfolding unat_ucast_mod unat_carry_of y by simp
qed

lemma left_shift_loop_correct:
  "limbs_ok xs \<Longrightarrow> s < 30 \<Longrightarrow> unat c < 2 ^ s \<Longrightarrow>
   limbs_val (left_shift_loop xs s c) = limbs_val xs * 2 ^ s + unat c \<and> limbs_ok (left_shift_loop xs s c)
   \<and> length (left_shift_loop xs s c) = Suc (length xs)"
proof (induction xs s c rule: left_shift_loop.induct)
  case (1 s c)
  have "(2::nat) ^ s \<le> 2 ^ 30" using 1 by (intro power_increasing) auto
  with 1 show ?case by (auto intro: less_le_trans)
next
  case (2 x xs s c)
  let ?y = "push_bit s (ucast x) OR ucast c :: u64"
  have y: "unat ?y = unat x * 2 ^ s + unat c" "unat (ucast (carry_of ?y) :: u32) = (unat x * 2 ^ s + unat c) div 2 ^ 30"
    "(unat x * 2 ^ s + unat c) div 2 ^ 30 < 2 ^ s"
    by (rule shifted_limb; use 2 in simp)+
  have IH: "limbs_val (left_shift_loop xs s (ucast (carry_of ?y))) = limbs_val xs * 2 ^ s + (unat x * 2 ^ s + unat c) div 2 ^ 30"
    "limbs_ok (left_shift_loop xs s (ucast (carry_of ?y)))" "length (left_shift_loop xs s (ucast (carry_of ?y))) = Suc (length xs)"
    using 2 y(2,3) by simp_all
  have step: "left_shift_loop (x # xs) s c = limb_of ?y # left_shift_loop xs s (ucast (carry_of ?y))" by (simp only: left_shift_loop.simps Let_def)
  have "limbs_val (left_shift_loop (x # xs) s c)
      = (unat x * 2 ^ s + unat c) mod 2 ^ 30 + 2 ^ 30 * ((unat x * 2 ^ s + unat c) div 2 ^ 30) + 2 ^ 30 * (limbs_val xs * 2 ^ s)"
    unfolding step limbs_val.simps IH(1) unat_limb_of y(1) by (simp add: distrib_left)
  also have "\<dots> = limbs_val (x # xs) * 2 ^ s + unat c" unfolding mod_mult_div_eq by (simp add: algebra_simps)
  finally show ?case using IH unfolding step by simp
qed

lemma left_shift_magnitude_builds:
  assumes "bigint_ok b" "shift \<le> 65536"
  obtains ls where "builds (left_shift_magnitude b shift :: (u32 list option, 'c) run) ls" "limbs_ok ls" "ls \<noteq> []"
    "limbs_val ls = limbs_val (limbs b) * 2 ^ shift"
proof (rule that)
  let ?k = "shift div 30" and ?s = "shift mod 30"
  let ?l = "left_shift_loop (limbs b) ?s 0"
  let ?f = "\<lambda>result. in_use (take ?k result @ ?l)"
  let ?n = "length (limbs b) + ?k + 1"
  have l: "limbs_val ?l = limbs_val (limbs b) * 2 ^ ?s" "limbs_ok ?l" "length ?l = Suc (length (limbs b))"
    using left_shift_loop_correct [of "limbs b" ?s 0] assms by (auto dest: bigint_okD)
  have k: "?k \<le> 2185" using assms(2) by (simp add: div_le_mono [of shift 65536 30, simplified])
  have n: "?n \<le> 4371" using k bigint_length [OF assms(1)] by simp
  let ?z = "replicate ?k 0 @ ?l"
  have z: "?f (replicate ?n 0) = in_use ?z" by (simp only: take_replicate) (simp add: min_absorb1)
  have val: "limbs_val ?z = limbs_val (limbs b) * 2 ^ shift"
  proof -
    have "(2::nat) ^ shift = 2 ^ (30 * ?k) * 2 ^ ?s" by (simp flip: power_add)
    then show ?thesis by (simp add: limbs_val_append l(1))
  qed
  have ne: "?z \<noteq> []" using l(3) by auto
  show "builds (left_shift_magnitude b shift) (in_use ?z)"
    unfolding left_shift_magnitude_def Let_def BIGINT_BITS_eq
    by (subst if_not_P) (use n in \<open>simp add: SIZE_MAX_def\<close>,
        rule builds_computed [where f = ?f, OF _ _ z [symmetric]], use n in \<open>simp_all add: SIZE_MAX_def\<close>)
  show "limbs_ok (in_use ?z)" "limbs_val (in_use ?z) = limbs_val (limbs b) * 2 ^ shift" using l val by simp_all
  show "in_use ?z \<noteq> []" using trimmed_in_use [OF ne] by (simp add: trimmed_def)
qed

subsection \<open>Right shift\<close>

text \<open>The loop of \<open>right_shift_magnitude\<close> runs from the top limb down; the recursion visits the
  limbs above first. The carry out of the bottom limb is the second component.\<close>

fun right_shift_loop :: "u32 list \<Rightarrow> nat \<Rightarrow> u32 list \<times> u32" where
  "right_shift_loop [] bit_shift = ([], 0)"
| "right_shift_loop (limb # higher) bit_shift =
     (case right_shift_loop higher bit_shift of (out, carry) \<Rightarrow>
        if bit_shift = 0 then (limb # out, carry)
        else ((drop_bit bit_shift limb OR push_bit (BIGINT_BITS - bit_shift) carry) # out,
              limb AND (push_bit bit_shift 1 - 1)))"

definition right_shift_magnitude :: "bigint \<Rightarrow> nat \<Rightarrow> (u32 list option \<times> bool, 'c) run" where
  "right_shift_magnitude value shift =
     (let limb_shift = shift div BIGINT_BITS;
          bit_shift = shift mod BIGINT_BITS;
          discarded = list_ex (\<lambda>limb. limb \<noteq> 0) (take limb_shift (limbs value))
      in if limb_shift \<ge> length (limbs value)
         then after (allocate_limbs 1) (\<lambda>block. give (block, discarded \<or> \<not> bigint_is_zero value))
         else after (allocate_limbs (length (limbs value) - limb_shift)) (\<lambda>block. case block of
             None \<Rightarrow> give (None, discarded)
           | Some _ \<Rightarrow>
               (case right_shift_loop (drop limb_shift (limbs value)) bit_shift of (result, carry) \<Rightarrow>
                  give (Some (in_use result), discarded \<or> carry \<noteq> 0))))"

lemma right_shifted_limb:
  assumes "unat (x :: u32) < 2 ^ 30" "0 < s" "s < 30" "unat c < 2 ^ s"
  defines "y \<equiv> drop_bit s x OR push_bit (30 - s) c"
  shows "unat y = unat x div 2 ^ s + unat c * 2 ^ (30 - s)" and "unat y < 2 ^ 30"
    and "unat (x AND (push_bit s 1 - 1)) = unat x mod 2 ^ s"
proof -
  have pow: "(2::nat) ^ s * 2 ^ (30 - s) = 2 ^ 30" using assms(3) by (simp flip: power_add)
  have cb: "unat c * 2 ^ (30 - s) < 2 ^ 30"
    using mult_strict_right_mono [OF assms(4), of "2 ^ (30 - s)"] pow by simp
  have p: "unat (push_bit (30 - s) c) = unat c * 2 ^ (30 - s)"
    using cb by (simp only: unsigned_push_bit_eq) (simp add: push_bit_eq_mult take_bit_nat_eq_self)
  have "unat x < 2 ^ s * 2 ^ (30 - s)" unfolding pow by (rule assms(1))
  then have d: "unat (drop_bit s x) < 2 ^ (30 - s)"
    unfolding unat_drop_bit by (intro less_mult_imp_div_less) (simp add: mult.commute)
  have "drop_bit s x AND push_bit (30 - s) c = 0"
  proof (rule and_zeroI)
    fix n
    assume h: "bit (drop_bit s x) n" "bit (push_bit (30 - s) c) n"
    then have "30 - s \<le> n" by (simp add: bit_push_bit_iff)
    with bit_small [OF d h(1)] show False by simp
  qed
  then show "unat y = unat x div 2 ^ s + unat c * 2 ^ (30 - s)"
    unfolding y_def by (simp only: unat_or_disjoint p unat_drop_bit)
  show "unat y < 2 ^ 30" unfolding y_def
  proof (rule unat_or_small)
    show "unat (drop_bit s x) < 2 ^ 30"
      unfolding unat_drop_bit by (rule le_less_trans [OF div_le_dividend assms(1)])
  qed (use cb p in simp)
  show "unat (x AND (push_bit s 1 - 1)) = unat x mod 2 ^ s"
    using unat_and_mask [of x s] by (simp add: mask_eq_decr_exp)
qed

lemma right_shift_loop_correct:
  "limbs_ok xs \<Longrightarrow> s < 30 \<Longrightarrow> right_shift_loop xs s = (out, c) \<Longrightarrow>
   limbs_val out = limbs_val xs div 2 ^ s \<and> unat c = limbs_val xs mod 2 ^ s \<and> limbs_ok out \<and> length out = length xs"
proof (induction xs s arbitrary: out c rule: right_shift_loop.induct)
  case (2 x xs s)
  obtain o' c' where r: "right_shift_loop xs s = (o', c')" by (cases "right_shift_loop xs s")
  have IH: "limbs_val o' = limbs_val xs div 2 ^ s" "unat c' = limbs_val xs mod 2 ^ s" "limbs_ok o'" "length o' = length xs"
    using 2 r by simp_all
  show ?case
  proof (cases "s = 0")
    case True
    with 2 IH r show ?thesis by auto
  next
    case False
    let ?V = "limbs_val xs"
    have pow: "(2::nat) ^ 30 = 2 ^ s * 2 ^ (30 - s)" using 2(3) by (simp flip: power_add)
    have outc: "out = (drop_bit s x OR push_bit (30 - s) c') # o'" "c = x AND (push_bit s 1 - 1)"
      using 2(4) r False by simp_all
    have c': "unat c' < 2 ^ s" using IH(2) by simp
    have y: "unat (drop_bit s x OR push_bit (30 - s) c') = unat x div 2 ^ s + unat c' * 2 ^ (30 - s)"
      "unat (drop_bit s x OR push_bit (30 - s) c') < 2 ^ 30" "unat c = unat x mod 2 ^ s"
      unfolding outc(2) by (rule right_shifted_limb; use 2 False c' in simp)+
    have split: "limbs_val (x # xs) = unat x + 2 ^ s * (2 ^ (30 - s) * ?V)"
      unfolding limbs_val.simps pow by (simp only: mult.assoc)
    have "limbs_val (x # xs) div 2 ^ s = unat x div 2 ^ s + 2 ^ (30 - s) * ?V" unfolding split by simp
    also have "2 ^ (30 - s) * ?V = 2 ^ (30 - s) * (2 ^ s * (?V div 2 ^ s) + ?V mod 2 ^ s)" by simp
    also have "\<dots> = unat c' * 2 ^ (30 - s) + 2 ^ 30 * (?V div 2 ^ s)"
      unfolding IH(2) pow by (simp only: distrib_left mult.assoc mult.commute mult.left_commute add.commute)
    finally have "limbs_val out = limbs_val (x # xs) div 2 ^ s"
      unfolding outc(1) limbs_val.simps(2) y(1) IH(1) by simp
    moreover have "limbs_val (x # xs) mod 2 ^ s = unat x mod 2 ^ s" unfolding split by simp
    ultimately show ?thesis using y IH outc by simp
  qed
qed simp

lemma list_ex_limbs: "list_ex (\<lambda>limb. limb \<noteq> 0) xs \<longleftrightarrow> limbs_val xs \<noteq> 0"
  by (induction xs) (auto simp: unat_eq_0)

lemma right_shift_magnitude_builds:
  assumes "bigint_ok b"
  obtains ls where
    "computes (\<lambda>r. fst r = None) (right_shift_magnitude b shift :: (u32 list option \<times> bool, 'c) run)
       (Some ls, limbs_val (limbs b) mod 2 ^ shift \<noteq> 0)"
    "limbs_ok ls" "ls \<noteq> []" "limbs_val ls = limbs_val (limbs b) div 2 ^ shift" "length ls \<le> 2185"
proof -
  let ?k = "shift div 30" and ?s = "shift mod 30" and ?V = "limbs_val (limbs b)"
  let ?ex = "list_ex (\<lambda>limb. limb \<noteq> 0) (take ?k (limbs b))"
  have ok: "limbs_ok (limbs b)" "limbs b \<noteq> []" using assms by (auto dest: bigint_okD)
  have len: "length (limbs b) \<le> 2185" using assms by (rule bigint_length)
  have pow: "(2::nat) ^ shift = 2 ^ (30 * ?k) * 2 ^ ?s" by (simp flip: power_add)
  show thesis
  proof (cases "?k \<ge> length (limbs b)")
    case True
    have "?V < 2 ^ (30 * length (limbs b))" using ok by (simp add: limbs_val_bound)
    also have "\<dots> \<le> 2 ^ shift"
      by (rule power_increasing) (use True in \<open>simp_all add: less_eq_div_iff_mult_less_eq mult.commute\<close>)
    finally have V: "?V div 2 ^ shift = 0" "?V mod 2 ^ shift = ?V" by simp_all
    have "(?ex \<or> \<not> bigint_is_zero b) \<longleftrightarrow> ?V \<noteq> 0"
      using True bigint_is_zero_val [OF assms] by (simp add: list_ex_limbs bigint_val_def)
    then have "computes (\<lambda>r. fst r = None) (right_shift_magnitude b shift :: (u32 list option \<times> bool, 'c) run) (Some [0], ?V mod 2 ^ shift \<noteq> 0)"
      unfolding right_shift_magnitude_def Let_def BIGINT_BITS_eq if_P [OF True]
      by (intro computes_after [OF builds_allocate [of 1], where g = "\<lambda>_. (None, ?V \<noteq> 0)"])
         (simp_all add: SIZE_MAX_def V refused_block_def)
    then show thesis by (rule that) (simp_all add: V)
  next
    case False
    obtain out c where loop: "right_shift_loop (drop ?k (limbs b)) ?s = (out, c)"
      by (cases "right_shift_loop (drop ?k (limbs b)) ?s")
    have out: "limbs_val out = limbs_val (drop ?k (limbs b)) div 2 ^ ?s" "unat c = limbs_val (drop ?k (limbs b)) mod 2 ^ ?s"
      "limbs_ok out" "length out = length (limbs b) - ?k"
      using right_shift_loop_correct [OF _ _ loop] ok by simp_all
    have hi: "limbs_val (drop ?k (limbs b)) = ?V div 2 ^ (30 * ?k)" using False ok by (simp add: limbs_val_div)
    have lo: "limbs_val (take ?k (limbs b)) = ?V mod 2 ^ (30 * ?k)" using False ok by (simp add: limbs_val_mod)
    have q: "limbs_val out = ?V div 2 ^ shift" unfolding pow out(1) hi by (simp only: div_mult2_eq)
    have "?V mod 2 ^ shift = 2 ^ (30 * ?k) * unat c + limbs_val (take ?k (limbs b))"
      unfolding pow out(2) hi lo by (simp only: mod_mult2_eq)
    then have d: "(?ex \<or> c \<noteq> 0) \<longleftrightarrow> ?V mod 2 ^ shift \<noteq> 0" by (auto simp: list_ex_limbs unat_eq_0)
    have n: "0 < length (limbs b) - ?k" "length (limbs b) - ?k \<le> SIZE_MAX div 4" using False len by (simp_all add: SIZE_MAX_def)
    have "computes (\<lambda>r. fst r = None) (right_shift_magnitude b shift :: (u32 list option \<times> bool, 'c) run)
        (Some (in_use out), ?V mod 2 ^ shift \<noteq> 0)"
      unfolding right_shift_magnitude_def Let_def BIGINT_BITS_eq if_not_P [OF False] d [symmetric]
      by (rule computes_after [OF builds_allocate [OF n], where g = "\<lambda>_. (None, ?ex)"])
         (simp_all add: loop refused_block_def)
    note comp = this
    have ne: "out \<noteq> []" using out(4) False by auto
    from comp show thesis
      by (rule that)
         (use out(3,4) q len trimmed_in_use [OF ne] length_in_use [of out] in \<open>simp_all add: trimmed_def\<close>)
  qed
qed

subsection \<open>Increment\<close>

fun increment_loop :: "u32 list \<Rightarrow> u32 \<Rightarrow> u32 list" where
  "increment_loop [] carry = [carry]"
| "increment_loop (x # xs) carry =
     (if carry = 0 then (x # xs) @ [carry]
      else let sum = x + carry in (sum AND BIGINT_MASK) # increment_loop xs (drop_bit BIGINT_BITS sum))"

definition increment_magnitude :: "u32 list \<Rightarrow> (u32 list option, 'c) run" where
  "increment_magnitude input =
     (if length input = SIZE_MAX then give None
      else after (allocate_limbs (length input + 1)) (\<lambda>block. case block of
          None \<Rightarrow> give None
        | Some _ \<Rightarrow> give (Some (in_use (increment_loop input 1)))))"

lemma carried_limb:
  assumes "unat (x :: u32) < 2 ^ 30" "unat c \<le> 1"
  shows "unat ((x + c) AND BIGINT_MASK) + 2 ^ 30 * unat (drop_bit 30 (x + c)) = unat x + unat c"
    and "unat (drop_bit 30 (x + c)) \<le> 1" and "unat ((x + c) AND BIGINT_MASK) < 2 ^ 30"
proof -
  have s: "unat (x + c) = unat x + unat c" using assms by (subst unat_add_no_wrap) auto
  show "unat ((x + c) AND BIGINT_MASK) + 2 ^ 30 * unat (drop_bit 30 (x + c)) = unat x + unat c"
    unfolding unat_mask_u32 unat_drop_bit s by (rule mod_mult_div_eq)
  have "unat (x + c) < 2 * 2 ^ 30" using assms s by simp
  then have "unat (x + c) div 2 ^ 30 < 2" by (rule less_mult_imp_div_less)
  then show "unat (drop_bit 30 (x + c)) \<le> 1" by (simp add: unat_drop_bit)
  show "unat ((x + c) AND BIGINT_MASK) < 2 ^ 30" by simp
qed

lemma increment_loop_correct:
  "limbs_ok xs \<Longrightarrow> unat c \<le> 1 \<Longrightarrow>
   limbs_val (increment_loop xs c) = limbs_val xs + unat c \<and> limbs_ok (increment_loop xs c) \<and> increment_loop xs c \<noteq> []"
proof (induction xs c rule: increment_loop.induct)
  case (2 x xs c)
  show ?case
  proof (cases "c = 0")
    case True
    then show ?thesis using 2 by (simp add: limbs_val_append)
  next
    case False
    let ?y = "(x + c) AND BIGINT_MASK" and ?d = "drop_bit 30 (x + c)"
    have y: "unat ?y + 2 ^ 30 * unat ?d = unat x + unat c" "unat ?d \<le> 1" "unat ?y < 2 ^ 30"
      by (rule carried_limb; use 2 in simp)+
    have IH: "limbs_val (increment_loop xs ?d) = limbs_val xs + unat ?d" "limbs_ok (increment_loop xs ?d)"
      using 2 y(2) False by simp_all
    have step: "increment_loop (x # xs) c = ?y # increment_loop xs ?d" using False by (simp add: Let_def)
    have "limbs_val (?y # increment_loop xs ?d) = unat ?y + 2 ^ 30 * unat ?d + 2 ^ 30 * limbs_val xs"
      unfolding limbs_val.simps IH(1) by (simp only: distrib_left ac_simps)
    also have "\<dots> = limbs_val (x # xs) + unat c" unfolding y(1) by simp
    finally show ?thesis unfolding step using IH(2) y(3) by simp
  qed
qed simp

lemma increment_magnitude_builds:
  assumes "limbs_ok ls" "ls \<noteq> []" "length ls \<le> 10000"
  obtains ls' where "builds (increment_magnitude ls :: (u32 list option, 'c) run) ls'" "limbs_ok ls'" "ls' \<noteq> []"
    "limbs_val ls' = limbs_val ls + 1"
proof (rule that)
  let ?z = "increment_loop ls 1"
  have z: "limbs_val ?z = limbs_val ls + 1" "limbs_ok ?z" "?z \<noteq> []"
    using increment_loop_correct [of ls 1] assms by simp_all
  show "builds (increment_magnitude ls) (in_use ?z)"
    unfolding increment_magnitude_def
    by (subst if_not_P) (use assms in \<open>simp add: SIZE_MAX_def\<close>, rule builds_computed, use assms in \<open>simp_all add: SIZE_MAX_def\<close>)
  show "limbs_ok (in_use ?z)" "limbs_val (in_use ?z) = limbs_val ls + 1" using z by simp_all
  show "in_use ?z \<noteq> []" using trimmed_in_use [OF z(3)] by (simp add: trimmed_def)
qed

subsection \<open>Bitwise operators\<close>

datatype bigint_operator =
    BIGINT_ADD | BIGINT_SUBTRACT | BIGINT_MULTIPLY | BIGINT_DIVIDE | BIGINT_REMAINDER
  | BIGINT_EXPONENTIATE | BIGINT_AND | BIGINT_OR | BIGINT_XOR | BIGINT_SHIFT_LEFT | BIGINT_SHIFT_RIGHT

text \<open>Two's complement in place: every limb inverted, and a carry of 1 added.\<close>

fun complement_loop :: "u32 list \<Rightarrow> u32 \<Rightarrow> u32 list" where
  "complement_loop [] carry = []"
| "complement_loop (x # xs) carry =
     (let value = NOT x AND BIGINT_MASK; sum = value + carry
      in (sum AND BIGINT_MASK) # complement_loop xs (drop_bit BIGINT_BITS sum))"

definition combine_limb :: "bigint_operator \<Rightarrow> u32 \<Rightarrow> u32 \<Rightarrow> u32" where
  "combine_limb operator x y =
     (if operator = BIGINT_AND then x AND y else if operator = BIGINT_OR then x OR y else x XOR y)"

definition bitwise_limbs :: "bigint_operator \<Rightarrow> nat \<Rightarrow> bigint \<Rightarrow> bigint \<Rightarrow> u32 list \<times> bool" where
  "bitwise_limbs operator width left right =
     (let left_bits = limbs left @ replicate (width - length (limbs left)) 0;
          right_bits = limbs right @ replicate (width - length (limbs right)) 0;
          left_bits = (if negative left then complement_loop left_bits 1 else left_bits);
          right_bits = (if negative right then complement_loop right_bits 1 else right_bits);
          result = map2 (combine_limb operator) left_bits right_bits;
          neg = drop_bit (BIGINT_BITS - 1) (result ! (width - 1)) \<noteq> 0
      in (if neg then complement_loop result 1 else result, neg))"

definition bitwise_magnitude :: "bigint \<Rightarrow> bigint \<Rightarrow> bigint_operator \<Rightarrow> (u32 list option \<times> bool, 'c) run" where
  "bitwise_magnitude left right operator =
     (let width = (if length (limbs left) > length (limbs right) then length (limbs left) else length (limbs right))
      in if width = SIZE_MAX then give (None, False)
         else after (allocate_limbs (width + 1)) (\<lambda>left_bits. case left_bits of
             None \<Rightarrow> give (None, False)
           | Some _ \<Rightarrow> after (allocate_limbs (width + 1)) (\<lambda>right_bits. case right_bits of
               None \<Rightarrow> give (None, False)
             | Some _ \<Rightarrow>
                 (case bitwise_limbs operator (width + 1) left right of
                    (result, neg) \<Rightarrow> give (Some (in_use result), neg)))))"

lemma inverted_limb:
  assumes "unat (x :: u32) < 2 ^ 30"
  shows "unat (NOT x AND BIGINT_MASK) = 2 ^ 30 - 1 - unat x"
proof -
  have x: "take_bit 30 x = x" using assms by (simp add: word_unat_eq_iff unsigned_take_bit_eq take_bit_nat_eq_self)
  have "NOT x AND BIGINT_MASK = take_bit 30 (NOT x)" by (simp add: BIGINT_MASK_mask take_bit_eq_mask)
  also have "\<dots> = mask 30 - x"
    using take_bit_not_eq_mask_diff [of 30 x] x by simp
  finally have e: "NOT x AND BIGINT_MASK = mask 30 - x" .
  have m: "unat (mask 30 :: u32) = 2 ^ 30 - 1" by (simp add: mask_eq_decr_exp)
  have "unat x \<le> unat (mask 30 :: u32)" unfolding m using assms by simp
  then show ?thesis unfolding e by (simp only: unat_sub_no_wrap m)
qed

lemma length_complement_loop [simp]: "length (complement_loop xs c) = length xs"
  by (induction xs c rule: complement_loop.induct) (simp_all add: Let_def)

lemma complement_loop_correct:
  "limbs_ok xs \<Longrightarrow> unat c \<le> 1 \<Longrightarrow> limbs_ok (complement_loop xs c) \<and>
   (\<exists>out. limbs_val (complement_loop xs c) + out * 2 ^ (30 * length xs) + limbs_val xs + 1 = 2 ^ (30 * length xs) + unat c)"
proof (induction xs c rule: complement_loop.induct)
  case (1 c)
  then show ?case by (auto intro: exI [of _ "unat c"])
next
  case (2 x xs c)
  let ?v = "NOT x AND BIGINT_MASK"
  let ?y = "(?v + c) AND BIGINT_MASK" and ?d = "drop_bit 30 (?v + c)"
  have v: "unat ?v = 2 ^ 30 - 1 - unat x" using 2 by (intro inverted_limb) simp
  then have "unat ?v < 2 ^ 30" by simp
  then have y: "unat ?y + 2 ^ 30 * unat ?d = unat ?v + unat c" "unat ?d \<le> 1" "unat ?y < 2 ^ 30"
    by (rule carried_limb; use 2 in simp)+
  obtain out where IH: "limbs_ok (complement_loop xs ?d)"
    "limbs_val (complement_loop xs ?d) + out * 2 ^ (30 * length xs) + limbs_val xs + 1 = 2 ^ (30 * length xs) + unat ?d"
    using 2 y(2) by (auto simp: Let_def)
  have step: "complement_loop (x # xs) c = ?y # complement_loop xs ?d" by (simp add: Let_def)
  have x: "unat ?v + unat x + 1 = 2 ^ 30" using v 2 by simp
  have "limbs_val (?y # complement_loop xs ?d) + out * 2 ^ (30 * length (x # xs)) + limbs_val (x # xs) + 2 ^ 30
      = unat ?y + unat x + 2 ^ 30 * (limbs_val (complement_loop xs ?d) + out * 2 ^ (30 * length xs) + limbs_val xs + 1)"
    by (simp add: power_add distrib_left ac_simps)
  also have "\<dots> = unat ?y + 2 ^ 30 * unat ?d + unat x + 2 ^ (30 * length (x # xs))"
    unfolding IH(2) by (simp add: power_add distrib_left)
  also have "\<dots> = unat ?v + unat x + unat c + 2 ^ (30 * length (x # xs))" unfolding y(1) by simp
  finally have "limbs_val (complement_loop (x # xs) c) + out * 2 ^ (30 * length (x # xs)) + limbs_val (x # xs) + 1
      = 2 ^ (30 * length (x # xs)) + unat c"
    unfolding step using x by linarith
  then show ?case using IH(1) y(3) unfolding step by auto
qed

lemma complement_val:
  assumes "limbs_ok xs" "limbs_val xs \<noteq> 0"
  shows "limbs_val (complement_loop xs 1) = 2 ^ (30 * length xs) - limbs_val xs" and "limbs_ok (complement_loop xs 1)"
proof -
  obtain out where ok: "limbs_ok (complement_loop xs 1)"
    and eq: "limbs_val (complement_loop xs 1) + out * 2 ^ (30 * length xs) + limbs_val xs + 1 = 2 ^ (30 * length xs) + 1"
    using complement_loop_correct [OF assms(1), of 1] by auto
  show "limbs_ok (complement_loop xs 1)" by (rule ok)
  have "out = 0"
  proof (rule ccontr)
    assume "out \<noteq> 0"
    then have "2 ^ (30 * length xs) \<le> out * 2 ^ (30 * length xs)" by (cases out) auto
    with eq assms(2) show False by linarith
  qed
  with eq show "limbs_val (complement_loop xs 1) = 2 ^ (30 * length xs) - limbs_val xs" by simp
qed

end
