(* ===== verification/BigInt_Bitwise.thy ===== *)
theory BigInt_Bitwise
  imports BigInt_Bits
begin

text \<open>
  \<open>bitwise_magnitude\<close> of \<open>runtime_bigint.c\<close> computes \<open>&\<close>, \<open>|\<close> and \<open>^\<close> of the unbounded two's
  complement readings of its operands.
\<close>

subsection \<open>The operators on natural numbers, limb by limb\<close>

definition combine_int :: "bigint_operator \<Rightarrow> int \<Rightarrow> int \<Rightarrow> int" where
  "combine_int operator x y =
     (if operator = BIGINT_AND then x AND y else if operator = BIGINT_OR then x OR y else x XOR y)"

definition combine_nat :: "bigint_operator \<Rightarrow> nat \<Rightarrow> nat \<Rightarrow> nat" where
  "combine_nat operator x y =
     (if operator = BIGINT_AND then x AND y else if operator = BIGINT_OR then x OR y else x XOR y)"

lemma unat_combine_limb: "unat (combine_limb op x y) = combine_nat op (unat x) (unat y)"
  by (simp add: combine_limb_def combine_nat_def unsigned_and_eq unsigned_or_eq unsigned_xor_eq)

lemma int_combine_nat: "int (combine_nat op m n) = combine_int op (int m) (int n)"
  by (simp add: combine_nat_def combine_int_def of_nat_and_eq of_nat_or_eq of_nat_xor_eq)

lemma take_bit_combine_nat: "take_bit k (combine_nat op m n) = combine_nat op (take_bit k m) (take_bit k n)"
  by (simp add: combine_nat_def take_bit_and take_bit_or take_bit_xor)

lemma drop_bit_combine_nat: "drop_bit k (combine_nat op m n) = combine_nat op (drop_bit k m) (drop_bit k n)"
  by (simp add: combine_nat_def drop_bit_and drop_bit_or drop_bit_xor)

lemma combine_nat_split:
  assumes "x < 2 ^ k" "y < 2 ^ k"
  shows "combine_nat op (x + 2 ^ k * m) (y + 2 ^ k * n) = combine_nat op x y + 2 ^ k * combine_nat op m n"
proof -
  let ?X = "x + 2 ^ k * m" and ?Y = "y + 2 ^ k * n"
  have "take_bit k ?X = x" "take_bit k ?Y = y" "drop_bit k ?X = m" "drop_bit k ?Y = n"
    using assms by (simp_all add: take_bit_eq_mod drop_bit_eq_div)
  then have "take_bit k (combine_nat op ?X ?Y) = combine_nat op x y" "drop_bit k (combine_nat op ?X ?Y) = combine_nat op m n"
    by (simp_all only: take_bit_combine_nat drop_bit_combine_nat)
  then show ?thesis
    using bits_ident [of k "combine_nat op ?X ?Y"] by (simp add: push_bit_eq_mult mult.commute add.commute)
qed

lemma combine_nat_less: "x < 2 ^ k \<Longrightarrow> y < 2 ^ k \<Longrightarrow> combine_nat op x y < 2 ^ k"
  by (metis take_bit_combine_nat take_bit_nat_eq_self take_bit_nat_less_exp)

lemma combine_limbs:
  "length xs = length ys \<Longrightarrow> limbs_ok xs \<Longrightarrow> limbs_ok ys \<Longrightarrow>
   limbs_val (map2 (combine_limb op) xs ys) = combine_nat op (limbs_val xs) (limbs_val ys)
   \<and> limbs_ok (map2 (combine_limb op) xs ys)"
proof (induction xs ys rule: list_induct2)
  case Nil
  then show ?case by (simp add: combine_nat_def)
next
  case (Cons x xs y ys)
  then have x: "unat x < 2 ^ 30" "unat y < 2 ^ 30" by simp_all
  have IH: "limbs_val (map2 (combine_limb op) xs ys) = combine_nat op (limbs_val xs) (limbs_val ys)"
    "limbs_ok (map2 (combine_limb op) xs ys)" using Cons by simp_all
  have "limbs_val (map2 (combine_limb op) (x # xs) (y # ys))
      = combine_nat op (unat x) (unat y) + 2 ^ 30 * combine_nat op (limbs_val xs) (limbs_val ys)"
    unfolding list.map zip_Cons_Cons prod.case limbs_val.simps IH(1) unat_combine_limb ..
  also have "\<dots> = combine_nat op (limbs_val (x # xs)) (limbs_val (y # ys))"
    unfolding limbs_val.simps by (rule combine_nat_split [symmetric, OF x])
  finally show ?case using IH(2) combine_nat_less [OF x] by (simp add: unat_combine_limb)
qed

subsection \<open>Two's complement of a given width\<close>

lemma combine_int_range:
  assumes "- (2 ^ n) \<le> a" "a < 2 ^ n" "- (2 ^ n) \<le> b" "b < 2 ^ n"
  shows "- (2 ^ n) \<le> combine_int op a b \<and> combine_int op a b < 2 ^ n"
proof -
  have "signed_take_bit n a = a" "signed_take_bit n b = b" using assms by (simp_all add: signed_take_bit_int_eq_self_iff)
  moreover have "signed_take_bit n (combine_int op a b) = combine_int op (signed_take_bit n a) (signed_take_bit n b)"
    by (rule bit_eqI) (simp add: combine_int_def bit_signed_take_bit_iff bit_and_iff bit_or_iff bit_xor_iff)
  ultimately have "signed_take_bit n (combine_int op a b) = combine_int op a b" by simp
  then show ?thesis by (simp add: signed_take_bit_int_eq_self_iff)
qed

lemma take_bit_combine_int: "take_bit k (combine_int op a b) = combine_int op (take_bit k a) (take_bit k b)"
  by (simp add: combine_int_def take_bit_and take_bit_or take_bit_xor)

lemma operand_bits:
  assumes ok: "bigint_ok b" and w: "length (limbs b) < w"
  defines "bits \<equiv> (let bits = limbs b @ replicate (w - length (limbs b)) 0
                   in if negative b then complement_loop bits 1 else bits)"
  shows "length bits = w" and "limbs_ok bits" and "int (limbs_val bits) = take_bit (30 * w) (bigint_val b)"
    and "- (2 ^ (30 * w - 1)) \<le> bigint_val b" and "bigint_val b < 2 ^ (30 * w - 1)"
proof -
  let ?p = "limbs b @ replicate (w - length (limbs b)) 0" and ?V = "limbs_val (limbs b)"
  have p: "limbs_ok ?p" "limbs_val ?p = ?V" "length ?p = w" using ok w by (auto simp: limbs_val_append dest: bigint_okD)
  have "?V < 2 ^ (30 * length (limbs b))" using ok by (intro limbs_val_bound) (auto dest: bigint_okD)
  also have "\<dots> \<le> 2 ^ (30 * w - 1)" using w by (intro power_increasing) auto
  finally have V: "?V < 2 ^ (30 * w - 1)" .
  then have V': "int ?V < 2 ^ (30 * w - 1)" by simp
  have "\<bar>bigint_val b\<bar> < 2 ^ (30 * w - 1)" using V' by (simp only: bigint_val_def abs_signed)
  then show "- (2 ^ (30 * w - 1)) \<le> bigint_val b" "bigint_val b < 2 ^ (30 * w - 1)" by linarith+
  have "(2::nat) ^ (30 * w - 1) \<le> 2 ^ (30 * w)" by (intro power_increasing) auto
  with V have W: "?V < 2 ^ (30 * w)" by linarith
  then have W': "int ?V < 2 ^ (30 * w)" by simp
  show "length bits = w" unfolding bits_def Let_def using p(3) by simp
  show "limbs_ok bits"
    unfolding bits_def Let_def using p ok complement_val(2) [OF p(1)] by (simp add: bigint_ok_def)
  show "int (limbs_val bits) = take_bit (30 * w) (bigint_val b)"
  proof (cases "negative b")
    case False
    then show ?thesis
      unfolding bits_def Let_def using p W' by (simp add: bigint_val_def take_bit_eq_mod)
  next
    case True
    then have nz: "?V \<noteq> 0" using ok by (simp add: bigint_ok_def)
    then have "limbs_val bits = 2 ^ (30 * w) - ?V"
      unfolding bits_def Let_def using True p complement_val(1) [OF p(1)] by simp
    then have "int (limbs_val bits) = 2 ^ (30 * w) - int ?V" using W by (simp add: of_nat_diff)
    also have "\<dots> = (- int ?V) mod 2 ^ (30 * w)" using nz W' by (subst zmod_zminus1_eq_if) auto
    finally show ?thesis using True by (simp add: bigint_val_def take_bit_eq_mod)
  qed
qed

lemma top_bit_set:
  assumes "limbs_ok xs" "0 < length xs"
  shows "drop_bit 29 (xs ! (length xs - 1)) \<noteq> 0 \<longleftrightarrow> 2 ^ (30 * length xs - 1) \<le> limbs_val xs"
proof -
  let ?n = "length xs - 1"
  have "drop ?n xs = [xs ! ?n]" using assms(2) by (metis Cons_nth_drop_Suc Suc_diff_1 drop_all le_refl lessI)
  then have top: "limbs_val xs div 2 ^ (30 * ?n) = unat (xs ! ?n)"
    using assms by (simp add: limbs_val_div)
  have e: "30 * length xs - 1 = 30 * ?n + 29" using assms(2) by (cases "length xs") simp_all
  have "unat (drop_bit 29 (xs ! ?n)) = limbs_val xs div 2 ^ (30 * length xs - 1)"
    unfolding e power_add by (simp only: div_mult2_eq top unat_drop_bit)
  moreover have "limbs_val xs div 2 ^ (30 * length xs - 1) \<noteq> 0 \<longleftrightarrow> 2 ^ (30 * length xs - 1) \<le> limbs_val xs"
    by (simp add: div_eq_0_iff not_less)
  ultimately show ?thesis by (metis unat_eq_0)
qed

text \<open>Reading a magnitude of \<open>w\<close> bits as two's complement.\<close>

lemma signed_reading:
  fixes r :: int
  assumes "- (2 ^ n) \<le> r" "r < 2 ^ n" "int v = take_bit (Suc n) r"
  shows "2 ^ n \<le> v \<longleftrightarrow> r < 0" and "r < 0 \<Longrightarrow> v \<noteq> 0 \<and> int (2 ^ Suc n - v) = - r" and "0 \<le> r \<Longrightarrow> int v = r"
proof -
  have b: "v < 2 ^ Suc n" using assms(3) by (metis of_nat_less_numeral_power_cancel_iff take_bit_int_less_exp)
  have pos: "int v = r" if "0 \<le> r" using that assms by (simp add: take_bit_eq_mod)
  have neg: "int v = r + 2 ^ Suc n" if "r < 0"
    unfolding assms(3) take_bit_eq_mod using that assms(1)
    by (subst mod_add_self2 [symmetric], subst mod_pos_pos_trivial) simp_all
  show "2 ^ n \<le> v \<longleftrightarrow> r < 0"
  proof (cases "r < 0")
    case True
    with neg assms(1) have "2 ^ n \<le> int v" by simp
    then have "2 ^ n \<le> v" by simp
    with True show ?thesis by simp
  next
    case False
    with pos assms(2) have "int v < 2 ^ n" by simp
    then have "v < 2 ^ n" by simp
    with False show ?thesis by simp
  qed
  show "0 \<le> r \<Longrightarrow> int v = r" by (rule pos)
  assume r: "r < 0"
  have "(0::int) < 2 ^ n" by simp
  with neg [OF r] assms(1) have "0 < int v" unfolding power_Suc by linarith
  then have "v \<noteq> 0" by simp
  moreover have "int (2 ^ Suc n - v) = - r" using neg [OF r] b by (simp add: of_nat_diff)
  ultimately show "v \<noteq> 0 \<and> int (2 ^ Suc n - v) = - r" ..
qed

lemma bitwise_limbs_correct:
  assumes a: "bigint_ok a" "length (limbs a) < w" and b: "bigint_ok b" "length (limbs b) < w"
    and result: "bitwise_limbs op w a b = (ls, neg)"
  shows "limbs_ok ls" and "length ls = w" and "signed neg (limbs_val ls) = combine_int op (bigint_val a) (bigint_val b)"
proof -
  define A where "A = (let bits = limbs a @ replicate (w - length (limbs a)) 0 in if negative a then complement_loop bits 1 else bits)"
  define B where "B = (let bits = limbs b @ replicate (w - length (limbs b)) 0 in if negative b then complement_loop bits 1 else bits)"
  define C where "C = map2 (combine_limb op) A B"
  note A = operand_bits [OF a, folded A_def] and B = operand_bits [OF b, folded B_def]
  let ?r = "combine_int op (bigint_val a) (bigint_val b)" and ?n = "30 * w - 1"
  have w: "0 < w" "Suc ?n = 30 * w" using a(2) by auto
  have C: "limbs_ok C" "length C = w" "limbs_val C = combine_nat op (limbs_val A) (limbs_val B)"
    using combine_limbs [of A B op] A B by (simp_all add: C_def)
  have v: "int (limbs_val C) = take_bit (Suc ?n) ?r"
    unfolding C(3) int_combine_nat A(3) B(3) w(2) by (rule take_bit_combine_int [symmetric])
  have range: "- (2 ^ ?n) \<le> ?r" "?r < 2 ^ ?n"
    using combine_int_range [OF A(4,5) B(4,5)] by simp_all
  note reading = signed_reading [OF range v]
  have unfolded: "neg \<longleftrightarrow> drop_bit 29 (C ! (w - 1)) \<noteq> 0" "ls = (if neg then complement_loop C 1 else C)"
    using result unfolding bitwise_limbs_def C_def A_def B_def Let_def BIGINT_BITS_eq by auto
  have neg: "neg \<longleftrightarrow> ?r < 0"
  proof -
    have "neg \<longleftrightarrow> drop_bit 29 (C ! (w - 1)) \<noteq> 0" by (rule unfolded(1))
    also have "\<dots> \<longleftrightarrow> 2 ^ ?n \<le> limbs_val C" using top_bit_set [OF C(1)] w(1) by (simp add: C(2))
    finally show ?thesis using reading(1) by simp
  qed
  note ls = unfolded(2)
  have "limbs_ok ls \<and> length ls = w \<and> signed neg (limbs_val ls) = ?r"
  proof (cases "?r < 0")
    case True
    then have nz: "limbs_val C \<noteq> 0" and m: "int (2 ^ (30 * w) - limbs_val C) = - ?r" using reading(2) w(2) by simp_all
    then show ?thesis using True neg ls complement_val [OF C(1) nz] C(2) by simp
  next
    case False
    then show ?thesis using reading(3) neg ls C by simp
  qed
  then show "limbs_ok ls" "length ls = w" "signed neg (limbs_val ls) = ?r" by simp_all
qed

lemma bitwise_magnitude_builds:
  assumes "bigint_ok a" "bigint_ok b"
  obtains ls neg where
    "computes (\<lambda>r. fst r = None) (bitwise_magnitude a b op :: (u32 list option \<times> bool, 'c) run) (Some ls, neg)"
    "limbs_ok ls" "ls \<noteq> []" "signed neg (limbs_val ls) = combine_int op (bigint_val a) (bigint_val b)"
proof -
  let ?w = "if length (limbs a) > length (limbs b) then length (limbs a) else length (limbs b)"
  have w: "?w \<le> 2185" using assms by (auto dest: bigint_length)
  obtain ls neg where r: "bitwise_limbs op (?w + 1) a b = (ls, neg)" by (cases "bitwise_limbs op (?w + 1) a b")
  have c: "limbs_ok ls" "length ls = ?w + 1" "signed neg (limbs_val ls) = combine_int op (bigint_val a) (bigint_val b)"
    by (rule bitwise_limbs_correct [OF assms(1) _ assms(2) _ r]; simp)+
  have ne: "ls \<noteq> []" using c(2) by auto
  have n: "0 < ?w + 1" "?w + 1 \<le> SIZE_MAX div 4" "\<not> ?w = SIZE_MAX" using w by (simp_all add: SIZE_MAX_def)
  have "computes (\<lambda>r. fst r = None) (bitwise_magnitude a b op :: (u32 list option \<times> bool, 'c) run) (Some (in_use ls), neg)"
    unfolding bitwise_magnitude_def Let_def if_not_P [OF n(3)]
    by (rule computes_after [OF builds_allocate [OF n(1,2)], where g = "\<lambda>_. (None, False)"], unfold option.case r prod.case,
        rule computes_after [OF builds_allocate [OF n(1,2)], where g = "\<lambda>_. (None, False)"])
       (simp_all add: refused_block_def)
  then show thesis
    by (rule that) (use c trimmed_in_use [OF ne] in \<open>simp_all add: trimmed_def\<close>)
qed

end
