(* ===== verification/BigInt_Ops.thy ===== *)
theory BigInt_Ops
  imports BigInt_Bitwise
begin

text \<open>
  Shifts, exponentiation and the dispatch \<open>oseo_internal_bigint_binary\<close> of \<open>runtime_bigint.c\<close>,
  and the specification of the binary operators of ECMA-262 on integers that it refines.
\<close>

subsection \<open>Shifts\<close>

definition shift_result :: "bigint \<Rightarrow> bigint \<Rightarrow> bool \<Rightarrow> (rt_error + bigint, 'c) run" where
  "shift_result left right requested_left =
     (if length (limbs left) = 1 \<and> limbs left ! 0 = 0 then small_bigint False 0
      else
        let left_direction = (requested_left \<noteq> negative right)
        in case bigint_to_size right of
             None \<Rightarrow>
               if left_direction then give (Inl bigint_limit_error)
               else small_bigint (negative left) (if negative left then 1 else 0)
           | Some shift \<Rightarrow>
               if left_direction then
                 (if shift > BIGINT_MAX_BITS \<or> magnitude_bits (limbs left) > BIGINT_MAX_BITS - shift
                  then give (Inl bigint_limit_error)
                  else after (left_shift_magnitude left shift) (arithmetic_result (negative left)))
               else after (right_shift_magnitude left shift) (\<lambda>(result, discarded).
                 case result of
                   None \<Rightarrow> arithmetic_result (negative left) None
                 | Some ls \<Rightarrow>
                     if negative left \<and> discarded
                     then after (increment_magnitude ls) (arithmetic_result (negative left))
                     else arithmetic_result (negative left) (Some ls)))"

text \<open>The specified shift: left for a positive count, right, rounding down, for a negative one.\<close>

definition shift_int :: "int \<Rightarrow> int \<Rightarrow> int" where
  "shift_int a n = (if 0 \<le> n then a * 2 ^ nat n else a div 2 ^ nat (- n))"

lemma neg_shift_right:
  "signed neg V div 2 ^ s = signed neg (V div 2 ^ s + (if neg \<and> V mod 2 ^ s \<noteq> 0 then 1 else 0))"
proof (cases neg)
  case True
  have "(- int V) div 2 ^ s = (if int V mod 2 ^ s = 0 then - (int V div 2 ^ s) else - (int V div 2 ^ s) - 1)"
    by (rule zdiv_zminus1_eq_if) simp
  moreover have "int V mod 2 ^ s = int (V mod 2 ^ s)" "int V div 2 ^ s = int (V div 2 ^ s)"
    by (simp_all add: zmod_int zdiv_int)
  ultimately show ?thesis using True by simp
qed (simp add: zdiv_int)

lemma delivers_magnitude:
  "limbs_ok ls \<Longrightarrow> ls \<noteq> [] \<Longrightarrow> n = signed neg (limbs_val ls) \<Longrightarrow> delivers (arithmetic_result neg (Some ls)) (fits n)"
  using publish_bigint_fits [of ls neg] by (simp add: arithmetic_result_def)

lemma shift_left_fits:
  assumes a: "bigint_ok a" "bigint_val a \<noteq> 0"
  shows "delivers (if shift > BIGINT_MAX_BITS \<or> magnitude_bits (limbs a) > BIGINT_MAX_BITS - shift
       then give (Inl bigint_limit_error)
       else after (left_shift_magnitude a shift :: (u32 list option, 'c) run) (arithmetic_result (negative a)))
     (fits (bigint_val a * 2 ^ shift))"
proof -
  let ?V = "limbs_val (limbs a)"
  have V: "0 < ?V" "nat \<bar>bigint_val a * 2 ^ shift\<bar> = ?V * 2 ^ shift" "magnitude_bits (limbs a) = nbits ?V"
    using a bigint_okD(1,3,5) [OF a(1)] by (auto simp: abs_mult nat_mult_distrib nat_power_eq magnitude_bits_nbits bigint_val_def)
  have bits: "nbits (?V * 2 ^ shift) = nbits ?V + shift" using V(1) by (rule nbits_shift)
  have pos: "0 < nbits ?V" using V(1) by (simp add: nbits_pos)
  show ?thesis
  proof (cases "shift > BIGINT_MAX_BITS \<or> nbits ?V > BIGINT_MAX_BITS - shift")
    case True
    then have "fits (bigint_val a * 2 ^ shift) = Inl bigint_limit_error"
      using pos by (auto simp: fits_def V(2) bits)
    with True show ?thesis by (simp add: V(3))
  next
    case False
    then have "shift \<le> 65536" by (simp add: BIGINT_MAX_BITS_def)
    then obtain ls where ls: "builds (left_shift_magnitude a shift :: (u32 list option, 'c) run) ls" "limbs_ok ls" "ls \<noteq> []"
      "limbs_val ls = ?V * 2 ^ shift"
      using left_shift_magnitude_builds [OF a(1)] by blast
    have "bigint_val a * 2 ^ shift = signed (negative a) (limbs_val ls)"
      by (simp add: bigint_val_def signed_def ls(4))
    from arithmetic_result_fits [OF ls(1-3) this] show ?thesis
      unfolding V(3) if_not_P [OF False] .
  qed
qed

lemma shift_right_fits:
  assumes a: "bigint_ok a"
  shows "delivers (after (right_shift_magnitude a shift :: (u32 list option \<times> bool, 'c) run) (\<lambda>(result, discarded).
       case result of
         None \<Rightarrow> arithmetic_result (negative a) None
       | Some ls \<Rightarrow>
           if negative a \<and> discarded
           then after (increment_magnitude ls) (arithmetic_result (negative a))
           else arithmetic_result (negative a) (Some ls)))
     (fits (bigint_val a div 2 ^ shift))"
proof -
  let ?V = "limbs_val (limbs a)"
  obtain ls where ls:
    "computes (\<lambda>r. fst r = None) (right_shift_magnitude a shift :: (u32 list option \<times> bool, 'c) run) (Some ls, ?V mod 2 ^ shift \<noteq> 0)"
    "limbs_ok ls" "ls \<noteq> []" "limbs_val ls = ?V div 2 ^ shift" "length ls \<le> 2185"
    using right_shift_magnitude_builds [OF a] .
  have spec: "bigint_val a div 2 ^ shift = signed (negative a) (limbs_val ls + (if negative a \<and> ?V mod 2 ^ shift \<noteq> 0 then 1 else 0))"
    unfolding bigint_val_def ls(4) by (rule neg_shift_right)
  note step = computes_after [OF ls(1), where g = "\<lambda>_. Inl allocation_failure"]
  show ?thesis
  proof (rule step, unfold prod.case option.case)
    show "delivers (if negative a \<and> ?V mod 2 ^ shift \<noteq> 0
        then after (increment_magnitude ls :: (u32 list option, 'c) run) (arithmetic_result (negative a))
        else arithmetic_result (negative a) (Some ls)) (fits (bigint_val a div 2 ^ shift))"
    proof (cases "negative a \<and> ?V mod 2 ^ shift \<noteq> 0")
      case True
      have "length ls \<le> 10000" using ls(5) by simp
      then obtain out where out: "builds (increment_magnitude ls :: (u32 list option, 'c) run) out" "limbs_ok out" "out \<noteq> []"
        "limbs_val out = limbs_val ls + 1"
        using increment_magnitude_builds [OF ls(2,3)] by blast
      have "bigint_val a div 2 ^ shift = signed (negative a) (limbs_val out)" using True spec out(4) by simp
      from arithmetic_result_fits [OF out(1-3) this] True show ?thesis by simp
    next
      case False
      then have "bigint_val a div 2 ^ shift = signed (negative a) (limbs_val ls)" using spec by auto
      from delivers_magnitude [OF ls(2,3) this] show ?thesis unfolding if_not_P [OF False] .
    qed
  qed (auto simp: refused_with_def bigint_refusals_def arithmetic_result_def)
qed

lemma shift_result_fits:
  assumes a: "bigint_ok a" and b: "bigint_ok b"
  shows "delivers (shift_result a b d :: (rt_error + bigint, 'c) run)
     (fits (shift_int (bigint_val a) (if d then bigint_val b else - bigint_val b)))"
proof -
  let ?A = "bigint_val a" and ?n = "if d then bigint_val b else - bigint_val b" and ?N = "limbs_val (limbs b)"
  have zero: "(length (limbs a) = 1 \<and> limbs a ! 0 = 0) \<longleftrightarrow> ?A = 0"
    using bigint_is_zero_val [OF a] by (simp add: bigint_is_zero_def)
  show ?thesis
  proof (cases "?A = 0")
    case True
    then show ?thesis unfolding shift_result_def if_P [OF zero [THEN iffD2, OF True]]
      by (simp add: shift_int_def delivers_zero)
  next
    case False
    have nz: "\<not> (length (limbs a) = 1 \<and> limbs a ! 0 = 0)" using zero False by blast
    have dir: "?n = signed (d = negative b) ?N" by (auto simp: bigint_val_def signed_def)
    show ?thesis
    proof (cases "?N \<le> SIZE_MAX")
      case fit: True
      then have size: "bigint_to_size b = Some ?N" using b by (simp add: bigint_to_size_val)
      show ?thesis
      proof (cases "d \<noteq> negative b")
        case True
        then have "?n = int ?N" using dir by simp
        then have "shift_int ?A ?n = ?A * 2 ^ ?N" by (simp only: shift_int_def) simp
        with shift_left_fits [OF a False, of ?N] show ?thesis
          unfolding shift_result_def if_not_P [OF nz] Let_def size option.case if_P [OF True] by (simp only:)
      next
        case r: False
        then have "?n = - int ?N" using dir by simp
        then have "shift_int ?A ?n = ?A div 2 ^ ?N" by (simp only: shift_int_def) simp
        with shift_right_fits [OF a, of ?N] show ?thesis
          unfolding shift_result_def if_not_P [OF nz] Let_def size option.case if_not_P [OF r] by (simp only:)
      qed
    next
      case big: False
      then have size: "bigint_to_size b = None" using b by (simp add: bigint_to_size_val)
      from big have N: "65536 < ?N" by (simp add: SIZE_MAX_def)
      let ?V = "limbs_val (limbs a)"
      have V: "0 < ?V" "nat \<bar>?A\<bar> = ?V" using False by (auto simp: bigint_val_def)
      show ?thesis
      proof (cases "d \<noteq> negative b")
        case True
        then have "?n = int ?N" using dir by simp
        then have spec: "shift_int ?A ?n = ?A * 2 ^ ?N" by (simp only: shift_int_def) simp
        have "nat \<bar>?A * 2 ^ ?N\<bar> = ?V * 2 ^ ?N" using V(2) by (simp add: abs_mult nat_mult_distrib nat_power_eq)
        then have "fits (?A * 2 ^ ?N) = Inl bigint_limit_error"
          using N by (simp add: fits_def nbits_shift [OF V(1)] BIGINT_MAX_BITS_def)
        then show ?thesis
          unfolding shift_result_def if_not_P [OF nz] Let_def size option.case if_P [OF True] spec by simp
      next
        case r: False
        then have "?n = - int ?N" using dir by simp
        then have spec: "shift_int ?A ?n = ?A div 2 ^ ?N" by (simp only: shift_int_def) simp
        have "?V < 2 ^ 65536" using bigint_okD(4) [OF a] by (simp only: nbits_le_iff)
        moreover have "(2::nat) ^ 65536 \<le> 2 ^ ?N" using N by (intro power_increasing) auto
        ultimately have "?V < 2 ^ ?N" by (rule less_le_trans)
        then have "?V div 2 ^ ?N = 0" "?V mod 2 ^ ?N = ?V" by simp_all
        then have "?A div 2 ^ ?N = signed (negative a) (unat (if negative a then 1 else 0 :: u32))"
          unfolding bigint_val_def neg_shift_right using V(1) by simp
        moreover have "delivers (small_bigint (negative a) (if negative a then 1 else 0) :: (rt_error + bigint, 'c) run)
            (fits (signed (negative a) (unat (if negative a then 1 else 0 :: u32))))"
          by (rule small_bigint_fits) simp
        ultimately show ?thesis
          unfolding shift_result_def if_not_P [OF nz] Let_def size option.case if_not_P [OF r] spec by (simp only:)
      qed
    qed
  qed
qed

subsection \<open>Exponentiation\<close>

text \<open>The loop of \<open>exponentiate\<close>: \<open>acc\<close> is \<open>slots[2]\<close> and \<open>base\<close> is \<open>slots[3]\<close>.\<close>

definition multiply_bigint :: "bool \<Rightarrow> bigint \<Rightarrow> bigint \<Rightarrow> (rt_error + bigint, 'c) run" where
  "multiply_bigint neg left right = after (multiply_magnitude left right) (arithmetic_result neg)"

function exponentiate_loop :: "nat \<Rightarrow> bigint \<Rightarrow> bigint \<Rightarrow> (rt_error + bigint, 'c) run" where
  "exponentiate_loop remaining acc base =
     (if remaining = 0 then give (Inr acc)
      else and_then
        (if odd remaining then multiply_bigint (negative acc \<noteq> negative base) acc base else give (Inr acc))
        (\<lambda>acc. if remaining div 2 = 0 then give (Inr acc)
               else and_then (multiply_bigint False base base)
                 (\<lambda>square. exponentiate_loop (remaining div 2) acc square)))"
  by pat_completeness auto
termination
  by (relation "measure (\<lambda>(remaining, acc, base). remaining)") auto

declare exponentiate_loop.simps [simp del]

definition exponentiate :: "bigint \<Rightarrow> bigint \<Rightarrow> (rt_error + bigint, 'c) run" where
  "exponentiate base exponent =
     (if negative exponent then give (Inl (LanguageError ERROR_RANGE ''A BigInt exponent cannot be negative.''))
      else case bigint_to_size exponent of
        None \<Rightarrow>
          if bigint_is_zero base then small_bigint False 0
          else if length (limbs base) = 1 \<and> limbs base ! 0 = 1
            then small_bigint (negative base \<and> limbs exponent ! 0 AND 1 \<noteq> 0) 1
          else give (Inl bigint_limit_error)
      | Some exponent_size \<Rightarrow>
          let base_bits = magnitude_bits (limbs base)
          in if base_bits > 1 \<and> exponent_size > (BIGINT_MAX_BITS - 1) div (base_bits - 1)
             then give (Inl bigint_limit_error)
             else and_then (small_bigint False 1) (\<lambda>one. exponentiate_loop exponent_size one base))"

lemma multiply_bigint_fits:
  assumes "bigint_ok a" "bigint_ok b" "neg = (negative a \<noteq> negative b)"
  shows "delivers (multiply_bigint neg a b :: (rt_error + bigint, 'c) run) (fits (bigint_val a * bigint_val b))"
proof -
  obtain ls where ls: "builds (multiply_magnitude a b :: (u32 list option, 'c) run) ls" "limbs_ok ls" "ls \<noteq> []"
    "limbs_val ls = limbs_val (limbs a) * limbs_val (limbs b)"
    using multiply_magnitude_builds [OF assms(1,2)] .
  have "bigint_val a * bigint_val b = signed neg (limbs_val ls)"
    by (simp add: bigint_val_def signed_mult ls(4) assms(3))
  from arithmetic_result_fits [OF ls(1-3) this] show ?thesis unfolding multiply_bigint_def .
qed

text \<open>A result out of the limit stays out of it when its absolute value grows.\<close>

lemma fits_limit_mono:
  assumes "\<not> nbits (nat \<bar>m\<bar>) \<le> BIGINT_MAX_BITS" "\<bar>m\<bar> \<le> \<bar>n\<bar>"
  shows "fits m = Inl bigint_limit_error" and "fits n = Inl bigint_limit_error"
  using assms nbits_mono [of "nat \<bar>m\<bar>" "nat \<bar>n\<bar>"] nat_mono [OF assms(2)] by (auto simp: fits_def)

lemma fits_within: "nbits (nat \<bar>n\<bar>) \<le> BIGINT_MAX_BITS \<Longrightarrow> fits n = Inr (bigint_of n) \<and> bigint_ok (bigint_of n)"
  by (simp add: fits_def bigint_ok_of)

text \<open>An intermediate result that is within the limit goes on; one that is not decides the whole.\<close>

lemma and_then_fits:
  assumes "delivers m (fits n)" "nbits (nat \<bar>n\<bar>) \<le> BIGINT_MAX_BITS \<or> \<bar>n\<bar> \<le> \<bar>whole\<bar>"
    and "bigint_ok (bigint_of n) \<Longrightarrow> delivers (f (bigint_of n)) (fits whole)"
  shows "delivers (and_then m f) (fits whole)"
proof (cases "nbits (nat \<bar>n\<bar>) \<le> BIGINT_MAX_BITS")
  case True
  then show ?thesis using assms(1,3) fits_within [OF True] by (auto intro: computes_and_then)
next
  case False
  with assms(2) have "\<bar>n\<bar> \<le> \<bar>whole\<bar>" by simp
  from fits_limit_mono [OF False this] assms(1) show ?thesis by (simp add: computes_and_then_error)
qed

lemma exponentiate_loop_fits:
  "bigint_ok acc \<Longrightarrow> bigint_ok base \<Longrightarrow> bigint_val acc \<noteq> 0 \<or> bigint_val base = 0 \<Longrightarrow>
   delivers (exponentiate_loop n acc base :: (rt_error + bigint, 'c) run) (fits (bigint_val acc * bigint_val base ^ n))"
proof (induction n acc base rule: exponentiate_loop.induct)
  case (1 n acc base)
  let ?a = "bigint_val acc" and ?b = "bigint_val base"
  let ?total = "?a * ?b ^ n"
  show ?case
  proof (cases "n = 0")
    case True
    with 1(2) show ?thesis by (subst exponentiate_loop.simps) (simp add: fits_ok)
  next
    case False
    let ?m = "if odd n then multiply_bigint (negative acc \<noteq> negative base) acc base else give (Inr acc)"
    define a' where "a' = (if odd n then ?a * ?b else ?a)"
    have split: "?total = a' * (?b * ?b) ^ (n div 2)"
      unfolding a'_def by (cases "odd n") (auto elim!: oddE evenE simp: power_mult power2_eq_square)
    have m: "delivers ?m (fits a')"
    proof (cases "odd n")
      case True
      show ?thesis unfolding a'_def if_P [OF True] by (rule multiply_bigint_fits [OF 1(2,3) refl])
    next
      case even: False
      show ?thesis unfolding a'_def if_not_P [OF even] fits_ok [OF 1(2)] by (rule computes_give)
    qed
    show ?thesis
    proof (subst exponentiate_loop.simps, subst if_not_P [OF False], rule and_then_fits [OF m])
      show "nbits (nat \<bar>a'\<bar>) \<le> BIGINT_MAX_BITS \<or> \<bar>a'\<bar> \<le> \<bar>?total\<bar>"
      proof (cases "?b = 0")
        case True
        with bigint_okD(4,5) [OF 1(2)] show ?thesis unfolding a'_def by (simp add: BIGINT_MAX_BITS_def)
      next
        case nz: False
        then have "1 \<le> \<bar>(?b * ?b) ^ (n div 2)\<bar>"
          using zero_less_abs_iff [of "(?b * ?b) ^ (n div 2)"] by simp
        then have "\<bar>a'\<bar> * 1 \<le> \<bar>a'\<bar> * \<bar>(?b * ?b) ^ (n div 2)\<bar>" by (rule mult_left_mono) simp
        then have "\<bar>a'\<bar> \<le> \<bar>?total\<bar>" by (simp only: split abs_mult [symmetric] mult_1_right)
        then show ?thesis ..
      qed
    next
      assume ok: "bigint_ok (bigint_of a')"
      let ?sq = "\<lambda>acc. and_then (multiply_bigint False base base :: (rt_error + bigint, 'c) run) (exponentiate_loop (n div 2) acc)"
      show "delivers (if n div 2 = 0 then give (Inr (bigint_of a')) else ?sq (bigint_of a')) (fits ?total)"
      proof (cases "n div 2 = 0")
        case True
        then have "fits ?total = Inr (bigint_of a')" using fits_ok [OF ok] unfolding split by simp
        with True show ?thesis by simp
      next
        case half: False
        have sq: "delivers (multiply_bigint False base base :: (rt_error + bigint, 'c) run) (fits (?b * ?b))"
          using 1(3) by (intro multiply_bigint_fits) auto
        have "delivers (?sq (bigint_of a')) (fits ?total)"
        proof (rule and_then_fits [OF sq])
          show "nbits (nat \<bar>?b * ?b\<bar>) \<le> BIGINT_MAX_BITS \<or> \<bar>?b * ?b\<bar> \<le> \<bar>?total\<bar>"
          proof (cases "?b = 0")
            case nz: False
            with 1(4) have "a' \<noteq> 0" by (simp add: a'_def)
            then have "1 \<le> \<bar>a'\<bar>" by simp
            moreover have "\<bar>?b * ?b\<bar> ^ 1 \<le> \<bar>?b * ?b\<bar> ^ (n div 2)"
            proof (rule power_increasing)
              show "1 \<le> \<bar>?b * ?b\<bar>" using nz zero_less_abs_iff [of "?b * ?b"] by (simp del: abs_mult_self_eq abs_mult)
            qed (use half in simp)
            ultimately show ?thesis
              unfolding split abs_mult [of a'] power_abs
              using mult_mono [of 1 "\<bar>a'\<bar>" "\<bar>?b * ?b\<bar>" "\<bar>?b * ?b\<bar> ^ (n div 2)"] by simp
          qed simp
        next
          assume sq_ok: "bigint_ok (bigint_of (?b * ?b))"
          have "bigint_val (bigint_of a') \<noteq> 0 \<or> bigint_val (bigint_of (?b * ?b)) = 0"
            using 1(4) by (auto simp: a'_def)
          from 1(1) [OF False half ok sq_ok this]
          show "delivers (exponentiate_loop (n div 2) (bigint_of a') (bigint_of (?b * ?b)) :: (rt_error + bigint, 'c) run) (fits ?total)"
            unfolding bigint_val_of split .
        qed
        with half show ?thesis by simp
      qed
    qed
  qed
qed

lemma abs_power_lower:
  assumes "2 ^ k \<le> \<bar>b :: int\<bar>"
  shows "nbits (nat \<bar>b ^ n\<bar>) > k * n"
proof -
  have "(2 ^ k) ^ n \<le> \<bar>b\<bar> ^ n" using assms by (intro power_mono) auto
  then have "nat (2 ^ (k * n)) \<le> nat \<bar>b ^ n\<bar>" by (intro nat_mono) (simp add: power_mult power_abs)
  then have "2 ^ (k * n) \<le> nat \<bar>b ^ n\<bar>" by (simp add: nat_power_eq)
  then show ?thesis by (simp only: nbits_less_iff)
qed

text \<open>The test that refuses a power before computing it refuses only powers out of the limit.\<close>

lemma early_limit_exact:
  assumes "1 < nbits (nat \<bar>b\<bar>)" "n > (BIGINT_MAX_BITS - 1) div (nbits (nat \<bar>b\<bar>) - 1)"
  shows "fits (b ^ n) = Inl bigint_limit_error"
proof -
  let ?k = "nbits (nat \<bar>b\<bar>) - 1"
  have "2 ^ ?k \<le> nat \<bar>b\<bar>" using assms(1) by (intro two_pow_nbits_le) (auto intro: gr0I)
  then have "2 ^ ?k \<le> \<bar>b\<bar>" by (simp add: le_nat_iff)
  then have "?k * n < nbits (nat \<bar>b ^ n\<bar>)" by (rule abs_power_lower)
  moreover have "BIGINT_MAX_BITS - 1 < ?k * n"
    using assms by (simp add: div_less_iff_less_mult mult.commute)
  ultimately show ?thesis by (simp add: fits_def BIGINT_MAX_BITS_def)
qed

lemma odd_low_limb:
  assumes "limbs_ok ls" "ls \<noteq> []"
  shows "ls ! 0 AND 1 \<noteq> 0 \<longleftrightarrow> odd (limbs_val ls)"
  using bit_word_odd [of 0 "ls ! 0"] assms(2) by (cases ls) simp_all

lemma exponentiate_fits:
  assumes a: "bigint_ok a" and b: "bigint_ok b"
  shows "delivers (exponentiate a b :: (rt_error + bigint, 'c) run)
     (if bigint_val b < 0 then Inl (LanguageError ERROR_RANGE ''A BigInt exponent cannot be negative.'')
      else fits (bigint_val a ^ nat (bigint_val b)))"
proof (cases "bigint_val b < 0")
  case True
  then show ?thesis using b by (simp add: exponentiate_def bigint_okD)
next
  case False
  let ?A = "bigint_val a" and ?N = "limbs_val (limbs b)"
  have neg: "\<not> negative b" using False b by (simp add: bigint_okD)
  then have N: "nat (bigint_val b) = ?N" by (simp add: bigint_val_def)
  have bits: "magnitude_bits (limbs a) = nbits (nat \<bar>?A\<bar>)" using a by (simp add: magnitude_bits_nbits bigint_okD)
  have "delivers (exponentiate a b :: (rt_error + bigint, 'c) run) (fits (?A ^ ?N))"
  proof (cases "?N \<le> SIZE_MAX")
    case True
    then have size: "bigint_to_size b = Some ?N" using b by (simp add: bigint_to_size_val)
    have one: "delivers (small_bigint False 1 :: (rt_error + bigint, 'c) run) (Inr (bigint_of 1))"
      using delivers_one [of False] unfolding fits_one by simp
    show ?thesis
    proof (cases "1 < nbits (nat \<bar>?A\<bar>) \<and> ?N > (BIGINT_MAX_BITS - 1) div (nbits (nat \<bar>?A\<bar>) - 1)")
      case True
      then show ?thesis
        unfolding exponentiate_def if_not_P [OF neg] size option.case Let_def bits if_P [OF True]
        by (simp add: early_limit_exact)
    next
      case within: False
      have "delivers (exponentiate_loop ?N (bigint_of 1) a :: (rt_error + bigint, 'c) run) (fits (?A ^ ?N))"
        using exponentiate_loop_fits [of "bigint_of 1" a ?N] bigint_ok_one [of False] a by simp
      then show ?thesis
        unfolding exponentiate_def if_not_P [OF neg] size option.case Let_def bits if_not_P [OF within]
        by (rule computes_and_then [OF one])
    qed
  next
    case big: False
    then have size: "bigint_to_size b = None" using b by (simp add: bigint_to_size_val)
    have N65: "65536 < ?N" using big by (simp add: SIZE_MAX_def)
    have one: "(length (limbs a) = 1 \<and> limbs a ! 0 = 1) \<longleftrightarrow> \<bar>?A\<bar> = 1"
    proof -
      have L: "limbs a = nat_limbs (nat \<bar>?A\<bar>)"
        using trimmed_unique [OF bigint_okD(1,2) [OF a]] bigint_okD(5) [OF a] by simp
      have M: "(length (nat_limbs m) = 1 \<and> nat_limbs m ! 0 = 1) \<longleftrightarrow> m = 1" for m
      proof
        assume "length (nat_limbs m) = 1 \<and> nat_limbs m ! 0 = 1"
        then have "nat_limbs m = [1]" by (cases "nat_limbs m") auto
        then have "limbs_val (nat_limbs m) = limbs_val [1]" by simp
        then show "m = 1" by simp
      qed (simp add: nat_limbs.simps)
      have "nat \<bar>?A\<bar> = 1 \<longleftrightarrow> \<bar>?A\<bar> = 1" by linarith
      then show ?thesis unfolding L M .
    qed
    consider (zero) "?A = 0" | (unit) "\<bar>?A\<bar> = 1" | (large) "2 \<le> \<bar>?A\<bar>" by linarith
    then show ?thesis
    proof cases
      case zero
      then have z: "bigint_is_zero a" using bigint_is_zero_val [OF a] by simp
      have "0 < ?N" using N65 by simp
      then have "?A ^ ?N = 0" unfolding zero by (rule zero_power)
      then show ?thesis
        unfolding exponentiate_def if_not_P [OF neg] size option.case if_P [OF z] by (simp only: delivers_zero)
    next
      case unit
      then have nz: "\<not> bigint_is_zero a" using bigint_is_zero_val [OF a] by auto
      have odd: "limbs b ! 0 AND 1 \<noteq> 0 \<longleftrightarrow> odd ?N" using b by (intro odd_low_limb) (auto dest: bigint_okD)
      have A: "?A = signed (negative a) 1" using unit bigint_okD(6) [OF a] by (auto simp: signed_def)
      have "?A ^ ?N = signed (negative a \<and> odd ?N) 1" unfolding A by (simp add: signed_def)
      then show ?thesis
        unfolding exponentiate_def if_not_P [OF neg] size option.case if_not_P [OF nz] if_P [OF one [THEN iffD2, OF unit]] odd
        using delivers_one by simp
    next
      case large
      then have nz: "\<not> bigint_is_zero a" "\<not> (length (limbs a) = 1 \<and> limbs a ! 0 = 1)"
        using bigint_is_zero_val [OF a] one by auto
      have "1 * ?N < nbits (nat \<bar>?A ^ ?N\<bar>)" by (rule abs_power_lower) (use large in simp)
      then have "fits (?A ^ ?N) = Inl bigint_limit_error" using N65 by (simp add: fits_def BIGINT_MAX_BITS_def)
      then show ?thesis
        unfolding exponentiate_def if_not_P [OF neg] size option.case if_not_P [OF nz(1)] if_not_P [OF nz(2)] by simp
    qed
  qed
  then show ?thesis using False by (simp add: N)
qed

subsection \<open>The binary operators\<close>

definition bigint_binary :: "bigint \<Rightarrow> bigint \<Rightarrow> bigint_operator \<Rightarrow> (rt_error + bigint, 'c) run" where
  "bigint_binary left right operator =
     (if operator = BIGINT_ADD \<or> operator = BIGINT_SUBTRACT
      then add_or_subtract left right (operator = BIGINT_SUBTRACT)
      else if operator = BIGINT_MULTIPLY
      then after (multiply_magnitude left right) (arithmetic_result (negative left \<noteq> negative right))
      else if operator = BIGINT_DIVIDE \<or> operator = BIGINT_REMAINDER then
        (if bigint_is_zero right then give (Inl (LanguageError ERROR_RANGE ''BigInt division by zero.''))
         else after (divide_magnitude left right) (\<lambda>divided. case divided of
             None \<Rightarrow> give (Inl allocation_failure)
           | Some (quot, rest) \<Rightarrow>
               let return_quotient = (operator = BIGINT_DIVIDE);
                   selected = (if return_quotient then quot else rest);
                   neg = (if return_quotient then negative left \<noteq> negative right else negative left)
               in arithmetic_result neg (Some selected)))
      else if operator = BIGINT_EXPONENTIATE then exponentiate left right
      else if operator = BIGINT_SHIFT_LEFT \<or> operator = BIGINT_SHIFT_RIGHT
      then shift_result left right (operator = BIGINT_SHIFT_LEFT)
      else after (bitwise_magnitude left right operator) (\<lambda>(result, neg). arithmetic_result neg result))"

text \<open>ECMA-262, 6.1.6.2: what each operator means on integers.\<close>

definition bigint_binary_spec :: "bigint_operator \<Rightarrow> int \<Rightarrow> int \<Rightarrow> rt_error + bigint" where
  "bigint_binary_spec operator a b =
     (case operator of
        BIGINT_ADD \<Rightarrow> fits (a + b)
      | BIGINT_SUBTRACT \<Rightarrow> fits (a - b)
      | BIGINT_MULTIPLY \<Rightarrow> fits (a * b)
      | BIGINT_DIVIDE \<Rightarrow>
          if b = 0 then Inl (LanguageError ERROR_RANGE ''BigInt division by zero.'') else fits (a sdiv b)
      | BIGINT_REMAINDER \<Rightarrow>
          if b = 0 then Inl (LanguageError ERROR_RANGE ''BigInt division by zero.'') else fits (a smod b)
      | BIGINT_EXPONENTIATE \<Rightarrow>
          if b < 0 then Inl (LanguageError ERROR_RANGE ''A BigInt exponent cannot be negative.'')
          else fits (a ^ nat b)
      | BIGINT_AND \<Rightarrow> fits (a AND b)
      | BIGINT_OR \<Rightarrow> fits (a OR b)
      | BIGINT_XOR \<Rightarrow> fits (a XOR b)
      | BIGINT_SHIFT_LEFT \<Rightarrow> fits (shift_int a b)
      | BIGINT_SHIFT_RIGHT \<Rightarrow> fits (shift_int a (- b)))"

lemma signed_division:
  assumes "n \<noteq> 0"
  shows "signed a m sdiv signed b n = signed (a \<noteq> b) (m div n)" and "signed a m smod signed b n = signed a (m mod n)"
  using assms by (cases "m = 0"; cases a; cases b; simp add: signed_divide_int_def signed_modulo_int_def zdiv_int zmod_int minus_div_mult_eq_mod [symmetric])+

lemma divide_fits:
  assumes a: "bigint_ok a" and b: "bigint_ok b" and op: "op = BIGINT_DIVIDE \<or> op = BIGINT_REMAINDER"
  shows "delivers (bigint_binary a b op :: (rt_error + bigint, 'c) run) (bigint_binary_spec op (bigint_val a) (bigint_val b))"
proof (cases "bigint_val b = 0")
  case True
  with op bigint_is_zero_val [OF b] show ?thesis by (auto simp: bigint_binary_def bigint_binary_spec_def)
next
  case False
  then have nz: "limbs_val (limbs b) \<noteq> 0" by (simp add: bigint_val_def)
  obtain q r where qr: "computes refused_block (divide_magnitude a b :: ((u32 list \<times> u32 list) option, 'c) run) (Some (q, r))"
    "limbs_ok q" "q \<noteq> []" "limbs_ok r" "r \<noteq> []"
    "limbs_val q = limbs_val (limbs a) div limbs_val (limbs b)" "limbs_val r = limbs_val (limbs a) mod limbs_val (limbs b)"
    using divide_magnitude_builds [OF a b nz] .
  have vals: "bigint_val a sdiv bigint_val b = signed (negative a \<noteq> negative b) (limbs_val q)"
    "bigint_val a smod bigint_val b = signed (negative a) (limbs_val r)"
    unfolding bigint_val_def qr(6,7) using nz by (simp_all add: signed_division)
  have zero: "\<not> bigint_is_zero b" using False bigint_is_zero_val [OF b] by simp
  note step = computes_after [OF qr(1), where g = "\<lambda>_. Inl allocation_failure"]
  show ?thesis
  proof (cases "op = BIGINT_DIVIDE")
    case True
    then have spec: "bigint_binary_spec op (bigint_val a) (bigint_val b) = fits (bigint_val a sdiv bigint_val b)"
      using False by (simp add: bigint_binary_spec_def)
    show ?thesis
      unfolding bigint_binary_def spec
      by (simp add: True zero Let_def, rule step)
         (use delivers_magnitude [OF qr(2,3) vals(1)] in
           \<open>auto simp: refused_block_def refused_with_def bigint_refusals_def\<close>)
  next
    case rem: False
    with op have r: "op = BIGINT_REMAINDER" by simp
    then have spec: "bigint_binary_spec op (bigint_val a) (bigint_val b) = fits (bigint_val a smod bigint_val b)"
      using False by (simp add: bigint_binary_spec_def)
    show ?thesis
      unfolding bigint_binary_def spec
      by (simp add: r zero Let_def, rule step)
         (use delivers_magnitude [OF qr(4,5) vals(2)] in
           \<open>auto simp: refused_block_def refused_with_def bigint_refusals_def\<close>)
  qed
qed

lemma bitwise_fits:
  assumes a: "bigint_ok a" and b: "bigint_ok b"
  shows "delivers (after (bitwise_magnitude a b op :: (u32 list option \<times> bool, 'c) run) (\<lambda>(result, neg). arithmetic_result neg result))
    (fits (combine_int op (bigint_val a) (bigint_val b)))"
proof -
  obtain ls neg where ls:
    "computes (\<lambda>r. fst r = None) (bitwise_magnitude a b op :: (u32 list option \<times> bool, 'c) run) (Some ls, neg)"
    "limbs_ok ls" "ls \<noteq> []" "signed neg (limbs_val ls) = combine_int op (bigint_val a) (bigint_val b)"
    using bitwise_magnitude_builds [OF a b] .
  show ?thesis
    by (rule computes_after [OF ls(1), where g = "\<lambda>_. Inl allocation_failure"])
       (use delivers_magnitude [OF ls(2,3) ls(4) [symmetric]] in
         \<open>auto simp: refused_with_def bigint_refusals_def arithmetic_result_def\<close>)
qed

lemma bigint_binary_delivers:
  assumes "bigint_ok a" "bigint_ok b"
  shows "delivers (bigint_binary a b op :: (rt_error + bigint, 'c) run) (bigint_binary_spec op (bigint_val a) (bigint_val b))"
proof (cases op)
  case BIGINT_ADD
  then show ?thesis using add_or_subtract_fits [OF assms, of False] by (simp add: bigint_binary_def bigint_binary_spec_def)
next
  case BIGINT_SUBTRACT
  then show ?thesis using add_or_subtract_fits [OF assms, of True] by (simp add: bigint_binary_def bigint_binary_spec_def)
next
  case BIGINT_MULTIPLY
  then show ?thesis using multiply_bigint_fits [OF assms refl]
    by (simp add: bigint_binary_def bigint_binary_spec_def multiply_bigint_def)
next
  case BIGINT_DIVIDE
  then show ?thesis by (intro divide_fits assms) simp
next
  case BIGINT_REMAINDER
  then show ?thesis by (intro divide_fits assms) simp
next
  case BIGINT_EXPONENTIATE
  then show ?thesis using exponentiate_fits [OF assms] by (simp add: bigint_binary_def bigint_binary_spec_def)
next
  case BIGINT_AND
  then show ?thesis using bitwise_fits [OF assms, of op] by (simp add: bigint_binary_def bigint_binary_spec_def combine_int_def)
next
  case BIGINT_OR
  then show ?thesis using bitwise_fits [OF assms, of op] by (simp add: bigint_binary_def bigint_binary_spec_def combine_int_def)
next
  case BIGINT_XOR
  then show ?thesis using bitwise_fits [OF assms, of op] by (simp add: bigint_binary_def bigint_binary_spec_def combine_int_def)
next
  case BIGINT_SHIFT_LEFT
  then show ?thesis using shift_result_fits [OF assms, of True] by (simp add: bigint_binary_def bigint_binary_spec_def)
next
  case BIGINT_SHIFT_RIGHT
  then show ?thesis using shift_result_fits [OF assms, of False] by (simp add: bigint_binary_def bigint_binary_spec_def)
qed

end
