(* ===== verification/BigInt_Digits.thy ===== *)
theory BigInt_Digits
  imports BigInt_Value
begin

text \<open>
  The two loops of \<open>runtime_bigint.c\<close> that convert between digits and limbs: multiply a magnitude
  by the radix and add a digit, and divide a magnitude by the radix. A digit string stands for
  \<open>digits_val\<close>; the most significant digit comes first.
\<close>

subsection \<open>Accumulating a digit\<close>

text \<open>One digit of \<open>oseo_bigint_literal\<close> and \<open>oseo_internal_integer_digits_to_number\<close>: the limbs in
  use and the carry out of them.\<close>

fun scale_add :: "u32 list \<Rightarrow> u32 \<Rightarrow> u64 \<Rightarrow> u32 list \<times> u64" where
  "scale_add [] radix carry = ([], carry)"
| "scale_add (x # xs) radix carry =
     (let value = ucast x * ucast radix + carry
      in case scale_add xs radix (carry_of value) of (out, c) \<Rightarrow> (limb_of value # out, c))"

lemma scaled_limb:
  assumes "unat (x :: u32) < 2 ^ 30" "unat (c :: u64) < unat (r :: u32)" "unat r \<le> 36"
  shows "unat (ucast x * ucast r + c) = unat x * unat r + unat c"
    and "unat (carry_of (ucast x * ucast r + c)) < unat r"
proof -
  have b: "unat x * unat r + unat c < 2 ^ 30 * unat r"
  proof -
    have "unat x * unat r + unat c < Suc (unat x) * unat r" using assms(2) by simp
    also have "\<dots> \<le> 2 ^ 30 * unat r" using assms(1) by (intro mult_right_mono) auto
    finally show ?thesis .
  qed
  then have "unat x * unat r + unat c < 2 ^ 64" using assms(3) by simp
  then show u: "unat (ucast x * ucast r + c) = unat x * unat r + unat c"
    by (subst unat_add_no_wrap; simp add: unat_mult_no_wrap)
  show "unat (carry_of (ucast x * ucast r + c)) < unat r"
    unfolding unat_carry_of u by (rule less_mult_imp_div_less) (use b in \<open>simp add: mult.commute\<close>)
qed

lemma scale_add_correct:
  "limbs_ok xs \<Longrightarrow> unat r \<le> 36 \<Longrightarrow> unat c < unat r \<Longrightarrow> scale_add xs r c = (out, c') \<Longrightarrow>
   limbs_val out + 2 ^ (30 * length xs) * unat c' = limbs_val xs * unat r + unat c
   \<and> limbs_ok out \<and> length out = length xs \<and> unat c' < unat r"
proof (induction xs r c arbitrary: out c' rule: scale_add.induct)
  case (2 x xs r c)
  define v where "v = ucast x * ucast r + c"
  have v: "unat v = unat x * unat r + unat c" "unat (carry_of v) < unat r"
    unfolding v_def by (rule scaled_limb; use 2 in simp)+
  obtain o' where o': "scale_add xs r (carry_of v) = (o', c')" and out: "out = limb_of v # o'"
    using 2(5) by (auto simp: v_def Let_def split: prod.splits)
  have IH: "limbs_val o' + 2 ^ (30 * length xs) * unat c' = limbs_val xs * unat r + unat (carry_of v)"
    "limbs_ok o'" "length o' = length xs" "unat c' < unat r"
    using 2(1) [OF v_def _ 2(3) v(2) o'] 2(2) by simp_all
  have "limbs_val out + 2 ^ (30 * length (x # xs)) * unat c'
      = unat (limb_of v) + 2 ^ 30 * (limbs_val o' + 2 ^ (30 * length xs) * unat c')"
    unfolding out by (simp add: power_add algebra_simps)
  also have "\<dots> = unat (limb_of v) + 2 ^ 30 * unat (carry_of v) + 2 ^ 30 * (limbs_val xs * unat r)"
    unfolding IH(1) by (simp only: distrib_left distrib_right ac_simps)
  also have "\<dots> = limbs_val (x # xs) * unat r + unat c"
    unfolding limb_carry_split v(1) by (simp add: algebra_simps)
  finally show ?case using IH(2-4) out by simp
qed simp

text \<open>One step of the digit loops: the limbs in use grow by one when the carry is not zero.\<close>

definition push_digit :: "u32 list \<Rightarrow> u32 \<Rightarrow> u32 \<Rightarrow> u32 list" where
  "push_digit ls radix digit =
     (case scale_add ls radix (ucast digit) of (out, c) \<Rightarrow> if c \<noteq> 0 then out @ [ucast c] else out)"

lemma push_digit_correct:
  assumes "limbs_ok ls" "unat r \<le> 36" "unat d < unat r"
  shows "limbs_val (push_digit ls r d) = limbs_val ls * unat r + unat d" and "limbs_ok (push_digit ls r d)"
    and "length (push_digit ls r d) = (if snd (scale_add ls r (ucast d)) \<noteq> 0 then Suc (length ls) else length ls)"
    and "snd (scale_add ls r (ucast d)) \<noteq> 0 \<Longrightarrow> last (push_digit ls r d) \<noteq> 0"
proof -
  obtain out c where s: "scale_add ls r (ucast d) = (out, c)" by (cases "scale_add ls r (ucast d)")
  have c: "limbs_val out + 2 ^ (30 * length ls) * unat c = limbs_val ls * unat r + unat d"
    "limbs_ok out" "length out = length ls" "unat c < unat r"
    using scale_add_correct [OF assms(1,2) _ s] assms(3) by simp_all
  have u: "unat (ucast c :: u32) = unat c" using c(4) assms(2) by (simp add: unat_ucast_mod)
  then have nz: "(ucast c :: u32) \<noteq> 0" if "c \<noteq> 0" using that by (metis unat_eq_0)
  show "limbs_val (push_digit ls r d) = limbs_val ls * unat r + unat d" "limbs_ok (push_digit ls r d)"
    using c u assms(2) by (auto simp: push_digit_def s limbs_val_append)
  show "length (push_digit ls r d) = (if snd (scale_add ls r (ucast d)) \<noteq> 0 then Suc (length ls) else length ls)"
    using c(3) by (simp add: push_digit_def s)
  show "snd (scale_add ls r (ucast d)) \<noteq> 0 \<Longrightarrow> last (push_digit ls r d) \<noteq> 0"
    using nz by (simp add: push_digit_def s)
qed

lemma trimmed_push_digit:
  assumes "limbs_ok ls" "trimmed ls" "unat r \<le> 36" "unat d < unat r"
  shows "trimmed (push_digit ls r d)"
proof (cases "snd (scale_add ls r (ucast d)) \<noteq> 0")
  case True
  then show ?thesis using push_digit_correct [OF assms(1,3,4)] by (auto simp: trimmed_def)
next
  case False
  note p = push_digit_correct [OF assms(1,3,4)]
  have len: "length (push_digit ls r d) = length ls" using p(3) False by simp
  show ?thesis
  proof (cases "1 < length ls")
    case True
    have "2 ^ (30 * (length ls - 1)) \<le> limbs_val ls" using assms(2) True by (rule trimmed_lower)
    also have "\<dots> \<le> limbs_val (push_digit ls r d)" using p(1) assms(4) by (simp add: trans_le_add1)
    finally have lo: "2 ^ (30 * (length ls - 1)) \<le> limbs_val (push_digit ls r d)" .
    have ne: "push_digit ls r d \<noteq> []" using True len by auto
    have "last (push_digit ls r d) \<noteq> 0"
    proof
      assume "last (push_digit ls r d) = 0"
      then have "push_digit ls r d = butlast (push_digit ls r d) @ [0]" using ne by (metis append_butlast_last_id)
      then have "limbs_val (push_digit ls r d) = limbs_val (butlast (push_digit ls r d))"
        by (metis limbs_val_append limbs_val.simps unat_0 add_0_right mult_0_right)
      moreover have "limbs_ok (butlast (push_digit ls r d))" using p(2) by (simp add: butlast_conv_take)
      then have "limbs_val (butlast (push_digit ls r d)) < 2 ^ (30 * (length ls - 1))"
        using limbs_val_bound [of "butlast (push_digit ls r d)"] len by simp
      ultimately show False using lo by simp
    qed
    then show ?thesis using ne by (simp add: trimmed_def)
  next
    case False
    then show ?thesis using len assms(2) by (cases ls) (auto simp: trimmed_def)
  qed
qed

subsection \<open>Digit strings\<close>

definition digits_val :: "nat \<Rightarrow> nat list \<Rightarrow> nat" where
  "digits_val radix ds = foldl (\<lambda>v d. v * radix + d) 0 ds"

lemma digits_val_snoc: "digits_val r (ds @ [d]) = digits_val r ds * r + d"
  by (simp add: digits_val_def)

lemma digits_val_Nil [simp]: "digits_val r [] = 0"
  by (simp add: digits_val_def)

lemma foldl_digits: "foldl (\<lambda>v d. v * r + d) a ds = a * r ^ length ds + digits_val r ds"
proof (induction ds rule: rev_induct)
  case (snoc d ds)
  then show ?case by (simp add: digits_val_def algebra_simps)
qed simp

lemma digits_val_Cons: "digits_val r (d # ds) = d * r ^ length ds + digits_val r ds"
  using foldl_digits [of r d ds] by (simp add: digits_val_def)

lemma digits_val_less:
  "0 < r \<Longrightarrow> list_all (\<lambda>d. d < r) ds \<Longrightarrow> digits_val r ds < r ^ length ds"
proof (induction ds rule: rev_induct)
  case (snoc d ds)
  then have "digits_val r ds < r ^ length ds" "d < r" by simp_all
  then have "digits_val r ds * r + d < Suc (digits_val r ds) * r" by simp
  also have "\<dots> \<le> r ^ length ds * r" using \<open>digits_val r ds < r ^ length ds\<close> by (intro mult_right_mono) auto
  finally show ?case by (simp add: digits_val_snoc mult.commute)
qed simp

subsection \<open>Dividing by the radix\<close>

text \<open>The loop over \<open>cursor\<close> of \<open>bigint_string_rooted\<close>, from the top limb down, with the remainder
  it leaves.\<close>

fun divide_small :: "u32 list \<Rightarrow> u64 \<Rightarrow> u32 list \<times> u64" where
  "divide_small [] radix = ([], 0)"
| "divide_small (x # higher) radix =
     (case divide_small higher radix of (out, remainder) \<Rightarrow>
        let current = push_bit BIGINT_BITS remainder OR ucast x
        in (ucast (current div radix) # out, current mod radix))"

lemma joined_limb:
  assumes "unat (m :: u64) < 2 ^ 34" "unat (x :: u32) < 2 ^ 30"
  shows "unat (push_bit 30 m OR ucast x) = unat m * 2 ^ 30 + unat x"
proof -
  have p: "unat (push_bit 30 m) = unat m * 2 ^ 30"
    using assms(1) by (simp only: unsigned_push_bit_eq) (simp add: push_bit_eq_mult take_bit_nat_eq_self)
  have "push_bit 30 m AND ucast x = 0"
  proof (rule and_zeroI)
    fix n
    assume h: "bit (push_bit 30 m) n" "bit (ucast x :: u64) n"
    have "n < 30" by (rule bit_small [of "ucast x :: u64"]) (use h(2) assms(2) in simp_all)
    with h(1) show False by (simp add: bit_push_bit_iff)
  qed
  then show ?thesis by (simp only: unat_or_disjoint p unat_u32_u64)
qed

lemma divide_small_correct:
  "limbs_ok xs \<Longrightarrow> 0 < unat r \<Longrightarrow> unat r \<le> 36 \<Longrightarrow> divide_small xs r = (out, m) \<Longrightarrow>
   limbs_val out = limbs_val xs div unat r \<and> unat m = limbs_val xs mod unat r \<and> limbs_ok out \<and> length out = length xs"
proof (induction xs r arbitrary: out m rule: divide_small.induct)
  case (2 x xs r)
  obtain o' m' where r: "divide_small xs r = (o', m')" by (cases "divide_small xs r")
  have IH: "limbs_val o' = limbs_val xs div unat r" "unat m' = limbs_val xs mod unat r" "limbs_ok o'" "length o' = length xs"
    using 2 r by simp_all
  define cur where "cur = push_bit 30 m' OR ucast x"
  have m': "unat m' < unat r" using IH(2) 2(3) by simp
  have x: "unat x < 2 ^ 30" using 2(2) by simp
  have cur: "unat cur = unat m' * 2 ^ 30 + unat x"
    unfolding cur_def by (rule joined_limb) (use m' 2(4) x in simp_all)
  have om: "out = ucast (cur div r) # o'" "m = cur mod r" using 2(5) r by (simp_all add: cur_def Let_def)
  have "unat cur < 2 ^ 30 * unat r"
  proof -
    have "unat cur < Suc (unat m') * 2 ^ 30" using cur x by simp
    also have "\<dots> \<le> unat r * 2 ^ 30" using m' by (intro mult_right_mono) auto
    finally show ?thesis by (simp add: mult.commute)
  qed
  then have q: "unat cur div unat r < 2 ^ 30" by (intro less_mult_imp_div_less) (simp add: mult.commute)
  then have u: "unat (ucast (cur div r) :: u32) = unat cur div unat r"
    by (simp add: unat_ucast_mod unat_div)
  have V: "limbs_val (x # xs) = unat cur + unat r * (2 ^ 30 * (limbs_val xs div unat r))"
  proof -
    define Q where "Q = limbs_val xs div unat r"
    have "limbs_val xs = unat r * Q + unat m'" unfolding IH(2) Q_def by simp
    then show ?thesis unfolding cur limbs_val.simps Q_def [symmetric] by (simp add: algebra_simps)
  qed
  have "limbs_val (x # xs) div unat r = unat cur div unat r + 2 ^ 30 * (limbs_val xs div unat r)"
    unfolding V using 2(3) by simp
  moreover have "limbs_val (x # xs) mod unat r = unat cur mod unat r" unfolding V by simp
  ultimately show ?case using om u q IH by (simp add: unat_mod)
qed simp

end
