(* ===== verification/Binary64.thy ===== *)
theory Binary64
  imports Oseo_Prelude
begin

text \<open>
  The C type \<open>double\<close>: IEEE 754 binary64 as its bit pattern, with the comparisons and the
  \<open>math.h\<close> functions the runtime calls. Every finite double is a multiple of \<open>2^-1074\<close>, so
  \<open>scaled d\<close>, its value times \<open>2^1074\<close>, is an integer and all statements about values are exact.
  Both infinities read as the next value after the largest finite one, which orders them.
\<close>

type_synonym double = u64

subsection \<open>Fields and values\<close>

definition dbl_sign :: "double \<Rightarrow> bool" where
  "dbl_sign d = bit d 63"

definition dbl_exp :: "double \<Rightarrow> nat" where
  "dbl_exp d = unat (drop_bit 52 d) mod 2048"

definition dbl_frac :: "double \<Rightarrow> nat" where
  "dbl_frac d = unat d mod 2 ^ 52"

definition make_double :: "bool \<Rightarrow> nat \<Rightarrow> nat \<Rightarrow> double" where
  "make_double s e f = of_nat ((if s then 2 ^ 63 else 0) + e * 2 ^ 52 + f)"

definition dbl_significand :: "double \<Rightarrow> nat" where
  "dbl_significand d = (if dbl_exp d = 0 then dbl_frac d else 2 ^ 52 + dbl_frac d)"

definition scaled :: "double \<Rightarrow> int" where
  "scaled d = (if dbl_sign d then -1 else 1) * int (dbl_significand d * 2 ^ (dbl_exp d - 1))"

definition isnan :: "double \<Rightarrow> bool" where
  "isnan d \<longleftrightarrow> dbl_exp d = 2047 \<and> dbl_frac d \<noteq> 0"

definition isinf :: "double \<Rightarrow> bool" where
  "isinf d \<longleftrightarrow> dbl_exp d = 2047 \<and> dbl_frac d = 0"

definition isfinite :: "double \<Rightarrow> bool" where
  "isfinite d \<longleftrightarrow> dbl_exp d \<noteq> 2047"

definition signbit :: "double \<Rightarrow> bool" where
  "signbit d = dbl_sign d"

definition dbl_eq :: "double \<Rightarrow> double \<Rightarrow> bool" where
  "dbl_eq a b \<longleftrightarrow> \<not> isnan a \<and> \<not> isnan b \<and> scaled a = scaled b"

definition dbl_less :: "double \<Rightarrow> double \<Rightarrow> bool" where
  "dbl_less a b \<longleftrightarrow> \<not> isnan a \<and> \<not> isnan b \<and> scaled a < scaled b"

definition dbl_le :: "double \<Rightarrow> double \<Rightarrow> bool" where
  "dbl_le a b \<longleftrightarrow> \<not> isnan a \<and> \<not> isnan b \<and> scaled a \<le> scaled b"

definition INFINITY :: double where
  "INFINITY = make_double False 2047 0"

definition dbl_zero :: double where
  "dbl_zero = 0"

definition dbl_one :: double where
  "dbl_one = make_double False 1023 0"

text \<open>Unary minus and \<open>fabs\<close> act on the sign bit alone.\<close>

definition dbl_neg :: "double \<Rightarrow> double" where
  "dbl_neg d = d XOR push_bit 63 1"

definition fabs :: "double \<Rightarrow> double" where
  "fabs d = d AND mask 63"

lemma unat_split: "unat (d :: double) = (if dbl_sign d then 2 ^ 63 else 0) + dbl_exp d * 2 ^ 52 + dbl_frac d"
proof -
  let ?q = "unat d div 2 ^ 52"
  have q: "?q < 2 * 2048"
    by (rule less_mult_imp_div_less) (use unsigned_less [of d] in simp)
  have s: "dbl_sign d \<longleftrightarrow> odd (?q div 2048)"
  proof -
    have "dbl_sign d \<longleftrightarrow> bit (unat d) 63" by (simp add: dbl_sign_def bit_unsigned_iff)
    also have "\<dots> \<longleftrightarrow> odd (unat d div 2 ^ 63)" by (rule bit_iff_odd)
    also have "unat d div 2 ^ 63 = ?q div 2048" by (simp add: div_mult2_eq [symmetric])
    finally show ?thesis .
  qed
  have "?q div 2048 < 2" using q by (rule less_mult_imp_div_less)
  with s have top: "?q div 2048 = (if dbl_sign d then 1 else 0)" by (auto elim: oddE)
  have e: "dbl_exp d = ?q mod 2048" by (simp add: dbl_exp_def unat_drop_bit)
  have "?q = 2048 * (?q div 2048) + ?q mod 2048" by simp
  then have "?q = (if dbl_sign d then 2048 else 0) + dbl_exp d" unfolding e [symmetric] top by simp
  then have "unat d = ((if dbl_sign d then 2048 else 0) + dbl_exp d) * 2 ^ 52 + dbl_frac d"
    using div_mult_mod_eq [of "unat d" "2 ^ 52"] by (simp add: dbl_frac_def)
  then show ?thesis by (simp add: algebra_simps)
qed

lemma dbl_field_bounds: "dbl_exp d < 2048" "dbl_frac d < 2 ^ 52"
  by (simp_all add: dbl_exp_def dbl_frac_def)

lemmas dbl_field_bounds_num = dbl_field_bounds [simplified]

lemma make_double_fields:
  assumes "e < 2048" "f < 2 ^ 52"
  shows "unat (make_double s e f) = (if s then 2 ^ 63 else 0) + e * 2 ^ 52 + f"
    and "dbl_exp (make_double s e f) = e" and "dbl_frac (make_double s e f) = f"
    and "dbl_sign (make_double s e f) = s"
proof -
  let ?n = "(if s then 2 ^ 63 else 0) + e * 2 ^ 52 + f"
  have n: "?n = ((if s then 2048 else 0) + e) * 2 ^ 52 + f" by (simp add: algebra_simps)
  have "?n < 2 ^ 64" using assms by simp
  then show u: "unat (make_double s e f) = ?n"
    unfolding make_double_def unat_of_nat by (intro mod_less) simp
  have q: "unat (make_double s e f) div 2 ^ 52 = (if s then 2048 else 0) + e"
    unfolding u n using assms(2) by simp
  show e: "dbl_exp (make_double s e f) = e"
    unfolding dbl_exp_def unat_drop_bit q using assms(1) by simp
  show f: "dbl_frac (make_double s e f) = f"
    unfolding dbl_frac_def u n by (simp only: mod_mult_self3 mod_less [OF assms(2)])
  show "dbl_sign (make_double s e f) = s"
    using unat_split [of "make_double s e f"] unfolding e f u by (auto split: if_splits)
qed

lemma make_double_split: "make_double (dbl_sign d) (dbl_exp d) (dbl_frac d) = d"
  unfolding make_double_def unat_split [symmetric] by simp

lemma double_eqI: "dbl_sign a = dbl_sign b \<Longrightarrow> dbl_exp a = dbl_exp b \<Longrightarrow> dbl_frac a = dbl_frac b \<Longrightarrow> a = b"
proof -
  assume "dbl_sign a = dbl_sign b" "dbl_exp a = dbl_exp b" "dbl_frac a = dbl_frac b"
  then have "make_double (dbl_sign a) (dbl_exp a) (dbl_frac a) = make_double (dbl_sign b) (dbl_exp b) (dbl_frac b)"
    by (simp only:)
  then show "a = b" by (simp only: make_double_split)
qed

lemma significand_normal: "0 < dbl_exp d \<Longrightarrow> dbl_significand d = 2 ^ 52 + dbl_frac d"
  by (simp add: dbl_significand_def)

lemma significand_less: "dbl_significand d < 2 ^ 53"
  using dbl_field_bounds_num(2) [of d] by (simp add: dbl_significand_def)

definition magnitude_of :: "double \<Rightarrow> nat" where
  "magnitude_of d = dbl_significand d * 2 ^ (dbl_exp d - 1)"

lemma scaled_magnitude: "scaled d = (if dbl_sign d then - int (magnitude_of d) else int (magnitude_of d))"
  by (simp add: scaled_def magnitude_of_def)

lemma abs_scaled [simp]: "\<bar>scaled d\<bar> = int (magnitude_of d)"
  by (simp add: scaled_magnitude)

lemma dbl_neg_fields [simp]:
  "dbl_exp (dbl_neg d) = dbl_exp d" "dbl_frac (dbl_neg d) = dbl_frac d" "dbl_sign (dbl_neg d) = (\<not> dbl_sign d)"
proof -
  have u: "unat (dbl_neg d) = unat d XOR push_bit 63 1"
    by (simp add: dbl_neg_def unsigned_xor_eq)
  have f: "dbl_frac x = take_bit 52 (unat x)" and e: "dbl_exp x = take_bit 11 (drop_bit 52 (unat x))" for x
    unfolding dbl_frac_def dbl_exp_def unat_drop_bit unfolding take_bit_eq_mod drop_bit_eq_div by simp_all
  show "dbl_exp (dbl_neg d) = dbl_exp d" "dbl_frac (dbl_neg d) = dbl_frac d"
    unfolding e f u by (simp_all add: take_bit_xor drop_bit_xor)
  show "dbl_sign (dbl_neg d) = (\<not> dbl_sign d)"
    by (simp add: dbl_neg_def dbl_sign_def bit_xor_iff bit_push_bit_iff)
qed

lemma fabs_make: "fabs d = make_double False (dbl_exp d) (dbl_frac d)"
proof (rule word_unat_eq_iff [THEN iffD2])
  have "unat (fabs d) = unat d mod 2 ^ 63" unfolding fabs_def by (rule unat_and_mask)
  also have "\<dots> = dbl_exp d * 2 ^ 52 + dbl_frac d"
  proof -
    have "dbl_exp d * 2 ^ 52 + dbl_frac d < 2 ^ 63" using dbl_field_bounds_num [of d] by simp
    then show ?thesis by (subst unat_split) (cases "dbl_sign d"; simp add: add.assoc)
  qed
  finally show "unat (fabs d) = unat (make_double False (dbl_exp d) (dbl_frac d))"
    by (simp add: make_double_fields dbl_field_bounds_num)
qed

lemma fabs_fields [simp]: "dbl_exp (fabs d) = dbl_exp d" "dbl_frac (fabs d) = dbl_frac d" "\<not> dbl_sign (fabs d)"
  by (simp_all add: fabs_make make_double_fields dbl_field_bounds_num)

lemma dbl_fields_congs:
  "dbl_exp a = dbl_exp b \<Longrightarrow> dbl_frac a = dbl_frac b \<Longrightarrow> magnitude_of a = magnitude_of b"
  by (simp add: magnitude_of_def dbl_significand_def)

lemma magnitude_of_neg [simp]: "magnitude_of (dbl_neg d) = magnitude_of d"
  and magnitude_of_fabs [simp]: "magnitude_of (fabs d) = magnitude_of d"
  by (rule dbl_fields_congs; simp)+

lemma scaled_neg [simp]: "scaled (dbl_neg d) = - scaled d"
  and scaled_fabs [simp]: "scaled (fabs d) = \<bar>scaled d\<bar>"
  by (simp_all add: scaled_magnitude)

lemma isnan_neg [simp]: "isnan (dbl_neg d) = isnan d" "isnan (fabs d) = isnan d"
  and isinf_neg [simp]: "isinf (dbl_neg d) = isinf d" "isinf (fabs d) = isinf d"
  and isfinite_neg [simp]: "isfinite (dbl_neg d) = isfinite d" "isfinite (fabs d) = isfinite d"
  by (simp_all add: isnan_def isinf_def isfinite_def)

lemma isfinite_iff: "isfinite d \<longleftrightarrow> \<not> isnan d \<and> \<not> isinf d"
  by (auto simp: isfinite_def isnan_def isinf_def)

lemma scaled_0_iff: "scaled d = 0 \<longleftrightarrow> dbl_exp d = 0 \<and> dbl_frac d = 0"
  by (simp add: scaled_magnitude magnitude_of_def dbl_significand_def)

subsection \<open>Order of magnitudes and representable values\<close>

lemma magnitude_fields_mono:
  assumes "dbl_exp a < dbl_exp b"
  shows "magnitude_of a < magnitude_of b"
proof -
  have "magnitude_of a < 2 ^ 53 * 2 ^ (dbl_exp a - 1) \<and> (dbl_exp a = 0 \<longrightarrow> magnitude_of a < 2 ^ 52)"
    using significand_less [of a] dbl_field_bounds_num [of a] by (simp add: magnitude_of_def dbl_significand_def)
  moreover have "(2::nat) ^ 53 * 2 ^ (dbl_exp a - 1) \<le> 2 ^ 52 * 2 ^ (dbl_exp b - 1)" if "0 < dbl_exp a"
  proof -
    have "53 + (dbl_exp a - 1) \<le> 52 + (dbl_exp b - 1)" using assms that by simp
    then show ?thesis unfolding power_add [symmetric] by (rule power_increasing) simp
  qed
  moreover have "(2::nat) ^ 52 * 1 \<le> 2 ^ 52 * 2 ^ (dbl_exp b - 1)" by (rule mult_left_mono) simp_all
  moreover have "2 ^ 52 * 2 ^ (dbl_exp b - 1) \<le> magnitude_of b"
    using assms by (simp add: magnitude_of_def dbl_significand_def)
  ultimately show ?thesis by (cases "dbl_exp a = 0") linarith+
qed

lemma magnitude_inj:
  assumes "magnitude_of a = magnitude_of b"
  shows "dbl_exp a = dbl_exp b" "dbl_frac a = dbl_frac b"
proof -
  show e: "dbl_exp a = dbl_exp b"
    using magnitude_fields_mono [of a b] magnitude_fields_mono [of b a] assms
    by (cases "dbl_exp a" "dbl_exp b" rule: linorder_cases) auto
  show "dbl_frac a = dbl_frac b"
    using assms unfolding magnitude_of_def dbl_significand_def e by (simp split: if_splits)
qed

text \<open>Two doubles with the same nonzero value are the same double: only the zeros are alike.\<close>

lemma scaled_inj: "scaled a = scaled b \<Longrightarrow> scaled a \<noteq> 0 \<Longrightarrow> a = b"
proof (rule double_eqI)
  assume a: "scaled a = scaled b" "scaled a \<noteq> 0"
  then have "magnitude_of a = magnitude_of b" by (metis abs_scaled of_nat_eq_iff)
  then show "dbl_exp a = dbl_exp b" "dbl_frac a = dbl_frac b" by (rule magnitude_inj)+
  show "dbl_sign a = dbl_sign b" using a by (auto simp: scaled_magnitude split: if_splits)
qed

subsection \<open>Integers as doubles\<close>

text \<open>
  The conversion of a natural number to \<open>double\<close>: exact up to 53 bits, and rounded to nearest,
  ties to even, above. A rounding that carries into the exponent field yields the next binade;
  past the largest binade the result is the infinity.
\<close>

definition round_even :: "nat \<Rightarrow> nat \<Rightarrow> nat" where
  "round_even n s =
     (let q = n div 2 ^ s; r = n mod 2 ^ s
      in if s \<noteq> 0 \<and> (2 ^ (s - 1) < r \<or> r = 2 ^ (s - 1) \<and> odd q) then q + 1 else q)"

definition significand_double :: "nat \<Rightarrow> nat \<Rightarrow> double" where
  "significand_double q e =
     (if 2 ^ 53 \<le> q then make_double False (e + 1) 0 else make_double False e (q - 2 ^ 52))"

definition double_of_nat :: "nat \<Rightarrow> double" where
  "double_of_nat n =
     (if n = 0 then dbl_zero
      else let k = nbits n
           in if k \<le> 53 then make_double False (1022 + k) (n * 2 ^ (53 - k) - 2 ^ 52)
              else let q = round_even n (k - 53); e = 1022 + k
                   in if 2046 < e \<or> 2046 = e \<and> 2 ^ 53 \<le> q then INFINITY else significand_double q e)"

lemma scaled_make:
  assumes "0 < e" "e < 2048" "f < 2 ^ 52"
  shows "magnitude_of (make_double s e f) = (2 ^ 52 + f) * 2 ^ (e - 1)"
  using assms by (simp add: magnitude_of_def dbl_significand_def make_double_fields)

lemma dbl_constants [simp]:
  "scaled dbl_zero = 0" "\<not> isnan dbl_zero" "scaled dbl_one = 2 ^ 1074" "\<not> isnan dbl_one"
proof -
  have z: "dbl_zero = make_double False 0 0" by (simp add: dbl_zero_def make_double_def)
  show "scaled dbl_zero = 0" "\<not> isnan dbl_zero"
    unfolding z by (simp_all add: scaled_0_iff isnan_def make_double_fields)
  have "magnitude_of dbl_one = 2 ^ 52 * 2 ^ 1022" unfolding dbl_one_def by (subst scaled_make) simp_all
  also have "\<dots> = 2 ^ 1074" unfolding power_add [symmetric] by simp
  finally show "scaled dbl_one = 2 ^ 1074" by (simp add: scaled_magnitude dbl_one_def make_double_fields)
  show "\<not> isnan dbl_one" by (simp add: dbl_one_def isnan_def make_double_fields)
qed

lemma double_of_nat_exact:
  assumes "n < 2 ^ 53"
  shows "scaled (double_of_nat n) = int n * 2 ^ 1074" and "isfinite (double_of_nat n)" and "\<not> dbl_sign (double_of_nat n)"
proof -
  have "scaled (double_of_nat n) = int n * 2 ^ 1074 \<and> isfinite (double_of_nat n) \<and> \<not> dbl_sign (double_of_nat n)"
  proof (cases "n = 0")
    case True
    then show ?thesis
      by (simp add: double_of_nat_def dbl_zero_def scaled_def dbl_significand_def isfinite_def dbl_exp_def dbl_frac_def dbl_sign_def)
  next
    case False
    let ?k = "nbits n"
    have k: "?k \<le> 53" "0 < ?k" using assms False by (simp_all only: nbits_le_iff) (simp add: nbits_pos)
    have lo: "2 ^ (?k - 1) \<le> n" and hi: "n < 2 ^ ?k" using False two_pow_nbits_le less_two_pow_nbits by auto
    have "2 ^ (?k - 1) * 2 ^ (53 - ?k) \<le> n * 2 ^ (53 - ?k)" using lo by (rule mult_right_mono) simp
    moreover have "?k - 1 + (53 - ?k) = 52" using k by simp
    ultimately have b1: "2 ^ 52 \<le> n * 2 ^ (53 - ?k)" by (metis power_add)
    have "n * 2 ^ (53 - ?k) < 2 ^ ?k * 2 ^ (53 - ?k)" using hi by (rule mult_strict_right_mono) simp
    moreover have "?k + (53 - ?k) = 53" using k by simp
    ultimately have b2: "n * 2 ^ (53 - ?k) < 2 ^ 53" by (metis power_add)
    have d: "double_of_nat n = make_double False (1022 + ?k) (n * 2 ^ (53 - ?k) - 2 ^ 52)"
      using False k by (simp add: double_of_nat_def Let_def)
    have f: "1022 + ?k < 2048" "n * 2 ^ (53 - ?k) - 2 ^ 52 < 2 ^ 52" "0 < 1022 + ?k" using k b2 by simp_all
    have "magnitude_of (double_of_nat n) = n * 2 ^ (53 - ?k) * 2 ^ (1021 + ?k)"
      unfolding d scaled_make [OF f(3,1,2)] using b1 k by simp
    also have "\<dots> = n * 2 ^ 1074" unfolding mult.assoc power_add [symmetric] using k by simp
    finally have "magnitude_of (double_of_nat n) = n * 2 ^ 1074" .
    moreover have "\<not> dbl_sign (double_of_nat n)" "isfinite (double_of_nat n)"
      unfolding d isfinite_def using make_double_fields [OF f(1,2)] k by simp_all
    ultimately show ?thesis by (simp add: scaled_magnitude)
  qed
  then show "scaled (double_of_nat n) = int n * 2 ^ 1074" "isfinite (double_of_nat n)" "\<not> dbl_sign (double_of_nat n)" by simp_all
qed

subsection \<open>Library functions\<close>

text \<open>\<open>trunc\<close>, and the conversion of a nonnegative double to an unsigned integer.\<close>

definition trunc :: "double \<Rightarrow> double" where
  "trunc d =
     (if 1075 \<le> dbl_exp d then d
      else if dbl_exp d < 1023 then make_double (dbl_sign d) 0 0
      else make_double (dbl_sign d) (dbl_exp d) (dbl_frac d - dbl_frac d mod 2 ^ (1075 - dbl_exp d)))"

definition dbl_to_nat :: "double \<Rightarrow> nat" where
  "dbl_to_nat d = magnitude_of d div 2 ^ 1074"

text \<open>\<open>frexp\<close>: the fraction, with absolute value in [1/2, 1), and the exponent.\<close>

definition frexp :: "double \<Rightarrow> double \<times> int" where
  "frexp d =
     (if dbl_exp d = 2047 \<or> dbl_exp d = 0 \<and> dbl_frac d = 0 then (d, 0)
      else if dbl_exp d = 0
        then let k = nbits (dbl_frac d)
             in (make_double (dbl_sign d) 1022 (dbl_frac d * 2 ^ (53 - k) - 2 ^ 52), int k - 1074)
      else (make_double (dbl_sign d) 1022 (dbl_frac d), int (dbl_exp d) - 1022))"

text \<open>\<open>ldexp\<close>: a product out of the range of normal numbers overflows to an infinity, or is
  rounded to a subnormal number.\<close>

definition ldexp :: "double \<Rightarrow> int \<Rightarrow> double" where
  "ldexp d n =
     (if dbl_exp d = 2047 \<or> dbl_exp d = 0 \<and> dbl_frac d = 0 then d
      else case frexp d of (f, e) \<Rightarrow>
        let e' = e + n + 1022
        in if 2046 < e' then make_double (dbl_sign d) 2047 0
           else if 1 \<le> e' then make_double (dbl_sign d) (nat e') (dbl_frac f)
           else make_double (dbl_sign d) 0 (round_even (2 ^ 52 + dbl_frac f) (nat (1 - e'))))"

lemma magnitude_of_zero [simp]: "magnitude_of (make_double s 0 0) = 0"
  by (simp add: magnitude_of_def dbl_significand_def make_double_fields)

lemma magnitude_small: "dbl_exp d < 1023 \<Longrightarrow> magnitude_of d < 2 ^ 1074"
proof -
  assume e: "dbl_exp d < 1023"
  have "magnitude_of d < 2 ^ 53 * 2 ^ (dbl_exp d - 1)"
    unfolding magnitude_of_def using significand_less [of d] by (rule mult_strict_right_mono) simp
  also have "\<dots> \<le> 2 ^ 1074" unfolding power_add [symmetric] using e by (intro power_increasing) auto
  finally show ?thesis .
qed

lemma trunc_magnitude: "magnitude_of (trunc d) = magnitude_of d div 2 ^ 1074 * 2 ^ 1074"
  and trunc_sign: "dbl_sign (trunc d) = dbl_sign d"
  and trunc_exp: "1023 \<le> dbl_exp d \<Longrightarrow> dbl_exp (trunc d) = dbl_exp d"
proof -
  consider (big) "1075 \<le> dbl_exp d" | (small) "dbl_exp d < 1023" | (mid) "1023 \<le> dbl_exp d" "dbl_exp d < 1075" by linarith
  then have "magnitude_of (trunc d) = magnitude_of d div 2 ^ 1074 * 2 ^ 1074 \<and> dbl_sign (trunc d) = dbl_sign d
      \<and> (1023 \<le> dbl_exp d \<longrightarrow> dbl_exp (trunc d) = dbl_exp d)"
  proof cases
    case big
    have "(2::nat) ^ 1074 dvd 2 ^ (dbl_exp d - 1)" using big by (intro le_imp_power_dvd) simp
    then have "2 ^ 1074 dvd magnitude_of d" unfolding magnitude_of_def by (rule dvd_mult)
    with big show ?thesis by (simp add: trunc_def)
  next
    case small
    then show ?thesis using magnitude_small [OF small] by (simp add: trunc_def make_double_fields)
  next
    case mid
    let ?k = "1075 - dbl_exp d" and ?f = "dbl_frac d" and ?s = "2 ^ 52 + dbl_frac d"
    have f: "?f - ?f mod 2 ^ ?k < 2 ^ 52" using dbl_field_bounds(2) [of d] by linarith
    have t: "trunc d = make_double (dbl_sign d) (dbl_exp d) (?f - ?f mod 2 ^ ?k)" using mid by (simp add: trunc_def)
    have k: "?k \<le> 52" "?k + (dbl_exp d - 1) = 1074" using mid by simp_all
    have "(2::nat) ^ ?k dvd 2 ^ 52" using k(1) by (rule le_imp_power_dvd)
    then have m: "?s mod 2 ^ ?k = ?f mod 2 ^ ?k" by (metis mod_0_imp_dvd dvd_imp_mod_0 add_0 mod_add_left_eq)
    have p: "(2::nat) ^ 1074 = 2 ^ (dbl_exp d - 1) * 2 ^ ?k" using k(2) by (metis power_add add.commute)
    have "magnitude_of d = 2 ^ (dbl_exp d - 1) * ?s" using mid by (simp add: magnitude_of_def dbl_significand_def)
    then have "magnitude_of d div 2 ^ 1074 = ?s div 2 ^ ?k" unfolding p by (simp only: div_mult_mult1_if) simp
    then have "magnitude_of d div 2 ^ 1074 * 2 ^ 1074 = ?s div 2 ^ ?k * 2 ^ ?k * 2 ^ (dbl_exp d - 1)"
      unfolding p by (simp only: mult.assoc mult.commute [of "2 ^ (dbl_exp d - 1)"])
    also have "?s div 2 ^ ?k * 2 ^ ?k = ?s - ?s mod 2 ^ ?k" by (rule minus_mod_eq_div_mult [symmetric])
    also have "\<dots> = 2 ^ 52 + (?f - ?f mod 2 ^ ?k)" unfolding m by (rule diff_add_assoc) simp
    also have "(2 ^ 52 + (?f - ?f mod 2 ^ ?k)) * 2 ^ (dbl_exp d - 1) = magnitude_of (trunc d)"
      unfolding t by (rule scaled_make [symmetric]) (use mid f in simp_all)
    finally show ?thesis unfolding t using make_double_fields [OF _ f] mid by simp
  qed
  then show "magnitude_of (trunc d) = magnitude_of d div 2 ^ 1074 * 2 ^ 1074" "dbl_sign (trunc d) = dbl_sign d"
    "1023 \<le> dbl_exp d \<Longrightarrow> dbl_exp (trunc d) = dbl_exp d" by simp_all
qed

text \<open>Scaling a normal number up keeps its fraction.\<close>

lemma ldexp_normal:
  assumes "0 < dbl_exp d" "1 \<le> int (dbl_exp d) + n" "int (dbl_exp d) + n \<le> 2046" "dbl_exp d \<noteq> 2047"
  shows "ldexp d n = make_double (dbl_sign d) (nat (int (dbl_exp d) + n)) (dbl_frac d)"
  using assms dbl_field_bounds_num [of d] by (simp add: ldexp_def frexp_def Let_def make_double_fields)

lemma ldexp_magnitude:
  assumes "0 < dbl_exp d" "dbl_exp d + n \<le> 2046"
  shows "magnitude_of (ldexp d (int n)) = magnitude_of d * 2 ^ n" and "isfinite (ldexp d (int n))"
    and "dbl_sign (ldexp d (int n)) = dbl_sign d"
proof -
  have l: "ldexp d (int n) = make_double (dbl_sign d) (dbl_exp d + n) (dbl_frac d)"
    using assms by (subst ldexp_normal) (simp_all flip: of_nat_add)
  have b: "0 < dbl_exp d + n" "dbl_exp d + n < 2048" "dbl_frac d < 2 ^ 52"
    using assms dbl_field_bounds [of d] by simp_all
  have "dbl_exp d - 1 + n = dbl_exp d + n - 1" using assms(1) by simp
  then show "magnitude_of (ldexp d (int n)) = magnitude_of d * 2 ^ n"
    unfolding l scaled_make [OF b] using assms(1)
    by (simp add: magnitude_of_def dbl_significand_def mult.assoc power_add [symmetric])
  show "isfinite (ldexp d (int n))" "dbl_sign (ldexp d (int n)) = dbl_sign d"
    unfolding l isfinite_def using make_double_fields [OF b(2,3)] assms(2) by simp_all
qed

text \<open>The 53-bit significand \<open>(uint64_t)ldexp(frexp(d, &e), 53)\<close> of a normal number.\<close>

lemma frexp_significand:
  assumes "0 < dbl_exp d" "dbl_exp d < 2047"
  shows "snd (frexp d) = int (dbl_exp d) - 1022"
    and "dbl_to_nat (ldexp (fst (frexp d)) 53) = 2 ^ 52 + dbl_frac d"
proof -
  show "snd (frexp d) = int (dbl_exp d) - 1022" using assms by (simp add: frexp_def)
  have f: "fst (frexp d) = make_double (dbl_sign d) 1022 (dbl_frac d)" using assms by (simp add: frexp_def)
  have b: "dbl_exp (fst (frexp d)) = 1022" "dbl_frac (fst (frexp d)) = dbl_frac d"
    unfolding f by (simp_all add: make_double_fields dbl_field_bounds_num)
  have "magnitude_of (ldexp (fst (frexp d)) (int 53)) = magnitude_of (fst (frexp d)) * 2 ^ 53"
    by (rule ldexp_magnitude) (simp_all add: b)
  also have "magnitude_of (fst (frexp d)) = (2 ^ 52 + dbl_frac d) * 2 ^ 1021"
    by (simp add: magnitude_of_def dbl_significand_def b)
  finally have "magnitude_of (ldexp (fst (frexp d)) 53) = (2 ^ 52 + dbl_frac d) * 2 ^ 1074"
    unfolding mult.assoc power_add [symmetric] by simp
  then show "dbl_to_nat (ldexp (fst (frexp d)) 53) = 2 ^ 52 + dbl_frac d"
    unfolding dbl_to_nat_def by simp
qed

subsection \<open>Rounding to nearest, ties to even\<close>

lemma round_even_bounds: "n div 2 ^ s \<le> round_even n s" "round_even n s \<le> n div 2 ^ s + 1"
  by (simp_all add: round_even_def Let_def)

lemma round_even_near:
  assumes "0 < s"
  shows "\<bar>int (round_even n s) * 2 ^ s - int n\<bar> \<le> 2 ^ (s - 1)"
    and "\<bar>int (round_even n s) * 2 ^ s - int n\<bar> = 2 ^ (s - 1) \<Longrightarrow> even (round_even n s)"
proof -
  define h where "h = (2::nat) ^ (s - 1)"
  define q where "q = n div 2 ^ s"
  define r where "r = n mod 2 ^ s"
  have H: "(2::nat) ^ s = 2 * h" using assms by (cases s) (simp_all add: h_def)
  have n: "n = q * (2 * h) + r" unfolding q_def r_def H [symmetric] by (rule div_mult_mod_eq [symmetric])
  have r: "r < 2 * h" unfolding r_def H [symmetric] by simp
  have hp: "0 < h" by (simp add: h_def)
  have def: "round_even n s = (if h < r \<or> r = h \<and> odd q then q + 1 else q)"
    using assms by (simp add: round_even_def Let_def h_def q_def r_def)
  have hs: "(2::int) ^ (s - 1) = int h" "(2::int) ^ s = 2 * int h"
    using arg_cong [OF H, of int] by (simp_all add: h_def)
  have up: "int (q + 1) * (2 * int h) - int n = 2 * int h - int r" "int q * (2 * int h) - int n = - int r"
    by (simp_all add: n algebra_simps)
  have v: "int (round_even n s) * 2 ^ s - int n = (if h < r \<or> r = h \<and> odd q then 2 * int h - int r else - int r)"
    unfolding def hs(2) by (cases "h < r \<or> r = h \<and> odd q") (simp_all only: if_True if_False up)
  show "\<bar>int (round_even n s) * 2 ^ s - int n\<bar> \<le> 2 ^ (s - 1)"
    unfolding v hs(1) using r by auto
  assume "\<bar>int (round_even n s) * 2 ^ s - int n\<bar> = 2 ^ (s - 1)"
  then have "r = h" unfolding v hs(1) using r hp by (auto split: if_splits)
  then show "even (round_even n s)" unfolding def by simp
qed

lemma nbits_range: "0 < n \<Longrightarrow> 2 ^ (nbits n - 1) \<le> n \<and> n < 2 ^ nbits n"
  using two_pow_nbits_le less_two_pow_nbits by blast

lemma double_of_nat_rounded:
  assumes k: "53 < nbits n" and fin: "isfinite (double_of_nat n)"
  defines "s \<equiv> nbits n - 53"
  shows "magnitude_of (double_of_nat n) = round_even n s * 2 ^ (s + 1074)" and "\<not> dbl_sign (double_of_nat n)"
    and "even (round_even n s) \<Longrightarrow> even (dbl_frac (double_of_nat n))"
    and "2 ^ 52 * 2 ^ s \<le> n"
proof -
  let ?k = "nbits n" and ?q = "round_even n s"
  have n0: "n \<noteq> 0" using k by (metis nbits_0 not_less0)
  then have nb: "2 ^ (?k - 1) \<le> n" "n < 2 ^ ?k" using nbits_range [of n] by simp_all
  have e1: "?k - 1 = 52 + s" "?k = 53 + s" using k by (simp_all add: s_def)
  show lo: "2 ^ 52 * 2 ^ s \<le> n" using nb(1) unfolding e1(1) power_add .
  have hi: "n < 2 ^ 53 * 2 ^ s" using nb(2) unfolding e1(2) power_add .
  have q1: "2 ^ 52 \<le> n div 2 ^ s" using div_le_mono [OF lo, of "2 ^ s"] by simp
  have q2: "n div 2 ^ s < 2 ^ 53" by (rule less_mult_imp_div_less) (use hi in \<open>simp add: mult.commute\<close>)
  have q: "2 ^ 52 \<le> ?q" "?q \<le> 2 ^ 53" using round_even_bounds [of n s] q1 q2 by linarith+
  have k': "\<not> ?k \<le> 53" using k by simp
  have over: "\<not> (2046 < 1022 + ?k \<or> 2046 = 1022 + ?k \<and> 2 ^ 53 \<le> ?q)"
  proof
    assume "2046 < 1022 + ?k \<or> 2046 = 1022 + ?k \<and> 2 ^ 53 \<le> ?q"
    then have "double_of_nat n = INFINITY"
      unfolding double_of_nat_def Let_def if_not_P [OF n0] if_not_P [OF k'] s_def by (simp only: if_True)
    with fin show False by (simp add: INFINITY_def isfinite_def make_double_fields)
  qed
  have d: "double_of_nat n = significand_double ?q (1022 + ?k)"
    unfolding double_of_nat_def Let_def if_not_P [OF n0] if_not_P [OF k'] s_def [symmetric] if_not_P [OF over] ..
  have "magnitude_of (double_of_nat n) = ?q * 2 ^ (s + 1074) \<and> \<not> dbl_sign (double_of_nat n)
      \<and> (even ?q \<longrightarrow> even (dbl_frac (double_of_nat n)))"
  proof (cases "2 ^ 53 \<le> ?q")
    case True
    then have Q: "?q = 2 ^ 53" using q by simp
    have b: "0 < 1022 + ?k + 1" "1022 + ?k + 1 < 2048" "(0::nat) < 2 ^ 52" using over Q by simp_all
    have m: "double_of_nat n = make_double False (1022 + ?k + 1) 0" unfolding d significand_double_def Q by simp
    have "magnitude_of (double_of_nat n) = 2 ^ 52 * 2 ^ (1022 + ?k)" unfolding m scaled_make [OF b] by simp
    also have "\<dots> = ?q * 2 ^ (s + 1074)" unfolding Q power_add [symmetric] using e1 by simp
    finally show ?thesis unfolding m using make_double_fields [OF b(2,3)] by simp
  next
    case False
    have b: "0 < 1022 + ?k" "1022 + ?k < 2048" "?q - 2 ^ 52 < 2 ^ 52" using over False q by auto
    have m: "double_of_nat n = make_double False (1022 + ?k) (?q - 2 ^ 52)" unfolding d significand_double_def using False by simp
    have "magnitude_of (double_of_nat n) = ?q * 2 ^ (1021 + ?k)" unfolding m scaled_make [OF b] using q by simp
    also have "1021 + ?k = s + 1074" using e1 by simp
    finally show ?thesis unfolding m using make_double_fields [OF b(2,3)] q by simp
  qed
  then show "magnitude_of (double_of_nat n) = ?q * 2 ^ (s + 1074)" "\<not> dbl_sign (double_of_nat n)"
    "even ?q \<Longrightarrow> even (dbl_frac (double_of_nat n))" by simp_all
qed

lemma representable_multiple:
  assumes "2 ^ 52 * 2 ^ t \<le> magnitude_of d"
  shows "2 ^ t dvd magnitude_of d"
proof -
  have "magnitude_of d < 2 ^ 53 * 2 ^ (dbl_exp d - 1)"
    unfolding magnitude_of_def using significand_less [of d] by (rule mult_strict_right_mono) simp
  with assms have "(2::nat) ^ (52 + t) < 2 ^ (53 + (dbl_exp d - 1))" unfolding power_add by (rule le_less_trans)
  then have "t \<le> dbl_exp d - 1" by (simp only: power_strict_increasing_iff)
  then have "(2::nat) ^ t dvd 2 ^ (dbl_exp d - 1)" by (rule le_imp_power_dvd)
  then show ?thesis unfolding magnitude_of_def by (rule dvd_mult)
qed

text \<open>Multiples of \<open>U\<close> within half of \<open>U\<close> of the same number.\<close>

lemma near_multiples:
  fixes U :: int
  assumes "0 < U" "2 * \<bar>m * U - N\<bar> \<le> U" "2 * \<bar>q * U - N\<bar> \<le> U"
  shows "m \<noteq> q \<Longrightarrow> 2 * \<bar>m * U - N\<bar> = U \<and> 2 * \<bar>q * U - N\<bar> = U"
proof -
  assume "m \<noteq> q"
  then have "U * 1 \<le> U * \<bar>m - q\<bar>" using assms(1) by (intro mult_left_mono) auto
  also have "U * \<bar>m - q\<bar> = \<bar>m * U - q * U\<bar>"
  proof -
    have "m * U - q * U = U * (m - q)" by (simp add: algebra_simps)
    then show ?thesis using assms(1) by (simp only: abs_mult abs_of_pos)
  qed
  finally have "U \<le> \<bar>m * U - q * U\<bar>" by simp
  moreover have "\<bar>m * U - q * U\<bar> \<le> \<bar>m * U - N\<bar> + \<bar>q * U - N\<bar>" by arith
  ultimately have "U \<le> 2 * \<bar>m * U - N\<bar> \<and> U \<le> 2 * \<bar>q * U - N\<bar>" using assms(2,3) by simp
  with assms(2,3) show ?thesis by simp
qed

theorem double_of_nat_nearest:
  assumes k: "53 < nbits n" and fin: "isfinite (double_of_nat n)"
  defines "N \<equiv> int n * 2 ^ 1074"
  shows "\<bar>scaled (double_of_nat n) - N\<bar> \<le> \<bar>scaled d' - N\<bar>"
    and "\<bar>scaled (double_of_nat n) - N\<bar> = \<bar>scaled d' - N\<bar> \<Longrightarrow> scaled d' \<noteq> scaled (double_of_nat n) \<Longrightarrow>
         even (dbl_frac (double_of_nat n))"
proof -
  define s where "s = nbits n - 53"
  define U :: int where "U = 2 ^ (s + 1074)"
  define q where "q = int (round_even n s)"
  note r = double_of_nat_rounded [OF k fin, folded s_def]
  have s0: "0 < s" using k by (simp add: s_def)
  have d: "scaled (double_of_nat n) = q * U" using r(1,2) by (simp add: scaled_magnitude q_def U_def)
  have U: "U = 2 ^ s * 2 ^ 1074" "2 ^ s = 2 * (2 ^ (s - 1) :: int)" "0 < U"
    using s0 by (simp_all add: U_def power_add) (cases s; simp)
  have diff: "q * U - N = (q * 2 ^ s - int n) * 2 ^ 1074" by (simp add: U N_def algebra_simps)
  have "2 * \<bar>q * 2 ^ s - int n\<bar> \<le> 2 ^ s" using round_even_near(1) [OF s0, of n] U(2) by (simp add: q_def)
  then have "2 * \<bar>q * 2 ^ s - int n\<bar> * 2 ^ 1074 \<le> 2 ^ s * 2 ^ 1074" by (rule mult_right_mono) simp
  then have half: "2 * \<bar>q * U - N\<bar> \<le> U"
    unfolding diff by (simp only: abs_mult U(1) abs_of_pos zero_less_power zero_less_numeral mult.assoc)
  have tie: "even q" if "2 * \<bar>q * U - N\<bar> = U"
  proof -
    have "(2 * \<bar>q * 2 ^ s - int n\<bar>) * 2 ^ 1074 = 2 ^ s * 2 ^ 1074" using that
      unfolding diff by (simp only: abs_mult U(1) abs_of_pos zero_less_power zero_less_numeral mult.assoc)
    then have "2 * \<bar>q * 2 ^ s - int n\<bar> = 2 ^ s" by (simp only: mult_cancel_right) simp
    then have "\<bar>q * 2 ^ s - int n\<bar> = 2 ^ (s - 1)" using U(2) by simp
    then show ?thesis using round_even_near(2) [OF s0, of n] by (simp add: q_def)
  qed
  have low: "2 ^ 52 * U \<le> N"
  proof -
    have "int (2 ^ 52 * 2 ^ s) \<le> int n" using r(4) by (simp only: of_nat_le_iff)
    then have "int (2 ^ 52 * 2 ^ s) * 2 ^ 1074 \<le> int n * 2 ^ 1074" by (rule mult_right_mono) simp
    then show ?thesis unfolding U(1) N_def by (simp only: of_nat_mult of_nat_power of_nat_numeral mult.assoc)
  qed
  have main: "\<bar>q * U - N\<bar> \<le> \<bar>x - N\<bar> \<and> (\<bar>q * U - N\<bar> = \<bar>x - N\<bar> \<longrightarrow> x \<noteq> q * U \<longrightarrow> even q)"
    if x: "x = scaled d'" for x
  proof (cases "2 ^ 52 * U \<le> x")
    case True
    then have "0 \<le> x" using U(3) by (intro order.trans [OF _ True]) simp
    then have "x = int (magnitude_of d')" using x by (auto simp: scaled_magnitude split: if_splits)
    moreover from this True have "2 ^ 52 * 2 ^ (s + 1074) \<le> magnitude_of d'"
      unfolding U_def by (simp only: of_nat_le_iff [symmetric, where 'a = int] of_nat_mult of_nat_power of_nat_numeral)
    ultimately have "U dvd x" unfolding U_def using representable_multiple [of "s + 1074" d'] by auto
    then obtain m where "x = U * m" by (rule dvdE)
    then have m: "x = m * U" by (simp only: mult.commute)
    show ?thesis
    proof (cases "2 * \<bar>x - N\<bar> \<le> U \<and> m \<noteq> q")
      case True
      then show ?thesis using near_multiples [OF U(3) _ half, of m] tie m by simp
    next
      case False
      then show ?thesis using half m by auto
    qed
  next
    case False
    then have far: "\<bar>2 ^ 52 * U - N\<bar> < \<bar>x - N\<bar>" using low by linarith
    show ?thesis
    proof (cases "q = 2 ^ 52")
      case True
      with far show ?thesis by simp
    next
      case neq: False
      show ?thesis
      proof (cases "2 * \<bar>2 ^ 52 * U - N\<bar> \<le> U")
        case True
        then show ?thesis using near_multiples [OF U(3) True half] neq far by simp
      next
        case False
        have chain: "2 * a \<le> u \<Longrightarrow> b < c \<Longrightarrow> \<not> 2 * b \<le> u \<Longrightarrow> a < c" for a b c u :: int by linarith
        from chain [OF half far False] show ?thesis by simp
      qed
    qed
  qed
  then show "\<bar>scaled (double_of_nat n) - N\<bar> \<le> \<bar>scaled d' - N\<bar>" unfolding d by blast
  show "\<bar>scaled (double_of_nat n) - N\<bar> = \<bar>scaled d' - N\<bar> \<Longrightarrow> scaled d' \<noteq> scaled (double_of_nat n) \<Longrightarrow>
         even (dbl_frac (double_of_nat n))"
    unfolding d using main [OF refl] r(3) by (simp add: q_def)
qed

lemma double_of_nat_near:
  assumes "isfinite (double_of_nat n)"
  defines "N \<equiv> int n * 2 ^ 1074"
  shows "\<bar>scaled (double_of_nat n) - N\<bar> \<le> \<bar>scaled d - N\<bar>"
    and "\<bar>scaled (double_of_nat n) - N\<bar> = \<bar>scaled d - N\<bar> \<Longrightarrow> scaled d \<noteq> scaled (double_of_nat n) \<Longrightarrow>
         even (dbl_frac (double_of_nat n))"
proof -
  have "53 < nbits n \<or> n < 2 ^ 53" using nbits_le_iff [of n 53] by linarith
  then have "\<bar>scaled (double_of_nat n) - N\<bar> \<le> \<bar>scaled d - N\<bar> \<and>
    (\<bar>scaled (double_of_nat n) - N\<bar> = \<bar>scaled d - N\<bar> \<longrightarrow> scaled d \<noteq> scaled (double_of_nat n) \<longrightarrow>
         even (dbl_frac (double_of_nat n)))"
  proof
    assume "53 < nbits n"
    from double_of_nat_nearest [OF this assms(1), of d] show ?thesis unfolding N_def by blast
  next
    assume "n < 2 ^ 53"
    then have "scaled (double_of_nat n) = N" unfolding N_def by (rule double_of_nat_exact)
    then show ?thesis by simp
  qed
  then show "\<bar>scaled (double_of_nat n) - N\<bar> \<le> \<bar>scaled d - N\<bar>"
    and "\<bar>scaled (double_of_nat n) - N\<bar> = \<bar>scaled d - N\<bar> \<Longrightarrow> scaled d \<noteq> scaled (double_of_nat n) \<Longrightarrow>
         even (dbl_frac (double_of_nat n))" by blast+
qed

lemma round_even_top:
  fixes n :: nat
  assumes "n < 2 ^ 1024"
  shows "2 ^ 53 \<le> round_even n 971 \<longleftrightarrow> 2 ^ 1024 - 2 ^ 970 \<le> n"
proof -
  define h :: nat where "h = 2 ^ 970"
  have p: "(2::nat) ^ 971 = 2 * h" "(2::nat) ^ 1024 = 2 ^ 53 * (2 * h)" "0 < h"
    unfolding h_def by simp_all
  define q where "q = n div (2 * h)"
  define r where "r = n mod (2 * h)"
  have n: "n = q * (2 * h) + r" "r < 2 * h" using p(3) by (simp only: q_def r_def div_mult_mod_eq) (simp add: p(3) r_def)
  have "q < 2 ^ 53" using assms unfolding p q_def by (simp add: less_mult_imp_div_less)
  moreover have re: "round_even n 971 = (if h < r \<or> r = h \<and> odd q then q + 1 else q)"
    unfolding round_even_def p Let_def q_def r_def by (simp add: h_def)
  ultimately have "2 ^ 53 \<le> round_even n 971 \<longleftrightarrow> q = 2 ^ 53 - 1 \<and> h \<le> r" by auto
  also have "\<dots> \<longleftrightarrow> (2 ^ 53 - 1) * (2 * h) + h \<le> n"
  proof
    assume "q = 2 ^ 53 - 1 \<and> h \<le> r"
    then show "(2 ^ 53 - 1) * (2 * h) + h \<le> n" unfolding n(1) by simp
  next
    assume a: "(2 ^ 53 - 1) * (2 * h) + h \<le> n"
    have "\<not> q < 2 ^ 53 - 1"
    proof
      assume "q < 2 ^ 53 - 1"
      then have "Suc q \<le> 2 ^ 53 - 1" by simp
      then have "Suc q * (2 * h) \<le> (2 ^ 53 - 1) * (2 * h)" by (rule mult_right_mono) simp
      moreover have "Suc q * (2 * h) = q * (2 * h) + 2 * h" by simp
      ultimately show False using a n p(3) by linarith
    qed
    with \<open>q < 2 ^ 53\<close> have "q = 2 ^ 53 - 1" by simp
    with a n show "q = 2 ^ 53 - 1 \<and> h \<le> r" by simp
  qed
  also have "(2 ^ 53 - 1) * (2 * h) + h = 2 ^ 1024 - h" unfolding p by simp
  finally show ?thesis unfolding h_def .
qed


lemma round_even_range:
  assumes "53 < nbits n"
  shows "round_even n (nbits n - 53) \<le> 2 ^ 53"
proof -
  have "nbits n = 53 + (nbits n - 53)" using assms by simp
  then have "(2::nat) ^ nbits n = 2 ^ 53 * 2 ^ (nbits n - 53)" by (metis power_add)
  then have "n < 2 ^ 53 * 2 ^ (nbits n - 53)" using less_two_pow_nbits [of n] by (simp only:)
  then have "n div 2 ^ (nbits n - 53) < 2 ^ 53" by (intro less_mult_imp_div_less) (simp only: mult.commute)
  then show ?thesis using round_even_bounds(2) [of n "nbits n - 53"] by linarith
qed

text \<open>The conversion overflows to the infinity exactly from half a unit below \<open>2 ^ 1024\<close> on.\<close>

lemma double_of_nat_finite: "isfinite (double_of_nat n) \<longleftrightarrow> n < 2 ^ 1024 - 2 ^ 970"
proof -
  have inf: "\<not> isfinite INFINITY" by (simp add: INFINITY_def isfinite_def make_double_fields)
  have edge: "(2::nat) ^ 1023 \<le> 2 ^ 1024 - 2 ^ 970" by simp
  have wide: "isfinite (double_of_nat n) \<longleftrightarrow>
      \<not> (2046 < 1022 + nbits n \<or> 2046 = 1022 + nbits n \<and> 2 ^ 53 \<le> round_even n (nbits n - 53))" if k: "53 < nbits n"
  proof -
    have n0: "n \<noteq> 0" using k by (metis nbits_0 not_less0)
    define q where "q = round_even n (nbits n - 53)"
    have "q \<le> 2 ^ 53" using round_even_range [OF k] by (simp add: q_def)
    then have "dbl_exp (significand_double q (1022 + nbits n)) \<le> 2046"
      if "\<not> (2046 < 1022 + nbits n \<or> 2046 = 1022 + nbits n \<and> 2 ^ 53 \<le> q)"
      using that by (auto simp: significand_double_def make_double_fields)
    then show ?thesis
      using k n0 inf unfolding q_def by (auto simp: double_of_nat_def Let_def isfinite_def)
  qed
  consider (small) "nbits n \<le> 53" | (mid) "53 < nbits n" "nbits n \<le> 1023" | (last) "nbits n = 1024" | (big) "1024 < nbits n"
    by linarith
  then show ?thesis
  proof cases
    case small
    then have n: "n < 2 ^ 53" by (simp only: nbits_le_iff)
    also have "\<dots> \<le> 2 ^ 1024 - 2 ^ 970" by simp
    finally show ?thesis using double_of_nat_exact(2) [OF n] by simp
  next
    case mid
    then have "n < 2 ^ 1023" by (simp only: nbits_le_iff)
    then have "n < 2 ^ 1024 - 2 ^ 970" using edge by (rule less_le_trans)
    with mid wide show ?thesis by simp
  next
    case last
    then have "nbits n \<le> 1024" by simp
    then have n: "n < 2 ^ 1024" by (simp only: nbits_le_iff)
    have "isfinite (double_of_nat n) \<longleftrightarrow> \<not> 2 ^ 53 \<le> round_even n 971" using wide last by simp
    then show ?thesis unfolding round_even_top [OF n] not_le .
  next
    case big
    then have "2 ^ 1024 \<le> n" by (simp only: nbits_less_iff)
    moreover have "2 ^ 1024 - 2 ^ 970 \<le> (2::nat) ^ 1024" by (rule diff_le_self)
    ultimately have "2 ^ 1024 - 2 ^ 970 \<le> n" by (rule order.trans [rotated])
    with big wide show ?thesis by (simp only: not_less [symmetric]) simp
  qed
qed

end
