(* ===== verification/BigInt_Number.thy ===== *)
theory BigInt_Number
  imports BigInt_Bits BigInt_Digits Binary64
begin

text \<open>
  BigInt and \<open>double\<close> (\<open>runtime_bigint.c\<close>): the conversion of a magnitude to the nearest double,
  the parse of long integer literals to a double, the exact conversion of an integral double, and
  the comparison of a BigInt with a double, which converts neither.
\<close>

subsection \<open>Magnitude to double\<close>

text \<open>\<open>(limbs[bit / BIGINT_BITS] >> (bit % BIGINT_BITS)) & 1u\<close>\<close>

definition limb_bit :: "u32 list \<Rightarrow> nat \<Rightarrow> u32" where
  "limb_bit ls b = drop_bit (b mod BIGINT_BITS) (ls ! (b div BIGINT_BITS)) AND 1"

text \<open>The loop over \<open>offset\<close> that collects the leading bits.\<close>

fun significant_loop :: "u32 list \<Rightarrow> nat \<Rightarrow> nat \<Rightarrow> u64" where
  "significant_loop ls bit_length 0 = 0"
| "significant_loop ls bit_length (Suc offset) =
     push_bit 1 (significant_loop ls bit_length offset) OR ucast (limb_bit ls (bit_length - offset - 1))"

text \<open>The loop that looks for a set bit below the rounding bit.\<close>

fun sticky_loop :: "u32 list \<Rightarrow> nat \<Rightarrow> nat \<Rightarrow> bool" where
  "sticky_loop ls b 0 = False"
| "sticky_loop ls b (Suc count) = (if limb_bit ls b \<noteq> 0 then True else sticky_loop ls (b + 1) count)"

definition magnitude_to_number :: "u32 list \<Rightarrow> bool \<Rightarrow> double" where
  "magnitude_to_number ls neg =
     (let bit_length = magnitude_bits ls
      in if bit_length = 0 then dbl_zero
         else
           let kept_bits = (if bit_length < 53 then bit_length else 53);
               significant = significant_loop ls bit_length kept_bits;
               discarded = bit_length - kept_bits;
               (significant, discarded) =
                 (if discarded > 0 then
                    let round_index = discarded - 1;
                        round_bit = (limb_bit ls round_index \<noteq> 0);
                        sticky = sticky_loop ls 0 round_index
                    in if round_bit \<and> (sticky \<or> significant AND 1 \<noteq> 0) then
                         let significant = significant + 1
                         in if significant = push_bit 53 1 then (drop_bit 1 significant, discarded + 1)
                            else (significant, discarded)
                       else (significant, discarded)
                  else (significant, discarded));
               number = (if discarded > 1024 - 53 then INFINITY
                         else ldexp (double_of_nat (unat significant)) (int discarded))
           in if neg then dbl_neg number else number)"

definition bigint_to_number :: "bigint \<Rightarrow> double" where
  "bigint_to_number b = magnitude_to_number (limbs b) (negative b)"

lemma limb_bit_odd:
  assumes "limbs_ok ls" "b < 30 * length ls"
  shows "unat (limb_bit ls b) = (if odd (limbs_val ls div 2 ^ b) then 1 else 0)"
    and "limb_bit ls b \<noteq> 0 \<longleftrightarrow> odd (limbs_val ls div 2 ^ b)"
proof -
  have i: "b div 30 < length ls" using assms(2) by (simp add: less_mult_imp_div_less mult.commute)
  then have "magnitude_bit ls b \<longleftrightarrow> limb_bit ls b \<noteq> 0" by (simp add: magnitude_bit_def limb_bit_def)
  with magnitude_bit_odd [OF assms(1)] show nz: "limb_bit ls b \<noteq> 0 \<longleftrightarrow> odd (limbs_val ls div 2 ^ b)" by simp
  have "limb_bit ls b = (if odd (drop_bit (b mod 30) (ls ! (b div 30))) then 1 else 0)"
    by (simp add: limb_bit_def and_one_eq odd_iff_mod_2_eq_one)
  with nz show "unat (limb_bit ls b) = (if odd (limbs_val ls div 2 ^ b) then 1 else 0)"
    by (auto split: if_splits)
qed

lemma unat_push_one_or:
  assumes "unat (x :: u64) < 2 ^ 62" "unat (y :: u32) \<le> 1"
  shows "unat (push_bit 1 x OR ucast y) = 2 * unat x + unat y"
proof -
  have p: "unat (push_bit 1 x) = 2 * unat x"
    using assms(1) by (simp only: unsigned_push_bit_eq) (simp add: push_bit_eq_mult take_bit_nat_eq_self)
  have "push_bit 1 x AND ucast y = 0"
  proof (rule and_zeroI)
    fix n
    assume h: "bit (push_bit 1 x) n" "bit (ucast y :: u64) n"
    have "n < 1" by (rule bit_small [of "ucast y :: u64"]) (use h(2) assms(2) in simp_all)
    moreover have "1 \<le> n" using h(1) unfolding bit_push_bit_iff by blast
    ultimately show False by simp
  qed
  then show ?thesis by (simp only: unat_or_disjoint p unat_u32_u64)
qed

lemma div_two_pow_step: "0 < b \<Longrightarrow> (V :: nat) div 2 ^ (b - 1) = 2 * (V div 2 ^ b) + (if odd (V div 2 ^ (b - 1)) then 1 else 0)"
proof -
  assume "0 < b"
  then have "V div 2 ^ b = V div 2 ^ (b - 1) div 2" by (metis Suc_diff_1 power_Suc2 div_mult2_eq)
  then show ?thesis using odd_two_times_div_two_succ [of "V div 2 ^ (b - 1)"] by auto
qed

lemma significant_loop_correct:
  assumes ok: "limbs_ok ls" and bl: "bit_length \<le> 30 * length ls" "limbs_val ls < 2 ^ bit_length"
  shows "k \<le> bit_length \<Longrightarrow> k \<le> 62 \<Longrightarrow> unat (significant_loop ls bit_length k) = limbs_val ls div 2 ^ (bit_length - k)"
proof (induction k)
  case (Suc k)
  let ?V = "limbs_val ls" and ?b = "bit_length - k"
  have IH: "unat (significant_loop ls bit_length k) = ?V div 2 ^ ?b" using Suc by simp
  have "?V div 2 ^ ?b < 2 ^ k"
  proof (rule less_mult_imp_div_less)
    have "k + ?b = bit_length" using Suc.prems(1) by simp
    then show "?V < 2 ^ k * 2 ^ ?b" using bl(2) by (simp flip: power_add)
  qed
  also have "\<dots> \<le> 2 ^ 61" using Suc.prems(2) by (intro power_increasing) auto
  finally have small: "unat (significant_loop ls bit_length k) < 2 ^ 62" unfolding IH by simp
  have bit: "unat (limb_bit ls (?b - 1)) = (if odd (?V div 2 ^ (?b - 1)) then 1 else 0)"
    using Suc.prems(1) bl(1) by (intro limb_bit_odd [OF ok]) auto
  have "unat (significant_loop ls bit_length (Suc k)) = 2 * (?V div 2 ^ ?b) + unat (limb_bit ls (?b - 1))"
    unfolding significant_loop.simps IH [symmetric] by (rule unat_push_one_or [OF small]) (use bit in simp)
  also have "\<dots> = ?V div 2 ^ (?b - 1)" unfolding bit by (rule div_two_pow_step [symmetric]) (use Suc.prems in simp)
  finally show ?case by simp
qed (use bl in simp)

lemma sticky_loop_correct:
  assumes ok: "limbs_ok ls"
  shows "b + n \<le> 30 * length ls \<Longrightarrow> sticky_loop ls b n \<longleftrightarrow> limbs_val ls div 2 ^ b mod 2 ^ n \<noteq> 0"
proof (induction n arbitrary: b)
  case (Suc n)
  let ?q = "limbs_val ls div 2 ^ b"
  have next': "limbs_val ls div 2 ^ (b + 1) = ?q div 2" by (simp add: div_mult2_eq mult.commute [of 2])
  have m: "?q mod 2 ^ Suc n = 2 * (?q div 2 mod 2 ^ n) + ?q mod 2" by (simp add: mod_mult2_eq)
  have bit: "limb_bit ls b \<noteq> 0 \<longleftrightarrow> odd ?q" using Suc.prems by (intro limb_bit_odd [OF ok]) simp
  have IH: "sticky_loop ls (b + 1) n \<longleftrightarrow> ?q div 2 mod 2 ^ n \<noteq> 0" using Suc.IH [of "b + 1"] Suc.prems next' by simp
  show ?case
  proof (cases "odd ?q")
    case True
    then show ?thesis using bit m by (simp add: odd_iff_mod_2_eq_one)
  next
    case False
    then show ?thesis using bit m IH by (simp add: even_iff_mod_2_eq_zero)
  qed
qed simp

lemma round_condition:
  fixes V s :: nat
  assumes "0 < s"
  shows "(2 ^ (s - 1) < V mod 2 ^ s \<or> V mod 2 ^ s = 2 ^ (s - 1) \<and> odd (V div 2 ^ s)) \<longleftrightarrow>
    odd (V div 2 ^ (s - 1)) \<and> (V mod 2 ^ (s - 1) \<noteq> 0 \<or> odd (V div 2 ^ s))"
proof -
  define h :: nat where "h = 2 ^ (s - 1)"
  have h: "2 ^ s = h * 2" using assms by (auto simp: h_def simp flip: power_Suc2)
  have r: "V mod 2 ^ s = h * (V div h mod 2) + V mod h" unfolding h by (rule mod_mult2_eq)
  have l: "V mod h < h" by (simp add: h_def)
  show ?thesis
  proof (cases "odd (V div h)")
    case True
    then have "V div h mod 2 = 1" by (simp only: odd_iff_mod_2_eq_one)
    then have "V mod 2 ^ s = h + V mod h" using r by simp
    with True show ?thesis unfolding h_def [symmetric] by auto
  next
    case False
    then have "V div h mod 2 = 0" by (simp only: even_iff_mod_2_eq_zero not_not)
    then have "V mod 2 ^ s = V mod h" using r by simp
    with False l show ?thesis unfolding h_def [symmetric] by auto
  qed
qed

lemma ldexp_zero_shift: "isfinite d \<Longrightarrow> 0 < dbl_exp d \<Longrightarrow> ldexp d 0 = d"
  using ldexp_normal [of d 0] make_double_split [of d] dbl_field_bounds(1) [of d]
  by (auto simp: isfinite_def)

lemma double_of_nat_shape:
  assumes "0 < n" "nbits n \<le> 53"
  shows "double_of_nat n = make_double False (1022 + nbits n) (n * 2 ^ (53 - nbits n) - 2 ^ 52)"
    and "n * 2 ^ (53 - nbits n) - 2 ^ 52 < 2 ^ 52"
proof -
  show "double_of_nat n = make_double False (1022 + nbits n) (n * 2 ^ (53 - nbits n) - 2 ^ 52)"
    using assms by (simp add: double_of_nat_def Let_def)
  have "n * 2 ^ (53 - nbits n) < 2 ^ nbits n * 2 ^ (53 - nbits n)"
    using less_two_pow_nbits [of n] by (rule mult_strict_right_mono) simp
  also have "\<dots> = 2 ^ 53" using assms(2) by (simp flip: power_add)
  finally show "n * 2 ^ (53 - nbits n) - 2 ^ 52 < 2 ^ 52" by simp
qed

lemma ldexp_significand:
  assumes "2 ^ 52 \<le> n" "n < 2 ^ 53" "k \<le> 971"
  shows "ldexp (double_of_nat n) (int k) = make_double False (1075 + k) (n - 2 ^ 52)"
proof -
  have b: "nbits n = 53" by (rule nbits_eqI [of 52, simplified]) (use assms in simp_all)
  then have d: "double_of_nat n = make_double False 1075 (n - 2 ^ 52)" "n - 2 ^ 52 < 2 ^ 52"
    using double_of_nat_shape [of n] assms by auto
  have f: "dbl_exp (double_of_nat n) = 1075" "dbl_frac (double_of_nat n) = n - 2 ^ 52" "\<not> dbl_sign (double_of_nat n)"
    unfolding d(1) using make_double_fields [of 1075 "n - 2 ^ 52" False] d(2) by simp_all
  then show ?thesis using assms(3) by (subst ldexp_normal) (simp_all add: nat_add_distrib)
qed

text \<open>The rounded conversion, in the form in which the code scales the rounded significand.\<close>

lemma rounded_double:
  assumes "53 < nbits n"
  defines "s \<equiv> nbits n - 53"
  shows "double_of_nat n =
    (let q = round_even n s
     in if q = 2 ^ 53 then (if s + 1 > 971 then INFINITY else ldexp (double_of_nat (2 ^ 52)) (int (s + 1)))
        else (if s > 971 then INFINITY else ldexp (double_of_nat q) (int s)))"
proof -
  let ?q = "round_even n s"
  have n0: "n \<noteq> 0" "\<not> nbits n \<le> 53" using assms(1) by (metis nbits_0 not_less0, simp)
  have e: "1022 + nbits n = 1075 + s" using assms(1) by (simp add: s_def)
  have nb: "2 ^ (nbits n - 1) \<le> n" "n < 2 ^ nbits n" using nbits_range [of n] n0 by simp_all
  have "nbits n - 1 = 52 + s" "nbits n = 53 + s" using assms(1) by (simp_all add: s_def)
  then have "2 ^ 52 * 2 ^ s \<le> n" "n < 2 ^ 53 * 2 ^ s" using nb by (metis power_add)+
  then have "2 ^ 52 \<le> n div 2 ^ s" "n div 2 ^ s < 2 ^ 53"
    using div_le_mono [of "2 ^ 52 * 2 ^ s" n "2 ^ s"] by (simp_all add: less_mult_imp_div_less)
  then have q: "2 ^ 52 \<le> ?q" "?q \<le> 2 ^ 53" using round_even_bounds [of n s] by linarith+
  have d: "double_of_nat n = (if 2046 < 1075 + s \<or> 2046 = 1075 + s \<and> 2 ^ 53 \<le> ?q then INFINITY else significand_double ?q (1075 + s))"
    unfolding double_of_nat_def Let_def if_not_P [OF n0(1)] if_not_P [OF n0(2)] s_def [symmetric] e ..
  show ?thesis
  proof (cases "?q = 2 ^ 53")
    case True
    have "ldexp (double_of_nat (2 ^ 52)) (int (s + 1)) = make_double False (1075 + (s + 1)) 0" if "s + 1 \<le> 971"
      using ldexp_significand [of "2 ^ 52" "s + 1"] that by simp
    then show ?thesis unfolding d Let_def if_P [OF True] significand_double_def True by auto
  next
    case False
    then have lt: "?q < 2 ^ 53" using q by simp
    have "ldexp (double_of_nat ?q) (int s) = make_double False (1075 + s) (?q - 2 ^ 52)" if "s \<le> 971"
      using ldexp_significand [OF q(1) lt that] .
    then show ?thesis unfolding d Let_def if_not_P [OF False] significand_double_def using lt by auto
  qed
qed

lemma magnitude_to_number_correct:
  assumes ok: "limbs_ok ls" "ls \<noteq> []"
  shows "magnitude_to_number ls neg =
    (if limbs_val ls = 0 then dbl_zero
     else if neg then dbl_neg (double_of_nat (limbs_val ls)) else double_of_nat (limbs_val ls))"
proof (cases "limbs_val ls = 0")
  case True
  then show ?thesis using ok by (simp add: magnitude_to_number_def magnitude_bits_nbits)
next
  case V0: False
  let ?V = "limbs_val ls" and ?k = "nbits (limbs_val ls)"
  have k: "magnitude_bits ls = ?k" "?k \<noteq> 0" using ok V0 by (simp_all add: magnitude_bits_nbits)
  have len: "?k \<le> 30 * length ls" using limbs_val_bound [OF ok(1)] by (simp only: nbits_le_iff)
  have sig: "unat (significant_loop ls ?k j) = ?V div 2 ^ (?k - j)" if "j \<le> ?k" "j \<le> 62" for j
    using significant_loop_correct [OF ok(1) len less_two_pow_nbits that] .
  show ?thesis
  proof (cases "?k \<le> 53")
    case True
    let ?d = "double_of_nat ?V"
    have kept: "(if ?k < 53 then ?k else 53) = ?k" using True by simp
    have s: "unat (significant_loop ls ?k ?k) = ?V" using sig [of ?k] True by simp
    have "isfinite ?d \<and> 0 < dbl_exp ?d"
      using double_of_nat_shape [of ?V] V0 True make_double_fields [of "1022 + ?k" "?V * 2 ^ (53 - ?k) - 2 ^ 52" False]
      by (simp add: isfinite_def)
    then have "ldexp ?d (int 0) = ?d" using ldexp_zero_shift by simp
    then show ?thesis
      unfolding magnitude_to_number_def k(1) Let_def if_not_P [OF k(2)] kept using V0 by (simp add: s)
  next
    case False
    let ?s = "?k - 53"
    have kept: "(if ?k < 53 then ?k else 53) = 53" using False by simp
    have s0: "0 < ?s" using False by simp
    define S where "S = significant_loop ls ?k 53"
    have S: "unat S = ?V div 2 ^ ?s" unfolding S_def using sig [of 53] False by simp
    have lo: "2 ^ 52 \<le> unat S" and hi: "unat S < 2 ^ 53"
    proof -
      have nb: "2 ^ (?k - 1) \<le> ?V" "?V < 2 ^ ?k" using nbits_range [of ?V] V0 by simp_all
      have "?k - 1 = 52 + ?s" "?k = 53 + ?s" using False by simp_all
      then have "2 ^ 52 * 2 ^ ?s \<le> ?V" "?V < 2 ^ 53 * 2 ^ ?s" using nb by (metis power_add)+
      then show "2 ^ 52 \<le> unat S" "unat S < 2 ^ 53" unfolding S
        using div_le_mono [of "2 ^ 52 * 2 ^ ?s" ?V "2 ^ ?s"] by (simp_all add: less_mult_imp_div_less)
    qed
    have rb: "limb_bit ls (?s - 1) \<noteq> 0 \<longleftrightarrow> odd (?V div 2 ^ (?s - 1))"
      by (rule limb_bit_odd [OF ok(1)]) (use len s0 in simp)
    have st: "sticky_loop ls 0 (?s - 1) \<longleftrightarrow> ?V mod 2 ^ (?s - 1) \<noteq> 0"
      using sticky_loop_correct [OF ok(1), of 0 "?s - 1"] len by simp
    have low: "S AND 1 \<noteq> 0 \<longleftrightarrow> odd (?V div 2 ^ ?s)" using bit_word_odd [of 0 S] by (simp add: S)
    let ?up = "limb_bit ls (?s - 1) \<noteq> 0 \<and> (sticky_loop ls 0 (?s - 1) \<or> S AND 1 \<noteq> 0)"
    have q: "round_even ?V ?s = (if ?up then unat S + 1 else unat S)"
      using round_condition [OF s0, of ?V] s0 unfolding round_even_def Let_def rb st low S by simp
    have S1: "unat (S + 1) = unat S + 1" using hi by (subst unat_add_no_wrap) simp_all
    have full: "S + 1 = push_bit 53 1 \<longleftrightarrow> unat S + 1 = 2 ^ 53"
      unfolding word_unat_eq_iff S1 by simp
    note r = rounded_double [OF False [unfolded not_le]]
    have body: "magnitude_to_number ls neg =
        (let (S', s') = (if ?up then if S + 1 = push_bit 53 1 then (drop_bit 1 (S + 1), ?s + 1) else (S + 1, ?s) else (S, ?s));
             number = (if s' > 1024 - 53 then INFINITY else ldexp (double_of_nat (unat S')) (int s'))
         in if neg then dbl_neg number else number)"
      unfolding magnitude_to_number_def k(1) Let_def if_not_P [OF k(2)] kept if_P [OF s0] S_def [symmetric] ..
    consider (down) "\<not> ?up" | (carry) "?up" "S + 1 = push_bit 53 1" | (up) "?up" "S + 1 \<noteq> push_bit 53 1" by blast
    then have num: "(let (S', s') = (if ?up then if S + 1 = push_bit 53 1 then (drop_bit 1 (S + 1), ?s + 1) else (S + 1, ?s) else (S, ?s))
         in if s' > 1024 - 53 then INFINITY else ldexp (double_of_nat (unat S')) (int s')) = double_of_nat ?V"
    proof cases
      case down
      then have "round_even ?V ?s = unat S" using q by simp
      then show ?thesis unfolding r Let_def if_not_P [OF down] using hi by simp
    next
      case carry
      then have Q: "round_even ?V ?s = 2 ^ 53" using q full by simp
      have "unat (drop_bit 1 (S + 1)) = 2 ^ 52" unfolding carry(2) unat_drop_bit by simp
      then show ?thesis unfolding r Let_def if_P [OF carry(1)] if_P [OF carry(2)] prod.case Q by simp
    next
      case up
      then have Q: "round_even ?V ?s = unat S + 1" "unat S + 1 \<noteq> 2 ^ 53" using q full by simp_all
      then show ?thesis unfolding r Let_def if_P [OF up(1)] if_not_P [OF up(2)] prod.case Q S1 by simp
    qed
    obtain S' s' where X: "(if ?up then if S + 1 = push_bit 53 1 then (drop_bit 1 (S + 1), ?s + 1) else (S + 1, ?s) else (S, ?s)) = (S', s')"
      by fastforce
    show ?thesis using num V0 unfolding body X Let_def prod.case by simp
  qed
qed

end
