(* ===== verification/BigInt_Convert.thy ===== *)
theory BigInt_Convert
  imports BigInt_Number BigInt_Arith
begin

text \<open>
  Comparison of a BigInt with a double, the exact conversion of an integral double to a BigInt,
  and the conversion of a string of digits to a double (\<open>runtime_bigint.c\<close>).
\<close>

subsection \<open>Comparison with a number\<close>

text \<open>The loop over \<open>cursor\<close> of \<open>compare_magnitude_double\<close>, from the top bit down.\<close>

definition number_bit :: "nat \<Rightarrow> int \<Rightarrow> nat \<Rightarrow> bool" where
  "number_bit significand shift b =
     (if shift \<ge> 0 then
        (if b \<ge> nat shift \<and> b - nat shift < 53
         then drop_bit (b - nat shift) (of_nat significand :: u64) AND 1 \<noteq> 0 else False)
      else let discarded = nat (- shift)
           in if b + discarded < 53 then drop_bit (b + discarded) (of_nat significand :: u64) AND 1 \<noteq> 0 else False)"

fun compare_bits_loop :: "u32 list \<Rightarrow> nat \<Rightarrow> int \<Rightarrow> nat \<Rightarrow> int" where
  "compare_bits_loop ls significand shift 0 = 0"
| "compare_bits_loop ls significand shift (Suc b) =
     (let integer_bit = magnitude_bit ls b; n_bit = number_bit significand shift b
      in if integer_bit \<noteq> n_bit then (if integer_bit then 1 else -1)
         else compare_bits_loop ls significand shift b)"

definition compare_magnitude_double :: "bigint \<Rightarrow> double \<Rightarrow> int" where
  "compare_magnitude_double integer number =
     (if dbl_less number dbl_one then (if bigint_is_zero integer then 0 else 1)
      else case frexp number of (fraction, exponent) \<Rightarrow>
        let significand = dbl_to_nat (ldexp fraction 53);
            integer_bits = magnitude_bits (limbs integer);
            number_bits = nat exponent
        in if integer_bits < number_bits then -1
           else if integer_bits > number_bits then 1
           else compare_bits_loop (limbs integer) significand (exponent - 53) integer_bits)"

definition bigint_compare_number :: "bigint \<Rightarrow> double \<Rightarrow> int" where
  "bigint_compare_number integer number =
     (if isinf number then (if dbl_less dbl_zero number then -1 else 1)
      else
        let number_negative = (signbit number \<and> \<not> dbl_eq number dbl_zero)
        in if negative integer \<noteq> number_negative then (if negative integer then -1 else 1)
           else
             let absolute = fabs number;
                 integral = trunc absolute;
                 order = compare_magnitude_double integer integral;
                 order = (if negative integer then - order else order)
             in if order = 0 \<and> \<not> dbl_eq absolute integral then (if negative integer then 1 else -1)
                else order)"

lemma compare_bits_loop_correct:
  assumes ok: "limbs_ok ls" and bits: "\<And>b. b < n \<Longrightarrow> number_bit S sh b \<longleftrightarrow> odd (M div 2 ^ b)"
  shows "compare_bits_loop ls S sh n = sgn (int (limbs_val ls mod 2 ^ n) - int (M mod 2 ^ n))"
  using bits
proof (induction n)
  case (Suc n)
  let ?V = "limbs_val ls"
  have v: "?V mod 2 ^ Suc n = 2 ^ n * (?V div 2 ^ n mod 2) + ?V mod 2 ^ n"
    and m: "M mod 2 ^ Suc n = 2 ^ n * (M div 2 ^ n mod 2) + M mod 2 ^ n"
    unfolding power_Suc2 by (rule mod_mult2_eq)+
  have b: "?V mod 2 ^ n < 2 ^ n" "M mod 2 ^ n < 2 ^ n" by simp_all
  have ib: "magnitude_bit ls n \<longleftrightarrow> odd (?V div 2 ^ n)" using ok by (rule magnitude_bit_odd)
  have nb: "number_bit S sh n \<longleftrightarrow> odd (M div 2 ^ n)" using Suc.prems by simp
  have IH: "compare_bits_loop ls S sh n = sgn (int (?V mod 2 ^ n) - int (M mod 2 ^ n))" using Suc by simp
  have odd1: "odd x \<Longrightarrow> x mod 2 = 1" "even x \<Longrightarrow> x mod 2 = 0" for x :: nat by (simp_all add: odd_iff_mod_2_eq_one)
  consider (same) "odd (?V div 2 ^ n) = odd (M div 2 ^ n)" | (gt) "odd (?V div 2 ^ n)" "even (M div 2 ^ n)"
    | (lt) "even (?V div 2 ^ n)" "odd (M div 2 ^ n)" by blast
  then show ?case
  proof cases
    case same
    then have "?V div 2 ^ n mod 2 = M div 2 ^ n mod 2" using odd1 by metis
    then have "int (?V mod 2 ^ Suc n) - int (M mod 2 ^ Suc n) = int (?V mod 2 ^ n) - int (M mod 2 ^ n)"
      unfolding v m by simp
    then show ?thesis using same IH ib nb by (simp add: Let_def)
  next
    case gt
    then have "?V mod 2 ^ Suc n = 2 ^ n + ?V mod 2 ^ n" "M mod 2 ^ Suc n = M mod 2 ^ n"
      unfolding v m by (simp_all add: odd1)
    then have "M mod 2 ^ Suc n < ?V mod 2 ^ Suc n" using b by linarith
    then show ?thesis using gt ib nb by (simp add: Let_def)
  next
    case lt
    then have "M mod 2 ^ Suc n = 2 ^ n + M mod 2 ^ n" "?V mod 2 ^ Suc n = ?V mod 2 ^ n"
      unfolding v m by (simp_all add: odd1)
    then have "?V mod 2 ^ Suc n < M mod 2 ^ Suc n" using b by linarith
    then show ?thesis using lt ib nb by (simp add: Let_def)
  qed
qed simp

text \<open>\<open>number_bit\<close> reads the bits of the integral number \<open>significand * 2 ^ shift\<close>.\<close>

lemma number_bit_odd:
  assumes S: "S < 2 ^ 53" and M: "if shift \<ge> 0 then M = S * 2 ^ nat shift else S = M * 2 ^ nat (- shift)"
  shows "number_bit S shift b \<longleftrightarrow> odd (M div 2 ^ b)"
proof -
  have u: "unat (of_nat S :: u64) = S" using S by (simp add: unat_of_nat)
  have w: "drop_bit k (of_nat S :: u64) AND 1 \<noteq> 0 \<longleftrightarrow> odd (S div 2 ^ k)" for k
    by (simp only: bit_word_odd u)
  have high: "S div 2 ^ k = 0" if "53 \<le> k" for k
  proof -
    have "(2::nat) ^ 53 \<le> 2 ^ k" using that by (intro power_increasing) auto
    with S have "S < 2 ^ k" by linarith
    then show ?thesis by simp
  qed
  show ?thesis
  proof (cases "shift \<ge> 0")
    case True
    then have M': "M = S * 2 ^ nat shift" using M by simp
    show ?thesis
    proof (cases "b \<ge> nat shift")
      case ge: True
      then have "(2::nat) ^ b = 2 ^ nat shift * 2 ^ (b - nat shift)" by (simp flip: power_add)
      then have "M div 2 ^ b = S div 2 ^ (b - nat shift)" unfolding M' by (simp add: div_mult2_eq)
      then show ?thesis using True ge high w by (auto simp: number_bit_def not_less)
    next
      case False
      then have "(2::nat) ^ nat shift = 2 ^ b * (2 * 2 ^ (nat shift - b - 1))"
        by (metis Suc_diff_Suc diff_diff_left add.commute plus_1_eq_Suc power_Suc power_add le_add_diff_inverse nat_less_le not_le)
      then have "M = 2 ^ b * (2 * (2 ^ (nat shift - b - 1) * S))" unfolding M' by (simp only: ac_simps)
      then have "M div 2 ^ b = 2 * (2 ^ (nat shift - b - 1) * S)" by simp
      then show ?thesis using True False by (simp add: number_bit_def)
    qed
  next
    case False
    then have M': "S = M * 2 ^ nat (- shift)" using M by simp
    have "S div 2 ^ (b + nat (- shift)) = M div 2 ^ b" unfolding M' power_add by simp
    then show ?thesis using False high [of "b + nat (- shift)"] w by (auto simp: number_bit_def Let_def not_less)
  qed
qed

text \<open>The value of a normal number as its significand times a power of two.\<close>

lemma integral_value:
  assumes "0 < dbl_exp d" "magnitude_of d = M * 2 ^ 1074" "1023 \<le> dbl_exp d"
  defines "S \<equiv> 2 ^ 52 + dbl_frac d" and "shift \<equiv> int (dbl_exp d) - 1075"
  shows "if shift \<ge> 0 then M = S * 2 ^ nat shift else S = M * 2 ^ nat (- shift)"
    and "nbits M = dbl_exp d - 1022"
proof -
  have m: "S * 2 ^ (dbl_exp d - 1) = M * 2 ^ 1074"
    using assms(1,2) by (simp add: magnitude_of_def dbl_significand_def S_def)
  show "if shift \<ge> 0 then M = S * 2 ^ nat shift else S = M * 2 ^ nat (- shift)"
  proof (cases "shift \<ge> 0")
    case True
    then have "dbl_exp d - 1 = nat shift + 1074" by (simp add: shift_def nat_diff_distrib)
    then have "S * 2 ^ nat shift * 2 ^ 1074 = M * 2 ^ 1074" using m by (simp only: power_add mult.assoc)
    then have "S * 2 ^ nat shift = M" by (rule mult_right_cancel [THEN iffD1, rotated]) simp
    with True show ?thesis by simp
  next
    case False
    then have "1074 = nat (- shift) + (dbl_exp d - 1)" using assms(1) by (simp add: shift_def)
    then have "S * 2 ^ (dbl_exp d - 1) = M * 2 ^ nat (- shift) * 2 ^ (dbl_exp d - 1)" using m by (metis power_add mult.assoc)
    then have "S = M * 2 ^ nat (- shift)" by (rule mult_right_cancel [THEN iffD1, rotated]) simp
    with False show ?thesis by simp
  qed
  have S: "2 ^ 52 \<le> S" "S < 2 ^ 53" using dbl_field_bounds_num(2) [of d] by (simp_all add: S_def)
  have "2 ^ 52 * 2 ^ (dbl_exp d - 1) \<le> M * 2 ^ 1074" "M * 2 ^ 1074 < 2 ^ 53 * 2 ^ (dbl_exp d - 1)"
    unfolding m [symmetric] using S by simp_all
  moreover have "(2::nat) ^ 52 * 2 ^ (dbl_exp d - 1) = 2 ^ (dbl_exp d - 1023) * 2 ^ 1074"
    "(2::nat) ^ 53 * 2 ^ (dbl_exp d - 1) = 2 ^ Suc (dbl_exp d - 1023) * 2 ^ 1074"
    unfolding power_add [symmetric] using assms(3) by simp_all
  ultimately have "2 ^ (dbl_exp d - 1023) \<le> M" "M < 2 ^ Suc (dbl_exp d - 1023)"
    by (metis mult_le_cancel2 zero_less_power zero_less_numeral, metis mult_less_cancel2)
  then have "nbits M = Suc (dbl_exp d - 1023)" by (rule nbits_eqI)
  then show "nbits M = dbl_exp d - 1022" using assms(3) by simp
qed

lemma large_exp: "2 ^ 1074 \<le> magnitude_of d \<Longrightarrow> 1023 \<le> dbl_exp d"
  using magnitude_small [of d] by (metis leD leI)

lemma compare_magnitude_double_correct:
  assumes b: "bigint_ok b" and d: "isfinite d" "\<not> dbl_sign d" "magnitude_of d = M * 2 ^ 1074"
  shows "compare_magnitude_double b d = sgn (int (limbs_val (limbs b)) - int M)"
proof -
  let ?V = "limbs_val (limbs b)"
  have nan: "\<not> isnan d" using d(1) by (simp add: isfinite_iff)
  have sc: "scaled d = int M * 2 ^ 1074" using d(2,3) by (simp add: scaled_magnitude)
  have less: "dbl_less d dbl_one \<longleftrightarrow> M = 0"
  proof -
    have "dbl_less d dbl_one \<longleftrightarrow> int M * 2 ^ 1074 < 1 * 2 ^ 1074" by (simp only: dbl_less_def nan sc dbl_constants) simp
    also have "\<dots> \<longleftrightarrow> int M < 1" by (rule mult_less_cancel_right_pos) simp
    finally show ?thesis by simp
  qed
  show ?thesis
  proof (cases "M = 0")
    case True
    then show ?thesis using less bigint_is_zero_val [OF b]
      by (simp add: compare_magnitude_double_def bigint_val_def)
  next
    case False
    have "1 * 2 ^ 1074 \<le> magnitude_of d" unfolding d(3) using False by (intro mult_right_mono) simp_all
    then have e: "1023 \<le> dbl_exp d" using large_exp by simp
    have e': "0 < dbl_exp d" "dbl_exp d < 2047"
      using e d(1) dbl_field_bounds(1) [of d] by (auto simp: isfinite_def)
    note f = frexp_significand [OF e'] and v = integral_value [OF e'(1) d(3) e]
    obtain fr ex where fe: "frexp d = (fr, ex)" by (cases "frexp d")
    have ex: "ex = int (dbl_exp d) - 1022" "nat ex = nbits M" using f(1) v(2) e fe by simp_all
    have sg: "dbl_to_nat (ldexp fr 53) = 2 ^ 52 + dbl_frac d" using f(2) fe by simp
    have bits: "magnitude_bits (limbs b) = nbits ?V" using b by (simp add: magnitude_bits_nbits bigint_okD)
    have shift: "ex - 53 = int (dbl_exp d) - 1075" using ex(1) by simp
    have nl: "\<not> dbl_less d dbl_one" using less False by simp
    have split: "compare_magnitude_double b d =
      (if nbits ?V < nbits M then -1 else if nbits M < nbits ?V then 1
       else compare_bits_loop (limbs b) (2 ^ 52 + dbl_frac d) (int (dbl_exp d) - 1075) (nbits ?V))"
      unfolding compare_magnitude_double_def if_not_P [OF nl] fe prod.case Let_def sg bits ex(2) shift ..
    consider (lt) "nbits ?V < nbits M" | (gt) "nbits M < nbits ?V" | (eq) "nbits ?V = nbits M" by linarith
    then show ?thesis
    proof cases
      case lt
      then have "?V < M" using nbits_mono [of M ?V] by (metis leD not_le)
      with lt show ?thesis unfolding split by simp
    next
      case gt
      then have "M < ?V" using nbits_mono [of ?V M] by (metis leD not_le)
      with gt show ?thesis unfolding split by simp
    next
      case eq
      have "2 ^ 52 + dbl_frac d < 2 ^ 53" using dbl_field_bounds_num(2) [of d] by simp
      then have "compare_bits_loop (limbs b) (2 ^ 52 + dbl_frac d) (int (dbl_exp d) - 1075) (nbits ?V)
          = sgn (int (?V mod 2 ^ nbits ?V) - int (M mod 2 ^ nbits ?V))"
        using b by (intro compare_bits_loop_correct number_bit_odd v(1)) (auto dest: bigint_okD)
      then show ?thesis unfolding split using eq less_two_pow_nbits [of ?V] less_two_pow_nbits [of M] by simp
    qed
  qed
qed

lemma bigint_compare_number_correct:
  assumes b: "bigint_ok b" and d: "isfinite d"
  shows "bigint_compare_number b d = sgn (bigint_val b * 2 ^ 1074 - scaled d)"
proof -
  let ?V = "limbs_val (limbs b)" and ?m = "magnitude_of d"
  define M where "M = ?m div 2 ^ 1074"
  define r where "r = ?m mod 2 ^ 1074"
  define P :: int where "P = 2 ^ 1074"
  have P: "0 < P" "int r < P" by (simp_all add: P_def r_def)
  have m: "int ?m = int M * P + int r"
  proof -
    have "?m = M * 2 ^ 1074 + r" unfolding M_def r_def by (rule div_mult_mod_eq [symmetric])
    then have "int ?m = int (M * 2 ^ 1074 + r)" by (simp only:)
    then show ?thesis unfolding P_def by (simp only: of_nat_add of_nat_mult of_nat_power of_nat_numeral)
  qed
  have fin: "\<not> isinf d" "\<not> isnan d" using d by (simp_all add: isfinite_iff)
  have neg: "(signbit d \<and> \<not> dbl_eq d dbl_zero) \<longleftrightarrow> scaled d < 0"
    using fin scaled_magnitude [of d] by (auto simp: signbit_def dbl_eq_def)
  have sb: "negative b \<longleftrightarrow> bigint_val b < 0" using b by (simp add: bigint_okD)
  let ?t = "trunc (fabs d)"
  have t: "magnitude_of ?t = M * 2 ^ 1074" "\<not> dbl_sign ?t" "isfinite ?t"
  proof -
    show "magnitude_of ?t = M * 2 ^ 1074" "\<not> dbl_sign ?t" by (simp_all add: trunc_magnitude trunc_sign M_def)
    show "isfinite ?t"
    proof (cases "1023 \<le> dbl_exp d")
      case True
      then show ?thesis using trunc_exp [of "fabs d"] d by (simp add: isfinite_def)
    next
      case False
      then show ?thesis by (simp add: trunc_def isfinite_def make_double_fields)
    qed
  qed
  have eq: "dbl_eq (fabs d) ?t \<longleftrightarrow> r = 0"
  proof -
    have "dbl_eq (fabs d) ?t \<longleftrightarrow> int ?m = int (M * 2 ^ 1074)"
      using t fin by (simp add: dbl_eq_def isfinite_iff scaled_magnitude)
    also have "\<dots> \<longleftrightarrow> int M * P + int r = int M * P" unfolding m P_def by simp
    finally show ?thesis by simp
  qed
  have cmp: "compare_magnitude_double b ?t = sgn (int ?V - int M)"
    by (rule compare_magnitude_double_correct [OF b t(3,2,1)])
  have unfolded: "bigint_compare_number b d =
      (if negative b \<noteq> (scaled d < 0) then (if negative b then -1 else 1)
       else let order = (if negative b then - sgn (int ?V - int M) else sgn (int ?V - int M))
            in if order = 0 \<and> r \<noteq> 0 then (if negative b then 1 else -1) else order)"
    unfolding bigint_compare_number_def if_not_P [OF fin(1)] neg cmp eq Let_def ..
  have key: "sgn (int ?V * P - (int M * P + int r)) = (if ?V = M then (if r = 0 then 0 else -1) else sgn (int ?V - int M))"
  proof (cases ?V M rule: linorder_cases)
    case less
    then have "(int ?V + 1) * P \<le> int M * P" using P(1) by (intro mult_right_mono) auto
    then have "int ?V * P - (int M * P + int r) < 0" using P by (simp add: distrib_right)
    with less show ?thesis by simp
  next
    case equal
    then show ?thesis by simp
  next
    case greater
    then have "(int M + 1) * P \<le> int ?V * P" using P(1) by (intro mult_right_mono) auto
    then have "0 < int ?V * P - (int M * P + int r)" using P by (simp add: distrib_right)
    with greater show ?thesis by simp
  qed
  show ?thesis
  proof (cases "negative b = (scaled d < 0)")
    case False
    show ?thesis
    proof (cases "negative b")
      case neg: True
      then have "bigint_val b * P < 0" using sb P(1) by (simp add: mult_neg_pos)
      then have "sgn (bigint_val b * P - scaled d) = -1" using False neg by simp
      then show ?thesis unfolding unfolded P_def [symmetric] using False neg by simp
    next
      case pos: False
      then have "0 \<le> bigint_val b * P" using sb P(1) by simp
      then have "sgn (bigint_val b * P - scaled d) = 1" using False pos by simp
      then show ?thesis unfolding unfolded P_def [symmetric] using False pos by simp
    qed
  next
    case True
    have sd: "scaled d = (if negative b then - (int M * P + int r) else int M * P + int r)"
    proof -
      have "scaled d = (if scaled d < 0 then - \<bar>scaled d\<bar> else \<bar>scaled d\<bar>)" by arith
      then show ?thesis unfolding abs_scaled m True [symmetric] .
    qed
    have "bigint_val b * P - scaled d = (if negative b then - (int ?V * P - (int M * P + int r)) else int ?V * P - (int M * P + int r))"
      unfolding sd by (simp add: bigint_val_def signed_def)
    then have "sgn (bigint_val b * 2 ^ 1074 - scaled d) =
        (if negative b then - (if ?V = M then (if r = 0 then 0 else -1) else sgn (int ?V - int M))
         else (if ?V = M then (if r = 0 then 0 else -1) else sgn (int ?V - int M)))"
      unfolding P_def [symmetric] key [symmetric] by (simp add: sgn_minus [symmetric] del: sgn_minus)
    then show ?thesis unfolding unfolded using True by (auto simp: Let_def sgn_if)
  qed
qed

subsection \<open>An integral double as a BigInt\<close>

text \<open>The loop over the 64 bits of the significand.\<close>

fun place_bits :: "u64 \<Rightarrow> nat \<Rightarrow> nat \<Rightarrow> u32 list \<Rightarrow> u32 list" where
  "place_bits significand offset 0 ls = ls"
| "place_bits significand offset (Suc index) ls =
     (let ls = place_bits significand offset index ls
      in if drop_bit index significand AND 1 = 0 then ls
         else let b = offset + index
              in ls[b div BIGINT_BITS := (ls ! (b div BIGINT_BITS)) OR push_bit (b mod BIGINT_BITS) 1])"

definition bigint_from_integral_number :: "double \<Rightarrow> (rt_error + bigint, 'c) run" where
  "bigint_from_integral_number number =
     (if dbl_eq number dbl_zero then small_bigint False 0
      else
        let neg = dbl_less number dbl_zero;
            magnitude = (if neg then dbl_neg number else number)
        in case frexp magnitude of (fraction, exponent) \<Rightarrow>
          let significand = (of_nat (dbl_to_nat (ldexp fraction 53)) :: u64);
              shift = exponent - 53;
              (significand, shift) =
                (if shift < 0 then (drop_bit (nat (- shift)) significand, 0) else (significand, shift));
              offset = nat shift;
              length = nat exponent div BIGINT_BITS + 1
          in after (allocate_limbs length) (\<lambda>block. case block of
               None \<Rightarrow> give (Inl allocation_failure)
             | Some ls \<Rightarrow> publish_bigint neg (place_bits significand offset 64 ls)))"

lemma length_place_bits [simp]: "length (place_bits S off n ls) = length ls"
  by (induction n) (simp_all add: Let_def)

lemma place_bits_correct:
  assumes "unat S * 2 ^ off < 2 ^ (30 * len)"
  shows "limbs_val (place_bits S off n (replicate len 0)) = unat S mod 2 ^ n * 2 ^ off
    \<and> limbs_ok (place_bits S off n (replicate len 0))"
proof (induction n)
  case (Suc n)
  let ?p = "place_bits S off n (replicate len 0)" and ?b = "off + n"
  have IH: "limbs_val ?p = unat S mod 2 ^ n * 2 ^ off" "limbs_ok ?p" using Suc by simp_all
  have bit: "drop_bit n S AND 1 = 0 \<longleftrightarrow> even (unat S div 2 ^ n)" using bit_word_odd [of n S] by simp
  have m: "unat S mod 2 ^ Suc n = 2 ^ n * (unat S div 2 ^ n mod 2) + unat S mod 2 ^ n"
    unfolding power_Suc2 by (rule mod_mult2_eq)
  show ?case
  proof (cases "even (unat S div 2 ^ n)")
    case True
    then have "unat S mod 2 ^ Suc n = unat S mod 2 ^ n" unfolding m by simp
    with True IH bit show ?thesis by (simp add: Let_def)
  next
    case False
    let ?q = "?p[?b div 30 := (?p ! (?b div 30)) OR push_bit (?b mod 30) 1]"
    have "unat S div 2 ^ n \<noteq> 0" using False by (metis even_zero)
    then have "2 ^ n \<le> unat S" by (metis div_less not_le)
    then have "2 ^ n * 2 ^ off \<le> unat S * 2 ^ off" by (rule mult_right_mono) simp
    from le_less_trans [OF this assms] have "(2::nat) ^ ?b < 2 ^ (30 * len)"
      by (simp only: power_add mult.commute [of "2 ^ off"])
    then have "?b < 30 * len" by (simp only: power_strict_increasing_iff)
    then have i: "?b div 30 < length ?p" by (simp add: less_mult_imp_div_less mult.commute)
    have "limbs_val ?p < 2 ^ n * 2 ^ off" unfolding IH(1) by (rule mult_strict_right_mono) simp_all
    then have "limbs_val ?p < 2 ^ ?b" by (simp add: power_add mult.commute)
    then have "even (limbs_val ?p div 2 ^ ?b)" by simp
    from set_limb_bit [OF IH(2) i this] have q: "limbs_val ?q = limbs_val ?p + 2 ^ ?b" "limbs_ok ?q" .
    have "unat S mod 2 ^ Suc n = 2 ^ n + unat S mod 2 ^ n"
      using False unfolding m by (simp add: odd_iff_mod_2_eq_one)
    then have "limbs_val ?q = unat S mod 2 ^ Suc n * 2 ^ off"
      unfolding q(1) IH(1) by (simp add: power_add algebra_simps)
    moreover have "place_bits S off (Suc n) (replicate len 0) = ?q" using False bit by (simp add: Let_def)
    ultimately show ?thesis using q(2) by simp
  qed
qed simp

text \<open>An integral double is converted exactly, whatever its sign and size.\<close>

lemma integral_frexp:
  assumes d: "isfinite d" "magnitude_of d = M * 2 ^ 1074" "M \<noteq> 0"
  obtains fr ex where "frexp d = (fr, ex)" "ex = int (nbits M)" "dbl_to_nat (ldexp fr 53) < 2 ^ 53"
    "if ex - 53 < 0 then dbl_to_nat (ldexp fr 53) div 2 ^ nat (- (ex - 53)) = M
     else dbl_to_nat (ldexp fr 53) * 2 ^ nat (ex - 53) = M"
proof -
  have "1 * 2 ^ 1074 \<le> magnitude_of d" unfolding d(2) using d(3) by (intro mult_right_mono) simp_all
  then have e: "1023 \<le> dbl_exp d" using large_exp by simp
  have e': "0 < dbl_exp d" "dbl_exp d < 2047" using e d(1) dbl_field_bounds(1) [of d] by (auto simp: isfinite_def)
  note f = frexp_significand [OF e'] and v = integral_value [OF e'(1) d(2) e]
  obtain fr ex where fe: "frexp d = (fr, ex)" by (cases "frexp d")
  have ex: "ex = int (nbits M)" "ex - 53 = int (dbl_exp d) - 1075" using f(1) v(2) e fe by simp_all
  have sg: "dbl_to_nat (ldexp fr 53) = 2 ^ 52 + dbl_frac d" using f(2) fe by simp
  show thesis
  proof (rule that [OF fe ex(1)])
    show "dbl_to_nat (ldexp fr 53) < 2 ^ 53" unfolding sg using dbl_field_bounds_num(2) [of d] by simp
    show "if ex - 53 < 0 then dbl_to_nat (ldexp fr 53) div 2 ^ nat (- (ex - 53)) = M
       else dbl_to_nat (ldexp fr 53) * 2 ^ nat (ex - 53) = M"
      unfolding sg ex(2) using v(1) by (simp split: if_splits)
  qed
qed

lemma bigint_from_integral_number_fits:
  assumes d: "isfinite d" "scaled d = n * 2 ^ 1074"
  shows "delivers (bigint_from_integral_number d :: (rt_error + bigint, 'c) run) (fits n)"
proof -
  have fin: "\<not> isnan d" using d(1) by (simp add: isfinite_iff)
  have zero: "dbl_eq d dbl_zero \<longleftrightarrow> n = 0" using fin d(2) by (simp add: dbl_eq_def)
  have neg: "dbl_less d dbl_zero \<longleftrightarrow> n < 0" using fin d(2) by (simp add: dbl_less_def mult_less_0_iff)
  show ?thesis
  proof (cases "n = 0")
    case True
    then show ?thesis unfolding bigint_from_integral_number_def using zero delivers_zero by simp
  next
    case False
    let ?m = "if n < 0 then dbl_neg d else d" and ?M = "nat \<bar>n\<bar>"
    have "int (magnitude_of d) = int ?M * 2 ^ 1074"
      using abs_scaled [of d] unfolding d(2) abs_mult by simp
    then have "int (magnitude_of d) = int (?M * 2 ^ 1074)" by (simp only: of_nat_mult of_nat_power of_nat_numeral)
    then have "magnitude_of d = ?M * 2 ^ 1074" by (simp only: of_nat_eq_iff)
    then have m: "isfinite ?m" "magnitude_of ?m = ?M * 2 ^ 1074" "?M \<noteq> 0" using d(1) False by auto
    obtain fr ex where fe: "frexp ?m = (fr, ex)" "ex = int (nbits ?M)" "dbl_to_nat (ldexp fr 53) < 2 ^ 53"
      "if ex - 53 < 0 then dbl_to_nat (ldexp fr 53) div 2 ^ nat (- (ex - 53)) = ?M
       else dbl_to_nat (ldexp fr 53) * 2 ^ nat (ex - 53) = ?M"
      using integral_frexp [OF m] .
    define S :: u64 where "S = of_nat (dbl_to_nat (ldexp fr 53))"
    have S: "unat S = dbl_to_nat (ldexp fr 53)" using fe(3) by (simp add: S_def unat_of_nat)
    obtain T off where T: "(if ex - 53 < 0 then (drop_bit (nat (- (ex - 53))) S, 0) else (S, ex - 53)) = (T, off)"
      by fastforce
    have val: "unat T * 2 ^ nat off = ?M"
      using T fe(4) S by (auto simp: unat_drop_bit split: if_splits)
    have T64: "unat T mod 2 ^ 64 = unat T" using unsigned_less [where ?'a = nat, of T] by simp
    let ?len = "nat ex div 30 + 1"
    have "nbits ?M \<le> 30 * ?len" using fe(2) by simp
    then have bound: "unat T * 2 ^ nat off < 2 ^ (30 * ?len)" unfolding val by (simp only: nbits_le_iff)
    let ?out = "place_bits T (nat off) 64 (replicate ?len 0)"
    have out: "limbs_val ?out = ?M" "limbs_ok ?out" "length ?out = ?len"
      using place_bits_correct [OF bound, of 64] val T64 by simp_all
    have "0 < length ?out" unfolding out(3) by simp
    then have ne: "?out \<noteq> []" by (rule length_greater_0_conv [THEN iffD1])
    have len: "0 < ?len" "?len \<le> SIZE_MAX div 4"
    proof -
      have "magnitude_of ?m < 2 ^ 53 * 2 ^ (dbl_exp ?m - 1)"
        unfolding magnitude_of_def using significand_less [of ?m] by (rule mult_strict_right_mono) simp
      also have "\<dots> \<le> 2 ^ 53 * 2 ^ 2046" using dbl_field_bounds(1) [of ?m] by (intro mult_left_mono power_increasing) auto
      finally have "?M * 2 ^ 1074 < 2 ^ 1025 * 2 ^ 1074" unfolding m(2) power_add [symmetric] by simp
      then have "?M < 2 ^ 1025" by (simp only: mult_less_cancel2)
      then have "nbits ?M \<le> 1025" by (simp only: nbits_le_iff)
      then show "?len \<le> SIZE_MAX div 4" using fe(2) by (simp add: SIZE_MAX_def)
    qed simp
    have nz: "\<not> dbl_eq d dbl_zero" using zero False by simp
    have "n = signed (n < 0) (limbs_val ?out)" using out(1) by (simp add: signed_def)
    then have pub: "delivers (publish_bigint (n < 0) ?out :: (rt_error + bigint, 'c) run) (fits n)"
      using publish_bigint_fits [OF out(2) ne, of "n < 0"] by simp
    show ?thesis
      unfolding bigint_from_integral_number_def if_not_P [OF nz] neg Let_def fe(1) prod.case S_def [symmetric] T BIGINT_BITS_eq
      by (rule computes_after [OF builds_allocate [OF len], where g = "\<lambda>_. Inl allocation_failure"])
         (use pub in \<open>auto simp: refused_block_def refused_with_def bigint_refusals_def\<close>)
  qed
qed

subsection \<open>Digits to double\<close>

definition digit_of_unit :: "u16 \<Rightarrow> u32 option" where
  "digit_of_unit unit =
     (if unit \<ge> 0x30 \<and> unit \<le> 0x39 then Some (ucast (unit - 0x30))
      else if unit \<ge> 0x61 \<and> unit \<le> 0x7a then Some (ucast (unit - 0x61) + 10)
      else if unit \<ge> 0x41 \<and> unit \<le> 0x5a then Some (ucast (unit - 0x41) + 10)
      else None)"

definition NUMBER_LIMBS :: nat where
  "NUMBER_LIMBS = (1024 + 30) div 30"

definition dbl_nan :: double where
  "dbl_nan = make_double False 2047 (2 ^ 51)"

fun integer_digits_loop :: "u16 list \<Rightarrow> u32 \<Rightarrow> u32 list \<Rightarrow> double" where
  "integer_digits_loop [] radix ls = magnitude_to_number ls False"
| "integer_digits_loop (unit # units) radix ls =
     (case digit_of_unit unit of
        None \<Rightarrow> dbl_nan
      | Some digit \<Rightarrow>
          if digit \<ge> radix then dbl_nan
          else case scale_add ls radix (ucast digit) of (out, carry) \<Rightarrow>
            if carry \<noteq> 0 \<and> length ls \<ge> NUMBER_LIMBS then INFINITY
            else let ls = (if carry \<noteq> 0 then out @ [ucast carry] else out)
                 in if magnitude_bits ls > 1024 then INFINITY
                    else integer_digits_loop units radix ls)"

definition integer_digits_to_number :: "u16 list \<Rightarrow> u32 \<Rightarrow> double" where
  "integer_digits_to_number units radix = integer_digits_loop units radix [0]"

definition valid_digits :: "u32 \<Rightarrow> u16 list \<Rightarrow> bool" where
  "valid_digits radix units \<longleftrightarrow>
     list_all (\<lambda>u. case digit_of_unit u of None \<Rightarrow> False | Some d \<Rightarrow> d < radix) units"

definition unit_digits :: "u16 list \<Rightarrow> nat list" where
  "unit_digits units = map (\<lambda>u. case digit_of_unit u of None \<Rightarrow> 0 | Some d \<Rightarrow> unat d) units"

lemma double_of_nat_overflow: "1024 < nbits n \<Longrightarrow> double_of_nat n = INFINITY"
  by (auto simp: double_of_nat_def Let_def)

lemma push_digit_fst:
  "scale_add ls r (ucast d) = (out, c) \<Longrightarrow> push_digit ls r d = (if c \<noteq> 0 then out @ [ucast c] else out)"
  by (simp add: push_digit_def)

lemma integer_digits_loop_correct:
  assumes radix: "2 \<le> unat r" "unat r \<le> 36"
  shows "valid_digits r units \<Longrightarrow> limbs_ok ls \<Longrightarrow> ls \<noteq> [] \<Longrightarrow> trimmed ls \<Longrightarrow>
    integer_digits_loop units r ls =
      double_of_nat (limbs_val ls * unat r ^ length units + digits_val (unat r) (unit_digits units))"
proof (induction units arbitrary: ls)
  case Nil
  then show ?case by (simp add: magnitude_to_number_correct unit_digits_def double_of_nat_def)
next
  case (Cons u us)
  obtain d where d: "digit_of_unit u = Some d" "d < r"
    using Cons.prems(1) by (auto simp: valid_digits_def split: option.splits)
  have du: "unat d < unat r" using d(2) by (simp add: word_less_nat_alt)
  have us: "valid_digits r us" using Cons.prems(1) by (simp add: valid_digits_def)
  let ?ls = "push_digit ls r d"
  note p = push_digit_correct [OF Cons.prems(2) radix(2) du]
  have tr: "trimmed ?ls" using trimmed_push_digit [OF Cons.prems(2,4) radix(2) du] .
  have ne: "?ls \<noteq> []" using tr by (simp add: trimmed_def)
  let ?total = "limbs_val ls * unat r ^ length (u # us) + digits_val (unat r) (unit_digits (u # us))"
  have total: "?total = limbs_val ?ls * unat r ^ length us + digits_val (unat r) (unit_digits us)"
    by (simp add: p(1) unit_digits_def d(1) digits_val_Cons algebra_simps)
  have "1 \<le> unat r ^ length us" using radix(1) by simp
  then have ge: "limbs_val ?ls \<le> ?total" unfolding total by (simp add: trans_le_add1)
  obtain out c where s: "scale_add ls r (ucast d) = (out, c)" by (cases "scale_add ls r (ucast d)")
  have step: "integer_digits_loop (u # us) r ls =
      (if c \<noteq> 0 \<and> length ls \<ge> NUMBER_LIMBS then INFINITY
       else if magnitude_bits ?ls > 1024 then INFINITY else integer_digits_loop us r ?ls)"
  proof -
    have nd: "\<not> d \<ge> r" using d(2) by simp
    show ?thesis
      unfolding integer_digits_loop.simps d(1) option.case if_not_P [OF nd] s prod.case Let_def push_digit_fst [OF s] ..
  qed
  have bits: "magnitude_bits ?ls = nbits (limbs_val ?ls)" using p(2) ne by (rule magnitude_bits_nbits)
  show ?case
  proof (cases "nbits (limbs_val ?ls) > 1024")
    case True
    then have "1024 < nbits ?total" using nbits_mono [OF ge] by simp
    then show ?thesis unfolding step bits using True double_of_nat_overflow by simp
  next
    case False
    have room: "\<not> (c \<noteq> 0 \<and> length ls \<ge> NUMBER_LIMBS)"
    proof
      assume a: "c \<noteq> 0 \<and> length ls \<ge> NUMBER_LIMBS"
      then have "length ?ls = Suc (length ls)" using p(3) s by simp
      then have "1 < length ?ls" "1024 \<le> 30 * (length ?ls - 1)" using a by (auto simp: NUMBER_LIMBS_def)
      then have l: "1 < length ?ls" and m: "1024 \<le> 30 * (length ?ls - 1)" by simp_all
      have "(2::nat) ^ 1024 \<le> 2 ^ (30 * (length ?ls - 1))" using m by (rule power_increasing) simp
      from this trimmed_lower [OF tr l] have "2 ^ 1024 \<le> limbs_val ?ls" by (rule order.trans)
      then have "1024 < nbits (limbs_val ?ls)" by (simp only: nbits_less_iff)
      with False show False by simp
    qed
    have "integer_digits_loop (u # us) r ls = integer_digits_loop us r ?ls"
      unfolding step bits if_not_P [OF room] if_not_P [OF False] ..
    also have "\<dots> = double_of_nat ?total" unfolding total by (rule Cons.IH [OF us p(2) ne tr])
    finally show ?thesis .
  qed
qed

subsection \<open>Doubles that hold an integer\<close>

lemma round_even_multiple: "round_even (S * 2 ^ s) s = S"
  by (simp add: round_even_def Let_def)

lemma double_of_nat_of_integral:
  assumes fin: "isfinite d" and sign: "\<not> dbl_sign d" and M: "magnitude_of d = M * 2 ^ 1074" "M \<noteq> 0"
  shows "double_of_nat M = d"
proof (cases "nbits M \<le> 53")
  case True
  then have "M < 2 ^ 53" by (simp only: nbits_le_iff)
  note exact = double_of_nat_exact [OF this]
  have "scaled d = int M * 2 ^ 1074" using sign M(1) by (simp add: scaled_magnitude)
  moreover have "int M * 2 ^ 1074 \<noteq> 0" using M(2) by simp
  ultimately show ?thesis using exact(1) by (intro scaled_inj) simp_all
next
  case False
  have "1 * 2 ^ 1074 \<le> M * 2 ^ 1074" using M(2) by (intro mult_right_mono) simp_all
  then have e: "1023 \<le> dbl_exp d" using M(1) large_exp [of d] by simp
  then have "0 < dbl_exp d" by simp
  note v = integral_value [OF this M(1) e]
  define s where "s = nbits M - 53"
  have s: "0 \<le> int (dbl_exp d) - 1075" "nat (int (dbl_exp d) - 1075) = s"
    using v(2) False e by (simp_all add: s_def)
  have f: "dbl_frac d < 2 ^ 52" using dbl_field_bounds_num(2) [of d] by simp
  have MS: "M = (2 ^ 52 + dbl_frac d) * 2 ^ s" using v(1) s by simp
  have q: "round_even M (nbits M - 53) = 2 ^ 52 + dbl_frac d"
    unfolding s_def [symmetric] by (subst MS) (rule round_even_multiple)
  have b: "dbl_exp d \<le> 2046" using fin dbl_field_bounds_num(1) [of d] by (simp add: isfinite_def)
  have k: "1022 + nbits M = dbl_exp d" using v(2) e by simp
  have over: "\<not> (2046 < dbl_exp d \<or> 2046 = dbl_exp d \<and> 2 ^ 53 \<le> 2 ^ 52 + dbl_frac d)" using b f by simp
  have small: "\<not> (2::nat) ^ 53 \<le> 2 ^ 52 + dbl_frac d" using f by simp
  have "double_of_nat M = significand_double (2 ^ 52 + dbl_frac d) (dbl_exp d)"
    unfolding double_of_nat_def Let_def if_not_P [OF M(2)] if_not_P [OF False] q k if_not_P [OF over] ..
  also have "\<dots> = make_double False (dbl_exp d) (dbl_frac d)"
    unfolding significand_double_def if_not_P [OF small] by simp
  also have "\<dots> = d"
  proof (rule double_eqI)
    have "dbl_exp d < 2048" using b by simp
    note m = make_double_fields [OF this f]
    show "dbl_sign (make_double False (dbl_exp d) (dbl_frac d)) = dbl_sign d"
      "dbl_exp (make_double False (dbl_exp d) (dbl_frac d)) = dbl_exp d"
      "dbl_frac (make_double False (dbl_exp d) (dbl_frac d)) = dbl_frac d"
      using m sign by simp_all
  qed
  finally show ?thesis .
qed

lemma bigint_to_number_val:
  assumes "bigint_ok b"
  shows "bigint_to_number b =
    (if bigint_val b < 0 then dbl_neg (double_of_nat (nat \<bar>bigint_val b\<bar>)) else double_of_nat (nat \<bar>bigint_val b\<bar>))"
proof -
  have n: "nat \<bar>bigint_val b\<bar> = limbs_val (limbs b)" by (simp add: bigint_val_def)
  have s: "negative b \<longleftrightarrow> bigint_val b < 0" using assms by (simp add: bigint_okD)
  have "bigint_val b < 0 \<Longrightarrow> limbs_val (limbs b) \<noteq> 0" by (simp add: n [symmetric])
  then show ?thesis
    using magnitude_to_number_correct [OF bigint_okD(1) [OF assms] bigint_okD(3) [OF assms], of "negative b"] s
    unfolding n bigint_to_number_def by (auto simp: double_of_nat_def)
qed

lemma bigint_to_number_near:
  assumes b: "bigint_ok b" and fin: "isfinite (bigint_to_number b)"
  defines "N \<equiv> bigint_val b * 2 ^ 1074"
  shows "\<bar>scaled (bigint_to_number b) - N\<bar> \<le> \<bar>scaled d - N\<bar> \<and>
    (\<bar>scaled (bigint_to_number b) - N\<bar> = \<bar>scaled d - N\<bar> \<longrightarrow>
       scaled d = scaled (bigint_to_number b) \<or> even (dbl_frac (bigint_to_number b)))"
proof (cases "bigint_val b < 0")
  case True
  define x where "x = double_of_nat (nat \<bar>bigint_val b\<bar>)"
  have t: "bigint_to_number b = dbl_neg x" using bigint_to_number_val [OF b] True by (simp add: x_def)
  have "isfinite x" using fin by (simp add: t)
  note near = double_of_nat_near [OF this [unfolded x_def], folded x_def, of "dbl_neg d"]
  have N: "int (nat \<bar>bigint_val b\<bar>) * 2 ^ 1074 = - N" using True by (simp add: N_def)
  have s: "scaled (dbl_neg x) = - scaled x" "scaled (dbl_neg d) = - scaled d" "dbl_frac (dbl_neg x) = dbl_frac x"
    by simp_all
  have flip: "\<bar>u - (- v)\<bar> = \<bar>- u - v\<bar>" "\<bar>- u - (- v)\<bar> = \<bar>u - v\<bar>" for u v :: int by linarith+
  have neq: "- v \<noteq> u \<longleftrightarrow> v \<noteq> - u" for u v :: int by linarith
  show ?thesis unfolding t s using near unfolding N s flip neq minus_minus by blast
next
  case False
  then have t: "bigint_to_number b = double_of_nat (nat \<bar>bigint_val b\<bar>)" using bigint_to_number_val [OF b] by simp
  have N: "int (nat \<bar>bigint_val b\<bar>) * 2 ^ 1074 = N" using False by (simp add: N_def)
  from double_of_nat_near [OF fin [unfolded t], of d] show ?thesis unfolding t N by blast
qed

lemma bigint_to_number_of_double:
  assumes b: "bigint_ok b" and d: "isfinite d" "scaled d = bigint_val b * 2 ^ 1074" "bigint_val b = 0 \<longrightarrow> d = dbl_zero"
  shows "bigint_to_number b = d"
proof (cases "bigint_val b = 0")
  case True
  then show ?thesis using d(3) bigint_to_number_val [OF b] by (simp add: double_of_nat_def)
next
  case False
  define M where "M = nat \<bar>bigint_val b\<bar>"
  have M: "M \<noteq> 0" using False by (simp add: M_def)
  have "int (magnitude_of d) = int (M * 2 ^ 1074)" unfolding abs_scaled [symmetric] d(2) M_def by (simp add: abs_mult)
  then have m: "magnitude_of d = M * 2 ^ 1074" by (simp only: of_nat_eq_iff)
  have "scaled d < 0 \<longleftrightarrow> bigint_val b < 0" unfolding d(2) by (simp add: mult_less_0_iff)
  moreover have "scaled d \<noteq> 0" using d(2) False by simp
  ultimately have sign: "dbl_sign d \<longleftrightarrow> bigint_val b < 0"
    by (auto simp: scaled_magnitude split: if_splits)
  show ?thesis
  proof (cases "dbl_sign d")
    case True
    have "double_of_nat M = dbl_neg d" using d(1) m M True by (intro double_of_nat_of_integral) simp_all
    then have "dbl_neg (double_of_nat M) = d" by (simp add: double_eqI)
    then show ?thesis using bigint_to_number_val [OF b] True sign by (simp only: M_def [symmetric] if_P)
  next
    case False
    then show ?thesis using bigint_to_number_val [OF b] sign double_of_nat_of_integral [OF d(1) _ m M] by (simp add: M_def)
  qed
qed

lemma bigint_to_number_finite:
  assumes "bigint_ok b"
  shows "isfinite (bigint_to_number b) \<longleftrightarrow> \<bar>bigint_val b\<bar> < 2 ^ 1024 - 2 ^ 970"
proof -
  have "isfinite (bigint_to_number b) \<longleftrightarrow> isfinite (double_of_nat (nat \<bar>bigint_val b\<bar>))"
    by (subst bigint_to_number_val [OF assms]) simp
  also have "\<dots> \<longleftrightarrow> int (nat \<bar>bigint_val b\<bar>) < int (2 ^ 1024 - 2 ^ 970)"
    unfolding double_of_nat_finite by (simp only: of_nat_less_iff)
  also have "int (nat \<bar>bigint_val b\<bar>) = \<bar>bigint_val b\<bar>" by simp
  also have "int (2 ^ 1024 - 2 ^ 970) = 2 ^ 1024 - 2 ^ 970" by simp
  finally show ?thesis .
qed

lemma integral_double_fits:
  assumes "isfinite d" "scaled d = n * 2 ^ 1074"
  shows "nbits (nat \<bar>n\<bar>) \<le> 1024"
proof (cases "n = 0")
  case False
  define M where "M = nat \<bar>n\<bar>"
  have M: "M \<noteq> 0" using False by (simp add: M_def)
  have "int (magnitude_of d) = int (M * 2 ^ 1074)" unfolding abs_scaled [symmetric] assms(2) M_def by (simp add: abs_mult)
  then have m: "magnitude_of d = M * 2 ^ 1074" by (simp only: of_nat_eq_iff)
  have "1 * 2 ^ 1074 \<le> M * 2 ^ 1074" using M by (intro mult_right_mono) simp_all
  then have e: "1023 \<le> dbl_exp d" using m large_exp [of d] by simp
  then have "nbits M = dbl_exp d - 1022" using integral_value(2) [OF _ m e] by simp
  moreover have "dbl_exp d \<le> 2046" using assms(1) dbl_field_bounds_num(1) [of d] by (simp add: isfinite_def)
  ultimately show ?thesis by (simp add: M_def)
qed simp

lemma bigint_number_trip:
  assumes "isfinite d" "scaled d = n * 2 ^ 1074"
  shows "delivers (bigint_from_integral_number d :: (rt_error + bigint, 'c) run) (Inr (bigint_of n))"
    and "bigint_to_number (bigint_of n) = (if n = 0 then dbl_zero else d)"
proof -
  have n: "nbits (nat \<bar>n\<bar>) \<le> BIGINT_MAX_BITS"
    using integral_double_fits [OF assms] by (simp add: BIGINT_MAX_BITS_def)
  have f: "fits n = Inr (bigint_of n)" using n by (simp add: fits_def)
  show "delivers (bigint_from_integral_number d :: (rt_error + bigint, 'c) run) (Inr (bigint_of n))"
    using bigint_from_integral_number_fits [OF assms] unfolding f .
  have ok: "bigint_ok (bigint_of n)" using n by (rule bigint_ok_of)
  show "bigint_to_number (bigint_of n) = (if n = 0 then dbl_zero else d)"
  proof (cases "n = 0")
    case True
    then show ?thesis using bigint_to_number_val [OF ok] by (simp add: double_of_nat_def)
  next
    case False
    then show ?thesis using bigint_to_number_of_double [OF ok assms(1)] assms(2) by simp
  qed
qed

end
