(* ===== verification/BigInt_Width.thy ===== *)
theory BigInt_Width
  imports BigInt_Convert
begin

text \<open>
  Fixed widths (\<open>runtime_bigint.c\<close>): \<open>BigInt.asIntN\<close> and \<open>BigInt.asUintN\<close>, and the raw 64-bit
  forms that typed arrays and atomics store.
\<close>

subsection \<open>The raw 64-bit forms\<close>

fun raw_loop :: "u32 list \<Rightarrow> nat \<Rightarrow> u64 \<Rightarrow> u64" where
  "raw_loop ls 0 magnitude = magnitude"
| "raw_loop ls (Suc i) magnitude = raw_loop ls i (push_bit BIGINT_BITS magnitude OR ucast (ls ! i))"

definition bigint_to_raw_uint64 :: "bigint \<Rightarrow> u64" where
  "bigint_to_raw_uint64 b =
     (let limit = (if length (limbs b) < 3 then length (limbs b) else 3);
          magnitude = raw_loop (limbs b) limit 0
      in if negative b then 0 - magnitude else magnitude)"

definition bigint_from_uint64 :: "u64 \<Rightarrow> bool \<Rightarrow> (rt_error + bigint, 'c) run" where
  "bigint_from_uint64 magnitude neg =
     publish_bigint neg
       [ucast (magnitude AND ucast BIGINT_MASK),
        ucast (drop_bit BIGINT_BITS magnitude AND ucast BIGINT_MASK),
        ucast (drop_bit BIGINT_BITS (drop_bit BIGINT_BITS magnitude) AND ucast BIGINT_MASK)]"

lemma joined_limb_mod:
  assumes "unat (x :: u32) < 2 ^ 30"
  shows "push_bit 30 (m :: u64) OR ucast x = m * 2 ^ 30 + ucast x"
proof -
  have "push_bit 30 m AND ucast x = 0"
  proof (rule and_zeroI)
    fix n
    assume h: "bit (push_bit 30 m) n" "bit (ucast x :: u64) n"
    have "n < 30" by (rule bit_small [of "ucast x :: u64"]) (use h(2) assms in simp_all)
    with h(1) show False by (simp add: bit_push_bit_iff)
  qed
  then show ?thesis by (simp add: disjunctive_add_eq_or [symmetric] push_bit_eq_mult)
qed

lemma raw_loop_correct:
  "limbs_ok ls \<Longrightarrow> n \<le> length ls \<Longrightarrow> raw_loop ls n m = m * 2 ^ (30 * n) + of_nat (limbs_val (take n ls))"
proof (induction n arbitrary: m)
  case (Suc n)
  have x: "unat (ls ! n) < 2 ^ 30" using Suc.prems by (intro limbs_ok_nth) auto
  have "raw_loop ls (Suc n) m = (m * 2 ^ 30 + ucast (ls ! n)) * 2 ^ (30 * n) + of_nat (limbs_val (take n ls))"
    unfolding raw_loop.simps BIGINT_BITS_eq joined_limb_mod [OF x] using Suc by simp
  also have "(ucast (ls ! n) :: u64) = of_nat (unat (ls ! n))" by simp
  also have "(m * 2 ^ 30 + of_nat (unat (ls ! n))) * 2 ^ (30 * n) + of_nat (limbs_val (take n ls))
      = m * 2 ^ (30 * Suc n) + of_nat (limbs_val (take (Suc n) ls))"
    using Suc.prems by (simp add: take_Suc_conv_app_nth limbs_val_append power_add algebra_simps)
  finally show ?case .
qed simp

lemma u64_high_zero: "(of_nat (2 ^ 90 * n) :: u64) = 0"
proof -
  have "(2::nat) ^ 90 * n = 2 ^ 64 * (2 ^ 26 * n)" by simp
  then have "2 ^ 64 dvd (2::nat) ^ 90 * n" by (rule dvdI)
  then show ?thesis using of_nat_eq_0_iff by (simp only: word_of_nat_eq_0_iff) simp
qed

lemma bigint_to_raw_uint64_val:
  assumes "bigint_ok b"
  shows "uint (bigint_to_raw_uint64 b) = bigint_val b mod 2 ^ 64"
proof -
  let ?V = "limbs_val (limbs b)" and ?n = "if length (limbs b) < 3 then length (limbs b) else 3"
  have ok: "limbs_ok (limbs b)" using assms by (simp add: bigint_okD)
  have "raw_loop (limbs b) ?n 0 = of_nat (limbs_val (take ?n (limbs b)))"
    using raw_loop_correct [OF ok, of ?n 0] by simp
  also have "\<dots> = of_nat ?V"
  proof (cases "length (limbs b) < 3")
    case False
    then have "?V = limbs_val (take 3 (limbs b)) + 2 ^ 90 * limbs_val (drop 3 (limbs b))"
      using limbs_val_take_drop [of "limbs b" 3] by (simp add: min_absorb1)
    then show ?thesis using False u64_high_zero by (simp only: of_nat_add) simp
  qed simp
  finally have "bigint_to_raw_uint64 b = of_int (bigint_val b)"
    unfolding bigint_to_raw_uint64_def Let_def by (simp add: bigint_val_def signed_def)
  then show ?thesis by (simp add: uint_word_of_int)
qed

lemma three_limbs:
  fixes u :: nat
  assumes "u < 2 ^ 64"
  shows "u mod 2 ^ 30 + 2 ^ 30 * (u div 2 ^ 30 mod 2 ^ 30 + 2 ^ 30 * (u div 2 ^ 30 div 2 ^ 30 mod 2 ^ 30)) = u"
proof -
  have "u div 2 ^ 30 div 2 ^ 30 < 2 ^ 30"
    by (intro less_mult_imp_div_less) (use assms in simp)
  then have "u div 2 ^ 30 mod 2 ^ 30 + 2 ^ 30 * (u div 2 ^ 30 div 2 ^ 30 mod 2 ^ 30) = u div 2 ^ 30" by simp
  then show ?thesis by simp
qed

lemma bigint_from_uint64_fits: "delivers (bigint_from_uint64 u neg) (fits (signed neg (unat u)))"
proof -
  let ?ls = "[limb_of u, limb_of (carry_of u), limb_of (carry_of (carry_of u))]"
  have v: "limbs_val ?ls = unat u"
    using three_limbs [of "unat u"] unsigned_less [where ?'a = nat, of u] by simp
  have "limbs_ok ?ls" "?ls \<noteq> []" by simp_all
  from publish_bigint_fits [OF this, of neg] show ?thesis
    unfolding v by (simp only: bigint_from_uint64_def limb_of_def carry_of_def BIGINT_BITS_eq)
qed

subsection \<open>Wrapping to a width\<close>

text \<open>\<open>width_complement\<close>: every limb inverted, the top limb masked, and one added.\<close>

fun carry_loop :: "u32 list \<Rightarrow> u32 \<Rightarrow> u32 list" where
  "carry_loop [] carry = []"
| "carry_loop (x # xs) carry =
     (if carry = 0 then x # xs
      else let sum = x + carry in (sum AND BIGINT_MASK) # carry_loop xs (drop_bit BIGINT_BITS sum))"

definition width_complement :: "u32 list \<Rightarrow> nat \<Rightarrow> u32 \<Rightarrow> u32 list" where
  "width_complement ls top_limb top_mask =
     (let ls = map (\<lambda>x. NOT x AND BIGINT_MASK) ls;
          ls = ls[top_limb := ls ! top_limb AND top_mask]
      in carry_loop ls 1)"

text \<open>The block \<open>bigint_as_width_rooted\<close> computes for a width within the operand, and its sign.\<close>

definition wrap_to_width :: "bigint \<Rightarrow> nat \<Rightarrow> bool \<Rightarrow> bool \<times> u32 list" where
  "wrap_to_width integer width signed_result =
     (let top_limb = width div BIGINT_BITS;
          top_bit = width mod BIGINT_BITS;
          top_mask = (if top_bit = 0 then 0 else push_bit top_bit 1 - 1);
          length = top_limb + 1;
          ls = map (\<lambda>i. if i < size (limbs integer) then limbs integer ! i else 0) [0..<length];
          ls = ls[top_limb := ls ! top_limb AND top_mask];
          low_zero = (normalized_length ls length = 1 \<and> ls ! 0 = 0);
          complement = (negative integer \<and> \<not> low_zero);
          ls = (if complement then width_complement ls top_limb top_mask else ls)
      in if signed_result \<and> magnitude_bit ls (width - 1)
         then (True, width_complement ls top_limb top_mask)
         else (False, ls))"

definition bigint_as_width :: "bigint \<Rightarrow> double \<Rightarrow> bool \<Rightarrow> (rt_error + bigint, 'c) run" where
  "bigint_as_width integer bits signed_result =
     (let source_bits = magnitude_bits (limbs integer)
      in if dbl_eq bits dbl_zero then small_bigint False 0
         else if dbl_less (double_of_nat source_bits) bits \<and> (signed_result \<or> \<not> negative integer) then give (Inr integer)
         else if dbl_less (double_of_nat source_bits) bits \<and> dbl_less (double_of_nat BIGINT_MAX_BITS) bits
           then give (Inl bigint_limit_error)
         else
           let width = dbl_to_nat bits
           in after (allocate_limbs (width div BIGINT_BITS + 1)) (\<lambda>block. case block of
                None \<Rightarrow> give (Inl allocation_failure)
              | Some _ \<Rightarrow> (case wrap_to_width integer width signed_result of (neg, ls) \<Rightarrow> publish_bigint neg ls)))"

lemma length_carry_loop [simp]: "length (carry_loop xs c) = length xs"
  by (induction xs c rule: carry_loop.induct) (simp_all add: Let_def)

lemma carry_loop_correct:
  "limbs_ok xs \<Longrightarrow> unat c \<le> 1 \<Longrightarrow>
   limbs_ok (carry_loop xs c) \<and> (\<exists>out. limbs_val (carry_loop xs c) + out * 2 ^ (30 * length xs) = limbs_val xs + unat c)"
proof (induction xs c rule: carry_loop.induct)
  case (1 c)
  then show ?case by (auto intro: exI [of _ "unat c"])
next
  case (2 x xs c)
  show ?case
  proof (cases "c = 0")
    case True
    with 2 show ?thesis by (auto intro: exI [of _ 0])
  next
    case False
    let ?y = "(x + c) AND BIGINT_MASK" and ?d = "drop_bit 30 (x + c)"
    have y: "unat ?y + 2 ^ 30 * unat ?d = unat x + unat c" "unat ?d \<le> 1" "unat ?y < 2 ^ 30"
      by (rule carried_limb; use 2 in simp)+
    obtain out where IH: "limbs_ok (carry_loop xs ?d)"
      "limbs_val (carry_loop xs ?d) + out * 2 ^ (30 * length xs) = limbs_val xs + unat ?d"
      using 2 y(2) False by auto
    have step: "carry_loop (x # xs) c = ?y # carry_loop xs ?d" using False by (simp add: Let_def)
    have "limbs_val (?y # carry_loop xs ?d) + out * 2 ^ (30 * length (x # xs))
        = unat ?y + 2 ^ 30 * (limbs_val (carry_loop xs ?d) + out * 2 ^ (30 * length xs))"
      by (simp add: power_add algebra_simps)
    also have "\<dots> = unat ?y + 2 ^ 30 * unat ?d + 2 ^ 30 * limbs_val xs" unfolding IH(2) by (simp only: distrib_left ac_simps)
    also have "\<dots> = limbs_val (x # xs) + unat c" unfolding y(1) by simp
    finally show ?thesis unfolding step using IH(1) y(3) by auto
  qed
qed

text \<open>Masking the top limb reduces modulo the width.\<close>

lemma mask_top_limb:
  assumes "limbs_ok ls" "length ls = k + 1" "t < 30"
  defines "ls' \<equiv> ls[k := ls ! k AND (if t = 0 then 0 else push_bit t 1 - 1)]"
  shows "limbs_val ls' = limbs_val ls mod 2 ^ (30 * k + t)" and "limbs_ok ls'" and "length ls' = k + 1"
proof -
  have m: "(if t = 0 then 0 else push_bit t 1 - 1 :: u32) = mask t" by (simp add: mask_eq_decr_exp)
  have u: "unat (ls ! k AND mask t) = unat (ls ! k) mod 2 ^ t" by (rule unat_and_mask)
  have x: "unat (ls ! k) < 2 ^ 30" using assms by (intro limbs_ok_nth) auto
  have "unat (ls ! k) mod 2 ^ t < 2 ^ 30" using x by (rule le_less_trans [OF mod_less_eq_dividend])
  then show "limbs_ok ls'" unfolding ls'_def m using assms(1) u by simp
  show "length ls' = k + 1" using assms(2) by (simp add: ls'_def)
  have split: "ls = take k ls @ [ls ! k]" using assms(2) by (metis take_Suc_conv_app_nth take_all less_add_one Suc_eq_plus1 order_refl)
  have V: "limbs_val ls = limbs_val (take k ls) + 2 ^ (30 * k) * unat (ls ! k)"
    using assms(2) by (subst split) (simp add: limbs_val_append)
  have lo: "limbs_val (take k ls) < 2 ^ (30 * k)" using limbs_val_bound [of "take k ls"] assms by simp
  have "ls' = take k ls @ [ls ! k AND mask t]" unfolding ls'_def m using assms(2) by (subst split) (simp add: list_update_append)
  then have "limbs_val ls' = limbs_val (take k ls) + 2 ^ (30 * k) * (unat (ls ! k) mod 2 ^ t)"
    using assms(2) by (simp add: limbs_val_append u)
  also have "\<dots> = limbs_val ls mod 2 ^ (30 * k + t)"
    unfolding V power_add mod_mult2_eq using lo by simp
  finally show "limbs_val ls' = limbs_val ls mod 2 ^ (30 * k + t)" .
qed

lemma inverted_limbs:
  "limbs_ok ls \<Longrightarrow> limbs_val (map (\<lambda>x. NOT x AND BIGINT_MASK) ls) + limbs_val ls + 1 = 2 ^ (30 * length ls)
     \<and> limbs_ok (map (\<lambda>x. NOT x AND BIGINT_MASK) ls)"
proof (induction ls)
  case (Cons x xs)
  have x: "unat x < 2 ^ 30" using Cons by simp
  have IH: "limbs_val (map (\<lambda>x. NOT x AND BIGINT_MASK) xs) + limbs_val xs + 1 = 2 ^ (30 * length xs)"
    "limbs_ok (map (\<lambda>x. NOT x AND BIGINT_MASK) xs)" using Cons by simp_all
  have "unat (NOT x AND BIGINT_MASK) + unat x + 1 = 2 ^ 30" using inverted_limb [OF x] x by simp
  then have "limbs_val (map (\<lambda>x. NOT x AND BIGINT_MASK) (x # xs)) + limbs_val (x # xs) + 1
      = 2 ^ 30 * (limbs_val (map (\<lambda>x. NOT x AND BIGINT_MASK) xs) + limbs_val xs + 1)"
    unfolding list.map limbs_val.simps by (simp only: distrib_left)
  also have "\<dots> = 2 ^ (30 * length (x # xs))" unfolding IH(1) by (simp add: power_add)
  finally show ?case using IH(2) by simp
qed simp

lemma width_complement_val:
  assumes "limbs_ok ls" "length ls = k + 1" "t < 30" "limbs_val ls < 2 ^ (30 * k + t)" "limbs_val ls \<noteq> 0"
  defines "out \<equiv> width_complement ls k (if t = 0 then 0 else push_bit t 1 - 1)"
  shows "limbs_val out = 2 ^ (30 * k + t) - limbs_val ls" and "limbs_ok out" and "length out = k + 1"
proof -
  let ?w = "30 * k + t" and ?inv = "map (\<lambda>x. NOT x AND BIGINT_MASK) ls"
  let ?top = "?inv[k := ?inv ! k AND (if t = 0 then 0 else push_bit t 1 - 1)]"
  have inv: "limbs_val ?inv + limbs_val ls + 1 = 2 ^ (30 * length ls)" "limbs_ok ?inv" "length ?inv = k + 1"
    using inverted_limbs [OF assms(1)] assms(2) by simp_all
  note top = mask_top_limb [OF inv(2,3) assms(3)]
  have pow: "(2::nat) ^ (30 * length ls) = 2 ^ ?w * 2 ^ (30 - t)"
    unfolding power_add [symmetric] using assms(2,3) by simp
  have one: "1 \<le> (2::nat) ^ (30 - t)" by simp
  have "limbs_val ?inv = 2 ^ ?w * (2 ^ (30 - t) - 1) + (2 ^ ?w - 1 - limbs_val ls)"
  proof -
    have "2 ^ ?w * 2 ^ (30 - t) = 2 ^ ?w * (2 ^ (30 - t) - 1) + (2 ^ ?w :: nat)"
      using one by (simp add: diff_mult_distrib2)
    then show ?thesis using inv(1) assms(4) unfolding pow by linarith
  qed
  then have t: "limbs_val ?top = 2 ^ ?w - 1 - limbs_val ls" using top(1) by simp
  obtain c where c: "limbs_ok (carry_loop ?top 1)"
    "limbs_val (carry_loop ?top 1) + c * 2 ^ (30 * length ?top) = limbs_val ?top + 1"
    using carry_loop_correct [OF top(2), of 1] by auto
  have sum: "limbs_val ?top + 1 = 2 ^ ?w - limbs_val ls" unfolding t using assms(4) by simp
  have "c = 0"
  proof (rule ccontr)
    assume "c \<noteq> 0"
    then have "1 * 2 ^ (30 * length ?top) \<le> c * 2 ^ (30 * length ?top)" by (intro mult_right_mono) simp_all
    moreover have "(2::nat) ^ ?w * 1 \<le> 2 ^ (30 * length ?top)"
      using pow one unfolding top(3) assms(2) by (metis mult_le_mono2)
    ultimately show False using c(2) sum assms(5) by linarith
  qed
  with c sum show "limbs_val out = 2 ^ ?w - limbs_val ls" "limbs_ok out"
    by (simp_all add: out_def width_complement_def Let_def)
  show "length out = k + 1" using assms(2) by (simp add: out_def width_complement_def Let_def)
qed

text \<open>ECMA-262 \<open>BigInt.asUintN\<close> and \<open>BigInt.asIntN\<close>.\<close>

definition as_width_int :: "nat \<Rightarrow> bool \<Rightarrow> int \<Rightarrow> int" where
  "as_width_int w signed_result x =
     (let m = x mod 2 ^ w in if signed_result \<and> 0 < w \<and> 2 ^ (w - 1) \<le> m then m - 2 ^ w else m)"

lemma as_width_small:
  assumes "nat \<bar>x\<bar> < 2 ^ n" "n < w" "signed_result \<or> 0 \<le> x"
  shows "as_width_int w signed_result x = x"
proof -
  have x: "\<bar>x\<bar> < 2 ^ n" using assms(1) by (simp add: nat_less_iff)
  have "(2::int) ^ n \<le> 2 ^ (w - 1)" using assms(2) by (intro power_increasing) auto
  with x have b: "\<bar>x\<bar> < 2 ^ (w - 1)" by linarith
  have w: "(2::int) ^ w = 2 * 2 ^ (w - 1)" using assms(2) by (cases w) simp_all
  show ?thesis
  proof (cases "0 \<le> x")
    case True
    then have "x mod 2 ^ w = x" using b w by (intro mod_pos_pos_trivial) linarith+
    with True b show ?thesis by (auto simp: as_width_int_def Let_def)
  next
    case False
    then have "x mod 2 ^ w = x + 2 ^ w"
      using b w by (subst mod_add_self2 [symmetric], intro mod_pos_pos_trivial) linarith+
    with False assms(2,3) b w show ?thesis by (auto simp: as_width_int_def Let_def)
  qed
qed

lemma padded_limbs:
  assumes "limbs_ok xs"
  defines "ys \<equiv> \<lambda>n. map (\<lambda>i. if i < size xs then xs ! i else 0) [0..<n]"
  shows "limbs_ok (ys n)" and "length (ys n) = n" and "limbs_val (ys n) = limbs_val xs mod 2 ^ (30 * n)"
proof -
  have y: "ys n = take n xs @ replicate (n - length xs) 0"
    by (rule nth_equalityI) (auto simp: ys_def nth_append min_def)
  show "limbs_ok (ys n)" "length (ys n) = n" unfolding y using assms(1) by simp_all
  have "limbs_val xs < 2 ^ (30 * n)" if "length xs \<le> n"
    by (rule less_le_trans [OF limbs_val_bound [OF assms(1)]]) (use that in simp)
  then show "limbs_val (ys n) = limbs_val xs mod 2 ^ (30 * n)"
    unfolding y using limbs_val_mod [OF assms(1), of n] by (cases "length xs \<le> n") (simp_all add: limbs_val_append)
qed

text \<open>The unsigned wrap of either sign, from the low bits of the magnitude.\<close>

lemma wrapped_limbs:
  fixes neg :: bool
  assumes "limbs_ok ls" "length ls = k + 1" "t < 30" "limbs_val ls = V mod 2 ^ (30 * k + t)"
  defines "out \<equiv> (if neg \<and> V mod 2 ^ (30 * k + t) \<noteq> 0 then width_complement ls k (if t = 0 then 0 else push_bit t 1 - 1) else ls)"
  shows "int (limbs_val out) = signed neg V mod 2 ^ (30 * k + t) \<and> limbs_ok out \<and> length out = k + 1"
proof -
  let ?w = "30 * k + t"
  have lt: "limbs_val ls < 2 ^ ?w" unfolding assms(4) by simp
  have p: "int V mod 2 ^ ?w = int (V mod 2 ^ ?w)" by (simp add: zmod_int)
  show ?thesis
  proof (cases "neg \<and> V mod 2 ^ ?w \<noteq> 0")
    case True
    then have nz: "limbs_val ls \<noteq> 0" unfolding assms(4) by simp
    note c = width_complement_val [OF assms(1-3) lt nz]
    have "(- int V) mod 2 ^ ?w = 2 ^ ?w - int V mod 2 ^ ?w"
      using True by (subst zmod_zminus1_eq_if) (simp add: p)
    also have "\<dots> = int (2 ^ ?w - limbs_val ls)" unfolding p using lt assms(4) by (simp add: of_nat_diff)
    finally show ?thesis unfolding out_def if_P [OF True] using c True by (simp add: signed_def)
  next
    case False
    then have "signed neg V mod 2 ^ ?w = int V mod 2 ^ ?w"
      using zmod_zminus1_eq_if [of "2 ^ ?w" "int V"] by (auto simp: signed_def p)
    then show ?thesis unfolding out_def if_not_P [OF False] using assms p by simp
  qed
qed

lemma top_bit_of_width:
  assumes "limbs_ok ls" "limbs_val ls < 2 ^ w" "w \<noteq> 0"
  shows "magnitude_bit ls (w - 1) \<longleftrightarrow> 2 ^ (w - 1) \<le> limbs_val ls"
proof -
  let ?q = "limbs_val ls div 2 ^ (w - 1)"
  have "(2::nat) ^ w = 2 * 2 ^ (w - 1)" using assms(3) by (cases w) simp_all
  then have q: "?q < 2" using assms(2) by (intro less_mult_imp_div_less) simp
  then have "odd ?q \<longleftrightarrow> ?q \<noteq> 0" by (cases "?q = 0") (auto simp: less_2_cases_iff)
  also have "\<dots> \<longleftrightarrow> 2 ^ (w - 1) \<le> limbs_val ls" by (simp add: div_eq_0_iff not_less)
  finally show ?thesis using magnitude_bit_odd [OF assms(1)] by simp
qed

lemma wrap_to_width_correct:
  assumes a: "bigint_ok a" and w0: "w \<noteq> 0" and result: "wrap_to_width a w s = (neg, ls)"
  shows "limbs_ok ls" and "ls \<noteq> []" and "signed neg (limbs_val ls) = as_width_int w s (bigint_val a)"
proof -
  let ?x = "bigint_val a" and ?V = "limbs_val (limbs a)"
  define k where "k = w div 30"
  define t where "t = w mod 30"
  define l0 where "l0 = map (\<lambda>i. if i < size (limbs a) then limbs a ! i else 0) [0..<k + 1]"
  define l1 where "l1 = l0[k := l0 ! k AND (if t = 0 then 0 else push_bit t 1 - 1)]"
  define l2 where "l2 = (if negative a \<and> \<not> (normalized_length l1 (k + 1) = 1 \<and> l1 ! 0 = 0)
      then width_complement l1 k (if t = 0 then 0 else push_bit t 1 - 1) else l1)"
  have unfolded: "(neg, ls) = (if s \<and> magnitude_bit l2 (w - 1)
      then (True, width_complement l2 k (if t = 0 then 0 else push_bit t 1 - 1)) else (False, l2))"
    unfolding result [symmetric] wrap_to_width_def Let_def BIGINT_BITS_eq
    unfolding k_def [symmetric] t_def [symmetric] unfolding l0_def [symmetric] unfolding l1_def [symmetric] unfolding l2_def [symmetric] ..
  have ok: "limbs_ok (limbs a)" using a by (simp add: bigint_okD)
  have wkt: "30 * k + t = w" "t < 30" by (simp_all add: k_def t_def)
  have "w \<le> 30 * (k + 1)" using wkt by simp
  then have dvd: "(2::nat) ^ w dvd 2 ^ (30 * (k + 1))" by (rule le_imp_power_dvd)
  have l0: "limbs_ok l0" "length l0 = k + 1" "limbs_val l0 = ?V mod 2 ^ (30 * (k + 1))"
    unfolding l0_def by (rule padded_limbs [OF ok])+
  have l1: "limbs_val l1 = ?V mod 2 ^ w" "limbs_ok l1" "length l1 = k + 1"
    using mask_top_limb [OF l0(1,2) wkt(2), folded l1_def] dvd unfolding wkt(1) l0(3) by (simp_all add: mod_mod_cancel)
  have ne: "xs \<noteq> []" if "length xs = k + 1" for xs :: "u32 list" using that by auto
  have low: "(normalized_length l1 (k + 1) = 1 \<and> l1 ! 0 = 0) \<longleftrightarrow> ?V mod 2 ^ w = 0"
    using in_use_zero [OF ne [OF l1(3)]] unfolding l1 by simp
  have l2: "int (limbs_val l2) = ?x mod 2 ^ w" "limbs_ok l2" "length l2 = k + 1"
    using wrapped_limbs [OF l1(2,3) wkt(2), unfolded wkt(1), of ?V "negative a", OF l1(1)]
    unfolding l2_def low bigint_val_def by simp_all
  have "int (limbs_val l2) < int (2 ^ w)" using l2(1) by simp
  then have lt2: "limbs_val l2 < 2 ^ w" by (simp only: of_nat_less_iff)
  have "magnitude_bit l2 (w - 1) \<longleftrightarrow> int (2 ^ (w - 1)) \<le> int (limbs_val l2)"
    unfolding of_nat_le_iff by (rule top_bit_of_width [OF l2(2) lt2 w0])
  then have top: "magnitude_bit l2 (w - 1) \<longleftrightarrow> 2 ^ (w - 1) \<le> ?x mod 2 ^ w" unfolding l2(1) by simp
  have "limbs_ok ls \<and> ls \<noteq> [] \<and> signed neg (limbs_val ls) = as_width_int w s ?x"
  proof (cases "s \<and> magnitude_bit l2 (w - 1)")
    case True
    then have le: "2 ^ (w - 1) \<le> ?x mod 2 ^ w" using top by simp
    moreover have "(0::int) < 2 ^ (w - 1)" by simp
    ultimately have "0 < int (limbs_val l2)" unfolding l2(1) by (rule order.strict_trans2 [rotated])
    then have nz: "limbs_val l2 \<noteq> 0" by simp
    note c = width_complement_val [OF l2(2,3) wkt(2), unfolded wkt(1), OF lt2 nz]
    have "as_width_int w s ?x = ?x mod 2 ^ w - 2 ^ w" using True le w0 by (simp add: as_width_int_def Let_def)
    also have "\<dots> = - int (2 ^ w - limbs_val l2)" unfolding l2(1) [symmetric] using lt2 by (simp add: of_nat_diff)
    finally have "as_width_int w s ?x = - int (2 ^ w - limbs_val l2)" .
    then show ?thesis using unfolded c ne [OF c(3)] unfolding if_P [OF True] by simp
  next
    case False
    then have "as_width_int w s ?x = int (limbs_val l2)" unfolding l2(1) top by (auto simp: as_width_int_def Let_def)
    then show ?thesis using unfolded l2(2) ne [OF l2(3)] unfolding if_not_P [OF False] by simp
  qed
  then show "limbs_ok ls" "ls \<noteq> []" "signed neg (limbs_val ls) = as_width_int w s ?x" by simp_all
qed

lemma bigint_as_width_fits:
  assumes a: "bigint_ok a" and d: "isfinite bits" "scaled bits = int w * 2 ^ 1074"
  shows "delivers (bigint_as_width a bits s :: (rt_error + bigint, 'c) run) (fits (as_width_int w s (bigint_val a)))"
proof -
  let ?x = "bigint_val a" and ?V = "limbs_val (limbs a)"
  have ok: "limbs_ok (limbs a)" "limbs a \<noteq> []" "nbits ?V \<le> 65536" using a by (simp_all add: bigint_okD)
  have src: "magnitude_bits (limbs a) = nbits ?V" using ok by (simp add: magnitude_bits_nbits)
  have V: "?V < 2 ^ nbits ?V" "nat \<bar>?x\<bar> = ?V" using less_two_pow_nbits a by (simp_all add: bigint_okD)
  have nan: "\<not> isnan bits" using d(1) by (simp add: isfinite_iff)
  have less: "dbl_less (double_of_nat n) bits \<longleftrightarrow> n < w" if "n \<le> 65536" for n
  proof -
    have n: "n < 2 ^ 53" using that by simp
    have "dbl_less (double_of_nat n) bits \<longleftrightarrow> int n * 2 ^ 1074 < int w * 2 ^ 1074"
      using double_of_nat_exact [OF n] nan d(2) by (simp only: dbl_less_def isfinite_iff) simp
    also have "\<dots> \<longleftrightarrow> int n < int w" by (rule mult_less_cancel_right_pos) simp
    finally show ?thesis by simp
  qed
  have zero: "dbl_eq bits dbl_zero \<longleftrightarrow> w = 0" using nan d(2) by (simp add: dbl_eq_def)
  show ?thesis
  proof (cases "w = 0")
    case True
    then have "as_width_int w s ?x = 0" by (simp add: as_width_int_def)
    then show ?thesis unfolding bigint_as_width_def using True zero delivers_zero by (simp add: Let_def)
  next
    case w0: False
    have nz: "\<not> dbl_eq bits dbl_zero" using zero w0 by simp
    note start = bigint_as_width_def [of a bits s, unfolded Let_def if_not_P [OF nz] src less [OF ok(3)]
        less [OF order.refl, folded BIGINT_MAX_BITS_def]]
    show ?thesis
    proof (cases "nbits ?V < w \<and> (s \<or> \<not> negative a)")
      case True
      then have "as_width_int w s ?x = ?x"
        using V a by (intro as_width_small [of _ "nbits ?V"]) (auto simp: bigint_okD)
      then show ?thesis unfolding start if_P [OF True] using fits_ok [OF a] by simp
    next
      case more: False
      show ?thesis
      proof (cases "nbits ?V < w \<and> BIGINT_MAX_BITS < w")
        case True
        with more have "\<not> s" "negative a" by simp_all
        then have x: "?x = - int ?V" "?V \<noteq> 0" using a by (auto simp: bigint_val_def bigint_ok_def)
        have "(2::nat) ^ nbits ?V \<le> 2 ^ (w - 1)" using ok(3) True by (intro power_increasing) (auto simp: BIGINT_MAX_BITS_def)
        then have lt: "?V < 2 ^ (w - 1)" using V(1) by linarith
        have w: "(2::nat) ^ w = 2 * 2 ^ (w - 1)" "(2::int) ^ w = 2 * 2 ^ (w - 1)" using w0 by (cases w; simp)+
        have "?x mod 2 ^ w = int (2 ^ w - ?V)"
        proof -
          have "int (2 ^ w - ?V) = ?x + 2 ^ w" using lt w x by (simp add: of_nat_diff)
          moreover have "2 ^ w - ?V < 2 ^ w" using x(2) by simp
          then have "int (2 ^ w - ?V) < int (2 ^ w)" by (simp only: of_nat_less_iff)
          then have "0 \<le> int (2 ^ w - ?V)" "int (2 ^ w - ?V) < 2 ^ w" by simp_all
          then have "int (2 ^ w - ?V) mod 2 ^ w = int (2 ^ w - ?V)" by (rule mod_pos_pos_trivial)
          ultimately have "int (2 ^ w - ?V) = (?x + 2 ^ w) mod 2 ^ w" by simp
          then show ?thesis by simp
        qed
        then have r: "nat \<bar>as_width_int w s ?x\<bar> = 2 ^ w - ?V" using \<open>\<not> s\<close> by (simp add: as_width_int_def)
        have "(2::nat) ^ 65536 \<le> 2 ^ (w - 1)" using True by (intro power_increasing) (auto simp: BIGINT_MAX_BITS_def)
        also have "\<dots> \<le> 2 ^ w - ?V" using lt w by linarith
        finally have "65536 < nbits (2 ^ w - ?V)" by (simp only: nbits_less_iff)
        then have "fits (as_width_int w s ?x) = Inl bigint_limit_error" by (simp add: fits_def r BIGINT_MAX_BITS_def)
        then show ?thesis unfolding start if_not_P [OF more] if_P [OF True] by simp
      next
        case comp: False
        have w: "w \<le> 65536" using comp ok(3) by (auto simp: BIGINT_MAX_BITS_def)
        have dw: "dbl_to_nat bits = w"
        proof -
          have "int (magnitude_of bits) = int (w * 2 ^ 1074)"
            using abs_scaled [of bits] unfolding d(2) by (simp only: of_nat_mult of_nat_power of_nat_numeral) simp
          then have "magnitude_of bits = w * 2 ^ 1074" by (simp only: of_nat_eq_iff)
          then show ?thesis by (simp add: dbl_to_nat_def)
        qed
        obtain neg ls where r: "wrap_to_width a w s = (neg, ls)" by (cases "wrap_to_width a w s")
        note c = wrap_to_width_correct [OF a w0 r]
        have "delivers (publish_bigint neg ls :: (rt_error + bigint, 'c) run) (fits (as_width_int w s ?x))"
          using publish_bigint_fits [OF c(1,2), of neg] unfolding c(3) .
        note fin = this
        have len: "0 < w div 30 + 1" "w div 30 + 1 \<le> SIZE_MAX div 4" using w by (simp_all add: SIZE_MAX_def)
        show ?thesis
          unfolding start if_not_P [OF more] if_not_P [OF comp] dw BIGINT_BITS_eq
          by (rule computes_after [OF builds_allocate [OF len], where g = "\<lambda>_. Inl allocation_failure"])
             (use fin in \<open>auto simp: r refused_block_def refused_with_def bigint_refusals_def\<close>)
      qed
    qed
  qed
qed

lemma bigint_raw_trip:
  "delivers (bigint_from_uint64 u neg :: (rt_error + bigint, 'c) run) (Inr (bigint_of (signed neg (unat u))))
   \<and> bigint_to_raw_uint64 (bigint_of (signed neg (unat u))) = (if neg then - u else u)"
proof
  have u: "unat u < 2 ^ 64" using unsigned_less [where ?'a = nat, of u] by simp
  have a: "nat \<bar>signed neg (unat u)\<bar> = unat u" by simp
  have n: "nbits (nat \<bar>signed neg (unat u)\<bar>) \<le> 64" unfolding a using u by (simp only: nbits_le_iff)
  have n': "nbits (nat \<bar>signed neg (unat u)\<bar>) \<le> BIGINT_MAX_BITS"
    unfolding BIGINT_MAX_BITS_def by (rule order.trans [OF n]) simp
  then have f: "fits (signed neg (unat u)) = Inr (bigint_of (signed neg (unat u)))" unfolding fits_def by (simp only: if_P)
  show "delivers (bigint_from_uint64 u neg :: (rt_error + bigint, 'c) run) (Inr (bigint_of (signed neg (unat u))))"
    using bigint_from_uint64_fits [of u neg] unfolding f .
  have "uint (bigint_to_raw_uint64 (bigint_of (signed neg (unat u)))) = signed neg (unat u) mod 2 ^ 64"
    using bigint_to_raw_uint64_val [OF bigint_ok_of [OF n']] by simp
  also have "\<dots> = uint (if neg then - u else u)"
  proof (cases neg)
    case True
    have "uint (- u) = - uint u mod 2 ^ 64" by (subst uint_word_ariths(4)) simp
    then show ?thesis using True by (simp only: signed_def if_True uint_nat)
  next
    case False
    have "int (unat u) < int (2 ^ 64)" using u by (simp only: of_nat_less_iff)
    then have "int (unat u) < 2 ^ 64" by (simp only: of_nat_power of_nat_numeral)
    from mod_pos_pos_trivial [OF _ this] have "int (unat u) mod 2 ^ 64 = int (unat u)" by simp
    then show ?thesis using False by (simp only: signed_def if_False uint_nat)
  qed
  finally show "bigint_to_raw_uint64 (bigint_of (signed neg (unat u))) = (if neg then - u else u)"
    by (simp only: word_uint_eq_iff)
qed

end
