(* ===== verification/Values.thy ===== *)
theory Values
  imports Binary64
begin

text \<open>
  \<open>OseoValue\<close>: a double, or a tag and a 48-bit payload in the space of the quiet NaNs
  (\<open>runtime_internal.h\<close>), with the constructors and readers of \<open>runtime_core.c\<close>. Integral
  doubles of 48 bits are stored as small integers.
\<close>

type_synonym oseo_value = u64

subsection \<open>Tags\<close>

definition CANONICAL_NAN :: oseo_value where
  "CANONICAL_NAN = 0x7ff8000000000000"

definition TAG_SMI :: u64 where "TAG_SMI = 1"
definition TAG_UNDEFINED :: u64 where "TAG_UNDEFINED = 2"
definition TAG_NULL :: u64 where "TAG_NULL = 3"
definition TAG_BOOLEAN :: u64 where "TAG_BOOLEAN = 4"
definition TAG_HEAP :: u64 where "TAG_HEAP = 5"
definition TAG_UNINITIALIZED :: u64 where "TAG_UNINITIALIZED = 6"

lemmas tag_defs = TAG_SMI_def TAG_UNDEFINED_def TAG_NULL_def TAG_BOOLEAN_def TAG_HEAP_def TAG_UNINITIALIZED_def

definition SMI_MIN :: int where
  "SMI_MIN = -140737488355328"

definition SMI_MAX :: int where
  "SMI_MAX = 140737488355327"

definition tagged :: "u64 \<Rightarrow> u64 \<Rightarrow> oseo_value" where
  "tagged tag payload = CANONICAL_NAN OR push_bit 48 tag OR (payload AND PAYLOAD_MASK)"

definition tag_of :: "oseo_value \<Rightarrow> u64" where
  "tag_of v = (if v AND CANONICAL_NAN \<noteq> CANONICAL_NAN then 0 else drop_bit 48 v AND 7)"

definition heap_address :: "oseo_value \<Rightarrow> u64" where
  "heap_address v = v AND PAYLOAD_MASK"

definition smi_value :: "oseo_value \<Rightarrow> int" where
  "smi_value v =
     (let payload = v AND PAYLOAD_MASK
      in sint (if payload AND 0x0000800000000000 \<noteq> 0 then payload OR 0xffff000000000000 else payload))"

definition oseo_undefined :: oseo_value where "oseo_undefined = tagged TAG_UNDEFINED 0"
definition oseo_uninitialized :: oseo_value where "oseo_uninitialized = tagged TAG_UNINITIALIZED 0"
definition oseo_null :: oseo_value where "oseo_null = tagged TAG_NULL 0"

definition oseo_boolean :: "bool \<Rightarrow> oseo_value" where
  "oseo_boolean b = tagged TAG_BOOLEAN (if b then 1 else 0)"

lemma canonical_bits: "bit CANONICAL_NAN n \<longleftrightarrow> 51 \<le> n \<and> n < 63"
proof -
  have eq: "CANONICAL_NAN = push_bit 51 (mask 12)" by (simp add: CANONICAL_NAN_def mask_eq_decr_exp)
  show ?thesis unfolding eq by (auto simp: bit_push_bit_iff bit_mask_iff)
qed

lemma payload_mask: "PAYLOAD_MASK = mask 48"
  by (simp add: PAYLOAD_MASK_def mask_eq_decr_exp)

lemma payload_bits: "bit PAYLOAD_MASK n \<longleftrightarrow> n < 48"
  by (auto simp: payload_mask bit_mask_iff)

lemma small_tag_bits: "unat (t :: u64) < 8 \<Longrightarrow> bit t n \<Longrightarrow> n < 3"
  using bit_small [of t 3 n] by simp

lemma bit_u64_small: "bit (x :: u64) n \<Longrightarrow> n < 64"
  using bit_imp_le_length [of x n] by simp

lemma tagged_bits:
  assumes "unat t < 8"
  shows "bit (tagged t p) n \<longleftrightarrow> 51 \<le> n \<and> n < 63 \<or> 48 \<le> n \<and> n < 51 \<and> bit t (n - 48) \<or> n < 48 \<and> bit p n"
proof -
  have "bit t (n - 48) \<Longrightarrow> 48 \<le> n \<Longrightarrow> n < 51" using small_tag_bits [OF assms, of "n - 48"] by linarith
  then show ?thesis
    using bit_u64_small [of p n]
    by (auto simp: tagged_def bit_or_iff bit_and_iff bit_push_bit_iff canonical_bits payload_bits)
qed

lemma tagged_canonical:
  assumes "unat t < 8"
  shows "tagged t p AND CANONICAL_NAN = CANONICAL_NAN"
  by (rule bit_eqI) (auto simp: bit_and_iff canonical_bits tagged_bits [OF assms])

lemma tag_of_tagged:
  assumes "unat t < 8"
  shows "tag_of (tagged t p) = t"
proof -
  have seven: "(7 :: u64) = mask 3" by (simp add: mask_eq_decr_exp)
  have "drop_bit 48 (tagged t p) AND 7 = t"
    unfolding seven take_bit_eq_mask [symmetric]
  proof (rule bit_eqI)
    fix n
    show "bit (take_bit 3 (drop_bit 48 (tagged t p))) n \<longleftrightarrow> bit t n"
      using small_tag_bits [OF assms, of n]
      by (auto simp: bit_take_bit_iff bit_drop_bit_eq tagged_bits [OF assms])
  qed
  then show ?thesis by (simp add: tag_of_def tagged_canonical [OF assms])
qed

lemma payload_of_tagged:
  assumes "unat t < 8"
  shows "tagged t p AND PAYLOAD_MASK = p AND PAYLOAD_MASK"
  by (rule bit_eqI) (auto simp: bit_and_iff payload_bits tagged_bits [OF assms])

lemma tagged_heap_address: "p \<le> PAYLOAD_MASK \<Longrightarrow> heap_address (tagged TAG_HEAP p) = p"
proof -
  assume "p \<le> PAYLOAD_MASK"
  then have "unat p < 2 ^ 48" by (simp add: word_le_nat_alt PAYLOAD_MASK_def)
  then have "p AND PAYLOAD_MASK = p"
    by (simp add: payload_mask word_unat_eq_iff unat_and_mask)
  then show ?thesis by (simp add: heap_address_def payload_of_tagged tag_defs)
qed

subsection \<open>Numbers\<close>

definition double_of_int :: "int \<Rightarrow> double" where
  "double_of_int n = (if n < 0 then dbl_neg (double_of_nat (nat (- n))) else double_of_nat (nat n))"

definition is_number :: "oseo_value \<Rightarrow> bool" where
  "is_number v \<longleftrightarrow> tag_of v = 0 \<or> tag_of v = TAG_SMI"

definition number_value :: "oseo_value \<Rightarrow> double" where
  "number_value v = (if tag_of v = TAG_SMI then double_of_int (smi_value v) else v)"

definition dbl_to_int :: "double \<Rightarrow> int" where
  "dbl_to_int d = (if dbl_sign d then - int (dbl_to_nat d) else int (dbl_to_nat d))"

definition oseo_number :: "double \<Rightarrow> oseo_value" where
  "oseo_number d =
     (if isnan d then CANONICAL_NAN
      else if dbl_eq d dbl_zero \<and> signbit d then d
      else if isfinite d \<and> dbl_eq (trunc d) d \<and> dbl_le (double_of_int SMI_MIN) d \<and> dbl_le d (double_of_int SMI_MAX)
        then tagged TAG_SMI (word_of_int (dbl_to_int d))
      else d)"

lemma nan_bits: "v AND CANONICAL_NAN = CANONICAL_NAN \<Longrightarrow> isnan v"
proof -
  assume a: "v AND CANONICAL_NAN = CANONICAL_NAN"
  then have b: "bit v n" if "51 \<le> n" "n < 63" for n
    using that by (metis bit_and_iff canonical_bits)
  have "take_bit 11 (drop_bit 52 (unat v)) = mask 11"
  proof (rule bit_eqI)
    fix n
    show "bit (take_bit 11 (drop_bit 52 (unat v))) n \<longleftrightarrow> bit (mask 11 :: nat) n"
      using b [of "52 + n"] by (auto simp: bit_take_bit_iff bit_drop_bit_eq bit_mask_iff bit_unsigned_iff)
  qed
  then have e: "dbl_exp v = 2047"
    unfolding dbl_exp_def unat_drop_bit by (simp add: take_bit_eq_mod drop_bit_eq_div mask_eq_exp_minus_1)
  have "bit (unat v) 51" using b [of 51] by (simp add: bit_unsigned_iff)
  then have "bit (take_bit 52 (unat v)) 51" by (simp only: bit_take_bit_iff) simp
  then have "take_bit 52 (unat v) \<noteq> 0" by (metis bit_0_eq bot_apply bot_bool_def)
  moreover have "dbl_frac v = take_bit 52 (unat v)" unfolding dbl_frac_def by (rule take_bit_eq_mod [symmetric])
  ultimately have "dbl_frac v \<noteq> 0" by simp
  with e show ?thesis by (simp add: isnan_def)
qed

lemma tag_of_double: "\<not> isnan d \<Longrightarrow> tag_of d = 0"
  using nan_bits [of d] by (auto simp: tag_of_def)

lemma tag_of_nan: "tag_of CANONICAL_NAN = 0"
  by (simp add: tag_of_def CANONICAL_NAN_def)

lemma isnan_canonical: "isnan CANONICAL_NAN"
  by (rule nan_bits) simp

text \<open>Sign extension of the payload.\<close>

lemma smi_value_tagged:
  assumes "SMI_MIN \<le> i" "i \<le> SMI_MAX"
  shows "smi_value (tagged TAG_SMI (word_of_int i)) = i"
proof -
  let ?p = "word_of_int i AND PAYLOAD_MASK :: u64"
  have r: "- (2 ^ 47) \<le> i" "i < 2 ^ 47" using assms by (simp_all add: SMI_MIN_def SMI_MAX_def)
  have pay: "tagged TAG_SMI (word_of_int i) AND PAYLOAD_MASK = ?p" by (rule payload_of_tagged) (simp add: tag_defs)
  have top: "?p AND 0x0000800000000000 \<noteq> 0 \<longleftrightarrow> bit i 47"
  proof -
    have eq: "(0x0000800000000000 :: u64) = push_bit 47 1" by simp
    have one: "bit (push_bit 47 1 :: u64) n \<longleftrightarrow> n = 47" for n
      unfolding bit_push_bit_iff bit_1_iff by auto
    have "?p AND push_bit 47 1 \<noteq> 0 \<longleftrightarrow> bit ?p 47"
    proof
      assume "?p AND push_bit 47 1 \<noteq> 0"
      then obtain n where "bit (?p AND push_bit 47 1) n" by (metis bit_eqI bit_0_eq bot_apply bot_bool_def)
      then show "bit ?p 47" unfolding bit_and_iff one by blast
    next
      assume "bit ?p 47"
      then have "bit (?p AND push_bit 47 1) 47" unfolding bit_and_iff one by blast
      then show "?p AND push_bit 47 1 \<noteq> 0" by (metis bit_0_eq bot_apply bot_bool_def)
    qed
    then show ?thesis unfolding eq by (simp only: bit_and_iff payload_bits bit_word_of_int_iff) simp
  qed
  have eq: "(if ?p AND 0x0000800000000000 \<noteq> 0 then ?p OR 0xffff000000000000 else ?p) = word_of_int i"
  proof (rule bit_word_eqI)
    fix n
    assume n: "n < LENGTH(64)"
    have h: "bit (0xffff000000000000 :: u64) n \<longleftrightarrow> 48 \<le> n"
    proof -
      have eq: "(0xffff000000000000 :: u64) = push_bit 48 (mask 16)" by (simp add: mask_eq_decr_exp)
      show ?thesis unfolding eq using n by (auto simp: bit_push_bit_iff bit_mask_iff)
    qed
    have "signed_take_bit 47 i = i" using r by (simp add: signed_take_bit_int_eq_self_iff)
    then have high: "bit i n \<longleftrightarrow> bit i 47" if "47 \<le> n"
    proof -
      have "bit (signed_take_bit 47 i) n \<longleftrightarrow> bit i (min 47 n)" by (simp add: bit_signed_take_bit_iff)
      then show ?thesis using that unfolding \<open>signed_take_bit 47 i = i\<close> by (simp add: min_absorb1)
    qed
    show "bit (if ?p AND 0x0000800000000000 \<noteq> 0 then ?p OR 0xffff000000000000 else ?p) n \<longleftrightarrow> bit (word_of_int i :: u64) n"
      unfolding top using n high h
      by (cases "n < 48") (auto simp: bit_or_iff bit_and_iff payload_bits bit_word_of_int_iff)
  qed
  have "signed_take_bit 63 i = i" using r by (simp add: signed_take_bit_int_eq_self_iff)
  then show ?thesis
    unfolding smi_value_def Let_def pay eq by (simp add: sint_sbintrunc')
qed

lemma double_of_int_exact:
  assumes "\<bar>n\<bar> < 2 ^ 53"
  shows "scaled (double_of_int n) = n * 2 ^ 1074 \<and> isfinite (double_of_int n)"
proof -
  have "nat \<bar>n\<bar> < nat (2 ^ 53)" using assms by (simp only: nat_less_eq_zless abs_ge_zero)
  then have b: "nat \<bar>n\<bar> < 2 ^ 53" by (simp only: nat_power_eq zero_le_numeral nat_numeral)
  note e = double_of_nat_exact [OF b]
  show ?thesis
  proof (cases "n < 0")
    case True
    then have "nat \<bar>n\<bar> = nat (- n)" "int (nat \<bar>n\<bar>) = - n" by simp_all
    then show ?thesis using e True by (simp only: double_of_int_def if_True scaled_neg isfinite_neg) simp
  next
    case False
    then have "nat \<bar>n\<bar> = nat n" "int (nat \<bar>n\<bar>) = n" by simp_all
    then show ?thesis using e False by (simp only: double_of_int_def if_False)
  qed
qed

lemma dbl_to_int_exact:
  assumes "scaled d = n * 2 ^ 1074"
  shows "dbl_to_int d = n"
proof -
  have "int (magnitude_of d) = \<bar>n\<bar> * 2 ^ 1074" unfolding abs_scaled [symmetric] assms abs_mult by simp
  then have "int (magnitude_of d) = int (nat \<bar>n\<bar> * 2 ^ 1074)" by (simp only: of_nat_mult of_nat_power of_nat_numeral) simp
  then have "magnitude_of d = nat \<bar>n\<bar> * 2 ^ 1074" by (simp only: of_nat_eq_iff)
  then have t: "dbl_to_nat d = nat \<bar>n\<bar>" by (simp add: dbl_to_nat_def)
  have "dbl_sign d \<Longrightarrow> n \<le> 0" "\<not> dbl_sign d \<Longrightarrow> 0 \<le> n"
    using assms by (auto simp: scaled_magnitude zero_le_mult_iff split: if_splits)
  then show ?thesis unfolding dbl_to_int_def t by auto
qed

text \<open>A number survives being stored in a value: every double that is not a NaN comes back with
  the same bits, the sign of zero included, and every NaN comes back as the canonical one.\<close>

lemma integral_trunc:
  assumes "isfinite d" "dbl_eq (trunc d) d"
  shows "\<exists>n. scaled d = n * 2 ^ 1074"
proof -
  have "scaled d = scaled (trunc d)" using assms by (simp add: dbl_eq_def)
  also have "\<dots> = (if dbl_sign d then -1 else 1) * int (magnitude_of d div 2 ^ 1074) * 2 ^ 1074"
    unfolding scaled_magnitude trunc_sign trunc_magnitude
    by (simp only: of_nat_mult of_nat_power of_nat_numeral) simp
  finally show ?thesis by blast
qed

lemma number_round_trip:
  shows "number_value (oseo_number d) = (if isnan d then CANONICAL_NAN else d)" and "is_number (oseo_number d)"
proof -
  have "number_value (oseo_number d) = (if isnan d then CANONICAL_NAN else d) \<and> is_number (oseo_number d)"
  proof (cases "isnan d")
    case True
    then show ?thesis by (simp add: oseo_number_def number_value_def is_number_def tag_of_nan tag_defs)
  next
    case nan: False
    then have raw: "number_value d = d" "is_number d" by (simp_all add: number_value_def is_number_def tag_of_double tag_defs)
    let ?smi = "isfinite d \<and> dbl_eq (trunc d) d \<and> dbl_le (double_of_int SMI_MIN) d \<and> dbl_le d (double_of_int SMI_MAX)"
    show ?thesis
    proof (cases "\<not> (dbl_eq d dbl_zero \<and> signbit d) \<and> ?smi")
      case False
      then have "oseo_number d = d" using nan by (auto simp: oseo_number_def)
      then show ?thesis using nan raw by simp
    next
      case True
      then obtain n where n: "scaled d = n * 2 ^ 1074" using integral_trunc by blast
      have lim: "\<bar>SMI_MIN\<bar> < 2 ^ 53" "\<bar>SMI_MAX\<bar> < 2 ^ 53" by (simp_all add: SMI_MIN_def SMI_MAX_def)
      have "SMI_MIN * 2 ^ 1074 \<le> n * 2 ^ 1074" "n * 2 ^ 1074 \<le> SMI_MAX * 2 ^ 1074"
        using True double_of_int_exact [OF lim(1)] double_of_int_exact [OF lim(2)] n by (simp_all only: dbl_le_def)
      then have range: "SMI_MIN \<le> n" "n \<le> SMI_MAX" by (simp_all only: mult_le_cancel_right_pos zero_less_power zero_less_numeral)
      have v: "oseo_number d = tagged TAG_SMI (word_of_int n)"
        unfolding oseo_number_def if_not_P [OF nan] dbl_to_int_exact [OF n] using True by (simp only: if_True if_False simp_thms)
      have t: "tag_of (oseo_number d) = TAG_SMI" unfolding v by (rule tag_of_tagged) (simp add: tag_defs)
      have nv: "number_value (oseo_number d) = double_of_int n"
        unfolding number_value_def if_P [OF t] unfolding v smi_value_tagged [OF range] ..
      have "\<bar>n\<bar> < 2 ^ 53" using range by (simp add: SMI_MIN_def SMI_MAX_def)
      then have e: "scaled (double_of_int n) = n * 2 ^ 1074" using double_of_int_exact by blast
      have "double_of_int n = d"
      proof (cases "n = 0")
        case z: True
        then have "\<not> dbl_sign d" using True n nan by (simp add: dbl_eq_def signbit_def)
        moreover have "scaled d = 0" using z n by simp
        ultimately have "d = make_double False 0 0" using make_double_split [of d] by (simp add: scaled_0_iff)
        then show ?thesis by (simp add: z double_of_int_def double_of_nat_def dbl_zero_def make_double_def)
      next
        case False
        then show ?thesis using scaled_inj [of "double_of_int n" d] e n by simp
      qed
      then show ?thesis using nv t nan by (simp add: is_number_def)
    qed
  qed
  then show "number_value (oseo_number d) = (if isnan d then CANONICAL_NAN else d)" "is_number (oseo_number d)" by simp_all
qed

text \<open>So two doubles are stored as the same value exactly when they are the same double or both
  NaN, which is why values compare by their bits.\<close>

lemma oseo_number_inj:
  "oseo_number a = oseo_number b \<longleftrightarrow> a = b \<or> isnan a \<and> isnan b"
proof
  assume "oseo_number a = oseo_number b"
  then have "number_value (oseo_number a) = number_value (oseo_number b)" by simp
  then show "a = b \<or> isnan a \<and> isnan b"
    unfolding number_round_trip using isnan_canonical by (auto split: if_splits)
next
  assume "a = b \<or> isnan a \<and> isnan b"
  then show "oseo_number a = oseo_number b" by (auto simp: oseo_number_def)
qed

subsection \<open>Truth\<close>

text \<open>\<open>oseo_to_boolean\<close>. The heap is read only for the two kinds that can be false: \<open>bigints\<close>
  and \<open>strings\<close> give the BigInt and the string at an address, when it is one.\<close>

definition is_nullish :: "oseo_value \<Rightarrow> bool" where
  "is_nullish v \<longleftrightarrow> tag_of v = TAG_NULL \<or> tag_of v = TAG_UNDEFINED"

definition oseo_to_boolean :: "(u64 \<Rightarrow> bool option) \<Rightarrow> (u64 \<Rightarrow> u16 list option) \<Rightarrow> oseo_value \<Rightarrow> bool" where
  "oseo_to_boolean bigint_is_zero strings v =
     (let tag = tag_of v
      in if tag = TAG_UNDEFINED \<or> tag = TAG_NULL then False
         else if tag = TAG_BOOLEAN then v AND 1 \<noteq> 0
         else if is_number v then
           let number = number_value v in \<not> dbl_eq number dbl_zero \<and> \<not> isnan number
         else if tag = TAG_HEAP \<and> bigint_is_zero (heap_address v) \<noteq> None
           then \<not> the (bigint_is_zero (heap_address v))
         else if tag = TAG_HEAP \<and> strings (heap_address v) \<noteq> None
           then length (the (strings (heap_address v))) \<noteq> 0
         else tag = TAG_HEAP)"

definition oseo_read_binding :: "oseo_value \<Rightarrow> rt_error + oseo_value" where
  "oseo_read_binding v =
     (if tag_of v = TAG_UNINITIALIZED
      then Inl (LanguageError ERROR_REFERENCE ''Binding is read before initialization.'')
      else Inr v)"

lemma tagged_not_number:
  assumes "unat t < 8"
  shows "tag_of (tagged t p) = t \<and> tagged t p AND PAYLOAD_MASK = p AND PAYLOAD_MASK
    \<and> (t \<noteq> 0 \<and> t \<noteq> TAG_SMI \<longrightarrow> tagged t p \<noteq> oseo_number d)"
proof -
  have "t = 0 \<or> t = TAG_SMI" if "tagged t p = oseo_number d"
    using number_round_trip(2) [of d] tag_of_tagged [OF assms, of p] that by (simp add: is_number_def)
  then show ?thesis using tag_of_tagged [OF assms] payload_of_tagged [OF assms] by blast
qed

end
