(* ===== verification/Core.thy ===== *)
theory Core
  imports Binary64
begin

text \<open>
  Budgets, root frames and realm seeds of \<open>runtime_core.c\<close>, and the generator
  \<open>math_random\<close> of \<open>runtime_math.c\<close> the seeds start. The budgets and the root stack are one
  state machine: generated code enters and leaves calls and frames in a nested order.
\<close>

subsection \<open>Mixing functions are injective\<close>

lemma xorshift_right_inj:
  assumes "0 < k" "(x :: 'a::len word) XOR drop_bit k x = y XOR drop_bit k y"
  shows "x = y"
proof (rule bit_eqI)
  fix n
  have step: "bit x n = bit y n" if "\<And>m. n < m \<Longrightarrow> bit x m = bit y m" for n
  proof -
    have "bit (x XOR drop_bit k x) n = bit (y XOR drop_bit k y) n" by (simp only: assms(2))
    moreover have "bit x (k + n) = bit y (k + n)" using that [of "k + n"] assms(1) by simp
    ultimately show ?thesis by (auto simp: bit_xor_iff bit_drop_bit_eq)
  qed
  have "LENGTH('a) - j \<le> n \<Longrightarrow> bit x n = bit y n" for j n
  proof (induction j arbitrary: n)
    case 0
    then show ?case using bit_imp_le_length [of x n] bit_imp_le_length [of y n] by auto
  next
    case (Suc j)
    show ?case by (rule step) (use Suc in auto)
  qed
  from this [of "LENGTH('a)" n] show "bit x n = bit y n" by simp
qed

lemma xorshift_left_inj:
  assumes "0 < k" "(x :: 'a::len word) XOR push_bit k x = y XOR push_bit k y"
  shows "x = y"
proof (rule bit_eqI)
  fix n
  show "bit x n = bit y n"
  proof (induction n rule: less_induct)
    case (less n)
    have "bit (x XOR push_bit k x) n = bit (y XOR push_bit k y) n" by (simp only: assms(2))
    moreover have "k \<le> n \<Longrightarrow> bit x (n - k) = bit y (n - k)" using less [of "n - k"] assms(1) by simp
    ultimately show ?case by (auto simp: bit_xor_iff bit_push_bit_iff)
  qed
qed

lemma inverse_mult_inj:
  assumes "(c :: 'a::len word) * d = 1" "x * c = y * c"
  shows "x = y"
proof -
  have "x * c * d = y * c * d" by (simp only: assms(2))
  then show ?thesis by (simp only: mult.assoc assms(1) mult_1_right)
qed

subsection \<open>Realm seeds\<close>

definition seed_word :: "u64 \<Rightarrow> u64 \<times> u64" where
  "seed_word state =
     (let state = state + 0x9e3779b97f4a7c15;
          w = state;
          w = (w XOR drop_bit 30 w) * 0xbf58476d1ce4e5b9;
          w = (w XOR drop_bit 27 w) * 0x94d049bb133111eb
      in (w XOR drop_bit 31 w, state))"

record random_state =
  word0 :: u64
  word1 :: u64

text \<open>The part of \<open>oseo_internal_realm_init\<close> that seeds \<open>Math.random\<close>: the state of the realm
  and the next ordinal.\<close>

definition realm_init :: "u64 \<Rightarrow> random_state \<times> u64" where
  "realm_init realm_ordinal =
     (let seed = realm_ordinal;
          (first, seed) = seed_word seed;
          (second, seed) = seed_word seed
      in (\<lparr>word0 = first, word1 = second OR 1\<rparr>, realm_ordinal + 1))"

definition math_random :: "random_state \<Rightarrow> double \<times> random_state" where
  "math_random s =
     (let first = word0 s;
          second = word1 s;
          first = first XOR push_bit 23 first;
          first = first XOR drop_bit 17 first;
          first = first XOR second;
          first = first XOR drop_bit 26 second
      in (ldexp (double_of_nat (unat (drop_bit 11 (first + second)))) (-53),
          \<lparr>word0 = second, word1 = first\<rparr>))"

lemma seed_word_inj: "fst (seed_word a) = fst (seed_word b) \<Longrightarrow> a = b"
proof -
  define m1 where "m1 = (\<lambda>w :: u64. (w XOR drop_bit 30 w) * 0xbf58476d1ce4e5b9)"
  define m2 where "m2 = (\<lambda>w :: u64. (w XOR drop_bit 27 w) * 0x94d049bb133111eb)"
  have i1: "(0xbf58476d1ce4e5b9 :: u64) * 0x96de1b173f119089 = 1" by simp
  have i2: "(0x94d049bb133111eb :: u64) * 0x319642b2d24d8ec3 = 1" by simp
  have m1: "m1 x = m1 y \<Longrightarrow> x = y" for x y
    unfolding m1_def by (drule inverse_mult_inj [OF i1], erule xorshift_right_inj [rotated]) simp
  have m2: "m2 x = m2 y \<Longrightarrow> x = y" for x y
    unfolding m2_def by (drule inverse_mult_inj [OF i2], erule xorshift_right_inj [rotated]) simp
  have s: "fst (seed_word a) = m2 (m1 (a + 0x9e3779b97f4a7c15)) XOR drop_bit 31 (m2 (m1 (a + 0x9e3779b97f4a7c15)))" for a
    by (simp only: seed_word_def Let_def fst_conv m1_def m2_def)
  assume "fst (seed_word a) = fst (seed_word b)"
  then have "m2 (m1 (a + 0x9e3779b97f4a7c15)) = m2 (m1 (b + 0x9e3779b97f4a7c15))"
    unfolding s by (rule xorshift_right_inj [rotated]) simp
  then have "a + 0x9e3779b97f4a7c15 = b + 0x9e3779b97f4a7c15" by (rule m1 [OF m2])
  then show "a = b" by (rule add_right_imp_eq)
qed

lemma realm_init_distinct: "word0 (fst (realm_init a)) = word0 (fst (realm_init b)) \<Longrightarrow> a = b"
  by (rule seed_word_inj) (simp add: realm_init_def Let_def split: prod.splits)

definition random_live :: "random_state \<Rightarrow> bool" where
  "random_live s \<longleftrightarrow> word0 s \<noteq> 0 \<or> word1 s \<noteq> 0"

lemma realm_init_live: "random_live (fst (realm_init a))"
proof -
  have "x OR 1 \<noteq> 0" for x :: u64 by (metis bit_or_iff bit_1_0 bit_0_eq bot_apply bot_bool_def)
  then show ?thesis by (simp add: random_live_def realm_init_def Let_def split: prod.splits)
qed

lemma math_random_live:
  assumes "random_live s"
  shows "random_live (snd (math_random s))"
proof (rule ccontr)
  define g where "g = (\<lambda>x :: u64. (x XOR push_bit 23 x) XOR drop_bit 17 (x XOR push_bit 23 x))"
  have g: "g x = g y \<Longrightarrow> x = y" for x y
    unfolding g_def by (drule xorshift_right_inj [rotated], simp, erule xorshift_left_inj [rotated], simp)
  assume "\<not> random_live (snd (math_random s))"
  then have z: "word1 s = 0" "g (word0 s) XOR word1 s XOR drop_bit 26 (word1 s) = 0"
    by (simp_all add: random_live_def math_random_def Let_def g_def)
  then have "g (word0 s) = g 0" by (simp add: g_def)
  then have "word0 s = 0" by (rule g)
  with z(1) assms show False by (simp add: random_live_def)
qed

text \<open>The number drawn: the high 53 bits of the sum, as a fraction.\<close>

lemma ldexp_down:
  assumes "n < 2 ^ 53"
  shows "magnitude_of (ldexp (double_of_nat n) (-53)) = n * 2 ^ 1021" and "\<not> dbl_sign (ldexp (double_of_nat n) (-53))"
    and "isfinite (ldexp (double_of_nat n) (-53))"
proof -
  let ?d = "double_of_nat n"
  note e = double_of_nat_exact [OF assms]
  have m: "magnitude_of ?d = n * 2 ^ 1074"
  proof -
    have "int (magnitude_of ?d) = int (n * 2 ^ 1074)"
      unfolding abs_scaled [symmetric] e(1) by (simp only: of_nat_mult of_nat_power of_nat_numeral) simp
    then show ?thesis by (simp only: of_nat_eq_iff)
  qed
  have "magnitude_of (ldexp ?d (-53)) = n * 2 ^ 1021 \<and> \<not> dbl_sign (ldexp ?d (-53)) \<and> isfinite (ldexp ?d (-53))"
  proof (cases "n = 0")
    case True
    then have d: "?d = dbl_zero" by (simp add: double_of_nat_def)
    have z: "dbl_zero = make_double False 0 0" by (simp add: dbl_zero_def make_double_def)
    have "dbl_exp dbl_zero = 0" "dbl_frac dbl_zero = 0" unfolding z by (simp_all add: make_double_fields)
    then have "ldexp ?d (-53) = make_double False 0 0" unfolding d z [symmetric] by (simp add: ldexp_def)
    then show ?thesis using True by (simp add: make_double_fields isfinite_def)
  next
    case False
    have "1 * 2 ^ 1074 \<le> magnitude_of ?d" unfolding m using False by (intro mult_right_mono) simp_all
    then have ex: "1023 \<le> dbl_exp ?d" using magnitude_small [of ?d] by (metis leI leD mult_1)
    have ex': "dbl_exp ?d < 2047" using e(2) dbl_field_bounds(1) [of ?d] by (auto simp: isfinite_def)
    have l: "ldexp ?d (-53) = make_double False (dbl_exp ?d - 53) (dbl_frac ?d)"
      using ex ex' e(3) by (subst ldexp_normal) (simp_all add: nat_diff_distrib)
    have b: "0 < dbl_exp ?d - 53" "dbl_exp ?d - 53 < 2048" "dbl_frac ?d < 2 ^ 52"
      using ex dbl_field_bounds [of ?d] by linarith+
    have m1: "magnitude_of (ldexp ?d (-53)) = (2 ^ 52 + dbl_frac ?d) * 2 ^ (dbl_exp ?d - 53 - 1)"
      unfolding l by (rule scaled_make [OF b])
    have m2: "magnitude_of ?d = (2 ^ 52 + dbl_frac ?d) * 2 ^ (dbl_exp ?d - 53 - 1) * 2 ^ 53"
    proof -
      have "dbl_exp ?d - 53 - 1 + 53 = dbl_exp ?d - 1" using ex by simp
      then show ?thesis unfolding mult.assoc power_add [symmetric] using ex by (simp add: magnitude_of_def dbl_significand_def)
    qed
    have p: "(2::nat) ^ 1074 = 2 ^ 1021 * 2 ^ 53" unfolding power_add [symmetric] by simp
    have "magnitude_of (ldexp ?d (-53)) * 2 ^ 53 = n * 2 ^ 1021 * 2 ^ 53"
      using m unfolding m2 m1 p mult.assoc .
    then have "magnitude_of (ldexp ?d (-53)) = n * 2 ^ 1021" by (rule mult_right_cancel [THEN iffD1, rotated]) simp
    then show ?thesis unfolding l isfinite_def using make_double_fields [OF b(2,3)] ex' by simp
  qed
  then show "magnitude_of (ldexp ?d (-53)) = n * 2 ^ 1021" "\<not> dbl_sign (ldexp ?d (-53))" "isfinite (ldexp ?d (-53))" by simp_all
qed

lemma math_random_range:
  "0 \<le> scaled (fst (math_random s)) \<and> scaled (fst (math_random s)) < 2 ^ 1074 \<and> isfinite (fst (math_random s))"
proof -
  obtain x :: u64 where d: "fst (math_random s) = ldexp (double_of_nat (unat (drop_bit 11 x))) (-53)"
    by (simp add: math_random_def Let_def)
  have "unat x div 2 ^ 11 < 2 ^ 53" by (rule less_mult_imp_div_less) (use unsigned_less [where ?'a = nat, of x] in simp)
  then have n: "unat (drop_bit 11 x) < 2 ^ 53" unfolding unat_drop_bit .
  note l = ldexp_down [OF n]
  have "magnitude_of (fst (math_random s)) < 2 ^ 53 * 2 ^ 1021"
    unfolding d l(1) using n by (rule mult_strict_right_mono) simp
  then have "int (magnitude_of (fst (math_random s))) < int (2 ^ 1074)"
    unfolding power_add [symmetric] by (simp only: of_nat_less_iff) simp
  then show ?thesis using l unfolding d [symmetric] by (simp add: scaled_magnitude)
qed

subsection \<open>Budgets and root frames\<close>

definition MAX_CALL_DEPTH :: nat where
  "MAX_CALL_DEPTH = 256"

definition MAX_ACTIVE_FRAME_SLOTS :: nat where
  "MAX_ACTIVE_FRAME_SLOTS = 65536"

text \<open>An \<open>OseoRootFrame\<close> lives on the C stack of its function; \<open>root_frames\<close> is that memory, by
  address. \<open>0\<close> is the null pointer.\<close>

record root_frame =
  previous :: nat
  slots :: "u64 list"

record core_context =
  call_depth :: nat
  active_frame_slots :: nat
  roots :: nat
  root_frames :: "nat \<Rightarrow> root_frame"

definition oseo_call_enter :: "core_context \<Rightarrow> rt_error option \<times> core_context" where
  "oseo_call_enter ctx =
     (if call_depth ctx \<ge> MAX_CALL_DEPTH
      then (Some (Diagnostic ''OSEO2001'' ''Maximum call depth exceeded.''), ctx)
      else (None, ctx\<lparr>call_depth := call_depth ctx + 1\<rparr>))"

definition oseo_call_leave :: "core_context \<Rightarrow> core_context" where
  "oseo_call_leave ctx = (if call_depth ctx > 0 then ctx\<lparr>call_depth := call_depth ctx - 1\<rparr> else ctx)"

text \<open>The subtraction of the guard is unsigned, so it wraps when more slots are active than the
  maximum.\<close>

definition oseo_frame_enter :: "core_context \<Rightarrow> nat \<Rightarrow> rt_error option \<times> core_context" where
  "oseo_frame_enter ctx slot_count =
     (if int slot_count > (int MAX_ACTIVE_FRAME_SLOTS - int (active_frame_slots ctx)) mod 2 ^ 64
      then (Some (Diagnostic ''OSEO2001'' ''Maximum active native frame budget exceeded.''), ctx)
      else (None, ctx\<lparr>active_frame_slots := active_frame_slots ctx + slot_count\<rparr>))"

definition oseo_frame_leave :: "core_context \<Rightarrow> nat \<Rightarrow> core_context" where
  "oseo_frame_leave ctx slot_count =
     (if slot_count \<le> active_frame_slots ctx
      then ctx\<lparr>active_frame_slots := active_frame_slots ctx - slot_count\<rparr>
      else ctx\<lparr>active_frame_slots := 0\<rparr>)"

definition oseo_roots_push :: "core_context \<Rightarrow> nat \<Rightarrow> core_context" where
  "oseo_roots_push ctx frame =
     ctx\<lparr>root_frames := (root_frames ctx)(frame := (root_frames ctx frame)\<lparr>previous := roots ctx\<rparr>), roots := frame\<rparr>"

definition oseo_roots_pop :: "core_context \<Rightarrow> nat \<Rightarrow> core_context" where
  "oseo_roots_pop ctx frame =
     (if roots ctx = frame then ctx\<lparr>roots := previous (root_frames ctx frame)\<rparr> else ctx)"

text \<open>\<open>granted\<close> is the host's answer to the \<open>calloc\<close>, whose slots are zero.\<close>

definition oseo_roots_allocate :: "core_context \<Rightarrow> nat \<Rightarrow> nat \<Rightarrow> bool \<Rightarrow> rt_error option \<times> core_context" where
  "oseo_roots_allocate ctx frame slot_count granted =
     (if slot_count > 0 \<and> slot_count > SIZE_MAX div 8
      then (Some (Diagnostic ''OSEO2001'' ''Root frame allocation is too large.''), ctx)
      else if slot_count > 0 \<and> \<not> granted
      then (Some (Diagnostic ''OSEO2001'' ''Root frame allocation failed.''), ctx)
      else (None, oseo_roots_push
        (ctx\<lparr>root_frames := (root_frames ctx)(frame := \<lparr>previous = 0, slots = replicate slot_count 0\<rparr>)\<rparr>) frame))"

definition oseo_roots_release :: "core_context \<Rightarrow> nat \<Rightarrow> core_context" where
  "oseo_roots_release ctx frame =
     (let ctx = oseo_roots_pop ctx frame
      in ctx\<lparr>root_frames := (root_frames ctx)(frame := \<lparr>previous = 0, slots = []\<rparr>)\<rparr>)"

inductive core_step :: "core_context \<Rightarrow> core_context \<Rightarrow> bool" where
  call_enter: "core_step ctx (snd (oseo_call_enter ctx))"
| call_leave: "core_step ctx (oseo_call_leave ctx)"
| frame_enter: "n < 2 ^ 64 \<Longrightarrow> core_step ctx (snd (oseo_frame_enter ctx n))"
| frame_leave: "core_step ctx (oseo_frame_leave ctx n)"
| roots_push: "core_step ctx (oseo_roots_push ctx f)"
| roots_pop: "core_step ctx (oseo_roots_pop ctx f)"
| roots_allocate: "core_step ctx (snd (oseo_roots_allocate ctx f n g))"
| roots_release: "core_step ctx (oseo_roots_release ctx f)"

definition core_budget :: "core_context \<Rightarrow> bool" where
  "core_budget ctx \<longleftrightarrow> call_depth ctx \<le> MAX_CALL_DEPTH \<and> active_frame_slots ctx \<le> MAX_ACTIVE_FRAME_SLOTS"

lemma core_step_budget: "core_step ctx ctx' \<Longrightarrow> core_budget ctx \<Longrightarrow> core_budget ctx'"
  by (induction rule: core_step.induct)
     (auto simp: core_budget_def oseo_call_enter_def oseo_call_leave_def oseo_frame_enter_def oseo_frame_leave_def
       oseo_roots_push_def oseo_roots_pop_def oseo_roots_allocate_def oseo_roots_release_def
       MAX_CALL_DEPTH_def MAX_ACTIVE_FRAME_SLOTS_def Let_def)

lemma core_reachable_budget: "core_step\<^sup>*\<^sup>* ctx ctx' \<Longrightarrow> core_budget ctx \<Longrightarrow> core_budget ctx'"
  by (induction rule: rtranclp_induct) (auto intro: core_step_budget)

text \<open>The frame of a budget that fits is entered, and leaving it restores the context.\<close>

lemma frame_enter_leave:
  assumes "core_budget ctx" "active_frame_slots ctx + n \<le> MAX_ACTIVE_FRAME_SLOTS"
  shows "fst (oseo_frame_enter ctx n) = None" and "oseo_frame_leave (snd (oseo_frame_enter ctx n)) n = ctx"
  using assms by (auto simp: oseo_frame_enter_def oseo_frame_leave_def core_budget_def MAX_ACTIVE_FRAME_SLOTS_def)

lemma frame_enter_refused:
  assumes "core_budget ctx" "active_frame_slots ctx + n > MAX_ACTIVE_FRAME_SLOTS"
  shows "fst (oseo_frame_enter ctx n) \<noteq> None \<and> snd (oseo_frame_enter ctx n) = ctx"
  using assms by (auto simp: oseo_frame_enter_def core_budget_def MAX_ACTIVE_FRAME_SLOTS_def)

subsection \<open>The stack of root frames\<close>

text \<open>\<open>root_chain ctx p fs\<close>: the frames reached from \<open>p\<close> through \<open>previous\<close> are \<open>fs\<close>, all distinct.\<close>

inductive root_chain :: "(nat \<Rightarrow> root_frame) \<Rightarrow> nat \<Rightarrow> nat list \<Rightarrow> bool" for frames where
  root_nil: "root_chain frames 0 []"
| root_cons: "p \<noteq> 0 \<Longrightarrow> p \<notin> set fs \<Longrightarrow> root_chain frames (previous (frames p)) fs \<Longrightarrow> root_chain frames p (p # fs)"

inductive_cases root_chain_ConsE: "root_chain frames p (q # fs)"

lemma root_chain_frame: "root_chain frames p fs \<Longrightarrow> f \<notin> set fs \<Longrightarrow> root_chain (frames(f := r)) p fs"
  by (induction rule: root_chain.induct) (auto intro: root_chain.intros)

lemma roots_push_chain:
  assumes "root_chain (root_frames ctx) (roots ctx) fs" "f \<noteq> 0" "f \<notin> set fs"
  shows "root_chain (root_frames (oseo_roots_push ctx f)) (roots (oseo_roots_push ctx f)) (f # fs)"
proof -
  let ?frames = "(root_frames ctx)(f := (root_frames ctx f)\<lparr>previous := roots ctx\<rparr>)"
  have "root_chain ?frames (previous (?frames f)) fs" using root_chain_frame [OF assms(1,3)] by simp
  from root_cons [OF assms(2,3) this] show ?thesis by (simp add: oseo_roots_push_def)
qed

lemma roots_pop_chain:
  assumes "root_chain (root_frames ctx) (roots ctx) (f # fs)"
  shows "root_chain (root_frames (oseo_roots_pop ctx f)) (roots (oseo_roots_pop ctx f)) fs"
  using assms by (auto simp: oseo_roots_pop_def elim: root_chain_ConsE)

lemma roots_release_chain:
  assumes "root_chain (root_frames ctx) (roots ctx) (f # fs)"
  shows "root_chain (root_frames (oseo_roots_release ctx f)) (roots (oseo_roots_release ctx f)) fs"
  using roots_pop_chain [OF assms] assms
  by (auto simp: oseo_roots_release_def Let_def oseo_roots_pop_def elim!: root_chain_ConsE intro!: root_chain_frame)

lemma roots_allocate_chain:
  assumes "root_chain (root_frames ctx) (roots ctx) fs" "f \<noteq> 0" "f \<notin> set fs" "fst (oseo_roots_allocate ctx f n g) = None"
  shows "root_chain (root_frames (snd (oseo_roots_allocate ctx f n g))) (roots (snd (oseo_roots_allocate ctx f n g))) (f # fs)"
    and "slots (root_frames (snd (oseo_roots_allocate ctx f n g)) f) = replicate n 0"
proof -
  let ?ctx = "ctx\<lparr>root_frames := (root_frames ctx)(f := \<lparr>previous = 0, slots = replicate n 0\<rparr>)\<rparr>"
  have s: "snd (oseo_roots_allocate ctx f n g) = oseo_roots_push ?ctx f"
    using assms(4) by (auto simp: oseo_roots_allocate_def split: if_splits)
  have "root_chain (root_frames ?ctx) (roots ?ctx) fs" using root_chain_frame [OF assms(1,3)] by simp
  then show "root_chain (root_frames (snd (oseo_roots_allocate ctx f n g))) (roots (snd (oseo_roots_allocate ctx f n g))) (f # fs)"
    unfolding s by (rule roots_push_chain [OF _ assms(2,3)])
  show "slots (root_frames (snd (oseo_roots_allocate ctx f n g)) f) = replicate n 0"
    unfolding s by (simp add: oseo_roots_push_def)
qed

lemma random_live_iterate: "random_live s \<Longrightarrow> random_live (((snd \<circ> math_random) ^^ n) s)"
  by (induction n) (simp_all add: math_random_live)

lemma realm_random:
  "(word0 (fst (realm_init a)) = word0 (fst (realm_init b))) = (a = b)
   \<and> random_live (((snd \<circ> math_random) ^^ n) (fst (realm_init a)))
   \<and> (let draw = fst (math_random s)
      in isfinite draw \<and> 0 \<le> scaled draw \<and> scaled draw < scaled dbl_one)"
  using realm_init_distinct [of a b] random_live_iterate [OF realm_init_live] math_random_range [of s]
  unfolding Let_def dbl_constants by blast

end
