(* ===== verification/Heap_Objects.thy ===== *)
theory Heap_Objects
  imports Values BigInt_Value
begin

text \<open>
  The traced heap (\<open>runtime_internal.h\<close>): the header every heap object starts with, and for each
  heap kind the fields that \<open>trace_object\<close> of \<open>runtime_memory.c\<close> reads, in the order it marks
  them. A kind is a constructor of \<open>heap_body\<close> (\<open>OSEO_HEAP_STRING\<close> is \<open>HEAP_STRING\<close>); the kinds
  that begin with an \<open>OseoOrdinaryObject\<close> are the constructors of \<open>exotic\<close>. Fields the collector
  never reads are left out; a field name that several structs share carries a prefix. A pointer is the address of its block, \<open>0\<close> for \<open>NULL\<close>, and the
  store maps the addresses of the published blocks to the blocks.
\<close>

subsection \<open>Bodies\<close>

text \<open>\<open>OseoProperty\<close>, \<open>OseoPrivateElement\<close> and \<open>OseoClassElement\<close> have the same four traced
  fields.\<close>

record element_slot =
  slot_key :: oseo_value
  slot_value :: oseo_value
  slot_getter :: oseo_value
  slot_setter :: oseo_value

text \<open>An entry of the regular expression literal cache has a descriptor (\<open>0\<close> when unused).\<close>

record regexp_cache_entry =
  cache_literal :: u64
  cache_matcher :: oseo_value

record realm =
  intrinsics :: "oseo_value list"
  global_this :: oseo_value
  global_lexicals :: oseo_value
  template_cache :: "oseo_value list"
  regexp_literal_cache :: "regexp_cache_entry list"

record cell =
  cell_value :: oseo_value
  cell_object :: oseo_value
  cell_key :: oseo_value
  object_environment :: bool

record ephemeron_table =
  table_head :: oseo_value
  table_tail :: oseo_value
  table_live :: nat
  table_index :: "oseo_value list"
  table_used :: nat

record ephemeron_entry =
  next_entry :: oseo_value
  previous_entry :: oseo_value
  entry_key :: oseo_value
  entry_value :: oseo_value

record finalization_registry =
  registry_callback :: oseo_value
  cell_head :: oseo_value
  cell_tail :: oseo_value

record finalization_cell =
  next_cell :: oseo_value
  cell_queue_next :: oseo_value
  cell_registry :: oseo_value
  cell_target :: oseo_value
  cell_holdings :: oseo_value
  cell_token :: oseo_value
  cell_order :: u64
  cell_queued :: bool
  cell_processed :: bool

record generator =
  gen_callee :: oseo_value
  gen_receiver :: oseo_value
  gen_sent :: oseo_value
  async_function_capability :: oseo_value
  request_head :: oseo_value
  request_tail :: oseo_value
  generator_slots :: "oseo_value list"

datatype iterator_kind =
    ITERATOR_NONE | ARRAY_ITERATOR_KEY | ARRAY_ITERATOR_VALUE | ARRAY_ITERATOR_KEY_AND_VALUE
  | STRING_ITERATOR_VALUE

record ordinary_object =
  prototype :: oseo_value
  properties :: "element_slot list"
  private_elements :: "element_slot list"
  primitive_data :: bool
  primitive_value :: oseo_value
  iterator_kind :: iterator_kind
  iterator_target :: oseo_value
  regexp_string_iterator :: bool
  regexp_iterator_regexp :: oseo_value
  regexp_iterator_subject :: oseo_value
  async_from_sync :: bool
  async_sync_iterator :: oseo_value
  wrap_for_valid_iterator :: bool
  wrapped_iterator :: oseo_value
  wrapped_next :: oseo_value
  generator :: "generator option"

record function_object =
  fn_environment :: oseo_value
  lexical_this :: oseo_value
  lexical_new_target :: oseo_value
  lexical_super :: oseo_value
  prototype_object :: oseo_value
  home_object :: oseo_value
  initial_name :: oseo_value
  source_text :: oseo_value
  function_realm :: oseo_value
  bound_target :: oseo_value
  bound_this :: oseo_value
  bound_arguments :: oseo_value
  class_elements :: "element_slot list"

record promise =
  promise_result :: oseo_value
  reaction_head :: oseo_value
  reaction_tail :: oseo_value
  unhandled_next :: oseo_value
  promise_realm :: oseo_value

record map_entry =
  map_key :: oseo_value
  map_value :: oseo_value
  map_live :: bool

record set_element =
  set_value :: oseo_value
  set_present :: bool

record iterator_helper =
  underlying_iterator :: oseo_value
  underlying_next :: oseo_value
  helper_callback :: oseo_value
  inner_iterator :: oseo_value
  inner_next :: oseo_value

record disposable_stack =
  stack_resources :: "oseo_value list"
  stack_capability :: oseo_value
  stack_error :: oseo_value
  await_value :: oseo_value
  stack_promise :: oseo_value
  on_fulfilled :: oseo_value
  on_rejected :: oseo_value

datatype exotic =
    HEAP_OBJECT | HEAP_ARRAY | HEAP_ARRAY_BUFFER | HEAP_DATE
  | HEAP_FUNCTION function_object
  | HEAP_PROMISE promise
  | HEAP_MAP "map_entry list"
  | HEAP_MAP_ITERATOR oseo_value
  | HEAP_DATA_VIEW oseo_value
  | HEAP_TYPED_ARRAY oseo_value
  | HEAP_REGEXP oseo_value
  | HEAP_ITERATOR_HELPER iterator_helper
  | HEAP_PROXY oseo_value oseo_value
  | HEAP_SET "set_element list"
  | HEAP_SET_ITERATOR oseo_value
  | HEAP_WEAK_MAP oseo_value
  | HEAP_WEAK_SET oseo_value
  | HEAP_WEAK_REF oseo_value
  | HEAP_FINALIZATION_REGISTRY_OBJECT oseo_value
  | HEAP_DISPOSABLE_STACK disposable_stack

record promise_reaction =
  next_reaction :: oseo_value
  reaction_fulfilled :: oseo_value
  reaction_rejected :: oseo_value
  reaction_capability :: oseo_value
  reaction_aggregate :: oseo_value

record job =
  next_job :: oseo_value
  job_primary :: oseo_value
  job_secondary :: oseo_value
  job_argument :: oseo_value
  job_realm :: oseo_value

record atomics_waiter =
  next_waiter :: oseo_value
  waiter_buffer :: oseo_value
  waiter_promise :: oseo_value
  waiter_timer :: oseo_value

datatype heap_body =
    HEAP_BIGINT bigint
  | HEAP_STRING "u16 list"
  | HEAP_PRIVATE_NAME
  | HEAP_REALM realm
  | HEAP_REGEXP_MATCHER oseo_value oseo_value
  | HEAP_ENVIRONMENT "u64 list" "oseo_value list"
  | HEAP_CELL cell
  | HEAP_SYMBOL oseo_value
  | HEAP_ARGUMENT_LIST "oseo_value list"
  | HEAP_EPHEMERON_TABLE ephemeron_table
  | HEAP_EPHEMERON_ENTRY ephemeron_entry
  | HEAP_WEAK_REFERENCE oseo_value
  | HEAP_FINALIZATION_REGISTRY finalization_registry
  | HEAP_FINALIZATION_CELL finalization_cell
  | HEAP_ENUMERATION oseo_value oseo_value oseo_value
  | HEAP_ORDINARY ordinary_object exotic
  | HEAP_PROMISE_REACTION promise_reaction
  | HEAP_JOB job
  | HEAP_PROMISE_AGGREGATE oseo_value oseo_value
  | HEAP_ASYNC_GENERATOR_REQUEST oseo_value oseo_value oseo_value
  | HEAP_TIMER oseo_value oseo_value oseo_value oseo_value
  | HEAP_ATOMICS_WAITER atomics_waiter

subsection \<open>The heap bitmap of an environment\<close>

definition lowest_step :: "nat \<Rightarrow> u64 \<Rightarrow> nat \<times> u64 \<Rightarrow> nat \<times> u64" where
  "lowest_step width low_mask = (\<lambda>(index, bits).
     if bits AND low_mask = 0 then (index + width, drop_bit width bits) else (index, bits))"

definition heap_bitmap_lowest_bit :: "u64 \<Rightarrow> nat" where
  "heap_bitmap_lowest_bit bits =
     (let s = (0, bits);
          s = lowest_step 32 0xffffffff s;
          s = lowest_step 16 0xffff s;
          s = lowest_step 8 0xff s;
          s = lowest_step 4 0xf s;
          (index, bits) = lowest_step 2 0x3 s
      in if bits AND 0x1 = 0 then index + 1 else index)"

lemma clear_lowest_less:
  assumes "(x :: u64) \<noteq> 0"
  shows "unat (x AND (x - 1)) < unat x"
proof -
  have "unat (x AND (x - 1)) \<le> unat (x - 1)" by (simp add: word_and_le1 flip: word_le_nat_alt)
  also have "unat (x - 1) = unat x - 1" using assms by (metis unat_minus_one)
  also have "\<dots> < unat x" using assms by (simp add: unat_gt_0)
  finally show ?thesis .
qed

text \<open>The \<open>while (bits != 0)\<close> loop over one bitmap word: the slots it marks.\<close>

function word_slots :: "nat \<Rightarrow> u64 \<Rightarrow> nat list" where
  "word_slots word bits =
     (if bits \<noteq> 0 then (word * 64 + heap_bitmap_lowest_bit bits) # word_slots word (bits AND (bits - 1))
      else [])"
  by auto

termination by (relation "measure (\<lambda>(word, bits). unat bits)") (use clear_lowest_less in auto)

declare word_slots.simps [simp del]

definition bitmap_slots :: "u64 list \<Rightarrow> nat list" where
  "bitmap_slots bitmap = concat (map (\<lambda>word. word_slots word (bitmap ! word)) [0..<length bitmap])"

lemma take_bit_0_iff: "take_bit n (x :: 'a::len word) = 0 \<longleftrightarrow> (\<forall>k<n. \<not> bit x k)"
  by (auto simp: bit_eq_iff bit_take_bit_iff dest: bit_imp_le_length)

text \<open>Between the steps of the search: the bits left are those of \<open>w\<close> from \<open>index\<close> on, one of the
  lowest \<open>m\<close> of them is set, and \<open>w\<close> has no bit below \<open>index\<close>.\<close>

definition lowest_inv :: "u64 \<Rightarrow> nat \<Rightarrow> nat \<times> u64 \<Rightarrow> bool" where
  "lowest_inv w m s \<longleftrightarrow> (\<exists>k<m. bit (snd s) k) \<and> snd s = drop_bit (fst s) w \<and> (\<forall>k<fst s. \<not> bit w k)"

lemma lowest_step_inv:
  assumes inv: "lowest_inv w (2 * width) s" and low_mask: "low_mask = mask width"
  shows "lowest_inv w width (lowest_step width low_mask s)"
proof -
  obtain index bits where s: "s = (index, bits)" by (cases s)
  have low: "bits AND low_mask = 0 \<longleftrightarrow> (\<forall>k<width. \<not> bit bits k)"
    unfolding low_mask by (simp add: take_bit_0_iff flip: take_bit_eq_mask)
  have bits: "bits = drop_bit index w" and none: "\<forall>k<index. \<not> bit w k"
    using inv by (simp_all add: lowest_inv_def s)
  obtain k where k: "k < 2 * width" "bit bits k" using inv by (auto simp: lowest_inv_def s)
  show ?thesis
  proof (cases "bits AND low_mask = 0")
    case True
    then have z: "\<And>j. j < width \<Longrightarrow> \<not> bit bits j" using low by blast
    then have "width \<le> k" using k(2) by (meson not_le)
    then have "k - width < width" "bit (drop_bit width bits) (k - width)" using k by (simp_all add: bit_drop_bit_eq)
    then have "\<exists>j<width. bit (drop_bit width bits) j" by blast
    moreover have "\<not> bit w j" if "j < index + width" for j
      using none z [of "j - index"] that by (cases "j < index") (auto simp: bits bit_drop_bit_eq)
    ultimately show ?thesis using True by (simp add: s lowest_inv_def lowest_step_def bits add.commute)
  next
    case False
    then show ?thesis using low bits none by (auto simp: s lowest_inv_def lowest_step_def)
  qed
qed

text \<open>The binary search finds the least set bit.\<close>

lemma heap_bitmap_lowest_bit:
  assumes "bits \<noteq> 0"
  shows "bit bits (heap_bitmap_lowest_bit bits)" and "\<And>n. n < heap_bitmap_lowest_bit bits \<Longrightarrow> \<not> bit bits n"
proof -
  define s5 where "s5 = lowest_step 2 0x3 (lowest_step 4 0xf (lowest_step 8 0xff
    (lowest_step 16 0xffff (lowest_step 32 0xffffffff (0, bits)))))"
  obtain k where "bit bits k" using assms by (auto simp: bit_eq_iff)
  then have "k < 64" "bit bits k" using bit_imp_le_length [of bits k] by auto
  then have "lowest_inv bits (2 * 32) (0, bits)" by (auto simp: lowest_inv_def)
  then have "lowest_inv bits 32 (lowest_step 32 0xffffffff (0, bits))"
    by (rule lowest_step_inv) (simp add: mask_eq_exp_minus_1)
  then have "lowest_inv bits (2 * 16) (lowest_step 32 0xffffffff (0, bits))" by simp
  then have "lowest_inv bits 16 (lowest_step 16 0xffff (lowest_step 32 0xffffffff (0, bits)))"
    by (rule lowest_step_inv) (simp add: mask_eq_exp_minus_1)
  then have "lowest_inv bits (2 * 8) (lowest_step 16 0xffff (lowest_step 32 0xffffffff (0, bits)))" by simp
  then have "lowest_inv bits 8 (lowest_step 8 0xff (lowest_step 16 0xffff (lowest_step 32 0xffffffff (0, bits))))"
    by (rule lowest_step_inv) (simp add: mask_eq_exp_minus_1)
  then have "lowest_inv bits (2 * 4) (lowest_step 8 0xff (lowest_step 16 0xffff (lowest_step 32 0xffffffff (0, bits))))" by simp
  then have "lowest_inv bits 4 (lowest_step 4 0xf (lowest_step 8 0xff
      (lowest_step 16 0xffff (lowest_step 32 0xffffffff (0, bits)))))"
    by (rule lowest_step_inv) (simp add: mask_eq_exp_minus_1)
  then have "lowest_inv bits (2 * 2) (lowest_step 4 0xf (lowest_step 8 0xff
      (lowest_step 16 0xffff (lowest_step 32 0xffffffff (0, bits)))))" by simp
  then have inv: "lowest_inv bits 2 s5" unfolding s5_def
    by (rule lowest_step_inv) (simp add: mask_eq_exp_minus_1)
  obtain index rest where s: "s5 = (index, rest)" by (cases s5)
  have r: "heap_bitmap_lowest_bit bits = (if rest AND 1 = 0 then index + 1 else index)"
    unfolding heap_bitmap_lowest_bit_def Let_def s5_def [symmetric] s by simp
  have rest: "bit rest j \<longleftrightarrow> bit bits (index + j)" for j
    using inv by (simp add: lowest_inv_def s bit_drop_bit_eq)
  have one: "rest AND 1 = 0 \<longleftrightarrow> \<not> bit bits index"
    using rest [of 0] by (auto simp: and_one_eq bit_0 even_iff_mod_2_eq_zero)
  have "bit bits index \<or> bit bits (index + 1)"
    using inv rest by (auto simp: lowest_inv_def s less_2_cases_iff)
  then show "bit bits (heap_bitmap_lowest_bit bits)" by (auto simp: r one)
  show "\<not> bit bits n" if "n < heap_bitmap_lowest_bit bits" for n
    using that inv by (cases "n = index") (auto simp: lowest_inv_def s r one split: if_splits)
qed

lemma clear_lowest:
  assumes "(x :: u64) \<noteq> 0"
  shows "x AND (x - 1) = unset_bit (heap_bitmap_lowest_bit x) x"
proof -
  define l where "l = heap_bitmap_lowest_bit x"
  define y where "y = unset_bit l x"
  have l: "bit x l" "\<And>n. n < l \<Longrightarrow> \<not> bit x n" using heap_bitmap_lowest_bit [OF assms] by (auto simp: l_def)
  then have l64: "l < 64" using bit_imp_le_length [of x l] by simp
  have y: "bit y n \<longleftrightarrow> bit x n \<and> n \<noteq> l" for n by (auto simp: y_def bit_unset_bit_iff)
  have "x = y OR 2 ^ l" by (rule bit_eqI) (use l(1) in \<open>auto simp: bit_or_iff y bit_exp_iff\<close>)
  also have "\<dots> = y + 2 ^ l"
    by (rule disjunctive_add_eq_or [symmetric]) (rule and_zeroI, auto simp: y bit_exp_iff)
  finally have "x - 1 = y + mask l" by (simp add: mask_eq_exp_minus_1)
  also have "\<dots> = y OR mask l"
    by (rule disjunctive_add_eq_or) (use l(2) in \<open>auto simp: bit_eq_iff bit_and_iff y bit_mask_iff\<close>)
  finally show ?thesis using l(2)
    by (auto simp: bit_eq_iff bit_and_iff bit_or_iff y bit_mask_iff bit_unset_bit_iff simp flip: l_def)
qed

text \<open>The loop visits exactly the set bits of the word, in increasing order.\<close>

lemma word_slots_eq:
  "word_slots word bits = map ((+) (word * 64)) (filter (bit bits) [0..<64])"
proof (induction word bits rule: word_slots.induct)
  case (1 word bits)
  show ?case
  proof (cases "bits = 0")
    case True
    then show ?thesis by (simp add: word_slots.simps)
  next
    case False
    define l where "l = heap_bitmap_lowest_bit bits"
    have l: "bit bits l" "\<And>n. n < l \<Longrightarrow> \<not> bit bits n" using heap_bitmap_lowest_bit [OF False] by (auto simp: l_def)
    then have "l < 64" using bit_imp_le_length [of bits l] by simp
    then have upt: "[0..<64] = [0..<l] @ l # [Suc l..<64]" using upt_add_eq_append [of 0 l "64 - l"] by (simp add: upt_conv_Cons)
    have rest: "bit (bits AND (bits - 1)) n \<longleftrightarrow> bit bits n \<and> n \<noteq> l" for n
      unfolding clear_lowest [OF False] by (auto simp: bit_unset_bit_iff l_def)
    have "filter (bit bits) [0..<64] = l # filter (bit (bits AND (bits - 1))) [0..<64]"
      unfolding upt using l by (auto simp: rest filter_empty_conv intro!: filter_cong)
    with 1 [OF False] False show ?thesis by (simp add: word_slots.simps [of word bits] l_def)
  qed
qed

subsection \<open>Traced edges\<close>

text \<open>The values \<open>trace_object\<close> passes to \<open>mark_value\<close>, in its order.\<close>

definition realm_edges :: "realm \<Rightarrow> oseo_value list" where
  "realm_edges r =
     intrinsics r @ [global_this r, global_lexicals r] @ template_cache r @
     map cache_matcher (filter (\<lambda>e. cache_literal e \<noteq> 0) (regexp_literal_cache r))"

definition slot_edges :: "element_slot \<Rightarrow> oseo_value list" where
  "slot_edges p = [slot_key p, slot_value p, slot_getter p, slot_setter p]"

definition generator_edges :: "generator \<Rightarrow> oseo_value list" where
  "generator_edges g =
     [gen_callee g, gen_receiver g, gen_sent g, async_function_capability g, request_head g, request_tail g]
     @ generator_slots g"

definition ordinary_edges :: "ordinary_object \<Rightarrow> oseo_value list" where
  "ordinary_edges ob =
     [prototype ob] @
     (if primitive_data ob then [primitive_value ob] else []) @
     (if iterator_kind ob \<noteq> ITERATOR_NONE then [iterator_target ob] else []) @
     (if regexp_string_iterator ob then [regexp_iterator_subject ob, regexp_iterator_regexp ob] else []) @
     (if async_from_sync ob then [async_sync_iterator ob] else []) @
     (if wrap_for_valid_iterator ob then [wrapped_iterator ob, wrapped_next ob] else []) @
     (case generator ob of None \<Rightarrow> [] | Some g \<Rightarrow> generator_edges g) @
     concat (map slot_edges (properties ob)) @
     concat (map slot_edges (private_elements ob))"

definition function_edges :: "function_object \<Rightarrow> oseo_value list" where
  "function_edges f =
     [fn_environment f, lexical_this f, lexical_new_target f, lexical_super f, prototype_object f,
      home_object f, initial_name f, source_text f, function_realm f, bound_target f, bound_this f,
      bound_arguments f] @ concat (map slot_edges (class_elements f))"

fun exotic_edges :: "exotic \<Rightarrow> oseo_value list" where
  "exotic_edges HEAP_OBJECT = []"
| "exotic_edges HEAP_ARRAY = []"
| "exotic_edges HEAP_ARRAY_BUFFER = []"
| "exotic_edges HEAP_DATE = []"
| "exotic_edges (HEAP_FUNCTION f) = function_edges f"
| "exotic_edges (HEAP_PROMISE p) =
     [promise_result p, reaction_head p, reaction_tail p, unhandled_next p, promise_realm p]"
| "exotic_edges (HEAP_MAP es) = concat (map (\<lambda>e. if map_live e then [map_key e, map_value e] else []) es)"
| "exotic_edges (HEAP_MAP_ITERATOR map_target) = [map_target]"
| "exotic_edges (HEAP_DATA_VIEW viewed) = [viewed]"
| "exotic_edges (HEAP_TYPED_ARRAY viewed) = [viewed]"
| "exotic_edges (HEAP_REGEXP matcher) = [matcher]"
| "exotic_edges (HEAP_ITERATOR_HELPER h) =
     [underlying_iterator h, underlying_next h, helper_callback h, inner_iterator h, inner_next h]"
| "exotic_edges (HEAP_PROXY proxy_target handler) = [proxy_target, handler]"
| "exotic_edges (HEAP_SET es) = map set_value (filter set_present es)"
| "exotic_edges (HEAP_SET_ITERATOR s) = [s]"
| "exotic_edges (HEAP_WEAK_MAP table) = [table]"
| "exotic_edges (HEAP_WEAK_SET table) = [table]"
| "exotic_edges (HEAP_WEAK_REF reference) = [reference]"
| "exotic_edges (HEAP_FINALIZATION_REGISTRY_OBJECT r) = [r]"
| "exotic_edges (HEAP_DISPOSABLE_STACK d) =
     [stack_capability d, stack_error d, await_value d, stack_promise d, on_fulfilled d, on_rejected d]
     @ stack_resources d"

fun edges :: "heap_body \<Rightarrow> oseo_value list" where
  "edges (HEAP_BIGINT b) = []"
| "edges (HEAP_STRING units) = []"
| "edges HEAP_PRIVATE_NAME = []"
| "edges (HEAP_REALM r) = realm_edges r"
| "edges (HEAP_REGEXP_MATCHER source flags) = [source, flags]"
| "edges (HEAP_ENVIRONMENT bitmap slots) = map (\<lambda>i. slots ! i) (bitmap_slots bitmap)"
| "edges (HEAP_CELL c) = [cell_value c] @ (if object_environment c then [cell_object c, cell_key c] else [])"
| "edges (HEAP_SYMBOL description) = [description]"
| "edges (HEAP_ARGUMENT_LIST values) = values"
| "edges (HEAP_EPHEMERON_TABLE t) = [table_head t, table_tail t]"
| "edges (HEAP_EPHEMERON_ENTRY e) = [next_entry e]"
| "edges (HEAP_WEAK_REFERENCE weak_target) = []"
| "edges (HEAP_FINALIZATION_REGISTRY r) = [registry_callback r, cell_head r, cell_tail r]"
| "edges (HEAP_FINALIZATION_CELL c) =
     [next_cell c, cell_queue_next c, cell_registry c] @ (if \<not> cell_processed c then [cell_holdings c] else [])"
| "edges (HEAP_ENUMERATION receiver candidates visited) = [receiver, candidates, visited]"
| "edges (HEAP_ORDINARY ob kind) = ordinary_edges ob @ exotic_edges kind"
| "edges (HEAP_PROMISE_REACTION r) =
     [next_reaction r, reaction_fulfilled r, reaction_rejected r, reaction_capability r, reaction_aggregate r]"
| "edges (HEAP_JOB j) = [next_job j, job_primary j, job_secondary j, job_argument j, job_realm j]"
| "edges (HEAP_PROMISE_AGGREGATE capability values) = [capability, values]"
| "edges (HEAP_ASYNC_GENERATOR_REQUEST next_request capability value) = [next_request, capability, value]"
| "edges (HEAP_TIMER next_timer timer_callback arguments waiter) = [next_timer, timer_callback, arguments, waiter]"
| "edges (HEAP_ATOMICS_WAITER w) = [next_waiter w, waiter_buffer w, waiter_promise w, waiter_timer w]"

subsection \<open>The store\<close>

text \<open>A published block: the header fields the collector uses and the body. The list a context's
  \<open>objects\<close> threads through the header field \<open>next\<close>, which nothing else uses, is a list of
  addresses (\<open>heap_state\<close> of theory \<open>Collector\<close>).\<close>

record heap_object =
  marked :: bool
  trace_next :: u64
  ephemeron_pending :: u64
  body :: heap_body

type_synonym store = "u64 \<rightharpoonup> heap_object"

definition is_heap :: "oseo_value \<Rightarrow> bool" where
  "is_heap v \<longleftrightarrow> tag_of v = TAG_HEAP"

text \<open>The addresses of the heap objects a list of values refers to.\<close>

definition refs :: "oseo_value list \<Rightarrow> u64 set" where
  "refs vs = heap_address ` {v \<in> set vs. is_heap v}"

lemma refs_simps [simp]:
  "refs [] = {}" "refs (v # vs) = (if is_heap v then insert (heap_address v) (refs vs) else refs vs)"
  "refs (us @ vs) = refs us \<union> refs vs"
  by (auto simp: refs_def)

definition heap_value :: "u64 \<Rightarrow> oseo_value" where
  "heap_value address = tagged TAG_HEAP address"

lemma is_heap_value [simp]: "is_heap (heap_value a)"
  by (simp add: is_heap_def heap_value_def tag_of_tagged TAG_HEAP_def)

lemma heap_address_value [simp]: "a \<le> PAYLOAD_MASK \<Longrightarrow> heap_address (heap_value a) = a"
  by (simp add: heap_value_def tagged_heap_address)

lemma undefined_not_heap [simp]: "\<not> is_heap oseo_undefined"
  by (simp add: is_heap_def oseo_undefined_def tag_of_tagged tag_defs)

text \<open>An environment traces exactly the slots its bitmap marks.\<close>

lemma environment_edges:
  "set (edges (HEAP_ENVIRONMENT bitmap slots)) =
     {slots ! (64 * w + b) | w b. w < length bitmap \<and> b < 64 \<and> bit (bitmap ! w) b}"
proof -
  have "set (bitmap_slots bitmap) = {64 * w + b | w b. w < length bitmap \<and> b < 64 \<and> bit (bitmap ! w) b}"
    by (auto simp: bitmap_slots_def word_slots_eq mult.commute image_iff) blast
  then show ?thesis by auto
qed

end
