(* ===== verification/Collector_Mark.thy ===== *)
theory Collector_Mark
  imports Heap_Objects
begin

text \<open>
  The mark phase of the collector (\<open>runtime_memory.c\<close>): \<open>mark_value\<close>, \<open>trace_object\<close> and the
  ephemeron fixed point, over the store of \<open>Heap_Objects\<close>. The worklist and the pending lists of
  ephemeron entries are the chains the code threads through \<open>trace_next\<close>, which both share. Reading
  a link from an address without a block, undefined in C, gives \<open>None\<close>, and so does running out of
  the fuel that bounds the two loops; the main theorem shows neither happens. \<open>mark_value\<close> leaves
  the state as it is on such an address, which a well-formed heap does not hold.
\<close>

subsection \<open>The code\<close>

record trace_state =
  store :: store
  worklist :: u64

definition mark_value :: "oseo_value \<Rightarrow> trace_state \<Rightarrow> trace_state" where
  "mark_value v s =
     (if tag_of v \<noteq> TAG_HEAP then s
      else let a = heap_address v
           in case store s a of
                None \<Rightarrow> s
              | Some ob \<Rightarrow>
                  if marked ob then s
                  else s\<lparr>store := (store s)(a \<mapsto> ob\<lparr>marked := True, trace_next := worklist s\<rparr>), worklist := a\<rparr>)"

definition mark_values :: "oseo_value list \<Rightarrow> trace_state \<Rightarrow> trace_state" where
  "mark_values vs s = fold mark_value vs s"

definition trace_object :: "heap_body \<Rightarrow> trace_state \<Rightarrow> trace_state" where
  "trace_object b s = mark_values (edges b) s"

fun activate_loop :: "nat \<Rightarrow> u64 \<Rightarrow> trace_state \<Rightarrow> trace_state option" where
  "activate_loop 0 pending s = (if pending = 0 then Some s else None)"
| "activate_loop (Suc n) pending s =
     (if pending = 0 then Some s
      else case store s pending of
        None \<Rightarrow> None
      | Some ob \<Rightarrow>
          (case body ob of
             HEAP_EPHEMERON_ENTRY entry \<Rightarrow>
               activate_loop n (trace_next ob)
                 (mark_value (entry_value entry) (s\<lparr>store := (store s)(pending \<mapsto> ob\<lparr>trace_next := 0\<rparr>)\<rparr>))
           | _ \<Rightarrow> None))"

definition activate_ephemeron_values :: "nat \<Rightarrow> u64 \<Rightarrow> trace_state \<Rightarrow> trace_state option" where
  "activate_ephemeron_values n key s =
     (case store s key of
        None \<Rightarrow> None
      | Some ob \<Rightarrow>
          activate_loop n (ephemeron_pending ob) (s\<lparr>store := (store s)(key \<mapsto> ob\<lparr>ephemeron_pending := 0\<rparr>)\<rparr>))"

text \<open>What the loop body does for an entry: mark the value of a marked key, or park the entry on the
  pending list of its key.\<close>

definition visit_entry :: "u64 \<Rightarrow> ephemeron_entry \<Rightarrow> trace_state \<Rightarrow> trace_state option" where
  "visit_entry a entry s =
     (let key = heap_address (entry_key entry)
      in case store s key of
           None \<Rightarrow> None
         | Some key_ob \<Rightarrow>
             if marked key_ob then Some (mark_value (entry_value entry) s)
             else (case store s a of
                     None \<Rightarrow> None
                   | Some ob \<Rightarrow> Some (s\<lparr>store := (store s)
                       (a \<mapsto> ob\<lparr>trace_next := ephemeron_pending key_ob\<rparr>, key \<mapsto> key_ob\<lparr>ephemeron_pending := a\<rparr>)\<rparr>)))"

definition visit_object :: "u64 \<Rightarrow> heap_body \<Rightarrow> trace_state \<Rightarrow> trace_state option" where
  "visit_object a b s =
     (case b of HEAP_EPHEMERON_ENTRY entry \<Rightarrow> visit_entry a entry s | _ \<Rightarrow> Some s)"

definition trace_step :: "nat \<Rightarrow> trace_state \<Rightarrow> trace_state option" where
  "trace_step n s =
     (let a = worklist s
      in case store s a of
           None \<Rightarrow> None
         | Some ob \<Rightarrow>
             (let s = s\<lparr>worklist := trace_next ob, store := (store s)(a \<mapsto> ob\<lparr>trace_next := 0\<rparr>)\<rparr>;
                  s = trace_object (body ob) s
              in case visit_object a (body ob) s of
                   None \<Rightarrow> None
                 | Some s \<Rightarrow> activate_ephemeron_values n a s))"

fun trace_ephemeron_fixed_point :: "nat \<Rightarrow> nat \<Rightarrow> trace_state \<Rightarrow> trace_state option" where
  "trace_ephemeron_fixed_point n 0 s = (if worklist s = 0 then Some s else None)"
| "trace_ephemeron_fixed_point n (Suc fuel) s =
     (if worklist s = 0 then Some s
      else case trace_step n s of None \<Rightarrow> None | Some s \<Rightarrow> trace_ephemeron_fixed_point n fuel s)"

subsection \<open>What is reachable\<close>

text \<open>Reachability from a set of root addresses over the bodies of the store: along the traced
  edges, and from an ephemeron entry to its value once the entry and its key are both reachable.\<close>

inductive reachable :: "(u64 \<rightharpoonup> heap_body) \<Rightarrow> u64 set \<Rightarrow> u64 \<Rightarrow> bool" for bodies roots where
  root: "a \<in> roots \<Longrightarrow> reachable bodies roots a"
| edge: "reachable bodies roots a \<Longrightarrow> bodies a = Some b \<Longrightarrow> c \<in> refs (edges b) \<Longrightarrow> reachable bodies roots c"
| ephemeron: "reachable bodies roots a \<Longrightarrow> bodies a = Some (HEAP_EPHEMERON_ENTRY entry) \<Longrightarrow>
    is_heap (entry_key entry) \<Longrightarrow> reachable bodies roots (heap_address (entry_key entry)) \<Longrightarrow>
    c \<in> refs [entry_value entry] \<Longrightarrow> reachable bodies roots c"

definition bodies :: "store \<Rightarrow> u64 \<rightharpoonup> heap_body" where
  "bodies st = (\<lambda>a. map_option body (st a))"

text \<open>Memory safety of what is reachable: every reachable address has a block, and the key of a
  reachable ephemeron entry is a heap value with a block.\<close>

definition sound_heap :: "(u64 \<rightharpoonup> heap_body) \<Rightarrow> u64 set \<Rightarrow> bool" where
  "sound_heap bs roots \<longleftrightarrow>
     bs 0 = None \<and> (\<forall>a. reachable bs roots a \<longrightarrow> a \<in> dom bs) \<and>
     (\<forall>a entry. reachable bs roots a \<longrightarrow> bs a = Some (HEAP_EPHEMERON_ENTRY entry) \<longrightarrow>
        is_heap (entry_key entry) \<and> heap_address (entry_key entry) \<in> dom bs)"

subsection \<open>Chains\<close>

definition next_of :: "store \<Rightarrow> u64 \<Rightarrow> u64" where
  "next_of st a = (case st a of None \<Rightarrow> 0 | Some ob \<Rightarrow> trace_next ob)"

definition pending_of :: "store \<Rightarrow> u64 \<Rightarrow> u64" where
  "pending_of st a = (case st a of None \<Rightarrow> 0 | Some ob \<Rightarrow> ephemeron_pending ob)"

definition is_marked :: "store \<Rightarrow> u64 \<Rightarrow> bool" where
  "is_marked st a \<longleftrightarrow> (case st a of None \<Rightarrow> False | Some ob \<Rightarrow> marked ob)"

primrec chain :: "(u64 \<Rightarrow> u64) \<Rightarrow> u64 \<Rightarrow> u64 list \<Rightarrow> bool" where
  "chain nxt p [] \<longleftrightarrow> p = 0"
| "chain nxt p (a # as) \<longleftrightarrow> p = a \<and> a \<noteq> 0 \<and> chain nxt (nxt a) as"

lemma chain_0 [simp]: "chain nxt 0 as \<longleftrightarrow> as = []"
  by (cases as) auto

lemma chain_Cons: "chain nxt p as \<Longrightarrow> p \<noteq> 0 \<Longrightarrow> \<exists>bs. as = p # bs \<and> chain nxt (nxt p) bs"
  by (cases as) auto

lemma chain_cong: "(\<And>a. a \<in> set as \<Longrightarrow> nxt a = nxt' a) \<Longrightarrow> chain nxt p as = chain nxt' p as"
  by (induction as arbitrary: p) auto

subsection \<open>The invariant of the mark phase\<close>

text \<open>Objects are unmarked, grey (on the worklist \<open>W\<close>, or in \<open>G\<close> while they are being processed) or
  black. Entries whose key is not black may be parked: \<open>P k\<close> is the pending list of \<open>k\<close>.\<close>

definition threaded :: "(u64 \<Rightarrow> u64) \<Rightarrow> (u64 \<Rightarrow> u64) \<Rightarrow> u64 \<Rightarrow> u64 list \<Rightarrow> (u64 \<Rightarrow> u64 list) \<Rightarrow> u64 set \<Rightarrow> bool" where
  "threaded nxt pend wl W P G \<longleftrightarrow>
     chain nxt wl W \<and> distinct W \<and> set W \<inter> G = {} \<and>
     (\<forall>k. chain nxt (pend k) (P k) \<and> distinct (P k) \<and> set (P k) \<inter> (set W \<union> G) = {}) \<and>
     (\<forall>j k. j \<noteq> k \<longrightarrow> set (P j) \<inter> set (P k) = {})"

definition black :: "(u64 \<Rightarrow> bool) \<Rightarrow> u64 list \<Rightarrow> u64 set \<Rightarrow> u64 \<Rightarrow> bool" where
  "black mk W G a \<longleftrightarrow> mk a \<and> a \<notin> set W \<and> a \<notin> G"

definition waits :: "(u64 \<rightharpoonup> heap_body) \<Rightarrow> u64 \<Rightarrow> u64 \<Rightarrow> bool" where
  "waits bs a k \<longleftrightarrow> (\<exists>e. bs a = Some (HEAP_EPHEMERON_ENTRY e) \<and> is_heap (entry_key e) \<and> heap_address (entry_key e) = k)"

definition colors ::
  "(u64 \<rightharpoonup> heap_body) \<Rightarrow> u64 set \<Rightarrow> (u64 \<Rightarrow> bool) \<Rightarrow> u64 list \<Rightarrow> (u64 \<Rightarrow> u64 list) \<Rightarrow> u64 set \<Rightarrow> u64 set \<Rightarrow> bool" where
  "colors bs roots mk W P G E \<longleftrightarrow>
     (\<forall>a. mk a \<longrightarrow> reachable bs roots a) \<and>
     (\<forall>a \<in> set W \<union> G. mk a) \<and>
     (\<forall>k. \<forall>a \<in> set (P k). mk a \<and> waits bs a k) \<and>
     (\<forall>a b. black mk W G a \<longrightarrow> bs a = Some b \<longrightarrow> (\<forall>c \<in> refs (edges b). mk c)) \<and>
     (\<forall>a e. black mk W G a \<longrightarrow> bs a = Some (HEAP_EPHEMERON_ENTRY e) \<longrightarrow>
        (\<forall>c \<in> refs [entry_value e]. mk c) \<or> a \<in> set (P (heap_address (entry_key e)))) \<and>
     (\<forall>k. black mk W (G \<union> E) k \<longrightarrow> P k = [])"

definition mark_inv ::
  "(u64 \<rightharpoonup> heap_body) \<Rightarrow> u64 set \<Rightarrow> trace_state \<Rightarrow> u64 list \<Rightarrow> (u64 \<Rightarrow> u64 list) \<Rightarrow> u64 set \<Rightarrow> u64 set \<Rightarrow> bool" where
  "mark_inv bs roots s W P G E \<longleftrightarrow>
     bodies (store s) = bs \<and>
     threaded (next_of (store s)) (pending_of (store s)) (worklist s) W P G \<and>
     colors bs roots (is_marked (store s)) W P G E"

lemma view_update:
  "next_of (st(a \<mapsto> ob)) = (next_of st)(a := trace_next ob)"
  "pending_of (st(a \<mapsto> ob)) = (pending_of st)(a := ephemeron_pending ob)"
  "is_marked (st(a \<mapsto> ob)) = (is_marked st)(a := marked ob)"
  "bodies (st(a \<mapsto> ob)) = (bodies st)(a \<mapsto> body ob)"
  by (simp_all add: fun_eq_iff next_of_def pending_of_def is_marked_def bodies_def)

lemma view_lookup:
  "st a = Some ob \<Longrightarrow> next_of st a = trace_next ob"
  "st a = Some ob \<Longrightarrow> pending_of st a = ephemeron_pending ob"
  "st a = Some ob \<Longrightarrow> is_marked st a = marked ob"
  "st a = Some ob \<Longrightarrow> bodies st a = Some (body ob)"
  by (simp_all add: next_of_def pending_of_def is_marked_def bodies_def)

lemma view_same:
  "st a = Some ob \<Longrightarrow> marked ob' = marked ob \<Longrightarrow> (is_marked st)(a := marked ob') = is_marked st"
  "st a = Some ob \<Longrightarrow> ephemeron_pending ob' = ephemeron_pending ob \<Longrightarrow>
     (pending_of st)(a := ephemeron_pending ob') = pending_of st"
  "st a = Some ob \<Longrightarrow> body ob' = body ob \<Longrightarrow> (bodies st)(a \<mapsto> body ob') = bodies st"
  by (simp_all add: fun_eq_iff view_lookup)

lemma marked_dom: "is_marked st a \<Longrightarrow> a \<in> dom st"
  by (auto simp: is_marked_def split: option.splits)

lemma dom_bodies [simp]: "dom (bodies st) = dom st"
  by (auto simp: bodies_def)

lemma threaded_mark:
  assumes "threaded nxt pend wl W P G" "a \<noteq> 0" "a \<notin> set W" "a \<notin> G" "\<And>k. a \<notin> set (P k)"
  shows "threaded (nxt(a := wl)) pend a (a # W) P G"
proof -
  have same: "chain (nxt(a := wl)) p as = chain nxt p as" if "a \<notin> set as" for p as
    using that by (intro chain_cong) auto
  show ?thesis using assms by (auto simp: threaded_def same)
qed

lemma colors_mark:
  assumes "colors bs roots mk W P G E" "\<not> mk a" "reachable bs roots a"
  shows "colors bs roots (mk(a := True)) (a # W) P G E"
proof -
  have "black (mk(a := True)) (a # W) H c = black mk W H c" for c H
    using assms(2) by (auto simp: black_def)
  then show ?thesis using assms unfolding colors_def by auto
qed

text \<open>How a step changes the state: marks are kept, and every newly marked object is put on the
  worklist.\<close>

definition grows :: "trace_state \<Rightarrow> u64 list \<Rightarrow> trace_state \<Rightarrow> u64 list \<Rightarrow> bool" where
  "grows s W s' W' \<longleftrightarrow>
     (\<forall>a. is_marked (store s) a \<longrightarrow> is_marked (store s') a) \<and>
     card {a \<in> dom (store s). \<not> is_marked (store s) a} + length W =
       card {a \<in> dom (store s'). \<not> is_marked (store s') a} + length W'"

lemma grows_refl: "grows s W s W"
  by (simp add: grows_def)

lemma grows_trans: "grows s W s' W' \<Longrightarrow> grows s' W' s'' W'' \<Longrightarrow> grows s W s'' W''"
  by (simp add: grows_def)

lemma grows_marked: "grows s W s' W' \<Longrightarrow> is_marked (store s) a \<Longrightarrow> is_marked (store s') a"
  by (simp add: grows_def)

lemma mark_value_inv:
  assumes inv: "mark_inv bs roots s W P G E" and sound: "sound_heap bs roots"
    and v: "\<And>a. a \<in> refs [v] \<Longrightarrow> reachable bs roots a"
  shows "\<exists>W'. mark_inv bs roots (mark_value v s) W' P G E \<and> grows s W (mark_value v s) W' \<and>
    (\<forall>a \<in> refs [v]. is_marked (store (mark_value v s)) a) \<and>
    (\<forall>a. a \<in> set W' - set W \<or> store (mark_value v s) a = store s a)"
proof (cases "is_heap v \<and> \<not> is_marked (store s) (heap_address v)")
  case False
  then have "mark_value v s = s \<or> is_heap v \<and> store s (heap_address v) = None"
    by (auto simp: mark_value_def is_heap_def is_marked_def Let_def split: option.splits)
  moreover have "store s (heap_address v) \<noteq> None" if "is_heap v"
    using False that marked_dom [of "store s" "heap_address v"] by auto
  moreover have "is_marked (store s) a" if "a \<in> refs [v]" for a using that False by (auto split: if_splits)
  ultimately show ?thesis using inv grows_refl by (intro exI [of _ W]) auto
next
  case True
  define a where "a = heap_address v"
  have r: "refs [v] = {a}" using True by (simp add: a_def)
  then have reach: "reachable bs roots a" using v by simp
  then have dom: "a \<in> dom bs" "a \<noteq> 0" using sound by (auto simp: sound_heap_def)
  then obtain ob where ob: "store s a = Some ob" using inv by (auto simp: mark_inv_def bodies_def)
  have un: "\<not> is_marked (store s) a" using True by (simp add: a_def)
  then have um: "\<not> marked ob" by (simp add: view_lookup(3) [of "store s" a, OF ob])
  define s' where "s' = s\<lparr>store := (store s)(a \<mapsto> ob\<lparr>marked := True, trace_next := worklist s\<rparr>), worklist := a\<rparr>"
  have s': "mark_value v s = s'"
    using True ob um by (simp add: mark_value_def is_heap_def Let_def a_def [symmetric] s'_def)
  have inv': "colors bs roots (is_marked (store s)) W P G E" "threaded (next_of (store s)) (pending_of (store s)) (worklist s) W P G"
    using inv by (simp_all add: mark_inv_def)
  have fresh: "a \<notin> set W" "a \<notin> G" "\<And>k. a \<notin> set (P k)" using inv'(1) un by (auto simp: colors_def)
  have pend: "(pending_of (store s))(a := ephemeron_pending ob) = pending_of (store s)"
    using view_lookup(2) [of "store s" a, OF ob] by auto
  have "mark_inv bs roots s' (a # W) P G E"
    using inv threaded_mark [OF inv'(2) dom(2) fresh] colors_mark [OF inv'(1) un reach]
    by (auto simp: mark_inv_def s'_def view_update pend bodies_def ob)
  moreover have mk: "is_marked (store s') = (is_marked (store s))(a := True)" by (simp add: s'_def view_update)
  moreover have "grows s W s' (a # W)"
  proof -
    have dom': "dom (store s') = dom (store s)" using ob by (auto simp: s'_def)
    have "{c \<in> dom (store s). \<not> is_marked (store s) c} = insert a {c \<in> dom (store s'). \<not> is_marked (store s') c}"
      using ob un by (auto simp: mk dom')
    moreover have "card (insert a {c \<in> dom (store s'). \<not> is_marked (store s') c}) = Suc (card {c \<in> dom (store s'). \<not> is_marked (store s') c})"
      by (subst card_insert_disjoint) (simp_all add: mk)
    ultimately show ?thesis by (auto simp: grows_def mk)
  qed
  moreover have "c \<in> set (a # W) - set W \<or> store s' c = store s c" for c
    using fresh(1) by (auto simp: s'_def)
  ultimately show ?thesis unfolding s' r by (intro exI [of _ "a # W"]) (simp add: mk)
qed

lemma mark_values_inv:
  assumes "mark_inv bs roots s W P G E" "sound_heap bs roots" "\<And>a. a \<in> refs vs \<Longrightarrow> reachable bs roots a"
  shows "\<exists>W'. mark_inv bs roots (mark_values vs s) W' P G E \<and> grows s W (mark_values vs s) W' \<and>
    (\<forall>a \<in> refs vs. is_marked (store (mark_values vs s)) a)"
  using assms
proof (induction vs arbitrary: s W)
  case Nil
  then show ?case using grows_refl by (intro exI [of _ W]) (simp add: mark_values_def)
next
  case (Cons v vs)
  have r: "\<And>a. a \<in> refs [v] \<Longrightarrow> reachable bs roots a" using Cons.prems(3) by (auto split: if_splits)
  obtain W1 where W1: "mark_inv bs roots (mark_value v s) W1 P G E" "grows s W (mark_value v s) W1"
    "\<forall>a \<in> refs [v]. is_marked (store (mark_value v s)) a"
    using mark_value_inv [OF Cons.prems(1,2) r] by blast
  have r': "\<And>a. a \<in> refs vs \<Longrightarrow> reachable bs roots a" using Cons.prems(3) by (auto split: if_splits)
  obtain W2 where W2: "mark_inv bs roots (mark_values vs (mark_value v s)) W2 P G E"
    "grows (mark_value v s) W1 (mark_values vs (mark_value v s)) W2"
    "\<forall>a \<in> refs vs. is_marked (store (mark_values vs (mark_value v s))) a"
    using Cons.IH [OF W1(1) Cons.prems(2) r'] by blast
  have unfold: "mark_values (v # vs) s = mark_values vs (mark_value v s)" by (simp add: mark_values_def)
  have "refs (v # vs) = refs [v] \<union> refs vs" by simp
  then have "\<forall>a \<in> refs (v # vs). is_marked (store (mark_values vs (mark_value v s))) a"
    using W1(3) W2(3) grows_marked [OF W2(2)] by blast
  then show ?case unfolding unfold using W2(1) grows_trans [OF W1(2) W2(2)] by blast
qed

lemma threaded_pop:
  assumes "threaded nxt pend wl (a # W) P {}"
  shows "threaded (nxt(a := 0)) pend (nxt a) W P {a}"
proof -
  have same: "chain (nxt(a := 0)) p as = chain nxt p as" if "a \<notin> set as" for p as
    using that by (intro chain_cong) auto
  have "a \<notin> set (P k)" for k using assms by (auto simp: threaded_def)
  then show ?thesis using assms by (simp add: threaded_def same)
qed

lemma colors_pop:
  assumes "colors bs roots mk (a # W) P {} {}"
  shows "colors bs roots mk W P {a} {}"
proof -
  have "black mk (a # W) {} c = black mk W {a} c" for c by (auto simp: black_def)
  then show ?thesis using assms by (simp add: colors_def)
qed

text \<open>An object leaves \<open>G\<close> when everything it refers to is marked, or when it is parked on the
  pending list of an unmarked key.\<close>

lemma threaded_done: "threaded nxt pend wl W P G \<Longrightarrow> H \<subseteq> G \<Longrightarrow> threaded nxt pend wl W P H"
  unfolding threaded_def by blast

lemma colors_done:
  assumes c: "colors bs roots mk W P G {}" and a: "G = {a}"
    and edges: "\<And>b. bs a = Some b \<Longrightarrow> \<forall>c \<in> refs (edges b). mk c"
    and entry: "\<And>e. bs a = Some (HEAP_EPHEMERON_ENTRY e) \<Longrightarrow> \<forall>c \<in> refs [entry_value e]. mk c"
  shows "colors bs roots mk W P {} {a}"
proof -
  have "black mk W {} c \<longleftrightarrow> black mk W {a} c \<or> c = a \<and> mk a \<and> a \<notin> set W" for c by (auto simp: black_def)
  then show ?thesis using c edges entry unfolding colors_def a by auto
qed

lemma threaded_park:
  assumes "threaded nxt pend wl W P {a}" "a \<noteq> 0"
  shows "threaded (nxt(a := pend k)) (pend(k := a)) wl W (P(k := a # P k)) {}"
proof -
  have fresh: "a \<notin> set W" "\<And>j. a \<notin> set (P j)" using assms(1) by (auto simp: threaded_def)
  have same: "chain (nxt(a := pend k)) p as = chain nxt p as" if "a \<notin> set as" for p as
    using that by (intro chain_cong) auto
  show ?thesis using assms fresh by (auto simp: threaded_def same)
qed

lemma colors_park:
  assumes c: "colors bs roots mk W P {a} {}" and w: "bs a = Some (HEAP_EPHEMERON_ENTRY e)" "is_heap (entry_key e)"
    and k: "k = heap_address (entry_key e)" "\<not> mk k"
    and edges: "\<forall>c \<in> refs [next_entry e]. mk c"
  shows "colors bs roots mk W (P(k := a # P k)) {} {a}"
proof -
  have mka: "mk a" using c by (auto simp: colors_def)
  have b: "black mk W {} c \<longleftrightarrow> black mk W {a} c \<or> c = a \<and> a \<notin> set W" for c using mka by (auto simp: black_def)
  have nk: "\<not> black mk W H k" for H using k(2) by (simp add: black_def)
  show ?thesis using c w edges mka nk unfolding colors_def b by (auto simp: waits_def k(1))
qed

lemma colors_leave:
  assumes c: "colors bs roots mk W P G E" and a: "a \<in> G" "P a = []"
    and edges: "\<And>b. bs a = Some b \<Longrightarrow> \<forall>c \<in> refs (edges b). mk c"
    and entry: "\<And>e. bs a = Some (HEAP_EPHEMERON_ENTRY e) \<Longrightarrow> \<forall>c \<in> refs [entry_value e]. mk c"
  shows "colors bs roots mk W P (G - {a}) E"
proof -
  have "black mk W (G - {a}) c \<Longrightarrow> black mk W G c \<or> c = a"
    and "black mk W (G - {a} \<union> E) c \<Longrightarrow> black mk W (G \<union> E) c \<or> c = a" for c by (auto simp: black_def)
  note b = this
  show ?thesis using c unfolding colors_def
  proof (elim conjE, intro conjI allI impI ballI)
    fix x e assume "black mk W (G - {a}) x" "bs x = Some (HEAP_EPHEMERON_ENTRY e)"
      "\<forall>a e. black mk W G a \<longrightarrow> bs a = Some (HEAP_EPHEMERON_ENTRY e) \<longrightarrow>
         (\<forall>c \<in> refs [entry_value e]. mk c) \<or> a \<in> set (P (heap_address (entry_key e)))"
    then show "(\<forall>c \<in> refs [entry_value e]. mk c) \<or> x \<in> set (P (heap_address (entry_key e)))"
      using b(1) [of x] entry by blast
  next
    fix x y c assume "black mk W (G - {a}) x" "bs x = Some y" "c \<in> refs (edges y)"
      "\<forall>a b. black mk W G a \<longrightarrow> bs a = Some b \<longrightarrow> (\<forall>c \<in> refs (edges b). mk c)"
    then show "mk c" using b(1) [of x] edges by blast
  next
    fix k assume "black mk W (G - {a} \<union> E) k" "\<forall>k. black mk W (G \<union> E) k \<longrightarrow> P k = []"
    then show "P k = []" using b(2) [of k] a(2) by blast
  qed blast+
qed

lemma colors_detach:
  assumes "colors bs roots mk W P {} {a}"
  shows "colors bs roots mk W (P(a := [])) (set (P a)) {}"
proof -
  have P: "mk e" "waits bs e a" if "e \<in> set (P a)" for e using assms that by (auto simp: colors_def)
  have b: "black mk W (set (P a)) c \<longleftrightarrow> black mk W {} c \<and> c \<notin> set (P a)" for c by (auto simp: black_def)
  have b': "black mk W (set (P a) \<union> {}) c \<Longrightarrow> c = a \<or> black mk W ({} \<union> {a}) c" for c by (auto simp: black_def)
  show ?thesis using assms unfolding colors_def b
  proof (elim conjE, intro conjI allI impI ballI)
    fix x e assume "black mk W {} x \<and> x \<notin> set (P a)" "bs x = Some (HEAP_EPHEMERON_ENTRY e)"
      "\<forall>a e. black mk W {} a \<longrightarrow> bs a = Some (HEAP_EPHEMERON_ENTRY e) \<longrightarrow>
         (\<forall>c \<in> refs [entry_value e]. mk c) \<or> a \<in> set (P (heap_address (entry_key e)))"
    then show "(\<forall>c \<in> refs [entry_value e]. mk c) \<or> x \<in> set ((P(a := [])) (heap_address (entry_key e)))"
      by (cases "heap_address (entry_key e) = a") auto
  next
    fix k assume "black mk W (set (P a) \<union> {}) k" "\<forall>k. black mk W ({} \<union> {a}) k \<longrightarrow> P k = []"
    then show "(P(a := [])) k = []" using b' [of k] by auto
  next
    fix x assume "x \<in> set W \<union> set (P a)" "\<forall>a \<in> set W \<union> {}. mk a" then show "mk x" using P by blast
  next
    fix k x assume "x \<in> set ((P(a := [])) k)" "\<forall>k. \<forall>a \<in> set (P k). mk a \<and> waits bs a k"
    then show "mk x" "waits bs x k" by (auto split: if_splits)
  qed blast+
qed

lemma threaded_detach:
  assumes "threaded nxt pend wl W P {}"
  shows "threaded nxt (pend(a := 0)) wl W (P(a := [])) (set (P a))"
  using assms unfolding threaded_def by (auto simp: disjoint_iff)

lemma threaded_clear_next:
  assumes "threaded nxt pend wl W P G" "e \<in> G"
  shows "threaded (nxt(e := 0)) pend wl W P G"
proof -
  have same: "chain (nxt(e := 0)) p as = chain nxt p as" if "e \<notin> set as" for p as
    using that by (intro chain_cong) auto
  have "e \<notin> set W" "\<And>k. e \<notin> set (P k)" using assms by (auto simp: threaded_def)
  then show ?thesis using assms(1) by (simp add: threaded_def same)
qed

lemma mark_inv_update:
  assumes "mark_inv bs roots s W P G E" "store s a = Some ob" "body ob' = body ob" "marked ob' = marked ob"
    "threaded ((next_of (store s))(a := trace_next ob')) ((pending_of (store s))(a := ephemeron_pending ob')) wl W' P' G'"
    "colors bs roots (is_marked (store s)) W' P' G' E'"
  shows "mark_inv bs roots (s\<lparr>store := (store s)(a \<mapsto> ob'), worklist := wl\<rparr>) W' P' G' E'"
proof -
  have "bodies (store s) = bs" using assms(1) by (simp add: mark_inv_def)
  note same = view_same(1) [of "store s" a, OF assms(2,4)] view_same(3) [of "store s" a, OF assms(2,3), unfolded this]
  show ?thesis using assms(1,5,6) by (simp add: mark_inv_def view_update same)
qed

lemma grows_update:
  "store s a = Some ob \<Longrightarrow> marked ob' = marked ob \<Longrightarrow> length W' = length W \<Longrightarrow>
   grows s W (s\<lparr>store := (store s)(a \<mapsto> ob'), worklist := wl\<rparr>) W'"
proof -
  assume a: "store s a = Some ob" "marked ob' = marked ob" "length W' = length W"
  note same = view_same(1) [of "store s" a, OF a(1,2)]
  have "dom ((store s)(a \<mapsto> ob')) = dom (store s)" using a(1) by auto
  then show ?thesis using a(3) by (simp add: grows_def view_update same)
qed

lemma activate_loop_inv:
  assumes "mark_inv bs roots s W P (set D) {}" "sound_heap bs roots"
    "chain (next_of (store s)) p D" "distinct D" "is_marked (store s) a"
    "\<And>e. e \<in> set D \<Longrightarrow> waits bs e a \<and> P e = [] \<and> (\<forall>b. bs e = Some b \<longrightarrow> (\<forall>c \<in> refs (edges b). is_marked (store s) c))"
    "length D \<le> n"
  shows "\<exists>s' W'. activate_loop n p s = Some s' \<and> mark_inv bs roots s' W' P {} {} \<and> grows s W s' W'"
  using assms
proof (induction D arbitrary: s W p n)
  case Nil
  then show ?case using grows_refl [of s W] by (cases n) auto
next
  case (Cons e D)
  obtain m where n: "n = Suc m" using Cons.prems(7) by (cases n) auto
  have p: "p = e" "e \<noteq> 0" using Cons.prems(3) by auto
  have mke: "is_marked (store s) e" using Cons.prems(1) by (auto simp: mark_inv_def colors_def)
  then obtain ob where ob: "store s e = Some ob" using marked_dom by fastforce
  obtain entry where entry: "bs e = Some (HEAP_EPHEMERON_ENTRY entry)" "is_heap (entry_key entry)" "heap_address (entry_key entry) = a"
    using Cons.prems(6) [of e] by (auto simp: waits_def)
  have body: "body ob = HEAP_EPHEMERON_ENTRY entry"
    using Cons.prems(1) ob entry(1) by (auto simp: mark_inv_def bodies_def)
  define s1 where "s1 = s\<lparr>store := (store s)(e \<mapsto> ob\<lparr>trace_next := 0\<rparr>)\<rparr>"
  have s1': "s1 = s\<lparr>store := (store s)(e \<mapsto> ob\<lparr>trace_next := 0\<rparr>), worklist := worklist s\<rparr>" by (simp add: s1_def)
  have ch: "threaded (next_of (store s)) (pending_of (store s)) (worklist s) W P (set (e # D))"
    and co: "colors bs roots (is_marked (store s)) W P (set (e # D)) {}"
    using Cons.prems(1) by (simp_all add: mark_inv_def)
  have pend: "(pending_of (store s))(e := ephemeron_pending (ob\<lparr>trace_next := 0\<rparr>)) = pending_of (store s)"
    by (rule view_same(2) [of "store s" e, OF ob]) simp
  have inv1: "mark_inv bs roots s1 W P (set (e # D)) {}" unfolding s1'
    using threaded_clear_next [OF ch, of e] co
    by (intro mark_inv_update [OF Cons.prems(1) ob]) (simp_all only: pend, simp_all)
  have g1: "grows s W s1 W" unfolding s1' by (rule grows_update [OF ob]) simp_all
  have mk1: "is_marked (store s1) = is_marked (store s)"
    using view_same(1) [of "store s" e, OF ob, of "ob\<lparr>trace_next := 0\<rparr>"] by (simp add: s1_def view_update)
  have reach: "reachable bs roots e" "reachable bs roots a"
    using co mke Cons.prems(5) by (auto simp: colors_def)
  have "reachable bs roots c" if "c \<in> refs [entry_value entry]" for c
    using reachable.ephemeron [OF reach(1) entry(1,2) _ that] reach(2) entry(3) by simp
  then obtain W2 where inv2: "mark_inv bs roots (mark_value (entry_value entry) s1) W2 P (set (e # D)) {}"
    and g2: "grows s1 W (mark_value (entry_value entry) s1) W2"
    and v2: "\<forall>c \<in> refs [entry_value entry]. is_marked (store (mark_value (entry_value entry) s1)) c"
    and same: "\<forall>c. c \<in> set W2 - set W \<or> store (mark_value (entry_value entry) s1) c = store s1 c"
    using mark_value_inv [OF inv1 Cons.prems(2)] by blast
  define s2 where "s2 = mark_value (entry_value entry) s1"
  have g: "grows s W s2 W2" using grows_trans [OF g1 g2] by (simp add: s2_def)
  have ch2: "threaded (next_of (store s2)) (pending_of (store s2)) (worklist s2) W2 P (set (e # D))"
    and co2: "colors bs roots (is_marked (store s2)) W2 P (set (e # D)) {}"
    using inv2 by (simp_all add: mark_inv_def s2_def)
  have es: "\<And>b. bs e = Some b \<Longrightarrow> \<forall>c \<in> refs (edges b). is_marked (store s2) c"
    using Cons.prems(6) [of e] grows_marked [OF g] by auto
  have "colors bs roots (is_marked (store s2)) W2 P (set (e # D) - {e}) {}"
    by (rule colors_leave [OF co2]) (use es v2 entry(1) Cons.prems(6) [of e] in \<open>auto simp: s2_def\<close>)
  moreover have "set (e # D) - {e} = set D" using Cons.prems(4) by auto
  ultimately have inv3: "mark_inv bs roots s2 W2 P (set D) {}"
    using inv2 threaded_done [OF ch2, of "set D"] by (auto simp: mark_inv_def s2_def)
  have D: "e \<notin> set D" "set D \<inter> set W2 = {}" using Cons.prems(4) ch2 by (auto simp: threaded_def)
  have "store s2 c = store s c" if "c \<in> set D" for c
    using same [rule_format, of c] that D by (auto simp: s2_def s1_def)
  then have "next_of (store s2) c = next_of (store s) c" if "c \<in> set D" for c
    using that by (simp add: next_of_def)
  then have chain: "chain (next_of (store s2)) (trace_next ob) D"
    using Cons.prems(3) view_lookup(1) [of "store s" e, OF ob] chain_cong [of D "next_of (store s2)" "next_of (store s)"] by auto
  have rest: "waits bs c a \<and> P c = [] \<and> (\<forall>b. bs c = Some b \<longrightarrow> (\<forall>x \<in> refs (edges b). is_marked (store s2) x))"
    if "c \<in> set D" for c using Cons.prems(6) [of c] that grows_marked [OF g] by auto
  have fuel: "distinct D" "is_marked (store s2) a" "length D \<le> m"
    using Cons.prems(4,5,7) n grows_marked [OF g] by auto
  obtain s' W' where "activate_loop m (trace_next ob) s2 = Some s'" "mark_inv bs roots s' W' P {} {}" "grows s2 W2 s' W'"
    using Cons.IH [OF inv3 Cons.prems(2) chain fuel(1,2) rest fuel(3)] by blast
  then show ?case using p ob body n grows_trans [OF g] by (auto simp: s1_def [symmetric] s2_def [symmetric])
qed

lemma activate_inv:
  assumes inv: "mark_inv bs roots s W P {} {a}" and sound: "sound_heap bs roots" and mka: "is_marked (store s) a"
    and n: "card (dom bs) \<le> n"
  shows "\<exists>s' W'. activate_ephemeron_values n a s = Some s' \<and> mark_inv bs roots s' W' (P(a := [])) {} {} \<and> grows s W s' W'"
proof -
  obtain ob where ob: "store s a = Some ob" using marked_dom [OF mka] by auto
  have th: "threaded (next_of (store s)) (pending_of (store s)) (worklist s) W P {}"
    and co: "colors bs roots (is_marked (store s)) W P {} {a}"
    using inv by (simp_all add: mark_inv_def)
  define s1 where "s1 = s\<lparr>store := (store s)(a \<mapsto> ob\<lparr>ephemeron_pending := 0\<rparr>), worklist := worklist s\<rparr>"
  have nxt: "(next_of (store s))(a := trace_next ob) = next_of (store s)"
    by (simp add: fun_eq_iff view_lookup(1) [of "store s" a, OF ob])
  have inv1: "mark_inv bs roots s1 W (P(a := [])) (set (P a)) {}" unfolding s1_def
    using threaded_detach [OF th, of a] colors_detach [OF co]
    by (intro mark_inv_update [OF inv ob]) (simp_all add: nxt)
  have g1: "grows s W s1 W" unfolding s1_def by (rule grows_update [OF ob]) simp_all
  have next1: "next_of (store s1) = next_of (store s)" by (simp add: s1_def view_update nxt)
  have chain: "chain (next_of (store s1)) (ephemeron_pending ob) (P a)" and D: "distinct (P a)"
    using th unfolding next1 view_lookup(2) [of "store s" a, OF ob, symmetric] threaded_def by blast+
  have mk1: "is_marked (store s1) a" using grows_marked [OF g1 mka] .
  have entries: "waits bs e a \<and> (P(a := [])) e = [] \<and> (\<forall>b. bs e = Some b \<longrightarrow> (\<forall>c \<in> refs (edges b). is_marked (store s1) c))"
    if "e \<in> set (P a)" for e
  proof -
    have e: "is_marked (store s) e" "waits bs e a" using co that by (auto simp: colors_def)
    have "e \<notin> set W" using th that by (auto simp: threaded_def)
    with e have b: "black (is_marked (store s)) W {} e" "e \<noteq> a \<Longrightarrow> black (is_marked (store s)) W ({} \<union> {a}) e"
      by (simp_all add: black_def)
    then have "e \<noteq> a \<Longrightarrow> P e = []" using co unfolding colors_def by blast
    moreover have "\<forall>c \<in> refs (edges b). is_marked (store s) c" if "bs e = Some b" for b
      using co b(1) that unfolding colors_def by blast
    ultimately show ?thesis using e(2) grows_marked [OF g1] by auto
  qed
  have "set (P a) \<subseteq> dom bs"
  proof
    fix e assume "e \<in> set (P a)"
    then have "is_marked (store s) e" using co by (simp add: colors_def)
    then have "e \<in> dom (bodies (store s))" using marked_dom by simp
    moreover have "bodies (store s) = bs" using inv by (simp add: mark_inv_def)
    ultimately show "e \<in> dom bs" by (simp only:)
  qed
  then have "length (P a) \<le> n" using card_mono [of "dom bs" "set (P a)"] n D by (simp add: distinct_card)
  then obtain s' W' where "activate_loop n (ephemeron_pending ob) s1 = Some s'" "mark_inv bs roots s' W' (P(a := [])) {} {}" "grows s1 W s' W'"
    using activate_loop_inv [OF inv1 sound chain D mk1 entries] by blast
  then show ?thesis using ob grows_trans [OF g1] by (auto simp: activate_ephemeron_values_def s1_def)
qed

lemma visit_inv:
  assumes inv: "mark_inv bs roots s W P {a} {}" and sound: "sound_heap bs roots" and b: "bs a = Some b"
    and edges: "\<forall>c \<in> refs (edges b). is_marked (store s) c"
  shows "\<exists>s' W' P'. visit_object a b s = Some s' \<and> mark_inv bs roots s' W' P' {} {a} \<and> grows s W s' W'"
proof -
  have th: "threaded (next_of (store s)) (pending_of (store s)) (worklist s) W P {a}"
    and co: "colors bs roots (is_marked (store s)) W P {a} {}" and bodies: "bodies (store s) = bs"
    using inv by (simp_all add: mark_inv_def)
  have mka: "is_marked (store s) a" and reach: "reachable bs roots a" using co by (auto simp: colors_def)
  then obtain ob where ob: "store s a = Some ob" using marked_dom by fastforce
  have leave: "mark_inv bs roots s' W' P {} {a}"
    if "mark_inv bs roots s' W' P {a} {}" "grows s W s' W'"
      "\<And>e. b = HEAP_EPHEMERON_ENTRY e \<Longrightarrow> \<forall>c \<in> refs [entry_value e]. is_marked (store s') c" for s' W'
  proof -
    have "colors bs roots (is_marked (store s')) W' P {} {a}"
      by (rule colors_done) (use that b edges grows_marked [OF that(2)] in \<open>auto simp: mark_inv_def\<close>)
    then show ?thesis using that(1) threaded_done [of _ _ _ W' P "{a}" "{}"] by (auto simp: mark_inv_def)
  qed
  show ?thesis
  proof (cases "\<exists>e. b = HEAP_EPHEMERON_ENTRY e")
    case False
    then have "visit_object a b s = Some s" by (auto simp: visit_object_def split: heap_body.split)
    then show ?thesis using leave [OF inv grows_refl] False grows_refl by auto
  next
    case True
    then obtain e where e: "b = HEAP_EPHEMERON_ENTRY e" ..
    define k where "k = heap_address (entry_key e)"
    have key: "is_heap (entry_key e)" "k \<in> dom bs" using sound reach b e by (auto simp: sound_heap_def k_def)
    then obtain key_ob where k: "store s k = Some key_ob" using bodies by (auto simp: bodies_def)
    have visit: "visit_object a b s =
      (if marked key_ob then Some (mark_value (entry_value e) s)
       else Some (s\<lparr>store := (store s)(a \<mapsto> ob\<lparr>trace_next := ephemeron_pending key_ob\<rparr>, k \<mapsto> key_ob\<lparr>ephemeron_pending := a\<rparr>)\<rparr>))"
      using k ob by (simp add: visit_object_def visit_entry_def e Let_def k_def)
    show ?thesis
    proof (cases "marked key_ob")
      case True
      then have "reachable bs roots k" using co view_lookup(3) [of "store s" k, OF k] by (auto simp: colors_def)
      then have "reachable bs roots c" if "c \<in> refs [entry_value e]" for c
        using reachable.ephemeron [OF reach b [unfolded e] key(1) _ that] by (simp add: k_def)
      then obtain W' where w: "mark_inv bs roots (mark_value (entry_value e) s) W' P {a} {}" "grows s W (mark_value (entry_value e) s) W'"
        "\<forall>c \<in> refs [entry_value e]. is_marked (store (mark_value (entry_value e) s)) c"
        using mark_value_inv [OF inv sound] by blast
      then have "mark_inv bs roots (mark_value (entry_value e) s) W' P {} {a}" using leave [OF w(1,2)] e by auto
      then show ?thesis using True visit w(2) by auto
    next
      case False
      then have nk: "\<not> is_marked (store s) k" by (simp add: view_lookup(3) [of "store s" k, OF k])
      then have ak: "a \<noteq> k" using mka by auto
      define s' where "s' = s\<lparr>store := (store s)(a \<mapsto> ob\<lparr>trace_next := ephemeron_pending key_ob\<rparr>, k \<mapsto> key_ob\<lparr>ephemeron_pending := a\<rparr>)\<rparr>"
      have views: "next_of (store s') = (next_of (store s))(a := pending_of (store s) k)"
        "pending_of (store s') = (pending_of (store s))(k := a)"
        "is_marked (store s') = is_marked (store s)" "bodies (store s') = bs"
        unfolding bodies [symmetric] using ak ob k
        by (auto simp: s'_def view_update view_lookup [of "store s" k, OF k] view_lookup [of "store s" a, OF ob] fun_eq_iff)
      have "a \<noteq> 0" using sound reach by (auto simp: sound_heap_def)
      then have "threaded (next_of (store s')) (pending_of (store s')) (worklist s') W (P(k := a # P k)) {}"
        unfolding views using threaded_park [OF th] by (simp add: s'_def)
      moreover have "colors bs roots (is_marked (store s')) W (P(k := a # P k)) {} {a}"
        unfolding views using edges e by (intro colors_park [OF co b [unfolded e] key(1) k_def nk]) simp
      ultimately have "mark_inv bs roots s' W (P(k := a # P k)) {} {a}" by (simp add: mark_inv_def views)
      moreover have "dom (store s') = dom (store s)" using ob k by (auto simp: s'_def)
      then have "grows s W s' W" by (simp add: grows_def views)
      ultimately show ?thesis using False visit by (auto simp: s'_def)
    qed
  qed
qed

lemma trace_step_inv:
  assumes inv: "mark_inv bs roots s (a # W) P {} {}" and sound: "sound_heap bs roots" and n: "card (dom bs) \<le> n"
  shows "\<exists>s' W' P'. trace_step n s = Some s' \<and> mark_inv bs roots s' W' P' {} {} \<and>
    card {c \<in> dom bs. \<not> is_marked (store s') c} + length W' < card {c \<in> dom bs. \<not> is_marked (store s) c} + length (a # W) \<and>
    (\<forall>c. is_marked (store s) c \<longrightarrow> is_marked (store s') c)"
proof -
  have th: "threaded (next_of (store s)) (pending_of (store s)) (worklist s) (a # W) P {}"
    and co: "colors bs roots (is_marked (store s)) (a # W) P {} {}" and bodies: "bodies (store s) = bs"
    using inv by (simp_all add: mark_inv_def)
  have wl: "worklist s = a" using th by (simp add: threaded_def)
  have mka: "is_marked (store s) a" and reach: "reachable bs roots a" using co by (auto simp: colors_def)
  then obtain ob where ob: "store s a = Some ob" using marked_dom by fastforce
  define b where "b = body ob"
  have b: "bs a = Some b" using bodies view_lookup(4) [of "store s" a, OF ob] by (simp add: b_def)
  define s1 where "s1 = s\<lparr>store := (store s)(a \<mapsto> ob\<lparr>trace_next := 0\<rparr>), worklist := trace_next ob\<rparr>"
  have pend: "(pending_of (store s))(a := ephemeron_pending (ob\<lparr>trace_next := 0\<rparr>)) = pending_of (store s)"
    by (rule view_same(2) [of "store s" a, OF ob]) simp
  have inv1: "mark_inv bs roots s1 W P {a} {}" unfolding s1_def
    using threaded_pop [OF th] colors_pop [OF co] view_lookup(1) [of "store s" a, OF ob]
    by (intro mark_inv_update [OF inv ob]) (simp_all only: pend, simp_all)
  have mk1: "is_marked (store s1) = is_marked (store s)"
    using view_same(1) [of "store s" a, OF ob, of "ob\<lparr>trace_next := 0\<rparr>"] by (simp add: s1_def view_update)
  have r: "reachable bs roots c" if "c \<in> refs (edges b)" for c using reachable.edge [OF reach b that] .
  obtain W2 where inv2: "mark_inv bs roots (trace_object b s1) W2 P {a} {}" and g2: "grows s1 W (trace_object b s1) W2"
    and e2: "\<forall>c \<in> refs (edges b). is_marked (store (trace_object b s1)) c"
    using mark_values_inv [OF inv1 sound r] unfolding trace_object_def by blast
  obtain s3 W3 P3 where s3: "visit_object a b (trace_object b s1) = Some s3" "mark_inv bs roots s3 W3 P3 {} {a}"
    and g3: "grows (trace_object b s1) W2 s3 W3"
    using visit_inv [OF inv2 sound b e2] by blast
  have g: "grows s1 W s3 W3" using grows_trans [OF g2 g3] .
  have mk3: "is_marked (store s3) a" using grows_marked [OF g] mk1 mka by simp
  obtain s4 W4 where s4: "activate_ephemeron_values n a s3 = Some s4" "mark_inv bs roots s4 W4 (P3(a := [])) {} {}"
    and g4: "grows s3 W3 s4 W4"
    using activate_inv [OF s3(2) sound mk3 n] by blast
  have order: "s\<lparr>worklist := trace_next ob, store := (store s)(a \<mapsto> ob\<lparr>trace_next := 0\<rparr>)\<rparr> = s1" by (simp add: s1_def)
  have "trace_step n s = Some s4"
    using ob s3(1) s4(1) wl by (simp add: trace_step_def Let_def order flip: b_def)
  moreover have "grows s1 W s4 W4" using grows_trans [OF g g4] .
  moreover have "dom (store s1) = dom bs" "dom (store s4) = dom bs"
    using inv1 s4(2) unfolding mark_inv_def by (metis dom_bodies)+
  ultimately show ?thesis using s4(2) mk1 by (auto simp: grows_def)
qed

lemma fixed_point_inv:
  assumes "mark_inv bs roots s W P {} {}" "sound_heap bs roots" "card (dom bs) \<le> n"
    "card {c \<in> dom bs. \<not> is_marked (store s) c} + length W \<le> fuel"
  shows "\<exists>s' P'. trace_ephemeron_fixed_point n fuel s = Some s' \<and> mark_inv bs roots s' [] P' {} {} \<and>
    worklist s' = 0 \<and> (\<forall>c. is_marked (store s) c \<longrightarrow> is_marked (store s') c)"
  using assms
proof (induction fuel arbitrary: s W P)
  case 0
  then have "W = []" "worklist s = 0" by (auto simp: mark_inv_def threaded_def)
  then show ?case using 0 by auto
next
  case (Suc fuel)
  show ?case
  proof (cases W)
    case Nil
    then have "worklist s = 0" using Suc.prems(1) by (auto simp: mark_inv_def threaded_def)
    then show ?thesis using Suc.prems(1) Nil by auto
  next
    case (Cons a W')
    have wl: "worklist s \<noteq> 0" using Suc.prems(1) Cons by (auto simp: mark_inv_def threaded_def)
    obtain s1 W1 P1 where s1: "trace_step n s = Some s1" "mark_inv bs roots s1 W1 P1 {} {}"
      "card {c \<in> dom bs. \<not> is_marked (store s1) c} + length W1 < card {c \<in> dom bs. \<not> is_marked (store s) c} + length W"
      "\<forall>c. is_marked (store s) c \<longrightarrow> is_marked (store s1) c"
      using trace_step_inv [OF Suc.prems(1) [unfolded Cons] Suc.prems(2,3)] Cons by blast
    then have "card {c \<in> dom bs. \<not> is_marked (store s1) c} + length W1 \<le> fuel" using Suc.prems(4) by linarith
    from Suc.IH [OF s1(2) Suc.prems(2,3) this] show ?thesis using s1(1,4) wl by auto
  qed
qed

text \<open>With an empty worklist the marked objects are exactly the reachable ones.\<close>

lemma marked_iff_reachable:
  assumes inv: "mark_inv bs roots s [] P {} {}" and roots: "\<And>a. a \<in> roots \<Longrightarrow> is_marked (store s) a"
  shows "is_marked (store s) a \<longleftrightarrow> reachable bs roots a"
proof
  have co: "colors bs roots (is_marked (store s)) [] P {} {}" using inv by (simp add: mark_inv_def)
  then show "is_marked (store s) a \<Longrightarrow> reachable bs roots a" by (simp add: colors_def)
  have black: "black (is_marked (store s)) [] {} x = is_marked (store s) x"
    "black (is_marked (store s)) [] ({} \<union> {}) x = is_marked (store s) x" for x by (simp_all add: black_def)
  note c = co [unfolded colors_def black]
  have strong: "is_marked (store s) c" if "is_marked (store s) a" "bs a = Some b" "c \<in> refs (edges b)" for a b c
    using c that by blast
  have weak: "is_marked (store s) c"
    if "is_marked (store s) a" "bs a = Some (HEAP_EPHEMERON_ENTRY e)" "is_marked (store s) (heap_address (entry_key e))"
      "c \<in> refs [entry_value e]" for a e c
  proof -
    have "P (heap_address (entry_key e)) = []" using c that(3) by blast
    then have "a \<notin> set (P (heap_address (entry_key e)))" by simp
    with c that(1,2) have "\<forall>c \<in> refs [entry_value e]. is_marked (store s) c" by meson
    with that(4) show ?thesis by blast
  qed
  show "reachable bs roots a \<Longrightarrow> is_marked (store s) a"
  proof (induction rule: reachable.induct)
    case (edge a b c)
    then show ?case using strong by blast
  next
    case (ephemeron a entry c)
    then show ?case using weak by blast
  qed (rule roots)
qed

subsection \<open>The mark phase\<close>

text \<open>Between collections nothing is marked and no pending list is in use.\<close>

definition clean :: "store \<Rightarrow> bool" where
  "clean st \<longleftrightarrow> (\<forall>a. \<not> is_marked st a \<and> pending_of st a = 0)"

lemma mark_phase:
  assumes clean: "clean st" and sound: "sound_heap (bodies st) (refs rs)" and n: "card (dom st) \<le> n"
  shows "\<exists>s. trace_ephemeron_fixed_point n n (mark_values rs \<lparr>store = st, worklist = 0\<rparr>) = Some s \<and>
    bodies (store s) = bodies st \<and> worklist s = 0 \<and>
    (\<forall>a. is_marked (store s) a \<longleftrightarrow> reachable (bodies st) (refs rs) a) \<and>
    (\<forall>a. is_marked (store s) a \<longrightarrow> pending_of (store s) a = 0)"
proof -
  define s0 where "s0 = \<lparr>store = st, worklist = 0\<rparr>"
  define bs where "bs = bodies st"
  have inv0: "mark_inv bs (refs rs) s0 [] (\<lambda>k. []) {} {}"
    using clean by (auto simp: mark_inv_def s0_def bs_def threaded_def colors_def black_def clean_def)
  have r: "\<And>a. a \<in> refs rs \<Longrightarrow> reachable bs (refs rs) a" by (rule reachable.root)
  obtain W1 where inv1: "mark_inv bs (refs rs) (mark_values rs s0) W1 (\<lambda>k. []) {} {}" and g: "grows s0 [] (mark_values rs s0) W1"
    and m: "\<forall>a \<in> refs rs. is_marked (store (mark_values rs s0)) a"
    using mark_values_inv [OF inv0 sound [folded bs_def] r] by blast
  have "dom (store (mark_values rs s0)) = dom bs" using inv1 unfolding mark_inv_def by (metis dom_bodies)
  then have "card {c \<in> dom bs. \<not> is_marked (store (mark_values rs s0)) c} + length W1 = card {c \<in> dom st. \<not> is_marked st c}"
    using g by (simp add: grows_def s0_def)
  also have "\<dots> \<le> card (dom st)" by (intro card_mono) auto
  finally have fuel: "card {c \<in> dom bs. \<not> is_marked (store (mark_values rs s0)) c} + length W1 \<le> n" using n by simp
  have n': "card (dom bs) \<le> n" using n by (simp add: bs_def)
  obtain s P where s: "trace_ephemeron_fixed_point n n (mark_values rs s0) = Some s" "mark_inv bs (refs rs) s [] P {} {}"
    "worklist s = 0" "\<forall>c. is_marked (store (mark_values rs s0)) c \<longrightarrow> is_marked (store s) c"
    using fixed_point_inv [OF inv1 sound [folded bs_def] n' fuel] by blast
  have "is_marked (store s) a \<longleftrightarrow> reachable bs (refs rs) a" for a
    using m s(4) by (intro marked_iff_reachable [OF s(2)]) blast
  moreover have "pending_of (store s) a = 0" if "is_marked (store s) a" for a
  proof -
    have "black (is_marked (store s)) [] ({} \<union> {}) a" using that by (simp add: black_def)
    moreover have "\<forall>k. black (is_marked (store s)) [] ({} \<union> {}) k \<longrightarrow> P k = []"
      using s(2) by (simp add: mark_inv_def colors_def)
    ultimately have "P a = []" by blast
    moreover have "chain (next_of (store s)) (pending_of (store s) a) (P a)" using s(2) by (auto simp: mark_inv_def threaded_def)
    ultimately show ?thesis by simp
  qed
  ultimately show ?thesis using s(1-3) s(2) by (auto simp: mark_inv_def bs_def s0_def)
qed

end
