(* ===== verification/Probing.thy ===== *)
theory Probing
  imports Oseo_Prelude
begin

text \<open>
  Open addressing with linear probing, as the string table (\<open>runtime_string.c\<close>) and the ephemeron
  index (\<open>runtime_memory.c\<close>) use it: a power of two of slots, a start slot per key, and a walk
  \<open>slot = (slot + 1u) & mask\<close> that ends at the first slot satisfying a condition. The contract of
  a slot representation is the locale \<open>open_addressing\<close>; the two components interpret it on their
  own slots.
\<close>

text \<open>The walk: the first slot satisfying \<open>stop\<close> within \<open>n\<close> steps.\<close>

fun probe :: "nat \<Rightarrow> nat \<Rightarrow> (nat \<Rightarrow> bool) \<Rightarrow> nat \<Rightarrow> nat option" where
  "probe 0 capacity stop slot = None"
| "probe (Suc n) capacity stop slot =
     (if stop slot then Some slot else probe n capacity stop ((slot + 1) AND (capacity - 1)))"

lemma nat_and_mask: "(x :: nat) AND (2 ^ n - 1) = x mod 2 ^ n"
  by (simp add: take_bit_eq_mask mask_eq_exp_minus_1 flip: take_bit_eq_mod)

lemma probe_step:
  assumes "capacity = 2 ^ n"
  shows "(((slot + 1) AND (capacity - 1)) + d) mod capacity = (slot + Suc d) mod capacity"
  unfolding assms nat_and_mask by (simp add: mod_simps)

lemma probe_None:
  assumes "capacity = 2 ^ n"
  shows "slot < capacity \<Longrightarrow> probe m capacity stop slot = None \<longleftrightarrow> (\<forall>d<m. \<not> stop ((slot + d) mod capacity))"
proof (induction m arbitrary: slot)
  case (Suc m)
  have next_less: "(slot + 1) AND (capacity - 1) < capacity" unfolding assms nat_and_mask by simp
  have "(\<forall>d<Suc m. \<not> stop ((slot + d) mod capacity)) \<longleftrightarrow>
      \<not> stop slot \<and> (\<forall>d<m. \<not> stop ((slot + Suc d) mod capacity))"
    using Suc.prems by (auto simp: less_Suc_eq_0_disj)
  then show ?case using Suc.IH [OF next_less, unfolded probe_step [OF assms]] by simp
qed simp

lemma probe_Some:
  assumes "capacity = 2 ^ n"
  shows "slot < capacity \<Longrightarrow> probe m capacity stop slot = Some j \<longleftrightarrow>
    (\<exists>d<m. j = (slot + d) mod capacity \<and> stop j \<and> (\<forall>i<d. \<not> stop ((slot + i) mod capacity)))"
proof (induction m arbitrary: slot)
  case (Suc m)
  have next_less: "(slot + 1) AND (capacity - 1) < capacity" unfolding assms nat_and_mask by simp
  show ?case
  proof (cases "stop slot")
    case True
    have "d = 0" if "\<forall>i<d. \<not> stop ((slot + i) mod capacity)" for d
      using that True Suc.prems by (cases d) auto
    then have "(\<exists>d<Suc m. j = (slot + d) mod capacity \<and> stop j \<and> (\<forall>i<d. \<not> stop ((slot + i) mod capacity))) \<longleftrightarrow> j = slot"
      using True Suc.prems by (metis Nat.add_0_right less_nat_zero_code mod_less zero_less_Suc)
    then show ?thesis using True by auto
  next
    case False
    have "(\<exists>d<Suc m. j = (slot + d) mod capacity \<and> stop j \<and> (\<forall>i<d. \<not> stop ((slot + i) mod capacity))) \<longleftrightarrow>
        (\<exists>d<m. j = (slot + Suc d) mod capacity \<and> stop j \<and> (\<forall>i<d. \<not> stop ((slot + Suc i) mod capacity)))"
      (is "?l \<longleftrightarrow> ?r")
    proof
      assume ?l
      then obtain d where d: "d < Suc m" "j = (slot + d) mod capacity" "stop j" "\<forall>i<d. \<not> stop ((slot + i) mod capacity)"
        by blast
      then obtain e where "d = Suc e" using False Suc.prems by (cases d) auto
      with d show ?r by (intro exI [of _ e]) auto
    next
      assume ?r
      then obtain d where d: "d < m" "j = (slot + Suc d) mod capacity" "stop j" "\<forall>i<d. \<not> stop ((slot + Suc i) mod capacity)"
        by blast
      then show ?l using False Suc.prems by (intro exI [of _ "Suc d"]) (auto simp: less_Suc_eq_0_disj)
    qed
    then show ?thesis using False Suc.IH [OF next_less, unfolded probe_step [OF assms]] by simp
  qed
qed simp

text \<open>A walk as long as the table visits every slot.\<close>

lemma walk_visits:
  fixes slot j capacity :: nat
  assumes "slot < capacity" "j < capacity"
  shows "\<exists>d<capacity. j = (slot + d) mod capacity"
proof (cases "slot \<le> j")
  case True
  then show ?thesis using assms by (intro exI [of _ "j - slot"]) auto
next
  case False
  then show ?thesis using assms by (intro exI [of _ "capacity + j - slot"]) (auto simp: mod_if)
qed

lemma probe_finds:
  assumes "capacity = 2 ^ n" "slot < capacity" "j < capacity" "stop j"
  shows "\<exists>i. probe capacity capacity stop slot = Some i \<and> stop i \<and> i < capacity"
proof -
  obtain d where "d < capacity" "j = (slot + d) mod capacity" using walk_visits [OF assms(2,3)] by blast
  then have "probe capacity capacity stop slot \<noteq> None" using assms(4) by (auto simp: probe_None [OF assms(1,2)])
  then obtain i where i: "probe capacity capacity stop slot = Some i" by auto
  then have "stop i" "i < capacity" using assms(2) by (auto simp: probe_Some [OF assms(1,2)])
  with i show ?thesis by blast
qed

text \<open>A table is indexed when every occupied slot is found from the start slot of its key without
  crossing a vacant one, and no key occupies two slots. \<open>vacant\<close> slots were never used; a removed
  one has no occupant either but does not end a search.\<close>

definition indexed :: "('s \<Rightarrow> bool) \<Rightarrow> ('s \<Rightarrow> 'k option) \<Rightarrow> ('k \<Rightarrow> nat \<Rightarrow> nat) \<Rightarrow> 's list \<Rightarrow> bool" where
  "indexed vacant occupant home slots \<longleftrightarrow>
     (\<exists>n. length slots = 2 ^ n) \<and>
     (\<forall>j k. j < length slots \<longrightarrow> occupant (slots ! j) = Some k \<longrightarrow>
        (\<exists>d<length slots. j = (home k (length slots) + d) mod length slots \<and>
           (\<forall>i<d. \<not> vacant (slots ! ((home k (length slots) + i) mod length slots))))) \<and>
     (\<forall>i j k. i < length slots \<longrightarrow> j < length slots \<longrightarrow>
        occupant (slots ! i) = Some k \<longrightarrow> occupant (slots ! j) = Some k \<longrightarrow> i = j)"

lemma indexed_cong:
  "(\<And>s. s \<in> set slots \<Longrightarrow> occ s = occ' s) \<Longrightarrow> indexed vac occ h slots \<longleftrightarrow> indexed vac occ' h slots"
  by (simp add: indexed_def)

locale open_addressing =
  fixes vacant :: "'s \<Rightarrow> bool"
    and occupant :: "'s \<Rightarrow> 'k option"
    and home :: "'k \<Rightarrow> nat \<Rightarrow> nat"
  assumes vacant_unoccupied: "vacant s \<Longrightarrow> occupant s = None"
    and home_in_range: "home k (2 ^ n) < 2 ^ n"
begin

lemma indexed_empty:
  "(\<And>s. s \<in> set slots \<Longrightarrow> vacant s) \<Longrightarrow> length slots = 2 ^ n \<Longrightarrow> indexed vacant occupant home slots"
  by (auto simp: indexed_def vacant_unoccupied)

lemma find_hit:
  assumes "indexed vacant occupant home slots" "j < length slots" "occupant (slots ! j) = Some k"
  shows "probe (length slots) (length slots) (\<lambda>s. vacant (slots ! s) \<or> occupant (slots ! s) = Some k) (home k (length slots)) = Some j"
proof -
  obtain n where n: "length slots = 2 ^ n" using assms(1) by (auto simp: indexed_def)
  have home: "home k (length slots) < length slots" unfolding n by (rule home_in_range)
  obtain d where d: "d < length slots" "j = (home k (length slots) + d) mod length slots"
    "\<forall>i<d. \<not> vacant (slots ! ((home k (length slots) + i) mod length slots))"
    using assms unfolding indexed_def by blast
  have "occupant (slots ! ((home k (length slots) + i) mod length slots)) \<noteq> Some k" if "i < d" for i
  proof
    assume "occupant (slots ! ((home k (length slots) + i) mod length slots)) = Some k"
    moreover have "(home k (length slots) + i) mod length slots < length slots" using n by simp
    ultimately have "(home k (length slots) + i) mod length slots = j" using assms unfolding indexed_def by blast
    then have "(home k (length slots) + i) mod length slots = (home k (length slots) + d) mod length slots" using d(2) by simp
    then have "length slots dvd (home k (length slots) + d) - (home k (length slots) + i)"
      using that by (subst mod_eq_dvd_iff_nat [symmetric]) simp_all
    then have "length slots dvd d - i" by simp
    then show False using that d(1) by (auto dest: dvd_imp_le)
  qed
  then show ?thesis unfolding probe_Some [OF n home] using d assms(3) by blast
qed

lemma find_miss:
  assumes "length slots = 2 ^ n" "\<And>j. j < length slots \<Longrightarrow> occupant (slots ! j) \<noteq> Some k"
    "probe (length slots) (length slots) (\<lambda>s. vacant (slots ! s) \<or> occupant (slots ! s) = Some k) (home k (length slots)) = Some j"
  shows "vacant (slots ! j)"
proof -
  have home: "home k (length slots) < length slots" unfolding assms(1) by (rule home_in_range)
  obtain d where "j = (home k (length slots) + d) mod length slots" "vacant (slots ! j) \<or> occupant (slots ! j) = Some k"
    using assms(3) unfolding probe_Some [OF assms(1) home] by blast
  moreover have "(home k (length slots) + d) mod length slots < length slots" using assms(1) by simp
  ultimately show ?thesis using assms(2) by blast
qed

lemma indexed_insert:
  assumes "indexed vacant occupant home slots" "\<And>j. j < length slots \<Longrightarrow> occupant (slots ! j) \<noteq> Some k"
    "probe (length slots) (length slots) (\<lambda>s. occupant (slots ! s) = None) (home k (length slots)) = Some j"
    "occupant s = Some k"
  shows "indexed vacant occupant home (slots[j := s])"
proof -
  obtain n where n: "length slots = 2 ^ n" using assms(1) by (auto simp: indexed_def)
  have home: "home k (length slots) < length slots" unfolding n by (rule home_in_range)
  have s: "\<not> vacant s" using vacant_unoccupied assms(4) by force
  obtain d where d: "d < length slots" "j = (home k (length slots) + d) mod length slots" "occupant (slots ! j) = None"
    "\<forall>i<d. occupant (slots ! ((home k (length slots) + i) mod length slots)) \<noteq> None"
    using assms(3) unfolding probe_Some [OF n home] by blast
  have j: "j < length slots" using d(2) n by simp
  have keep: "\<not> vacant (slots[j := s] ! i)" if "\<not> vacant (slots ! i)" for i
    using that s j by (cases "i = j") auto
  have path: "\<not> vacant (slots[j := s] ! ((home k (length slots) + i) mod length slots))" if "i < d" for i
    using d(4) that vacant_unoccupied keep by blast
  show ?thesis unfolding indexed_def length_list_update
  proof (intro conjI allI impI)
    show "\<exists>n. length slots = 2 ^ n" using n by blast
  next
    fix i k' assume i: "i < length slots" "occupant (slots[j := s] ! i) = Some k'"
    show "\<exists>d<length slots. i = (home k' (length slots) + d) mod length slots \<and>
        (\<forall>i<d. \<not> vacant (slots[j := s] ! ((home k' (length slots) + i) mod length slots)))"
    proof (cases "i = j")
      case True
      then have "k' = k" using i j assms(4) by simp
      then show ?thesis using True d(1,2) path by blast
    next
      case False
      then have "occupant (slots ! i) = Some k'" using i by simp
      then show ?thesis using assms(1) i(1) keep unfolding indexed_def by meson
    qed
  next
    fix i i' k' assume i: "i < length slots" "i' < length slots" "occupant (slots[j := s] ! i) = Some k'" "occupant (slots[j := s] ! i') = Some k'"
    have inj: "occupant (slots ! i) = Some k' \<Longrightarrow> occupant (slots ! i') = Some k' \<Longrightarrow> i = i'"
      using assms(1) i(1,2) unfolding indexed_def by blast
    show "i = i'"
      using i inj assms(2) [of i] assms(2) [of i'] assms(4) by (cases "i = j"; cases "i' = j") auto
  qed
qed

lemma indexed_erase:
  assumes "indexed vacant occupant home slots" "\<not> vacant s" "occupant s = None"
  shows "indexed vacant occupant home (slots[j := s])"
proof -
  have keep: "\<not> vacant (slots[j := s] ! i)" if "\<not> vacant (slots ! i)" for i
    using that assms(2) by (cases "i = j"; cases "j < length slots") (auto simp: list_update_beyond)
  have occ: "occupant (slots ! i) = Some k" if "i < length slots" "occupant (slots[j := s] ! i) = Some k" for i k
    using that assms(3) by (cases "i = j") auto
  show ?thesis unfolding indexed_def length_list_update
  proof (intro conjI allI impI)
    show "\<exists>n. length slots = 2 ^ n" using assms(1) by (auto simp: indexed_def)
  next
    fix i k assume "i < length slots" "occupant (slots[j := s] ! i) = Some k"
    then show "\<exists>d<length slots. i = (home k (length slots) + d) mod length slots \<and>
        (\<forall>i<d. \<not> vacant (slots[j := s] ! ((home k (length slots) + i) mod length slots)))"
      using occ assms(1) keep unfolding indexed_def by meson
  next
    fix i i' k assume "i < length slots" "i' < length slots" "occupant (slots[j := s] ! i) = Some k" "occupant (slots[j := s] ! i') = Some k"
    then show "i = i'" using occ assms(1) unfolding indexed_def by blast
  qed
qed

end

text \<open>With fewer used slots than slots there is a vacant one.\<close>

lemma exists_vacant:
  assumes "length (filter (\<lambda>s. \<not> vacant s) slots) < length slots"
  shows "\<exists>j<length slots. vacant (slots ! j)"
proof (rule ccontr)
  assume "\<not> (\<exists>j<length slots. vacant (slots ! j))"
  then have "filter (\<lambda>s. \<not> vacant s) slots = slots" by (auto simp: filter_id_conv in_set_conv_nth)
  with assms show False by simp
qed

text \<open>A walk only looks at the slots of the table.\<close>

lemma probe_cong:
  assumes "capacity = 2 ^ n" "\<And>j. j < capacity \<Longrightarrow> stop j = stop' j"
  shows "slot < capacity \<Longrightarrow> probe m capacity stop slot = probe m capacity stop' slot"
proof (induction m arbitrary: slot)
  case (Suc m)
  have "(slot + 1) AND (capacity - 1) < capacity" unfolding assms(1) nat_and_mask by simp
  with Suc assms(2) show ?case by simp
qed simp

text \<open>Taking a vacant slot makes one slot more used.\<close>

lemma length_filter_update:
  assumes "j < length slots" "\<not> P (slots ! j)" "P s"
  shows "length (filter P (slots[j := s])) = Suc (length (filter P slots))"
proof -
  have "{i. i < length (slots[j := s]) \<and> P (slots[j := s] ! i)} = insert j {i. i < length slots \<and> P (slots ! i)}"
    using assms by (auto simp: nth_list_update split: if_splits)
  then show ?thesis using assms(1,2) by (simp add: length_filter_conv_card)
qed

text \<open>The walk of an insertion ends at a free slot when there is one.\<close>

lemma probe_total:
  "capacity = 2 ^ n \<Longrightarrow> slot < capacity \<Longrightarrow> \<exists>j<capacity. stop j \<Longrightarrow>
   \<exists>i. probe capacity capacity stop slot = Some i \<and> stop i \<and> i < capacity"
  using probe_finds by blast

end
