(* ===== verification/Ephemeron_Table.thy ===== *)
theory Ephemeron_Table
  imports Collector_Mark Probing
begin

text \<open>
  Ephemeron tables (\<open>runtime_memory.c\<close>): a doubly linked chain of entries in insertion order and
  an open-addressed index from a key's address to its entry. This theory has the index, the two ways
  an entry is unlinked (\<open>oseo_internal_ephemeron_delete\<close>, and the clearing of dead entries in
  \<open>clear_dead_weak_edges\<close>), the representation invariant \<open>table_ok\<close> and its preservation. The
  content of a table is the list of its entries' keys and values.
\<close>

subsection \<open>The code: the index\<close>

definition TOMBSTONE :: oseo_value where
  "TOMBSTONE = 1"

definition table_of :: "store \<Rightarrow> u64 \<Rightarrow> ephemeron_table option" where
  "table_of st a = (case st a of None \<Rightarrow> None
     | Some ob \<Rightarrow> (case body ob of HEAP_EPHEMERON_TABLE t \<Rightarrow> Some t | _ \<Rightarrow> None))"

definition entry_of :: "store \<Rightarrow> u64 \<Rightarrow> ephemeron_entry option" where
  "entry_of st a = (case st a of None \<Rightarrow> None
     | Some ob \<Rightarrow> (case body ob of HEAP_EPHEMERON_ENTRY e \<Rightarrow> Some e | _ \<Rightarrow> None))"

definition ephemeron_index_start :: "oseo_value \<Rightarrow> nat \<Rightarrow> nat" where
  "ephemeron_index_start key capacity =
     (let hash = drop_bit 3 (key AND PAYLOAD_MASK) * 0x9e3779b97f4a7c15
      in unat (drop_bit 20 hash) AND (capacity - 1))"

text \<open>The key of the entry a slot holds.\<close>

definition occupant :: "(u64 \<rightharpoonup> ephemeron_entry) \<Rightarrow> oseo_value \<Rightarrow> oseo_value option" where
  "occupant ent slot =
     (if slot = 0 \<or> slot = TOMBSTONE then None else map_option entry_key (ent (heap_address slot)))"

definition ephemeron_index_find :: "(u64 \<rightharpoonup> ephemeron_entry) \<Rightarrow> ephemeron_table \<Rightarrow> oseo_value \<Rightarrow> nat option" where
  "ephemeron_index_find ent table key =
     (let index = table_index table; capacity = length index
      in if capacity = 0 then None
         else case probe capacity capacity (\<lambda>slot. index ! slot = 0 \<or> occupant ent (index ! slot) = Some key)
                (ephemeron_index_start key capacity) of
                None \<Rightarrow> None
              | Some slot \<Rightarrow> if index ! slot = 0 then None else Some slot)"

text \<open>The index after an insertion and whether an empty slot was used; \<open>None\<close> when the index has no
  slot to take and the walk never ends.\<close>

definition ephemeron_index_insert :: "oseo_value list \<Rightarrow> oseo_value \<Rightarrow> oseo_value \<Rightarrow> (oseo_value list \<times> bool) option" where
  "ephemeron_index_insert index key entry =
     (let capacity = length index
      in case probe capacity capacity (\<lambda>slot. index ! slot = 0 \<or> index ! slot = TOMBSTONE)
           (ephemeron_index_start key capacity) of
           None \<Rightarrow> None
         | Some slot \<Rightarrow> Some (index[slot := entry], index ! slot = 0))"

subsection \<open>The code: unlinking\<close>

definition update_table :: "u64 \<Rightarrow> (ephemeron_table \<Rightarrow> ephemeron_table) \<Rightarrow> store \<Rightarrow> store" where
  "update_table a f st =
     (case (st a, table_of st a) of
        (Some ob, Some t) \<Rightarrow> st(a \<mapsto> ob\<lparr>body := HEAP_EPHEMERON_TABLE (f t)\<rparr>)
      | _ \<Rightarrow> st)"

definition update_entry :: "u64 \<Rightarrow> (ephemeron_entry \<Rightarrow> ephemeron_entry) \<Rightarrow> store \<Rightarrow> store" where
  "update_entry a f st =
     (case (st a, entry_of st a) of
        (Some ob, Some e) \<Rightarrow> st(a \<mapsto> ob\<lparr>body := HEAP_EPHEMERON_ENTRY (f e)\<rparr>)
      | _ \<Rightarrow> st)"

definition unmark :: "u64 \<Rightarrow> store \<Rightarrow> store" where
  "unmark a st = (case st a of None \<Rightarrow> st | Some ob \<Rightarrow> st(a \<mapsto> ob\<lparr>marked := False\<rparr>))"

definition wiped_entry :: ephemeron_entry where
  "wiped_entry = \<lparr>next_entry = oseo_undefined, previous_entry = oseo_undefined,
     entry_key = oseo_undefined, entry_value = oseo_undefined\<rparr>"

text \<open>\<open>last == NULL ? oseo_undefined() : heap_value(last)\<close>\<close>

definition link_to :: "u64 \<Rightarrow> oseo_value" where
  "link_to a = (if a = 0 then oseo_undefined else heap_value a)"

text \<open>\<open>*link\<close>, where \<open>link\<close> is \<open>&table->head\<close> when \<open>last\<close> is \<open>NULL\<close> and \<open>&last->next\<close> otherwise.\<close>

definition read_link :: "u64 \<Rightarrow> u64 \<Rightarrow> store \<Rightarrow> oseo_value option" where
  "read_link a kept st =
     (if kept = 0 then map_option table_head (table_of st a) else map_option next_entry (entry_of st kept))"

definition write_link :: "u64 \<Rightarrow> u64 \<Rightarrow> oseo_value \<Rightarrow> store \<Rightarrow> store" where
  "write_link a kept v st =
     (if kept = 0 then update_table a (\<lambda>t. t\<lparr>table_head := v\<rparr>) st
      else update_entry kept (\<lambda>e. e\<lparr>next_entry := v\<rparr>) st)"

definition value_is_marked :: "store \<Rightarrow> oseo_value \<Rightarrow> bool" where
  "value_is_marked st v \<longleftrightarrow> is_heap v \<and> is_marked st (heap_address v)"

definition remove_from_index :: "u64 \<Rightarrow> oseo_value \<Rightarrow> store \<Rightarrow> store" where
  "remove_from_index a key st =
     (case table_of st a of
        None \<Rightarrow> st
      | Some t \<Rightarrow>
          (case ephemeron_index_find (entry_of st) t key of
             None \<Rightarrow> st
           | Some slot \<Rightarrow> update_table a (\<lambda>t. t\<lparr>table_index := (table_index t)[slot := TOMBSTONE]\<rparr>) st))"

definition count_down :: "ephemeron_table \<Rightarrow> ephemeron_table" where
  "count_down t = (if table_live t > 0 then t\<lparr>table_live := table_live t - 1\<rparr> else t)"

definition unlink_dead :: "u64 \<Rightarrow> u64 \<Rightarrow> u64 \<Rightarrow> ephemeron_entry \<Rightarrow> store \<Rightarrow> store" where
  "unlink_dead a kept e entry st =
     (let st = remove_from_index a (entry_key entry) st;
          st = write_link a kept (next_entry entry) st;
          st = (if is_heap (next_entry entry)
                then update_entry (heap_address (next_entry entry)) (\<lambda>n. n\<lparr>previous_entry := link_to kept\<rparr>) st
                else st);
          st = update_entry e (\<lambda>_. wiped_entry) st;
          st = unmark e st
      in update_table a count_down st)"

text \<open>The loop over one marked table; \<open>None\<close> when the fuel runs out or a link has no entry.\<close>

fun clear_dead_entries :: "nat \<Rightarrow> u64 \<Rightarrow> u64 \<Rightarrow> store \<Rightarrow> store option" where
  "clear_dead_entries 0 a kept st = None"
| "clear_dead_entries (Suc n) a kept st =
     (case read_link a kept st of
        None \<Rightarrow> None
      | Some link \<Rightarrow>
          if \<not> is_heap link then Some (update_table a (\<lambda>t. t\<lparr>table_tail := link_to kept\<rparr>) st)
          else
            let e = heap_address link
            in case entry_of st e of
                 None \<Rightarrow> None
               | Some entry \<Rightarrow>
                   if value_is_marked st (entry_key entry) then clear_dead_entries n a e st
                   else clear_dead_entries n a kept (unlink_dead a kept e entry st))"

text \<open>\<open>oseo_internal_ephemeron_delete\<close>\<close>

definition ephemeron_delete :: "oseo_value \<Rightarrow> oseo_value \<Rightarrow> store \<Rightarrow> bool \<times> store" where
  "ephemeron_delete table_value key st =
     (let a = heap_address table_value
      in case (if is_heap table_value then table_of st a else None) of
           None \<Rightarrow> (False, st)
         | Some table \<Rightarrow>
             (case ephemeron_index_find (entry_of st) table key of
                None \<Rightarrow> (False, st)
              | Some slot \<Rightarrow>
                  let e = heap_address (table_index table ! slot)
                  in case entry_of st e of
                       None \<Rightarrow> (False, st)
                     | Some entry \<Rightarrow>
                         let st = update_table a (\<lambda>t. t\<lparr>table_index := (table_index t)[slot := TOMBSTONE]\<rparr>) st;
                             st = (if is_heap (previous_entry entry)
                                   then update_entry (heap_address (previous_entry entry)) (\<lambda>p. p\<lparr>next_entry := next_entry entry\<rparr>) st
                                   else update_table a (\<lambda>t. t\<lparr>table_head := next_entry entry\<rparr>) st);
                             st = (if is_heap (next_entry entry)
                                   then update_entry (heap_address (next_entry entry)) (\<lambda>n. n\<lparr>previous_entry := previous_entry entry\<rparr>) st
                                   else update_table a (\<lambda>t. t\<lparr>table_tail := previous_entry entry\<rparr>) st);
                             st = update_entry e (\<lambda>_. wiped_entry) st
                         in (True, update_table a count_down st)))"

text \<open>\<open>oseo_internal_ephemeron_get\<close> and \<open>oseo_internal_ephemeron_live_count\<close>\<close>

definition ephemeron_get :: "oseo_value \<Rightarrow> oseo_value \<Rightarrow> store \<Rightarrow> oseo_value option" where
  "ephemeron_get table_value key st =
     (case (if is_heap table_value then table_of st (heap_address table_value) else None) of
        None \<Rightarrow> None
      | Some table \<Rightarrow>
          (case ephemeron_index_find (entry_of st) table key of
             None \<Rightarrow> None
           | Some slot \<Rightarrow> map_option entry_value (entry_of st (heap_address (table_index table ! slot)))))"

definition ephemeron_live_count :: "oseo_value \<Rightarrow> store \<Rightarrow> nat" where
  "ephemeron_live_count table_value st =
     (case (if is_heap table_value then table_of st (heap_address table_value) else None) of
        None \<Rightarrow> 0 | Some table \<Rightarrow> table_live table)"

subsection \<open>The index contract\<close>

interpretation ephemeron_slots: open_addressing "\<lambda>slot. slot = 0" "occupant ent" ephemeron_index_start for ent
proof
  fix k n show "ephemeron_index_start k (2 ^ n) < 2 ^ n"
    unfolding ephemeron_index_start_def Let_def nat_and_mask by simp
qed (simp add: occupant_def)

subsection \<open>The representation invariant\<close>

text \<open>The fields of the entries, as maps from addresses.\<close>

definition nexts :: "(u64 \<rightharpoonup> ephemeron_entry) \<Rightarrow> u64 \<rightharpoonup> oseo_value" where
  "nexts ent a = map_option next_entry (ent a)"

definition prevs :: "(u64 \<rightharpoonup> ephemeron_entry) \<Rightarrow> u64 \<rightharpoonup> oseo_value" where
  "prevs ent a = map_option previous_entry (ent a)"

definition keys :: "(u64 \<rightharpoonup> ephemeron_entry) \<Rightarrow> u64 \<rightharpoonup> oseo_value" where
  "keys ent a = map_option entry_key (ent a)"

primrec forward :: "(u64 \<rightharpoonup> oseo_value) \<Rightarrow> oseo_value \<Rightarrow> u64 list \<Rightarrow> bool" where
  "forward nx v [] \<longleftrightarrow> \<not> is_heap v"
| "forward nx v (e # es) \<longleftrightarrow> v = heap_value e \<and> (\<exists>w. nx e = Some w \<and> forward nx w es)"

definition back_link :: "oseo_value \<Rightarrow> u64 option \<Rightarrow> bool" where
  "back_link v p \<longleftrightarrow> (case p of None \<Rightarrow> \<not> is_heap v | Some a \<Rightarrow> v = heap_value a)"

primrec backward :: "(u64 \<rightharpoonup> oseo_value) \<Rightarrow> u64 option \<Rightarrow> u64 list \<Rightarrow> bool" where
  "backward pv p [] \<longleftrightarrow> True"
| "backward pv p (e # es) \<longleftrightarrow> (\<exists>w. pv e = Some w \<and> back_link w p) \<and> backward pv (Some e) es"

definition last_of :: "u64 list \<Rightarrow> u64 option" where
  "last_of es = (if es = [] then None else Some (last es))"

definition index_ok :: "(u64 \<rightharpoonup> ephemeron_entry) \<Rightarrow> ephemeron_table \<Rightarrow> u64 list \<Rightarrow> bool" where
  "index_ok ent t E \<longleftrightarrow>
     (if table_index t = [] then E = []
      else indexed (\<lambda>slot. slot = 0) (occupant ent) ephemeron_index_start (table_index t)) \<and>
     {s \<in> set (table_index t). s \<noteq> 0 \<and> s \<noteq> TOMBSTONE} = heap_value ` set E \<and>
     table_used t = length (filter (\<lambda>s. s \<noteq> 0) (table_index t)) \<and>
     table_used t \<le> length (table_index t) div 4 * 3"

text \<open>The chain and the index of a table hold exactly the entries \<open>E\<close>, in order, with distinct heap
  keys; the tail link is stated apart because the clearing loop sets it last.\<close>

definition table_core :: "(u64 \<rightharpoonup> ephemeron_entry) \<Rightarrow> ephemeron_table \<Rightarrow> u64 list \<Rightarrow> bool" where
  "table_core ent t E \<longleftrightarrow>
     forward (nexts ent) (table_head t) E \<and> backward (prevs ent) None E \<and>
     distinct E \<and> distinct (map (keys ent) E) \<and>
     (\<forall>e \<in> set E. e \<noteq> 0 \<and> e \<le> PAYLOAD_MASK \<and> (\<exists>k. keys ent e = Some k \<and> is_heap k)) \<and>
     table_live t = length E \<and> index_ok ent t E"

definition table_ok :: "store \<Rightarrow> u64 \<Rightarrow> u64 list \<Rightarrow> bool" where
  "table_ok st a E \<longleftrightarrow>
     (\<exists>t. table_of st a = Some t \<and> table_core (entry_of st) t E \<and> back_link (table_tail t) (last_of E))"

text \<open>The content of a table: the keys and values of its entries in insertion order.\<close>

definition bindings :: "(u64 \<rightharpoonup> ephemeron_entry) \<Rightarrow> u64 \<rightharpoonup> oseo_value \<times> oseo_value" where
  "bindings ent a = map_option (\<lambda>en. (entry_key en, entry_value en)) (ent a)"

definition content :: "store \<Rightarrow> u64 list \<Rightarrow> (oseo_value \<times> oseo_value) list" where
  "content st E = map (\<lambda>e. the (bindings (entry_of st) e)) E"

lemma heap_value_not_slot: "heap_value e \<noteq> 0" "heap_value e \<noteq> TOMBSTONE"
proof -
  have "is_heap (heap_value e)" by simp
  moreover have "\<not> is_heap 0" "\<not> is_heap TOMBSTONE"
    by (simp_all add: is_heap_def tag_of_def TAG_HEAP_def CANONICAL_NAN_def TOMBSTONE_def)
  ultimately show "heap_value e \<noteq> 0" "heap_value e \<noteq> TOMBSTONE" by metis+
qed

lemma occupant_value:
  "e \<le> PAYLOAD_MASK \<Longrightarrow> occupant ent (heap_value e) = keys ent e"
  by (simp add: occupant_def heap_value_not_slot keys_def)

lemma heap_value_inj: "inj_on heap_value {e. e \<le> PAYLOAD_MASK}"
  by (rule inj_on_inverseI [of _ heap_address]) simp

subsection \<open>Finding\<close>

lemma index_find_Some:
  assumes core: "table_core ent t E" and find: "ephemeron_index_find ent t key = Some slot"
  obtains e where "e \<in> set E" "keys ent e = Some key" "table_index t ! slot = heap_value e" "slot < length (table_index t)"
proof -
  let ?I = "table_index t"
  have ix: "index_ok ent t E" using core by (simp add: table_core_def)
  have ne: "?I \<noteq> []" using find by (auto simp: ephemeron_index_find_def)
  then obtain n where n: "length ?I = 2 ^ n" using ix by (auto simp: index_ok_def indexed_def)
  have home: "ephemeron_index_start key (length ?I) < length ?I" unfolding n by (rule ephemeron_slots.home_in_range)
  have "probe (length ?I) (length ?I) (\<lambda>slot. ?I ! slot = 0 \<or> occupant ent (?I ! slot) = Some key)
      (ephemeron_index_start key (length ?I)) = Some slot" and nz: "?I ! slot \<noteq> 0"
    using find ne by (auto simp: ephemeron_index_find_def Let_def split: option.splits if_splits)
  then have occ: "occupant ent (?I ! slot) = Some key" and less: "slot < length ?I"
    unfolding probe_Some [OF n home] using n by auto
  then have "?I ! slot \<noteq> TOMBSTONE" by (auto simp: occupant_def split: if_splits)
  then have "?I ! slot \<in> heap_value ` set E" using ix nz less by (auto simp: index_ok_def)
  then obtain e where e: "e \<in> set E" "?I ! slot = heap_value e" by auto
  then have "keys ent e = Some key" using core occ by (auto simp: table_core_def occupant_value)
  with that e less show ?thesis by blast
qed

lemma index_find_hit:
  assumes core: "table_core ent t E" and e: "e \<in> set E" "keys ent e = Some key"
  obtains slot where "ephemeron_index_find ent t key = Some slot" "slot < length (table_index t)" "table_index t ! slot = heap_value e"
proof -
  let ?I = "table_index t"
  have ix: "index_ok ent t E" using core by (simp add: table_core_def)
  have "heap_value e \<in> {s \<in> set ?I. s \<noteq> 0 \<and> s \<noteq> TOMBSTONE}" using ix e by (auto simp: index_ok_def)
  then have "heap_value e \<in> set ?I" by blast
  then obtain slot where slot: "slot < length ?I" "?I ! slot = heap_value e" by (auto simp: in_set_conv_nth)
  have "indexed (\<lambda>slot. slot = 0) (occupant ent) ephemeron_index_start ?I"
    using ix slot(1) by (auto simp: index_ok_def split: if_splits)
  moreover have "occupant ent (?I ! slot) = Some key" using core e slot by (auto simp: table_core_def occupant_value)
  ultimately have "probe (length ?I) (length ?I) (\<lambda>s. ?I ! s = 0 \<or> occupant ent (?I ! s) = Some key)
      (ephemeron_index_start key (length ?I)) = Some slot"
    using ephemeron_slots.find_hit slot(1) by blast
  then have "ephemeron_index_find ent t key = Some slot"
    using slot heap_value_not_slot [of e] by (auto simp: ephemeron_index_find_def Let_def)
  with that slot show ?thesis by blast
qed

lemma index_find_None:
  assumes "table_core ent t E" "ephemeron_index_find ent t key = None" "e \<in> set E"
  shows "keys ent e \<noteq> Some key"
  using index_find_hit [OF assms(1,3)] assms(2) by (metis option.distinct(1))

subsection \<open>Unlinking\<close>

lemma forward_cong: "(\<And>e. e \<in> set es \<Longrightarrow> nx e = nx' e) \<Longrightarrow> forward nx v es = forward nx' v es"
  by (induction es arbitrary: v) auto

lemma backward_cong: "(\<And>e. e \<in> set es \<Longrightarrow> pv e = pv' e) \<Longrightarrow> backward pv p es = backward pv' p es"
  by (induction es arbitrary: p) auto

lemma forward_unlink:
  assumes "distinct (xs @ e # ys)" "forward nx v (xs @ e # ys)" "nx e = Some w"
  shows "if xs = [] then forward (nx(e := x)) w ys else forward (nx(last xs \<mapsto> w, e := x)) v (xs @ ys)"
  using assms
proof (induction xs arbitrary: v)
  case Nil
  have "forward (nx(e := x)) w ys = forward nx w ys" by (rule forward_cong) (use Nil in auto)
  then show ?case using Nil by auto
next
  case (Cons k ks)
  obtain u where u: "nx k = Some u" "forward nx u (ks @ e # ys)" "v = heap_value k" using Cons.prems by auto
  show ?case
  proof (cases "ks = []")
    case True
    then have "forward nx w ys" using u Cons.prems by auto
    moreover have "forward (nx(k \<mapsto> w, e := x)) w ys = forward nx w ys"
      by (rule forward_cong) (use Cons.prems(1) True in auto)
    ultimately have "forward (nx(k \<mapsto> w, e := x)) w ys" by simp
    then show ?thesis using True u Cons.prems(1) by auto
  next
    case False
    then have "forward (nx(last ks \<mapsto> w, e := x)) u (ks @ ys)" using Cons.IH [OF _ u(2) Cons.prems(3)] Cons.prems(1) by auto
    moreover have "k \<noteq> last ks" "k \<noteq> e" using Cons.prems(1) False by auto
    ultimately show ?thesis using False u by auto
  qed
qed

lemma backward_unlink:
  assumes "distinct (xs @ e # ys)" "backward pv p (xs @ e # ys)"
    "back_link v (if xs = [] then p else Some (last xs))"
  shows "backward ((if ys = [] then pv else pv(hd ys \<mapsto> v))(e := x)) p (xs @ ys)"
  using assms
proof (induction xs arbitrary: p)
  case Nil
  then show ?case
  proof (cases ys)
    case (Cons y ys')
    define q where "q = pv(y \<mapsto> v, e := x)"
    have "backward q (Some y) ys' = backward pv (Some y) ys'"
      using Nil.prems(1) Cons by (intro backward_cong) (auto simp: q_def)
    moreover have "q y = Some v" using Nil.prems(1) Cons by (auto simp: q_def)
    ultimately have "backward q p (y # ys')" using Nil.prems Cons by auto
    then show ?thesis unfolding Cons by (simp only: q_def list.sel list.simps if_False append_Nil)
  qed simp
next
  case (Cons k ks)
  define q where "q = (if ys = [] then pv else pv(hd ys \<mapsto> v))(e := x)"
  have "backward q (Some k) (ks @ ys)"
    using Cons.prems unfolding q_def by (intro Cons.IH) (auto split: if_splits)
  moreover have "q k = pv k"
    using Cons.prems(1) by (cases ys) (auto simp: q_def)
  ultimately have "backward q p ((k # ks) @ ys)" using Cons.prems(2) by auto
  then show ?case unfolding q_def .
qed

lemma forward_next:
  assumes "forward nx v (xs @ e # ys)" "\<forall>a \<in> set (xs @ e # ys). a \<le> PAYLOAD_MASK"
  obtains w where "nx e = Some w" "is_heap w \<longleftrightarrow> ys \<noteq> []" "ys \<noteq> [] \<Longrightarrow> heap_address w = hd ys"
proof -
  have "forward nx v (xs @ e # ys) \<Longrightarrow> \<exists>w. nx e = Some w \<and> forward nx w ys" by (induction xs arbitrary: v) auto
  then obtain w where "nx e = Some w" "forward nx w ys" using assms(1) by blast
  then show ?thesis using that assms(2) by (cases ys) auto
qed

lemma backward_previous:
  assumes "backward pv p (xs @ e # ys)"
  obtains w where "pv e = Some w" "back_link w (if xs = [] then p else Some (last xs))"
proof -
  have "backward pv p (xs @ e # ys) \<Longrightarrow> \<exists>w. pv e = Some w \<and> back_link w (if xs = [] then p else Some (last xs))"
    by (induction xs arbitrary: p) (auto split: if_splits)
  then show ?thesis using that assms by blast
qed

lemma indexed_unique:
  "indexed vac occ h slots \<Longrightarrow> i < length slots \<Longrightarrow> j < length slots \<Longrightarrow>
   occ (slots ! i) = Some k \<Longrightarrow> occ (slots ! j) = Some k \<Longrightarrow> i = j"
  by (auto simp: indexed_def)

lemma core_unlink:
  assumes core: "table_core ent t (xs @ e # ys)" and w: "nexts ent e = Some w"
    and slot: "slot < length (table_index t)" "table_index t ! slot = heap_value e"
    and nexts: "nexts ent' = (if xs = [] then (nexts ent)(e := x) else (nexts ent)(last xs \<mapsto> w, e := x))"
    and prevs: "prevs ent' = (if ys = [] then prevs ent else (prevs ent)(hd ys \<mapsto> v))(e := y)"
    and blink: "back_link v (last_of xs)"
    and keys: "keys ent' = (keys ent)(e := z)"
    and t': "table_head t' = (if xs = [] then w else table_head t)"
      "table_index t' = (table_index t)[slot := TOMBSTONE]"
      "table_live t' = table_live t - 1" "table_used t' = table_used t"
  shows "table_core ent' t' (xs @ ys)"
proof -
  let ?E = "xs @ e # ys" and ?I = "table_index t"
  have E: "distinct ?E" "distinct (map (keys ent) ?E)" "\<forall>e \<in> set ?E. e \<noteq> 0 \<and> e \<le> PAYLOAD_MASK \<and> (\<exists>k. keys ent e = Some k \<and> is_heap k)"
    "forward (nexts ent) (table_head t) ?E" "backward (prevs ent) None ?E" "table_live t = length ?E" "index_ok ent t ?E"
    using core unfolding table_core_def by blast+
  have same: "keys ent' d = keys ent d" if "d \<noteq> e" for d using that keys by simp
  have "forward (nexts ent') (table_head t') (xs @ ys)"
    using forward_unlink [OF E(1,4) w, of x] unfolding nexts t'(1) by (simp split: if_splits)
  moreover have "backward (prevs ent') None (xs @ ys)" unfolding prevs
    by (rule backward_unlink [OF E(1,5)]) (use blink in \<open>auto simp: last_of_def split: if_splits\<close>)
  moreover have "distinct (map (keys ent') (xs @ ys))"
  proof -
    have "map (keys ent') (xs @ ys) = map (keys ent) (xs @ ys)"
    proof (rule map_cong [OF refl])
      fix d assume "d \<in> set (xs @ ys)"
      then have "d \<noteq> e" using E(1) by auto
      then show "keys ent' d = keys ent d" by (rule same)
    qed
    moreover have "distinct (map (keys ent) (xs @ ys))" using E(2) by simp
    ultimately show ?thesis by (simp only:)
  qed
  moreover have "index_ok ent' t' (xs @ ys)"
  proof -
    have ne: "?I \<noteq> []" using slot by auto
    note c = E(7) [unfolded index_ok_def if_not_P [OF ne]]
    have ix: "indexed (\<lambda>slot. slot = 0) (occupant ent) ephemeron_index_start ?I"
      and set: "{s \<in> set ?I. s \<noteq> 0 \<and> s \<noteq> TOMBSTONE} = heap_value ` set ?E"
      and used: "table_used t = length (filter (\<lambda>s. s \<noteq> 0) ?I)" "table_used t \<le> length ?I div 4 * 3"
      by (rule c [THEN conjunct1] c [THEN conjunct2, THEN conjunct1] c [THEN conjunct2, THEN conjunct2, THEN conjunct1]
          c [THEN conjunct2, THEN conjunct2, THEN conjunct2])+
    obtain k where k: "keys ent e = Some k" using E(3) by auto
    have "e \<le> PAYLOAD_MASK" using E(3) by auto
    note occ_e = occupant_value [OF this]
    have once: "heap_value e \<notin> set (?I[slot := TOMBSTONE])"
    proof
      assume "heap_value e \<in> set (?I[slot := TOMBSTONE])"
      then obtain j where j: "j < length ?I" "?I[slot := TOMBSTONE] ! j = heap_value e" by (auto simp: in_set_conv_nth)
      then have "j \<noteq> slot" using slot heap_value_not_slot(2) [of e] by auto
      then have "?I ! j = heap_value e" using j by simp
      then have "j = slot" using indexed_unique [OF ix j(1) slot(1), of k] slot(2) occ_e k by simp
      with \<open>j \<noteq> slot\<close> show False ..
    qed
    have inj: "heap_value d = heap_value e \<Longrightarrow> d \<in> set ?E \<Longrightarrow> d = e" for d
      using E(3) inj_onD [OF heap_value_inj, of d e] by auto
    have sub: "set (?I[slot := TOMBSTONE]) \<subseteq> insert TOMBSTONE (set ?I)" by (rule set_update_subset_insert)
    have set': "{s \<in> set (?I[slot := TOMBSTONE]). s \<noteq> 0 \<and> s \<noteq> TOMBSTONE} = heap_value ` set (xs @ ys)"
    proof (intro equalityI subsetI)
      fix s assume s: "s \<in> {s \<in> set (?I[slot := TOMBSTONE]). s \<noteq> 0 \<and> s \<noteq> TOMBSTONE}"
      then have "s \<in> heap_value ` set ?E" using sub set by blast
      then obtain d where "d \<in> set ?E" "s = heap_value d" by blast
      moreover from this have "d \<noteq> e" using s once by auto
      ultimately show "s \<in> heap_value ` set (xs @ ys)" by auto
    next
      fix s assume "s \<in> heap_value ` set (xs @ ys)"
      then obtain d where d: "d \<in> set (xs @ ys)" "s = heap_value d" by blast
      then have "d \<in> set ?E" "d \<noteq> e" using E(1) by auto
      then have "s \<noteq> heap_value e" using inj d(2) by auto
      have "s \<in> set ?I" "s \<noteq> 0" "s \<noteq> TOMBSTONE" using set \<open>d \<in> set ?E\<close> d(2) by blast+
      then obtain j where "j < length ?I" "?I ! j = s" by (auto simp: in_set_conv_nth)
      moreover from this have "j \<noteq> slot" using slot(2) \<open>s \<noteq> heap_value e\<close> by auto
      ultimately have "s \<in> set (?I[slot := TOMBSTONE])" by (metis length_list_update nth_list_update_neq nth_mem)
      then show "s \<in> {s \<in> set (?I[slot := TOMBSTONE]). s \<noteq> 0 \<and> s \<noteq> TOMBSTONE}"
        using \<open>s \<noteq> 0\<close> \<open>s \<noteq> TOMBSTONE\<close> by blast
    qed
    have tomb: "TOMBSTONE \<noteq> 0" "occupant ent TOMBSTONE = None" by (simp_all add: TOMBSTONE_def occupant_def)
    have "indexed (\<lambda>slot. slot = 0) (occupant ent) ephemeron_index_start (?I[slot := TOMBSTONE])"
      by (rule ephemeron_slots.indexed_erase [OF ix]) (use tomb in auto)
    moreover have "occupant ent s = occupant ent' s" if "s \<in> set (?I[slot := TOMBSTONE])" for s
    proof (cases "s = 0 \<or> s = TOMBSTONE")
      case True
      then show ?thesis by (auto simp: occupant_def)
    next
      case False
      then have "s \<in> heap_value ` set (xs @ ys)" using set' that by blast
      then obtain d where d: "d \<in> set (xs @ ys)" "s = heap_value d" by blast
      then have "d \<le> PAYLOAD_MASK" "d \<noteq> e" using E(1,3) by auto
      then show ?thesis using d(2) same by (simp add: occupant_value)
    qed
    ultimately have "indexed (\<lambda>slot. slot = 0) (occupant ent') ephemeron_index_start (?I[slot := TOMBSTONE])"
      using indexed_cong [of "?I[slot := TOMBSTONE]" "occupant ent" "occupant ent'"] by blast
    moreover have "length (filter (\<lambda>s. s \<noteq> 0) (?I[slot := TOMBSTONE])) = length (filter (\<lambda>s. s \<noteq> 0) ?I)"
    proof -
      have "{i. i < length (?I[slot := TOMBSTONE]) \<and> ?I[slot := TOMBSTONE] ! i \<noteq> 0} = {i. i < length ?I \<and> ?I ! i \<noteq> 0}"
        using slot tomb(1) heap_value_not_slot(1) [of e] by (auto simp: nth_list_update)
      then show ?thesis by (simp only: length_filter_conv_card)
    qed
    ultimately show ?thesis using ne used set' by (simp add: index_ok_def t')
  qed
  moreover have "\<forall>d \<in> set (xs @ ys). d \<noteq> 0 \<and> d \<le> PAYLOAD_MASK \<and> (\<exists>k. keys ent' d = Some k \<and> is_heap k)"
  proof
    fix d assume d: "d \<in> set (xs @ ys)"
    then have "d \<in> set ?E" "d \<noteq> e" using E(1) by auto
    then show "d \<noteq> 0 \<and> d \<le> PAYLOAD_MASK \<and> (\<exists>k. keys ent' d = Some k \<and> is_heap k)" using E(3) same by simp
  qed
  ultimately show ?thesis using E(1,6) by (simp add: table_core_def t')
qed

subsection \<open>The stores after an update\<close>

lemma table_of_update_table [simp]:
  "table_of (update_table a f st) = (case table_of st a of None \<Rightarrow> table_of st | Some t \<Rightarrow> (table_of st)(a \<mapsto> f t))"
  by (auto simp: fun_eq_iff table_of_def update_table_def split: option.splits heap_body.splits)

lemma entry_of_update_table [simp]: "entry_of (update_table a f st) = entry_of st"
  by (auto simp: fun_eq_iff table_of_def entry_of_def update_table_def split: option.splits heap_body.splits)

lemma table_of_update_entry [simp]: "table_of (update_entry a f st) = table_of st"
  by (auto simp: fun_eq_iff table_of_def entry_of_def update_entry_def split: option.splits heap_body.splits)

lemma entry_of_update_entry [simp]:
  "entry_of (update_entry a f st) = (case entry_of st a of None \<Rightarrow> entry_of st | Some t \<Rightarrow> (entry_of st)(a \<mapsto> f t))"
  by (auto simp: fun_eq_iff entry_of_def update_entry_def split: option.splits heap_body.splits)

lemma is_marked_update [simp]:
  "is_marked (update_table a f st) = is_marked st" "is_marked (update_entry a g st) = is_marked st"
  by (auto simp: fun_eq_iff is_marked_def update_table_def update_entry_def split: option.splits)

lemma unmark_views [simp]:
  "table_of (unmark a st) = table_of st" "entry_of (unmark a st) = entry_of st"
  "is_marked (unmark a st) = (is_marked st)(a := False)"
  by (auto simp: fun_eq_iff is_marked_def table_of_def entry_of_def unmark_def split: option.splits)

lemma other_blocks:
  "b \<noteq> a \<Longrightarrow> update_table a f st b = st b" "b \<noteq> a \<Longrightarrow> update_entry a g st b = st b" "b \<noteq> a \<Longrightarrow> unmark a st b = st b"
  by (auto simp: update_table_def update_entry_def unmark_def split: option.splits)

lemma dom_updates [simp]:
  "dom (update_table a f st) = dom st" "dom (update_entry a g st) = dom st" "dom (unmark a st) = dom st"
  by (auto simp: update_table_def update_entry_def unmark_def split: option.splits)

lemma field_views [simp]:
  "nexts (ent(a \<mapsto> en)) = (nexts ent)(a \<mapsto> next_entry en)"
  "prevs (ent(a \<mapsto> en)) = (prevs ent)(a \<mapsto> previous_entry en)"
  "keys (ent(a \<mapsto> en)) = (keys ent)(a \<mapsto> entry_key en)"
  by (simp_all add: fun_eq_iff nexts_def prevs_def keys_def)

lemma core_entry: "table_core ent t E \<Longrightarrow> e \<in> set E \<Longrightarrow> \<exists>en. ent e = Some en"
  by (auto simp: table_core_def keys_def)

text \<open>What both ways of unlinking an entry do to the store, up to the tail link and the mark.\<close>

definition unlinked :: "u64 \<Rightarrow> u64 list \<Rightarrow> u64 \<Rightarrow> u64 list \<Rightarrow> store \<Rightarrow> store \<Rightarrow> bool" where
  "unlinked a xs e ys st st' \<longleftrightarrow>
     (\<exists>t'. table_of st' a = Some t' \<and> table_core (entry_of st') t' (xs @ ys)) \<and>
     content st' (xs @ ys) = content st (xs @ ys) \<and>
     (\<forall>d. d \<noteq> e \<longrightarrow> keys (entry_of st') d = keys (entry_of st) d) \<and>
     entry_of st' e = Some wiped_entry \<and>
     (\<forall>b. b \<noteq> a \<longrightarrow> b \<notin> set (xs @ e # ys) \<longrightarrow> st' b = st b) \<and>
     (\<forall>b. b \<noteq> a \<longrightarrow> table_of st' b = table_of st b) \<and>
     dom st' = dom st \<and> dom (entry_of st') = dom (entry_of st)"

lemma unlinkedI:
  assumes t: "table_of st a = Some t" and core: "table_core (entry_of st) t (xs @ e # ys)"
    and en: "entry_of st e = Some en"
    and slot: "slot < length (table_index t)" "table_index t ! slot = heap_value e"
    and blink: "back_link v (last_of xs)"
    and ent': "entry_of st' = (let ent = entry_of st;
        ent = (if xs = [] then ent else ent(last xs \<mapsto> the (ent (last xs))\<lparr>next_entry := next_entry en\<rparr>));
        ent = (if ys = [] then ent else ent(hd ys \<mapsto> the (ent (hd ys))\<lparr>previous_entry := v\<rparr>))
      in ent(e \<mapsto> wiped_entry))"
    and t': "table_of st' = (table_of st)(a \<mapsto> t')" "table_head t' = (if xs = [] then next_entry en else table_head t)"
      "table_index t' = (table_index t)[slot := TOMBSTONE]"
      "table_live t' = table_live t - 1" "table_used t' = table_used t"
    and rest: "\<And>b. b \<noteq> a \<Longrightarrow> b \<notin> set (xs @ e # ys) \<Longrightarrow> st' b = st b" "dom st' = dom st"
  shows "unlinked a xs e ys st st'"
proof -
  let ?ent = "entry_of st"
  have E: "distinct (xs @ e # ys)" using core by (simp add: table_core_def)
  have some: "\<exists>en. ?ent d = Some en" if "d \<in> set (xs @ e # ys)" for d using core_entry [OF core that] .
  define k where "k = (if xs = [] then 0 else last xs)"
  have lk: "xs \<noteq> [] \<Longrightarrow> \<exists>en. ?ent (last xs) = Some en" using some [of "last xs"] by simp
  have hy: "ys \<noteq> [] \<Longrightarrow> \<exists>en. ?ent (hd ys) = Some en" using some [of "hd ys"] by simp
  have neq: "xs \<noteq> [] \<Longrightarrow> ys \<noteq> [] \<Longrightarrow> last xs \<noteq> hd ys" "xs \<noteq> [] \<Longrightarrow> last xs \<noteq> e" "ys \<noteq> [] \<Longrightarrow> hd ys \<noteq> e"
    using E by (auto simp: disjoint_iff) (metis hd_in_set last_in_set)+
  have "nexts (entry_of st') = (if xs = [] then (nexts ?ent)(e := Some oseo_undefined)
      else (nexts ?ent)(last xs \<mapsto> next_entry en, e := Some oseo_undefined))"
    unfolding ent' Let_def using lk hy neq
    by (auto simp: wiped_entry_def fun_eq_iff nexts_def)
  moreover have "prevs (entry_of st') = (if ys = [] then prevs ?ent else (prevs ?ent)(hd ys \<mapsto> v))(e := Some oseo_undefined)"
    unfolding ent' Let_def using lk hy neq
    by (auto simp: wiped_entry_def fun_eq_iff prevs_def)
  moreover have keys: "keys (entry_of st') = (keys ?ent)(e := Some oseo_undefined)"
    unfolding ent' Let_def using lk hy neq
    by (auto simp: wiped_entry_def fun_eq_iff keys_def)
  moreover have "nexts ?ent e = Some (next_entry en)" using en by (simp add: nexts_def)
  ultimately have "table_core (entry_of st') t' (xs @ ys)"
    using core_unlink [OF core _ slot _ _ blink _ t'(2-5)] by blast
  moreover have "content st' (xs @ ys) = content st (xs @ ys)"
  proof -
    have same: "bindings (entry_of st') = (bindings ?ent)(e \<mapsto> (oseo_undefined, oseo_undefined))"
      unfolding ent' Let_def using lk hy neq
      by (auto simp: wiped_entry_def fun_eq_iff bindings_def)
    have "d \<noteq> e" if "d \<in> set (xs @ ys)" for d using that E by auto
    then show ?thesis unfolding content_def same by (intro map_cong [OF refl]) simp
  qed
  moreover have "dom (entry_of st') = dom ?ent"
  proof -
    have "xs \<noteq> [] \<Longrightarrow> last xs \<in> dom ?ent" "ys \<noteq> [] \<Longrightarrow> hd ys \<in> dom ?ent" "e \<in> dom ?ent" using lk hy en by blast+
    then show ?thesis unfolding ent' Let_def by (simp add: insert_absorb)
  qed
  moreover have "entry_of st' e = Some wiped_entry" unfolding ent' by (simp add: Let_def)
  ultimately show ?thesis using t'(1) keys rest by (auto simp: unlinked_def)
qed

lemma remove_from_index_views:
  assumes "table_of st a = Some t" "table_core (entry_of st) t E" "e \<in> set E" "entry_of st e = Some en"
  obtains slot where "slot < length (table_index t)" "table_index t ! slot = heap_value e"
    "ephemeron_index_find (entry_of st) t (entry_key en) = Some slot"
    "table_of (remove_from_index a (entry_key en) st) = (table_of st)(a \<mapsto> t\<lparr>table_index := (table_index t)[slot := TOMBSTONE]\<rparr>)"
    "entry_of (remove_from_index a (entry_key en) st) = entry_of st"
    "is_marked (remove_from_index a (entry_key en) st) = is_marked st"
    "dom (remove_from_index a (entry_key en) st) = dom st"
    "\<And>b. b \<noteq> a \<Longrightarrow> remove_from_index a (entry_key en) st b = st b"
proof -
  have "keys (entry_of st) e = Some (entry_key en)" using assms(4) by (simp add: keys_def)
  then obtain slot where slot: "ephemeron_index_find (entry_of st) t (entry_key en) = Some slot"
      "slot < length (table_index t)" "table_index t ! slot = heap_value e"
    using index_find_hit [OF assms(2,3)] by blast
  have "remove_from_index a (entry_key en) st = update_table a (\<lambda>t. t\<lparr>table_index := (table_index t)[slot := TOMBSTONE]\<rparr>) st"
    using assms(1) slot(1) by (simp add: remove_from_index_def)
  then show ?thesis using that [of slot] slot assms(1) by (simp add: other_blocks)
qed

lemma unlink_dead_unlinked:
  assumes t: "table_of st a = Some t" and core: "table_core (entry_of st) t (xs @ e # ys)"
    and en: "entry_of st e = Some en" and k: "k = (if xs = [] then 0 else last xs)"
  shows "unlinked a xs e ys st (unlink_dead a k e en st)"
    and "is_marked (unlink_dead a k e en st) = (is_marked st)(e := False)"
proof -
  let ?E = "xs @ e # ys"
  have E: "distinct ?E" "\<forall>d \<in> set ?E. d \<noteq> 0 \<and> d \<le> PAYLOAD_MASK" "forward (nexts (entry_of st)) (table_head t) ?E"
    using core unfolding table_core_def by blast+
  have some: "\<exists>en. entry_of st d = Some en" if "d \<in> set ?E" for d using core_entry [OF core that] .
  have M: "\<forall>d \<in> set ?E. d \<le> PAYLOAD_MASK" using E(2) by blast
  obtain w where w: "nexts (entry_of st) e = Some w" "is_heap w \<longleftrightarrow> ys \<noteq> []" "ys \<noteq> [] \<longrightarrow> heap_address w = hd ys"
    using forward_next [OF E(3) M] by metis
  have nw: "next_entry en = w" using w(1) en by (simp add: nexts_def)
  have "e \<in> set ?E" by simp
  then obtain slot where slot: "slot < length (table_index t)" "table_index t ! slot = heap_value e"
    and S1: "table_of (remove_from_index a (entry_key en) st) = (table_of st)(a \<mapsto> t\<lparr>table_index := (table_index t)[slot := TOMBSTONE]\<rparr>)"
      "entry_of (remove_from_index a (entry_key en) st) = entry_of st"
      "is_marked (remove_from_index a (entry_key en) st) = is_marked st"
      "dom (remove_from_index a (entry_key en) st) = dom st"
      "\<And>b. b \<noteq> a \<Longrightarrow> remove_from_index a (entry_key en) st b = st b"
    using remove_from_index_views [OF t core _ en] by metis
  have k0: "k = 0 \<longleftrightarrow> xs = []" using E(2) k by auto
  have lk: "xs \<noteq> [] \<Longrightarrow> \<exists>en. entry_of st (last xs) = Some en" using some [of "last xs"] by simp
  have hy: "ys \<noteq> [] \<Longrightarrow> \<exists>en. entry_of st (hd ys) = Some en" using some [of "hd ys"] by simp
  have neq: "xs \<noteq> [] \<Longrightarrow> ys \<noteq> [] \<Longrightarrow> last xs \<noteq> hd ys" "xs \<noteq> [] \<Longrightarrow> last xs \<noteq> e" "ys \<noteq> [] \<Longrightarrow> hd ys \<noteq> e"
    using E(1) by (auto simp: disjoint_iff) (metis hd_in_set last_in_set)+
  define s2 where "s2 = write_link a k (next_entry en) (remove_from_index a (entry_key en) st)"
  define s3 where "s3 = (if is_heap (next_entry en)
    then update_entry (heap_address (next_entry en)) (\<lambda>n. n\<lparr>previous_entry := link_to k\<rparr>) s2 else s2)"
  define s4 where "s4 = unmark e (update_entry e (\<lambda>_. wiped_entry) s3)"
  have un: "unlink_dead a k e en st = update_table a count_down s4"
    by (simp add: unlink_dead_def Let_def s2_def s3_def s4_def)
  have e2: "entry_of s2 = (if xs = [] then entry_of st
      else (entry_of st)(last xs \<mapsto> the (entry_of st (last xs))\<lparr>next_entry := next_entry en\<rparr>))"
    using lk S1(2) k0 by (auto simp: s2_def write_link_def k)
  have t2: "table_of s2 = (table_of st)(a \<mapsto> t\<lparr>table_index := (table_index t)[slot := TOMBSTONE],
      table_head := if xs = [] then next_entry en else table_head t\<rparr>)"
    using S1(1) by (auto simp: s2_def write_link_def k0)
  have e3: "entry_of s3 = (if ys = [] then entry_of s2
      else (entry_of s2)(hd ys \<mapsto> the (entry_of s2 (hd ys))\<lparr>previous_entry := link_to k\<rparr>))"
    using hy neq(1) w(2,3) unfolding s3_def nw by (auto simp: e2)
  have t3: "table_of s3 = table_of s2" by (simp add: s3_def)
  have "e \<noteq> last xs \<or> xs = []" "e \<noteq> hd ys \<or> ys = []" using neq(2,3) by blast+
  then have "entry_of s2 e = Some en" "entry_of s3 e = entry_of s2 e" using en by (auto simp: e2 e3)
  then have e4: "entry_of s4 = (entry_of s3)(e \<mapsto> wiped_entry)" by (auto simp: s4_def)
  have t4: "table_of s4 = table_of s3" by (simp add: s4_def)
  have hk: "xs \<noteq> [] \<Longrightarrow> k \<in> set ?E" "ys \<noteq> [] \<Longrightarrow> hd ys \<in> set ?E" using k by auto
  have other: "update_table a count_down s4 b = st b" if "b \<noteq> a" "b \<notin> set ?E" for b
  proof -
    have "b \<noteq> e" using that by auto
    have "xs = [] \<or> b \<noteq> k" "ys = [] \<or> b \<noteq> hd ys" using that(2) hk by blast+
    then have "s2 b = st b" "s3 b = s2 b"
      using that(1) S1(5) w(2,3) by (auto simp: s2_def s3_def write_link_def other_blocks k0 nw)
    then show ?thesis using that(1) \<open>b \<noteq> e\<close> by (simp add: s4_def other_blocks)
  qed
  have dom: "dom (update_table a count_down s4) = dom st"
    using S1(4) by (simp add: s4_def s3_def s2_def write_link_def)
  have len: "table_live t > 0" using core by (simp add: table_core_def)
  show "unlinked a xs e ys st (unlink_dead a k e en st)" unfolding un
  proof (rule unlinkedI [OF t core en slot _ _ _ _ _ _ _ other dom])
    show "back_link (link_to k) (last_of xs)" using k0 by (auto simp: back_link_def last_of_def link_to_def k)
    show "entry_of (update_table a count_down s4) = (let ent = entry_of st;
        ent = (if xs = [] then ent else ent(last xs \<mapsto> the (ent (last xs))\<lparr>next_entry := next_entry en\<rparr>));
        ent = (if ys = [] then ent else ent(hd ys \<mapsto> the (ent (hd ys))\<lparr>previous_entry := link_to k\<rparr>))
      in ent(e \<mapsto> wiped_entry))"
      by (simp add: Let_def e4 e3 e2)
    show "table_of (update_table a count_down s4) = (table_of st)(a \<mapsto> count_down (t\<lparr>table_index := (table_index t)[slot := TOMBSTONE],
      table_head := if xs = [] then next_entry en else table_head t\<rparr>))"
      by (simp add: t4 t3 t2)
  qed (use len in \<open>simp_all add: count_down_def\<close>)
  show "is_marked (unlink_dead a k e en st) = (is_marked st)(e := False)"
    unfolding un s4_def s3_def s2_def write_link_def using S1(3) by simp
qed

subsection \<open>Clearing the dead entries of a table\<close>

lemma forward_append:
  "forward nx v (xs @ ys) \<Longrightarrow> \<exists>w. (if xs = [] then w = v else nx (last xs) = Some w) \<and> forward nx w ys"
  by (induction xs arbitrary: v) (auto split: if_splits)

lemma read_link_value:
  assumes t: "table_of st a = Some t" and core: "table_core (entry_of st) t (xs @ rest)"
    and k: "k = (if xs = [] then 0 else last xs)"
  obtains v where "read_link a k st = Some v" "forward (nexts (entry_of st)) v rest"
proof -
  have E: "forward (nexts (entry_of st)) (table_head t) (xs @ rest)" "\<forall>d \<in> set (xs @ rest). d \<noteq> 0"
    using core unfolding table_core_def by blast+
  have k0: "k = 0 \<longleftrightarrow> xs = []" using E(2) k by auto
  obtain w where w: "if xs = [] then w = table_head t else nexts (entry_of st) (last xs) = Some w"
    "forward (nexts (entry_of st)) w rest" using forward_append [OF E(1)] by blast
  then have "read_link a k st = Some w" using t k0 k by (auto simp: read_link_def nexts_def)
  with that w(2) show ?thesis by blast
qed

text \<open>The table \<open>a\<close> went from the entries \<open>E\<close> to the entries \<open>E'\<close>: the others are wiped and unmarked,
  and no block besides the table and its entries changed.\<close>

definition cleared :: "u64 \<Rightarrow> u64 list \<Rightarrow> u64 list \<Rightarrow> store \<Rightarrow> store \<Rightarrow> bool" where
  "cleared a E E' st st' \<longleftrightarrow>
     table_ok st' a E' \<and> content st' E' = content st E' \<and>
     (\<forall>d \<in> set E - set E'. entry_of st' d = Some wiped_entry) \<and>
     (\<forall>d. d \<notin> set E - set E' \<longrightarrow> keys (entry_of st') d = keys (entry_of st) d) \<and>
     is_marked st' = (\<lambda>d. is_marked st d \<and> d \<notin> set E - set E') \<and>
     (\<forall>b. b \<noteq> a \<longrightarrow> b \<notin> set E \<longrightarrow> st' b = st b) \<and>
     (\<forall>b. b \<noteq> a \<longrightarrow> table_of st' b = table_of st b) \<and> dom st' = dom st \<and> dom (entry_of st') = dom (entry_of st)"

lemma clear_dead_entries_correct:
  assumes "table_of st a = Some t" "table_core (entry_of st) t (xs @ rest)"
    "k = (if xs = [] then 0 else last xs)" "length rest < n"
    "\<forall>e \<in> set (xs @ rest). \<forall>v. keys (entry_of st) e = Some v \<longrightarrow> heap_address v \<notin> set (xs @ rest)"
  shows "\<exists>st'. clear_dead_entries n a k st = Some st' \<and>
    cleared a (xs @ rest) (xs @ filter (\<lambda>e. value_is_marked st (the (keys (entry_of st) e))) rest) st st'"
  using assms
proof (induction rest arbitrary: st t xs k n)
  case Nil
  obtain m where n: "n = Suc m" using Nil.prems(4) by (cases n) auto
  obtain v where v: "read_link a k st = Some v" "\<not> is_heap v"
    using read_link_value [OF Nil.prems(1-3)] by auto
  define st' where "st' = update_table a (\<lambda>t. t\<lparr>table_tail := link_to k\<rparr>) st"
  have core: "table_core (entry_of st) t xs" using Nil.prems(2) by simp
  have "\<forall>d \<in> set xs. d \<noteq> 0" using core by (simp add: table_core_def)
  then have k0: "k = 0 \<longleftrightarrow> xs = []" using Nil.prems(3) by auto
  have "table_core (entry_of st) (t\<lparr>table_tail := link_to k\<rparr>) xs"
    using core by (simp add: table_core_def index_ok_def)
  moreover have "back_link (link_to k) (last_of xs)"
    using k0 Nil.prems(3) by (auto simp: back_link_def link_to_def last_of_def)
  ultimately have "table_ok st' a xs" using Nil.prems(1) by (simp add: table_ok_def st'_def)
  then have "cleared a xs xs st st'"
    using Nil.prems(1) by (auto simp: cleared_def st'_def content_def other_blocks)
  then show ?case using n v by (auto simp: st'_def)
next
  case (Cons e ys)
  let ?E = "xs @ e # ys"
  let ?alive = "\<lambda>st e. value_is_marked st (the (keys (entry_of st) e))"
  obtain m where n: "n = Suc m" "length ys < m" using Cons.prems(4) by (cases n) auto
  obtain v where v: "read_link a k st = Some v" "v = heap_value e"
    using read_link_value [OF Cons.prems(1-3)] by auto
  have E: "distinct ?E" "\<forall>d \<in> set ?E. d \<noteq> 0 \<and> d \<le> PAYLOAD_MASK \<and> (\<exists>k. keys (entry_of st) d = Some k \<and> is_heap k)"
    using Cons.prems(2) unfolding table_core_def by blast+
  then have ve: "is_heap v" "heap_address v = e" using v(2) by auto
  obtain en where en: "entry_of st e = Some en" using core_entry [OF Cons.prems(2), of e] by auto
  have ke: "keys (entry_of st) e = Some (entry_key en)" using en by (simp add: keys_def)
  show ?case
  proof (cases "value_is_marked st (entry_key en)")
    case True
    then have step: "clear_dead_entries n a k st = clear_dead_entries m a e st"
      using n v(1) ve en by (simp add: Let_def)
    have E': "xs @ e # ys = (xs @ [e]) @ ys" by simp
    have "\<exists>st'. clear_dead_entries m a e st = Some st' \<and>
        cleared a ((xs @ [e]) @ ys) ((xs @ [e]) @ filter (?alive st) ys) st st'"
      by (rule Cons.IH [OF Cons.prems(1)]) (use Cons.prems(2,5) n in \<open>simp_all only: E' [symmetric], simp_all\<close>)
    then show ?thesis using True ke step by simp
  next
    case False
    define s1 where "s1 = unlink_dead a k e en st"
    have un: "unlinked a xs e ys st s1" and mk1: "is_marked s1 = (is_marked st)(e := False)"
      using unlink_dead_unlinked [OF Cons.prems(1,2) en Cons.prems(3)] by (simp_all add: s1_def)
    have step: "clear_dead_entries n a k st = clear_dead_entries m a k s1"
      using n v(1) ve en False by (simp add: Let_def s1_def)
    obtain t1 where t1: "table_of s1 a = Some t1" "table_core (entry_of s1) t1 (xs @ ys)" using un by (auto simp: unlinked_def)
    have k1: "keys (entry_of s1) d = keys (entry_of st) d" if "d \<noteq> e" for d using un that by (simp add: unlinked_def)
    have ne: "d \<noteq> e" if "d \<in> set (xs @ ys)" for d using that E(1) by auto
    have apart: "\<forall>d \<in> set (xs @ ys). \<forall>v. keys (entry_of s1) d = Some v \<longrightarrow> heap_address v \<notin> set (xs @ ys)"
      using Cons.prems(5) k1 ne by auto
    obtain st' where st': "clear_dead_entries m a k s1 = Some st'"
      "cleared a (xs @ ys) (xs @ filter (?alive s1) ys) s1 st'"
      using Cons.IH [OF t1 Cons.prems(3) n(2) apart] by blast
    have "value_is_marked s1 (the (keys (entry_of s1) d)) = value_is_marked st (the (keys (entry_of st) d))" if d: "d \<in> set ys" for d
    proof -
      have "d \<in> set ?E" "d \<noteq> e" using d E(1) by auto
      then obtain v where "keys (entry_of st) d = Some v" using E(2) by blast
      moreover from this have "heap_address v \<noteq> e" using Cons.prems(5) \<open>d \<in> set ?E\<close> by auto
      ultimately show ?thesis using k1 [OF \<open>d \<noteq> e\<close>] by (simp add: value_is_marked_def mk1)
    qed
    then have alive: "filter (?alive s1) ys = filter (?alive st) ys" by (intro filter_cong) auto
    let ?E' = "xs @ filter (?alive st) ys"
    have sub: "set ?E' \<subseteq> set (xs @ ys)" by auto
    have gone: "set ?E - set ?E' = insert e (set (xs @ ys) - set ?E')" using E(1) by auto
    have c': "cleared a (xs @ ys) ?E' s1 st'" using st'(2) alive by simp
    have content: "content st' ?E' = content st ?E'"
    proof -
      have "content s1 (xs @ ys) = content st (xs @ ys)" using un by (simp add: unlinked_def)
      then have "\<forall>d \<in> set (xs @ ys). the (bindings (entry_of s1) d) = the (bindings (entry_of st) d)"
        by (auto simp: content_def)
      then have "content s1 ?E' = content st ?E'" using sub unfolding content_def by (intro map_cong [OF refl]) blast
      then show ?thesis using c' by (simp add: cleared_def)
    qed
    have "cleared a ?E ?E' st st'"
      unfolding cleared_def gone
    proof (intro conjI)
      show "table_ok st' a ?E'" using c' by (simp add: cleared_def)
      show "content st' ?E' = content st ?E'" by (rule content)
      have we: "entry_of st' e = Some wiped_entry"
      proof -
        have "e \<notin> set (xs @ ys)" "e \<noteq> a" using E(1) en Cons.prems(1) by (auto simp: table_of_def entry_of_def split: option.splits heap_body.splits)
        then have "st' e = s1 e" using c' by (simp add: cleared_def)
        then have "entry_of st' e = entry_of s1 e" by (simp add: entry_of_def)
        then show ?thesis using un by (simp add: unlinked_def)
      qed
      note c = c' [unfolded cleared_def] and u = un [unfolded unlinked_def]
      show "\<forall>d \<in> insert e (set (xs @ ys) - set ?E'). entry_of st' d = Some wiped_entry"
        using c we by blast
      show "\<forall>d. d \<notin> insert e (set (xs @ ys) - set ?E') \<longrightarrow> keys (entry_of st') d = keys (entry_of st) d"
      proof (intro allI impI)
        fix d assume "d \<notin> insert e (set (xs @ ys) - set ?E')"
        then have "keys (entry_of st') d = keys (entry_of s1) d" "d \<noteq> e" using c by blast+
        then show "keys (entry_of st') d = keys (entry_of st) d" using k1 by simp
      qed
      have mk': "is_marked st' = (\<lambda>d. is_marked s1 d \<and> d \<notin> set (xs @ ys) - set ?E')" using c by blast
      show "is_marked st' = (\<lambda>d. is_marked st d \<and> d \<notin> insert e (set (xs @ ys) - set ?E'))"
        unfolding mk' mk1 by (rule ext) simp
      show "\<forall>b. b \<noteq> a \<longrightarrow> b \<notin> set ?E \<longrightarrow> st' b = st b"
      proof (intro allI impI)
        fix b assume b: "b \<noteq> a" "b \<notin> set ?E"
        then have "b \<notin> set (xs @ ys)" by simp
        then have "st' b = s1 b" using c b(1) by blast
        also have "\<dots> = st b" using u b by blast
        finally show "st' b = st b" .
      qed
      show "\<forall>b. b \<noteq> a \<longrightarrow> table_of st' b = table_of st b" using c u by metis
      show "dom st' = dom st" "dom (entry_of st') = dom (entry_of st)" using c u by metis+
    qed
    then show ?thesis using step st'(1) False ke by auto
  qed
qed

subsection \<open>Deleting and reading\<close>

lemma ephemeron_delete_hit:
  assumes ok: "table_ok st a (xs @ e # ys)" and a: "a \<le> PAYLOAD_MASK" and key: "keys (entry_of st) e = Some key"
  shows "fst (ephemeron_delete (heap_value a) key st)"
    and "unlinked a xs e ys st (snd (ephemeron_delete (heap_value a) key st))"
    and "table_ok (snd (ephemeron_delete (heap_value a) key st)) a (xs @ ys)"
proof -
  let ?E = "xs @ e # ys"
  obtain t where t: "table_of st a = Some t" and core: "table_core (entry_of st) t ?E" and tl: "back_link (table_tail t) (last_of ?E)"
    using ok by (auto simp: table_ok_def)
  have E: "distinct ?E" "\<forall>d \<in> set ?E. d \<noteq> 0 \<and> d \<le> PAYLOAD_MASK" "forward (nexts (entry_of st)) (table_head t) ?E"
    "backward (prevs (entry_of st)) None ?E"
    using core unfolding table_core_def by blast+
  have M: "\<forall>d \<in> set ?E. d \<le> PAYLOAD_MASK" using E(2) by blast
  have some: "\<exists>en. entry_of st d = Some en" if "d \<in> set ?E" for d using core_entry [OF core that] .
  obtain en where en: "entry_of st e = Some en" using some [of e] by auto
  have ek: "entry_key en = key" using key en by (simp add: keys_def)
  obtain w where w: "nexts (entry_of st) e = Some w" "is_heap w \<longleftrightarrow> ys \<noteq> []" "ys \<noteq> [] \<longrightarrow> heap_address w = hd ys"
    using forward_next [OF E(3) M] by metis
  obtain v where v: "prevs (entry_of st) e = Some v" "back_link v (last_of xs)"
    unfolding last_of_def by (rule backward_previous [OF E(4)])
  have nw: "next_entry en = w" "previous_entry en = v" using w(1) v(1) en by (simp_all add: nexts_def prevs_def)
  have vh: "is_heap v \<longleftrightarrow> xs \<noteq> []" "xs \<noteq> [] \<longrightarrow> heap_address v = last xs"
  proof -
    have "v = heap_value (last xs) \<and> last xs \<le> PAYLOAD_MASK" if "xs \<noteq> []"
      using v(2) M that by (simp add: back_link_def last_of_def)
    moreover have "\<not> is_heap v" if "xs = []" using v(2) that by (simp add: back_link_def last_of_def)
    ultimately show "is_heap v \<longleftrightarrow> xs \<noteq> []" "xs \<noteq> [] \<longrightarrow> heap_address v = last xs" by auto
  qed
  obtain slot where slot: "ephemeron_index_find (entry_of st) t key = Some slot" "slot < length (table_index t)" "table_index t ! slot = heap_value e"
    using index_find_hit [OF core _ key] by auto
  have ae: "heap_address (table_index t ! slot) = e" using slot(3) M by simp
  define s1 where "s1 = update_table a (\<lambda>t. t\<lparr>table_index := (table_index t)[slot := TOMBSTONE]\<rparr>) st"
  define s2 where "s2 = (if is_heap v then update_entry (heap_address v) (\<lambda>p. p\<lparr>next_entry := w\<rparr>) s1
    else update_table a (\<lambda>t. t\<lparr>table_head := w\<rparr>) s1)"
  define s3 where "s3 = (if is_heap w then update_entry (heap_address w) (\<lambda>n. n\<lparr>previous_entry := v\<rparr>) s2
    else update_table a (\<lambda>t. t\<lparr>table_tail := v\<rparr>) s2)"
  define s4 where "s4 = update_entry e (\<lambda>_. wiped_entry) s3"
  have del: "ephemeron_delete (heap_value a) key st = (True, update_table a count_down s4)"
    using a t slot(1) ae en by (simp add: ephemeron_delete_def Let_def nw s1_def s2_def s3_def s4_def)
  have lk: "xs \<noteq> [] \<Longrightarrow> \<exists>en. entry_of st (last xs) = Some en" using some [of "last xs"] by simp
  have hy: "ys \<noteq> [] \<Longrightarrow> \<exists>en. entry_of st (hd ys) = Some en" using some [of "hd ys"] by simp
  have neq: "xs \<noteq> [] \<Longrightarrow> ys \<noteq> [] \<Longrightarrow> last xs \<noteq> hd ys" "xs \<noteq> [] \<Longrightarrow> last xs \<noteq> e" "ys \<noteq> [] \<Longrightarrow> hd ys \<noteq> e"
    using E(1) by (auto simp: disjoint_iff) (metis hd_in_set last_in_set)+
  have e2: "entry_of s2 = (if xs = [] then entry_of st
      else (entry_of st)(last xs \<mapsto> the (entry_of st (last xs))\<lparr>next_entry := w\<rparr>))"
    using lk vh by (auto simp: s2_def s1_def)
  have e3: "entry_of s3 = (if ys = [] then entry_of s2
      else (entry_of s2)(hd ys \<mapsto> the (entry_of s2 (hd ys))\<lparr>previous_entry := v\<rparr>))"
    using hy neq(1) w(2,3) unfolding s3_def by (auto simp: e2)
  have "e \<noteq> last xs \<or> xs = []" "e \<noteq> hd ys \<or> ys = []" using neq(2,3) by blast+
  then have "entry_of s2 e = Some en" "entry_of s3 e = entry_of s2 e" using en by (auto simp: e2 e3)
  then have e4: "entry_of s4 = (entry_of s3)(e \<mapsto> wiped_entry)" by (auto simp: s4_def)
  define t4 where "t4 = t\<lparr>table_index := (table_index t)[slot := TOMBSTONE],
      table_head := if xs = [] then w else table_head t, table_tail := if ys = [] then v else table_tail t\<rparr>"
  have t4: "table_of s4 = (table_of st)(a \<mapsto> t4)"
    using t vh(1) w(2) by (auto simp: s4_def s3_def s2_def s1_def t4_def)
  have hk: "xs \<noteq> [] \<Longrightarrow> last xs \<in> set ?E" "ys \<noteq> [] \<Longrightarrow> hd ys \<in> set ?E" by auto
  have other: "update_table a count_down s4 b = st b" if "b \<noteq> a" "b \<notin> set ?E" for b
  proof -
    have "b \<noteq> e" "xs = [] \<or> b \<noteq> last xs" "ys = [] \<or> b \<noteq> hd ys" using that(2) hk by auto
    then show ?thesis using that(1) w(2,3) vh by (auto simp: s4_def s3_def s2_def s1_def other_blocks)
  qed
  have dom: "dom (update_table a count_down s4) = dom st" by (simp add: s4_def s3_def s2_def s1_def)
  have len: "table_live t > 0" using core by (simp add: table_core_def)
  have t': "table_of (update_table a count_down s4) = (table_of st)(a \<mapsto> count_down t4)" by (simp add: t4)
  show un: "unlinked a xs e ys st (snd (ephemeron_delete (heap_value a) key st))" unfolding del snd_conv
  proof (rule unlinkedI [OF t core en slot(2,3) v(2) _ t' _ _ _ _ other dom])
    show "entry_of (update_table a count_down s4) = (let ent = entry_of st;
        ent = (if xs = [] then ent else ent(last xs \<mapsto> the (ent (last xs))\<lparr>next_entry := next_entry en\<rparr>));
        ent = (if ys = [] then ent else ent(hd ys \<mapsto> the (ent (hd ys))\<lparr>previous_entry := v\<rparr>))
      in ent(e \<mapsto> wiped_entry))"
      by (simp add: Let_def e4 e3 e2 nw)
  qed (use len in \<open>simp_all add: count_down_def t4_def nw\<close>)
  have "back_link (table_tail t4) (last_of (xs @ ys))"
    using tl v(2) by (auto simp: t4_def last_of_def)
  then show "table_ok (snd (ephemeron_delete (heap_value a) key st)) a (xs @ ys)"
    using un t' unfolding del snd_conv by (auto simp: unlinked_def table_ok_def count_down_def)
  show "fst (ephemeron_delete (heap_value a) key st)" by (simp add: del)
qed

lemma ephemeron_delete_miss:
  assumes "table_ok st a E" "a \<le> PAYLOAD_MASK" "\<And>e. e \<in> set E \<Longrightarrow> keys (entry_of st) e \<noteq> Some key"
  shows "ephemeron_delete (heap_value a) key st = (False, st)"
proof -
  obtain t where t: "table_of st a = Some t" and core: "table_core (entry_of st) t E" using assms(1) by (auto simp: table_ok_def)
  have "ephemeron_index_find (entry_of st) t key = None"
    using index_find_Some [OF core] assms(3) by (metis not_None_eq)
  then show ?thesis using t assms(2) by (simp add: ephemeron_delete_def Let_def)
qed

lemma map_of_distinct_keys:
  assumes "distinct (map (keys ent) E)" "\<forall>e \<in> set E. \<exists>k. keys ent e = Some k"
  shows "map_of (map (\<lambda>e. the (bindings ent e)) E) key =
    (case filter (\<lambda>e. keys ent e = Some key) E of [] \<Rightarrow> None | e # _ \<Rightarrow> map_option entry_value (ent e))"
  using assms
proof (induction E)
  case (Cons e E)
  then obtain en where "ent e = Some en" by (auto simp: keys_def)
  then show ?case using Cons by (auto simp: keys_def bindings_def)
qed simp

text \<open>\<open>oseo_internal_ephemeron_get\<close> is the lookup in the content, and the live count its length.\<close>

lemma ephemeron_get_content:
  assumes ok: "table_ok st a E" and a: "a \<le> PAYLOAD_MASK"
  shows "ephemeron_get (heap_value a) key st = map_of (content st E) key"
    and "ephemeron_live_count (heap_value a) st = length (content st E)"
proof -
  obtain t where t: "table_of st a = Some t" and core: "table_core (entry_of st) t E" using ok by (auto simp: table_ok_def)
  have E: "distinct (map (keys (entry_of st)) E)" "\<forall>e \<in> set E. \<exists>k. keys (entry_of st) e = Some k" "\<forall>d \<in> set E. d \<le> PAYLOAD_MASK"
    using core unfolding table_core_def by blast+
  show "ephemeron_get (heap_value a) key st = map_of (content st E) key"
  proof (cases "\<exists>e \<in> set E. keys (entry_of st) e = Some key")
    case True
    then obtain e where e: "e \<in> set E" "keys (entry_of st) e = Some key" by blast
    then obtain slot where slot: "ephemeron_index_find (entry_of st) t key = Some slot" "table_index t ! slot = heap_value e"
      using index_find_hit [OF core] by metis
    have "ephemeron_get (heap_value a) key st = map_option entry_value (entry_of st e)"
      using a t slot E(3) e(1) by (simp add: ephemeron_get_def)
    moreover have "hd (filter (\<lambda>e. keys (entry_of st) e = Some key) E) = e \<and> filter (\<lambda>e. keys (entry_of st) e = Some key) E \<noteq> []"
    proof -
      have ne: "filter (\<lambda>e. keys (entry_of st) e = Some key) E \<noteq> []" using e by (auto simp: filter_empty_conv)
      then have "hd (filter (\<lambda>e. keys (entry_of st) e = Some key) E) \<in> {e \<in> set E. keys (entry_of st) e = Some key}"
        using hd_in_set by fastforce
      then show ?thesis using ne e E(1) by (auto simp: distinct_map inj_on_def)
    qed
    ultimately show ?thesis unfolding content_def map_of_distinct_keys [OF E(1,2)] by (auto split: list.splits)
  next
    case False
    then have "ephemeron_index_find (entry_of st) t key = None" using index_find_Some [OF core] by (metis not_None_eq)
    moreover have "filter (\<lambda>e. keys (entry_of st) e = Some key) E = []" using False by (auto simp: filter_empty_conv)
    ultimately show ?thesis unfolding content_def map_of_distinct_keys [OF E(1,2)]
      using a t by (simp add: ephemeron_get_def)
  qed
  show "ephemeron_live_count (heap_value a) st = length (content st E)"
    using a t core by (simp add: ephemeron_live_count_def content_def table_core_def)
qed

end
