(* ===== verification/String_Table.thy ===== *)
theory String_Table
  imports Heap_Objects Probing
begin

text \<open>
  The string table (\<open>runtime_string.c\<close>): the short strings of a context, each allocated once, found
  through an open-addressed index of FNV-1a hashes. The table holds the values of its strings;
  \<open>strings\<close> gives the units of the string a value refers to. \<open>None\<close> as the result of a function
  stands for a walk that never ends, which \<open>string_table_ok\<close> excludes.
\<close>

text \<open>\<open>OseoStringTable\<close>: \<open>count\<close> is the length of the entries, \<open>slot_capacity\<close> that of the table_slots.\<close>

record string_table =
  entries :: "oseo_value list"
  hashes :: "u32 list"
  entry_capacity :: nat
  table_slots :: "u32 list"

type_synonym strings = "oseo_value \<rightharpoonup> u16 list"

definition string_table_hash :: "u16 list \<Rightarrow> u32" where
  "string_table_hash units = fold (\<lambda>unit hash. (hash XOR ucast unit) * 16777619) units 2166136261"

definition string_table_find :: "strings \<Rightarrow> string_table option \<Rightarrow> u32 \<Rightarrow> u16 list \<Rightarrow> oseo_value option" where
  "string_table_find strings table hash units =
     (case table of
        None \<Rightarrow> Some 0
      | Some t \<Rightarrow>
          if table_slots t = [] then Some 0
          else let capacity = length (table_slots t); mask = capacity - 1
               in case probe capacity capacity
                    (\<lambda>slot. table_slots t ! slot = 0 \<or> strings (entries t ! (unat (table_slots t ! slot) - 1)) = Some units)
                    (unat hash AND mask) of
                    None \<Rightarrow> None
                  | Some slot \<Rightarrow>
                      Some (if table_slots t ! slot = 0 then 0 else entries t ! (unat (table_slots t ! slot) - 1)))"

definition string_table_index :: "string_table \<Rightarrow> nat \<Rightarrow> string_table option" where
  "string_table_index t position =
     (let capacity = length (table_slots t); mask = capacity - 1
      in case probe capacity capacity (\<lambda>slot. table_slots t ! slot = 0) (unat (hashes t ! position) AND mask) of
           None \<Rightarrow> None
         | Some slot \<Rightarrow> Some (t\<lparr>table_slots := (table_slots t)[slot := of_nat (position + 1)]\<rparr>))"

fun index_positions :: "nat list \<Rightarrow> string_table \<Rightarrow> string_table option" where
  "index_positions [] t = Some t"
| "index_positions (p # ps) t = (case string_table_index t p of None \<Rightarrow> None | Some t \<Rightarrow> index_positions ps t)"

definition string_table_reindex :: "string_table \<Rightarrow> string_table option" where
  "string_table_reindex t =
     index_positions [0..<length (entries t)] (t\<lparr>table_slots := replicate (length (table_slots t)) 0\<rparr>)"

text \<open>The host's answers to the four requests an insertion may make.\<close>

record table_host =
  grants_table :: bool
  grants_entries :: bool
  grants_hashes :: bool
  grants_slots :: bool

definition string_table_insert ::
  "table_host \<Rightarrow> string_table option \<Rightarrow> oseo_value \<Rightarrow> u32 \<Rightarrow> string_table option option" where
  "string_table_insert host table value hash =
     (case (case table of
              None \<Rightarrow> if grants_table host then Some \<lparr>entries = [], hashes = [], entry_capacity = 0, table_slots = []\<rparr> else None
            | Some t \<Rightarrow> Some t) of
        None \<Rightarrow> Some None
      | Some t \<Rightarrow>
          (let count = length (entries t);
               grow = (count = entry_capacity t);
               capacity = (if grow then (if entry_capacity t = 0 then 64 else entry_capacity t * 2) else entry_capacity t)
           in if count = 2 ^ 32 - 2 then Some (Some t)
              else if grow \<and> (capacity > SIZE_MAX div 8 \<or> \<not> grants_entries host \<or> \<not> grants_hashes host) then Some (Some t)
              else
                let t = t\<lparr>entry_capacity := capacity\<rparr>;
                    rehash = ((count + 1) * 2 > length (table_slots t));
                    slot_capacity = (if table_slots t = [] then 128 else length (table_slots t) * 2)
                in if rehash \<and> (slot_capacity > SIZE_MAX div 4 \<or> \<not> grants_slots host) then Some (Some t)
                   else case (if rehash then string_table_reindex (t\<lparr>table_slots := replicate slot_capacity 0\<rparr>) else Some t) of
                     None \<Rightarrow> None
                   | Some t \<Rightarrow>
                       map_option Some
                         (string_table_index (t\<lparr>entries := entries t @ [value], hashes := hashes t @ [hash]\<rparr>) count)))"

definition string_table_sweep :: "(oseo_value \<Rightarrow> bool) \<Rightarrow> string_table option \<Rightarrow> string_table option option" where
  "string_table_sweep alive table =
     (case table of
        None \<Rightarrow> Some None
      | Some t \<Rightarrow>
          let kept = filter (\<lambda>p. alive (entries t ! p)) [0..<length (entries t)]
          in if length kept = length (entries t) then Some (Some t)
             else map_option Some (string_table_reindex
               (t\<lparr>entries := map ((!) (entries t)) kept, hashes := map ((!) (hashes t)) kept\<rparr>)))"

subsection \<open>The index contract\<close>

definition string_occupant :: "strings \<Rightarrow> oseo_value list \<Rightarrow> u32 \<Rightarrow> u16 list option" where
  "string_occupant strings es position = (if position = 0 then None else strings (es ! (unat position - 1)))"

definition string_home :: "u16 list \<Rightarrow> nat \<Rightarrow> nat" where
  "string_home units capacity = unat (string_table_hash units) AND (capacity - 1)"

interpretation string_slots: open_addressing "\<lambda>position. position = 0" "string_occupant strings es" string_home for strings es
proof
  fix units n show "string_home units (2 ^ n) < 2 ^ n"
    unfolding string_home_def nat_and_mask by simp
qed (simp add: string_occupant_def)

text \<open>Every entry is a string of the heap with its hash, no two entries have the same units, and the
  index holds each position once and is at most half full.\<close>

definition entries_ok :: "strings \<Rightarrow> string_table \<Rightarrow> bool" where
  "entries_ok strings t \<longleftrightarrow>
     length (hashes t) = length (entries t) \<and> length (entries t) < 2 ^ 32 - 1 \<and>
     (\<forall>i<length (entries t). entries t ! i \<noteq> 0 \<and>
        (\<exists>units. strings (entries t ! i) = Some units \<and> hashes t ! i = string_table_hash units)) \<and>
     distinct (map strings (entries t))"

definition slots_ok :: "strings \<Rightarrow> string_table \<Rightarrow> nat \<Rightarrow> bool" where
  "slots_ok strings t count \<longleftrightarrow>
     indexed (\<lambda>position. position = 0) (string_occupant strings (entries t)) string_home (table_slots t) \<and>
     {p \<in> set (table_slots t). p \<noteq> 0} = of_nat ` {1..count} \<and>
     length (filter (\<lambda>p. p \<noteq> 0) (table_slots t)) = count"

definition string_table_ok :: "strings \<Rightarrow> string_table option \<Rightarrow> bool" where
  "string_table_ok strings table \<longleftrightarrow>
     (case table of None \<Rightarrow> True
      | Some t \<Rightarrow> entries_ok strings t \<and>
          (if table_slots t = [] then entries t = []
           else slots_ok strings t (length (entries t)) \<and> 2 * length (entries t) \<le> length (table_slots t)))"

text \<open>The content: the shared strings by their units.\<close>

definition shared :: "strings \<Rightarrow> string_table option \<Rightarrow> u16 list \<rightharpoonup> oseo_value" where
  "shared strings table units =
     (case table of None \<Rightarrow> None | Some t \<Rightarrow> List.find (\<lambda>v. strings v = Some units) (entries t))"

lemma position_value:
  assumes "n < 2 ^ 32" shows "unat (of_nat n :: u32) = n"
  using assms by (simp add: unsigned_of_nat take_bit_nat_eq_self)

lemma position_occupant:
  "entries_ok strings t \<Longrightarrow> i < length (entries t) \<Longrightarrow>
   string_occupant strings (entries t) (of_nat (Suc i)) = strings (entries t ! i) \<and> (of_nat (Suc i) :: u32) \<noteq> 0"
proof -
  assume a: "entries_ok strings t" "i < length (entries t)"
  then have "Suc i < 2 ^ 32" by (simp add: entries_ok_def)
  note p = position_value [OF this]
  then have "(of_nat (Suc i) :: u32) \<noteq> 0" by (metis Zero_not_Suc unat_0)
  then show ?thesis using p by (simp add: string_occupant_def)
qed

lemma entry_units:
  assumes "entries_ok strings t" "i < length (entries t)"
  obtains units where "strings (entries t ! i) = Some units" "hashes t ! i = string_table_hash units" "entries t ! i \<noteq> 0"
  using assms by (auto simp: entries_ok_def)

lemma entries_distinct:
  assumes "entries_ok strings t" "i < length (entries t)" "j < length (entries t)" "strings (entries t ! i) = strings (entries t ! j)"
  shows "i = j"
proof -
  have "distinct (map strings (entries t))" using assms(1) by (simp add: entries_ok_def)
  then show ?thesis using assms(2-) by (simp add: distinct_conv_nth) blast
qed

lemma shared_entry:
  assumes "entries_ok strings t" "i < length (entries t)" "strings (entries t ! i) = Some units"
  shows "shared strings (Some t) units = Some (entries t ! i)"
proof -
  have "strings (entries t ! j) \<noteq> Some units" if "j < i" for j
    using that assms entries_distinct [OF assms(1), of j i] by auto
  then show ?thesis using assms by (auto simp: shared_def find_Some_iff intro!: exI [of _ i])
qed

lemma shared_None:
  "shared strings (Some t) units = None \<longleftrightarrow> (\<forall>i<length (entries t). strings (entries t ! i) \<noteq> Some units)"
  by (auto simp: shared_def find_None_iff in_set_conv_nth)

lemma shared_Some:
  assumes "shared strings (Some t) units = Some v"
  obtains i where "i < length (entries t)" "v = entries t ! i" "strings v = Some units"
  using assms by (auto simp: shared_def find_Some_iff)

lemma string_slot_stop:
  "(table_slots t ! s = 0 \<or> strings (entries t ! (unat (table_slots t ! s) - 1)) = Some units) \<longleftrightarrow>
   (table_slots t ! s = 0 \<or> string_occupant strings (entries t) (table_slots t ! s) = Some units)"
  by (auto simp: string_occupant_def)

text \<open>A search from the hash of its units finds a shared string, and answers zero for any other.\<close>

lemma string_table_find_correct:
  assumes "string_table_ok strings table"
  shows "string_table_find strings table (string_table_hash units) units =
    Some (case shared strings table units of None \<Rightarrow> 0 | Some v \<Rightarrow> v)"
proof (cases table)
  case None
  then show ?thesis by (simp add: string_table_find_def shared_def)
next
  case (Some t)
  have ok: "entries_ok strings t" using assms Some by (simp add: string_table_ok_def)
  show ?thesis
  proof (cases "table_slots t = []")
    case True
    then have "entries t = []" using assms Some by (simp add: string_table_ok_def)
    then show ?thesis using True Some by (simp add: string_table_find_def shared_def)
  next
    case False
    let ?c = "length (table_slots t)" and ?occ = "string_occupant strings (entries t)"
    let ?probe = "probe ?c ?c (\<lambda>s. table_slots t ! s = 0 \<or> ?occ (table_slots t ! s) = Some units) (string_home units ?c)"
    have so: "slots_ok strings t (length (entries t))" and half: "2 * length (entries t) \<le> ?c"
      using assms Some False by (simp_all add: string_table_ok_def)
    have ix: "indexed (\<lambda>p. p = 0) ?occ string_home (table_slots t)"
      and pos: "{p \<in> set (table_slots t). p \<noteq> 0} = of_nat ` {1..length (entries t)}"
      and used: "length (filter (\<lambda>p. p \<noteq> 0) (table_slots t)) = length (entries t)"
      using so by (simp_all add: slots_ok_def)
    obtain n where n: "?c = 2 ^ n" using ix by (auto simp: indexed_def)
    have find: "string_table_find strings table (string_table_hash units) units =
        (case ?probe of None \<Rightarrow> None | Some s \<Rightarrow> Some (if table_slots t ! s = 0 then 0 else entries t ! (unat (table_slots t ! s) - 1)))"
      using Some False by (simp add: string_table_find_def Let_def string_home_def flip: string_slot_stop)
    show ?thesis
    proof (cases "shared strings table units")
      case None
      then have none: "\<forall>i<length (entries t). strings (entries t ! i) \<noteq> Some units" using Some shared_None by simp
      have unused: "?occ (table_slots t ! j) \<noteq> Some units" if "j < ?c" for j
      proof
        assume o: "?occ (table_slots t ! j) = Some units"
        then have "table_slots t ! j \<in> {p \<in> set (table_slots t). p \<noteq> 0}" using that by (auto simp: string_occupant_def split: if_splits)
        then obtain q where q: "q \<in> {1..length (entries t)}" "table_slots t ! j = of_nat q" unfolding pos by blast
        then obtain i where "q = Suc i" "i < length (entries t)" by (cases q) auto
        then show False using q o none position_occupant [OF ok] by metis
      qed
      have "length (filter (\<lambda>p. p \<noteq> 0) (table_slots t)) < ?c" using used half False by (cases "table_slots t") auto
      then obtain v where "v < ?c" "table_slots t ! v = 0" using exists_vacant [of "\<lambda>p. p = 0" "table_slots t"] by auto
      then obtain j where "?probe = Some j"
        using probe_finds [OF n, of "string_home units ?c" v "\<lambda>s. table_slots t ! s = 0 \<or> ?occ (table_slots t ! s) = Some units"]
          string_slots.home_in_range [of units n] n by auto
      moreover have "table_slots t ! j = 0" using string_slots.find_miss [OF n unused calculation] .
      ultimately show ?thesis using find None by simp
    next
      case v: (Some v)
      obtain i where i: "i < length (entries t)" "v = entries t ! i" "strings v = Some units"
        using v Some by (auto elim: shared_Some)
      have "of_nat (Suc i) \<in> {p \<in> set (table_slots t). p \<noteq> 0}" unfolding pos using i(1) by (intro imageI) simp
      then obtain j where j: "j < ?c" "table_slots t ! j = of_nat (Suc i)" by (auto simp: in_set_conv_nth)
      then have "?occ (table_slots t ! j) = Some units" using position_occupant [OF ok i(1)] i by simp
      then have "?probe = Some j" using string_slots.find_hit [OF ix j(1)] by blast
      moreover have "unat (of_nat (Suc i) :: u32) = Suc i" using i(1) ok by (intro position_value) (simp add: entries_ok_def)
      ultimately show ?thesis using find v i j position_occupant [OF ok i(1)] by simp
    qed
  qed
qed

lemma string_table_index_ok:
  assumes ok: "entries_ok strings t" and so: "slots_ok strings t c" and c: "c < length (entries t)" "c < length (table_slots t)"
  shows "\<exists>ss. string_table_index t c = Some (t\<lparr>table_slots := ss\<rparr>) \<and> length ss = length (table_slots t) \<and> slots_ok strings (t\<lparr>table_slots := ss\<rparr>) (Suc c)"
proof -
  let ?c = "length (table_slots t)" and ?occ = "string_occupant strings (entries t)"
  have ix: "indexed (\<lambda>p. p = 0) ?occ string_home (table_slots t)"
    and pos: "{p \<in> set (table_slots t). p \<noteq> 0} = of_nat ` {1..c}"
    and used: "length (filter (\<lambda>p. p \<noteq> 0) (table_slots t)) = c"
    using so by (simp_all add: slots_ok_def)
  obtain n where n: "?c = 2 ^ n" using ix by (auto simp: indexed_def)
  obtain units where u: "strings (entries t ! c) = Some units" "hashes t ! c = string_table_hash units"
    using entry_units [OF ok c(1)] .
  have new: "?occ (of_nat (Suc c)) = Some units" "(of_nat (Suc c) :: u32) \<noteq> 0" using position_occupant [OF ok c(1)] u by simp_all
  have placed: "\<exists>i<c. table_slots t ! j = of_nat (Suc i)" if "j < ?c" "table_slots t ! j \<noteq> 0" for j
  proof -
    have "table_slots t ! j \<in> {p \<in> set (table_slots t). p \<noteq> 0}" using that by simp
    then obtain q where q: "q \<in> {1..c}" "table_slots t ! j = of_nat q" unfolding pos by blast
    then obtain i where "q = Suc i" by (cases q) auto
    with q show ?thesis by (intro exI [of _ i]) simp
  qed
  have free: "?occ (table_slots t ! j) = None \<longleftrightarrow> table_slots t ! j = 0" if "j < ?c" for j
  proof
    assume none: "?occ (table_slots t ! j) = None"
    show "table_slots t ! j = 0"
    proof (rule ccontr)
      assume "table_slots t ! j \<noteq> 0"
      with placed [OF that] obtain i where i: "i < c" "table_slots t ! j = of_nat (Suc i)" by blast
      moreover obtain us where "strings (entries t ! i) = Some us" using entry_units [OF ok] i(1) c(1) by (metis order.strict_trans)
      ultimately show False using none position_occupant [OF ok, of i] c(1) by simp
    qed
  qed (simp add: string_occupant_def)
  have unused: "?occ (table_slots t ! j) \<noteq> Some units" if "j < ?c" for j
  proof
    assume o: "?occ (table_slots t ! j) = Some units"
    with placed [OF that] obtain i where i: "i < c" "table_slots t ! j = of_nat (Suc i)" by (auto simp: string_occupant_def split: if_splits)
    then have "strings (entries t ! i) = Some units" using o position_occupant [OF ok, of i] c(1) by simp
    then have "i = c" using entries_distinct [OF ok, of i c] i(1) c(1) u(1) by simp
    with i(1) show False by simp
  qed
  have "length (filter (\<lambda>p. p \<noteq> 0) (table_slots t)) < ?c" using used c(2) by simp
  then obtain v where v: "v < ?c" "table_slots t ! v = 0" using exists_vacant [of "\<lambda>p. p = 0" "table_slots t"] by auto
  have home: "string_home units ?c < ?c" unfolding n by (rule string_slots.home_in_range)
  obtain j where j: "probe ?c ?c (\<lambda>s. table_slots t ! s = 0) (string_home units ?c) = Some j" "table_slots t ! j = 0" "j < ?c"
    using probe_finds [OF n home v(1), of "\<lambda>s. table_slots t ! s = 0"] v(2) by auto
  have j': "probe ?c ?c (\<lambda>s. ?occ (table_slots t ! s) = None) (string_home units ?c) = Some j"
    using probe_cong [OF n free home, where m = ?c] j(1) by simp
  let ?ss = "(table_slots t)[j := of_nat (Suc c)]"
  have "string_table_index t c = Some (t\<lparr>table_slots := ?ss\<rparr>)"
    using j(1) by (simp add: string_table_index_def Let_def u(2) string_home_def)
  moreover have "indexed (\<lambda>p. p = 0) ?occ string_home ?ss" by (rule string_slots.indexed_insert [OF ix unused j' new(1)])
  moreover have "length (filter (\<lambda>p. p \<noteq> 0) ?ss) = Suc c" using length_filter_update [of j "table_slots t" "\<lambda>p. p \<noteq> 0"] j new(2) used by simp
  moreover have "{p \<in> set ?ss. p \<noteq> 0} = of_nat ` {1..Suc c}"
  proof -
    have "{p \<in> set ?ss. p \<noteq> 0} = insert (of_nat (Suc c)) {p \<in> set (table_slots t). p \<noteq> 0}"
    proof (intro set_eqI iffI)
      fix p assume "p \<in> {p \<in> set ?ss. p \<noteq> 0}"
      then show "p \<in> insert (of_nat (Suc c)) {p \<in> set (table_slots t). p \<noteq> 0}" using set_update_subset_insert [of "table_slots t" j] by blast
    next
      fix p assume p: "p \<in> insert (of_nat (Suc c)) {p \<in> set (table_slots t). p \<noteq> 0}"
      show "p \<in> {p \<in> set ?ss. p \<noteq> 0}"
      proof (cases "p = of_nat (Suc c)")
        case True
        then show ?thesis using new(2) j(3) by (simp add: set_update_memI)
      next
        case False
        then obtain i where "i < ?c" "table_slots t ! i = p" "p \<noteq> 0" using p by (auto simp: in_set_conv_nth)
        moreover have "i \<noteq> j" using calculation j(2) by auto
        ultimately show ?thesis by (auto simp: in_set_conv_nth intro!: exI [of _ i])
      qed
    qed
    also have "\<dots> = insert (of_nat (Suc c)) (of_nat ` {1..c})" unfolding pos ..
    also have "\<dots> = of_nat ` {1..Suc c}" by (simp add: atLeastAtMostSuc_conv del: of_nat_Suc)
    finally show ?thesis .
  qed
  ultimately show ?thesis by (intro exI [of _ ?ss]) (simp add: slots_ok_def)
qed

lemma index_positions_ok:
  assumes "entries_ok strings t" "m \<le> length (entries t)" "m < length (table_slots t)"
  shows "slots_ok strings (t\<lparr>table_slots := ss\<rparr>) c \<Longrightarrow> length ss = length (table_slots t) \<Longrightarrow> c \<le> m \<Longrightarrow>
    \<exists>ss'. index_positions [c..<m] (t\<lparr>table_slots := ss\<rparr>) = Some (t\<lparr>table_slots := ss'\<rparr>) \<and> length ss' = length (table_slots t) \<and>
      slots_ok strings (t\<lparr>table_slots := ss'\<rparr>) m"
proof (induction "m - c" arbitrary: c ss)
  case 0
  then show ?case by auto
next
  case (Suc d)
  then have c: "c < m" by simp
  have "entries_ok strings (t\<lparr>table_slots := ss\<rparr>)" using assms(1) by (simp add: entries_ok_def)
  from string_table_index_ok [OF this Suc.prems(1)] obtain ss' where ss':
    "string_table_index (t\<lparr>table_slots := ss\<rparr>) c = Some (t\<lparr>table_slots := ss'\<rparr>)" "length ss' = length ss" "slots_ok strings (t\<lparr>table_slots := ss'\<rparr>) (Suc c)"
    using c assms(2,3) Suc.prems(2) by auto
  have "d = m - Suc c" using Suc.hyps(2) by simp
  from Suc.hyps(1) [OF this ss'(3)] ss'(1,2) Suc.prems(2) c show ?case by (simp add: upt_rec [of c m])
qed

lemma slots_ok_empty:
  assumes "length (table_slots t) = 2 ^ n"
  shows "slots_ok strings (t\<lparr>table_slots := replicate (length (table_slots t)) 0\<rparr>) 0"
proof -
  have "indexed (\<lambda>p. p = 0) (string_occupant strings (entries t)) string_home (replicate (length (table_slots t)) 0)"
    using assms by (intro string_slots.indexed_empty) auto
  then show ?thesis by (simp add: slots_ok_def)
qed

text \<open>A rebuilt index holds every entry.\<close>

lemma string_table_reindex_ok:
  assumes "entries_ok strings t" "length (table_slots t) = 2 ^ n" "length (entries t) < length (table_slots t)"
  shows "\<exists>ss. string_table_reindex t = Some (t\<lparr>table_slots := ss\<rparr>) \<and> length ss = length (table_slots t) \<and>
    slots_ok strings (t\<lparr>table_slots := ss\<rparr>) (length (entries t))"
  using index_positions_ok [OF assms(1) order.refl assms(3) slots_ok_empty [OF assms(2)]]
  by (auto simp: string_table_reindex_def)

text \<open>The index does not depend on entries past its count.\<close>

lemma slots_ok_extend:
  assumes "slots_ok strings t c" "c \<le> length (entries t)" "c < 2 ^ 32"
  shows "slots_ok strings (t\<lparr>entries := entries t @ es, hashes := hs\<rparr>) c"
proof -
  have same: "string_occupant strings (entries t @ es) p = string_occupant strings (entries t) p"
    if p: "p \<in> set (table_slots t)" for p
  proof (cases "p = 0")
    case False
    then have "p \<in> of_nat ` {1..c}" using p assms(1) by (auto simp: slots_ok_def)
    then obtain q where q: "q \<in> {1..c}" "p = of_nat q" by blast
    then have "unat p = q" using assms(3) position_value by simp
    with q assms(2) show ?thesis by (auto simp: string_occupant_def nth_append)
  qed (simp add: string_occupant_def)
  have "indexed (\<lambda>p. p = 0) (string_occupant strings (entries t @ es)) string_home (table_slots t) =
      indexed (\<lambda>p. p = 0) (string_occupant strings (entries t)) string_home (table_slots t)"
    by (rule indexed_cong) (rule same)
  with assms(1) show ?thesis by (simp add: slots_ok_def)
qed

lemma entries_ok_snoc:
  assumes "entries_ok strings t" "length (entries t) < 2 ^ 32 - 2" "value \<noteq> 0" "strings value = Some units"
    "shared strings (Some t) units = None"
  shows "entries_ok strings (t\<lparr>entries := entries t @ [value], hashes := hashes t @ [string_table_hash units]\<rparr>)"
proof -
  have "strings value \<notin> strings ` set (entries t)"
    using assms(4,5) unfolding shared_None by (auto simp: in_set_conv_nth)
  then show ?thesis using assms by (auto simp: entries_ok_def nth_append less_Suc_eq)
qed

definition shares :: "table_host \<Rightarrow> bool" where
  "shares host \<longleftrightarrow> grants_table host \<and> grants_entries host \<and> grants_hashes host \<and> grants_slots host"

lemma shared_snoc:
  assumes "entries_ok strings t" "strings value = Some units" "shared strings (Some t) units = None"
  shows "shared strings (Some (t\<lparr>entries := entries t @ [value], hashes := hs, table_slots := ss\<rparr>)) = (shared strings (Some t))(units \<mapsto> value)"
proof
  fix us
  have f: "List.find P (xs @ [x]) = (case List.find P xs of None \<Rightarrow> if P x then Some x else None | Some y \<Rightarrow> Some y)"
    for P and xs :: "oseo_value list" and x by (induction xs) auto
  have "List.find (\<lambda>v. strings v = Some units) (entries t) = None" using assms(3) by (simp add: shared_def)
  then show "shared strings (Some (t\<lparr>entries := entries t @ [value], hashes := hs, table_slots := ss\<rparr>)) us = ((shared strings (Some t))(units \<mapsto> value)) us"
    using assms(2) by (auto simp: shared_def f split: option.split)
qed

lemma ok_size:
  assumes "string_table_ok strings (Some t)"
  shows "length (entries t) < 2 ^ 32 - 1" "table_slots t \<noteq> [] \<Longrightarrow> \<exists>n. length (table_slots t) = 2 ^ n"
    "2 * length (entries t) \<le> length (table_slots t)"
  using assms by (auto simp: string_table_ok_def entries_ok_def slots_ok_def indexed_def split: if_splits)

lemma ok_capacity: "string_table_ok strings (Some (t\<lparr>entry_capacity := n\<rparr>)) = string_table_ok strings (Some t)"
  by (simp add: string_table_ok_def entries_ok_def slots_ok_def)

text \<open>Inserting a new string always returns and keeps the table well formed; it either shares the
  string or, when the host refuses memory, leaves it unshared.\<close>

lemma insert_entry:
  assumes "entries_ok strings t" "slots_ok strings t (length (entries t))" "2 * (length (entries t) + 1) \<le> length (table_slots t)"
    "length (entries t) < 2 ^ 32 - 2" "value \<noteq> 0" "strings value = Some units" "shared strings (Some t) units = None"
  shows "\<exists>t'. string_table_index (t\<lparr>entries := entries t @ [value], hashes := hashes t @ [string_table_hash units]\<rparr>)
      (length (entries t)) = Some t' \<and> string_table_ok strings (Some t') \<and>
    shared strings (Some t') = (shared strings (Some t))(units \<mapsto> value)"
proof -
  let ?t = "t\<lparr>entries := entries t @ [value], hashes := hashes t @ [string_table_hash units]\<rparr>"
  have e: "entries_ok strings ?t" by (rule entries_ok_snoc [OF assms(1,4,5,6,7)])
  have "slots_ok strings ?t (length (entries t))" using assms(4) by (intro slots_ok_extend [OF assms(2)]) simp_all
  from string_table_index_ok [OF e this] assms(3) obtain ss where ss:
    "string_table_index ?t (length (entries t)) = Some (?t\<lparr>table_slots := ss\<rparr>)" "length ss = length (table_slots t)"
    "slots_ok strings (?t\<lparr>table_slots := ss\<rparr>) (Suc (length (entries t)))" by auto
  moreover have "entries_ok strings (?t\<lparr>table_slots := ss\<rparr>)" using e by (simp add: entries_ok_def)
  moreover have "ss \<noteq> []" using ss(2) assms(3) by auto
  ultimately show ?thesis using assms(3) shared_snoc [OF assms(1,6,7)] by (simp add: string_table_ok_def)
qed

lemma string_table_insert_correct:
  assumes ok: "string_table_ok strings table" and new: "value \<noteq> 0" "strings value = Some units" "shared strings table units = None"
  shows "\<exists>table'. string_table_insert host table value (string_table_hash units) = Some table' \<and> string_table_ok strings table' \<and>
    (shared strings table' = shared strings table \<or> shared strings table' = (shared strings table)(units \<mapsto> value)) \<and>
    (shares host \<longrightarrow> (\<forall>t. table = Some t \<longrightarrow> length (entries t) < 2 ^ 32 - 2 \<and> length (entries t) \<le> entry_capacity t) \<longrightarrow>
      shared strings table' = (shared strings table)(units \<mapsto> value))"
proof (cases "table = None \<and> \<not> grants_table host")
  case True
  then show ?thesis using ok by (auto simp: string_table_insert_def shares_def)
next
  case False
  define t where "t = (case table of None \<Rightarrow> \<lparr>entries = [], hashes = [], entry_capacity = 0, table_slots = []\<rparr> | Some t \<Rightarrow> t)"
  have start: "(case table of None \<Rightarrow> if grants_table host then Some \<lparr>entries = [], hashes = [], entry_capacity = 0, table_slots = []\<rparr> else None
      | Some t \<Rightarrow> Some t) = Some t" using False by (auto simp: t_def split: option.split)
  have t: "string_table_ok strings (Some t)" using ok by (auto simp: t_def string_table_ok_def entries_ok_def split: option.split)
  have same: "shared strings (Some t) = shared strings table" by (auto simp: t_def shared_def fun_eq_iff split: option.split)
  have e: "entries_ok strings t" using t by (simp add: string_table_ok_def)
  define count where "count = length (entries t)"
  define grow where "grow = (count = entry_capacity t)"
  define capacity where "capacity = (if grow then (if entry_capacity t = 0 then 64 else entry_capacity t * 2) else entry_capacity t)"
  define rehash where "rehash = ((count + 1) * 2 > length (table_slots t))"
  define slot_capacity where "slot_capacity = (if table_slots t = [] then 128 else length (table_slots t) * 2)"
  let ?g = "t\<lparr>entry_capacity := capacity\<rparr>"
  let ?place = "\<lambda>t. map_option Some (string_table_index (t\<lparr>entries := entries t @ [value], hashes := hashes t @ [string_table_hash units]\<rparr>) count)"
  have insert: "string_table_insert host table value (string_table_hash units) =
      (if count = 2 ^ 32 - 2 then Some (Some t)
       else if grow \<and> (capacity > SIZE_MAX div 8 \<or> \<not> grants_entries host \<or> \<not> grants_hashes host) then Some (Some t)
       else if rehash \<and> (slot_capacity > SIZE_MAX div 4 \<or> \<not> grants_slots host) then Some (Some ?g)
       else case (if rehash then string_table_reindex (?g\<lparr>table_slots := replicate slot_capacity 0\<rparr>) else Some ?g) of
              None \<Rightarrow> None | Some t \<Rightarrow> ?place t)"
    unfolding string_table_insert_def start Let_def option.case count_def grow_def capacity_def rehash_def slot_capacity_def by (simp split del: if_split cong: if_cong option.case_cong)
  have g: "string_table_ok strings (Some ?g)" "shared strings (Some ?g) = shared strings table"
    using t same ok_capacity by (simp_all add: shared_def fun_eq_iff)
  have size: "count < 2 ^ 32 - 1" "2 * count \<le> length (table_slots t)" using ok_size [OF t] by (simp_all add: count_def)
  consider "count = 2 ^ 32 - 2"
    | "count \<noteq> 2 ^ 32 - 2" "grow \<and> (capacity > SIZE_MAX div 8 \<or> \<not> grants_entries host \<or> \<not> grants_hashes host)"
    | "count \<noteq> 2 ^ 32 - 2" "\<not> (grow \<and> (capacity > SIZE_MAX div 8 \<or> \<not> grants_entries host \<or> \<not> grants_hashes host))"
      "rehash \<and> (slot_capacity > SIZE_MAX div 4 \<or> \<not> grants_slots host)"
    | "count \<noteq> 2 ^ 32 - 2" "\<not> (grow \<and> (capacity > SIZE_MAX div 8 \<or> \<not> grants_entries host \<or> \<not> grants_hashes host))"
      "\<not> (rehash \<and> (slot_capacity > SIZE_MAX div 4 \<or> \<not> grants_slots host))" by blast
  then show ?thesis
  proof cases
    case 1
    have "\<not> (\<forall>t. table = Some t \<longrightarrow> length (entries t) < 2 ^ 32 - 2 \<and> length (entries t) \<le> entry_capacity t)"
      using 1 by (cases table) (auto simp: count_def t_def)
    then show ?thesis using 1 insert t same by auto
  next
    case 2
    have "capacity \<le> SIZE_MAX div 8" if "grow" using that size(1) by (auto simp: capacity_def grow_def SIZE_MAX_def)
    then show ?thesis using 2 insert t same by (auto simp: shares_def)
  next
    case 3
    have "length (table_slots t) < 2 ^ 33" if "rehash" using that size(1) unfolding rehash_def by simp
    then have "slot_capacity \<le> SIZE_MAX div 4" if "rehash" using that by (auto simp: slot_capacity_def SIZE_MAX_def)
    then show ?thesis using 3 insert g by (auto simp: shares_def)
  next
    case 4
    have count: "count < 2 ^ 32 - 2" using 4(1) size(1) by simp
    obtain u where u: "(if rehash then string_table_reindex (?g\<lparr>table_slots := replicate slot_capacity 0\<rparr>) else Some ?g) = Some u"
      "entries u = entries t" "hashes u = hashes t" "slots_ok strings u count" "2 * (count + 1) \<le> length (table_slots u)"
    proof (cases rehash)
      case True
      have cap: "slot_capacity > count + count + 1" using size(2) unfolding slot_capacity_def by (cases "table_slots t") (simp, simp, presburger)
      obtain n where "slot_capacity = 2 ^ n"
      proof (cases "table_slots t = []")
        case True
        then show ?thesis using that [of 7] by (simp add: slot_capacity_def)
      next
        case False
        then show ?thesis using ok_size(2) [OF t] that [of "Suc k" for k] by (auto simp: slot_capacity_def)
      qed
      moreover have "entries_ok strings (?g\<lparr>table_slots := replicate slot_capacity 0\<rparr>)" using e by (simp add: entries_ok_def)
      ultimately obtain ss where "string_table_reindex (?g\<lparr>table_slots := replicate slot_capacity 0\<rparr>) = Some (?g\<lparr>table_slots := ss\<rparr>)"
        "length ss = slot_capacity" "slots_ok strings (?g\<lparr>table_slots := ss\<rparr>) count"
        using string_table_reindex_ok [of strings "?g\<lparr>table_slots := replicate slot_capacity 0\<rparr>" n] cap by (auto simp: count_def)
      then show ?thesis using that True cap by simp
    next
      case False
      then have "table_slots t \<noteq> []" "2 * (count + 1) \<le> length (table_slots t)" by (auto simp: rehash_def)
      then show ?thesis using that [of ?g] False g(1) by (simp add: string_table_ok_def count_def)
    qed
    have "entries_ok strings u" "shared strings (Some u) = shared strings table"
      using u(2,3) e same by (simp_all add: entries_ok_def shared_def fun_eq_iff)
    from insert_entry [OF this(1), of "value" units] u this(2) new count obtain t' where
      "?place u = Some (Some t')" "string_table_ok strings (Some t')"
      "shared strings (Some t') = (shared strings table)(units \<mapsto> value)" by (auto simp: count_def)
    then show ?thesis using insert 4 u(1) by (auto simp: u(2,3))
  qed
qed

definition surviving :: "(oseo_value \<Rightarrow> bool) \<Rightarrow> string_table \<Rightarrow> nat list" where
  "surviving alive t = filter (\<lambda>p. alive (entries t ! p)) [0..<length (entries t)]"

lemma map_surviving: "map ((!) (entries t)) (surviving alive t) = filter alive (entries t)"
proof -
  have "filter alive (map ((!) (entries t)) [0..<length (entries t)]) = map ((!) (entries t)) (filter (alive \<circ> (!) (entries t)) [0..<length (entries t)])"
    by (rule filter_map)
  then show ?thesis by (simp add: map_nth surviving_def comp_def)
qed

lemma entries_ok_surviving:
  assumes "entries_ok strings t" and ss: "\<And>v. v \<in> set (entries t) \<Longrightarrow> alive v \<Longrightarrow> strings' v = strings v"
  shows "entries_ok strings' (t\<lparr>entries := map ((!) (entries t)) (surviving alive t), hashes := map ((!) (hashes t)) (surviving alive t)\<rparr>)"
proof -
  let ?k = "surviving alive t"
  have k: "p < length (entries t)" "alive (entries t ! p)" if "p \<in> set ?k" for p using that by (auto simp: surviving_def)
  have kept: "entries t ! p \<noteq> 0 \<and> (\<exists>units. strings' (entries t ! p) = Some units \<and> hashes t ! p = string_table_hash units)"
    if "p \<in> set ?k" for p
    using assms(1) k [OF that] ss [of "entries t ! p"] by (auto simp: entries_ok_def)
  have "distinct (map strings (filter alive (entries t)))" using assms(1) by (auto simp: entries_ok_def intro: distinct_map_filter)
  moreover have "map strings' (filter alive (entries t)) = map strings (filter alive (entries t))"
    using ss by (intro map_cong) auto
  ultimately have "distinct (map strings' (map ((!) (entries t)) ?k))" unfolding map_surviving by (simp only:)
  moreover have "length ?k \<le> length (entries t)" by (metis surviving_def length_filter_le length_upt minus_nat.diff_0)
  ultimately show ?thesis using assms(1) kept by (auto simp: entries_ok_def)
qed

lemma surviving_complete:
  assumes "length (surviving alive t) = length (entries t)" "v \<in> set (entries t)" shows "alive v"
proof -
  have "length (filter alive (entries t)) = length (entries t)" using assms(1) by (simp flip: map_surviving)
  with assms(2) show ?thesis by (metis length_filter_less less_irrefl)
qed

lemma shared_filter:
  assumes "entries_ok strings t" and ss: "\<And>v. v \<in> set (entries t) \<Longrightarrow> alive v \<Longrightarrow> strings' v = strings v"
  shows "List.find (\<lambda>v. strings' v = Some units) (filter alive (entries t)) =
    (case shared strings (Some t) units of None \<Rightarrow> None | Some v \<Rightarrow> if alive v then Some v else None)"
proof -
  have "List.find (\<lambda>v. strings' v = Some units) (filter alive es) =
      (case List.find (\<lambda>v. strings v = Some units) es of None \<Rightarrow> None | Some v \<Rightarrow> if alive v then Some v else None)"
    if "distinct (map strings es)" "\<And>v. v \<in> set es \<Longrightarrow> alive v \<Longrightarrow> strings' v = strings v" for es
    using that
  proof (induction es)
    case (Cons v es)
    show ?case
    proof (cases "strings v = Some units")
      case True
      have "List.find (\<lambda>v. strings' v = Some units) (filter alive es) = None"
        using Cons.prems True by (auto simp: find_None_iff) (metis image_eqI)
      then show ?thesis using True Cons.prems(2) by simp
    next
      case False
      then show ?thesis using Cons by simp
    qed
  qed simp
  then show ?thesis using assms by (simp add: shared_def entries_ok_def)
qed

text \<open>The sweep keeps exactly the shared strings that survive.\<close>

lemma string_table_sweep_correct:
  assumes ok: "string_table_ok strings table"
    and ss: "\<And>t v. table = Some t \<Longrightarrow> v \<in> set (entries t) \<Longrightarrow> alive v \<Longrightarrow> strings' v = strings v"
  shows "\<exists>table'. string_table_sweep alive table = Some table' \<and> string_table_ok strings' table' \<and>
    (\<forall>units. shared strings' table' units =
       (case shared strings table units of None \<Rightarrow> None | Some v \<Rightarrow> if alive v then Some v else None))"
proof (cases table)
  case None
  then show ?thesis by (simp add: string_table_sweep_def string_table_ok_def shared_def)
next
  case (Some t)
  note ss = ss [OF Some]
  let ?k = "surviving alive t"
  let ?t = "t\<lparr>entries := map ((!) (entries t)) ?k, hashes := map ((!) (hashes t)) ?k\<rparr>"
  have e: "entries_ok strings t" using ok Some by (simp add: string_table_ok_def)
  have e': "entries_ok strings' ?t" by (rule entries_ok_surviving [OF e ss])
  have find: "shared strings' (Some u) units = (case shared strings table units of None \<Rightarrow> None | Some v \<Rightarrow> if alive v then Some v else None)"
    if "entries u = filter alive (entries t)" for u units
    using shared_filter [OF e ss] that Some by (simp add: shared_def)
  have sweep: "string_table_sweep alive table = (if length ?k = length (entries t) then Some (Some t) else map_option Some (string_table_reindex ?t))"
    by (simp add: Some string_table_sweep_def Let_def surviving_def)
  show ?thesis
  proof (cases "length ?k = length (entries t)")
    case True
    then have all: "alive v" if "v \<in> set (entries t)" for v using surviving_complete that by blast
    then have id: "filter alive (entries t) = entries t" by simp
    have same: "strings' v = strings v" if "v \<in> set (entries t)" for v using ss all that by blast
    have occ: "string_occupant strings' (entries t) p = string_occupant strings (entries t) p"
      if so: "slots_ok strings t (length (entries t))" and p: "p \<in> set (table_slots t)" for p
    proof (cases "p = 0")
      case False
      then obtain q where "q \<in> {1..length (entries t)}" "p = of_nat q" using so p unfolding slots_ok_def by blast
      moreover have "length (entries t) < 2 ^ 32" using ok_size(1) [of strings t] ok Some by simp
      ultimately show ?thesis using position_value [of q] same by (auto simp: string_occupant_def)
    qed (simp add: string_occupant_def)
    have "entries_ok strings' t" using e same unfolding entries_ok_def by (simp cong: map_cong)
    moreover have "slots_ok strings' t (length (entries t))" if s: "slots_ok strings t (length (entries t))"
    proof -
      have "indexed (\<lambda>p. p = 0) (string_occupant strings' (entries t)) string_home (table_slots t) =
          indexed (\<lambda>p. p = 0) (string_occupant strings (entries t)) string_home (table_slots t)"
        by (rule indexed_cong) (rule occ [OF s])
      with s show ?thesis by (simp add: slots_ok_def)
    qed
    ultimately have "string_table_ok strings' table" using ok Some by (auto simp: string_table_ok_def)
    then show ?thesis using sweep True find [of t] id Some by auto
  next
    case False
    then have "entries t \<noteq> []" by (auto simp: surviving_def)
    then have ne: "table_slots t \<noteq> []" using ok Some by (auto simp: string_table_ok_def)
    then obtain n where n: "length (table_slots t) = 2 ^ n" using ok_size(2) [of strings t] ok Some by blast
    have half: "2 * length (entries t) \<le> length (table_slots t)" using ok_size(3) ok Some by blast
    have le: "length ?k \<le> length (entries t)" by (metis surviving_def length_filter_le length_upt minus_nat.diff_0)
    obtain ss where ss': "string_table_reindex ?t = Some (?t\<lparr>table_slots := ss\<rparr>)" "length ss = length (table_slots t)" "slots_ok strings' (?t\<lparr>table_slots := ss\<rparr>) (length ?k)"
      using string_table_reindex_ok [OF e', of n] n half le ne by (cases "table_slots t") auto
    have "entries_ok strings' (?t\<lparr>table_slots := ss\<rparr>)" using e' by (simp add: entries_ok_def)
    then have "string_table_ok strings' (Some (?t\<lparr>table_slots := ss\<rparr>))" using ss' half le ne by (auto simp: string_table_ok_def)
    then show ?thesis using sweep False ss'(1) find [of "?t\<lparr>table_slots := ss\<rparr>"] by (simp add: map_surviving)
  qed
qed

end
