(* ===== verification/Weak_Edges.thy ===== *)
theory Weak_Edges
  imports Ephemeron_Table
begin

text \<open>
  \<open>clear_dead_weak_edges\<close> of \<open>runtime_memory.c\<close>: after marking, one pass over the objects of the
  context resets the targets of weak references and the tokens of finalization cells that are
  dead, and unlinks the entries of ephemeron tables whose keys are dead.
\<close>

definition dead_reference :: "store \<Rightarrow> oseo_value \<Rightarrow> oseo_value" where
  "dead_reference st v = (if is_heap v \<and> \<not> value_is_marked st v then oseo_undefined else v)"

text \<open>The pass over the objects; \<open>n\<close> bounds the walk over one table.\<close>

fun clear_dead_weak_edges :: "nat \<Rightarrow> u64 list \<Rightarrow> store \<Rightarrow> store option" where
  "clear_dead_weak_edges n [] st = Some st"
| "clear_dead_weak_edges n (a # as) st =
     (case st a of
        None \<Rightarrow> None
      | Some ob \<Rightarrow>
          if \<not> marked ob then clear_dead_weak_edges n as st
          else case body ob of
            HEAP_WEAK_REFERENCE weak_target \<Rightarrow>
              clear_dead_weak_edges n as (st(a \<mapsto> ob\<lparr>body := HEAP_WEAK_REFERENCE (dead_reference st weak_target)\<rparr>))
          | HEAP_EPHEMERON_TABLE table \<Rightarrow>
              (case clear_dead_entries n a 0 st of None \<Rightarrow> None | Some st \<Rightarrow> clear_dead_weak_edges n as st)
          | HEAP_FINALIZATION_CELL cell \<Rightarrow>
              clear_dead_weak_edges n as
                (st(a \<mapsto> ob\<lparr>body := HEAP_FINALIZATION_CELL (cell\<lparr>cell_token := dead_reference st (cell_token cell)\<rparr>)\<rparr>))
          | _ \<Rightarrow> clear_dead_weak_edges n as st)"

subsection \<open>The tables of a store\<close>

definition is_table :: "store \<Rightarrow> u64 \<Rightarrow> bool" where
  "is_table st a \<longleftrightarrow> table_of st a \<noteq> None"

definition is_entry :: "store \<Rightarrow> u64 \<Rightarrow> bool" where
  "is_entry st a \<longleftrightarrow> entry_of st a \<noteq> None"

text \<open>\<open>E\<close> gives the entries of every table, and no table shares an entry. Weak referents (the keys,
  the targets of weak references and the tokens of cells) are values a program holds, never entries.\<close>

definition weak_ok :: "store \<Rightarrow> (u64 \<Rightarrow> u64 list) \<Rightarrow> bool" where
  "weak_ok st E \<longleftrightarrow>
     (\<forall>a. is_table st a \<longrightarrow> table_ok st a (E a)) \<and>
     (\<forall>a b. is_table st a \<longrightarrow> is_table st b \<longrightarrow> a \<noteq> b \<longrightarrow> set (E a) \<inter> set (E b) = {}) \<and>
     (\<forall>a e v. is_table st a \<longrightarrow> e \<in> set (E a) \<longrightarrow> keys (entry_of st) e = Some v \<longrightarrow> \<not> is_entry st (heap_address v)) \<and>
     (\<forall>a v. bodies st a = Some (HEAP_WEAK_REFERENCE v) \<longrightarrow> is_heap v \<longrightarrow> \<not> is_entry st (heap_address v)) \<and>
     (\<forall>a c. bodies st a = Some (HEAP_FINALIZATION_CELL c) \<longrightarrow> is_heap (cell_token c) \<longrightarrow> \<not> is_entry st (heap_address (cell_token c)))"

definition kept :: "store \<Rightarrow> u64 list \<Rightarrow> u64 list" where
  "kept st es = filter (\<lambda>e. value_is_marked st (the (keys (entry_of st) e))) es"

fun weaken :: "store \<Rightarrow> heap_body \<Rightarrow> heap_body" where
  "weaken st (HEAP_WEAK_REFERENCE v) = HEAP_WEAK_REFERENCE (dead_reference st v)"
| "weaken st (HEAP_FINALIZATION_CELL c) = HEAP_FINALIZATION_CELL (c\<lparr>cell_token := dead_reference st (cell_token c)\<rparr>)"
| "weaken st b = b"

definition dropped :: "store \<Rightarrow> (u64 \<Rightarrow> u64 list) \<Rightarrow> (u64 \<Rightarrow> u64 list) \<Rightarrow> u64 set" where
  "dropped st E E' = {e. \<exists>a. is_table st a \<and> e \<in> set (E a) \<and> e \<notin> set (E' a)}"

text \<open>What the pass over the objects \<open>as\<close> has done.\<close>

definition weakened :: "u64 list \<Rightarrow> store \<Rightarrow> (u64 \<Rightarrow> u64 list) \<Rightarrow> store \<Rightarrow> (u64 \<Rightarrow> u64 list) \<Rightarrow> bool" where
  "weakened as st E st' E' \<longleftrightarrow>
     E' = (\<lambda>a. if a \<in> set as \<and> is_table st a \<and> is_marked st a then kept st (E a) else E a) \<and>
     (\<forall>a. is_table st a \<longrightarrow> table_ok st' a (E' a) \<and> content st' (E' a) = content st (E' a)) \<and>
     is_marked st' = (\<lambda>b. is_marked st b \<and> b \<notin> dropped st E E') \<and>
     (\<forall>b ob. st b = Some ob \<longrightarrow> \<not> is_table st b \<longrightarrow> \<not> is_entry st b \<longrightarrow>
        st' b = Some (if b \<in> set as \<and> marked ob then ob\<lparr>body := weaken st (body ob)\<rparr> else ob)) \<and>
     is_table st' = is_table st \<and> is_entry st' = is_entry st \<and> dom st' = dom st"

subsection \<open>The pass keeps the weak structures well formed\<close>

lemma table_entries:
  assumes "table_ok st a E" "e \<in> set E"
  shows "is_entry st e" "\<exists>k. keys (entry_of st) e = Some k \<and> is_heap k" "e \<noteq> 0" "e \<le> PAYLOAD_MASK"
  using assms core_entry by (fastforce simp: table_ok_def is_entry_def table_core_def)+

lemma table_not_entry: "is_table st a \<Longrightarrow> \<not> is_entry st a"
  by (auto simp: is_table_def is_entry_def table_of_def entry_of_def split: option.splits heap_body.splits)

lemma not_table_entry:
  "bodies st a = Some b \<Longrightarrow> is_table st a \<longleftrightarrow> (\<exists>t. b = HEAP_EPHEMERON_TABLE t)"
  "bodies st a = Some b \<Longrightarrow> is_entry st a \<longleftrightarrow> (\<exists>e. b = HEAP_EPHEMERON_ENTRY e)"
  by (auto simp: is_table_def is_entry_def table_of_def entry_of_def bodies_def split: option.splits heap_body.splits)

lemma content_keys:
  assumes "content st' E = content st E" "e \<in> set E" "is_entry st e" "is_entry st' e"
  shows "keys (entry_of st') e = keys (entry_of st) e"
proof -
  have "the (bindings (entry_of st') e) = the (bindings (entry_of st) e)"
    using assms(1,2) by (auto simp: content_def)
  then show ?thesis using assms(3,4) by (auto simp: bindings_def keys_def is_entry_def)
qed

lemma kept_subset: "set (kept st E) \<subseteq> set E"
  by (auto simp: kept_def)

lemma weakened_subset: "weakened as st E st' E' \<Longrightarrow> set (E' a) \<subseteq> set (E a)"
  using kept_subset by (auto simp: weakened_def)

lemma dropped_entries:
  assumes "weak_ok st E" "b \<in> dropped st E E'" shows "is_entry st b"
  using assms table_entries by (auto simp: dropped_def weak_ok_def)

lemma weakened_views:
  assumes "weakened as st E st' E'"
  shows "is_table st' = is_table st" "is_entry st' = is_entry st" "dom st' = dom st"
    and "is_table st a \<Longrightarrow> table_ok st' a (E' a)" "is_table st a \<Longrightarrow> content st' (E' a) = content st (E' a)"
  using assms unfolding weakened_def by blast+

lemma weakened_mark:
  assumes "weak_ok st E" "weakened as st E st' E'" "\<not> is_entry st b"
  shows "is_marked st' b = is_marked st b"
proof -
  have "is_marked st' b = (is_marked st b \<and> b \<notin> dropped st E E')" using assms(2) unfolding weakened_def by metis
  then show ?thesis using dropped_entries [OF assms(1), of b E'] assms(3) by blast
qed

lemma weakened_value_marked:
  assumes "weak_ok st E" "weakened as st E st' E'" "is_heap v \<Longrightarrow> \<not> is_entry st (heap_address v)"
  shows "value_is_marked st' v = value_is_marked st v" "dead_reference st' v = dead_reference st v"
  using weakened_mark [OF assms(1,2)] assms(3) by (auto simp: value_is_marked_def dead_reference_def)

lemma weak_ok_key:
  assumes "weak_ok st E" "is_table st a" "e \<in> set (E a)"
  obtains k where "keys (entry_of st) e = Some k" "is_heap k" "\<not> is_entry st (heap_address k)"
proof -
  have "table_ok st a (E a)" using assms by (simp add: weak_ok_def)
  then obtain k where "keys (entry_of st) e = Some k" "is_heap k" using table_entries(2) assms(3) by blast
  then show thesis using that assms unfolding weak_ok_def by blast
qed

lemma weakened_keys:
  assumes w: "weak_ok st E" and wk: "weakened as st E st' E'" and a: "is_table st a" and e: "e \<in> set (E' a)"
  shows "keys (entry_of st') e = keys (entry_of st) e"
proof -
  have "e \<in> set (E a)" using weakened_subset [OF wk] e by blast
  moreover have "table_ok st a (E a)" using w a by (simp add: weak_ok_def)
  ultimately have "is_entry st e" using table_entries(1) by blast
  moreover have "is_entry st' e" using calculation weakened_views(2) [OF wk] by simp
  moreover have "content st' (E' a) = content st (E' a)" by (rule weakened_views(5) [OF wk a])
  ultimately show ?thesis using content_keys e by blast
qed

lemma weakened_body:
  assumes wk: "weakened as st E st' E'" and b: "bodies st' a = Some b" "\<not> is_table st a" "\<not> is_entry st a"
  obtains b0 where "bodies st a = Some b0" "b = b0 \<or> b = weaken st b0"
proof -
  have "a \<in> dom st" using wk b(1) unfolding weakened_def by (metis domI dom_bodies)
  then obtain ob where ob: "st a = Some ob" by blast
  then have "st' a = Some (if a \<in> set as \<and> marked ob then ob\<lparr>body := weaken st (body ob)\<rparr> else ob)"
    using wk b(2,3) unfolding weakened_def by blast
  then show thesis using that ob b(1) by (auto simp: bodies_def split: if_splits)
qed

lemma weakened_ok:
  assumes w: "weak_ok st E" and wk: "weakened as st E st' E'"
  shows "weak_ok st' E'"
proof -
  note tables = weakened_views(1,2) [OF wk]
  show ?thesis unfolding weak_ok_def tables
  proof (intro conjI allI impI)
    show "table_ok st' a (E' a)" if "is_table st a" for a by (rule weakened_views(4) [OF wk that])
    show "set (E' a) \<inter> set (E' b) = {}" if "is_table st a" "is_table st b" "a \<noteq> b" for a b
    proof -
      have "set (E a) \<inter> set (E b) = {}" using w that unfolding weak_ok_def by blast
      then show ?thesis using weakened_subset [OF wk] by blast
    qed
    show "\<not> is_entry st (heap_address v)" if "is_table st a" "e \<in> set (E' a)" "keys (entry_of st') e = Some v" for a e v
    proof -
      have "e \<in> set (E a)" using that(2) weakened_subset [OF wk] by blast
      then show ?thesis using that weakened_keys [OF w wk that(1,2)] w unfolding weak_ok_def by metis
    qed
  next
    fix a v assume v: "bodies st' a = Some (HEAP_WEAK_REFERENCE v)" "is_heap v"
    then have "\<not> is_table st a" "\<not> is_entry st a" using not_table_entry [OF v(1)] by (simp_all add: tables)
    then obtain b0 where b0: "bodies st a = Some b0" "HEAP_WEAK_REFERENCE v = b0 \<or> HEAP_WEAK_REFERENCE v = weaken st b0"
      using weakened_body [OF wk v(1)] by blast
    then have "b0 = HEAP_WEAK_REFERENCE v" using v(2) by (cases b0) (auto simp: dead_reference_def split: if_splits)
    then show "\<not> is_entry st (heap_address v)" using b0(1) v(2) w unfolding weak_ok_def by blast
  next
    fix a c assume v: "bodies st' a = Some (HEAP_FINALIZATION_CELL c)" "is_heap (cell_token c)"
    then have "\<not> is_table st a" "\<not> is_entry st a" using not_table_entry [OF v(1)] by (simp_all add: tables)
    then obtain b0 where b0: "bodies st a = Some b0" "HEAP_FINALIZATION_CELL c = b0 \<or> HEAP_FINALIZATION_CELL c = weaken st b0"
      using weakened_body [OF wk v(1)] by blast
    then obtain c0 where "b0 = HEAP_FINALIZATION_CELL c0" "cell_token c0 = cell_token c"
      using v(2) by (cases b0) (auto simp: dead_reference_def split: if_splits)
    then show "\<not> is_entry st (heap_address (cell_token c))" using b0(1) v(2) w unfolding weak_ok_def by metis
  qed
qed

lemma weaken_idem_views:
  assumes w: "weak_ok st E" and wk: "weakened as st E st' E'" and b: "bodies st a = Some b"
  shows "weaken st' b = weaken st b"
proof (cases b)
  case (HEAP_WEAK_REFERENCE v)
  then have "is_heap v \<Longrightarrow> \<not> is_entry st (heap_address v)" using w b unfolding weak_ok_def by blast
  then show ?thesis using weakened_value_marked [OF w wk] HEAP_WEAK_REFERENCE by simp
next
  case (HEAP_FINALIZATION_CELL c)
  then have "is_heap (cell_token c) \<Longrightarrow> \<not> is_entry st (heap_address (cell_token c))" using w b unfolding weak_ok_def by blast
  then show ?thesis using weakened_value_marked [OF w wk] HEAP_FINALIZATION_CELL by simp
qed simp_all

lemma kept_same:
  assumes w: "weak_ok st E" and wk: "weakened as st E st' E'" and a: "is_table st a" and s: "set es \<subseteq> set (E' a)"
  shows "kept st' es = kept st es"
  unfolding kept_def
proof (rule filter_cong [OF refl])
  fix e assume e: "e \<in> set es"
  then have e': "e \<in> set (E' a)" using s by blast
  then have "e \<in> set (E a)" using weakened_subset [OF wk] by blast
  with w a obtain k where k: "keys (entry_of st) e = Some k" "\<not> is_entry st (heap_address k)" by (auto elim: weak_ok_key)
  then show "value_is_marked st' (the (keys (entry_of st') e)) = value_is_marked st (the (keys (entry_of st) e))"
    using weakened_keys [OF w wk a e'] weakened_value_marked [OF w wk, of k] by simp
qed

lemma is_marked_table: "st a = Some ob \<Longrightarrow> is_marked st a = marked ob"
  by (simp add: is_marked_def)

lemma weakened_trans:
  assumes w: "weak_ok st E" and one: "weakened [a] st E st1 E1" and rest: "weakened as st1 E1 st' E'" and a: "a \<notin> set as"
  shows "weakened (a # as) st E st' E'"
proof -
  note v1 = weakened_views [OF one] and v2 = weakened_views [OF rest]
  note w1 = weakened_ok [OF w one]
  have E1: "E1 b = (if b = a \<and> is_table st b \<and> is_marked st b then kept st (E b) else E b)" for b
    using one unfolding weakened_def by simp
  have mk1: "is_marked st1 b = is_marked st b" if "is_table st b" for b
    using weakened_mark [OF w one] table_not_entry that by blast
  have E': "E' b = (if b \<in> set as \<and> is_table st b \<and> is_marked st b then kept st1 (E1 b) else E1 b)" for b
  proof -
    have "E' b = (if b \<in> set as \<and> is_table st1 b \<and> is_marked st1 b then kept st1 (E1 b) else E1 b)"
      using rest unfolding weakened_def by (elim conjE) (rule fun_cong)
    then show ?thesis using mk1 by (auto simp: v1(1))
  qed
  have E: "E' b = (if b \<in> set (a # as) \<and> is_table st b \<and> is_marked st b then kept st (E b) else E b)" for b
    using a kept_same [OF w one, of b "E1 b"] by (auto simp: E' E1)
  have sub1: "set (E1 b) \<subseteq> set (E b)" and sub2: "set (E' b) \<subseteq> set (E1 b)" for b
    using weakened_subset [OF one] weakened_subset [OF rest] by blast+
  have drop: "dropped st E E' = dropped st E E1 \<union> dropped st1 E1 E'"
    using sub1 sub2 unfolding dropped_def v1(1) by blast
  show ?thesis unfolding weakened_def
  proof (intro conjI allI impI)
    show "E' = (\<lambda>b. if b \<in> set (a # as) \<and> is_table st b \<and> is_marked st b then kept st (E b) else E b)"
      by (rule ext) (rule E)
    show "table_ok st' b (E' b)" if "is_table st b" for b using v2(4) that by (simp add: v1(1))
    show "content st' (E' b) = content st (E' b)" if b: "is_table st b" for b
    proof -
      have c2: "content st' (E' b) = content st1 (E' b)" using v2(5) b by (simp add: v1(1))
      have "content st1 (E1 b) = content st (E1 b)" by (rule v1(5) [OF b])
      then have "\<forall>e \<in> set (E1 b). the (bindings (entry_of st1) e) = the (bindings (entry_of st) e)" by (auto simp: content_def)
      then have "content st1 (E' b) = content st (E' b)" using sub2 [of b] unfolding content_def by (intro map_cong [OF refl]) blast
      with c2 show ?thesis by simp
    qed
    show "is_marked st' = (\<lambda>b. is_marked st b \<and> b \<notin> dropped st E E')"
    proof
      fix b
      have "is_marked st' b = (is_marked st1 b \<and> b \<notin> dropped st1 E1 E')" using rest unfolding weakened_def by metis
      moreover have "is_marked st1 b = (is_marked st b \<and> b \<notin> dropped st E E1)" using one unfolding weakened_def by metis
      ultimately show "is_marked st' b = (is_marked st b \<and> b \<notin> dropped st E E')" unfolding drop by blast
    qed
    show "st' b = Some (if b \<in> set (a # as) \<and> marked ob then ob\<lparr>body := weaken st (body ob)\<rparr> else ob)"
      if ob: "st b = Some ob" and b: "\<not> is_table st b" "\<not> is_entry st b" for b ob
    proof -
      have s1: "st1 b = Some (if b \<in> set [a] \<and> marked ob then ob\<lparr>body := weaken st (body ob)\<rparr> else ob)"
        using one ob b unfolding weakened_def by blast
      have s2: "st' b = Some (if b \<in> set as \<and> marked ob1 then ob1\<lparr>body := weaken st1 (body ob1)\<rparr> else ob1)" if "st1 b = Some ob1" for ob1
        using rest that b unfolding weakened_def v1 by blast
      have "weaken st1 (body ob) = weaken st (body ob)" using weaken_idem_views [OF w one, of b "body ob"] ob by (simp add: bodies_def)
      then show ?thesis using s2 [OF s1] a by auto
    qed
    show "is_table st' = is_table st" "is_entry st' = is_entry st" "dom st' = dom st"
      using v1 v2 by simp_all
  qed
qed

lemma weakened_none: "weak_ok st E \<Longrightarrow> weakened [] st E st E"
  by (auto simp: weakened_def weak_ok_def dropped_def)

lemma table_ok_views:
  "table_of st' = table_of st \<Longrightarrow> entry_of st' = entry_of st \<Longrightarrow> table_ok st' a E = table_ok st a E"
  "entry_of st' = entry_of st \<Longrightarrow> content st' E = content st E"
  by (simp_all add: table_ok_def content_def)

text \<open>The step at an object that is neither a table nor an entry.\<close>

lemma weakened_object:
  assumes w: "weak_ok st E" and ob: "st a = Some ob" and a: "\<not> is_table st a" "\<not> is_entry st a"
    and b: "b = (if marked ob then weaken st (body ob) else body ob)"
  shows "weakened [a] st E (st(a \<mapsto> ob\<lparr>body := b\<rparr>)) E"
proof -
  let ?st = "st(a \<mapsto> ob\<lparr>body := b\<rparr>)"
  have kind: "\<And>t. body ob \<noteq> HEAP_EPHEMERON_TABLE t" "\<And>e. body ob \<noteq> HEAP_EPHEMERON_ENTRY e"
    using a ob not_table_entry [of st a "body ob"] by (simp_all add: bodies_def)
  then have b': "\<And>t. b \<noteq> HEAP_EPHEMERON_TABLE t" "\<And>e. b \<noteq> HEAP_EPHEMERON_ENTRY e"
    using b by (cases "body ob"; simp)+
  have t: "table_of ?st = table_of st" "entry_of ?st = entry_of st"
    using ob kind b' by (auto simp: fun_eq_iff table_of_def entry_of_def split: heap_body.splits)
  then have kinds: "is_table ?st = is_table st" "is_entry ?st = is_entry st" by (simp_all add: fun_eq_iff is_table_def is_entry_def)
  have m: "is_marked ?st = is_marked st" using ob by (intro ext) (simp add: is_marked_def)
  have d: "dropped st E E = {}" by (simp add: dropped_def)
  show ?thesis unfolding weakened_def d
  proof (intro conjI allI impI)
    show "E = (\<lambda>b. if b \<in> set [a] \<and> is_table st b \<and> is_marked st b then kept st (E b) else E b)" using a(1) by auto
    show "table_ok ?st b (E b)" if "is_table st b" for b
      using w that by (simp add: table_ok_views(1) [OF t] weak_ok_def)
    show "content ?st (E b) = content st (E b)" for b by (rule table_ok_views(2) [OF t(2)])
    show "dom ?st = dom st" using ob by auto
    show "?st b' = Some (if b' \<in> set [a] \<and> marked ob' then ob'\<lparr>body := weaken st (body ob')\<rparr> else ob')" if "st b' = Some ob'" for b' ob'
      using that ob b by (cases "b' = a") auto
  qed (simp_all add: m kinds)
qed

lemma weakened_idle:
  assumes w: "weak_ok st E" and ob: "st a = Some ob" and b: "marked ob \<Longrightarrow> weaken st (body ob) = body ob"
    and t: "\<not> (marked ob \<and> is_table st a)"
  shows "weakened [a] st E st E"
proof (cases "is_table st a \<or> is_entry st a")
  case True
  have "E = (\<lambda>b. if b \<in> set [a] \<and> is_table st b \<and> is_marked st b then kept st (E b) else E b)"
    using t ob is_marked_table [of st a ob] by (auto simp: fun_eq_iff)
  with True w show ?thesis unfolding weakened_def weak_ok_def by (auto simp: dropped_def)
next
  case False
  have "st(a \<mapsto> ob\<lparr>body := body ob\<rparr>) = st" using ob by auto
  with weakened_object [OF w ob, of "body ob"] b False show ?thesis by simp
qed

lemma table_core_cong:
  assumes same: "\<And>e. e \<in> set E \<Longrightarrow> ent' e = ent e" and core: "table_core ent t E"
  shows "table_core ent' t E"
proof -
  note c = core [unfolded table_core_def]
  have f: "forward (nexts ent') (table_head t) E = forward (nexts ent) (table_head t) E"
    using same by (intro forward_cong) (simp add: nexts_def)
  have b: "backward (prevs ent') None E = backward (prevs ent) None E"
    using same by (intro backward_cong) (simp add: prevs_def)
  have k: "keys ent' e = keys ent e" if "e \<in> set E" for e using same that by (simp add: keys_def)
  then have k': "map (keys ent') E = map (keys ent) E" by simp
  have i: "index_ok ent t E" using c by blast
  have occ: "occupant ent' s = occupant ent s" if "s \<in> set (table_index t)" for s
  proof (cases "s = 0 \<or> s = TOMBSTONE")
    case False
    then have "s \<in> heap_value ` set E" using i that unfolding index_ok_def by blast
    then obtain e where e: "e \<in> set E" "s = heap_value e" by blast
    then have "e \<le> PAYLOAD_MASK" using c by blast
    with e show ?thesis using occupant_value k by simp
  qed (auto simp: occupant_def)
  have "indexed (\<lambda>slot. slot = 0) (occupant ent') ephemeron_index_start (table_index t) =
      indexed (\<lambda>slot. slot = 0) (occupant ent) ephemeron_index_start (table_index t)"
    by (rule indexed_cong) (rule occ)
  then have "index_ok ent' t E" using i by (simp add: index_ok_def)
  then show ?thesis using c k unfolding table_core_def f b k' by (metis (no_types, lifting))
qed

lemma table_ok_cong:
  assumes "table_of st' a = table_of st a" "\<And>e. e \<in> set E \<Longrightarrow> entry_of st' e = entry_of st e" "table_ok st a E"
  shows "table_ok st' a E"
  using assms table_core_cong [of E "entry_of st'" "entry_of st"] by (auto simp: table_ok_def)

text \<open>The step at a marked table.\<close>

lemma weakened_table:
  assumes w: "weak_ok st E" and a: "is_table st a" "is_marked st a" and n: "length (E a) < n"
  shows "\<exists>st1. clear_dead_entries n a 0 st = Some st1 \<and> weakened [a] st E st1 (E(a := kept st (E a)))"
proof -
  obtain t where t: "table_of st a = Some t" using a by (auto simp: is_table_def)
  have ok: "table_ok st a (E a)" using w a(1) by (simp add: weak_ok_def)
  then have core: "table_core (entry_of st) t ([] @ E a)" using t by (simp add: table_ok_def)
  have apart: "\<forall>e \<in> set ([] @ E a). \<forall>v. keys (entry_of st) e = Some v \<longrightarrow> heap_address v \<notin> set ([] @ E a)"
    using w a(1) table_entries(1) [OF ok] unfolding weak_ok_def append_Nil by blast
  obtain st1 where st1: "clear_dead_entries n a 0 st = Some st1" "cleared a (E a) (kept st (E a)) st st1"
    using clear_dead_entries_correct [OF t core _ n apart] by (auto simp: kept_def)
  note c = st1(2) [unfolded cleared_def]
  let ?E = "E(a := kept st (E a))"
  have drop: "dropped st E ?E = set (E a) - set (kept st (E a))" using a(1) by (auto simp: dropped_def)
  have disj: "b \<noteq> a \<Longrightarrow> is_table st b \<Longrightarrow> set (E a) \<inter> set (E b) = {}" for b using w a(1) unfolding weak_ok_def by blast
  have same: "st1 e = st e" if "b \<noteq> a" "is_table st b" "e \<in> set (E b)" for b e
  proof -
    have "table_ok st b (E b)" using w that by (simp add: weak_ok_def)
    then have "is_entry st e" using table_entries(1) that by blast
    then have "e \<noteq> a" using table_not_entry a(1) by blast
    moreover have "e \<notin> set (E a)" using disj that by blast
    ultimately show ?thesis using c by blast
  qed
  have doms: "is_table st1 = is_table st" "is_entry st1 = is_entry st"
  proof -
    show "is_table st1 = is_table st"
    proof
      fix b show "is_table st1 b = is_table st b"
        using c a(1) by (cases "b = a") (auto simp: is_table_def table_ok_def)
    qed
    show "is_entry st1 = is_entry st"
    proof
      fix b have "b \<in> dom (entry_of st1) \<longleftrightarrow> b \<in> dom (entry_of st)" using c by metis
      then show "is_entry st1 b = is_entry st b" by (simp add: is_entry_def domIff)
    qed
  qed
  have "weakened [a] st E st1 ?E" unfolding weakened_def
  proof (intro conjI allI impI)
    show "?E = (\<lambda>b. if b \<in> set [a] \<and> is_table st b \<and> is_marked st b then kept st (E b) else E b)" using a by auto
  next
    fix b assume b: "is_table st b"
    show "table_ok st1 b (?E b)"
    proof (cases "b = a")
      case True
      then show ?thesis using c by simp
    next
      case False
      have okb: "table_ok st b (E b)" using w b by (simp add: weak_ok_def)
      have "entry_of st1 e = entry_of st e" if "e \<in> set (E b)" for e using same [OF False b that] by (simp add: entry_of_def)
      moreover have "table_of st1 b = table_of st b" using c False by blast
      ultimately show ?thesis using okb False table_ok_cong [of st1 b st] by simp
    qed
    show "content st1 (?E b) = content st (?E b)"
    proof (cases "b = a")
      case True
      then show ?thesis using c by simp
    next
      case False
      have "entry_of st1 e = entry_of st e" if "e \<in> set (E b)" for e using same [OF False b that] by (simp add: entry_of_def)
      then show ?thesis using False by (simp add: content_def bindings_def)
    qed
  next
    show "is_marked st1 = (\<lambda>b. is_marked st b \<and> b \<notin> dropped st E ?E)" using c unfolding drop by blast
  next
    fix b ob assume b: "st b = Some ob" "\<not> is_table st b" "\<not> is_entry st b"
    have "b \<noteq> a" "b \<notin> set (E a)" using b a(1) table_entries(1) [OF ok] by blast+
    then have "st1 b = st b" using c by blast
    then show "st1 b = Some (if b \<in> set [a] \<and> marked ob then ob\<lparr>body := weaken st (body ob)\<rparr> else ob)"
      using b(1) \<open>b \<noteq> a\<close> by simp
  qed (use c doms in blast)+
  with st1(1) show ?thesis by blast
qed

text \<open>One pass over the objects of the context leaves every marked table with exactly the bindings
  whose keys are marked and resets exactly the dead weak references; it ends within the fuel.\<close>

lemma clear_dead_weak_edges_correct:
  assumes "weak_ok st E" "distinct as" "set as \<subseteq> dom st" "\<And>a. is_table st a \<Longrightarrow> length (E a) < n"
  shows "\<exists>st' E'. clear_dead_weak_edges n as st = Some st' \<and> weakened as st E st' E'"
  using assms
proof (induction as arbitrary: st E)
  case Nil
  then show ?case using weakened_none by auto
next
  case (Cons a as)
  obtain ob where ob: "st a = Some ob" using Cons.prems(3) by auto
  have bd: "bodies st a = Some (body ob)" using ob by (simp add: bodies_def)
  have goal: ?case if one: "weakened [a] st E st1 E1" and step: "clear_dead_weak_edges n (a # as) st = clear_dead_weak_edges n as st1" for st1 E1
  proof -
    note v = weakened_views [OF one]
    have "length (E1 b) < n" if "is_table st1 b" for b
    proof -
      have "E1 b = kept st (E b) \<or> E1 b = E b" using one unfolding weakened_def by (metis (no_types, lifting))
      then have "length (E1 b) \<le> length (E b)" by (auto simp: kept_def)
      moreover have "length (E b) < n" using Cons.prems(4) that by (simp add: v(1))
      ultimately show ?thesis by linarith
    qed
    then obtain st' E' where "clear_dead_weak_edges n as st1 = Some st'" "weakened as st1 E1 st' E'"
      using Cons.IH [OF weakened_ok [OF Cons.prems(1) one]] Cons.prems(2,3) by (auto simp: v(3))
    then show ?thesis using weakened_trans [OF Cons.prems(1) one] step Cons.prems(2) by auto
  qed
  show ?case
  proof (cases "marked ob")
    case False
    then show ?thesis using goal [OF weakened_idle [OF Cons.prems(1) ob]] ob by simp
  next
    case True
    consider (reference) v where "body ob = HEAP_WEAK_REFERENCE v"
    | (cell) c where "body ob = HEAP_FINALIZATION_CELL c"
    | (table) t where "body ob = HEAP_EPHEMERON_TABLE t"
    | (other) "weaken st (body ob) = body ob" "\<And>t. body ob \<noteq> HEAP_EPHEMERON_TABLE t"
        "clear_dead_weak_edges n (a # as) st = clear_dead_weak_edges n as st"
      using ob True by (cases "body ob") simp_all
    then show ?thesis
    proof cases
      case reference
      then show ?thesis using goal [OF weakened_object [OF Cons.prems(1) ob]] ob True not_table_entry [OF bd] by simp
    next
      case cell
      then show ?thesis using goal [OF weakened_object [OF Cons.prems(1) ob]] ob True not_table_entry [OF bd] by simp
    next
      case table
      then have a: "is_table st a" "is_marked st a" using not_table_entry [OF bd] True ob by (simp_all add: is_marked_def)
      obtain st1 where "clear_dead_entries n a 0 st = Some st1" "weakened [a] st E st1 (E(a := kept st (E a)))"
        using weakened_table [OF Cons.prems(1) a Cons.prems(4) [OF a(1)]] by blast
      then show ?thesis using goal ob True table by simp
    next
      case other
      then have "\<not> is_table st a" using not_table_entry [OF bd] by simp
      then show ?thesis using goal [OF weakened_idle [OF Cons.prems(1) ob]] other by simp
    qed
  qed
qed

end
