(* ===== verification/Finalization.thy ===== *)
theory Finalization
  imports Ephemeron_Table
begin

text \<open>
  Finalization records (\<open>runtime_memory.c\<close>): a registry owns a chain of cells in registration
  order, and the context owns a FIFO of the cells whose target died. This theory has the collector's
  side (\<open>schedule_finalization\<close>, \<open>compact_finalization_registries\<close>) and the program's side
  (\<open>oseo_internal_finalization_unregister\<close>, \<open>take_queued_cleanup\<close>). Loops over a chain carry fuel;
  \<open>None\<close> stands for a walk that does not end or leaves the heap.
\<close>

definition cell_of :: "store \<Rightarrow> u64 \<Rightarrow> finalization_cell option" where
  "cell_of st a = (case st a of None \<Rightarrow> None
     | Some ob \<Rightarrow> (case body ob of HEAP_FINALIZATION_CELL c \<Rightarrow> Some c | _ \<Rightarrow> None))"

definition registry_of :: "store \<Rightarrow> u64 \<Rightarrow> finalization_registry option" where
  "registry_of st a = (case st a of None \<Rightarrow> None
     | Some ob \<Rightarrow> (case body ob of HEAP_FINALIZATION_REGISTRY r \<Rightarrow> Some r | _ \<Rightarrow> None))"

definition update_cell :: "u64 \<Rightarrow> (finalization_cell \<Rightarrow> finalization_cell) \<Rightarrow> store \<Rightarrow> store" where
  "update_cell a f st =
     (case (st a, cell_of st a) of
        (Some ob, Some c) \<Rightarrow> st(a \<mapsto> ob\<lparr>body := HEAP_FINALIZATION_CELL (f c)\<rparr>)
      | _ \<Rightarrow> st)"

definition update_registry :: "u64 \<Rightarrow> (finalization_registry \<Rightarrow> finalization_registry) \<Rightarrow> store \<Rightarrow> store" where
  "update_registry a f st =
     (case (st a, registry_of st a) of
        (Some ob, Some r) \<Rightarrow> st(a \<mapsto> ob\<lparr>body := HEAP_FINALIZATION_REGISTRY (f r)\<rparr>)
      | _ \<Rightarrow> st)"

definition clear_trace_next :: "u64 \<Rightarrow> store \<Rightarrow> store" where
  "clear_trace_next a st = (case st a of None \<Rightarrow> st | Some ob \<Rightarrow> st(a \<mapsto> ob\<lparr>trace_next := 0\<rparr>))"

text \<open>The context's fields \<open>finalization_head\<close>, \<open>finalization_tail\<close> and
  \<open>finalization_pending_count\<close>.\<close>

record finalization_queue =
  queue_head :: oseo_value
  queue_tail :: oseo_value
  pending_count :: nat

subsection \<open>Scheduling\<close>

definition order_of :: "store \<Rightarrow> u64 \<Rightarrow> u64" where
  "order_of st a = (case cell_of st a of None \<Rightarrow> 0 | Some c \<Rightarrow> cell_order c)"

definition newly_eligible :: "store \<Rightarrow> u64 \<Rightarrow> bool" where
  "newly_eligible st a \<longleftrightarrow>
     (case cell_of st a of
        None \<Rightarrow> False
      | Some cell \<Rightarrow>
          is_marked st a \<and>
          \<not> (cell_processed cell \<or> cell_queued cell \<or> \<not> is_heap (cell_target cell) \<or> value_is_marked st (cell_target cell)))"

text \<open>The candidates, a list the code threads through \<open>trace_next\<close>.\<close>

fun insert_candidate :: "store \<Rightarrow> u64 \<Rightarrow> u64 list \<Rightarrow> u64 list" where
  "insert_candidate st a [] = [a]"
| "insert_candidate st a (c # cs) =
     (if order_of st c < order_of st a then c # insert_candidate st a cs else a # c # cs)"

definition enqueue_cell :: "u64 \<Rightarrow> store \<times> finalization_queue \<Rightarrow> store \<times> finalization_queue" where
  "enqueue_cell a = (\<lambda>(st, q).
     let st = clear_trace_next a st;
         st = update_cell a (\<lambda>c. c\<lparr>cell_target := oseo_undefined, cell_queue_next := oseo_undefined, cell_queued := True\<rparr>) st;
         (st, q) = (if is_heap (queue_tail q)
                    then (update_cell (heap_address (queue_tail q)) (\<lambda>c. c\<lparr>cell_queue_next := heap_value a\<rparr>) st, q)
                    else (st, q\<lparr>queue_head := heap_value a\<rparr>))
     in (st, q\<lparr>queue_tail := heap_value a, pending_count := pending_count q + 1\<rparr>))"

definition schedule_finalization :: "u64 list \<Rightarrow> store \<times> finalization_queue \<Rightarrow> store \<times> finalization_queue" where
  "schedule_finalization objects = (\<lambda>(st, q).
     let candidates = fold (\<lambda>a cs. if newly_eligible st a then insert_candidate st a cs else cs) objects []
     in fold enqueue_cell candidates (st, q))"

subsection \<open>Compaction\<close>

fun compact_cells :: "nat \<Rightarrow> u64 \<Rightarrow> u64 \<Rightarrow> store \<Rightarrow> store option" where
  "compact_cells 0 a kept st = None"
| "compact_cells (Suc n) a kept st =
     (case (if kept = 0 then map_option cell_head (registry_of st a) else map_option next_cell (cell_of st kept)) of
        None \<Rightarrow> None
      | Some link \<Rightarrow>
          if \<not> is_heap link then Some (update_registry a (\<lambda>r. r\<lparr>cell_tail := link_to kept\<rparr>) st)
          else
            let e = heap_address link
            in case cell_of st e of
                 None \<Rightarrow> None
               | Some cell \<Rightarrow>
                   if cell_processed cell then
                     let st = (if kept = 0 then update_registry a (\<lambda>r. r\<lparr>cell_head := next_cell cell\<rparr>) st
                               else update_cell kept (\<lambda>c. c\<lparr>next_cell := next_cell cell\<rparr>) st);
                         st = update_cell e (\<lambda>c. c\<lparr>next_cell := oseo_undefined\<rparr>) st;
                         st = (if \<not> cell_queued cell then unmark e st else st)
                     in compact_cells n a kept st
                   else compact_cells n a e st)"

fun compact_finalization_registries :: "nat \<Rightarrow> u64 list \<Rightarrow> store \<Rightarrow> store option" where
  "compact_finalization_registries n [] st = Some st"
| "compact_finalization_registries n (a # as) st =
     (case registry_of st a of
        None \<Rightarrow> compact_finalization_registries n as st
      | Some r \<Rightarrow>
          if \<not> is_marked st a then compact_finalization_registries n as st
          else case compact_cells n a 0 st of
                 None \<Rightarrow> None
               | Some st \<Rightarrow> compact_finalization_registries n as st)"

subsection \<open>The program's side\<close>

definition cell_at :: "store \<Rightarrow> oseo_value \<Rightarrow> finalization_cell option" where
  "cell_at st v = (if is_heap v then cell_of st (heap_address v) else None)"

fun unregister_cells :: "nat \<Rightarrow> oseo_value \<Rightarrow> oseo_value \<Rightarrow> bool \<Rightarrow> store \<times> finalization_queue \<Rightarrow>
    (bool \<times> store \<times> finalization_queue) option" where
  "unregister_cells 0 token cursor removed s = None"
| "unregister_cells (Suc n) token cursor removed (st, q) =
     (case cell_at st cursor of
        None \<Rightarrow> Some (removed, st, q)
      | Some cell \<Rightarrow>
          let a = heap_address cursor; cursor = next_cell cell
          in if cell_processed cell \<or> cell_token cell \<noteq> token then unregister_cells n token cursor removed (st, q)
             else
               let st = update_cell a (\<lambda>c. c\<lparr>cell_processed := True, cell_target := oseo_undefined,
                     cell_holdings := oseo_undefined, cell_token := oseo_undefined\<rparr>) st;
                   q = (if cell_queued cell \<and> pending_count q > 0 then q\<lparr>pending_count := pending_count q - 1\<rparr> else q)
               in unregister_cells n token cursor True (st, q))"

definition finalization_unregister :: "nat \<Rightarrow> oseo_value \<Rightarrow> oseo_value \<Rightarrow> store \<times> finalization_queue \<Rightarrow>
    (bool \<times> store \<times> finalization_queue) option" where
  "finalization_unregister n registry_value unregister_token s =
     (case (if is_heap registry_value then registry_of (fst s) (heap_address registry_value) else None) of
        None \<Rightarrow> Some (False, s)
      | Some r \<Rightarrow>
          if \<not> is_heap unregister_token then Some (False, s)
          else unregister_cells n unregister_token (cell_head r) False s)"

text \<open>Unlinking the cell at \<open>cursor\<close> from the FIFO, \<open>previous\<close> being the cell before it.\<close>

definition unlink_queued :: "oseo_value \<Rightarrow> oseo_value \<Rightarrow> oseo_value \<Rightarrow> store \<times> finalization_queue \<Rightarrow>
    store \<times> finalization_queue" where
  "unlink_queued previous cursor following = (\<lambda>(st, q).
     let (st, q) = (if cell_at st previous \<noteq> None
                    then (update_cell (heap_address previous) (\<lambda>c. c\<lparr>cell_queue_next := following\<rparr>) st, q)
                    else (st, q\<lparr>queue_head := following\<rparr>));
         q = (if queue_tail q = cursor then q\<lparr>queue_tail := previous\<rparr> else q)
     in (update_cell (heap_address cursor) (\<lambda>c. c\<lparr>cell_queue_next := oseo_undefined, cell_queued := False\<rparr>) st, q))"

text \<open>The result has the registry and the holdings of the record taken.\<close>

fun take_queued_cleanup :: "nat \<Rightarrow> oseo_value \<Rightarrow> oseo_value \<Rightarrow> oseo_value \<Rightarrow> store \<times> finalization_queue \<Rightarrow>
    ((oseo_value \<times> oseo_value) option \<times> store \<times> finalization_queue) option" where
  "take_queued_cleanup 0 registry previous cursor s = None"
| "take_queued_cleanup (Suc n) registry previous cursor (st, q) =
     (case cell_at st cursor of
        None \<Rightarrow> Some (None, st, q)
      | Some cell \<Rightarrow>
          let following = cell_queue_next cell;
              matches = (\<not> cell_processed cell \<and> (tag_of registry = TAG_UNDEFINED \<or> cell_registry cell = registry))
          in if \<not> cell_processed cell \<and> \<not> matches then take_queued_cleanup n registry cursor following (st, q)
             else
               let (st, q) = unlink_queued previous cursor following (st, q)
               in if \<not> matches then take_queued_cleanup n registry previous following (st, q)
                  else
                    let st = update_cell (heap_address cursor) (\<lambda>c. c\<lparr>cell_processed := True, cell_holdings := oseo_undefined\<rparr>) st;
                        q = (if pending_count q > 0 then q\<lparr>pending_count := pending_count q - 1\<rparr> else q)
                    in Some (Some (cell_registry cell, cell_holdings cell), st, q))"

definition finalization_take_cleanup :: "nat \<Rightarrow> store \<times> finalization_queue \<Rightarrow>
    ((oseo_value \<times> oseo_value) option \<times> store \<times> finalization_queue) option" where
  "finalization_take_cleanup n s = take_queued_cleanup n oseo_undefined oseo_undefined (queue_head (snd s)) s"

definition finalization_take_registry_cleanup :: "nat \<Rightarrow> oseo_value \<Rightarrow> store \<times> finalization_queue \<Rightarrow>
    ((oseo_value \<times> oseo_value) option \<times> store \<times> finalization_queue) option" where
  "finalization_take_registry_cleanup n registry s =
     (if is_heap registry \<and> registry_of (fst s) (heap_address registry) \<noteq> None
      then take_queued_cleanup n registry oseo_undefined (queue_head (snd s)) s
      else Some (None, s))"

subsection \<open>Views of the store\<close>

lemma cell_of_update [simp]:
  "cell_of (update_cell a f st) = (case cell_of st a of None \<Rightarrow> cell_of st | Some c \<Rightarrow> (cell_of st)(a \<mapsto> f c))"
  "cell_of (update_registry a g st) = cell_of st" "cell_of (clear_trace_next a st) = cell_of st" "cell_of (unmark a st) = cell_of st"
  by (auto simp: fun_eq_iff cell_of_def registry_of_def update_cell_def update_registry_def clear_trace_next_def unmark_def
      split: option.splits heap_body.splits)

lemma registry_of_update [simp]:
  "registry_of (update_registry a g st) = (case registry_of st a of None \<Rightarrow> registry_of st | Some r \<Rightarrow> (registry_of st)(a \<mapsto> g r))"
  "registry_of (update_cell a f st) = registry_of st" "registry_of (clear_trace_next a st) = registry_of st"
  "registry_of (unmark a st) = registry_of st"
  by (auto simp: fun_eq_iff cell_of_def registry_of_def update_cell_def update_registry_def clear_trace_next_def unmark_def
      split: option.splits heap_body.splits)

lemma is_marked_cell_update [simp]:
  "is_marked (update_cell a f st) = is_marked st" "is_marked (update_registry a g st) = is_marked st"
  "is_marked (clear_trace_next a st) = is_marked st"
  by (auto simp: fun_eq_iff is_marked_def update_cell_def update_registry_def clear_trace_next_def split: option.splits)

lemma dom_cell_updates [simp]:
  "dom (update_cell a f st) = dom st" "dom (update_registry a g st) = dom st" "dom (clear_trace_next a st) = dom st"
  by (auto simp: update_cell_def update_registry_def clear_trace_next_def split: option.splits)

lemma other_cell_blocks:
  "b \<noteq> a \<Longrightarrow> update_cell a f st b = st b" "b \<noteq> a \<Longrightarrow> update_registry a g st b = st b" "b \<noteq> a \<Longrightarrow> clear_trace_next a st b = st b"
  by (auto simp: update_cell_def update_registry_def clear_trace_next_def split: option.splits)

subsection \<open>The queue\<close>

definition queue_links :: "store \<Rightarrow> u64 \<rightharpoonup> oseo_value" where
  "queue_links st a = map_option cell_queue_next (cell_of st a)"

definition cell_links :: "store \<Rightarrow> u64 \<rightharpoonup> oseo_value" where
  "cell_links st a = map_option next_cell (cell_of st a)"

text \<open>A cell without its two links.\<close>

definition record_of :: "store \<Rightarrow> u64 \<rightharpoonup> finalization_cell" where
  "record_of st a = map_option (\<lambda>c. c\<lparr>next_cell := oseo_undefined, cell_queue_next := oseo_undefined\<rparr>) (cell_of st a)"

definition waiting :: "store \<Rightarrow> u64 \<Rightarrow> bool" where
  "waiting st a \<longleftrightarrow> (case record_of st a of None \<Rightarrow> False | Some c \<Rightarrow> \<not> cell_processed c)"

text \<open>The FIFO holds the cells \<open>Q\<close> in order; the pending count is the number of those that no
  unregistration has consumed.\<close>

definition queue_ok :: "store \<Rightarrow> finalization_queue \<Rightarrow> u64 list \<Rightarrow> bool" where
  "queue_ok st q Q \<longleftrightarrow>
     forward (queue_links st) (queue_head q) Q \<and> back_link (queue_tail q) (last_of Q) \<and> distinct Q \<and>
     (\<forall>a \<in> set Q. a \<noteq> 0 \<and> a \<le> PAYLOAD_MASK) \<and>
     (\<forall>a c. record_of st a = Some c \<longrightarrow> (cell_queued c \<longleftrightarrow> a \<in> set Q)) \<and> (\<forall>a \<in> set Q. record_of st a \<noteq> None) \<and>
     pending_count q = length (filter (waiting st) Q)"

lemma forward_snoc:
  assumes "forward nx v E" "e \<notin> set E" "\<not> is_heap u" "distinct E"
  shows "if E = [] then forward (nx(e \<mapsto> u)) (heap_value e) [e] else forward (nx(last E \<mapsto> heap_value e, e \<mapsto> u)) v (E @ [e])"
proof -
  have "forward (nx(last E \<mapsto> heap_value e, e \<mapsto> u)) v (E @ [e])" if "E \<noteq> []"
    using that assms
  proof (induction E arbitrary: v)
    case (Cons x E)
    then obtain w where w: "v = heap_value x" "nx x = Some w" "forward nx w E" by auto
    show ?case
    proof (cases "E = []")
      case True
      then show ?thesis using Cons.prems w by auto
    next
      case False
      define nx' where "nx' = nx(last E \<mapsto> heap_value e, e \<mapsto> u)"
      have "forward nx' w (E @ [e])"
        unfolding nx'_def using False by (rule Cons.IH) (use w Cons.prems in auto)
      moreover have "nx' x = Some w" using Cons.prems False w by (auto simp: nx'_def)
      moreover have "last (x # E) = last E" using False by simp
      ultimately show ?thesis using w unfolding nx'_def [symmetric] \<open>last (x # E) = last E\<close> by simp
    qed
  qed simp
  then show ?thesis using assms by simp
qed

lemma link_views [simp]:
  "queue_links (update_cell a f st) = (case cell_of st a of None \<Rightarrow> queue_links st | Some c \<Rightarrow> (queue_links st)(a \<mapsto> cell_queue_next (f c)))"
  "cell_links (update_cell a f st) = (case cell_of st a of None \<Rightarrow> cell_links st | Some c \<Rightarrow> (cell_links st)(a \<mapsto> next_cell (f c)))"
  "record_of (update_cell a f st) = (case cell_of st a of None \<Rightarrow> record_of st
     | Some c \<Rightarrow> (record_of st)(a \<mapsto> (f c)\<lparr>next_cell := oseo_undefined, cell_queue_next := oseo_undefined\<rparr>))"
  "queue_links (update_registry b g st) = queue_links st" "cell_links (update_registry b g st) = cell_links st"
  "record_of (update_registry b g st) = record_of st"
  "queue_links (clear_trace_next b st) = queue_links st" "cell_links (clear_trace_next b st) = cell_links st"
  "record_of (clear_trace_next b st) = record_of st"
  "queue_links (unmark b st) = queue_links st" "cell_links (unmark b st) = cell_links st" "record_of (unmark b st) = record_of st"
  by (auto simp: fun_eq_iff queue_links_def cell_links_def record_of_def split: option.splits)

lemma record_cell: "cell_of st a = Some c \<Longrightarrow> record_of st a = Some (c\<lparr>next_cell := oseo_undefined, cell_queue_next := oseo_undefined\<rparr>)"
  by (simp add: record_of_def)

lemma record_of_None [simp]: "record_of st a = None \<longleftrightarrow> cell_of st a = None"
  by (simp add: record_of_def)

lemma record_same:
  "record_of st a = Some c \<Longrightarrow> cell_of st a = Some d \<Longrightarrow>
   d'\<lparr>next_cell := oseo_undefined, cell_queue_next := oseo_undefined\<rparr> = d\<lparr>next_cell := oseo_undefined, cell_queue_next := oseo_undefined\<rparr> \<Longrightarrow>
   (record_of st)(a \<mapsto> d'\<lparr>next_cell := oseo_undefined, cell_queue_next := oseo_undefined\<rparr>) = record_of st"
  by (auto simp: record_of_def fun_eq_iff)

definition scheduled :: "finalization_cell \<Rightarrow> finalization_cell" where
  "scheduled c = c\<lparr>cell_target := oseo_undefined, cell_queued := True\<rparr>"

text \<open>What an operation on the FIFO leaves alone.\<close>

definition queue_frame :: "store \<Rightarrow> store \<Rightarrow> bool" where
  "queue_frame st st' \<longleftrightarrow> cell_links st' = cell_links st \<and> registry_of st' = registry_of st \<and> is_marked st' = is_marked st \<and>
     dom st' = dom st \<and> (\<forall>b. cell_of st b = None \<longrightarrow> st' b = st b) \<and> dom (cell_of st') = dom (cell_of st)"

lemma queue_frame_refl [simp]: "queue_frame st st"
  by (simp add: queue_frame_def)

lemma queue_frame_trans: "queue_frame st st' \<Longrightarrow> queue_frame st' st'' \<Longrightarrow> queue_frame st st''"
  unfolding queue_frame_def by (metis domIff)

lemma queue_frame_update:
  assumes "\<And>c. cell_of st a = Some c \<Longrightarrow> next_cell (f c) = next_cell c" shows "queue_frame st (update_cell a f st)"
proof -
  have "cell_links (update_cell a f st) = cell_links st"
    using assms by (auto simp: cell_links_def fun_eq_iff split: option.split)
  moreover have "update_cell a f st b = st b" if "cell_of st b = None" for b
    using that by (cases "b = a") (auto simp: other_cell_blocks update_cell_def split: option.splits)
  moreover have "dom (cell_of (update_cell a f st)) = dom (cell_of st)" by (auto split: option.split)
  ultimately show ?thesis by (simp add: queue_frame_def)
qed

lemma queue_frame_clear: "cell_of st a \<noteq> None \<Longrightarrow> queue_frame st (clear_trace_next a st)"
  unfolding queue_frame_def by (auto simp: other_cell_blocks) (metis option.distinct(1) other_cell_blocks(3))

lemma enqueue_correct:
  assumes ok: "queue_ok st q Q" and a: "record_of st a = Some c" "a \<noteq> 0" "a \<le> PAYLOAD_MASK" "\<not> cell_queued c" "\<not> cell_processed c"
    and r: "enqueue_cell a (st, q) = (st', q')"
  shows "queue_ok st' q' (Q @ [a])" "record_of st' = (record_of st)(a \<mapsto> scheduled c)" "queue_frame st st'"
proof -
  obtain c0 where c0: "cell_of st a = Some c0" "c = c0\<lparr>next_cell := oseo_undefined, cell_queue_next := oseo_undefined\<rparr>"
    using a(1) by (auto simp: record_of_def)
  note k = ok [unfolded queue_ok_def]
  have fresh: "a \<notin> set Q" using k a(1,4) by blast
  define st1 where "st1 = update_cell a (\<lambda>c. c\<lparr>cell_target := oseo_undefined, cell_queue_next := oseo_undefined, cell_queued := True\<rparr>) (clear_trace_next a st)"
  have tail: "is_heap (queue_tail q) \<longleftrightarrow> Q \<noteq> []" "Q \<noteq> [] \<Longrightarrow> queue_tail q = heap_value (last Q)"
    using k by (auto simp: back_link_def last_of_def split: if_splits)
  have tl: "Q \<noteq> [] \<Longrightarrow> heap_address (queue_tail q) = last Q" using tail(2) k by simp
  obtain cl where cl: "Q \<noteq> [] \<Longrightarrow> cell_of st (last Q) = Some cl" using k last_in_set by (metis record_of_None option.exhaust)
  have cl1: "Q \<noteq> [] \<Longrightarrow> cell_of st1 (last Q) = Some cl" using cl fresh c0(1) by (auto simp: st1_def)
  have st': "st' = (if Q = [] then st1 else update_cell (last Q) (\<lambda>c. c\<lparr>cell_queue_next := heap_value a\<rparr>) st1)"
    and q': "q' = (if Q = [] then q\<lparr>queue_head := heap_value a\<rparr> else q)\<lparr>queue_tail := heap_value a, pending_count := pending_count q + 1\<rparr>"
    using r tail(1) tl by (auto simp: enqueue_cell_def Let_def st1_def split: if_splits)
  have ql: "queue_links st' = (if Q = [] then (queue_links st)(a \<mapsto> oseo_undefined)
      else (queue_links st)(last Q \<mapsto> heap_value a, a \<mapsto> oseo_undefined))"
  proof -
    have "Q \<noteq> [] \<Longrightarrow> last Q \<noteq> a" using fresh by auto
    then show ?thesis using c0(1) cl by (auto simp: st' st1_def fun_eq_iff split: option.split)
  qed
  have r1: "record_of st1 = (record_of st)(a \<mapsto> scheduled c)" using c0 by (cases c0) (simp add: st1_def scheduled_def)
  show rec: "record_of st' = (record_of st)(a \<mapsto> scheduled c)"
  proof (cases "Q = []")
    case True
    then show ?thesis using r1 st' by simp
  next
    case False
    then have "record_of st' = record_of st1" using cl1 by (simp add: st' fun_eq_iff record_of_def)
    then show ?thesis using r1 by simp
  qed
  have wait: "waiting st' b = waiting st b" if "b \<in> set Q" for b using that fresh by (auto simp: waiting_def rec)
  have wa: "waiting st' a" using a(5) by (simp add: waiting_def rec scheduled_def)
  have f: "forward (queue_links st') (queue_head q') (Q @ [a])"
    using forward_snoc [of "queue_links st" "queue_head q" Q a oseo_undefined] k fresh by (auto simp: ql q' split: if_splits)
  have n: "filter (waiting st') Q = filter (waiting st) Q" using wait by (intro filter_cong) auto
  show "queue_ok st' q' (Q @ [a])"
    unfolding queue_ok_def
  proof (intro conjI)
    show "\<forall>b c. record_of st' b = Some c \<longrightarrow> cell_queued c = (b \<in> set (Q @ [a]))"
      using k unfolding rec by (auto simp: scheduled_def)
    show "\<forall>b \<in> set (Q @ [a]). record_of st' b \<noteq> None" using k unfolding rec by (simp del: not_None_eq record_of_None)
    show "pending_count q' = length (filter (waiting st') (Q @ [a]))" using k wa by (simp add: q' n)
  qed (use f k a(2,3) fresh in \<open>auto simp: q' back_link_def last_of_def\<close>)
  have "queue_frame st (clear_trace_next a st)" using c0(1) by (intro queue_frame_clear) simp
  moreover have "queue_frame (clear_trace_next a st) st1" unfolding st1_def by (rule queue_frame_update) simp
  moreover have "queue_frame st1 st'" using st' by (auto intro: queue_frame_update)
  ultimately show "queue_frame st st'" using queue_frame_trans by blast
qed

lemma insert_candidate_props:
  "set (insert_candidate st a cs) = insert a (set cs)"
  "a \<notin> set cs \<Longrightarrow> distinct (insert_candidate st a cs) \<longleftrightarrow> distinct cs"
  "sorted (map (order_of st) cs) \<Longrightarrow> sorted (map (order_of st) (insert_candidate st a cs))"
proof -
  show s: "set (insert_candidate st a cs) = insert a (set cs)" for cs by (induction cs) auto
  show "a \<notin> set cs \<Longrightarrow> distinct (insert_candidate st a cs) \<longleftrightarrow> distinct cs" by (induction cs) (auto simp: s)
  show "sorted (map (order_of st) cs) \<Longrightarrow> sorted (map (order_of st) (insert_candidate st a cs))"
  proof (induction cs)
    case (Cons c cs)
    then show ?case by (auto simp: s)
  qed simp
qed

definition candidates :: "store \<Rightarrow> u64 list \<Rightarrow> u64 list" where
  "candidates st objects = fold (\<lambda>a cs. if newly_eligible st a then insert_candidate st a cs else cs) objects []"

lemma candidates_props:
  assumes "distinct objects"
  shows "set (candidates st objects) = {a \<in> set objects. newly_eligible st a}" "distinct (candidates st objects)"
    "sorted (map (order_of st) (candidates st objects))"
proof -
  let ?f = "\<lambda>a cs. if newly_eligible st a then insert_candidate st a cs else cs"
  have "set (fold ?f as cs) = set cs \<union> {a \<in> set as. newly_eligible st a} \<and>
      distinct (fold ?f as cs) \<and> sorted (map (order_of st) (fold ?f as cs))"
    if "distinct as" "distinct cs" "sorted (map (order_of st) cs)" "set as \<inter> set cs = {}" for as cs
    using that
  proof (induction as arbitrary: cs)
    case (Cons a as)
    let ?cs = "?f a cs"
    have "distinct ?cs" "sorted (map (order_of st) ?cs)" "set as \<inter> set ?cs = {}"
      using Cons.prems by (auto simp: insert_candidate_props)
    then have "set (fold ?f as ?cs) = set ?cs \<union> {a \<in> set as. newly_eligible st a} \<and>
      distinct (fold ?f as ?cs) \<and> sorted (map (order_of st) (fold ?f as ?cs))"
      using Cons.prems(1) by (intro Cons.IH) simp_all
    then show ?case by (auto simp: insert_candidate_props)
  qed simp
  from this [of objects "[]"] show "set (candidates st objects) = {a \<in> set objects. newly_eligible st a}" "distinct (candidates st objects)"
    "sorted (map (order_of st) (candidates st objects))"
    using assms unfolding candidates_def by simp_all
qed

lemma enqueue_batch:
  assumes "queue_ok st q Q" "distinct B" "\<forall>a \<in> set B. a \<noteq> 0 \<and> a \<le> PAYLOAD_MASK \<and>
      (\<exists>c. record_of st a = Some c \<and> \<not> cell_queued c \<and> \<not> cell_processed c)"
    "fold enqueue_cell B (st, q) = (st', q')"
  shows "queue_ok st' q' (Q @ B) \<and> record_of st' = (\<lambda>a. if a \<in> set B then map_option scheduled (record_of st a) else record_of st a) \<and>
    queue_frame st st'"
  using assms
proof (induction B arbitrary: st q Q)
  case (Cons a B)
  obtain st1 q1 where e: "enqueue_cell a (st, q) = (st1, q1)" by (cases "enqueue_cell a (st, q)")
  obtain c where c: "record_of st a = Some c" "\<not> cell_queued c" "\<not> cell_processed c" and a: "a \<noteq> 0" "a \<le> PAYLOAD_MASK"
    using Cons.prems(3) by auto
  note one = enqueue_correct [OF Cons.prems(1) c(1) a c(2,3) e]
  have fresh: "a \<notin> set B" using Cons.prems(2) by simp
  have "queue_ok st' q' ((Q @ [a]) @ B) \<and>
      record_of st' = (\<lambda>b. if b \<in> set B then map_option scheduled (record_of st1 b) else record_of st1 b) \<and> queue_frame st1 st'"
  proof (rule Cons.IH [OF one(1)])
    show "fold enqueue_cell B (st1, q1) = (st', q')" using Cons.prems(4) e by simp
    show "\<forall>b \<in> set B. b \<noteq> 0 \<and> b \<le> PAYLOAD_MASK \<and> (\<exists>c. record_of st1 b = Some c \<and> \<not> cell_queued c \<and> \<not> cell_processed c)"
      using Cons.prems(3) fresh by (auto simp: one(2))
  qed (use Cons.prems(2) in simp)
  moreover have "(\<lambda>b. if b \<in> set B then map_option scheduled (record_of st1 b) else record_of st1 b) =
      (\<lambda>b. if b \<in> set (a # B) then map_option scheduled (record_of st b) else record_of st b)"
    using fresh c(1) by (auto simp: one(2) fun_eq_iff)
  ultimately show ?case using queue_frame_trans [OF one(3)] by simp
next
  case Nil
  then show ?case by simp
qed

text \<open>A collection appends the newly eligible cells to the FIFO in registration order.\<close>

lemma schedule_finalization_correct:
  assumes "queue_ok st q Q" "distinct objects" "\<forall>a \<in> set objects. a \<noteq> 0 \<and> a \<le> PAYLOAD_MASK"
    "schedule_finalization objects (st, q) = (st', q')"
  shows "queue_ok st' q' (Q @ candidates st objects)"
    "record_of st' = (\<lambda>a. if a \<in> set (candidates st objects) then map_option scheduled (record_of st a) else record_of st a)"
    "queue_frame st st'"
proof -
  have "\<exists>c. record_of st a = Some c \<and> \<not> cell_queued c \<and> \<not> cell_processed c" if "newly_eligible st a" for a
    using that by (auto simp: newly_eligible_def record_of_def split: option.splits)
  then have "\<forall>a \<in> set (candidates st objects). a \<noteq> 0 \<and> a \<le> PAYLOAD_MASK \<and>
      (\<exists>c. record_of st a = Some c \<and> \<not> cell_queued c \<and> \<not> cell_processed c)"
    using assms(3) by (simp add: candidates_props(1) [OF assms(2)])
  from enqueue_batch [OF assms(1) candidates_props(2) [OF assms(2)] this, of st' q'] assms(4)
  show "queue_ok st' q' (Q @ candidates st objects)"
    "record_of st' = (\<lambda>a. if a \<in> set (candidates st objects) then map_option scheduled (record_of st a) else record_of st a)"
    "queue_frame st st'"
    by (simp_all add: schedule_finalization_def candidates_def Let_def)
qed

subsection \<open>The chain of a registry\<close>

definition registry_ok :: "store \<Rightarrow> u64 \<Rightarrow> u64 list \<Rightarrow> bool" where
  "registry_ok st r C \<longleftrightarrow>
     (\<exists>g. registry_of st r = Some g \<and> forward (cell_links st) (cell_head g) C \<and> back_link (cell_tail g) (last_of C)) \<and>
     distinct C \<and> (\<forall>a \<in> set C. a \<noteq> 0 \<and> a \<le> PAYLOAD_MASK \<and> cell_of st a \<noteq> None)"

text \<open>What a compaction of a chain leaves alone: \<open>C\<close> are its cells, \<open>R\<close> those visited; consumed
  cells that are not queued lose their mark.\<close>

definition consumed :: "store \<Rightarrow> u64 \<Rightarrow> bool" where
  "consumed st a \<longleftrightarrow> (case record_of st a of None \<Rightarrow> False | Some c \<Rightarrow> cell_processed c)"

definition released :: "store \<Rightarrow> u64 \<Rightarrow> bool" where
  "released st a \<longleftrightarrow> (case record_of st a of None \<Rightarrow> False | Some c \<Rightarrow> cell_processed c \<and> \<not> cell_queued c)"

definition compact_frame :: "u64 \<Rightarrow> u64 set \<Rightarrow> u64 set \<Rightarrow> store \<Rightarrow> store \<Rightarrow> bool" where
  "compact_frame r C R st st' \<longleftrightarrow>
     queue_links st' = queue_links st \<and> record_of st' = record_of st \<and>
     is_marked st' = (\<lambda>b. is_marked st b \<and> \<not> (b \<in> R \<and> released st b)) \<and>
     (\<forall>b. b \<noteq> r \<longrightarrow> b \<notin> C \<longrightarrow> st' b = st b) \<and>
     (\<forall>b. b \<noteq> r \<longrightarrow> registry_of st' b = registry_of st b) \<and> dom st' = dom st \<and>
     map_option registry_callback (registry_of st' r) = map_option registry_callback (registry_of st r) \<and>
     (\<forall>b \<in> R. consumed st b \<longrightarrow> (\<exists>v. cell_links st' b = Some v \<and> \<not> is_heap v))"

lemma cell_not_registry: "cell_of st a \<noteq> None \<Longrightarrow> registry_of st a = None"
  by (auto simp: cell_of_def registry_of_def split: option.splits heap_body.splits)

lemma other_unmark: "b \<noteq> e \<Longrightarrow> (if c then unmark e st else st) b = st b"
  by (simp add: other_blocks)

lemma compact_cells_correct:
  assumes "registry_of st r = Some g" "forward (cell_links st) (cell_head g) (xs @ rest)" "distinct (xs @ rest)"
    "\<forall>a \<in> set (xs @ rest). a \<noteq> 0 \<and> a \<le> PAYLOAD_MASK \<and> cell_of st a \<noteq> None"
    "k = (if xs = [] then 0 else last xs)" "length rest < n"
  shows "\<exists>st'. compact_cells n r k st = Some st' \<and> registry_ok st' r (xs @ filter (\<lambda>a. \<not> consumed st a) rest) \<and>
    compact_frame r (set (xs @ rest)) (set rest) st st'"
  using assms
proof (induction rest arbitrary: xs n k st g)
  case Nil
  obtain m where n: "n = Suc m" using Nil.prems(6) by (cases n) auto
  obtain w where w: "if xs = [] then w = cell_head g else cell_links st (last xs) = Some w" "forward (cell_links st) w []"
    using forward_append [OF Nil.prems(2)] by blast
  have k: "k = 0 \<longleftrightarrow> xs = []" using Nil.prems(4,5) by (auto dest: last_in_set)
  have read: "(if k = 0 then map_option cell_head (registry_of st r) else map_option next_cell (cell_of st k)) = Some w"
    using w(1) Nil.prems(1,5) k by (auto simp: cell_links_def)
  have "compact_cells n r k st = Some (update_registry r (\<lambda>g. g\<lparr>cell_tail := link_to k\<rparr>) st)"
    using w(2) by (simp add: n read)
  moreover have "registry_ok (update_registry r (\<lambda>g. g\<lparr>cell_tail := link_to k\<rparr>) st) r xs"
    using Nil.prems k by (auto simp: registry_ok_def back_link_def last_of_def link_to_def)
  moreover have "compact_frame r (set xs) {} st (update_registry r (\<lambda>g. g\<lparr>cell_tail := link_to k\<rparr>) st)"
    using Nil.prems(1) by (auto simp: compact_frame_def other_cell_blocks)
  ultimately show ?case by simp
next
  case (Cons e ys)
  obtain m where n: "n = Suc m" "length ys < m" using Cons.prems(6) by (cases n) auto
  obtain w where w: "if xs = [] then w = cell_head g else cell_links st (last xs) = Some w" "forward (cell_links st) w (e # ys)"
    using forward_append [OF Cons.prems(2)] by blast
  have k: "k = 0 \<longleftrightarrow> xs = []" using Cons.prems(4,5) by (auto dest: last_in_set)
  have read: "(if k = 0 then map_option cell_head (registry_of st r) else map_option next_cell (cell_of st k)) = Some w"
    using w(1) Cons.prems(1,5) k by (auto simp: cell_links_def)
  have e: "e \<noteq> 0" "e \<le> PAYLOAD_MASK" "w = heap_value e" using Cons.prems(4) w(2) by auto
  obtain c where c: "cell_of st e = Some c" using Cons.prems(4) by auto
  have re: "registry_of st e = None" using cell_not_registry c by simp
  then have er: "e \<noteq> r" using Cons.prems(1) by auto
  have pe: "consumed st e = cell_processed c" "released st e = (cell_processed c \<and> \<not> cell_queued c)"
    using c by (simp_all add: consumed_def released_def record_of_def)
  show ?case
  proof (cases "cell_processed c")
    case False
    have step: "compact_cells n r k st = compact_cells m r e st"
      using e c False by (simp add: n read Let_def)
    have "\<exists>st'. compact_cells m r e st = Some st' \<and> registry_ok st' r ((xs @ [e]) @ filter (\<lambda>a. \<not> consumed st a) ys) \<and>
        compact_frame r (set ((xs @ [e]) @ ys)) (set ys) st st'"
      by (rule Cons.IH [OF Cons.prems(1)]) (use Cons.prems n in auto)
    then show ?thesis using step pe False by (auto simp: compact_frame_def fun_eq_iff)
  next
    case True
    define s0 where "s0 = (if k = 0 then update_registry r (\<lambda>g. g\<lparr>cell_head := next_cell c\<rparr>) st
      else update_cell k (\<lambda>d. d\<lparr>next_cell := next_cell c\<rparr>) st)"
    define s1 where "s1 = (if \<not> cell_queued c then unmark e (update_cell e (\<lambda>d. d\<lparr>next_cell := oseo_undefined\<rparr>) s0)
      else update_cell e (\<lambda>d. d\<lparr>next_cell := oseo_undefined\<rparr>) s0)"
    have step: "compact_cells n r k st = compact_cells m r k s1"
      using e c True by (simp add: n read Let_def s1_def s0_def)
    have ke: "xs \<noteq> [] \<Longrightarrow> last xs \<noteq> e" "xs \<noteq> [] \<Longrightarrow> \<exists>d. cell_of st (last xs) = Some d" using Cons.prems(3,4) by auto
    have c0: "cell_of s0 e = Some c" using c ke Cons.prems(5) k by (auto simp: s0_def split: option.split)
    obtain g1 where g1: "registry_of s1 = (registry_of st)(r \<mapsto> g1)" "registry_callback g1 = registry_callback g"
      "cell_head g1 = (if xs = [] then next_cell c else cell_head g)"
    proof -
      have "registry_of s1 = registry_of s0" by (simp add: s1_def)
      then have "registry_of s1 = (registry_of st)(r \<mapsto> (if xs = [] then g\<lparr>cell_head := next_cell c\<rparr> else g))"
        using Cons.prems(1) k by (auto simp: s0_def fun_eq_iff)
      then show thesis using that by simp
    qed
    have links: "cell_links s1 = (if xs = [] then (cell_links st)(e \<mapsto> oseo_undefined)
        else (cell_links st)(last xs \<mapsto> next_cell c, e \<mapsto> oseo_undefined))"
      using c c0 ke Cons.prems(5) k by (auto simp: s1_def s0_def)
    have rec: "record_of s1 = record_of st" and ql: "queue_links s1 = queue_links st"
    proof -
      have "record_of s0 = record_of st \<and> queue_links s0 = queue_links st"
        using ke(2) Cons.prems(5) k by (auto simp: s0_def fun_eq_iff record_of_def queue_links_def)
      moreover have "record_of s1 = record_of s0 \<and> queue_links s1 = queue_links s0"
        using c0 by (auto simp: s1_def fun_eq_iff record_of_def queue_links_def)
      ultimately show "record_of s1 = record_of st" "queue_links s1 = queue_links st" by simp_all
    qed
    have nx: "cell_links st e = Some (next_cell c)" using c by (simp add: cell_links_def)
    have f: "forward (cell_links s1) (cell_head g1) (xs @ ys)"
      using forward_unlink [OF Cons.prems(3,2) nx, of "Some oseo_undefined"] by (simp add: links g1(3) split: if_splits)
    have cells: "cell_of s1 a \<noteq> None \<longleftrightarrow> cell_of st a \<noteq> None" for a
      using rec by (metis record_of_None)
    have mk: "is_marked s1 = (\<lambda>b. is_marked st b \<and> \<not> (b = e \<and> released st b))"
      using pe True by (auto simp: s1_def s0_def fun_eq_iff)
    have blocks: "s1 b = st b" if "b \<noteq> r" "b \<notin> set (xs @ e # ys)" for b
    proof -
      have "b \<noteq> e" "xs \<noteq> [] \<Longrightarrow> b \<noteq> last xs" using that(2) by auto
      then show ?thesis using that(1) Cons.prems(5) k by (auto simp: s1_def s0_def other_cell_blocks other_blocks)
    qed
    have dom: "dom s1 = dom st" by (simp add: s1_def s0_def)
    obtain st' where st': "compact_cells m r k s1 = Some st'" "registry_ok st' r (xs @ filter (\<lambda>a. \<not> consumed s1 a) ys)"
      "compact_frame r (set (xs @ ys)) (set ys) s1 st'"
    proof -
      have "\<exists>st'. compact_cells m r k s1 = Some st' \<and> registry_ok st' r (xs @ filter (\<lambda>a. \<not> consumed s1 a) ys) \<and>
          compact_frame r (set (xs @ ys)) (set ys) s1 st'"
      proof (rule Cons.IH)
        show "registry_of s1 r = Some g1" by (simp add: g1)
        show "\<forall>a \<in> set (xs @ ys). a \<noteq> 0 \<and> a \<le> PAYLOAD_MASK \<and> cell_of s1 a \<noteq> None"
          using Cons.prems(4) unfolding cells by simp
      qed (use f Cons.prems(3,5) n in auto)
      then show thesis using that by blast
    qed
    have same: "consumed s1 = consumed st" "released s1 = released st" by (simp_all add: fun_eq_iff consumed_def released_def rec)
    note fr = st'(3) [unfolded compact_frame_def same]
    have fin: "cell_links st' e = Some oseo_undefined"
    proof -
      have "e \<notin> set (xs @ ys)" using Cons.prems(3) by auto
      then have "st' e = s1 e" using fr er by blast
      then have "cell_links st' e = cell_links s1 e" by (simp add: cell_links_def cell_of_def)
      then show ?thesis by (simp add: links)
    qed
    have "compact_frame r (set (xs @ e # ys)) (set (e # ys)) st st'"
      unfolding compact_frame_def
    proof (intro conjI)
      show "queue_links st' = queue_links st" "record_of st' = record_of st" "dom st' = dom st"
        using fr rec ql dom by metis+
      have "is_marked st' = (\<lambda>b. is_marked s1 b \<and> \<not> (b \<in> set ys \<and> released st b))" using fr by blast
      then show "is_marked st' = (\<lambda>b. is_marked st b \<and> \<not> (b \<in> set (e # ys) \<and> released st b))" by (auto simp: mk fun_eq_iff)
      show "\<forall>b. b \<noteq> r \<longrightarrow> b \<notin> set (xs @ e # ys) \<longrightarrow> st' b = st b"
      proof (intro allI impI)
        fix b assume b: "b \<noteq> r" "b \<notin> set (xs @ e # ys)"
        then have "st' b = s1 b" using fr by simp
        then show "st' b = st b" using blocks [OF b] by simp
      qed
      show "\<forall>b. b \<noteq> r \<longrightarrow> registry_of st' b = registry_of st b" using fr g1(1) by simp
      show "map_option registry_callback (registry_of st' r) = map_option registry_callback (registry_of st r)"
        using fr g1 Cons.prems(1) by simp
      show "\<forall>b \<in> set (e # ys). consumed st b \<longrightarrow> (\<exists>v. cell_links st' b = Some v \<and> \<not> is_heap v)"
        using fr fin by simp
    qed
    then show ?thesis using step st'(1,2) pe True by (simp add: same)
  qed
qed

definition registries_ok :: "store \<Rightarrow> (u64 \<Rightarrow> u64 list) \<Rightarrow> bool" where
  "registries_ok st C \<longleftrightarrow>
     (\<forall>r. registry_of st r \<noteq> None \<longrightarrow> registry_ok st r (C r)) \<and>
     (\<forall>r s. registry_of st r \<noteq> None \<longrightarrow> registry_of st s \<noteq> None \<longrightarrow> r \<noteq> s \<longrightarrow> set (C r) \<inter> set (C s) = {})"

definition live_cells :: "store \<Rightarrow> u64 list \<Rightarrow> u64 list" where
  "live_cells st = filter (\<lambda>a. \<not> consumed st a)"

text \<open>The cells a pass over the registries \<open>as\<close> gives up.\<close>

definition given_up :: "u64 list \<Rightarrow> store \<Rightarrow> (u64 \<Rightarrow> u64 list) \<Rightarrow> u64 set" where
  "given_up as st C = {b. \<exists>r. r \<in> set as \<and> registry_of st r \<noteq> None \<and> is_marked st r \<and> b \<in> set (C r) \<and> released st b}"

definition compacted :: "u64 list \<Rightarrow> store \<Rightarrow> (u64 \<Rightarrow> u64 list) \<Rightarrow> store \<Rightarrow> (u64 \<Rightarrow> u64 list) \<Rightarrow> bool" where
  "compacted as st C st' C' \<longleftrightarrow>
     registries_ok st' C' \<and>
     C' = (\<lambda>r. if r \<in> set as \<and> registry_of st r \<noteq> None \<and> is_marked st r then live_cells st (C r) else C r) \<and>
     queue_links st' = queue_links st \<and> record_of st' = record_of st \<and>
     is_marked st' = (\<lambda>b. is_marked st b \<and> b \<notin> given_up as st C) \<and>
     (\<forall>b. registry_of st b = None \<longrightarrow> (\<forall>r. registry_of st r \<noteq> None \<longrightarrow> b \<notin> set (C r)) \<longrightarrow> st' b = st b) \<and>
     (\<forall>r b. r \<in> set as \<longrightarrow> registry_of st r \<noteq> None \<longrightarrow> is_marked st r \<longrightarrow> b \<in> set (C r) \<longrightarrow> consumed st b \<longrightarrow>
        (\<exists>v. cell_links st' b = Some v \<and> \<not> is_heap v)) \<and>
     (\<forall>r. map_option registry_callback (registry_of st' r) = map_option registry_callback (registry_of st r)) \<and>
     dom st' = dom st"

lemma registry_cells:
  "registries_ok st C \<Longrightarrow> registry_of st r \<noteq> None \<Longrightarrow> b \<in> set (C r) \<Longrightarrow> cell_of st b \<noteq> None"
  unfolding registries_ok_def registry_ok_def by blast

lemma registry_ok_cong:
  assumes "registry_of st' r = registry_of st r" "\<And>a. a \<in> set C \<Longrightarrow> cell_of st' a = cell_of st a" "registry_ok st r C"
  shows "registry_ok st' r C"
proof -
  have "forward (cell_links st') v C = forward (cell_links st) v C" for v
    using assms(2) by (intro forward_cong) (simp add: cell_links_def)
  then show ?thesis using assms by (auto simp: registry_ok_def)
qed

lemma compacted_one:
  assumes ok: "registries_ok st C" and r: "registry_of st r \<noteq> None" "is_marked st r" and n: "length (C r) < n"
  shows "\<exists>st'. compact_cells n r 0 st = Some st' \<and> compacted [r] st C st' (C(r := live_cells st (C r)))"
proof -
  obtain g where g: "registry_of st r = Some g" using r(1) by blast
  have reg: "registry_ok st r (C r)" using ok r(1) by (simp add: registries_ok_def)
  then have "forward (cell_links st) (cell_head g) ([] @ C r)" "distinct ([] @ C r)"
    "\<forall>a \<in> set ([] @ C r). a \<noteq> 0 \<and> a \<le> PAYLOAD_MASK \<and> cell_of st a \<noteq> None"
    using g by (simp_all add: registry_ok_def)
  from compact_cells_correct [OF g this _ n, of 0] obtain st' where st': "compact_cells n r 0 st = Some st'"
    "registry_ok st' r (live_cells st (C r))" "compact_frame r (set (C r)) (set (C r)) st st'"
    by (auto simp: live_cells_def)
  note fr = st'(3) [unfolded compact_frame_def]
  let ?C = "C(r := live_cells st (C r))"
  have ex: "registry_of st' s = None \<longleftrightarrow> registry_of st s = None" for s
    using fr by (cases "s = r") (auto simp: option.map_disc_iff) 
  have "registries_ok st' ?C"
    unfolding registries_ok_def ex
  proof (intro conjI allI impI)
    fix s assume s: "registry_of st s \<noteq> None"
    show "registry_ok st' s (?C s)"
    proof (cases "s = r")
      case True
      then show ?thesis using st'(2) by simp
    next
      case False
      have old: "registry_ok st s (C s)" using ok s by (simp add: registries_ok_def)
      have "cell_of st' a = cell_of st a" if "a \<in> set (C s)" for a
      proof -
        have "a \<notin> set (C r)" using ok s r(1) False that unfolding registries_ok_def by blast
        moreover have "a \<noteq> r" using registry_cells [OF ok s that] cell_not_registry r(1) by auto
        ultimately have "st' a = st a" using fr by blast
        then show ?thesis by (simp add: cell_of_def)
      qed
      moreover have "registry_of st' s = registry_of st s" using fr False by blast
      ultimately show ?thesis using registry_ok_cong [of st' s st] old False by simp
    qed
  next
    fix s s' assume s: "registry_of st s \<noteq> None" "registry_of st s' \<noteq> None" "s \<noteq> s'"
    then have "set (C s) \<inter> set (C s') = {}" using ok unfolding registries_ok_def by blast
    then show "set (?C s) \<inter> set (?C s') = {}" by (auto simp: live_cells_def)
  qed
  moreover have "?C = (\<lambda>s. if s \<in> set [r] \<and> registry_of st s \<noteq> None \<and> is_marked st s then live_cells st (C s) else C s)"
    using r by auto
  moreover have "given_up [r] st C = {b \<in> set (C r). released st b}" using r by (auto simp: given_up_def)
  moreover have "st' b = st b" if "registry_of st b = None" "\<forall>r. registry_of st r \<noteq> None \<longrightarrow> b \<notin> set (C r)" for b
  proof -
    have "b \<noteq> r" "b \<notin> set (C r)" using that r(1) by blast+
    then show ?thesis using fr by blast
  qed
  moreover have "\<forall>s b. s \<in> set [r] \<longrightarrow> registry_of st s \<noteq> None \<longrightarrow> is_marked st s \<longrightarrow> b \<in> set (C s) \<longrightarrow> consumed st b \<longrightarrow>
      (\<exists>v. cell_links st' b = Some v \<and> \<not> is_heap v)" using fr by simp
  moreover have "map_option registry_callback (registry_of st' s) = map_option registry_callback (registry_of st s)" for s
    using fr by (cases "s = r") simp_all
  ultimately have "compacted [r] st C st' ?C" using fr by (simp add: compacted_def)
  with st'(1) show ?thesis by blast
qed

lemma compacted_none: "registries_ok st C \<Longrightarrow> registry_of st r = None \<or> \<not> is_marked st r \<Longrightarrow> compacted [r] st C st C"
  by (auto simp: compacted_def given_up_def fun_eq_iff)

lemma compacted_trans:
  assumes one: "compacted [r] st C st1 C1" and rest: "compacted as st1 C1 st' C'" and r: "r \<notin> set as" and ok: "registries_ok st C"
  shows "compacted (r # as) st C st' C'"
proof -
  note o = one [unfolded compacted_def] and p = rest [unfolded compacted_def]
  have ex: "registry_of st1 s = None \<longleftrightarrow> registry_of st s = None" for s
    using o by (metis option.map_disc_iff)
  have exc: "cell_of st1 s = None \<longleftrightarrow> cell_of st s = None" for s
    using o by (metis record_of_None)
  have same: "consumed st1 = consumed st" "released st1 = released st" using o by (simp_all add: fun_eq_iff consumed_def released_def)
  have C1: "C1 = (\<lambda>s. if s \<in> set [r] \<and> registry_of st s \<noteq> None \<and> is_marked st s then live_cells st (C s) else C s)"
    using o by blast
  have C': "C' = (\<lambda>s. if s \<in> set as \<and> registry_of st1 s \<noteq> None \<and> is_marked st1 s then live_cells st1 (C1 s) else C1 s)"
    using p by blast
  have mk1: "is_marked st1 = (\<lambda>b. is_marked st b \<and> b \<notin> given_up [r] st C)" using o by blast
  have mkr: "is_marked st1 s = is_marked st s" if "registry_of st s \<noteq> None" for s
  proof -
    have "s \<notin> given_up [r] st C"
      using that registry_cells [OF ok] cell_not_registry unfolding given_up_def mem_Collect_eq by metis
    then show ?thesis by (simp add: mk1)
  qed
  have up: "given_up as st1 C1 \<union> given_up [r] st C = given_up (r # as) st C"
  proof -
    have "C1 s = C s" if "s \<in> set as" for s using r that by (auto simp: C1)
    then have "given_up as st1 C1 = given_up as st C"
      using mkr unfolding given_up_def ex same by (intro Collect_cong ex_cong1) auto
    then show ?thesis by (auto simp: given_up_def)
  qed
  show ?thesis unfolding compacted_def
  proof (intro conjI allI impI)
    show "registries_ok st' C'" using p by blast
    show "C' = (\<lambda>s. if s \<in> set (r # as) \<and> registry_of st s \<noteq> None \<and> is_marked st s then live_cells st (C s) else C s)"
      using r mkr unfolding C' C1 ex by (auto simp: fun_eq_iff live_cells_def same)
    show "queue_links st' = queue_links st" "record_of st' = record_of st" "dom st' = dom st" using o p by metis+
    have "is_marked st' = (\<lambda>b. is_marked st1 b \<and> b \<notin> given_up as st1 C1)" using p by blast
    then show "is_marked st' = (\<lambda>b. is_marked st b \<and> b \<notin> given_up (r # as) st C)" by (auto simp: mk1 fun_eq_iff simp flip: up)
    have out: "st' b = st1 b" if "registry_of st b = None" "\<forall>s. registry_of st s \<noteq> None \<longrightarrow> b \<notin> set (C1 s)" for b
      using p that unfolding ex by blast
    have C1C: "set (C1 s) \<subseteq> set (C s)" for s by (auto simp: C1 live_cells_def)
    show "st' b = st b" if b: "registry_of st b = None" "\<forall>s. registry_of st s \<noteq> None \<longrightarrow> b \<notin> set (C s)" for b
    proof -
      have "st1 b = st b" using o b by blast
      moreover have "\<forall>s. registry_of st s \<noteq> None \<longrightarrow> b \<notin> set (C1 s)" using b(2) C1C by blast
      then have "st' b = st1 b" by (rule out [OF b(1)])
      ultimately show ?thesis by simp
    qed
    show "\<exists>v. cell_links st' b = Some v \<and> \<not> is_heap v"
      if s: "s \<in> set (r # as)" "registry_of st s \<noteq> None" "is_marked st s" "b \<in> set (C s)" "consumed st b" for s b
    proof (cases "s = r")
      case True
      have "\<forall>s b. s \<in> set [r] \<longrightarrow> registry_of st s \<noteq> None \<longrightarrow> is_marked st s \<longrightarrow> b \<in> set (C s) \<longrightarrow> consumed st b \<longrightarrow>
          (\<exists>v. cell_links st1 b = Some v \<and> \<not> is_heap v)" using o by blast
      then have v: "\<exists>v. cell_links st1 b = Some v \<and> \<not> is_heap v" using s True by simp
      have "b \<notin> set (C1 s')" if "registry_of st s' \<noteq> None" for s'
      proof (cases "s' = r")
        case True
        then show ?thesis using s \<open>s = r\<close> by (simp add: C1 live_cells_def)
      next
        case False
        then have "set (C s) \<inter> set (C s') = {}" using ok s(2) that \<open>s = r\<close> unfolding registries_ok_def by blast
        then show ?thesis using s(4) C1C by blast
      qed
      moreover have "registry_of st b = None" using registry_cells [OF ok s(2,4)] by (rule cell_not_registry)
      ultimately have "st' b = st1 b" using out by blast
      then show ?thesis using v by (simp add: cell_links_def cell_of_def)
    next
      case False
      then have "s \<in> set as" "b \<in> set (C1 s)" using s by (auto simp: C1)
      moreover have "registry_of st1 s \<noteq> None" "is_marked st1 s" "consumed st1 b" using s ex mkr same by simp_all
      ultimately show ?thesis using p by blast
    qed
    show "map_option registry_callback (registry_of st' s) = map_option registry_callback (registry_of st s)" for s
      using o p by metis
  qed
qed

text \<open>A collection removes the consumed cells from every marked registry; the cells it gives up are
  those no longer queued.\<close>

lemma compact_finalization_registries_correct:
  assumes "registries_ok st C" "distinct as" "\<And>r. registry_of st r \<noteq> None \<Longrightarrow> length (C r) < n"
  shows "\<exists>st' C'. compact_finalization_registries n as st = Some st' \<and> compacted as st C st' C'"
  using assms
proof (induction as arbitrary: st C)
  case Nil
  then have "compacted [] st C st C" by (auto simp: compacted_def given_up_def)
  then show ?case by auto
next
  case (Cons r as)
  have goal: ?case if one: "compacted [r] st C st1 C1"
    and step: "compact_finalization_registries n (r # as) st = compact_finalization_registries n as st1" for st1 C1
  proof -
    note o = one [unfolded compacted_def]
    have len: "length (C1 s) < n" if "registry_of st1 s \<noteq> None" for s
    proof -
      have "registry_of st s \<noteq> None" using o that by (metis option.map_disc_iff)
      then have "length (C s) < n" by (rule Cons.prems(3))
      moreover have "C1 s = live_cells st (C s) \<or> C1 s = C s" using o by (metis (no_types, lifting))
      then have "length (C1 s) \<le> length (C s)" by (auto simp: live_cells_def)
      ultimately show ?thesis by linarith
    qed
    have "registries_ok st1 C1" using o by blast
    moreover have "distinct as" using Cons.prems(2) by simp
    ultimately obtain st' C' where "compact_finalization_registries n as st1 = Some st'" "compacted as st1 C1 st' C'"
      using Cons.IH [of st1 C1] len by blast
    then show ?thesis using compacted_trans [OF one] step Cons.prems(1,2) by auto
  qed
  show ?case
  proof (cases "registry_of st r = None \<or> \<not> is_marked st r")
    case True
    then show ?thesis using goal [OF compacted_none [OF Cons.prems(1) True]] by (auto split: option.split)
  next
    case False
    then have r: "registry_of st r \<noteq> None" "is_marked st r" by auto
    obtain st1 where "compact_cells n r 0 st = Some st1" "compacted [r] st C st1 (C(r := live_cells st (C r)))"
      using compacted_one [OF Cons.prems(1) r Cons.prems(3) [OF r(1)]] by blast
    then show ?thesis using goal r by (auto split: option.split)
  qed
qed

subsection \<open>Taking a cleanup record\<close>

lemma unlink_queued_correct:
  assumes f: "forward (queue_links st) (queue_head q) (xs @ e # ys)" and tl: "back_link (queue_tail q) (last_of (xs @ e # ys))"
    and d: "distinct (xs @ e # ys)" and ad: "\<forall>a \<in> set (xs @ e # ys). a \<noteq> 0 \<and> a \<le> PAYLOAD_MASK \<and> cell_of st a \<noteq> None"
    and c: "cell_of st e = Some c" and p: "back_link previous (last_of xs)"
    and r: "unlink_queued previous (heap_value e) (cell_queue_next c) (st, q) = (st1, q1)"
  shows "forward (queue_links st1) (queue_head q1) (xs @ ys)" "back_link (queue_tail q1) (last_of (xs @ ys))"
    "record_of st1 = (record_of st)(e \<mapsto> c\<lparr>next_cell := oseo_undefined, cell_queue_next := oseo_undefined, cell_queued := False\<rparr>)"
    "pending_count q1 = pending_count q" "queue_frame st st1" "a \<in> set ys \<Longrightarrow> queue_links st1 a = queue_links st a"
proof -
  have ea: "heap_address (heap_value e) = e" using ad by simp
  have pv: "cell_at st previous \<noteq> None \<longleftrightarrow> xs \<noteq> []" "xs \<noteq> [] \<Longrightarrow> heap_address previous = last xs"
  proof -
    have "previous = heap_value (last xs) \<and> last xs \<in> set xs" if "xs \<noteq> []" using p that by (simp add: back_link_def last_of_def)
    moreover have "\<not> is_heap previous" if "xs = []" using p that by (simp add: back_link_def last_of_def)
    ultimately show "cell_at st previous \<noteq> None \<longleftrightarrow> xs \<noteq> []" "xs \<noteq> [] \<Longrightarrow> heap_address previous = last xs"
      using ad by (cases "xs = []"; auto simp: cell_at_def)+
  qed
  define s0 where "s0 = (if xs = [] then st else update_cell (last xs) (\<lambda>d. d\<lparr>cell_queue_next := cell_queue_next c\<rparr>) st)"
  have st1: "st1 = update_cell e (\<lambda>c. c\<lparr>cell_queue_next := oseo_undefined, cell_queued := False\<rparr>) s0"
    and q1: "queue_head q1 = (if xs = [] then cell_queue_next c else queue_head q)"
      "queue_tail q1 = (if queue_tail q = heap_value e then previous else queue_tail q)" "pending_count q1 = pending_count q"
    using r pv ea by (auto simp: unlink_queued_def Let_def s0_def split: if_splits)
  have ke: "xs \<noteq> [] \<Longrightarrow> last xs \<noteq> e" using d by auto
  obtain k where k: "xs \<noteq> [] \<Longrightarrow> cell_of st (last xs) = Some k" using ad last_in_set by (metis UnCI option.exhaust set_append)
  have c0: "cell_of s0 e = Some c" using c ke k by (auto simp: s0_def)
  have links: "queue_links st1 = (if xs = [] then (queue_links st)(e \<mapsto> oseo_undefined)
      else (queue_links st)(last xs \<mapsto> cell_queue_next c, e \<mapsto> oseo_undefined))"
    using c c0 k by (auto simp: st1 s0_def)
  have "a \<noteq> e \<and> (xs \<noteq> [] \<longrightarrow> a \<noteq> last xs)" if "a \<in> set ys" using d that last_in_set [of xs] by (auto simp: disjoint_iff)
  then show "a \<in> set ys \<Longrightarrow> queue_links st1 a = queue_links st a" by (simp add: links)
  have nx: "queue_links st e = Some (cell_queue_next c)" using c by (simp add: queue_links_def)
  show "forward (queue_links st1) (queue_head q1) (xs @ ys)"
    using forward_unlink [OF d f nx, of "Some oseo_undefined"] by (simp add: links q1(1) split: if_splits)
  have "record_of s0 = record_of st" using k by (auto simp: s0_def fun_eq_iff record_of_def)
  moreover have "record_of st1 = (record_of s0)(e \<mapsto> c\<lparr>next_cell := oseo_undefined, cell_queue_next := oseo_undefined, cell_queued := False\<rparr>)"
    using c0 by (cases c) (simp add: st1)
  ultimately show "record_of st1 = (record_of st)(e \<mapsto> c\<lparr>next_cell := oseo_undefined, cell_queue_next := oseo_undefined, cell_queued := False\<rparr>)"
    by simp
  show "pending_count q1 = pending_count q" by (rule q1(3))
  have "queue_frame st s0" unfolding s0_def by (auto intro: queue_frame_update)
  moreover have "queue_frame s0 st1" unfolding st1 by (rule queue_frame_update) simp
  ultimately show "queue_frame st st1" by (rule queue_frame_trans)
  have "queue_tail q = heap_value e \<longleftrightarrow> ys = []"
  proof
    assume "queue_tail q = heap_value e"
    then have "heap_value (last (xs @ e # ys)) = heap_value e" using tl by (simp add: back_link_def last_of_def)
    then have "last (e # ys) = e" using ad inj_onD [OF heap_value_inj] by (metis (no_types, lifting) heap_address_value last_appendR last_in_set list.distinct(1) Un_iff set_append ea)
    then show "ys = []" using d by (cases "ys = []") auto
  next
    assume "ys = []" then show "queue_tail q = heap_value e" using tl by (simp add: back_link_def last_of_def)
  qed
  then show "back_link (queue_tail q1) (last_of (xs @ ys))"
    using tl p by (cases "ys = []") (auto simp: q1(2) last_of_def)
qed

definition matches :: "store \<Rightarrow> oseo_value \<Rightarrow> u64 \<Rightarrow> bool" where
  "matches st registry a \<longleftrightarrow>
     waiting st a \<and> (tag_of registry = TAG_UNDEFINED \<or> (\<exists>c. record_of st a = Some c \<and> cell_registry c = registry))"

text \<open>The FIFO after taking the first record that matches: what stays, and what leaves.\<close>

fun staying :: "store \<Rightarrow> oseo_value \<Rightarrow> u64 list \<Rightarrow> u64 list" where
  "staying st registry [] = []"
| "staying st registry (a # as) =
     (if matches st registry a then as else if waiting st a then a # staying st registry as else staying st registry as)"

definition taken :: "finalization_cell \<Rightarrow> finalization_cell" where
  "taken c = c\<lparr>cell_queued := False, cell_processed := True, cell_holdings := oseo_undefined\<rparr>"

definition result_of :: "store \<Rightarrow> u64 option \<Rightarrow> (oseo_value \<times> oseo_value) option" where
  "result_of st a = (case a of None \<Rightarrow> None | Some a \<Rightarrow> map_option (\<lambda>c. (cell_registry c, cell_holdings c)) (record_of st a))"

definition records_after :: "store \<Rightarrow> oseo_value \<Rightarrow> u64 list \<Rightarrow> u64 \<rightharpoonup> finalization_cell" where
  "records_after st registry Q = (\<lambda>a.
     if List.find (matches st registry) Q = Some a then map_option taken (record_of st a)
     else if a \<in> set Q \<and> a \<notin> set (staying st registry Q) then map_option (\<lambda>c. c\<lparr>cell_queued := False\<rparr>) (record_of st a)
     else record_of st a)"

lemma staying_subset: "set (staying st registry Q) \<subseteq> set Q"
  by (induction Q) auto

lemma distinct_staying: "distinct Q \<Longrightarrow> distinct (staying st registry Q)"
  using staying_subset by (induction Q) fastforce+

lemma queue_okI:
  assumes "forward (queue_links st1) (queue_head q1) Q" "back_link (queue_tail q1) (last_of Q)"
    "record_of st1 = (record_of st)(e \<mapsto> d)" "\<not> cell_queued d"
    "queue_ok st q (xs @ e # ys)" "Q = xs @ ys" "pending_count q1 = length (filter (waiting st) Q)"
  shows "queue_ok st1 q1 Q"
proof -
  note k = assms(5) [unfolded queue_ok_def]
  have e: "e \<notin> set Q" using k assms(6) by auto
  have "waiting st1 b = waiting st b" if "b \<in> set Q" for b using that e by (auto simp: waiting_def assms(3))
  then have w: "filter (waiting st1) Q = filter (waiting st) Q" by (intro filter_cong) auto
  show ?thesis unfolding queue_ok_def w
  proof (intro conjI)
    show "\<forall>a c. record_of st1 a = Some c \<longrightarrow> cell_queued c = (a \<in> set Q)"
    proof (intro allI impI)
      fix a c assume a: "record_of st1 a = Some c"
      show "cell_queued c = (a \<in> set Q)"
      proof (cases "a = e")
        case True
        then show ?thesis using a assms(3,4) e by simp
      next
        case False
        then have "record_of st a = Some c" using a assms(3) by simp
        then have "cell_queued c = (a \<in> set (xs @ e # ys))" using k by blast
        then show ?thesis using False assms(6) by simp
      qed
    qed
    show "\<forall>a \<in> set Q. record_of st1 a \<noteq> None"
    proof
      fix a assume "a \<in> set Q"
      then have "record_of st a \<noteq> None" using k assms(6) by simp
      then show "record_of st1 a \<noteq> None" using assms(3) by (simp del: record_of_None)
    qed
  qed (use assms k in auto)
qed

lemma records_after_pass:
  assumes "waiting st e" "\<not> matches st registry e" "e \<notin> set ys"
  shows "records_after st registry (e # ys) = records_after st registry ys"
  using assms by (auto simp: records_after_def fun_eq_iff)

lemma records_after_skip:
  assumes w: "\<not> waiting st e" and r: "record_of st e = Some c" and ys: "e \<notin> set ys"
    and rec: "record_of st1 = (record_of st)(e \<mapsto> c\<lparr>cell_queued := False\<rparr>)"
  shows "records_after st1 registry ys = records_after st registry (e # ys)"
    "staying st1 registry ys = staying st registry ys" "result_of st1 (List.find (matches st1 registry) ys) = result_of st (List.find (matches st registry) ys)"
    "filter (waiting st1) ys = filter (waiting st) ys"
proof -
  have wt: "waiting st1 a = waiting st a" and m: "matches st1 registry a = matches st registry a" if "a \<in> set ys" for a
    using that ys by (auto simp: waiting_def matches_def rec)
  show s: "staying st1 registry ys = staying st registry ys"
    using wt m by (induction ys) auto
  have f: "List.find (matches st1 registry) ys = List.find (matches st registry) ys" using m by (intro find_cong) auto
  have fs: "a \<in> set ys" if "List.find (matches st registry) ys = Some a" for a
    using that by (auto simp: find_Some_iff)
  have me: "\<not> matches st registry e" using w by (simp add: matches_def)
  have ns: "e \<notin> set (staying st registry ys)" using staying_subset ys by blast
  show "records_after st1 registry ys = records_after st registry (e # ys)"
  proof
    fix a
    show "records_after st1 registry ys a = records_after st registry (e # ys) a"
    proof (cases "a = e")
      case True
      then have "List.find (matches st registry) ys \<noteq> Some a" using fs ys by auto
      with True show ?thesis using me w ns ys r by (simp add: records_after_def f s rec)
    next
      case False
      then show ?thesis using me w by (simp add: records_after_def f s rec)
    qed
  qed
  show "result_of st1 (List.find (matches st1 registry) ys) = result_of st (List.find (matches st registry) ys)"
    unfolding f using fs ys by (auto simp: result_of_def rec split: option.split)
  show "filter (waiting st1) ys = filter (waiting st) ys" using wt by (intro filter_cong) auto
qed

lemma take_queued_cleanup_correct:
  assumes "queue_ok st q (xs @ rest)" "\<forall>a \<in> set xs. waiting st a \<and> \<not> matches st registry a" "back_link previous (last_of xs)"
    "forward (queue_links st) cursor rest" "length rest < n"
  shows "\<exists>st' q'. take_queued_cleanup n registry previous cursor (st, q) =
      Some (result_of st (List.find (matches st registry) rest), st', q') \<and>
    queue_ok st' q' (xs @ staying st registry rest) \<and> record_of st' = records_after st registry rest \<and> queue_frame st st'"
  using assms
proof (induction rest arbitrary: xs n previous cursor st q)
  case Nil
  obtain m where n: "n = Suc m" using Nil.prems(5) by (cases n) auto
  have "records_after st registry [] = record_of st" by (simp add: records_after_def)
  then show ?case using Nil.prems by (simp add: n cell_at_def result_of_def)
next
  case (Cons e ys)
  obtain m where n: "n = Suc m" "length ys < m" using Cons.prems(5) by (cases n) auto
  note k = Cons.prems(1) [unfolded queue_ok_def]
  have all: "\<forall>a \<in> set (xs @ e # ys). a \<noteq> 0 \<and> a \<le> PAYLOAD_MASK \<and> cell_of st a \<noteq> None" using k by (metis record_of_None)
  obtain c where c: "cell_of st e = Some c" using all by auto
  have cur: "cursor = heap_value e" "heap_address cursor = e" "cell_at st cursor = Some c"
    using Cons.prems(4) all c by (auto simp: cell_at_def)
  have fy: "forward (queue_links st) (cell_queue_next c) ys" 
  proof -
    obtain w where "queue_links st e = Some w" "forward (queue_links st) w ys" using Cons.prems(4) by auto
    then show ?thesis using c by (simp add: queue_links_def [of st e])
  qed
  have d: "distinct (xs @ e # ys)" using k by blast
  have ey: "e \<notin> set ys" "e \<notin> set xs" using d by auto
  have rc: "record_of st e = Some (c\<lparr>next_cell := oseo_undefined, cell_queue_next := oseo_undefined\<rparr>)" using c by (rule record_cell)
  have wt: "waiting st e \<longleftrightarrow> \<not> cell_processed c" using rc by (simp add: waiting_def)
  have mt: "matches st registry e \<longleftrightarrow> \<not> cell_processed c \<and> (tag_of registry = TAG_UNDEFINED \<or> cell_registry c = registry)"
    using rc wt by (simp add: matches_def)
  obtain st1 q1 where u: "unlink_queued previous cursor (cell_queue_next c) (st, q) = (st1, q1)"
    by (cases "unlink_queued previous cursor (cell_queue_next c) (st, q)")
  note un = unlink_queued_correct [OF _ _ d all c Cons.prems(3) u [unfolded cur(1)]]
  have f1: "forward (queue_links st1) (queue_head q1) (xs @ ys)" and t1: "back_link (queue_tail q1) (last_of (xs @ ys))"
    and pc: "pending_count q1 = pending_count q" and fr: "queue_frame st st1"
    using un k by blast+
  let ?c = "c\<lparr>next_cell := oseo_undefined, cell_queue_next := oseo_undefined\<rparr>"
  have rec: "record_of st1 = (record_of st)(e \<mapsto> ?c\<lparr>cell_queued := False\<rparr>)" using un(3) k by (cases c) simp
  consider (pass) "waiting st e" "\<not> matches st registry e" | (skip) "\<not> waiting st e" | (take) "matches st registry e" by blast
  then show ?case
  proof cases
    case pass
    then have step: "take_queued_cleanup n registry previous cursor (st, q) = take_queued_cleanup m registry cursor (cell_queue_next c) (st, q)"
      using cur wt mt by (simp add: n(1))
    have "\<exists>st' q'. take_queued_cleanup m registry cursor (cell_queue_next c) (st, q) =
          Some (result_of st (List.find (matches st registry) ys), st', q') \<and>
        queue_ok st' q' ((xs @ [e]) @ staying st registry ys) \<and> record_of st' = records_after st registry ys \<and> queue_frame st st'"
      by (rule Cons.IH) (use Cons.prems pass cur fy n(2) in \<open>auto simp: back_link_def last_of_def\<close>)
    then show ?thesis using step pass records_after_pass [OF pass ey(1)] by simp
  next
    case skip
    have nm: "\<not> matches st registry e" using skip by (simp add: matches_def)
    have step: "take_queued_cleanup n registry previous cursor (st, q) = take_queued_cleanup m registry previous (cell_queue_next c) (st1, q1)"
      using cur wt mt skip u by (simp add: n(1))
    note sk = records_after_skip [OF skip rc ey(1) rec]
    have pend: "pending_count q1 = length (filter (waiting st) (xs @ ys))" using pc k skip by simp
    have ok1: "queue_ok st1 q1 (xs @ ys)" by (rule queue_okI [OF f1 t1 rec _ Cons.prems(1) refl pend]) simp
    have xs1: "\<forall>a \<in> set xs. waiting st1 a \<and> \<not> matches st1 registry a"
      using Cons.prems(2) ey(2) by (auto simp: waiting_def matches_def rec)
    have fy1: "forward (queue_links st1) (cell_queue_next c) ys"
      using fy forward_cong [of ys "queue_links st1" "queue_links st"] un(6) k by blast
    have "\<exists>st' q'. take_queued_cleanup m registry previous (cell_queue_next c) (st1, q1) =
          Some (result_of st1 (List.find (matches st1 registry) ys), st', q') \<and>
        queue_ok st' q' (xs @ staying st1 registry ys) \<and> record_of st' = records_after st1 registry ys \<and> queue_frame st1 st'"
      by (rule Cons.IH [OF ok1 xs1 Cons.prems(3) fy1 n(2)])
    then show ?thesis using step skip nm queue_frame_trans [OF fr] by (simp add: sk) blast
  next
    case take
    define st2 where "st2 = update_cell e (\<lambda>c. c\<lparr>cell_processed := True, cell_holdings := oseo_undefined\<rparr>) st1"
    define q2 where "q2 = (if pending_count q1 > 0 then q1\<lparr>pending_count := pending_count q1 - 1\<rparr> else q1)"
    have step: "take_queued_cleanup n registry previous cursor (st, q) = Some (Some (cell_registry c, cell_holdings c), st2, q2)"
      using cur wt mt take u by (auto simp: n(1) st2_def q2_def)
    have we: "waiting st e" using take by (simp add: matches_def)
    obtain c1 where c1: "cell_of st1 e = Some c1" "c1\<lparr>next_cell := oseo_undefined, cell_queue_next := oseo_undefined\<rparr> = ?c\<lparr>cell_queued := False\<rparr>"
      using rec by (metis (mono_tags, lifting) fun_upd_same map_option_eq_Some record_of_def)
    have rec2: "record_of st2 = (record_of st)(e \<mapsto> taken ?c)"
    proof -
      have "record_of st2 = (record_of st1)(e \<mapsto> (c1\<lparr>cell_processed := True, cell_holdings := oseo_undefined\<rparr>)\<lparr>next_cell := oseo_undefined, cell_queue_next := oseo_undefined\<rparr>)"
        using c1(1) by (simp add: st2_def)
      also have "(c1\<lparr>cell_processed := True, cell_holdings := oseo_undefined\<rparr>)\<lparr>next_cell := oseo_undefined, cell_queue_next := oseo_undefined\<rparr> = taken ?c"
        using c1(2) by (cases c1; cases c) (simp add: taken_def)
      finally show ?thesis unfolding rec fun_upd_upd .
    qed
    have l2: "queue_links st2 = queue_links st1" using c1(1) by (auto simp: st2_def fun_eq_iff queue_links_def)
    have "pending_count q1 = length (filter (waiting st) (xs @ ys)) + 1" using pc k we by simp
    then have pend: "queue_head q2 = queue_head q1" "queue_tail q2 = queue_tail q1" "pending_count q2 = length (filter (waiting st) (xs @ ys))"
      by (simp_all add: q2_def)
    have "queue_ok st2 q2 (xs @ ys)"
      by (rule queue_okI [OF _ _ rec2 _ Cons.prems(1) refl pend(3)]) (use f1 t1 in \<open>simp_all add: l2 pend taken_def\<close>)
    moreover have "record_of st2 = records_after st registry (e # ys)" using take rc by (auto simp: rec2 records_after_def fun_eq_iff)
    moreover have "queue_frame st st2"
      unfolding st2_def by (rule queue_frame_trans [OF fr]) (rule queue_frame_update, simp)
    ultimately show ?thesis using step take rc by (simp add: result_of_def)
  qed
qed

subsection \<open>Unregistering\<close>

definition registered :: "store \<Rightarrow> oseo_value \<Rightarrow> u64 \<Rightarrow> bool" where
  "registered st token a \<longleftrightarrow> (\<exists>c. record_of st a = Some c \<and> \<not> cell_processed c \<and> cell_token c = token)"

definition unregistered :: "finalization_cell \<Rightarrow> finalization_cell" where
  "unregistered c = c\<lparr>cell_processed := True, cell_target := oseo_undefined, cell_holdings := oseo_undefined, cell_token := oseo_undefined\<rparr>"

lemma length_filter_drop:
  assumes "distinct xs" "\<And>x. x \<in> set xs \<Longrightarrow> x \<noteq> a \<Longrightarrow> P' x = P x" "\<not> P' a" "P a"
  shows "length (filter P' xs) = length (filter P xs) - (if a \<in> set xs then 1 else 0)"
proof (cases "a \<in> set xs")
  case True
  then obtain ys zs where xs: "xs = ys @ a # zs" by (meson split_list)
  then have "a \<notin> set ys" "a \<notin> set zs" using assms(1) by auto
  then have "filter P' ys = filter P ys" "filter P' zs = filter P zs" using assms(2) xs by (auto intro!: filter_cong)
  then show ?thesis using assms(3,4) by (simp add: xs)
next
  case False
  then have "filter P' xs = filter P xs" using assms(2) by (intro filter_cong) auto
  then show ?thesis using False by simp
qed

lemma unregister_cells_correct:
  assumes "queue_ok st q Q" "forward (cell_links st) cursor C" "distinct C" "\<forall>a \<in> set C. a \<le> PAYLOAD_MASK \<and> cell_of st a \<noteq> None" "length C < n"
  shows "\<exists>st' q'. unregister_cells n token cursor removed (st, q) = Some (removed \<or> (\<exists>a \<in> set C. registered st token a), st', q') \<and>
    queue_ok st' q' Q \<and> cell_links st' = cell_links st \<and> queue_links st' = queue_links st \<and> queue_frame st st' \<and>
    record_of st' = (\<lambda>a. if a \<in> set C \<and> registered st token a then map_option unregistered (record_of st a) else record_of st a)"
  using assms
proof (induction C arbitrary: st q cursor removed n)
  case Nil
  obtain m where n: "n = Suc m" using Nil.prems(5) by (cases n) auto
  then show ?case using Nil.prems by (simp add: cell_at_def)
next
  case (Cons a C)
  obtain m where n: "n = Suc m" "length C < m" using Cons.prems(5) by (cases n) auto
  obtain c where c: "cell_of st a = Some c" using Cons.prems(4) by auto
  have cur: "heap_address cursor = a" "cell_at st cursor = Some c" using Cons.prems(2,4) c by (auto simp: cell_at_def)
  let ?c = "c\<lparr>next_cell := oseo_undefined, cell_queue_next := oseo_undefined\<rparr>"
  have rc: "record_of st a = Some ?c" using c by (rule record_cell)
  have hit: "registered st token a \<longleftrightarrow> \<not> (cell_processed c \<or> cell_token c \<noteq> token)" by (simp add: registered_def rc)
  obtain w where "cell_links st a = Some w" "forward (cell_links st) w C" using Cons.prems(2) by auto
  then have f: "forward (cell_links st) (next_cell c) C" using c by (simp add: cell_links_def [of st a])
  have fresh: "a \<notin> set C" using Cons.prems(3) by simp
  show ?case
  proof (cases "registered st token a")
    case False
    then have step: "unregister_cells n token cursor removed (st, q) = unregister_cells m token (next_cell c) removed (st, q)"
      using hit cur by (simp add: n(1) Let_def)
    have "\<exists>st' q'. unregister_cells m token (next_cell c) removed (st, q) = Some (removed \<or> (\<exists>a \<in> set C. registered st token a), st', q') \<and>
        queue_ok st' q' Q \<and> cell_links st' = cell_links st \<and> queue_links st' = queue_links st \<and> queue_frame st st' \<and>
        record_of st' = (\<lambda>a. if a \<in> set C \<and> registered st token a then map_option unregistered (record_of st a) else record_of st a)"
      by (rule Cons.IH [OF Cons.prems(1) f]) (use Cons.prems n in auto)
    then obtain st' q' where r: "unregister_cells m token (next_cell c) removed (st, q) = Some (removed \<or> (\<exists>a \<in> set C. registered st token a), st', q')"
      "queue_ok st' q' Q" "cell_links st' = cell_links st" "queue_links st' = queue_links st" "queue_frame st st'"
      "record_of st' = (\<lambda>a. if a \<in> set C \<and> registered st token a then map_option unregistered (record_of st a) else record_of st a)" by blast
    have "record_of st' = (\<lambda>b. if b \<in> set (a # C) \<and> registered st token b then map_option unregistered (record_of st b) else record_of st b)"
      using False fresh by (auto simp: r(6) fun_eq_iff)
    then show ?thesis using step r False by simp
  next
    case True
    define s1 where "s1 = update_cell a (\<lambda>c. c\<lparr>cell_processed := True, cell_target := oseo_undefined,
      cell_holdings := oseo_undefined, cell_token := oseo_undefined\<rparr>) st"
    define q1 where "q1 = (if cell_queued c \<and> pending_count q > 0 then q\<lparr>pending_count := pending_count q - 1\<rparr> else q)"
    have step: "unregister_cells n token cursor removed (st, q) = unregister_cells m token (next_cell c) True (s1, q1)"
      using hit True cur by (simp add: n(1) Let_def s1_def q1_def)
    have rec: "record_of s1 = (record_of st)(a \<mapsto> unregistered ?c)" using c by (cases c) (simp add: s1_def unregistered_def)
    have links: "cell_links s1 = cell_links st" "queue_links s1 = queue_links st"
      using c by (auto simp: s1_def fun_eq_iff cell_links_def queue_links_def)
    have fr: "queue_frame st s1" unfolding s1_def by (rule queue_frame_update) simp
    note k = Cons.prems(1) [unfolded queue_ok_def]
    have qa: "cell_queued c \<longleftrightarrow> a \<in> set Q"
    proof -
      have "cell_queued ?c = (a \<in> set Q)" using k rc by blast
      then show ?thesis by simp
    qed
    have "length (filter (waiting s1) Q) = length (filter (waiting st) Q) - (if a \<in> set Q then 1 else 0)"
    proof (rule length_filter_drop)
      show "distinct Q" using k by blast
      show "waiting s1 x = waiting st x" if "x \<noteq> a" for x using that by (simp add: waiting_def rec)
      show "\<not> waiting s1 a" by (simp add: waiting_def rec unregistered_def)
      show "waiting st a" using True rc by (simp add: waiting_def registered_def)
    qed
    moreover have "a \<in> set Q \<Longrightarrow> waiting st a" using True rc by (simp add: waiting_def registered_def)
    then have "a \<in> set Q \<Longrightarrow> pending_count q > 0" using k by (auto simp: filter_empty_conv)
    ultimately have pend: "pending_count q1 = length (filter (waiting s1) Q)" using k qa by (auto simp: q1_def)
    have ok1: "queue_ok s1 q1 Q" unfolding queue_ok_def
    proof (intro conjI)
      show "\<forall>b d. record_of s1 b = Some d \<longrightarrow> cell_queued d = (b \<in> set Q)"
        using k qa by (auto simp: rec unregistered_def)
      show "\<forall>b \<in> set Q. record_of s1 b \<noteq> None" using k unfolding rec by (simp del: record_of_None not_None_eq)
    qed (use k pend links in \<open>auto simp: q1_def\<close>)
    have same: "registered s1 token b = registered st token b" if "b \<in> set C" for b
      using that fresh by (auto simp: registered_def rec)
    have f1: "forward (cell_links s1) (next_cell c) C" using f by (simp add: links)
    have ex1: "\<forall>b \<in> set C. b \<le> PAYLOAD_MASK \<and> cell_of s1 b \<noteq> None"
      using Cons.prems(4) fr by (simp add: queue_frame_def) (metis domIff not_None_eq)
    obtain st' q' where r: "unregister_cells m token (next_cell c) True (s1, q1) = Some (True, st', q')"
      "queue_ok st' q' Q" "cell_links st' = cell_links s1" "queue_links st' = queue_links s1" "queue_frame s1 st'"
      "record_of st' = (\<lambda>a. if a \<in> set C \<and> registered s1 token a then map_option unregistered (record_of s1 a) else record_of s1 a)"
      using Cons.IH [OF ok1 f1 _ ex1 n(2), of True] Cons.prems(3) by auto
    have "record_of st' = (\<lambda>b. if b \<in> set (a # C) \<and> registered st token b then map_option unregistered (record_of st b) else record_of st b)"
      using True fresh rc same by (auto simp: r(6) rec fun_eq_iff)
    then show ?thesis using step r True links queue_frame_trans [OF fr r(5)] by simp
  qed
qed

lemma finalization_unregister_correct:
  assumes "queue_ok st q Q" "registry_ok st r C" "r \<le> PAYLOAD_MASK" "is_heap token" "length C < n"
  shows "\<exists>st' q'. finalization_unregister n (heap_value r) token (st, q) = Some (\<exists>a \<in> set C. registered st token a, st', q') \<and>
    queue_ok st' q' Q \<and> registry_ok st' r C \<and> queue_frame st st' \<and>
    record_of st' = (\<lambda>a. if a \<in> set C \<and> registered st token a then map_option unregistered (record_of st a) else record_of st a)"
proof -
  obtain g where g: "registry_of st r = Some g" "forward (cell_links st) (cell_head g) C" "back_link (cell_tail g) (last_of C)"
    using assms(2) by (auto simp: registry_ok_def)
  have d: "distinct C" "\<forall>a \<in> set C. a \<le> PAYLOAD_MASK \<and> cell_of st a \<noteq> None" using assms(2) by (auto simp: registry_ok_def)
  obtain st' q' where r: "unregister_cells n token (cell_head g) False (st, q) = Some (\<exists>a \<in> set C. registered st token a, st', q')"
    "queue_ok st' q' Q" "cell_links st' = cell_links st" "queue_frame st st'"
    "record_of st' = (\<lambda>a. if a \<in> set C \<and> registered st token a then map_option unregistered (record_of st a) else record_of st a)"
    using unregister_cells_correct [OF assms(1) g(2) d assms(5), of token False] by auto
  have "cell_of st' a \<noteq> None \<longleftrightarrow> cell_of st a \<noteq> None" for a using r(4) unfolding queue_frame_def by (metis domIff)
  moreover have "registry_of st' = registry_of st" using r(4) by (simp add: queue_frame_def)
  ultimately have "registry_ok st' r C" using assms(2) unfolding registry_ok_def r(3) by simp
  then show ?thesis using r g(1) assms(3,4) by (simp add: finalization_unregister_def)
qed

end
