(* ===== verification/Strings.thy ===== *)
theory Strings
  imports Oseo_Prelude
begin

text \<open>
  The parts of \<open>runtime_string.c\<close> that need no heap: the ceiling on lengths, the growable buffer
  \<open>OseoStringBuilder\<close> every result is assembled in, content equality, ASCII name matching and the
  recognition of canonical array indexes. A string is the list of its UTF-16 code units.
  \<open>unit_sink\<close> is the contract of an append that the clients of the builder (the URI functions,
  BigInt text) rely on.
\<close>

definition MAX_STRING_LENGTH :: nat where
  "MAX_STRING_LENGTH = 536870888"

definition validate_string_length :: "nat \<Rightarrow> rt_error + unit" where
  "validate_string_length n =
     (if n > MAX_STRING_LENGTH then Inl (LanguageError ERROR_RANGE ''Invalid string length.'') else Inr ())"

subsection \<open>The builder\<close>

text \<open>\<open>length\<close> is the length of the units written so far.\<close>

record string_builder =
  builder_units :: "u16 list"
  builder_capacity :: nat

definition empty_builder :: string_builder where
  "empty_builder = \<lparr>builder_units = [], builder_capacity = 0\<rparr>"

text \<open>The growth loop; the capacity it starts from is never zero.\<close>

function grow_capacity :: "nat \<Rightarrow> nat \<Rightarrow> nat" where
  "grow_capacity required cap =
     (if cap < required \<and> 0 < cap then
        if cap > MAX_STRING_LENGTH div 2 then required
        else grow_capacity required (cap * 2)
      else cap)"
  by auto

termination by (relation "measure (\<lambda>(required, cap). required - cap)") auto

declare grow_capacity.simps [simp del]

text \<open>\<open>grants\<close> is the host's answer to \<open>realloc\<close>.\<close>

definition string_builder_reserve :: "(nat \<Rightarrow> bool) \<Rightarrow> string_builder \<Rightarrow> nat \<Rightarrow> rt_error + string_builder" where
  "string_builder_reserve grants b additional =
     (if additional > SIZE_MAX - length (builder_units b)
      then Inl (Diagnostic ''OSEO2001'' ''String allocation is too large.'')
      else
        let required = length (builder_units b) + additional
        in case validate_string_length required of
             Inl e \<Rightarrow> Inl e
           | Inr _ \<Rightarrow>
               if required \<le> builder_capacity b then Inr b
               else
                 let cap = grow_capacity required (if builder_capacity b = 0 then 16 else builder_capacity b)
                 in if grants (cap * 2) then Inr (b\<lparr>builder_capacity := cap\<rparr>)
                    else Inl (Diagnostic ''OSEO2001'' ''String allocation failed.''))"

definition string_builder_append :: "(nat \<Rightarrow> bool) \<Rightarrow> string_builder \<Rightarrow> u16 list \<Rightarrow> rt_error + string_builder" where
  "string_builder_append grants b us =
     (if length us = 0 then Inr b
      else case string_builder_reserve grants b (length us) of
             Inl e \<Rightarrow> Inl e
           | Inr b \<Rightarrow> Inr (b\<lparr>builder_units := builder_units b @ us\<rparr>))"

definition string_builder_append_unit :: "(nat \<Rightarrow> bool) \<Rightarrow> string_builder \<Rightarrow> u16 \<Rightarrow> rt_error + string_builder" where
  "string_builder_append_unit grants b u =
     (case string_builder_reserve grants b 1 of
        Inl e \<Rightarrow> Inl e
      | Inr b \<Rightarrow> Inr (b\<lparr>builder_units := builder_units b @ [u]\<rparr>))"

text \<open>The block of a builder holds its units and is never larger than the ceiling.\<close>

definition builder_ok :: "string_builder \<Rightarrow> bool" where
  "builder_ok b \<longleftrightarrow> length (builder_units b) \<le> builder_capacity b \<and> builder_capacity b \<le> MAX_STRING_LENGTH"

lemma builder_ok_empty [simp]: "builder_ok empty_builder" "builder_units empty_builder = []"
  by (simp_all add: builder_ok_def empty_builder_def)

lemma grow_capacity_bounds:
  assumes "required \<le> MAX_STRING_LENGTH" "0 < cap" "cap \<le> MAX_STRING_LENGTH"
  shows "required \<le> grow_capacity required cap \<and> grow_capacity required cap \<le> MAX_STRING_LENGTH"
  using assms
proof (induction required cap rule: grow_capacity.induct)
  case (1 required cap)
  show ?case
  proof (cases "cap < required \<and> \<not> cap > MAX_STRING_LENGTH div 2")
    case True
    then have "cap * 2 \<le> MAX_STRING_LENGTH" by (simp add: MAX_STRING_LENGTH_def)
    with True 1 show ?thesis by (subst (1 2) grow_capacity.simps) simp
  next
    case False
    with 1 show ?thesis by (subst (1 2) grow_capacity.simps) auto
  qed
qed

definition length_error :: rt_error where
  "length_error = LanguageError ERROR_RANGE ''Invalid string length.''"

definition allocation_refused :: rt_error where
  "allocation_refused = Diagnostic ''OSEO2001'' ''String allocation failed.''"

lemma string_builder_reserve_cases:
  assumes ok: "builder_ok b" and n: "n \<le> 2 ^ 62"
  shows "string_builder_reserve grants b n =
      (if length (builder_units b) + n > MAX_STRING_LENGTH then Inl length_error
       else if length (builder_units b) + n \<le> builder_capacity b then Inr b
       else if grants (grow_capacity (length (builder_units b) + n) (if builder_capacity b = 0 then 16 else builder_capacity b) * 2)
         then Inr (b\<lparr>builder_capacity := grow_capacity (length (builder_units b) + n) (if builder_capacity b = 0 then 16 else builder_capacity b)\<rparr>)
         else Inl allocation_refused)"
proof -
  have "length (builder_units b) \<le> 536870888" using ok by (simp add: builder_ok_def MAX_STRING_LENGTH_def)
  then have "\<not> n > SIZE_MAX - length (builder_units b)" using n by (simp add: SIZE_MAX_def)
  then show ?thesis
    unfolding string_builder_reserve_def by (simp add: Let_def validate_string_length_def length_error_def allocation_refused_def)
qed

subsection \<open>The contract of an append\<close>

locale unit_sink =
  fixes append :: "'b \<Rightarrow> u16 list \<Rightarrow> rt_error + 'b"
    and content :: "'b \<Rightarrow> u16 list"
    and sink_ok :: "'b \<Rightarrow> bool"
    and refuses :: "rt_error \<Rightarrow> bool"
  assumes append_ok: "sink_ok b \<Longrightarrow> length us \<le> 8 \<Longrightarrow> append b us = Inr b' \<Longrightarrow> content b' = content b @ us \<and> sink_ok b'"
    and append_short: "sink_ok b \<Longrightarrow> length us \<le> 8 \<Longrightarrow> length (content b) + length us \<le> MAX_STRING_LENGTH \<Longrightarrow>
      append b us = Inl e \<Longrightarrow> refuses e"
    and append_long: "sink_ok b \<Longrightarrow> length us \<le> 8 \<Longrightarrow> length (content b) + length us > MAX_STRING_LENGTH \<Longrightarrow>
      append b us = Inl length_error"
    and content_short: "sink_ok b \<Longrightarrow> length (content b) \<le> MAX_STRING_LENGTH"
begin

text \<open>\<open>writes r b us fin\<close>: from \<open>b\<close>, \<open>r\<close> appends the pieces \<open>us\<close> and then ends as \<open>fin\<close> says; only the
  ceiling or a refusal of the host stops it before.\<close>

definition writes :: "rt_error + 'b \<Rightarrow> 'b \<Rightarrow> u16 list \<Rightarrow> rt_error option \<Rightarrow> bool" where
  "writes r b us fin \<longleftrightarrow>
     (case r of
        Inr b' \<Rightarrow> fin = None \<and> content b' = content b @ us \<and> sink_ok b'
      | Inl e \<Rightarrow> refuses e \<or> (e = length_error \<and> length (content b) + length us > MAX_STRING_LENGTH) \<or>
          (fin = Some e \<and> length (content b) + length us \<le> MAX_STRING_LENGTH))"

lemma writes_done: "sink_ok b \<Longrightarrow> writes (Inr b) b [] None"
  by (simp add: writes_def)

lemma writes_error: "sink_ok b \<Longrightarrow> writes (Inl e) b [] (Some e)"
  using content_short by (simp add: writes_def)

lemma writes_append:
  assumes "sink_ok b" "length us \<le> 8" "\<And>b'. append b us = Inr b' \<Longrightarrow> sink_ok b' \<Longrightarrow> writes (k b') b' vs fin"
  shows "writes (case append b us of Inl e \<Rightarrow> Inl e | Inr b' \<Rightarrow> k b') b (us @ vs) fin"
proof (cases "append b us")
  case (Inl e)
  show ?thesis
  proof (cases "length (content b) + length us \<le> MAX_STRING_LENGTH")
    case True
    then show ?thesis using append_short [OF assms(1,2) True Inl] Inl by (simp add: writes_def)
  next
    case False
    then have "e = length_error" using append_long [OF assms(1,2)] Inl by simp
    then show ?thesis using False Inl by (simp add: writes_def)
  qed
next
  case (Inr b')
  have c: "content b' = content b @ us" "sink_ok b'" using append_ok [OF assms(1,2) Inr] by simp_all
  have "writes (k b') b' vs fin" using assms(3) Inr c(2) by blast
  then show ?thesis using c Inr by (auto simp: writes_def split: sum.splits)
qed

end

text \<open>The builder keeps the contract.\<close>

lemma builder_append_unfold:
  assumes "builder_ok b" "length us \<le> 2 ^ 62" "us \<noteq> []"
  shows "string_builder_append grants b us =
    (if length (builder_units b) + length us > MAX_STRING_LENGTH then Inl length_error
     else if length (builder_units b) + length us \<le> builder_capacity b then Inr (b\<lparr>builder_units := builder_units b @ us\<rparr>)
     else if grants (grow_capacity (length (builder_units b) + length us) (if builder_capacity b = 0 then 16 else builder_capacity b) * 2)
       then Inr (b\<lparr>builder_capacity := grow_capacity (length (builder_units b) + length us) (if builder_capacity b = 0 then 16 else builder_capacity b), builder_units := builder_units b @ us\<rparr>)
       else Inl allocation_refused)"
  using assms by (simp add: string_builder_append_def string_builder_reserve_cases)

definition host_refusal :: "(nat \<Rightarrow> bool) \<Rightarrow> rt_error \<Rightarrow> bool" where
  "host_refusal grants e \<longleftrightarrow> e = allocation_refused \<and> (\<exists>n. \<not> grants n)"

lemma builder_append_cases:
  assumes "builder_ok b" "length us \<le> 2 ^ 62"
  shows "case string_builder_append grants b us of
      Inr b' \<Rightarrow> builder_units b' = builder_units b @ us \<and> builder_ok b'
    | Inl e \<Rightarrow> if length (builder_units b) + length us > MAX_STRING_LENGTH then e = length_error else host_refusal grants e"
proof (cases "us = []")
  case True
  then show ?thesis using assms by (simp add: string_builder_append_def)
next
  case False
  let ?c = "if builder_capacity b = 0 then 16 else builder_capacity b"
  have "0 < ?c" "?c \<le> MAX_STRING_LENGTH" using assms(1) by (auto simp: builder_ok_def MAX_STRING_LENGTH_def)
  then have "length (builder_units b) + length us \<le> MAX_STRING_LENGTH \<Longrightarrow>
      length (builder_units b) + length us \<le> grow_capacity (length (builder_units b) + length us) ?c \<and>
      grow_capacity (length (builder_units b) + length us) ?c \<le> MAX_STRING_LENGTH"
    using grow_capacity_bounds by blast
  then show ?thesis using assms(1) unfolding builder_append_unfold [OF assms False]
    by (auto simp: builder_ok_def host_refusal_def)
qed

interpretation builder: unit_sink "string_builder_append grants" builder_units builder_ok "host_refusal grants"
  for grants
proof
  have short: "length us \<le> 8 \<Longrightarrow> length us \<le> 2 ^ 62" for us :: "u16 list" by simp
  fix b and us :: "u16 list"
  assume b: "builder_ok b" "length us \<le> 8"
  note c = builder_append_cases [OF b(1) short [OF b(2)], of grants]
  show "builder_units b' = builder_units b @ us \<and> builder_ok b'" if "string_builder_append grants b us = Inr b'" for b'
    using c that by simp
  show "host_refusal grants e" if "length (builder_units b) + length us \<le> MAX_STRING_LENGTH" "string_builder_append grants b us = Inl e" for e
    using c that by simp
  show "string_builder_append grants b us = Inl length_error" if "length (builder_units b) + length us > MAX_STRING_LENGTH"
    using c that by (auto simp: builder_ok_def split: sum.splits)
qed (auto simp: builder_ok_def)

subsection \<open>Property key names\<close>

definition ascii_units :: "string \<Rightarrow> u16 list" where
  "ascii_units text = map (\<lambda>c. of_nat (of_char c)) text"

fun same_ascii :: "u16 list \<Rightarrow> u16 list \<Rightarrow> bool" where
  "same_ascii (u # us) (t # ts) = (if u \<noteq> t then False else same_ascii us ts)"
| "same_ascii us ts = True"

definition string_is_ascii :: "u16 list \<Rightarrow> string \<Rightarrow> bool" where
  "string_is_ascii us text = (if length us \<noteq> length text then False else same_ascii us (ascii_units text))"

fun array_index_loop :: "u64 \<Rightarrow> u16 list \<Rightarrow> u64 option" where
  "array_index_loop value [] = Some value"
| "array_index_loop value (u # us) =
     (if u < 0x30 \<or> u > 0x39 then None
      else let value = value * 10 + ucast (u - 0x30)
           in if value > 4294967294 then None else array_index_loop value us)"

definition array_index :: "u16 list \<Rightarrow> u32 option" where
  "array_index us =
     (if length us = 0 \<or> length us > 10 then None
      else if length us > 1 \<and> us ! 0 = 0x30 then None
      else case array_index_loop 0 us of None \<Rightarrow> None | Some value \<Rightarrow> Some (ucast value))"

text \<open>\<open>oseo_internal_string_own_property\<close>: \<open>Some None\<close> for \<open>length\<close>, \<open>Some (Some i)\<close> for the unit \<open>i\<close>.\<close>

definition string_own_property :: "u16 list \<Rightarrow> u16 list \<Rightarrow> u32 option option" where
  "string_own_property us key =
     (if string_is_ascii key ''length'' then Some None
      else case array_index key of
             None \<Rightarrow> None
           | Some candidate \<Rightarrow> if unat candidate \<ge> length us then None else Some (Some candidate))"

text \<open>The decimal representation of a natural number, as \<open>%zu\<close> writes it.\<close>

fun decimal_units :: "nat \<Rightarrow> u16 list" where
  "decimal_units n = (if n < 10 then [0x30 + of_nat n] else decimal_units (n div 10) @ [0x30 + of_nat (n mod 10)])"

declare decimal_units.simps [simp del]

definition decimal_digit :: "u16 \<Rightarrow> bool" where
  "decimal_digit u \<longleftrightarrow> 0x30 \<le> u \<and> u \<le> 0x39"

fun decimal_value :: "nat \<Rightarrow> u16 list \<Rightarrow> nat" where
  "decimal_value n [] = n"
| "decimal_value n (u # us) = decimal_value (n * 10 + (unat u - 48)) us"

lemma digit_value:
  assumes "decimal_digit u" shows "unat u = 48 + (unat u - 48)" "unat u - 48 < 10" "unat (u - 0x30) = unat u - 48"
  using assms by (auto simp: decimal_digit_def word_le_nat_alt unat_sub)

lemma decimal_value_le: "n \<le> decimal_value n us"
proof (induction us arbitrary: n)
  case (Cons u us)
  show ?case using Cons [of "n * 10 + (unat u - 48)"] by simp
qed simp

lemma array_index_loop_value:
  assumes "unat v \<le> 4294967294"
  shows "array_index_loop v us =
    (if (\<forall>u \<in> set us. decimal_digit u) \<and> decimal_value (unat v) us \<le> 4294967294 then Some (of_nat (decimal_value (unat v) us)) else None)"
  using assms
proof (induction us arbitrary: v)
  case (Cons u us)
  show ?case
  proof (cases "decimal_digit u")
    case False
    then show ?thesis by (auto simp: decimal_digit_def not_le)
  next
    case True
    let ?v = "v * 10 + ucast (u - 0x30) :: u64" and ?n = "unat v * 10 + (unat u - 48)"
    have c: "unat (ucast (u - 0x30) :: u64) = unat u - 48" using digit_value(3) [OF True] by (simp add: unat_ucast_le)
    have "unat v * 10 + (unat u - 48) < 2 ^ 64" using Cons.prems digit_value(2) [OF True] by simp
    then have n: "unat ?v = ?n" using c by (simp add: unat_word_ariths)
    have big: "?v > 4294967294 \<longleftrightarrow> ?n > 4294967294" by (simp add: word_less_nat_alt n)
    have step: "array_index_loop v (u # us) = (if ?v > 4294967294 then None else array_index_loop ?v us)"
      using True by (auto simp: decimal_digit_def Let_def)
    show ?thesis
    proof (cases "?n > 4294967294")
      case True
      then have "decimal_value ?n us > 4294967294" using decimal_value_le [of ?n us] by linarith
      then show ?thesis using step True big by simp
    next
      case False
      then have "array_index_loop ?v us = (if (\<forall>u \<in> set us. decimal_digit u) \<and> decimal_value (unat ?v) us \<le> 4294967294
          then Some (of_nat (decimal_value (unat ?v) us)) else None)"
        using n by (intro Cons.IH) simp
      then show ?thesis using step False big True by (simp add: n)
    qed
  qed
qed simp

lemma decimal_value_snoc: "decimal_value n (us @ [u]) = decimal_value n us * 10 + (unat u - 48)"
  by (induction us arbitrary: n) auto

lemma decimal_value_pos: "us \<noteq> [] \<Longrightarrow> decimal_digit (hd us) \<Longrightarrow> hd us \<noteq> 0x30 \<Longrightarrow> 0 < decimal_value 0 us"
proof (cases us)
  case (Cons u us')
  assume "decimal_digit (hd us)" "hd us \<noteq> 0x30"
  then have "unat u \<noteq> 48" "unat u \<ge> 48" using Cons by (auto simp: decimal_digit_def word_le_nat_alt word_unat_eq_iff)
  then show ?thesis using Cons decimal_value_le [of "unat u - 48" us'] by simp
qed simp

lemma digit_unit: "decimal_digit u \<Longrightarrow> 0x30 + of_nat (unat u - 48) = u"
  by (rule word_unat_eq_iff [THEN iffD2]) (use digit_value [of u] in \<open>simp add: unat_word_ariths unsigned_of_nat take_bit_nat_eq_self\<close>)

lemma decimal_units_value:
  assumes "us \<noteq> []" "\<forall>u \<in> set us. decimal_digit u" "length us > 1 \<Longrightarrow> hd us \<noteq> 0x30"
  shows "decimal_units (decimal_value 0 us) = us"
  using assms
proof (induction us rule: rev_induct)
  case (snoc u us)
  show ?case
  proof (cases "us = []")
    case True
    then show ?thesis using snoc.prems digit_value(2) [of u] digit_unit [of u] by (simp add: decimal_units.simps)
  next
    case False
    then have h: "hd us \<noteq> 0x30" "decimal_digit (hd us)" using snoc.prems by (auto simp: hd_append)
    then have pos: "0 < decimal_value 0 us" using False decimal_value_pos by blast
    have d: "decimal_digit u" "unat u - 48 < 10" using snoc.prems digit_value(2) by auto
    have "decimal_units (decimal_value 0 (us @ [u])) = decimal_units (decimal_value 0 us) @ [0x30 + of_nat (unat u - 48)]"
      unfolding decimal_value_snoc using pos d(2) by (subst decimal_units.simps) simp
    also have "\<dots> = us @ [u]" using snoc.IH [OF False] snoc.prems h digit_unit [OF d(1)] by simp
    finally show ?thesis .
  qed
qed simp

lemma small_digit: "n < 10 \<Longrightarrow> decimal_digit (0x30 + of_nat n) \<and> unat (0x30 + of_nat n :: u16) - 48 = n"
proof -
  assume n: "n < 10"
  then have "unat (0x30 + of_nat n :: u16) = 48 + n" by (simp add: unat_word_ariths unsigned_of_nat take_bit_nat_eq_self)
  then show ?thesis using n by (simp add: decimal_digit_def word_le_nat_alt)
qed

lemma decimal_units_props:
  "decimal_units n \<noteq> [] \<and> (\<forall>u \<in> set (decimal_units n). decimal_digit u) \<and> decimal_value 0 (decimal_units n) = n \<and>
   (length (decimal_units n) > 1 \<longrightarrow> hd (decimal_units n) \<noteq> 0x30) \<and> (n < 10 \<longleftrightarrow> length (decimal_units n) = 1) \<and>
   (n \<noteq> 0 \<longrightarrow> hd (decimal_units n) \<noteq> 0x30)"
proof (induction n rule: decimal_units.induct)
  case (1 n)
  show ?case
  proof (cases "n < 10")
    case True
    then have "0 < n \<Longrightarrow> (of_nat n :: u16) \<noteq> 0" by (simp add: word_unat_eq_iff unsigned_of_nat take_bit_nat_eq_self)
    then show ?thesis using True small_digit [OF True] by (simp add: decimal_units.simps [of n])
  next
    case False
    note ih = 1 [OF False]
    have "n mod 10 < 10" by simp
    note d = small_digit [OF this]
    have "n div 10 \<noteq> 0" using False by simp
    then show ?thesis using ih False d by (auto simp: decimal_units.simps [of n] decimal_value_snoc)
  qed
qed

lemma length_decimal_units: "0 < k \<Longrightarrow> n < 10 ^ k \<Longrightarrow> length (decimal_units n) \<le> k"
proof (induction k arbitrary: n)
  case (Suc k)
  show ?case
  proof (cases "n < 10")
    case True
    then show ?thesis by (simp add: decimal_units.simps)
  next
    case False
    then have "0 < k" using Suc.prems by (cases k) auto
    moreover have "n div 10 < 10 ^ k" using Suc.prems by (simp add: less_mult_imp_div_less)
    ultimately show ?thesis using Suc.IH [of "n div 10"] False by (simp add: decimal_units.simps [of n])
  qed
qed simp

text \<open>A key is the array index \<open>i\<close> exactly when it is the decimal representation of \<open>i\<close> and \<open>i\<close> is
  below \<open>2^32 - 1\<close>.\<close>

lemma array_index_iff: "array_index us = Some i \<longleftrightarrow> us = decimal_units (unat i) \<and> unat i < 2 ^ 32 - 1"
proof
  assume "array_index us = Some i"
  then have a: "us \<noteq> []" "\<not> (length us > 1 \<and> us ! 0 = 0x30)" "(\<forall>u \<in> set us. decimal_digit u)" "decimal_value 0 us \<le> 4294967294"
    "i = ucast (of_nat (decimal_value 0 us) :: u64)"
    using array_index_loop_value [of 0 us] by (auto simp: array_index_def split: if_splits)
  have i: "unat i = decimal_value 0 us" using a(4,5)
    by (simp add: unat_ucast_mod unsigned_of_nat take_bit_nat_eq_self)
  have "decimal_units (decimal_value 0 us) = us" using a by (intro decimal_units_value) (auto simp: hd_conv_nth)
  with i a(4) show "us = decimal_units (unat i) \<and> unat i < 2 ^ 32 - 1" by simp
next
  assume a: "us = decimal_units (unat i) \<and> unat i < 2 ^ 32 - 1"
  note d = decimal_units_props [of "unat i"]
  have "length us \<le> 10" using a length_decimal_units [of 10 "unat i"] by simp
  moreover have "us \<noteq> []" "\<not> (length us > 1 \<and> us ! 0 = 0x30)" using a d by (auto simp: hd_conv_nth)
  moreover have "array_index_loop 0 us = Some (of_nat (unat i))"
    using a d by (simp add: array_index_loop_value)
  moreover have "ucast (of_nat (unat i) :: u64) = i"
    by (rule word_unat_eq_iff [THEN iffD2]) (simp add: unat_ucast_mod unsigned_of_nat take_bit_nat_eq_self less_le_trans [OF unsigned_less])
  ultimately show "array_index us = Some i" by (simp add: array_index_def)
qed

lemma same_ascii_eq: "length us = length ts \<Longrightarrow> same_ascii us ts \<longleftrightarrow> us = ts"
  by (induction us ts rule: list_induct2) auto

lemma string_is_ascii_eq: "string_is_ascii us text \<longleftrightarrow> us = ascii_units text"
proof -
  have "length (ascii_units text) = length text" by (simp add: ascii_units_def)
  then show ?thesis using same_ascii_eq [of us "ascii_units text"] by (auto simp: string_is_ascii_def)
qed

end
