(* ===== verification/Uri.thy ===== *)
theory Uri
  imports Strings
begin

text \<open>
  The global string functions of \<open>runtime_uri.c\<close>: \<open>encodeURI\<close>, \<open>encodeURIComponent\<close>, \<open>decodeURI\<close>,
  \<open>decodeURIComponent\<close>, \<open>escape\<close> and \<open>unescape\<close>, with the UTF-8 transformation they share. The
  code walks a string by an index; here the units from the index on are the list that is
  consumed. Every result is assembled in a builder.
\<close>

datatype uri_operation =
    URI_DECODE_URI | URI_DECODE_URI_COMPONENT | URI_ENCODE_URI | URI_ENCODE_URI_COMPONENT | URI_ESCAPE | URI_UNESCAPE

definition uri_reserved_units :: "u16 list" where
  "uri_reserved_units = ascii_units '';/?:@&=+$,#''"

definition uri_unreserved_marks :: "u16 list" where
  "uri_unreserved_marks = [0x2d, 0x2e, 0x21, 0x7e, 0x2a, 0x27, 0x28, 0x29]"

definition uri_member :: "u16 list \<Rightarrow> u16 \<Rightarrow> bool" where
  "uri_member S unit = (if unit = 0 \<or> unit > 0x7f then False else unit \<in> set S)"

definition word_character :: "u16 \<Rightarrow> bool" where
  "word_character unit \<longleftrightarrow>
     0x41 \<le> unit \<and> unit \<le> 0x5a \<or> 0x61 \<le> unit \<and> unit \<le> 0x7a \<or> 0x30 \<le> unit \<and> unit \<le> 0x39 \<or> unit = 0x5f"

definition uri_always_unescaped :: "u16 \<Rightarrow> bool" where
  "uri_always_unescaped unit = (word_character unit \<or> uri_member uri_unreserved_marks unit)"

definition uri_reserved :: "u16 \<Rightarrow> bool" where
  "uri_reserved unit = uri_member uri_reserved_units unit"

definition uri_error :: "string \<Rightarrow> rt_error" where
  "uri_error message = LanguageError ERROR_URI message"

definition uri_utf8_octets :: "u32 \<Rightarrow> u8 list" where
  "uri_utf8_octets code_point =
     (if code_point \<le> 0x7f then [ucast code_point]
      else if code_point \<le> 0x7ff then
        [ucast (0xc0 OR drop_bit 6 code_point), ucast (0x80 OR (code_point AND 0x3f))]
      else if code_point \<le> 0xffff then
        [ucast (0xe0 OR drop_bit 12 code_point), ucast (0x80 OR (drop_bit 6 code_point AND 0x3f)),
         ucast (0x80 OR (code_point AND 0x3f))]
      else
        [ucast (0xf0 OR drop_bit 18 code_point), ucast (0x80 OR (drop_bit 12 code_point AND 0x3f)),
         ucast (0x80 OR (drop_bit 6 code_point AND 0x3f)), ucast (0x80 OR (code_point AND 0x3f))])"

definition uri_utf8_code_point :: "u8 list \<Rightarrow> u32 option" where
  "uri_utf8_code_point octets =
     (if \<exists>octet \<in> set (tl octets). octet < 0x80 \<or> octet > 0xbf then None
      else if length octets = 2 then
        let v = push_bit 6 (ucast (octets ! 0 AND 0x1f)) OR ucast (octets ! 1 AND 0x3f)
        in if v < 0x80 then None else Some v
      else if length octets = 3 then
        let v = push_bit 12 (ucast (octets ! 0 AND 0x0f)) OR push_bit 6 (ucast (octets ! 1 AND 0x3f)) OR
              ucast (octets ! 2 AND 0x3f)
        in if v < 0x800 then None else if 0xd800 \<le> v \<and> v \<le> 0xdfff then None else Some v
      else
        let v = push_bit 18 (ucast (octets ! 0 AND 0x07)) OR push_bit 12 (ucast (octets ! 1 AND 0x3f)) OR
              push_bit 6 (ucast (octets ! 2 AND 0x3f)) OR ucast (octets ! 3 AND 0x3f)
        in if v < 0x10000 \<or> v > 0x10ffff then None else Some v)"

definition uri_hex_digit :: "u16 \<Rightarrow> nat" where
  "uri_hex_digit unit =
     (if 0x30 \<le> unit \<and> unit \<le> 0x39 then unat (unit - 0x30)
      else if 0x41 \<le> unit \<and> unit \<le> 0x46 then unat (unit - 0x41) + 10
      else if 0x61 \<le> unit \<and> unit \<le> 0x66 then unat (unit - 0x61) + 10
      else 16)"

definition uri_hex_octet :: "u16 \<Rightarrow> u16 \<Rightarrow> u8 option" where
  "uri_hex_octet first second =
     (let high = uri_hex_digit first; low = uri_hex_digit second
      in if high > 15 \<or> low > 15 then None else Some (of_nat (high * 16 + low)))"

definition hex_digits :: "u16 list" where
  "hex_digits = ascii_units ''0123456789ABCDEF''"

subsection \<open>Encoding\<close>

fun append_octets :: "(nat \<Rightarrow> bool) \<Rightarrow> u8 list \<Rightarrow> string_builder \<Rightarrow> rt_error + string_builder" where
  "append_octets grants [] b = Inr b"
| "append_octets grants (octet # octets) b =
     (case string_builder_append grants b
         [0x25, hex_digits ! unat (drop_bit 4 octet), hex_digits ! unat (octet AND 0x0f)] of
        Inl e \<Rightarrow> Inl e
      | Inr b \<Rightarrow> append_octets grants octets b)"

definition surrogate_pair :: "u16 \<Rightarrow> u16 \<Rightarrow> u32" where
  "surrogate_pair high low = 0x10000 + push_bit 10 (ucast high - 0xd800) + (ucast low - 0xdc00)"

definition high_surrogate :: "u16 \<Rightarrow> bool" where
  "high_surrogate unit \<longleftrightarrow> 0xd800 \<le> unit \<and> unit \<le> 0xdbff"

definition low_surrogate :: "u16 \<Rightarrow> bool" where
  "low_surrogate unit \<longleftrightarrow> 0xdc00 \<le> unit \<and> unit \<le> 0xdfff"

fun uri_encode :: "(nat \<Rightarrow> bool) \<Rightarrow> bool \<Rightarrow> u16 list \<Rightarrow> string_builder \<Rightarrow> rt_error + string_builder" where
  "uri_encode grants escape_reserved [] b = Inr b"
| "uri_encode grants escape_reserved (unit # rest) b =
     (if uri_always_unescaped unit \<or> \<not> escape_reserved \<and> uri_reserved unit then
        case string_builder_append grants b [unit] of
          Inl e \<Rightarrow> Inl e
        | Inr b \<Rightarrow> uri_encode grants escape_reserved rest b
      else if high_surrogate unit \<and> rest \<noteq> [] \<and> low_surrogate (hd rest) then
        case append_octets grants (uri_utf8_octets (surrogate_pair unit (hd rest))) b of
          Inl e \<Rightarrow> Inl e
        | Inr b \<Rightarrow> uri_encode grants escape_reserved (tl rest) b
      else if 0xd800 \<le> unit \<and> unit \<le> 0xdfff then Inl (uri_error ''URI encoding received an unpaired surrogate.'')
      else
        case append_octets grants (uri_utf8_octets (ucast unit)) b of
          Inl e \<Rightarrow> Inl e
        | Inr b \<Rightarrow> uri_encode grants escape_reserved rest b)"

subsection \<open>Decoding\<close>

lemma bits_shifted_out:
  assumes "(octet :: u8) AND 0x80 \<noteq> 0"
  shows "card {n. bit (push_bit 1 octet) n} < card {n. bit octet n}"
proof -
  have fin: "finite {n. bit octet n}" by (rule finite_subset [of _ "{..<8}"]) (auto dest: bit_imp_le_length)
  have top: "bit octet 7"
  proof -
    have e: "(0x80 :: u8) = 2 ^ 7" by simp
    have "octet AND 2 ^ 7 \<noteq> 0" using assms unfolding e .
    then obtain n where "bit (octet AND 2 ^ 7) n" unfolding bit_eq_iff by auto
    then have "bit octet n" "bit (2 ^ 7 :: u8) n" unfolding bit_and_iff by blast+
    then show ?thesis unfolding bit_exp_iff by simp
  qed
  have "{n. bit (push_bit 1 octet) n} \<subseteq> Suc ` ({n. bit octet n} - {7})"
  proof
    fix n assume "n \<in> {n. bit (push_bit 1 octet) n}"
    then have b: "bit (push_bit 1 octet) n" by (rule CollectD)
    then have "n < 8" using bit_imp_le_length [OF b] by simp
    moreover have "1 \<le> n" "bit octet (n - 1)" using b unfolding bit_push_bit_iff by blast+
    ultimately show "n \<in> Suc ` ({n. bit octet n} - {7})" by (intro image_eqI [of _ _ "n - 1"]) auto
  qed
  then have "card {n. bit (push_bit 1 octet) n} \<le> card (Suc ` ({n. bit octet n} - {7}))"
    using fin by (intro card_mono) auto
  also have "\<dots> = card ({n. bit octet n} - {7})" by (rule card_image) simp
  also have "\<dots> < card {n. bit octet n}" using fin top by (intro psubset_card_mono) auto
  finally show ?thesis .
qed

text \<open>The loop \<open>for (probe = octets[0]; probe & 0x80; probe <<= 1)\<close>: the leading 1 bits.\<close>

function leading_ones :: "u8 \<Rightarrow> nat" where
  "leading_ones octet = (if octet AND 0x80 \<noteq> 0 then Suc (leading_ones (push_bit 1 octet)) else 0)"
  by auto

termination by (relation "measure (\<lambda>octet. card {n. bit octet n})") (use bits_shifted_out in auto)

declare leading_ones.simps [simp del]

text \<open>The continuation escapes of a sequence: their octets and what follows them.\<close>

fun continuation :: "nat \<Rightarrow> u16 list \<Rightarrow> (u8 list \<times> u16 list) option" where
  "continuation 0 rest = Some ([], rest)"
| "continuation (Suc n) (percent # h # l # rest) =
     (if percent \<noteq> 0x25 then None
      else case uri_hex_octet h l of
             None \<Rightarrow> None
           | Some octet \<Rightarrow>
               (case continuation n rest of None \<Rightarrow> None | Some (octets, rest) \<Rightarrow> Some (octet # octets, rest)))"
| "continuation (Suc n) rest = None"

definition utf16_units :: "u32 \<Rightarrow> u16 list" where
  "utf16_units code_point =
     (if code_point \<le> 0xffff then [ucast code_point]
      else let remainder = code_point - 0x10000
           in [ucast (0xd800 + drop_bit 10 remainder), ucast (0xdc00 + (remainder AND 0x3ff))])"

lemma continuation_shorter: "continuation n rest = Some (octets, rest') \<Longrightarrow> length rest' \<le> length rest"
  by (induction n rest arbitrary: octets rest' rule: continuation.induct) (fastforce split: if_splits option.splits prod.splits)+

definition first_octet :: "u16 list \<Rightarrow> u8 option" where
  "first_octet rest = (case rest of h # l # _ \<Rightarrow> uri_hex_octet h l | _ \<Rightarrow> None)"

definition malformed_escape :: rt_error where
  "malformed_escape = uri_error ''URI decoding received a malformed escape sequence.''"

definition malformed_utf8 :: rt_error where
  "malformed_utf8 = uri_error ''URI decoding received a malformed UTF-8 sequence.''"

function uri_decode :: "(nat \<Rightarrow> bool) \<Rightarrow> bool \<Rightarrow> u16 list \<Rightarrow> string_builder \<Rightarrow> rt_error + string_builder" where
  "uri_decode grants preserve_reserved [] b = Inr b"
| "uri_decode grants preserve_reserved (unit # rest) b =
     (if unit \<noteq> 0x25 then
        case string_builder_append grants b [unit] of
          Inl e \<Rightarrow> Inl e
        | Inr b \<Rightarrow> uri_decode grants preserve_reserved rest b
      else
        case first_octet rest of
          None \<Rightarrow> Inl malformed_escape
        | Some octet \<Rightarrow>
            let sequence_length = leading_ones octet
            in if sequence_length = 0 then
                 case string_builder_append grants b
                     (if preserve_reserved \<and> uri_reserved (ucast octet) then unit # take 2 rest else [ucast octet]) of
                   Inl e \<Rightarrow> Inl e
                 | Inr b \<Rightarrow> uri_decode grants preserve_reserved (drop 2 rest) b
               else if sequence_length = 1 \<or> sequence_length > 4 then Inl malformed_utf8
               else
                 case continuation (sequence_length - 1) (drop 2 rest) of
                   None \<Rightarrow> Inl malformed_escape
                 | Some (octets, rest) \<Rightarrow>
                     (case uri_utf8_code_point (octet # octets) of
                        None \<Rightarrow> Inl malformed_utf8
                      | Some code_point \<Rightarrow>
                          (case string_builder_append grants b (utf16_units code_point) of
                             Inl e \<Rightarrow> Inl e
                           | Inr b \<Rightarrow> uri_decode grants preserve_reserved rest b)))"
  by pat_completeness auto

termination
  by (relation "measure (\<lambda>(grants, preserve, us, b). length us)")
    (auto dest!: continuation_shorter)

subsection \<open>Escaping\<close>

definition escape_unescaped :: "u16 \<Rightarrow> bool" where
  "escape_unescaped unit = (word_character unit \<or> uri_member (ascii_units ''@*+-./'') unit)"

definition escaped_unit :: "u16 \<Rightarrow> u16 list" where
  "escaped_unit unit =
     (if escape_unescaped unit then [unit]
      else if unit < 256 then [0x25, hex_digits ! unat (drop_bit 4 unit), hex_digits ! unat (unit AND 0x0f)]
      else [0x25, 0x75, hex_digits ! unat (drop_bit 12 unit), hex_digits ! unat (drop_bit 8 unit AND 0x0f),
            hex_digits ! unat (drop_bit 4 unit AND 0x0f), hex_digits ! unat (unit AND 0x0f)])"

fun escape_string :: "(nat \<Rightarrow> bool) \<Rightarrow> u16 list \<Rightarrow> string_builder \<Rightarrow> rt_error + string_builder" where
  "escape_string grants [] b = Inr b"
| "escape_string grants (unit # rest) b =
     (case string_builder_append grants b (escaped_unit unit) of
        Inl e \<Rightarrow> Inl e
      | Inr b \<Rightarrow> escape_string grants rest b)"

fun unescape_digits :: "nat \<Rightarrow> u16 list \<Rightarrow> nat option" where
  "unescape_digits accumulated [] = Some accumulated"
| "unescape_digits accumulated (unit # rest) =
     (let digit = uri_hex_digit unit
      in if digit > 15 then None else unescape_digits (accumulated * 16 + digit) rest)"

definition unescape_hex_value :: "u16 list \<Rightarrow> u16 option" where
  "unescape_hex_value us = map_option of_nat (unescape_digits 0 us)"

text \<open>The unit an unescape appends at a position and how many further units it consumes.\<close>

definition unescape_step :: "u16 \<Rightarrow> u16 list \<Rightarrow> u16 \<times> nat" where
  "unescape_step unit rest =
     (if unit = 0x25 then
        case (if length rest \<ge> 5 \<and> rest ! 0 = 0x75 then unescape_hex_value (take 4 (drop 1 rest)) else None) of
          Some v \<Rightarrow> (v, 5)
        | None \<Rightarrow>
            (case (if length rest \<ge> 2 then unescape_hex_value (take 2 rest) else None) of
               Some v \<Rightarrow> (v, 2)
             | None \<Rightarrow> (unit, 0))
      else (unit, 0))"

function unescape_string :: "(nat \<Rightarrow> bool) \<Rightarrow> u16 list \<Rightarrow> string_builder \<Rightarrow> rt_error + string_builder" where
  "unescape_string grants [] b = Inr b"
| "unescape_string grants (unit # rest) b =
     (case unescape_step unit rest of
        (decoded, further) \<Rightarrow>
          (case string_builder_append grants b [decoded] of
             Inl e \<Rightarrow> Inl e
           | Inr b \<Rightarrow> unescape_string grants (drop further rest) b))"
  by pat_completeness auto

termination by (relation "measure (\<lambda>(grants, us, b). length us)") auto

text \<open>\<open>uri_call\<close> from the string its argument converted to; the result are the units of the string it
  allocates.\<close>

definition uri_call :: "(nat \<Rightarrow> bool) \<Rightarrow> uri_operation \<Rightarrow> u16 list \<Rightarrow> rt_error + u16 list" where
  "uri_call grants operation us =
     (case (case operation of
              URI_ESCAPE \<Rightarrow> escape_string grants us empty_builder
            | URI_UNESCAPE \<Rightarrow> unescape_string grants us empty_builder
            | URI_ENCODE_URI \<Rightarrow> uri_encode grants False us empty_builder
            | URI_ENCODE_URI_COMPONENT \<Rightarrow> uri_encode grants True us empty_builder
            | URI_DECODE_URI \<Rightarrow> uri_decode grants True us empty_builder
            | URI_DECODE_URI_COMPONENT \<Rightarrow> uri_decode grants False us empty_builder) of
        Inl e \<Rightarrow> Inl e
      | Inr b \<Rightarrow> Inr (builder_units b))"

subsection \<open>UTF-8 in arithmetic\<close>

lemma unat_and_numeral:
  "unat ((x :: u8) AND 0x1f) = unat x mod 32" "unat (x AND 0x0f) = unat x mod 16" "unat (x AND 0x07) = unat x mod 8"
  "unat (x AND 0x3f) = unat x mod 64" "unat ((c :: u32) AND 0x3f) = unat c mod 64" "unat (c AND 0x3ff) = unat c mod 1024"
  "unat ((w :: u16) AND 0x0f) = unat w mod 16"
  using unat_and_mask [of x 5] unat_and_mask [of x 4] unat_and_mask [of x 3] unat_and_mask [of x 6] unat_and_mask [of c 6]
    unat_and_mask [of c 10] unat_and_mask [of w 4]
  by (simp_all add: mask_eq_exp_minus_1)

lemma unat_or_high:
  assumes "unat (y :: 'a::len word) < 2 ^ k" "2 ^ k dvd unat x"
  shows "unat (x OR y) = unat x + unat y"
proof (rule unat_or_disjoint, rule and_zeroI)
  fix n assume n: "bit x n" "bit y n"
  then have "n < k" using bit_small [OF assms(1)] by blast
  have "odd (unat x div 2 ^ n)" using n(1) by (simp add: bit_iff_odd [symmetric] bit_unsigned_iff)
  moreover have "unat x = 2 ^ n * (2 * (2 ^ (k - Suc n) * (unat x div 2 ^ k)))"
  proof -
    have "(2 :: nat) ^ k = 2 ^ n * (2 * 2 ^ (k - Suc n))" using \<open>n < k\<close> by (simp flip: power_add power_Suc)
    then show ?thesis using assms(2) by (metis dvd_mult_div_cancel mult.assoc)
  qed
  then have "unat x div 2 ^ n = 2 * (2 ^ (k - Suc n) * (unat x div 2 ^ k))" by (metis nonzero_mult_div_cancel_left power_not_zero zero_neq_numeral)
  ultimately show False by simp
qed

lemma unat_push: "unat (x :: 'a::len word) * 2 ^ k < 2 ^ LENGTH('a) \<Longrightarrow> unat (push_bit k x) = unat x * 2 ^ k"
  by (subst unsigned_push_bit_eq) (simp add: push_bit_eq_mult take_bit_nat_eq_self)

lemma unat_u32_to_u8: "unat (w :: u32) < 256 \<Longrightarrow> unat (ucast w :: u8) = unat w"
  by (simp add: unat_ucast_mod)

lemma unat_less_u8: "unat (x :: u8) < 256"
  using unsigned_less [of x] by simp

lemma unat_div_numeral:
  "unat (drop_bit 6 (c :: u32)) = unat c div 64" "unat (drop_bit 12 c) = unat c div 4096" "unat (drop_bit 18 c) = unat c div 262144"
  "unat (drop_bit 10 c) = unat c div 1024"
  by (simp_all add: unat_drop_bit)

lemma continuation_octet: "unat (ucast (0x80 OR (c AND 0x3f) :: u32) :: u8) = 128 + unat c mod 64"
proof -
  have "unat (0x80 OR (c AND 0x3f) :: u32) = 128 + unat c mod 64"
    using unat_or_high [of "c AND 0x3f" 6 "0x80"] by (simp add: unat_and_numeral)
  moreover have "128 + unat c mod 64 < 256" using mod_less_divisor [of 64 "unat c"] by linarith
  ultimately show ?thesis by (simp only: unat_u32_to_u8)
qed

lemma head_octet:
  assumes "unat (c :: u32) < 2 ^ k" "2 ^ k dvd unat h" "unat h + unat c < 256"
  shows "unat (ucast (h OR c) :: u8) = unat h + unat c"
  using unat_or_high [OF assms(1,2)] assms(3) by (simp add: unat_u32_to_u8)

text \<open>The octets of a code point.\<close>

lemma octets_nat:
  assumes "unat c < 0x200000"
  shows "map unat (uri_utf8_octets c) =
    (let n = unat c in
     if n < 128 then [n]
     else if n < 2048 then [192 + n div 64, 128 + n mod 64]
     else if n < 65536 then [224 + n div 4096, 128 + n div 64 mod 64, 128 + n mod 64]
     else [240 + n div 262144, 128 + n div 4096 mod 64, 128 + n div 64 mod 64, 128 + n mod 64])"
proof -
  have h2: "unat (ucast (0xc0 OR drop_bit 6 c :: u32) :: u8) = 192 + unat c div 64" if "unat c < 2048"
  proof -
    have "unat c div 64 < 32" using that by simp
    then show ?thesis using head_octet [of "drop_bit 6 c" 5 "0xc0"] by (simp add: unat_div_numeral)
  qed
  have h3: "unat (ucast (0xe0 OR drop_bit 12 c :: u32) :: u8) = 224 + unat c div 4096" if "unat c < 65536"
  proof -
    have "unat c div 4096 < 16" using that by simp
    then show ?thesis using head_octet [of "drop_bit 12 c" 4 "0xe0"] by (simp add: unat_div_numeral)
  qed
  have h4: "unat (ucast (0xf0 OR drop_bit 18 c :: u32) :: u8) = 240 + unat c div 262144"
  proof -
    have "unat c div 262144 < 8" using assms by simp
    then show ?thesis using head_octet [of "drop_bit 18 c" 3 "0xf0"] by (simp add: unat_div_numeral)
  qed
  show ?thesis using h2 h3 h4
    by (auto simp: uri_utf8_octets_def Let_def word_le_nat_alt continuation_octet unat_div_numeral unat_u32_to_u8)
qed

definition scalar_value :: "u32 \<Rightarrow> bool" where
  "scalar_value c \<longleftrightarrow> unat c < 0x110000 \<and> \<not> (0xd800 \<le> unat c \<and> unat c \<le> 0xdfff)"

text \<open>The code point of octets.\<close>

lemma unat_join:
  assumes "unat (y :: u32) < 2 ^ k" "unat x * 2 ^ k < 2 ^ 32"
  shows "unat (push_bit k x OR y) = unat x * 2 ^ k + unat y"
proof -
  have "unat (push_bit k x) = unat x * 2 ^ k" using assms(2) by (intro unat_push) simp
  then show ?thesis using unat_or_high [OF assms(1), of "push_bit k x"] by simp
qed

lemma unat_low_bits:
  "unat (ucast (a AND 0x1f :: u8) :: u32) = unat a mod 32" "unat (ucast (a AND 0x0f :: u8) :: u32) = unat a mod 16"
  "unat (ucast (a AND 0x07 :: u8) :: u32) = unat a mod 8" "unat (ucast (a AND 0x3f :: u8) :: u32) = unat a mod 64"
  by (simp_all add: unat_and_numeral)

lemma joined2: "unat (push_bit 6 (ucast (a AND 0x1f :: u8)) OR ucast (b AND 0x3f :: u8) :: u32) = unat a mod 32 * 64 + unat b mod 64"
  using unat_join [of "ucast (b AND 0x3f)" 6 "ucast (a AND 0x1f)"] mod_less_divisor [of 64 "unat b"] mod_less_divisor [of 32 "unat a"]
  unfolding unat_low_bits by (simp del: mod_less_divisor)

lemma joined3: "unat (push_bit 12 (ucast (a AND 0x0f :: u8)) OR push_bit 6 (ucast (b AND 0x3f :: u8)) OR ucast (c AND 0x3f :: u8) :: u32) =
    unat a mod 16 * 4096 + unat b mod 64 * 64 + unat c mod 64"
proof -
  have b: "unat (push_bit 6 (ucast (b AND 0x3f)) OR ucast (c AND 0x3f) :: u32) = unat b mod 64 * 64 + unat c mod 64"
    using unat_join [of "ucast (c AND 0x3f)" 6 "ucast (b AND 0x3f)"] mod_less_divisor [of 64 "unat b"] mod_less_divisor [of 64 "unat c"]
    unfolding unat_low_bits by (simp del: mod_less_divisor)
  show ?thesis
    using unat_join [of "push_bit 6 (ucast (b AND 0x3f)) OR ucast (c AND 0x3f)" 12 "ucast (a AND 0x0f)"]
      mod_less_divisor [of 64 "unat b"] mod_less_divisor [of 64 "unat c"] mod_less_divisor [of 16 "unat a"]
    unfolding b unat_low_bits or.assoc by (simp del: mod_less_divisor)
qed

lemma joined4: "unat (push_bit 18 (ucast (a AND 0x07 :: u8)) OR push_bit 12 (ucast (b AND 0x3f :: u8)) OR
      push_bit 6 (ucast (c AND 0x3f :: u8)) OR ucast (d AND 0x3f :: u8) :: u32) =
    unat a mod 8 * 262144 + unat b mod 64 * 4096 + unat c mod 64 * 64 + unat d mod 64"
proof -
  let ?cd = "push_bit 6 (ucast (c AND 0x3f)) OR ucast (d AND 0x3f) :: u32"
  let ?bcd = "push_bit 12 (ucast (b AND 0x3f)) OR ?cd"
  have cd: "unat ?cd = unat c mod 64 * 64 + unat d mod 64"
    using unat_join [of "ucast (d AND 0x3f)" 6 "ucast (c AND 0x3f)"] mod_less_divisor [of 64 "unat d"] mod_less_divisor [of 64 "unat c"]
    unfolding unat_low_bits by (simp del: mod_less_divisor)
  have bcd: "unat ?bcd = unat b mod 64 * 4096 + unat c mod 64 * 64 + unat d mod 64"
    using unat_join [of ?cd 12 "ucast (b AND 0x3f)"]
      mod_less_divisor [of 64 "unat b"] mod_less_divisor [of 64 "unat c"] mod_less_divisor [of 64 "unat d"]
    unfolding cd unat_low_bits by (simp del: mod_less_divisor)
  show ?thesis
    using unat_join [of ?bcd 18 "ucast (a AND 0x07)"] mod_less_divisor [of 8 "unat a"]
      mod_less_divisor [of 64 "unat b"] mod_less_divisor [of 64 "unat c"] mod_less_divisor [of 64 "unat d"]
    unfolding bcd unat_low_bits or.assoc by (simp del: mod_less_divisor)
qed

lemma leading_ones_step:
  "leading_ones b = (if 128 \<le> unat b then Suc (leading_ones (push_bit 1 b)) else 0)"
proof -
  have "drop_bit 7 b AND 1 \<noteq> 0 \<longleftrightarrow> odd (unat b div 2 ^ 7)" by (rule bit_word_odd)
  moreover have "b AND 0x80 \<noteq> 0 \<longleftrightarrow> bit b 7"
  proof -
    have e: "(0x80 :: u8) = 2 ^ 7" by simp
    show ?thesis unfolding e and_exp_eq_0_iff_not_bit by simp
  qed
  moreover have "bit b 7 \<longleftrightarrow> odd (unat b div 2 ^ 7)" by (simp add: bit_iff_odd [symmetric] bit_unsigned_iff del: power_numeral)
  moreover have "odd (unat b div 2 ^ 7) \<longleftrightarrow> 128 \<le> unat b"
  proof -
    have "unat b div 128 < 2" using unat_less_u8 [of b] by simp
    then have "unat b div 128 = 0 \<or> unat b div 128 = 1" by linarith
    then show ?thesis by (cases "128 \<le> unat b") auto
  qed
  ultimately show ?thesis by (subst leading_ones.simps) simp
qed

lemma unat_double: "unat (push_bit 1 (b :: u8)) = 2 * unat b mod 256"
  by (subst unsigned_push_bit_eq) (simp add: push_bit_eq_mult take_bit_eq_mod mult.commute)

lemma leading_ones_ranges:
  "leading_ones b = 0 \<longleftrightarrow> unat b < 128" "leading_ones b = 1 \<longleftrightarrow> 128 \<le> unat b \<and> unat b < 192"
  "leading_ones b = 2 \<longleftrightarrow> 192 \<le> unat b \<and> unat b < 224" "leading_ones b = 3 \<longleftrightarrow> 224 \<le> unat b \<and> unat b < 240"
  "leading_ones b = 4 \<longleftrightarrow> 240 \<le> unat b \<and> unat b < 248"
proof -
  define d where "d = (\<lambda>b :: u8. push_bit 1 b)"
  have d: "unat (d b) = (if unat b < 128 then 2 * unat b else 2 * unat b - 256)" for b
    using unat_double [of b] unat_less_u8 [of b] by (auto simp: d_def mod_if)
  have l0: "leading_ones b = 0 \<longleftrightarrow> unat b < 128" for b using leading_ones_step [of b] by auto
  have ls: "leading_ones b = Suc n \<longleftrightarrow> 128 \<le> unat b \<and> leading_ones (d b) = n" for b n
    using leading_ones_step [of b] by (auto simp: d_def)
  have l1: "leading_ones b = Suc 0 \<longleftrightarrow> 128 \<le> unat b \<and> unat b < 192" for b using d [of b] unfolding ls l0 by auto
  have l2: "leading_ones b = Suc (Suc 0) \<longleftrightarrow> 192 \<le> unat b \<and> unat b < 224" for b using d [of b] unfolding ls [of b "Suc 0"] l1 by auto
  have l3: "leading_ones b = Suc (Suc (Suc 0)) \<longleftrightarrow> 224 \<le> unat b \<and> unat b < 240" for b
    using d [of b] unfolding ls [of b "Suc (Suc 0)"] l2 by auto
  have l4: "leading_ones b = Suc (Suc (Suc (Suc 0))) \<longleftrightarrow> 240 \<le> unat b \<and> unat b < 248" for b
    using d [of b] unfolding ls [of b "Suc (Suc (Suc 0))"] l3 by auto
  show "leading_ones b = 0 \<longleftrightarrow> unat b < 128" by (rule l0)
  show "leading_ones b = 1 \<longleftrightarrow> 128 \<le> unat b \<and> unat b < 192" using l1 [of b] by simp
  show "leading_ones b = 2 \<longleftrightarrow> 192 \<le> unat b \<and> unat b < 224" using l2 [of b] by (simp add: numeral_2_eq_2)
  show "leading_ones b = 3 \<longleftrightarrow> 224 \<le> unat b \<and> unat b < 240" using l3 [of b] by (simp add: numeral_3_eq_3)
  show "leading_ones b = 4 \<longleftrightarrow> 240 \<le> unat b \<and> unat b < 248" using l4 [of b] by (simp add: eval_nat_numeral)
qed

lemma of_nat_unat_u32: "unat (c :: u32) = n \<Longrightarrow> of_nat n = c"
  by auto

lemma unat_of_small: "n < 2 ^ 32 \<Longrightarrow> unat (of_nat n :: u32) = n"
  by (simp add: unsigned_of_nat take_bit_nat_eq_self)

lemma code_point_2: "uri_utf8_code_point [a, b] =
    (if \<not> (128 \<le> unat b \<and> unat b \<le> 191) then None
     else let n = unat a mod 32 * 64 + unat b mod 64 in if n < 128 then None else Some (of_nat n))"
proof -
  define v where "v = (push_bit 6 (ucast (a AND 0x1f)) OR ucast (b AND 0x3f) :: u32)"
  have v: "unat v = unat a mod 32 * 64 + unat b mod 64" unfolding v_def by (rule joined2)
  then have "of_nat (unat a mod 32 * 64 + unat b mod 64) = v" by (rule of_nat_unat_u32)
  then show ?thesis
    by (auto simp: uri_utf8_code_point_def Let_def word_less_nat_alt v simp flip: v_def)
qed

lemma code_point_3: "uri_utf8_code_point [a, b, c] =
    (if \<not> (128 \<le> unat b \<and> unat b \<le> 191 \<and> 128 \<le> unat c \<and> unat c \<le> 191) then None
     else let n = unat a mod 16 * 4096 + unat b mod 64 * 64 + unat c mod 64
          in if n < 2048 \<or> 55296 \<le> n \<and> n \<le> 57343 then None else Some (of_nat n))"
proof -
  define v where "v = (push_bit 12 (ucast (a AND 0x0f)) OR push_bit 6 (ucast (b AND 0x3f)) OR ucast (c AND 0x3f) :: u32)"
  have v: "unat v = unat a mod 16 * 4096 + unat b mod 64 * 64 + unat c mod 64" unfolding v_def by (rule joined3)
  then have "of_nat (unat a mod 16 * 4096 + unat b mod 64 * 64 + unat c mod 64) = v" by (rule of_nat_unat_u32)
  then show ?thesis
    by (auto simp: uri_utf8_code_point_def Let_def word_less_nat_alt word_le_nat_alt v simp flip: v_def)
qed

lemma code_point_4: "uri_utf8_code_point [a, b, c, d] =
    (if \<not> (128 \<le> unat b \<and> unat b \<le> 191 \<and> 128 \<le> unat c \<and> unat c \<le> 191 \<and> 128 \<le> unat d \<and> unat d \<le> 191) then None
     else let n = unat a mod 8 * 262144 + unat b mod 64 * 4096 + unat c mod 64 * 64 + unat d mod 64
          in if n < 65536 \<or> n > 1114111 then None else Some (of_nat n))"
proof -
  define v where "v = (push_bit 18 (ucast (a AND 0x07)) OR push_bit 12 (ucast (b AND 0x3f)) OR
    push_bit 6 (ucast (c AND 0x3f)) OR ucast (d AND 0x3f) :: u32)"
  have v: "unat v = unat a mod 8 * 262144 + unat b mod 64 * 4096 + unat c mod 64 * 64 + unat d mod 64" unfolding v_def by (rule joined4)
  then have "of_nat (unat a mod 8 * 262144 + unat b mod 64 * 4096 + unat c mod 64 * 64 + unat d mod 64) = v"
    by (rule of_nat_unat_u32)
  then show ?thesis
    by (auto simp: uri_utf8_code_point_def Let_def word_less_nat_alt word_le_nat_alt v simp flip: v_def)
qed

text \<open>Encoding a scalar value above ASCII and decoding its octets gives the value back.\<close>

lemma split_64: "(n :: nat) div 64 * 64 + n mod 64 = n" "n div 4096 * 4096 + n div 64 mod 64 * 64 + n mod 64 = n"
  "n div 262144 * 262144 + n div 4096 mod 64 * 4096 + n div 64 mod 64 * 64 + n mod 64 = n"
proof -
  show a: "n div 64 * 64 + n mod 64 = n" for n :: nat by simp
  have b: "n div 4096 = n div 64 div 64" "n div 262144 = n div 64 div 64 div 64" by (simp_all add: div_mult2_eq [symmetric])
  show "n div 4096 * 4096 + n div 64 mod 64 * 64 + n mod 64 = n" unfolding b using a [of n] a [of "n div 64"] by linarith
  show "n div 262144 * 262144 + n div 4096 mod 64 * 4096 + n div 64 mod 64 * 64 + n mod 64 = n"
    unfolding b using a [of n] a [of "n div 64"] a [of "n div 64 div 64"] by linarith
qed

lemma octet_mods: "(q :: nat) < 32 \<Longrightarrow> (192 + q) mod 32 = q" "q < 16 \<Longrightarrow> (224 + q) mod 16 = q" "q < 8 \<Longrightarrow> (240 + q) mod 8 = q"
  "q < 64 \<Longrightarrow> (128 + q) mod 64 = q"
  using mod_mult_self4 [of 32 6 q] mod_mult_self4 [of 16 14 q] mod_mult_self4 [of 8 30 q] mod_mult_self4 [of 64 2 q] by simp_all

lemma utf8_decode_encode:
  assumes "scalar_value c" "128 \<le> unat c"
  shows "uri_utf8_code_point (uri_utf8_octets c) = Some c" "leading_ones (hd (uri_utf8_octets c)) = length (uri_utf8_octets c)"
    "length (uri_utf8_octets c) \<in> {2, 3, 4}"
proof -
  let ?n = "unat c" and ?os = "uri_utf8_octets c"
  have n: "?n < 0x110000" "\<not> (55296 \<le> ?n \<and> ?n \<le> 57343)" using assms(1) by (simp_all add: scalar_value_def)
  have os: "map unat ?os =
     (if ?n < 2048 then [192 + ?n div 64, 128 + ?n mod 64]
     else if ?n < 65536 then [224 + ?n div 4096, 128 + ?n div 64 mod 64, 128 + ?n mod 64]
     else [240 + ?n div 262144, 128 + ?n div 4096 mod 64, 128 + ?n div 64 mod 64, 128 + ?n mod 64])"
    using octets_nat [of c] n(1) assms(2) by (simp add: Let_def)
  have m: "128 + k mod 64 \<le> 191" for k :: nat using mod_less_divisor [of 64 k] by linarith
  consider (two) "?n < 2048" | (three) "\<not> ?n < 2048" "?n < 65536" | (four) "\<not> ?n < 2048" "\<not> ?n < 65536" by linarith
  then have "uri_utf8_code_point ?os = Some c \<and> leading_ones (hd ?os) = length ?os \<and> length ?os \<in> {2, 3, 4}"
  proof cases
    case two
    then obtain x y where xy: "?os = [x, y]" "unat x = 192 + ?n div 64" "unat y = 128 + ?n mod 64" using os by auto
    have "?n div 64 < 32" using two by simp
    then have "unat x mod 32 * 64 + unat y mod 64 = ?n" unfolding xy using split_64(1) [of ?n] octet_mods(1,4) by simp
    moreover have "leading_ones x = 2" using leading_ones_ranges(3) [of x] xy \<open>?n div 64 < 32\<close> by simp
    ultimately show ?thesis using xy assms(2) two m [of ?n]
      by (simp add: code_point_2 Let_def of_nat_unat_u32)
  next
    case three
    then obtain x y z where xy: "?os = [x, y, z]" "unat x = 224 + ?n div 4096" "unat y = 128 + ?n div 64 mod 64" "unat z = 128 + ?n mod 64"
      using os by auto
    have "?n div 4096 < 16" using three by simp
    then have "unat x mod 16 * 4096 + unat y mod 64 * 64 + unat z mod 64 = ?n"
      unfolding xy using split_64(2) [of ?n] octet_mods(2,4) by simp
    moreover have "leading_ones x = 3" using leading_ones_ranges(4) [of x] xy \<open>?n div 4096 < 16\<close> by simp
    ultimately show ?thesis using xy n(2) three m [of ?n] m [of "?n div 64"]
      by (simp add: code_point_3 Let_def of_nat_unat_u32)
  next
    case four
    then obtain x y z w where xy: "?os = [x, y, z, w]" "unat x = 240 + ?n div 262144" "unat y = 128 + ?n div 4096 mod 64"
      "unat z = 128 + ?n div 64 mod 64" "unat w = 128 + ?n mod 64" using os by auto
    have "?n div 262144 < 8" using n by simp
    then have "unat x mod 8 * 262144 + unat y mod 64 * 4096 + unat z mod 64 * 64 + unat w mod 64 = ?n"
      unfolding xy using split_64(3) [of ?n] octet_mods(3,4) by simp
    moreover have "leading_ones x = 4" using leading_ones_ranges(5) [of x] xy \<open>?n div 262144 < 8\<close> by simp
    ultimately show ?thesis using xy n four m [of ?n] m [of "?n div 64"] m [of "?n div 4096"]
      by (simp add: code_point_4 Let_def of_nat_unat_u32)
  qed
  then show "uri_utf8_code_point ?os = Some c" "leading_ones (hd ?os) = length ?os" "length ?os \<in> {2, 3, 4}" by simp_all
qed

lemma unat_map_inj: "map unat (xs :: u8 list) = map unat ys \<Longrightarrow> xs = ys"
  by (erule map_injective) (auto intro!: injI simp: word_unat_eq_iff)

lemma join_64: "r < 64 \<Longrightarrow> (a * 64 + r) div 64 = a" "r < 64 \<Longrightarrow> (a * 64 + r) mod 64 = r" for a r :: nat
  by simp_all

lemma div_64: "(n :: nat) div 4096 = n div 64 div 64" "n div 262144 = n div 64 div 64 div 64"
  by (simp_all add: div_mult2_eq [symmetric])

text \<open>Only the encoding of a scalar value is accepted: no overlong form, no surrogate, nothing past
  \<open>U+10FFFF\<close>.\<close>

lemma utf8_encode_decode:
  assumes "uri_utf8_code_point os = Some c" "leading_ones (hd os) = length os" "length os \<in> {2, 3, 4}"
  shows "uri_utf8_octets c = os" "scalar_value c" "128 \<le> unat c"
proof -
  have "uri_utf8_octets c = os \<and> scalar_value c \<and> 128 \<le> unat c"
  proof -
    consider (two) a b where "os = [a, b]" | (three) a b d where "os = [a, b, d]" | (four) a b d e where "os = [a, b, d, e]"
      using assms(3) by (auto simp: length_Suc_conv eval_nat_numeral)
    then show ?thesis
    proof cases
      case two
      have a: "192 \<le> unat a" "unat a < 224" using assms(2) leading_ones_ranges(3) [of a] by (simp_all add: two)
      have b: "128 \<le> unat b" "unat b \<le> 191" using assms(1) by (auto simp: two code_point_2 split: if_splits)
      define p q where "p = unat a - 192" and "q = unat b - 128"
      have pq: "unat a = 192 + p" "unat b = 128 + q" "p < 32" "q < 64" using a b by (auto simp: p_def q_def)
      have nn: "unat a mod 32 * 64 + unat b mod 64 = p * 64 + q" using pq octet_mods by simp
      have c: "128 \<le> p * 64 + q" "c = of_nat (p * 64 + q)"
        using assms(1) b by (auto simp: two code_point_2 Let_def nn split: if_splits)
      have uc: "unat c = p * 64 + q" unfolding c(2) by (rule unat_of_small) (use pq(3,4) in simp)
      have "map unat (uri_utf8_octets c) = map unat os"
        using octets_nat [of c] pq c(1) by (simp add: Let_def uc two)
      then show ?thesis using uc c(1) pq by (simp add: unat_map_inj scalar_value_def)
    next
      case three
      have a: "224 \<le> unat a" "unat a < 240" using assms(2) leading_ones_ranges(4) [of a] by (simp_all add: three)
      have b: "128 \<le> unat b" "unat b \<le> 191" "128 \<le> unat d" "unat d \<le> 191"
        using assms(1) by (auto simp: three code_point_3 split: if_splits)
      define p q r where "p = unat a - 224" and "q = unat b - 128" and "r = unat d - 128"
      have pq: "unat a = 224 + p" "unat b = 128 + q" "unat d = 128 + r" "p < 16" "q < 64" "r < 64"
        using a b by (auto simp: p_def q_def r_def)
      have nn: "unat a mod 16 * 4096 + unat b mod 64 * 64 + unat d mod 64 = p * 4096 + q * 64 + r" using pq octet_mods by simp
      have c: "\<not> (p * 4096 + q * 64 + r < 2048 \<or> 55296 \<le> p * 4096 + q * 64 + r \<and> p * 4096 + q * 64 + r \<le> 57343)"
        "c = of_nat (p * 4096 + q * 64 + r)"
        using assms(1) b unfolding three code_point_3 Let_def nn by (auto split: if_splits)
      have uc: "unat c = p * 4096 + q * 64 + r" unfolding c(2) by (rule unat_of_small) (use pq(4-6) in simp)
      have dv: "(p * 4096 + q * 64 + r) div 64 = p * 64 + q" "(p * 4096 + q * 64 + r) mod 64 = r" 
        "(p * 4096 + q * 64 + r) div 4096 = p" "(p * 64 + q) mod 64 = q"
        using join_64 [of r "p * 64 + q"] join_64 [of q p] pq(5,6) by (simp_all add: div_64 algebra_simps)
      then have "map unat (uri_utf8_octets c) = map unat os"
        using octets_nat [of c] pq c(1) dv by (simp add: Let_def uc three)
      then show ?thesis using uc c(1) pq by (simp add: unat_map_inj scalar_value_def)
    next
      case four
      have a: "240 \<le> unat a" "unat a < 248" using assms(2) leading_ones_ranges(5) [of a] by (simp_all add: four)
      have b: "128 \<le> unat b" "unat b \<le> 191" "128 \<le> unat d" "unat d \<le> 191" "128 \<le> unat e" "unat e \<le> 191"
        using assms(1) by (auto simp: four code_point_4 split: if_splits)
      define p q r s where "p = unat a - 240" and "q = unat b - 128" and "r = unat d - 128" and "s = unat e - 128"
      have pq: "unat a = 240 + p" "unat b = 128 + q" "unat d = 128 + r" "unat e = 128 + s" "p < 8" "q < 64" "r < 64" "s < 64"
        using a b by (auto simp: p_def q_def r_def s_def)
      have nn: "unat a mod 8 * 262144 + unat b mod 64 * 4096 + unat d mod 64 * 64 + unat e mod 64 = p * 262144 + q * 4096 + r * 64 + s"
        using pq octet_mods by simp
      have c: "\<not> (p * 262144 + q * 4096 + r * 64 + s < 65536 \<or> p * 262144 + q * 4096 + r * 64 + s > 1114111)"
        "c = of_nat (p * 262144 + q * 4096 + r * 64 + s)"
        using assms(1) b unfolding four code_point_4 Let_def nn by (auto split: if_splits)
      have uc: "unat c = p * 262144 + q * 4096 + r * 64 + s" unfolding c(2) by (rule unat_of_small) (use pq(5-8) in simp)
      let ?n = "p * 262144 + q * 4096 + r * 64 + s"
      have dv: "?n div 64 = p * 4096 + q * 64 + r" "?n mod 64 = s" "?n div 4096 = p * 64 + q" "?n div 262144 = p"
        "(p * 4096 + q * 64 + r) mod 64 = r" "(p * 64 + q) mod 64 = q" 
        using join_64 [of s "(p * 64 + q) * 64 + r"] join_64 [of r "p * 64 + q"] join_64 [of q p] pq(6-8)
        by (simp_all add: div_64 algebra_simps)
      then have "map unat (uri_utf8_octets c) = map unat os"
        using octets_nat [of c] pq c(1) by (simp add: Let_def uc four)
      then show ?thesis using uc c(1) pq by (simp add: unat_map_inj scalar_value_def)
    qed
  qed
  then show "uri_utf8_octets c = os" "scalar_value c" "128 \<le> unat c" by simp_all
qed

end
