(* ===== verification/Uri_Text.thy ===== *)
theory Uri_Text
  imports Uri
begin

text \<open>
  What the functions of \<open>Uri\<close> compute, without the builder: the text and the error an operation
  ends with. The facts about \<open>encode_text\<close>, \<open>decode_text\<close>, \<open>escaped_unit\<close> and \<open>unescape_text\<close> reach
  the code through \<open>unit_sink.writes\<close>: the round trips, and the strings an encode rejects.
\<close>

subsection \<open>The texts the functions produce\<close>

text \<open>The text written and the error the operation ends with, without a builder.\<close>

definition percent :: "u8 \<Rightarrow> u16 list" where
  "percent octet = [0x25, hex_digits ! unat (drop_bit 4 octet), hex_digits ! unat (octet AND 0x0f)]"

lemma length_percent [simp]: "length (percent octet) = 3"
  by (simp add: percent_def)

lemma length_escaped_unit [simp]: "length (escaped_unit unit) \<le> 8"
  by (simp add: escaped_unit_def)

lemma append_octets_Cons:
  "append_octets grants (octet # octets) b =
     (case string_builder_append grants b (percent octet) of Inl e \<Rightarrow> Inl e | Inr b \<Rightarrow> append_octets grants octets b)"
  by (simp add: percent_def)

declare append_octets.simps(2) [simp del]

definition unescaped :: "bool \<Rightarrow> u16 \<Rightarrow> bool" where
  "unescaped escape_reserved unit \<longleftrightarrow> uri_always_unescaped unit \<or> \<not> escape_reserved \<and> uri_reserved unit"

definition prefix_text :: "u16 list \<Rightarrow> u16 list \<times> rt_error option \<Rightarrow> u16 list \<times> rt_error option" where
  "prefix_text us t = (us @ fst t, snd t)"

lemma prefix_text_simps [simp]: "fst (prefix_text us t) = us @ fst t" "snd (prefix_text us t) = snd t"
  by (simp_all add: prefix_text_def)

fun encode_text :: "bool \<Rightarrow> u16 list \<Rightarrow> u16 list \<times> rt_error option" where
  "encode_text escape_reserved [] = ([], None)"
| "encode_text escape_reserved (unit # rest) =
     (if unescaped escape_reserved unit then prefix_text [unit] (encode_text escape_reserved rest)
      else if high_surrogate unit \<and> rest \<noteq> [] \<and> low_surrogate (hd rest) then
        prefix_text (concat (map percent (uri_utf8_octets (surrogate_pair unit (hd rest))))) (encode_text escape_reserved (tl rest))
      else if 0xd800 \<le> unit \<and> unit \<le> 0xdfff then ([], Some (uri_error ''URI encoding received an unpaired surrogate.''))
      else prefix_text (concat (map percent (uri_utf8_octets (ucast unit)))) (encode_text escape_reserved rest))"

function decode_text :: "bool \<Rightarrow> u16 list \<Rightarrow> u16 list \<times> rt_error option" where
  "decode_text preserve_reserved [] = ([], None)"
| "decode_text preserve_reserved (unit # rest) =
     (if unit \<noteq> 0x25 then prefix_text [unit] (decode_text preserve_reserved rest)
      else
        case first_octet rest of
          None \<Rightarrow> ([], Some malformed_escape)
        | Some octet \<Rightarrow>
            (if leading_ones octet = 0 then
               prefix_text (if preserve_reserved \<and> uri_reserved (ucast octet) then unit # take 2 rest else [ucast octet])
                 (decode_text preserve_reserved (drop 2 rest))
             else if leading_ones octet = 1 \<or> leading_ones octet > 4 then ([], Some malformed_utf8)
             else
               case continuation (leading_ones octet - 1) (drop 2 rest) of
                 None \<Rightarrow> ([], Some malformed_escape)
               | Some (octets, rest) \<Rightarrow>
                   (case uri_utf8_code_point (octet # octets) of
                      None \<Rightarrow> ([], Some malformed_utf8)
                    | Some code_point \<Rightarrow> prefix_text (utf16_units code_point) (decode_text preserve_reserved rest))))"
  by pat_completeness auto

termination by (relation "measure (\<lambda>(preserve, us). length us)") (auto dest!: continuation_shorter)

function unescape_text :: "u16 list \<Rightarrow> u16 list" where
  "unescape_text [] = []"
| "unescape_text (unit # rest) =
     (case unescape_step unit rest of (decoded, further) \<Rightarrow> decoded # unescape_text (drop further rest))"
  by pat_completeness auto

termination by (relation "measure length") auto

subsection \<open>The functions write their texts\<close>

lemma append_octets_writes:
  "builder_ok b \<Longrightarrow> (\<And>b'. builder_ok b' \<Longrightarrow> builder.writes grants (k b') b' vs fin) \<Longrightarrow>
   builder.writes grants (case append_octets grants os b of Inl e \<Rightarrow> Inl e | Inr b' \<Rightarrow> k b') b (concat (map percent os) @ vs) fin"
proof (induction os arbitrary: b)
  case (Cons octet os)
  have "builder.writes grants (case string_builder_append grants b (percent octet) of Inl e \<Rightarrow> Inl e
      | Inr b' \<Rightarrow> (case append_octets grants os b' of Inl e \<Rightarrow> Inl e | Inr b' \<Rightarrow> k b')) b (percent octet @ concat (map percent os) @ vs) fin"
    by (rule builder.writes_append) (use Cons in \<open>auto\<close>)
  then show ?case by (simp add: append_octets_Cons split: sum.splits)
qed simp

lemma uri_encode_Cons:
  "uri_encode grants escape_reserved (unit # rest) b =
     (if unescaped escape_reserved unit then
        case string_builder_append grants b [unit] of Inl e \<Rightarrow> Inl e | Inr b \<Rightarrow> uri_encode grants escape_reserved rest b
      else if high_surrogate unit \<and> rest \<noteq> [] \<and> low_surrogate (hd rest) then
        case append_octets grants (uri_utf8_octets (surrogate_pair unit (hd rest))) b of
          Inl e \<Rightarrow> Inl e | Inr b \<Rightarrow> uri_encode grants escape_reserved (tl rest) b
      else if 0xd800 \<le> unit \<and> unit \<le> 0xdfff then Inl (uri_error ''URI encoding received an unpaired surrogate.'')
      else
        case append_octets grants (uri_utf8_octets (ucast unit)) b of
          Inl e \<Rightarrow> Inl e | Inr b \<Rightarrow> uri_encode grants escape_reserved rest b)"
  by (simp only: uri_encode.simps unescaped_def)

lemma uri_encode_writes:
  "builder_ok b \<Longrightarrow> builder.writes grants (uri_encode grants escape_reserved us b) b (fst (encode_text escape_reserved us)) (snd (encode_text escape_reserved us))"
proof (induction escape_reserved us arbitrary: b rule: encode_text.induct)
  case (1 escape_reserved)
  then show ?case by (simp add: builder.writes_done)
next
  case (2 escape_reserved unit rest)
  consider (plain) "unescaped escape_reserved unit"
    | (pair) "\<not> unescaped escape_reserved unit" "high_surrogate unit \<and> rest \<noteq> [] \<and> low_surrogate (hd rest)"
    | (lone) "\<not> unescaped escape_reserved unit" "\<not> (high_surrogate unit \<and> rest \<noteq> [] \<and> low_surrogate (hd rest))" "0xd800 \<le> unit \<and> unit \<le> 0xdfff"
    | (other) "\<not> unescaped escape_reserved unit" "\<not> (high_surrogate unit \<and> rest \<noteq> [] \<and> low_surrogate (hd rest))" "\<not> (0xd800 \<le> unit \<and> unit \<le> 0xdfff)"
    by blast
  then show ?case
  proof cases
    case plain
    have "builder.writes grants (case string_builder_append grants b [unit] of Inl e \<Rightarrow> Inl e | Inr b' \<Rightarrow> uri_encode grants escape_reserved rest b')
        b ([unit] @ fst (encode_text escape_reserved rest)) (snd (encode_text escape_reserved rest))"
      by (rule builder.writes_append) (use 2 plain in auto)
    then show ?thesis using plain by (simp add: uri_encode_Cons del: uri_encode.simps(2))
  next
    case pair
    then show ?thesis using append_octets_writes [where os = "uri_utf8_octets (surrogate_pair unit (hd rest))", OF 2(4) 2(2) [OF pair]]
      by (simp add: uri_encode_Cons del: uri_encode.simps(2))
  next
    case lone
    let ?e = "uri_error ''URI encoding received an unpaired surrogate.''"
    have "uri_encode grants escape_reserved (unit # rest) b = Inl ?e" unfolding uri_encode_Cons
      using lone by (simp only: if_False if_True simp_thms)
    moreover have "encode_text escape_reserved (unit # rest) = ([], Some ?e)" unfolding encode_text.simps
      using lone by (simp only: if_False if_True simp_thms)
    ultimately show ?thesis using 2(4) by (simp only: fst_conv snd_conv builder.writes_error)
  next
    case other
    then show ?thesis using append_octets_writes [where os = "uri_utf8_octets (ucast unit)", OF 2(4) 2(3) [OF other]]
      unfolding uri_encode_Cons encode_text.simps by (simp only: if_False if_True prefix_text_simps)
  qed
qed

lemma escape_string_writes:
  "builder_ok b \<Longrightarrow> builder.writes grants (escape_string grants us b) b (concat (map escaped_unit us)) None"
proof (induction us arbitrary: b)
  case Nil
  then show ?case by (simp add: builder.writes_done)
next
  case (Cons unit us)
  have "builder.writes grants (case string_builder_append grants b (escaped_unit unit) of Inl e \<Rightarrow> Inl e | Inr b' \<Rightarrow> escape_string grants us b')
      b (escaped_unit unit @ concat (map escaped_unit us)) None"
    by (rule builder.writes_append) (use Cons in \<open>auto\<close>)
  then show ?case by simp
qed

lemma unescape_string_writes:
  "builder_ok b \<Longrightarrow> builder.writes grants (unescape_string grants us b) b (unescape_text us) None"
proof (induction us arbitrary: b rule: unescape_text.induct)
  case 1
  then show ?case by (simp add: builder.writes_done)
next
  case (2 unit rest)
  obtain d f where s: "unescape_step unit rest = (d, f)" by (cases "unescape_step unit rest")
  have "builder.writes grants (case string_builder_append grants b [d] of Inl e \<Rightarrow> Inl e | Inr b' \<Rightarrow> unescape_string grants (drop f rest) b')
      b ([d] @ unescape_text (drop f rest)) None"
    by (rule builder.writes_append) (use 2 s in auto)
  then show ?case by (simp add: s)
qed

lemma uri_decode_writes:
  "builder_ok b \<Longrightarrow> builder.writes grants (uri_decode grants preserve_reserved us b) b (fst (decode_text preserve_reserved us)) (snd (decode_text preserve_reserved us))"
proof (induction preserve_reserved us arbitrary: b rule: decode_text.induct)
  case (1 preserve_reserved)
  then show ?case by (simp add: builder.writes_done)
next
  case (2 preserve_reserved unit rest)
  note ih = 2(1,2,3)
  have two: "builder.writes grants (case string_builder_append grants b xs of Inl e \<Rightarrow> Inl e | Inr b' \<Rightarrow> uri_decode grants preserve_reserved r b')
      b (xs @ fst (decode_text preserve_reserved r)) (snd (decode_text preserve_reserved r))"
    if "length xs \<le> 8" "\<And>b. builder_ok b \<Longrightarrow> builder.writes grants (uri_decode grants preserve_reserved r b) b
        (fst (decode_text preserve_reserved r)) (snd (decode_text preserve_reserved r))" for xs r
    by (rule builder.writes_append) (use 2(4) that in auto)
  show ?case
  proof (cases "unit = 0x25")
    case False
    then show ?thesis using two [of "[unit]" rest] ih(1) by simp
  next
    case u: True
    show ?thesis
    proof (cases "first_octet rest")
      case None
      then show ?thesis using u 2(4) by (simp add: builder.writes_error)
    next
      case (Some octet)
      consider (ascii) "leading_ones octet = 0" | (bad) "leading_ones octet \<noteq> 0" "leading_ones octet = 1 \<or> leading_ones octet > 4"
        | (multi) "leading_ones octet \<noteq> 0" "\<not> (leading_ones octet = 1 \<or> leading_ones octet > 4)" by blast
      then show ?thesis
      proof cases
        case ascii
        define xs where "xs = (if preserve_reserved \<and> uri_reserved (ucast octet) then unit # take 2 rest else [ucast octet])"
        have "length xs \<le> 8" by (simp add: xs_def min_def)
        then have w: "builder.writes grants
            (case string_builder_append grants b xs of Inl e \<Rightarrow> Inl e | Inr b' \<Rightarrow> uri_decode grants preserve_reserved (drop 2 rest) b') b
            (xs @ fst (decode_text preserve_reserved (drop 2 rest))) (snd (decode_text preserve_reserved (drop 2 rest)))"
          using two ih(2) [OF _ Some ascii] u by simp
        have "decode_text preserve_reserved (unit # rest) = prefix_text xs (decode_text preserve_reserved (drop 2 rest))"
          "uri_decode grants preserve_reserved (unit # rest) b =
            (case string_builder_append grants b xs of Inl e \<Rightarrow> Inl e | Inr b' \<Rightarrow> uri_decode grants preserve_reserved (drop 2 rest) b')"
          using u Some ascii by (simp_all add: xs_def)
        then show ?thesis using w by (simp only: prefix_text_simps)
      next
        case bad
        then show ?thesis using u Some 2(4) by (auto simp: builder.writes_error)
      next
        case multi
        show ?thesis
        proof (cases "continuation (leading_ones octet - 1) (drop 2 rest)")
          case None
          then show ?thesis using u Some multi 2(4) by (simp add: builder.writes_error)
        next
          case c: (Some p)
          obtain octets r where p: "p = (octets, r)" by (cases p)
          show ?thesis
          proof (cases "uri_utf8_code_point (octet # octets)")
            case None
            then show ?thesis using u Some multi c p 2(4) by (simp add: builder.writes_error)
          next
            case cp: (Some cp)
            have "length (utf16_units cp) \<le> 8" by (simp add: utf16_units_def Let_def)
            then show ?thesis using u Some multi c p cp two [of "utf16_units cp" r] ih(3) [OF _ Some multi] by simp
          qed
        qed
      qed
    qed
  qed
qed

subsection \<open>Round trips\<close>

lemma hex_digits_value: "n < 16 \<Longrightarrow> uri_hex_digit (hex_digits ! n) = n"
proof -
  have "\<forall>n < 16. uri_hex_digit (hex_digits ! n) = n" by code_simp
  then show "n < 16 \<Longrightarrow> ?thesis" by blast
qed

lemma nibbles: "unat (drop_bit 4 (x :: u8)) < 16" "unat (x AND 0x0f) < 16" "unat (drop_bit 4 x) * 16 + unat (x AND 0x0f) = unat x"
  using unat_less_u8 [of x] mod_less_divisor [of 16 "unat x"] by (auto simp: unat_drop_bit unat_and_numeral)

lemma hex_octet_percent: "uri_hex_octet (hex_digits ! unat (drop_bit 4 x)) (hex_digits ! unat (x AND 0x0f)) = Some x"
proof -
  have a: "uri_hex_digit (hex_digits ! unat (drop_bit 4 x)) = unat (drop_bit 4 x)"
    "uri_hex_digit (hex_digits ! unat (x AND 0x0f)) = unat (x AND 0x0f)"
    using hex_digits_value nibbles(1,2) by blast+
  then show ?thesis using nibbles(1,2) [of x] unfolding uri_hex_octet_def Let_def a nibbles(3) by simp
qed

lemma first_octet_percent: "first_octet (tl (percent x) @ us) = Some x"
  by (simp add: percent_def first_octet_def hex_octet_percent)

lemma continuation_percent: "continuation (length os) (concat (map percent os) @ us) = Some (os, us)"
  by (induction os) (simp_all add: percent_def hex_octet_percent)

lemma pair_units:
  assumes "high_surrogate h" "low_surrogate l"
  shows "utf16_units (surrogate_pair h l) = [h, l]" "scalar_value (surrogate_pair h l)" "0x10000 \<le> unat (surrogate_pair h l)"
proof -
  define a b where "a = unat h - 0xd800" and "b = unat l - 0xdc00"
  have h: "unat h = 0xd800 + a" "unat l = 0xdc00 + b" "a < 1024" "b < 1024"
    using assms by (auto simp: a_def b_def high_surrogate_def low_surrogate_def word_le_nat_alt)
  have uh: "unat (ucast h - 0xd800 :: u32) = a" using h by (simp add: unat_sub_if')
  have ul: "unat (ucast l - 0xdc00 :: u32) = b" using h by (simp add: unat_sub_if')
  have "unat (push_bit 10 (ucast h - 0xd800) :: u32) = a * 1024"
    using unat_push [of "ucast h - 0xd800 :: u32" 10] h(3) by (simp add: uh)
  then have s: "unat (surrogate_pair h l) = 0x10000 + a * 1024 + b"
    using h by (simp add: surrogate_pair_def unat_word_ariths ul)
  then show "scalar_value (surrogate_pair h l)" "0x10000 \<le> unat (surrogate_pair h l)" using h by (simp_all add: scalar_value_def)
  have r: "unat (surrogate_pair h l - 0x10000) = a * 1024 + b" using s by (simp add: unat_sub_if')
  have d: "unat (drop_bit 10 (surrogate_pair h l - 0x10000)) = a" "unat ((surrogate_pair h l - 0x10000) AND 0x3ff) = b"
    using h(3,4) by (simp_all add: unat_div_numeral unat_and_numeral r)
  have "ucast (0xd800 + drop_bit 10 (surrogate_pair h l - 0x10000)) = h"
    by (rule word_unat_eq_iff [THEN iffD2]) (use h d in \<open>simp add: unat_ucast_mod unat_word_ariths\<close>)
  moreover have "ucast (0xdc00 + ((surrogate_pair h l - 0x10000) AND 0x3ff)) = l"
    by (rule word_unat_eq_iff [THEN iffD2]) (use h d in \<open>simp add: unat_ucast_mod unat_word_ariths\<close>)
  moreover have "\<not> surrogate_pair h l \<le> 0xffff" using s by (simp add: word_le_nat_alt)
  ultimately show "utf16_units (surrogate_pair h l) = [h, l]" by (simp add: utf16_units_def Let_def)
qed

lemma unat_less_u16: "unat (x :: u16) < 65536"
  using unsigned_less [of x] by simp

lemma decode_text_octets:
  assumes "scalar_value c" "128 \<le> unat c"
  shows "decode_text p (concat (map percent (uri_utf8_octets c)) @ t) = prefix_text (utf16_units c) (decode_text p t)"
proof -
  note e = utf8_decode_encode [OF assms]
  obtain x os where os: "uri_utf8_octets c = x # os" using e(3) by (cases "uri_utf8_octets c") auto
  have split: "concat (map percent (uri_utf8_octets c)) @ t = 0x25 # (tl (percent x) @ concat (map percent os) @ t)"
    by (simp add: os percent_def)
  have d: "drop 2 (tl (percent x) @ us) = us" for us by (simp add: percent_def)
  have l: "leading_ones x = Suc (length os)" "\<not> (leading_ones x = 1 \<or> leading_ones x > 4)" "leading_ones x - 1 = length os"
    using e(2,3) os by auto
  show ?thesis
    unfolding split decode_text.simps first_octet_percent d using l e(1) os by (simp add: continuation_percent)
qed

lemma decode_text_ascii:
  assumes "unat (c :: u32) < 128" "\<not> (p \<and> uri_reserved (ucast c))"
  shows "decode_text p (concat (map percent (uri_utf8_octets c)) @ t) = prefix_text [ucast c] (decode_text p t)"
proof -
  have o: "uri_utf8_octets c = [ucast c]" using assms(1) by (simp add: uri_utf8_octets_def word_le_nat_alt)
  have split: "concat (map percent (uri_utf8_octets c)) @ t = 0x25 # (tl (percent (ucast c)) @ t)"
    by (simp add: o percent_def)
  have d: "drop 2 (tl (percent x) @ us) = us" for x us by (simp add: percent_def)
  have u: "unat (ucast c :: u8) = unat c" using assms(1) by (simp add: unat_ucast_mod)
  then have l: "leading_ones (ucast c) = 0" using assms(1) leading_ones_ranges(1) by simp
  have uu: "ucast (ucast c :: u8) = (ucast c :: u16)"
    by (rule word_unat_eq_iff [THEN iffD2]) (use assms(1) u in \<open>simp add: unat_ucast_mod\<close>)
  have "\<not> (p \<and> uri_reserved (ucast (ucast c :: u8)))" using assms(2) by (simp only: uu not_False_eq_True)
  then show ?thesis unfolding split decode_text.simps first_octet_percent d using l uu
    by (simp only: option.case if_False if_True not_True_eq_False refl)
qed

lemma percent_not_unescaped: "unescaped esc unit \<Longrightarrow> unit \<noteq> 0x25"
proof -
  have "\<not> uri_always_unescaped 0x25 \<and> \<not> uri_reserved 0x25" by code_simp
  then show "unescaped esc unit \<Longrightarrow> unit \<noteq> 0x25" by (auto simp: unescaped_def)
qed

lemma decode_encode_text:
  "snd (encode_text esc us) = None \<Longrightarrow> decode_text (\<not> esc) (fst (encode_text esc us)) = (us, None)"
proof (induction esc us rule: encode_text.induct)
  case (2 esc unit rest)
  have pre: "prefix_text xs (ys, None) = (xs @ ys, None)" for xs ys by (simp add: prefix_text_def)
  consider (plain) "unescaped esc unit"
    | (pair) "\<not> unescaped esc unit" "high_surrogate unit \<and> rest \<noteq> [] \<and> low_surrogate (hd rest)"
    | (lone) "\<not> unescaped esc unit" "\<not> (high_surrogate unit \<and> rest \<noteq> [] \<and> low_surrogate (hd rest))" "0xd800 \<le> unit \<and> unit \<le> 0xdfff"
    | (other) "\<not> unescaped esc unit" "\<not> (high_surrogate unit \<and> rest \<noteq> [] \<and> low_surrogate (hd rest))" "\<not> (0xd800 \<le> unit \<and> unit \<le> 0xdfff)"
    by blast
  then show ?case
  proof cases
    case plain
    then show ?thesis using 2(1) [OF plain] 2(4) percent_not_unescaped [OF plain] by (simp add: pre)
  next
    case pair
    let ?c = "surrogate_pair unit (hd rest)"
    have c: "utf16_units ?c = [unit, hd rest]" "scalar_value ?c" "128 \<le> unat ?c" using pair_units [of unit "hd rest"] pair by auto
    have e: "encode_text esc (unit # rest) = prefix_text (concat (map percent (uri_utf8_octets ?c))) (encode_text esc (tl rest))"
      using pair by simp
    then have "decode_text (\<not> esc) (fst (encode_text esc (tl rest))) = (tl rest, None)" using 2(2) [OF pair] 2(4) by simp
    then show ?thesis unfolding e prefix_text_simps decode_text_octets [OF c(2,3)] c(1)
      using pair by (simp add: pre)
  next
    case lone
    then have "encode_text esc (unit # rest) = ([], Some (uri_error ''URI encoding received an unpaired surrogate.''))"
      unfolding encode_text.simps by (simp only: if_False if_True simp_thms)
    then show ?thesis using 2(4) by simp
  next
    case other
    have e: "encode_text esc (unit # rest) = prefix_text (concat (map percent (uri_utf8_octets (ucast unit)))) (encode_text esc rest)"
      unfolding encode_text.simps using other by (simp only: if_False if_True simp_thms)
    then have ih: "decode_text (\<not> esc) (fst (encode_text esc rest)) = (rest, None)" using 2(3) [OF other] 2(4) by simp
    have u: "unat (ucast unit :: u32) = unat unit" by simp
    have uu: "ucast (ucast unit :: u32) = unit" by (rule word_unat_eq_iff [THEN iffD2]) (use unat_less_u16 [of unit] in \<open>simp add: unat_ucast_mod\<close>)
    show ?thesis
    proof (cases "unat unit < 128")
      case True
      have "\<not> (\<not> esc \<and> uri_reserved (ucast (ucast unit :: u32)))" using other(1) by (simp add: unescaped_def uu)
      then show ?thesis unfolding e prefix_text_simps using True u ih by (subst decode_text_ascii) (simp_all add: uu pre)
    next
      case False
      then have c: "scalar_value (ucast unit)" "128 \<le> unat (ucast unit :: u32)" "unat (ucast unit :: u32) \<le> 0xffff"
        using other(3) unat_less_u16 [of unit] by (auto simp: scalar_value_def u word_le_nat_alt)
      then have "utf16_units (ucast unit) = [unit]" by (simp add: utf16_units_def word_le_nat_alt uu)
      then show ?thesis unfolding e prefix_text_simps decode_text_octets [OF c(1,2)] by (simp add: ih pre)
    qed
  qed
qed simp

text \<open>A string is well formed when every surrogate is part of a pair.\<close>

fun well_formed :: "u16 list \<Rightarrow> bool" where
  "well_formed [] = True"
| "well_formed [unit] = (\<not> high_surrogate unit \<and> \<not> low_surrogate unit)"
| "well_formed (unit # unit' # rest) =
     (if high_surrogate unit then low_surrogate unit' \<and> well_formed rest
      else \<not> low_surrogate unit \<and> well_formed (unit' # rest))"

lemma surrogate_range: "high_surrogate u \<or> low_surrogate u \<longleftrightarrow> 0xd800 \<le> u \<and> u \<le> 0xdfff"
  by (auto simp: high_surrogate_def low_surrogate_def word_le_nat_alt)

lemma unescaped_no_surrogate: "unescaped esc u \<Longrightarrow> \<not> high_surrogate u \<and> \<not> low_surrogate u"
  by (auto simp: unescaped_def uri_always_unescaped_def uri_reserved_def uri_member_def word_character_def
      high_surrogate_def low_surrogate_def word_le_nat_alt word_less_nat_alt split: if_splits)

lemma surrogates_disjoint: "high_surrogate u \<Longrightarrow> \<not> low_surrogate u"
  by (auto simp: high_surrogate_def low_surrogate_def word_le_nat_alt)

lemma encode_text_error: "snd (encode_text esc us) = (if well_formed us then None else Some (uri_error ''URI encoding received an unpaired surrogate.''))"
proof (induction us rule: well_formed.induct)
  case (2 u)
  show ?case using unescaped_no_surrogate [of esc u] surrogate_range [of u] by auto
next
  case (3 u u' us)
  show ?case
  proof (cases "high_surrogate u")
    case True
    then have "\<not> unescaped esc u" "0xd800 \<le> u \<and> u \<le> 0xdfff" using unescaped_no_surrogate [of esc u] surrogate_range [of u] by auto
    then show ?thesis using 3(1) [OF True] True by auto
  next
    case False
    then show ?thesis using 3(2) [OF False] unescaped_no_surrogate [of esc u] surrogate_range [of u] by auto
  qed
qed simp

subsection \<open>Escape and unescape\<close>

lemma hex_digits_not_u: "n < 16 \<Longrightarrow> hex_digits ! n \<noteq> 0x75"
proof -
  have "\<forall>n < 16. hex_digits ! n \<noteq> 0x75" by code_simp
  then show "n < 16 \<Longrightarrow> ?thesis" by blast
qed

lemma unescape_digits_hex: "\<forall>n \<in> set ns. n < 16 \<Longrightarrow> unescape_digits a (map ((!) hex_digits) ns) = Some (foldl (\<lambda>a n. a * 16 + n) a ns)"
  by (induction ns arbitrary: a) (simp_all add: Let_def hex_digits_value)

lemma nibbles16:
  fixes u :: u16
  defines "n \<equiv> unat u"
  shows "unat (drop_bit 12 u) = n div 4096" "unat (drop_bit 8 u AND 0x0f) = n div 256 mod 16" "unat (drop_bit 4 u AND 0x0f) = n div 16 mod 16"
    "unat (u AND 0x0f) = n mod 16" "unat (drop_bit 4 u) = n div 16" "n div 4096 < 16"
    "((n div 4096 * 16 + n div 256 mod 16) * 16 + n div 16 mod 16) * 16 + n mod 16 = n"
proof -
  show "unat (drop_bit 12 u) = n div 4096" "unat (drop_bit 8 u AND 0x0f) = n div 256 mod 16" "unat (drop_bit 4 u AND 0x0f) = n div 16 mod 16"
    "unat (u AND 0x0f) = n mod 16" "unat (drop_bit 4 u) = n div 16" "n div 4096 < 16"
    using unat_less_u16 [of u] by (simp_all add: unat_drop_bit unat_and_numeral n_def)
  have "n div 256 = n div 16 div 16" "n div 4096 = n div 16 div 16 div 16" by (simp_all add: div_mult2_eq [symmetric])
  then show "((n div 4096 * 16 + n div 256 mod 16) * 16 + n div 16 mod 16) * 16 + n mod 16 = n"
    by (simp only: div_mult_mod_eq)
qed

lemma unescape_step_escaped:
  "\<exists>x xs k. escaped_unit u = x # xs \<and> unescape_step x (xs @ t) = (u, k) \<and> length xs = k"
proof -
  note n = nibbles16 [of u]
  have m: "unat u div k mod 16 < 16" "unat u mod 16 < 16" for k by simp_all
  consider (plain) "escape_unescaped u" | (short) "\<not> escape_unescaped u" "u < 256" | (long) "\<not> escape_unescaped u" "\<not> u < 256" by blast
  then show ?thesis
  proof cases
    case plain
    have "\<not> escape_unescaped 0x25" by code_simp
    then have "u \<noteq> 0x25" using plain by blast
    then show ?thesis using plain by (simp add: escaped_unit_def unescape_step_def)
  next
    case short
    then have s: "unat u div 16 < 16" by (simp add: word_less_nat_alt)
    let ?xs = "map ((!) hex_digits) [unat u div 16, unat u mod 16]"
    have e: "escaped_unit u = 0x25 # ?xs" using short by (simp add: escaped_unit_def n)
    have "unescape_digits 0 ?xs = Some (unat u)" using s m by (subst unescape_digits_hex) simp_all
    then have v: "unescape_hex_value ?xs = Some u" by (simp add: unescape_hex_value_def)
    have "hex_digits ! (unat u div 16) \<noteq> 0x75" using hex_digits_not_u s by blast
    then have "unescape_step 0x25 (?xs @ t) = (u, 2)" using v by (simp add: unescape_step_def)
    then show ?thesis using e by simp
  next
    case long
    let ?xs = "map ((!) hex_digits) [unat u div 4096, unat u div 256 mod 16, unat u div 16 mod 16, unat u mod 16]"
    have e: "escaped_unit u = 0x25 # 0x75 # ?xs" using long by (simp add: escaped_unit_def n)
    have "unescape_digits 0 ?xs = Some (unat u)" using n(6,7) m by (subst unescape_digits_hex) simp_all
    then have v: "unescape_hex_value ?xs = Some u" by (simp add: unescape_hex_value_def)
    then have "unescape_step 0x25 ((0x75 # ?xs) @ t) = (u, 5)" by (simp add: unescape_step_def)
    then show ?thesis using e by simp
  qed
qed

lemma unescape_escape_text: "unescape_text (concat (map escaped_unit us)) = us"
proof (induction us)
  case (Cons u us)
  obtain x xs k where "escaped_unit u = x # xs" "unescape_step x (xs @ concat (map escaped_unit us)) = (u, k)" "length xs = k"
    using unescape_step_escaped by blast
  then show ?case using Cons by simp
qed simp


subsection \<open>The operations\<close>

definition uri_text :: "uri_operation \<Rightarrow> u16 list \<Rightarrow> u16 list \<times> rt_error option" where
  "uri_text operation us =
     (case operation of
        URI_ESCAPE \<Rightarrow> (concat (map escaped_unit us), None)
      | URI_UNESCAPE \<Rightarrow> (unescape_text us, None)
      | URI_ENCODE_URI \<Rightarrow> encode_text False us
      | URI_ENCODE_URI_COMPONENT \<Rightarrow> encode_text True us
      | URI_DECODE_URI \<Rightarrow> decode_text True us
      | URI_DECODE_URI_COMPONENT \<Rightarrow> decode_text False us)"

lemma uri_call_text:
  assumes "\<forall>n. grants n"
  shows "case uri_call grants operation us of
      Inr t \<Rightarrow> uri_text operation us = (t, None)
    | Inl e \<Rightarrow> e = length_error \<and> length (fst (uri_text operation us)) > MAX_STRING_LENGTH \<or>
        snd (uri_text operation us) = Some e \<and> length (fst (uri_text operation us)) \<le> MAX_STRING_LENGTH"
proof -
  define r where "r = (case operation of
              URI_ESCAPE \<Rightarrow> escape_string grants us empty_builder
            | URI_UNESCAPE \<Rightarrow> unescape_string grants us empty_builder
            | URI_ENCODE_URI \<Rightarrow> uri_encode grants False us empty_builder
            | URI_ENCODE_URI_COMPONENT \<Rightarrow> uri_encode grants True us empty_builder
            | URI_DECODE_URI \<Rightarrow> uri_decode grants True us empty_builder
            | URI_DECODE_URI_COMPONENT \<Rightarrow> uri_decode grants False us empty_builder)"
  have "builder.writes grants r empty_builder (fst (uri_text operation us)) (snd (uri_text operation us))"
    unfolding r_def uri_text_def
    by (cases operation) (simp_all add: escape_string_writes unescape_string_writes uri_encode_writes uri_decode_writes)
  moreover have "uri_call grants operation us = (case r of Inl e \<Rightarrow> Inl e | Inr b \<Rightarrow> Inr (builder_units b))"
    by (simp add: uri_call_def r_def)
  moreover have "\<not> host_refusal grants e" for e using assms by (simp add: host_refusal_def)
  ultimately show ?thesis by (cases r) (auto simp: builder.writes_def prod_eq_iff)
qed

lemma uri_call_short:
  assumes "\<forall>n. grants n" "uri_text operation us = (t, None)" "length t \<le> MAX_STRING_LENGTH"
  shows "uri_call grants operation us = Inr t"
  using uri_call_text [OF assms(1), of operation us] assms(2,3) by (auto split: sum.splits)

subsection \<open>The properties of the strings and of the URI functions\<close>

text \<open>C15. On any host, appending units to a builder that is within its bounds either appends exactly
  those units and stays within them, or fails: with the RangeError exactly when the result would
  pass the ceiling on string lengths, and otherwise only because the host refused the block.\<close>

theorem string_builder_append_exact:
  assumes "builder_ok b" "length us \<le> 2 ^ 62"
  shows "case string_builder_append grants b us of
      Inr b' \<Rightarrow> builder_units b' = builder_units b @ us \<and> builder_ok b'
    | Inl e \<Rightarrow> if length (builder_units b) + length us > MAX_STRING_LENGTH then e = length_error else host_refusal grants e"
  using assms by (rule builder_append_cases)

theorem string_builder_append_exact_witness:
  "string_builder_append (\<lambda>n. False) empty_builder [0x41] = Inl allocation_refused"
proof -
  have "string_builder_append (\<lambda>n. False) empty_builder [0x41] \<noteq> Inr b" for b
    by (simp add: string_builder_append_def string_builder_reserve_cases) (simp add: empty_builder_def MAX_STRING_LENGTH_def)
  moreover have "builder_ok empty_builder" "length [0x41 :: u16] \<le> 2 ^ 62" by simp_all
  note string_builder_append_exact [OF this, of "\<lambda>n. False"]
  ultimately show ?thesis by (auto simp: host_refusal_def MAX_STRING_LENGTH_def split: sum.splits)
qed

text \<open>C16. A key is the array index \<open>i\<close> exactly when it is the canonical decimal representation of \<open>i\<close>
  (no leading zero, no other character) and \<open>i\<close> is below \<open>2^32 - 1\<close>.\<close>

theorem array_index_canonical: "array_index us = Some i \<longleftrightarrow> us = decimal_units (unat i) \<and> unat i < 2 ^ 32 - 1"
  by (rule array_index_iff)

text \<open>C17. A sequence of octets whose length is the one its first octet announces decodes to a code
  point exactly when it is the UTF-8 encoding of that code point and the code point is a scalar
  value: no overlong form, no surrogate and nothing above \<open>U+10FFFF\<close> is accepted.\<close>

theorem utf8_accepts_encodings:
  assumes "leading_ones (hd os) = length os" "length os \<in> {2, 3, 4}"
  shows "uri_utf8_code_point os = Some c \<longleftrightarrow> scalar_value c \<and> 128 \<le> unat c \<and> uri_utf8_octets c = os"
proof
  assume "uri_utf8_code_point os = Some c"
  from utf8_encode_decode [OF this assms] show "scalar_value c \<and> 128 \<le> unat c \<and> uri_utf8_octets c = os" by blast
next
  assume "scalar_value c \<and> 128 \<le> unat c \<and> uri_utf8_octets c = os"
  then show "uri_utf8_code_point os = Some c" using utf8_decode_encode(1) [of c] by blast
qed

theorem utf8_accepts_encodings_witness:
  "uri_utf8_code_point [0xe2, 0x82, 0xac] = Some 0x20ac \<and> uri_utf8_code_point [0xc0, 0xaf] \<noteq> Some 0x2f"
proof -
  have "leading_ones (hd [0xe2, 0x82, 0xac]) = length [0xe2, 0x82, 0xac :: u8]" "leading_ones (hd [0xc0, 0xaf]) = length [0xc0, 0xaf :: u8]"
    by code_simp+
  note u = utf8_accepts_encodings [OF this(1)] utf8_accepts_encodings [OF this(2)]
  have "uri_utf8_octets 0x20ac = [0xe2, 0x82, 0xac]" by code_simp
  then show ?thesis using u(1) [of "0x20ac"] u(2) [of "0x2f"] by (simp add: scalar_value_def)
qed



text \<open>C19. \<open>unescape\<close> inverts \<open>escape\<close> on every string, unpaired surrogates included; \<open>escape\<close> fails only
  when its text would pass the ceiling.\<close>

theorem escape_unescape:
  assumes "\<forall>n. grants n" "length us \<le> MAX_STRING_LENGTH"
  shows "case uri_call grants URI_ESCAPE us of
      Inr t \<Rightarrow> uri_call grants URI_UNESCAPE t = Inr us
    | Inl e \<Rightarrow> e = length_error \<and> length (concat (map escaped_unit us)) > MAX_STRING_LENGTH"
proof (cases "uri_call grants URI_ESCAPE us")
  case (Inr t)
  then have "concat (map escaped_unit us) = t" using uri_call_text [OF assms(1), of URI_ESCAPE us] by (simp add: uri_text_def)
  then have "uri_text URI_UNESCAPE t = (us, None)" using unescape_escape_text [of us] by (auto simp: uri_text_def)
  then show ?thesis using Inr uri_call_short [OF assms(1) _ assms(2)] by simp
next
  case (Inl e)
  then show ?thesis using uri_call_text [OF assms(1), of URI_ESCAPE us] by (simp add: uri_text_def)
qed

theorem escape_unescape_witness:
  "uri_call (\<lambda>n. True) URI_UNESCAPE (ascii_units ''%uD800a%E9'') = Inr [0xd800, 0x61, 0xe9]"
proof -
  have e: "uri_call (\<lambda>n. True) URI_ESCAPE [0xd800, 0x61, 0xe9] = Inr (ascii_units ''%uD800a%E9'')"
  proof (rule uri_call_short)
    show "uri_text URI_ESCAPE [0xd800, 0x61, 0xe9] = (ascii_units ''%uD800a%E9'', None)" by code_simp
  qed (simp_all add: ascii_units_def MAX_STRING_LENGTH_def)
  show ?thesis using escape_unescape [of "\<lambda>n. True" "[0xd800, 0x61, 0xe9]"] by (simp add: e MAX_STRING_LENGTH_def)
qed

end
