(* ===== verification/Collector.thy ===== *)
theory Collector
  imports Weak_Edges Finalization String_Table
begin

text \<open>
  The collector and the allocator of \<open>runtime_memory.c\<close>: \<open>oseo_collect\<close> composes the mark phase
  (\<open>Collector_Mark\<close>), the passes over weak edges, finalization cells and registries
  (\<open>Weak_Edges\<close>, \<open>Finalization\<close>), the sweep of the string table (\<open>String_Table\<close>) and the sweep
  of the objects, over the state of a context. The linked list \<open>context->objects\<close> is the list of its
  addresses. \<open>heap_ok\<close> is the invariant every collection keeps.
\<close>

subsection \<open>The state of a context the collector works on\<close>

record activation =
  activation_function :: oseo_value
  activation_caller :: oseo_value
  activation_arguments :: "oseo_value list"

record module_record =
  evaluator :: oseo_value
  namespace_object :: oseo_value
  top_level_capability :: oseo_value
  evaluation_error :: oseo_value

text \<open>\<open>OseoTailCall\<close> with its live arguments.\<close>

record tail_call =
  tail_callee :: oseo_value
  tail_receiver :: oseo_value
  tail_realm_record :: oseo_value
  tail_this_cell :: oseo_value
  tail_constructor_realm :: oseo_value
  tail_caller :: oseo_value
  tail_arguments :: "oseo_value list"
  tail_pending :: bool

text \<open>The fields of the context that hold roots, in the order the collector marks them: the slots of
  the root frames from the innermost outwards, and the activations likewise.\<close>

record collector_roots =
  frame_slots :: "oseo_value list list"
  microtask_head :: oseo_value
  async_call_capability :: oseo_value
  microtask_tail :: oseo_value
  pending_rejections :: oseo_value
  pending_rejection_tail :: oseo_value
  initial_realm :: realm
  realm_record :: oseo_value
  activations :: "activation list"
  legacy_function_keys :: "oseo_value list"
  well_known_symbols :: "oseo_value list"
  registered_symbols :: "oseo_value list"
  root_timer_head :: oseo_value
  atomics_waiter_head :: oseo_value
  atomics_waiter_tail :: oseo_value
  agent_broadcast_callback :: oseo_value
  kept_objects :: "oseo_value list"
  module_table :: "module_record list option"
  pending_tail_call :: "tail_call option"

datatype weak_kind = EPHEMERON_TABLE | WEAK_REFERENCE | FINALIZATION_REGISTRY | FINALIZATION_CELL

record heap_state = alloc_context +
  heap_store :: store
  heap_objects :: "u64 list"
  heap_roots :: collector_roots
  heap_queue :: finalization_queue
  heap_strings :: "string_table option"
  weak_counts :: "weak_kind \<Rightarrow> nat"
  observe_specialization :: bool
  collect_every_safepoint :: bool
  collections :: nat
  allocations :: nat

definition activation_values :: "activation \<Rightarrow> oseo_value list" where
  "activation_values a = [activation_function a, activation_caller a] @ activation_arguments a"

definition module_values :: "module_record \<Rightarrow> oseo_value list" where
  "module_values m = [evaluator m, namespace_object m, top_level_capability m, evaluation_error m]"

definition tail_call_values :: "tail_call \<Rightarrow> oseo_value list" where
  "tail_call_values t =
     [tail_callee t, tail_receiver t, tail_realm_record t, tail_this_cell t, tail_constructor_realm t, tail_caller t]
     @ tail_arguments t"

text \<open>The values \<open>oseo_collect\<close> marks before and after the two ends of the cleanup FIFO.\<close>

definition early_roots :: "collector_roots \<Rightarrow> oseo_value list" where
  "early_roots r =
     concat (frame_slots r) @
     [microtask_head r, async_call_capability r, microtask_tail r, pending_rejections r, pending_rejection_tail r] @
     realm_edges (initial_realm r) @ [realm_record r] @
     concat (map activation_values (activations r)) @
     legacy_function_keys r @ well_known_symbols r @ registered_symbols r @
     [root_timer_head r, atomics_waiter_head r, atomics_waiter_tail r, agent_broadcast_callback r]"

definition late_roots :: "collector_roots \<Rightarrow> oseo_value list" where
  "late_roots r =
     kept_objects r @
     (case module_table r of None \<Rightarrow> [] | Some ms \<Rightarrow> concat (map module_values ms)) @
     (case pending_tail_call r of None \<Rightarrow> [] | Some t \<Rightarrow> if tail_pending t then tail_call_values t else [])"

definition root_values :: "('a heap_state_scheme) \<Rightarrow> oseo_value list" where
  "root_values h =
     early_roots (heap_roots h) @ [queue_head (heap_queue h), queue_tail (heap_queue h)] @ late_roots (heap_roots h)"

subsection \<open>The collection\<close>

definition weak_record_count :: "heap_body \<Rightarrow> weak_kind option" where
  "weak_record_count b =
     (case b of
        HEAP_EPHEMERON_TABLE t \<Rightarrow> Some EPHEMERON_TABLE
      | HEAP_WEAK_REFERENCE v \<Rightarrow> Some WEAK_REFERENCE
      | HEAP_FINALIZATION_REGISTRY r \<Rightarrow> Some FINALIZATION_REGISTRY
      | HEAP_FINALIZATION_CELL c \<Rightarrow> Some FINALIZATION_CELL
      | _ \<Rightarrow> None)"

definition count_removed :: "heap_body \<Rightarrow> (weak_kind \<Rightarrow> nat) \<Rightarrow> weak_kind \<Rightarrow> nat" where
  "count_removed b counts =
     (case weak_record_count b of None \<Rightarrow> counts | Some k \<Rightarrow> counts(k := counts k - 1))"

text \<open>The sweep: the objects it keeps, the store and the counts. \<open>destroy_heap_object\<close> frees the block.\<close>

fun sweep :: "u64 list \<Rightarrow> store \<Rightarrow> (weak_kind \<Rightarrow> nat) \<Rightarrow> (u64 list \<times> store \<times> (weak_kind \<Rightarrow> nat)) option" where
  "sweep [] st counts = Some ([], st, counts)"
| "sweep (a # as) st counts =
     (case st a of
        None \<Rightarrow> None
      | Some ob \<Rightarrow>
          if marked ob then
            map_option (\<lambda>(survivors, r). (a # survivors, r)) (sweep as (st(a \<mapsto> ob\<lparr>marked := False\<rparr>)) counts)
          else sweep as (st(a := None)) (count_removed (body ob) counts))"

definition string_units :: "store \<Rightarrow> strings" where
  "string_units st v =
     (if is_heap v then case st (heap_address v) of None \<Rightarrow> None
        | Some ob \<Rightarrow> (case body ob of HEAP_STRING us \<Rightarrow> Some us | _ \<Rightarrow> None)
      else None)"

text \<open>\<open>n\<close> bounds every walk of a collection; the number of objects is enough.\<close>

definition oseo_collect :: "nat \<Rightarrow> 'a heap_state_scheme \<Rightarrow> 'a heap_state_scheme option" where
  "oseo_collect n h =
     (let h = (if observe_specialization h then h\<lparr>collections := collections h + 1\<rparr> else h);
          counts = weak_counts h
      in case trace_ephemeron_fixed_point n n (mark_values (root_values h) \<lparr>store = heap_store h, worklist = 0\<rparr>) of
           None \<Rightarrow> None
         | Some s \<Rightarrow>
       (case (if counts EPHEMERON_TABLE \<noteq> 0 \<or> counts WEAK_REFERENCE \<noteq> 0 \<or> counts FINALIZATION_CELL \<noteq> 0
              then clear_dead_weak_edges (Suc n) (heap_objects h) (store s) else Some (store s)) of
           None \<Rightarrow> None
         | Some st \<Rightarrow>
       (case (if counts FINALIZATION_CELL \<noteq> 0 then schedule_finalization (heap_objects h) (st, heap_queue h)
              else (st, heap_queue h)) of
           (st, queue) \<Rightarrow>
       (case (if counts FINALIZATION_REGISTRY \<noteq> 0 then compact_finalization_registries (Suc n) (heap_objects h) st
              else Some st) of
           None \<Rightarrow> None
         | Some st \<Rightarrow>
       (case string_table_sweep (value_is_marked st) (heap_strings h) of
           None \<Rightarrow> None
         | Some table \<Rightarrow>
       (case sweep (heap_objects h) st counts of
           None \<Rightarrow> None
         | Some (survivors, st, counts) \<Rightarrow>
             Some (h\<lparr>heap_store := st, heap_objects := survivors, heap_queue := queue, heap_strings := table, weak_counts := counts\<rparr>)))))))"

subsection \<open>Allocation and publication\<close>

text \<open>\<open>oseo_internal_allocate_heap_bytes\<close>: the address of the block, \<open>0\<close> when refused.\<close>

definition allocate_heap_bytes :: "nat \<Rightarrow> nat \<Rightarrow> 'a heap_state_scheme \<Rightarrow> (u64 \<times> 'a heap_state_scheme) option" where
  "allocate_heap_bytes n bytes h =
     map_option (allocate_bytes bytes) (if collect_every_safepoint h then oseo_collect n h else Some h)"

definition too_many_records :: rt_error where
  "too_many_records = Diagnostic ''OSEO2001'' ''Too many weak heap records.''"

definition uncounted_kind :: "heap_body \<Rightarrow> bool" where
  "uncounted_kind b =
     (case b of HEAP_ENVIRONMENT bitmap values \<Rightarrow> True | HEAP_CELL c \<Rightarrow> True
      | HEAP_ORDINARY ob kind \<Rightarrow> (case kind of HEAP_FUNCTION f \<Rightarrow> True | _ \<Rightarrow> False) | _ \<Rightarrow> False)"

text \<open>\<open>oseo_internal_publish_heap\<close> for a block whose own fields \<open>b\<close> are written.\<close>

definition publish :: "u64 \<Rightarrow> heap_body \<Rightarrow> 'a heap_state_scheme \<Rightarrow> (rt_error + oseo_value) \<times> 'a heap_state_scheme" where
  "publish address b h =
     (if address = 0 \<or> address > PAYLOAD_MASK then (Inl unrepresentable, h)
      else let counter = weak_record_count b
           in if (case counter of None \<Rightarrow> False | Some k \<Rightarrow> weak_counts h k = SIZE_MAX) then (Inl too_many_records, h)
              else
                let h = h\<lparr>heap_store := (heap_store h)
                      (address \<mapsto> \<lparr>marked = False, trace_next = 0, ephemeron_pending = 0, body = b\<rparr>),
                    heap_objects := address # heap_objects h\<rparr>;
                    h = (case counter of None \<Rightarrow> h | Some k \<Rightarrow> h\<lparr>weak_counts := (weak_counts h)(k := weak_counts h k + 1)\<rparr>);
                    h = (if observe_specialization h \<and> \<not> uncounted_kind b then h\<lparr>allocations := allocations h + 1\<rparr> else h)
                in (Inr (heap_value address), h))"

end
