(* ===== verification/Heap_Invariant.thy ===== *)
theory Heap_Invariant
  imports Collector
begin

text \<open>
  The invariant of a context's heap, and what it says of reachability. Ephemeron entries and
  finalization cells are internal: only their own chains refer to them. Every other value an object
  holds, strongly or weakly, is a program value: it has a block, and the block is not internal.
\<close>

definition internal :: "store \<Rightarrow> u64 \<Rightarrow> bool" where
  "internal st a \<longleftrightarrow> is_entry st a \<or> cell_of st a \<noteq> None"

definition program_value :: "store \<Rightarrow> oseo_value \<Rightarrow> bool" where
  "program_value st v \<longleftrightarrow> (is_heap v \<longrightarrow> heap_address v \<in> dom st \<and> \<not> internal st (heap_address v))"

text \<open>The values a body holds for the program, links of chains left out.\<close>

fun held :: "heap_body \<Rightarrow> oseo_value list" where
  "held (HEAP_EPHEMERON_TABLE t) = []"
| "held (HEAP_EPHEMERON_ENTRY e) = [entry_key e, entry_value e]"
| "held (HEAP_WEAK_REFERENCE v) = [v]"
| "held (HEAP_FINALIZATION_REGISTRY r) = [registry_callback r]"
| "held (HEAP_FINALIZATION_CELL c) = [cell_registry c, cell_target c, cell_token c, cell_holdings c]"
| "held b = edges b"

definition entries_linked :: "store \<Rightarrow> (u64 \<Rightarrow> u64 list) \<Rightarrow> bool" where
  "entries_linked st E \<longleftrightarrow>
     (\<forall>e en. entry_of st e = Some en \<longrightarrow> (\<forall>t. is_table st t \<longrightarrow> e \<notin> set (E t)) \<longrightarrow> \<not> is_heap (next_entry en))"

definition cell_ok :: "store \<Rightarrow> u64 list \<Rightarrow> (u64 \<Rightarrow> u64 list) \<Rightarrow> u64 \<Rightarrow> finalization_cell \<Rightarrow> bool" where
  "cell_ok st Q C a c \<longleftrightarrow>
     is_heap (cell_registry c) \<and>
     (\<forall>r. registry_of st r \<noteq> None \<longrightarrow> a \<in> set (C r) \<longrightarrow> heap_address (cell_registry c) = r) \<and>
     ((\<forall>r. registry_of st r \<noteq> None \<longrightarrow> a \<notin> set (C r)) \<longrightarrow> \<not> is_heap (next_cell c)) \<and>
     (a \<notin> set Q \<longrightarrow> \<not> is_heap (cell_queue_next c)) \<and>
     (cell_processed c \<longrightarrow> \<not> is_heap (cell_holdings c)) \<and>
     (cell_processed c \<or> cell_queued c \<longrightarrow> \<not> is_heap (cell_target c))"

definition cells_linked :: "store \<Rightarrow> u64 list \<Rightarrow> (u64 \<Rightarrow> u64 list) \<Rightarrow> bool" where
  "cells_linked st Q C \<longleftrightarrow> (\<forall>a c. cell_of st a = Some c \<longrightarrow> cell_ok st Q C a c)"

definition kind_count :: "store \<Rightarrow> u64 list \<Rightarrow> weak_kind \<Rightarrow> nat" where
  "kind_count st as k = length (filter (\<lambda>a. (case st a of None \<Rightarrow> None | Some ob \<Rightarrow> weak_record_count (body ob)) = Some k) as)"

definition store_ok :: "store \<Rightarrow> finalization_queue \<Rightarrow> string_table option \<Rightarrow>
    (u64 \<Rightarrow> u64 list) \<Rightarrow> (u64 \<Rightarrow> u64 list) \<Rightarrow> u64 list \<Rightarrow> bool" where
  "store_ok st q table E C Q \<longleftrightarrow>
     (\<forall>a \<in> dom st. a \<noteq> 0 \<and> a \<le> PAYLOAD_MASK) \<and>
     (\<forall>a b v. bodies st a = Some b \<longrightarrow> v \<in> set (held b) \<longrightarrow> program_value st v) \<and>
     weak_ok st E \<and> entries_linked st E \<and> queue_ok st q Q \<and> registries_ok st C \<and> cells_linked st Q C \<and>
     string_table_ok (string_units st) table"

definition heap_ok :: "'a heap_state_scheme \<Rightarrow> (u64 \<Rightarrow> u64 list) \<Rightarrow> (u64 \<Rightarrow> u64 list) \<Rightarrow> u64 list \<Rightarrow> bool" where
  "heap_ok h E C Q \<longleftrightarrow>
     clean (heap_store h) \<and> dom (heap_store h) = set (heap_objects h) \<and> distinct (heap_objects h) \<and>
     (\<forall>v \<in> set (early_roots (heap_roots h) @ late_roots (heap_roots h)). program_value (heap_store h) v) \<and>
     store_ok (heap_store h) (heap_queue h) (heap_strings h) E C Q \<and>
     weak_counts h = kind_count (heap_store h) (heap_objects h)"

subsection \<open>Views by body\<close>

lemma kind_views:
  "table_of st a = (case bodies st a of Some (HEAP_EPHEMERON_TABLE t) \<Rightarrow> Some t | _ \<Rightarrow> None)"
  "entry_of st a = (case bodies st a of Some (HEAP_EPHEMERON_ENTRY e) \<Rightarrow> Some e | _ \<Rightarrow> None)"
  "cell_of st a = (case bodies st a of Some (HEAP_FINALIZATION_CELL c) \<Rightarrow> Some c | _ \<Rightarrow> None)"
  "registry_of st a = (case bodies st a of Some (HEAP_FINALIZATION_REGISTRY r) \<Rightarrow> Some r | _ \<Rightarrow> None)"
  by (auto simp: table_of_def entry_of_def cell_of_def registry_of_def bodies_def split: option.splits heap_body.splits)

lemma kind_Some:
  "table_of st a = Some t \<longleftrightarrow> bodies st a = Some (HEAP_EPHEMERON_TABLE t)"
  "entry_of st a = Some e \<longleftrightarrow> bodies st a = Some (HEAP_EPHEMERON_ENTRY e)"
  "cell_of st a = Some c \<longleftrightarrow> bodies st a = Some (HEAP_FINALIZATION_CELL c)"
  "registry_of st a = Some r \<longleftrightarrow> bodies st a = Some (HEAP_FINALIZATION_REGISTRY r)"
  by (auto simp: kind_views split: option.splits heap_body.splits)

lemma bodies_dom: "bodies st a = Some b \<Longrightarrow> a \<in> dom st"
  by (auto simp: bodies_def)

lemma held_edges:
  "(\<And>t. b \<noteq> HEAP_EPHEMERON_TABLE t) \<Longrightarrow> (\<And>e. b \<noteq> HEAP_EPHEMERON_ENTRY e) \<Longrightarrow> (\<And>v. b \<noteq> HEAP_WEAK_REFERENCE v) \<Longrightarrow>
   (\<And>r. b \<noteq> HEAP_FINALIZATION_REGISTRY r) \<Longrightarrow> (\<And>c. b \<noteq> HEAP_FINALIZATION_CELL c) \<Longrightarrow> held b = edges b"
  by (cases b) auto

lemma refs_mem: "c \<in> refs vs \<longleftrightarrow> (\<exists>v \<in> set vs. is_heap v \<and> c = heap_address v)"
  by (auto simp: refs_def)

subsection \<open>Links stay within their chains\<close>

lemma forward_head:
  assumes "forward nx v E" "\<forall>e \<in> set E. e \<le> PAYLOAD_MASK" "is_heap v"
  shows "heap_address v \<in> set E"
  using assms by (cases E) auto

lemma forward_step:
  assumes "forward nx v E" "\<forall>e \<in> set E. e \<le> PAYLOAD_MASK" "e \<in> set E" "nx e = Some w" "is_heap w"
  shows "heap_address w \<in> set E"
  using assms
proof (induction E arbitrary: v)
  case (Cons a E)
  then obtain u where u: "nx a = Some u" "forward nx u E" by auto
  show ?case
  proof (cases "e = a")
    case True
    then have "w = u" using u Cons.prems(4) by simp
    then show ?thesis using forward_head [OF u(2)] Cons.prems by simp
  next
    case False
    then show ?thesis using Cons.IH [OF u(2)] Cons.prems by simp
  qed
qed simp

lemma last_link: "back_link v (last_of E) \<Longrightarrow> is_heap v \<Longrightarrow> \<forall>e \<in> set E. e \<le> PAYLOAD_MASK \<Longrightarrow> heap_address v \<in> set E"
  by (auto simp: back_link_def last_of_def split: if_splits)

lemma table_links:
  assumes ok: "table_ok st a E" and t: "table_of st a = Some t"
  shows "refs (edges (HEAP_EPHEMERON_TABLE t)) \<subseteq> set E"
    and "e \<in> set E \<Longrightarrow> entry_of st e = Some en \<Longrightarrow> is_heap (next_entry en) \<Longrightarrow> heap_address (next_entry en) \<in> set E"
proof -
  have c: "table_core (entry_of st) t E" "back_link (table_tail t) (last_of E)" using ok t by (simp_all add: table_ok_def)
  have f: "forward (nexts (entry_of st)) (table_head t) E" and m: "\<forall>e \<in> set E. e \<le> PAYLOAD_MASK"
    using c(1) unfolding table_core_def by blast+
  show "refs (edges (HEAP_EPHEMERON_TABLE t)) \<subseteq> set E"
    using forward_head [OF f m] last_link [OF c(2) _ m] by auto
  show "heap_address (next_entry en) \<in> set E" if "e \<in> set E" "entry_of st e = Some en" "is_heap (next_entry en)"
    using forward_step [OF f m that(1) _ that(3)] that(2) by (simp add: nexts_def)
qed

lemma registry_links:
  assumes ok: "registry_ok st r C" and g: "registry_of st r = Some g"
  shows "refs [cell_head g, cell_tail g] \<subseteq> set C"
    and "a \<in> set C \<Longrightarrow> cell_of st a = Some c \<Longrightarrow> is_heap (next_cell c) \<Longrightarrow> heap_address (next_cell c) \<in> set C"
proof -
  have f: "forward (cell_links st) (cell_head g) C" "back_link (cell_tail g) (last_of C)" and m: "\<forall>a \<in> set C. a \<le> PAYLOAD_MASK"
    using ok g by (auto simp: registry_ok_def)
  show "refs [cell_head g, cell_tail g] \<subseteq> set C" using forward_head [OF f(1) m] last_link [OF f(2) _ m] by auto
  show "heap_address (next_cell c) \<in> set C" if "a \<in> set C" "cell_of st a = Some c" "is_heap (next_cell c)"
    using forward_step [OF f(1) m that(1) _ that(3)] that(2) by (simp add: cell_links_def)
qed

lemma queue_links_closed:
  assumes ok: "queue_ok st q Q"
  shows "refs [queue_head q, queue_tail q] \<subseteq> set Q"
    and "a \<in> set Q \<Longrightarrow> cell_of st a = Some c \<Longrightarrow> is_heap (cell_queue_next c) \<Longrightarrow> heap_address (cell_queue_next c) \<in> set Q"
proof -
  have f: "forward (queue_links st) (queue_head q) Q" "back_link (queue_tail q) (last_of Q)" and m: "\<forall>a \<in> set Q. a \<le> PAYLOAD_MASK"
    using ok unfolding queue_ok_def by blast+
  show "refs [queue_head q, queue_tail q] \<subseteq> set Q" using forward_head [OF f(1) m] last_link [OF f(2) _ m] by auto
  show "heap_address (cell_queue_next c) \<in> set Q" if "a \<in> set Q" "cell_of st a = Some c" "is_heap (cell_queue_next c)"
    using forward_step [OF f(1) m that(1) _ that(3)] that(2) by (simp add: queue_links_def)
qed

text \<open>Where a traced edge of a well-formed heap leads.\<close>

lemma edge_cases:
  assumes ok: "store_ok st q table E C Q" and b: "bodies st a = Some b" and c: "c \<in> refs (edges b)"
  shows "c \<in> dom st \<and> \<not> internal st c \<or>
    (is_table st a \<and> c \<in> set (E a)) \<or>
    (is_entry st a \<and> (\<exists>t. is_table st t \<and> a \<in> set (E t) \<and> c \<in> set (E t))) \<or>
    (registry_of st a \<noteq> None \<and> c \<in> set (C a)) \<or>
    (cell_of st a \<noteq> None \<and> (\<exists>r. registry_of st r \<noteq> None \<and> a \<in> set (C r) \<and> c \<in> set (C r))) \<or>
    (cell_of st a \<noteq> None \<and> a \<in> set Q \<and> c \<in> set Q)"
proof -
  note k = ok [unfolded store_ok_def]
  have prog: "c \<in> dom st \<and> \<not> internal st c" if "c \<in> refs (held b)"
    using k b that unfolding refs_mem program_value_def by blast
  show ?thesis
  proof (cases b)
    case (HEAP_EPHEMERON_TABLE t)
    then have t: "table_of st a = Some t" using b by (simp add: kind_Some)
    then have "is_table st a" by (simp add: is_table_def)
    moreover have "table_ok st a (E a)" using k calculation unfolding weak_ok_def by blast
    ultimately show ?thesis using table_links(1) [OF _ t] c HEAP_EPHEMERON_TABLE by blast
  next
    case (HEAP_EPHEMERON_ENTRY en)
    then have e: "entry_of st a = Some en" using b by (simp add: kind_Some)
    have n: "is_heap (next_entry en)" "c = heap_address (next_entry en)" using c HEAP_EPHEMERON_ENTRY by (auto split: if_splits)
    then obtain t where t: "is_table st t" "a \<in> set (E t)" using k e unfolding entries_linked_def by blast
    then have "table_ok st t (E t)" using k unfolding weak_ok_def by blast
    moreover obtain t' where "table_of st t = Some t'" using t(1) by (auto simp: is_table_def)
    ultimately have "c \<in> set (E t)" using table_links(2) t(2) e n by blast
    moreover have "is_entry st a" using e by (simp add: is_entry_def)
    ultimately show ?thesis using t by blast
  next
    case (HEAP_WEAK_REFERENCE v)
    then show ?thesis using c by simp
  next
    case (HEAP_FINALIZATION_REGISTRY g)
    then have g: "registry_of st a = Some g" using b by (simp add: kind_Some)
    then have "registry_ok st a (C a)" using k unfolding registries_ok_def by blast
    then have "refs [cell_head g, cell_tail g] \<subseteq> set (C a)" using registry_links(1) g by blast
    then show ?thesis using c HEAP_FINALIZATION_REGISTRY prog g by (auto split: if_splits)
  next
    case (HEAP_FINALIZATION_CELL d)
    then have d: "cell_of st a = Some d" using b by (simp add: kind_Some)
    then have ck: "cell_ok st Q C a d" using k unfolding cells_linked_def by blast
    consider (nxt) "is_heap (next_cell d)" "c = heap_address (next_cell d)"
      | (queue) "is_heap (cell_queue_next d)" "c = heap_address (cell_queue_next d)"
      | (prog) "c \<in> refs (held b)"
      using c HEAP_FINALIZATION_CELL by (auto split: if_splits)
    then show ?thesis
    proof cases
      case nxt
      then obtain r where r: "registry_of st r \<noteq> None" "a \<in> set (C r)" using ck unfolding cell_ok_def by blast
      then have "registry_ok st r (C r)" using k unfolding registries_ok_def by blast
      then have "c \<in> set (C r)" using registry_links(2) r d nxt by blast
      then show ?thesis using r d by blast
    next
      case queue
      then have q: "a \<in> set Q" using ck unfolding cell_ok_def by blast
      have "queue_ok st q Q" using k by blast
      then have "c \<in> set Q" using queue_links_closed(2) q d queue by blast
      then show ?thesis using q d by blast
    qed (use prog in blast)
  qed (use held_edges [of b] prog c in auto)
qed

lemma chains_in_store:
  assumes ok: "store_ok st q table E C Q"
  shows "is_table st a \<Longrightarrow> e \<in> set (E a) \<Longrightarrow> is_entry st e" "registry_of st r \<noteq> None \<Longrightarrow> e \<in> set (C r) \<Longrightarrow> cell_of st e \<noteq> None"
    "e \<in> set Q \<Longrightarrow> cell_of st e \<noteq> None" "is_entry st e \<Longrightarrow> e \<in> dom st" "cell_of st e \<noteq> None \<Longrightarrow> e \<in> dom st"
proof -
  note k = ok [unfolded store_ok_def]
  show "is_entry st e" if "is_table st a" "e \<in> set (E a)"
    using k that table_entries(1) [of st a "E a"] unfolding weak_ok_def by blast
  show "cell_of st e \<noteq> None" if "registry_of st r \<noteq> None" "e \<in> set (C r)"
  proof -
    have "registries_ok st C" using k by blast
    from registry_cells [OF this that] show ?thesis .
  qed
  show "cell_of st e \<noteq> None" if "e \<in> set Q"
  proof -
    have "record_of st e \<noteq> None" using k that unfolding queue_ok_def by blast
    then show ?thesis by simp
  qed
  show "e \<in> dom st" if "is_entry st e" using that by (auto simp: is_entry_def entry_of_def split: option.splits)
  show "e \<in> dom st" if "cell_of st e \<noteq> None" using that by (auto simp: cell_of_def split: option.splits)
qed

subsection \<open>Reachability in a well-formed heap\<close>

definition roots_ok :: "store \<Rightarrow> u64 list \<Rightarrow> oseo_value list \<Rightarrow> bool" where
  "roots_ok st Q rs \<longleftrightarrow> (\<forall>v \<in> set rs. is_heap v \<longrightarrow> program_value st v \<or> heap_address v \<in> set Q)"

lemma program_refs: "v \<in> set (held b) \<Longrightarrow> program_value st v \<Longrightarrow> c \<in> refs [v] \<Longrightarrow> c \<in> dom st \<and> \<not> internal st c"
  by (auto simp: program_value_def split: if_splits)

lemma reachable_kinds:
  assumes ok: "store_ok st q table E C Q" and roots: "roots_ok st Q rs"
    and r: "reachable (bodies st) (refs rs) a"
  shows "a \<in> dom st \<and> (is_entry st a \<longrightarrow> (\<exists>t. is_table st t \<and> reachable (bodies st) (refs rs) t \<and> a \<in> set (E t)))"
  using r
proof induction
  case (root a)
  then obtain v where v: "v \<in> set rs" "is_heap v" "a = heap_address v" by (auto simp: refs_mem)
  then consider "program_value st v" | "a \<in> set Q" using roots unfolding roots_ok_def by blast
  then show ?case
  proof cases
    case 1
    then show ?thesis using v by (simp add: program_value_def internal_def)
  next
    case 2
    then have "cell_of st a \<noteq> None" using chains_in_store(3) [OF ok] by blast
    then show ?thesis using chains_in_store(5) [OF ok] by (auto simp: is_entry_def kind_views split: option.splits heap_body.splits)
  qed
next
  case (edge a b c)
  have cell_entry: "\<not> is_entry st c" if "cell_of st c \<noteq> None" for c
    using that by (auto simp: is_entry_def kind_views split: option.splits heap_body.splits)
  from edge_cases [OF ok edge(2,3)] show ?case
  proof (elim disjE conjE exE)
    assume "is_table st a" "c \<in> set (E a)"
    then show ?thesis using edge chains_in_store(1,4) [OF ok] by blast
  next
    fix t assume t: "is_entry st a" "is_table st t" "a \<in> set (E t)" "c \<in> set (E t)"
    then obtain t' where t': "is_table st t'" "reachable (bodies st) (refs rs) t'" "a \<in> set (E t')" using edge by blast
    have "weak_ok st E" using ok by (simp add: store_ok_def)
    then have "t' = t" using t t' unfolding weak_ok_def by blast
    then show ?thesis using t t' chains_in_store(1,4) [OF ok] by blast
  next
    assume "registry_of st a \<noteq> None" "c \<in> set (C a)"
    then have "cell_of st c \<noteq> None" using chains_in_store(2) [OF ok] by blast
    then show ?thesis using chains_in_store(5) [OF ok] cell_entry by blast
  next
    fix r assume "registry_of st r \<noteq> None" "c \<in> set (C r)"
    then have "cell_of st c \<noteq> None" using chains_in_store(2) [OF ok] by blast
    then show ?thesis using chains_in_store(5) [OF ok] cell_entry by blast
  next
    assume "c \<in> set Q"
    then have "cell_of st c \<noteq> None" using chains_in_store(3) [OF ok] by blast
    then show ?thesis using chains_in_store(5) [OF ok] cell_entry by blast
  qed (simp add: internal_def)
next
  case (ephemeron a entry c)
  have "program_value st (entry_value entry)" using ok ephemeron(2) unfolding store_ok_def by (metis held.simps(2) list.set_intros)
  then have "c \<in> dom st \<and> \<not> internal st c" using ephemeron(5) by (auto simp: program_value_def split: if_splits)
  then show ?case by (simp add: internal_def)
qed

lemma reachable_sound:
  assumes ok: "store_ok st q table E C Q" and roots: "roots_ok st Q rs"
  shows "sound_heap (bodies st) (refs rs)"
  unfolding sound_heap_def
proof (intro conjI allI impI)
  show "bodies st 0 = None"
  proof (rule ccontr)
    assume "bodies st 0 \<noteq> None"
    then have "0 \<in> dom st" by (auto simp: bodies_def)
    then show False using ok unfolding store_ok_def by blast
  qed
  show "a \<in> dom (bodies st)" if "reachable (bodies st) (refs rs) a" for a
    using reachable_kinds [OF ok roots that] by simp
next
  fix a entry assume a: "reachable (bodies st) (refs rs) a" "bodies st a = Some (HEAP_EPHEMERON_ENTRY entry)"
  then have e: "entry_of st a = Some entry" by (simp add: kind_Some)
  then have "is_entry st a" by (simp add: is_entry_def)
  then obtain t where t: "is_table st t" "a \<in> set (E t)" using reachable_kinds [OF ok roots a(1)] by blast
  then have "table_ok st t (E t)" using ok unfolding store_ok_def weak_ok_def by blast
  then obtain k where "keys (entry_of st) a = Some k" "is_heap k" using table_entries(2) t(2) by blast
  then show h: "is_heap (entry_key entry)" using e by (simp add: keys_def)
  have "program_value st (entry_key entry)" using ok a(2) unfolding store_ok_def by (metis held.simps(2) list.set_intros(1))
  then show "heap_address (entry_key entry) \<in> dom (bodies st)" using h by (simp add: program_value_def)
qed

text \<open>A chain whose head is reachable is reachable.\<close>

lemma forward_reachable:
  assumes "forward nx v es" "\<forall>e \<in> set es. e \<le> PAYLOAD_MASK" "is_heap v \<Longrightarrow> reachable bs R (heap_address v)"
    and step: "\<And>e w. e \<in> set es \<Longrightarrow> reachable bs R e \<Longrightarrow> nx e = Some w \<Longrightarrow> is_heap w \<Longrightarrow> reachable bs R (heap_address w)"
  shows "\<forall>e \<in> set es. reachable bs R e"
  using assms
proof (induction es arbitrary: v)
  case (Cons e es)
  then obtain w where w: "v = heap_value e" "nx e = Some w" "forward nx w es" by auto
  then have e: "reachable bs R e" using Cons.prems(2,3) by simp
  then have "is_heap w \<Longrightarrow> reachable bs R (heap_address w)" using Cons.prems(4) [of e w] e w(2) by simp
  then have "\<forall>e \<in> set es. reachable bs R e" by (intro Cons.IH [OF w(3)]) (use Cons.prems(2,4) in auto)
  then show ?case using e by simp
qed simp

lemma chains_reachable:
  assumes ok: "store_ok st q table E C Q" and roots: "{queue_head q, queue_tail q} \<subseteq> set rs"
  shows "is_table st a \<Longrightarrow> reachable (bodies st) (refs rs) a \<Longrightarrow> e \<in> set (E a) \<Longrightarrow> reachable (bodies st) (refs rs) e"
    and "registry_of st r \<noteq> None \<Longrightarrow> reachable (bodies st) (refs rs) r \<Longrightarrow> e \<in> set (C r) \<Longrightarrow> reachable (bodies st) (refs rs) e"
    and "e \<in> set Q \<Longrightarrow> reachable (bodies st) (refs rs) e"
proof -
  note k = ok [unfolded store_ok_def]
  let ?R = "reachable (bodies st) (refs rs)"
  have through: "?R (heap_address w)" if "?R a" "bodies st a = Some b" "w \<in> set (edges b)" "is_heap w" for a b w
  proof -
    have "heap_address w \<in> refs (edges b)" using that(3,4) by (auto simp: refs_mem)
    then show ?thesis by (rule reachable.edge [OF that(1,2)])
  qed
  show "?R e" if a: "is_table st a" "?R a" "e \<in> set (E a)"
  proof -
    obtain t where t: "table_of st a = Some t" using a(1) by (auto simp: is_table_def)
    have "table_ok st a (E a)" using k a(1) unfolding weak_ok_def by blast
    then have core: "table_core (entry_of st) t (E a)" using t by (simp add: table_ok_def)
    have b: "bodies st a = Some (HEAP_EPHEMERON_TABLE t)" using t by (simp add: kind_Some)
    have "\<forall>e \<in> set (E a). ?R e"
    proof (rule forward_reachable)
      show "forward (nexts (entry_of st)) (table_head t) (E a)" "\<forall>e \<in> set (E a). e \<le> PAYLOAD_MASK"
        using core unfolding table_core_def by blast+
      show "?R (heap_address (table_head t))" if "is_heap (table_head t)" using through [OF a(2) b] that by simp
      show "?R (heap_address w)" if "?R e" "nexts (entry_of st) e = Some w" "is_heap w" for e w
      proof -
        obtain en where "entry_of st e = Some en" "w = next_entry en" using \<open>nexts (entry_of st) e = Some w\<close> by (auto simp: nexts_def)
        then show ?thesis using through [OF that(1), of "HEAP_EPHEMERON_ENTRY en" w] that(3) by (simp add: kind_Some)
      qed
    qed
    then show ?thesis using a(3) by blast
  qed
  show "?R e" if a: "registry_of st r \<noteq> None" "?R r" "e \<in> set (C r)"
  proof -
    obtain g where g: "registry_of st r = Some g" using a(1) by blast
    have b: "bodies st r = Some (HEAP_FINALIZATION_REGISTRY g)" using g by (simp add: kind_Some)
    have rok: "registry_ok st r (C r)" using k a(1) unfolding registries_ok_def by blast
    have "\<forall>e \<in> set (C r). ?R e"
    proof (rule forward_reachable)
      show "forward (cell_links st) (cell_head g) (C r)" "\<forall>e \<in> set (C r). e \<le> PAYLOAD_MASK"
        using rok g by (auto simp: registry_ok_def)
      show "?R (heap_address (cell_head g))" if "is_heap (cell_head g)" using through [OF a(2) b] that by simp
      show "?R (heap_address w)" if "?R e" "cell_links st e = Some w" "is_heap w" for e w
      proof -
        obtain d where "cell_of st e = Some d" "w = next_cell d" using \<open>cell_links st e = Some w\<close> by (auto simp: cell_links_def)
        then show ?thesis using through [OF that(1), of "HEAP_FINALIZATION_CELL d" w] that(3) by (simp add: kind_Some)
      qed
    qed
    then show ?thesis using a(3) by blast
  qed
  show "?R e" if a: "e \<in> set Q"
  proof -
    have "\<forall>e \<in> set Q. ?R e"
    proof (rule forward_reachable)
      show "forward (queue_links st) (queue_head q) Q" "\<forall>e \<in> set Q. e \<le> PAYLOAD_MASK"
        using k unfolding queue_ok_def by blast+
      show "?R (heap_address (queue_head q))" if "is_heap (queue_head q)"
        by (rule reachable.root) (use roots that in \<open>auto simp: refs_mem\<close>)
      show "?R (heap_address w)" if "?R e" "queue_links st e = Some w" "is_heap w" for e w
      proof -
        obtain d where "cell_of st e = Some d" "w = cell_queue_next d" using \<open>queue_links st e = Some w\<close> by (auto simp: queue_links_def)
        then show ?thesis using through [OF that(1), of "HEAP_FINALIZATION_CELL d" w] that(3) by (simp add: kind_Some)
      qed
    qed
    then show ?thesis using a by blast
  qed
qed

end
