(* ===== verification/Collector_Passes.thy ===== *)
theory Collector_Passes
  imports Heap_Invariant
begin

text \<open>
  What the passes after the marking leave alone, and that a pass the collector skips because a count
  is zero would have changed nothing.
\<close>

subsection \<open>Pending lists are left alone after marking\<close>

lemma pending_update [simp]:
  "pending_of (update_table a f st) = pending_of st" "pending_of (update_entry a g st) = pending_of st"
  "pending_of (unmark a st) = pending_of st" "pending_of (update_cell a h st) = pending_of st"
  "pending_of (update_registry a k st) = pending_of st" "pending_of (clear_trace_next a st) = pending_of st"
  by (auto simp: fun_eq_iff pending_of_def update_table_def update_entry_def unmark_def update_cell_def update_registry_def
      clear_trace_next_def split: option.splits)

lemma pending_body: "st a = Some ob \<Longrightarrow> pending_of (st(a \<mapsto> ob\<lparr>body := b\<rparr>)) = pending_of st"
  by (simp add: fun_eq_iff pending_of_def)

lemma pending_unlink_dead: "pending_of (unlink_dead a k e en st) = pending_of st"
  by (simp add: unlink_dead_def Let_def write_link_def remove_from_index_def split: option.split)

lemma pending_clear_dead_entries: "clear_dead_entries n a k st = Some st' \<Longrightarrow> pending_of st' = pending_of st"
proof (induction n a k st rule: clear_dead_entries.induct)
  case (2 n a k st)
  then show ?case by (auto simp: Let_def pending_unlink_dead split: option.splits if_splits)
qed simp

lemma pending_clear_dead_weak_edges: "clear_dead_weak_edges n as st = Some st' \<Longrightarrow> pending_of st' = pending_of st"
proof (induction as arbitrary: st)
  case (Cons a as)
  obtain ob where ob: "st a = Some ob" using Cons.prems by (auto split: option.splits)
  have upd: "clear_dead_weak_edges n as (st(a \<mapsto> ob\<lparr>body := b\<rparr>)) = Some st' \<Longrightarrow> pending_of st' = pending_of st" for b
    using pending_body [of st a ob b, OF ob] Cons.IH by (rule trans [rotated])
  show ?case
  proof (cases "marked ob")
    case False
    then show ?thesis using Cons ob by simp
  next
    case True
    show ?thesis
    proof (cases "body ob")
      case (HEAP_EPHEMERON_TABLE t)
      then obtain st1 where "clear_dead_entries n a 0 st = Some st1" "clear_dead_weak_edges n as st1 = Some st'"
        using Cons.prems ob True by (auto split: option.splits)
      then show ?thesis using Cons.IH pending_clear_dead_entries by metis
    qed (use Cons ob True upd in simp_all)
  qed
qed simp

lemma pending_enqueue: "pending_of (fst (enqueue_cell a s)) = pending_of (fst s)"
  by (cases s) (simp add: enqueue_cell_def Let_def)

lemma pending_schedule: "schedule_finalization os (st, q) = (st', q') \<Longrightarrow> pending_of st' = pending_of st"
proof -
  have "pending_of (fst (fold enqueue_cell as s)) = pending_of (fst s)" for as s
    by (induction as arbitrary: s) (simp_all add: pending_enqueue)
  from this [of "candidates st os" "(st, q)"] show "schedule_finalization os (st, q) = (st', q') \<Longrightarrow> ?thesis"
    by (simp add: schedule_finalization_def candidates_def Let_def)
qed

lemma pending_compact_cells: "compact_cells n a k st = Some st' \<Longrightarrow> pending_of st' = pending_of st"
proof (induction n a k st rule: compact_cells.induct)
  case (2 n a kept st)
  then show ?case by (auto simp: Let_def split: option.splits if_splits)
qed simp

lemma pending_compact: "compact_finalization_registries n as st = Some st' \<Longrightarrow> pending_of st' = pending_of st"
proof (induction n as st rule: compact_finalization_registries.induct)
  case (2 n a as st)
  then show ?case by (auto dest: pending_compact_cells split: option.splits if_splits)
qed simp

subsection \<open>The passes on heaps without weak records\<close>

lemma clear_without_weak:
  assumes "\<And>a. a \<in> set as \<Longrightarrow> \<exists>ob. st a = Some ob \<and> weak_record_count (body ob) \<notin> Some ` {EPHEMERON_TABLE, WEAK_REFERENCE, FINALIZATION_CELL}"
  shows "clear_dead_weak_edges n as st = Some st"
  using assms
proof (induction as)
  case (Cons a as)
  obtain ob where ob: "st a = Some ob" "weak_record_count (body ob) \<notin> Some ` {EPHEMERON_TABLE, WEAK_REFERENCE, FINALIZATION_CELL}"
    using Cons.prems by (metis list.set_intros(1))
  then show ?case using Cons by (cases "body ob") (simp_all add: weak_record_count_def)
qed simp

lemma schedule_without_cells:
  assumes "\<And>a. a \<in> set as \<Longrightarrow> cell_of st a = None" shows "schedule_finalization as (st, q) = (st, q)"
proof -
  have "\<forall>a \<in> set as. \<not> newly_eligible st a" using assms by (simp add: newly_eligible_def)
  then have "fold (\<lambda>a cs. if newly_eligible st a then insert_candidate st a cs else cs) as cs = cs" for cs
    by (induction as arbitrary: cs) simp_all
  then show ?thesis by (simp add: schedule_finalization_def)
qed

lemma compact_without_registries:
  "(\<And>a. a \<in> set as \<Longrightarrow> registry_of st a = None) \<Longrightarrow> compact_finalization_registries n as st = Some st"
  by (induction as) simp_all

text \<open>Cells outside the FIFO keep their queue links.\<close>

lemma enqueue_links:
  assumes ok: "queue_ok st q Q" and b: "b \<noteq> a" "b \<notin> set Q"
  shows "queue_links (fst (enqueue_cell a (st, q))) b = queue_links st b"
proof -
  have "is_heap (queue_tail q) \<Longrightarrow> heap_address (queue_tail q) \<in> set Q"
    using queue_links_closed(1) [OF ok] by auto
  then have "is_heap (queue_tail q) \<Longrightarrow> b \<noteq> heap_address (queue_tail q)" using b by blast
  then show ?thesis using b(1) by (auto simp: enqueue_cell_def Let_def split: option.split)
qed

lemma batch_links:
  assumes "queue_ok st q Q" "distinct B" "\<forall>a \<in> set B. a \<noteq> 0 \<and> a \<le> PAYLOAD_MASK \<and>
      (\<exists>c. record_of st a = Some c \<and> \<not> cell_queued c \<and> \<not> cell_processed c)"
    "b \<notin> set (Q @ B)"
  shows "queue_links (fst (fold enqueue_cell B (st, q))) b = queue_links st b"
  using assms
proof (induction B arbitrary: st q Q)
  case (Cons a B)
  obtain st1 q1 where e: "enqueue_cell a (st, q) = (st1, q1)" by (cases "enqueue_cell a (st, q)")
  obtain c where c: "record_of st a = Some c" "\<not> cell_queued c" "\<not> cell_processed c" "a \<noteq> 0" "a \<le> PAYLOAD_MASK" using Cons.prems(3) by auto
  note q1 = enqueue_correct [OF Cons.prems(1) c(1,4,5,2,3) e]
  have "queue_links st1 b = queue_links st b" using enqueue_links [OF Cons.prems(1), of b a] Cons.prems(4) e by simp
  moreover have "queue_links (fst (fold enqueue_cell B (st1, q1))) b = queue_links st1 b"
  proof (rule Cons.IH [OF q1(1)])
    show "\<forall>x \<in> set B. x \<noteq> 0 \<and> x \<le> PAYLOAD_MASK \<and> (\<exists>c. record_of st1 x = Some c \<and> \<not> cell_queued c \<and> \<not> cell_processed c)"
      using Cons.prems(2,3) by (auto simp: q1(2))
  qed (use Cons.prems in auto)
  ultimately show ?case by (simp add: e)
qed simp

lemma schedule_links:
  assumes "queue_ok st q Q" "distinct os" "\<forall>a \<in> set os. a \<noteq> 0 \<and> a \<le> PAYLOAD_MASK"
    "schedule_finalization os (st, q) = (st', q')" "b \<notin> set (Q @ candidates st os)"
  shows "queue_links st' b = queue_links st b"
proof -
  have "\<exists>c. record_of st a = Some c \<and> \<not> cell_queued c \<and> \<not> cell_processed c" if "newly_eligible st a" for a
    using that by (auto simp: newly_eligible_def record_of_def split: option.splits)
  then have "\<forall>a \<in> set (candidates st os). a \<noteq> 0 \<and> a \<le> PAYLOAD_MASK \<and>
      (\<exists>c. record_of st a = Some c \<and> \<not> cell_queued c \<and> \<not> cell_processed c)"
    using assms(3) by (simp add: candidates_props(1) [OF assms(2)])
  from batch_links [OF assms(1) candidates_props(2) [OF assms(2)] this assms(5)] assms(4)
  show ?thesis by (simp add: schedule_finalization_def candidates_def Let_def)
qed

end
