(* ===== verification/Collector_Correct.thy ===== *)
theory Collector_Correct
  imports Collector_Passes
begin

text \<open>
  The collection keeps the invariant of the heap and frees exactly what is unreachable. \<open>phased\<close>
  relates the heap after marking to the heap before the sweep; \<open>survivors\<close> is the heap after it.
\<close>

subsection \<open>The invariant depends on the bodies only\<close>

lemma same_bodies:
  assumes "bodies st' = bodies st"
  shows "table_of st' = table_of st" "entry_of st' = entry_of st" "cell_of st' = cell_of st" "registry_of st' = registry_of st"
    "is_table st' = is_table st" "is_entry st' = is_entry st" "dom st' = dom st" "string_units st' = string_units st"
proof -
  show k: "table_of st' = table_of st" "entry_of st' = entry_of st" "cell_of st' = cell_of st" "registry_of st' = registry_of st"
    by (intro ext; simp add: kind_views assms)+
  show "is_table st' = is_table st" "is_entry st' = is_entry st" by (simp_all add: fun_eq_iff is_table_def is_entry_def k)
  show "dom st' = dom st" using assms by (metis dom_bodies)
  have u: "string_units s v = (if is_heap v then case bodies s (heap_address v) of Some (HEAP_STRING us) \<Rightarrow> Some us | _ \<Rightarrow> None else None)" for s v
    by (auto simp: string_units_def bodies_def split: option.splits heap_body.splits)
  show "string_units st' = string_units st" by (rule ext) (simp add: u assms)
qed

lemma queue_ok_cong:
  assumes ok: "queue_ok st q Q" and l: "\<And>a. a \<in> set Q \<Longrightarrow> queue_links st' a = queue_links st a"
    and q: "\<And>a c'. record_of st' a = Some c' \<Longrightarrow> \<exists>c. record_of st a = Some c \<and> cell_queued c = cell_queued c'"
    and w: "\<And>a. a \<in> set Q \<Longrightarrow> cell_of st' a \<noteq> None \<and> waiting st' a = waiting st a"
  shows "queue_ok st' q Q"
proof -
  note k = ok [unfolded queue_ok_def]
  have "forward (queue_links st') (queue_head q) Q = forward (queue_links st) (queue_head q) Q"
    using l by (intro forward_cong) simp
  moreover have "filter (waiting st') Q = filter (waiting st) Q" using w by (intro filter_cong) auto
  moreover have "\<forall>a c'. record_of st' a = Some c' \<longrightarrow> (cell_queued c' \<longleftrightarrow> a \<in> set Q)" using k q by metis
  moreover have "\<forall>a \<in> set Q. record_of st' a \<noteq> None" using w by simp
  ultimately show ?thesis using k unfolding queue_ok_def by auto
qed

lemma registries_ok_cong:
  assumes ok: "registries_ok st C" and r: "registry_of st' = registry_of st" and l: "cell_links st' = cell_links st"
    and d: "\<And>a. cell_of st' a = None \<longleftrightarrow> cell_of st a = None"
  shows "registries_ok st' C"
  using ok by (auto simp: registries_ok_def registry_ok_def r l d)

subsection \<open>The passes together\<close>

definition phased ::
  "u64 list \<Rightarrow> store \<Rightarrow> (u64 \<Rightarrow> u64 list) \<Rightarrow> (u64 \<Rightarrow> u64 list) \<Rightarrow> u64 list \<Rightarrow> store \<Rightarrow> store \<Rightarrow> finalization_queue \<Rightarrow>
    store \<Rightarrow> (u64 \<Rightarrow> u64 list) \<Rightarrow> (u64 \<Rightarrow> u64 list) \<Rightarrow> u64 list \<Rightarrow> bool" where
  "phased os st E C Q st2 st3 q' st4 E' C' Q' \<longleftrightarrow>
     weakened os st E st2 E' \<and>
     Q' = Q @ candidates st2 os \<and> queue_ok st3 q' Q' \<and>
     record_of st3 = (\<lambda>a. if a \<in> set (candidates st2 os) then map_option scheduled (record_of st2 a) else record_of st2 a) \<and>
     queue_frame st2 st3 \<and> (\<forall>b. b \<notin> set Q' \<longrightarrow> queue_links st3 b = queue_links st2 b) \<and>
     compacted os st3 C st4 C'"

lemma weakened_cells:
  assumes w: "weakened os st E st2 E'" and d: "dom st = set os"
  shows "\<not> is_table st a \<Longrightarrow> \<not> is_entry st a \<Longrightarrow> bodies st2 a = map_option (\<lambda>b. if is_marked st a then weaken st b else b) (bodies st a)"
    and "registry_of st2 = registry_of st"
    and "cell_of st2 a = map_option (\<lambda>c. if is_marked st a then c\<lparr>cell_token := dead_reference st (cell_token c)\<rparr> else c) (cell_of st a)"
proof -
  note v = weakened_views(1-3) [OF w]
  show b: "bodies st2 a = map_option (\<lambda>b. if is_marked st a then weaken st b else b) (bodies st a)"
    if "\<not> is_table st a" "\<not> is_entry st a" for a
  proof (cases "st a")
    case None
    then show ?thesis using v(3) by (auto simp: bodies_def domIff)
  next
    case (Some ob)
    then have "a \<in> set os" using d by auto
    then have "st2 a = Some (if marked ob then ob\<lparr>body := weaken st (body ob)\<rparr> else ob)"
      using w Some that unfolding weakened_def by auto
    then show ?thesis using Some by (simp add: bodies_def is_marked_def)
  qed
  have weaken_kind: "(case weaken st b of HEAP_FINALIZATION_REGISTRY r \<Rightarrow> Some r | _ \<Rightarrow> None) = (case b of HEAP_FINALIZATION_REGISTRY r \<Rightarrow> Some r | _ \<Rightarrow> None)"
    "(case weaken st b of HEAP_FINALIZATION_CELL r \<Rightarrow> Some r | _ \<Rightarrow> None) =
      (case b of HEAP_FINALIZATION_CELL c \<Rightarrow> Some (c\<lparr>cell_token := dead_reference st (cell_token c)\<rparr>) | _ \<Rightarrow> None)" for b
    by (cases b; simp)+
  have te: "cell_of s x = None \<and> registry_of s x = None" if "is_table s x \<or> is_entry s x" for s x
    using that by (auto simp: is_table_def is_entry_def kind_views split: option.splits heap_body.splits)
  show "registry_of st2 = registry_of st"
  proof
    fix x show "registry_of st2 x = registry_of st x"
    proof (cases "is_table st x \<or> is_entry st x")
      case True
      then show ?thesis using te [of st x] te [of st2 x] v by simp
    next
      case False
      then show ?thesis using b [of x] weaken_kind(1) by (simp add: kind_views split: option.split)
    qed
  qed
  show "cell_of st2 a = map_option (\<lambda>c. if is_marked st a then c\<lparr>cell_token := dead_reference st (cell_token c)\<rparr> else c) (cell_of st a)"
  proof (cases "is_table st a \<or> is_entry st a")
    case True
    then show ?thesis using te [of st a] te [of st2 a] v by simp
  next
    case False
    then show ?thesis using b [of a] weaken_kind(2) by (simp add: kind_views split: option.split heap_body.split)
  qed
qed


text \<open>What the phases leave of each kind of object.\<close>

lemma not_entry_cell: "is_table st a \<or> is_entry st a \<Longrightarrow> cell_of st a = None \<and> registry_of st a = None"
  by (auto simp: is_table_def is_entry_def kind_views split: option.splits heap_body.splits)

lemma phased_views:
  assumes ok: "store_ok st q table E C Q" and p: "phased os st E C Q st2 st3 q' st4 E' C' Q'" and d: "dom st = set os"
  shows "is_table st4 = is_table st" "is_entry st4 = is_entry st" "dom st4 = dom st" "entry_of st4 = entry_of st2" "table_of st4 = table_of st2"
    and "registry_of st4 a = None \<longleftrightarrow> registry_of st a = None" "cell_of st4 a = None \<longleftrightarrow> cell_of st a = None"
    and "is_marked st4 = (\<lambda>b. is_marked st b \<and> b \<notin> dropped st E E' \<and> b \<notin> given_up os st3 C)"
    and "\<not> internal st a \<Longrightarrow> registry_of st a = None \<Longrightarrow> \<not> is_table st a \<Longrightarrow>
      bodies st4 a = map_option (\<lambda>b. if is_marked st a then weaken st b else b) (bodies st a)"
    and "map_option registry_callback (registry_of st4 a) = map_option registry_callback (registry_of st a)"
    and "registries_ok st3 C" "registry_of st3 = registry_of st" "record_of st4 = record_of st3" "queue_links st4 = queue_links st3"
    and "is_marked st3 = is_marked st2"
proof -
  note w = p [unfolded phased_def, THEN conjunct1]
  have qf: "queue_frame st2 st3" and cp: "compacted os st3 C st4 C'" using p unfolding phased_def by blast+
  note v = weakened_views(1-3) [OF w] and wc = weakened_cells [OF w d]
  note f = qf [unfolded queue_frame_def] and c = cp [unfolded compacted_def]
  have cell2: "cell_of st2 x = None \<longleftrightarrow> cell_of st x = None" for x by (simp add: wc(3))
  have cell3: "cell_of st3 x = None \<longleftrightarrow> cell_of st x = None" for x using f cell2 by (metis domIff)
  have reg3: "registry_of st3 = registry_of st" using f wc(2) by simp
  have rec4: "record_of st4 = record_of st3" using c by blast
  have cell4: "cell_of st4 x = None \<longleftrightarrow> cell_of st x = None" for x using rec4 cell3 by (metis record_of_None)
  have reg4: "registry_of st4 x = None \<longleftrightarrow> registry_of st x = None" for x
    using c reg3 by (metis option.map_disc_iff)
  have regs: "registries_ok st C" using ok by (simp add: store_ok_def)
  have links2: "cell_links st2 = cell_links st" by (simp add: fun_eq_iff cell_links_def wc(3) option.map_comp comp_def if_distrib cong: if_cong)
  have links3: "cell_links st3 = cell_links st" using f links2 by simp
  show regs3: "registries_ok st3 C" using registries_ok_cong [OF regs reg3 links3 cell3] .
  have same34: "st4 x = st3 x" if "registry_of st x = None" "cell_of st x = None" for x
  proof -
    have "\<forall>r. registry_of st3 r \<noteq> None \<longrightarrow> x \<notin> set (C r)" using registry_cells [OF regs3, of _ x] that(2) cell3 by blast
    then show ?thesis using c that(1) unfolding reg3 by blast
  qed
  have same23: "st3 x = st2 x" if "cell_of st x = None" for x using f that cell2 by blast
  have b42: "bodies st4 x = bodies st2 x" if "registry_of st x = None" "cell_of st x = None" for x
    using same34 [OF that] same23 [OF that(2)] by (simp add: bodies_def)
  have te: "entry_of st4 x = entry_of st2 x \<and> table_of st4 x = table_of st2 x" for x
  proof (cases "registry_of st x = None \<and> cell_of st x = None")
    case True
    then show ?thesis using b42 [of x] by (simp add: kind_views)
  next
    case False
    then have "entry_of s x = None \<and> table_of s x = None" if "registry_of s x \<noteq> None \<or> cell_of s x \<noteq> None" for s
      using that by (auto simp: kind_views split: option.splits heap_body.splits)
    moreover have "registry_of st2 x \<noteq> None \<or> cell_of st2 x \<noteq> None" using False wc(2) cell2 by simp
    moreover have "registry_of st4 x \<noteq> None \<or> cell_of st4 x \<noteq> None" using False reg4 cell4 by simp
    ultimately show ?thesis using False reg4 by (metis option.distinct(1))
  qed
  show e: "entry_of st4 = entry_of st2" "table_of st4 = table_of st2" using te by (simp_all add: fun_eq_iff)
  show "is_table st4 = is_table st" "is_entry st4 = is_entry st" using v by (simp_all add: fun_eq_iff is_table_def is_entry_def e)
  show "dom st4 = dom st" using c f v(3) by simp
  show "registry_of st4 a = None \<longleftrightarrow> registry_of st a = None" "cell_of st4 a = None \<longleftrightarrow> cell_of st a = None" by (rule reg4) (rule cell4)
  show "is_marked st3 = is_marked st2" using f by blast
  have "is_marked st2 = (\<lambda>b. is_marked st b \<and> b \<notin> dropped st E E')" using w unfolding weakened_def by blast
  moreover have "is_marked st4 = (\<lambda>b. is_marked st3 b \<and> b \<notin> given_up os st3 C)" using c by blast
  ultimately show "is_marked st4 = (\<lambda>b. is_marked st b \<and> b \<notin> dropped st E E' \<and> b \<notin> given_up os st3 C)"
    using f by (simp add: fun_eq_iff)
  show "bodies st4 a = map_option (\<lambda>b. if is_marked st a then weaken st b else b) (bodies st a)"
    if "\<not> internal st a" "registry_of st a = None" "\<not> is_table st a"
    using that b42 [of a] wc(1) [of a] by (simp add: internal_def)
  show "map_option registry_callback (registry_of st4 a) = map_option registry_callback (registry_of st a)"
    using c by (simp add: reg3)
  show "registry_of st3 = registry_of st" "record_of st4 = record_of st3" "queue_links st4 = queue_links st3"
    using reg3 rec4 c by blast+
qed

definition is_candidate :: "u64 list \<Rightarrow> store \<Rightarrow> u64 \<Rightarrow> bool" where
  "is_candidate os st2 a \<longleftrightarrow> a \<in> set (candidates st2 os)"

lemma phased_cell:
  assumes ok: "store_ok st q table E C Q" and p: "phased os st E C Q st2 st3 q' st4 E' C' Q'" and d: "dom st = set os"
    and c: "cell_of st a = Some c"
  obtains c' where "cell_of st4 a = Some c'" "cell_registry c' = cell_registry c" "cell_holdings c' = cell_holdings c"
    "cell_processed c' = cell_processed c" "cell_token c' = (if is_marked st a then dead_reference st (cell_token c) else cell_token c)"
    "cell_target c' = (if is_candidate os st2 a then oseo_undefined else cell_target c)"
    "cell_queued c' = (cell_queued c \<or> is_candidate os st2 a)"
    "a \<notin> set Q' \<longrightarrow> cell_queue_next c' = cell_queue_next c"
    "(\<forall>r. registry_of st r \<noteq> None \<longrightarrow> a \<notin> set (C r)) \<longrightarrow> next_cell c' = next_cell c"
    "\<forall>r. registry_of st r \<noteq> None \<longrightarrow> is_marked st r \<longrightarrow> a \<in> set (C r) \<longrightarrow> cell_processed c \<longrightarrow> \<not> is_heap (next_cell c')"
proof -
  note v = phased_views [OF ok p d]
  note w = p [unfolded phased_def, THEN conjunct1]
  note wc = weakened_cells [OF w d]
  have cp: "compacted os st3 C st4 C'" and qf: "queue_frame st2 st3" using p unfolding phased_def by blast+
  define c2 where "c2 = (if is_marked st a then c\<lparr>cell_token := dead_reference st (cell_token c)\<rparr> else c)"
  have st2: "cell_of st2 a = Some c2" using wc(3) [of a] c by (simp add: c2_def)
  obtain c' where c': "cell_of st4 a = Some c'" using v(7) [of a] c by fastforce
  obtain c3 where c3: "cell_of st3 a = Some c3" using v(13) c' by (metis record_of_None not_None_eq)
  let ?clear = "\<lambda>x. x\<lparr>next_cell := oseo_undefined, cell_queue_next := oseo_undefined\<rparr>"
  have "record_of st4 a = (if is_candidate os st2 a then map_option scheduled (record_of st2 a) else record_of st2 a)"
    using p v(13) unfolding phased_def is_candidate_def by metis
  then have X: "?clear c' = (if is_candidate os st2 a then scheduled (?clear c2) else ?clear c2)"
    using record_cell [OF c'] record_cell [OF st2] by (simp split: if_splits)
  have field: "f c' = f (if is_candidate os st2 a then scheduled (?clear c2) else ?clear c2)"
    if "\<And>x. f (?clear x) = f x" for f :: "finalization_cell \<Rightarrow> 'z"
    using arg_cong [OF X, of f] that by simp
  have f3: "cell_of st3 a = Some c3 \<and> cell_links st3 a = cell_links st2 a" using qf c3 unfolding queue_frame_def by metis
  have n3: "next_cell c3 = next_cell c" using f3 st2 by (auto simp: cell_links_def c2_def split: if_splits)
  have cons: "consumed st3 a = cell_processed c"
  proof -
    have "record_of st3 a = Some (?clear c')" using v(13) record_cell [OF c'] by simp
    moreover have "cell_processed c' = cell_processed c" using field [of cell_processed] by (simp add: scheduled_def c2_def split: if_splits)
    ultimately show ?thesis by (simp add: consumed_def)
  qed
  show thesis
  proof (rule that [OF c'])
    show "cell_registry c' = cell_registry c" using field [of cell_registry] by (simp add: scheduled_def c2_def split: if_splits)
    show "cell_holdings c' = cell_holdings c" using field [of cell_holdings] by (simp add: scheduled_def c2_def split: if_splits)
    show "cell_processed c' = cell_processed c" using field [of cell_processed] by (simp add: scheduled_def c2_def split: if_splits)
    show "cell_token c' = (if is_marked st a then dead_reference st (cell_token c) else cell_token c)"
      using field [of cell_token] by (simp add: scheduled_def c2_def split: if_splits)
    show "cell_target c' = (if is_candidate os st2 a then oseo_undefined else cell_target c)"
      using field [of cell_target] by (simp add: scheduled_def c2_def split: if_splits)
    show "cell_queued c' = (cell_queued c \<or> is_candidate os st2 a)"
      using field [of cell_queued] by (simp add: scheduled_def c2_def split: if_splits)
    show "a \<notin> set Q' \<longrightarrow> cell_queue_next c' = cell_queue_next c"
    proof
      assume that: "a \<notin> set Q'"
      have "queue_links st3 a = queue_links st2 a" using p that unfolding phased_def by blast
      then have "queue_links st4 a = queue_links st2 a" using v(14) by simp
      then show "cell_queue_next c' = cell_queue_next c" using c' st2 by (simp add: queue_links_def c2_def split: if_splits)
    qed
    show "(\<forall>r. registry_of st r \<noteq> None \<longrightarrow> a \<notin> set (C r)) \<longrightarrow> next_cell c' = next_cell c"
    proof
      assume that: "\<forall>r. registry_of st r \<noteq> None \<longrightarrow> a \<notin> set (C r)"
      have "registry_of st3 a = None" using cell_not_registry [of st3 a] c3 by simp
      moreover have "\<forall>r. registry_of st3 r \<noteq> None \<longrightarrow> a \<notin> set (C r)" using that v(12) by simp
      ultimately have "st4 a = st3 a" using cp unfolding compacted_def by blast
      then have "c' = c3" using c' c3 by (simp add: cell_of_def)
      then show "next_cell c' = next_cell c" using n3 by simp
    qed
    show "\<forall>r. registry_of st r \<noteq> None \<longrightarrow> is_marked st r \<longrightarrow> a \<in> set (C r) \<longrightarrow> cell_processed c \<longrightarrow> \<not> is_heap (next_cell c')"
    proof (intro allI impI)
      fix r assume r: "registry_of st r \<noteq> None" "is_marked st r" "a \<in> set (C r)" "cell_processed c"
      have "r \<in> set os" using r(1) d by (auto simp: registry_of_def split: option.splits)
      moreover have "is_marked st3 r"
      proof -
        have "r \<notin> dropped st E E'"
        proof
          assume "r \<in> dropped st E E'"
          moreover have "weak_ok st E" using ok by (simp add: store_ok_def)
          ultimately have "is_entry st r" by (rule dropped_entries [rotated])
          then show False using not_entry_cell [of st r] r(1) by simp
        qed
        moreover have "is_marked st2 = (\<lambda>b. is_marked st b \<and> b \<notin> dropped st E E')" using w unfolding weakened_def by blast
        ultimately show ?thesis using r(2) v(15) by simp
      qed
      moreover have "registry_of st3 r \<noteq> None" using r(1) v(12) by simp
      moreover have "consumed st3 a" using cons r(4) by simp
      ultimately have "\<exists>v. cell_links st4 a = Some v \<and> \<not> is_heap v" using cp r(3) unfolding compacted_def by blast
      then show "\<not> is_heap (next_cell c')" using c' by (simp add: cell_links_def)
    qed
  qed
qed

subsection \<open>The sweep\<close>

definition survivors :: "store \<Rightarrow> store" where
  "survivors st = (\<lambda>a. case st a of None \<Rightarrow> None | Some ob \<Rightarrow> if marked ob then Some (ob\<lparr>marked := False\<rparr>) else None)"

lemma survivors_views:
  "bodies (survivors st) a = (if is_marked st a then bodies st a else None)"
  "pending_of (survivors st) a = (if is_marked st a then pending_of st a else 0)"
  "\<not> is_marked (survivors st) a" "dom (survivors st) = {a. is_marked st a}"
  "table_of (survivors st) a = (if is_marked st a then table_of st a else None)"
  "entry_of (survivors st) a = (if is_marked st a then entry_of st a else None)"
  "cell_of (survivors st) a = (if is_marked st a then cell_of st a else None)"
  "registry_of (survivors st) a = (if is_marked st a then registry_of st a else None)"
proof -
  show b: "bodies (survivors st) a = (if is_marked st a then bodies st a else None)" for a
    by (auto simp: survivors_def bodies_def is_marked_def split: option.splits)
  show "pending_of (survivors st) a = (if is_marked st a then pending_of st a else 0)" "\<not> is_marked (survivors st) a"
    by (auto simp: survivors_def pending_of_def is_marked_def split: option.splits)
  show "dom (survivors st) = {a. is_marked st a}" by (auto simp: survivors_def is_marked_def split: option.splits if_splits)
  show "table_of (survivors st) a = (if is_marked st a then table_of st a else None)"
    "entry_of (survivors st) a = (if is_marked st a then entry_of st a else None)"
    "cell_of (survivors st) a = (if is_marked st a then cell_of st a else None)"
    "registry_of (survivors st) a = (if is_marked st a then registry_of st a else None)"
    by (simp_all add: kind_views b)
qed

lemma kind_count_Cons:
  "kind_count st (a # as) k = (if (case st a of None \<Rightarrow> None | Some ob \<Rightarrow> weak_record_count (body ob)) = Some k then 1 else 0) + kind_count st as k"
  by (simp add: kind_count_def)

lemma kind_count_cong: "(\<And>a. a \<in> set as \<Longrightarrow> map_option body (st a) = map_option body (st' a)) \<Longrightarrow> kind_count st as = kind_count st' as"
proof
  fix k assume same: "\<And>a. a \<in> set as \<Longrightarrow> map_option body (st a) = map_option body (st' a)"
  have "(case st a of None \<Rightarrow> None | Some ob \<Rightarrow> weak_record_count (body ob)) = (case st' a of None \<Rightarrow> None | Some ob \<Rightarrow> weak_record_count (body ob))"
    if "a \<in> set as" for a using same [OF that] by (cases "st a"; cases "st' a") auto
  then show "kind_count st as k = kind_count st' as k" unfolding kind_count_def by (intro arg_cong [where f = length] filter_cong) auto
qed

lemma sweep_correct:
  assumes "distinct as" "set as \<subseteq> dom st" "\<And>k. kind_count st as k \<le> counts k"
  shows "\<exists>counts'. sweep as st counts = Some (filter (is_marked st) as, (\<lambda>a. if a \<in> set as then survivors st a else st a), counts') \<and>
    (\<forall>k. counts' k + kind_count st as k = counts k + kind_count st (filter (is_marked st) as) k)"
  using assms
proof (induction as arbitrary: st counts)
  case (Cons a as)
  obtain ob where ob: "st a = Some ob" using Cons.prems(2) by auto
  have a: "a \<notin> set as" "distinct as" using Cons.prems(1) by auto
  have same: "kind_count (st(a := x)) bs = kind_count st bs" if "a \<notin> set bs" for x bs
    using that by (intro kind_count_cong) auto
  have marks: "filter (is_marked (st(a := x))) as = filter (is_marked st) as" for x
    using a(1) by (intro filter_cong) (auto simp: is_marked_def)
  have surv: "survivors (st(a := x)) b = survivors st b" if "b \<in> set as" for x b
    using that a(1) by (auto simp: survivors_def)
  show ?case
  proof (cases "marked ob")
    case True
    let ?st = "st(a \<mapsto> ob\<lparr>marked := False\<rparr>)"
    have "kind_count ?st as k \<le> counts k" for k
      using Cons.prems(3) [of k] by (simp only: same [OF a(1)]) (simp add: kind_count_Cons)
    moreover have "set as \<subseteq> dom ?st" using Cons.prems(2) by auto
    ultimately obtain counts' where c: "sweep as ?st counts = Some (filter (is_marked ?st) as, (\<lambda>b. if b \<in> set as then survivors ?st b else ?st b), counts')"
      "\<forall>k. counts' k + kind_count ?st as k = counts k + kind_count ?st (filter (is_marked ?st) as) k"
      using Cons.IH [OF a(2), of ?st counts] by blast
    have st: "(\<lambda>b. if b \<in> set as then survivors ?st b else ?st b) = (\<lambda>b. if b \<in> set (a # as) then survivors st b else st b)"
      using surv a(1) ob True by (auto simp: fun_eq_iff survivors_def)
    have "counts' k + kind_count st (a # as) k = counts k + kind_count st (filter (is_marked st) (a # as)) k" for k
    proof -
      have "counts' k + kind_count st as k = counts k + kind_count st (filter (is_marked st) as) k"
        using c(2) [rule_format, of k] a(1) unfolding marks by (simp only: same set_filter mem_Collect_eq simp_thms)
      then show ?thesis using ob True by (simp add: kind_count_Cons is_marked_def)
    qed
    moreover have "is_marked st a = marked ob" using ob by (simp add: is_marked_def)
    ultimately show ?thesis using c(1) ob True unfolding st marks by simp
  next
    case False
    let ?st = "st(a := None)"
    let ?counts = "count_removed (body ob) counts"
    have one: "?counts k + (if weak_record_count (body ob) = Some k then 1 else 0) = counts k" for k
    proof -
      have "weak_record_count (body ob) = Some k \<Longrightarrow> 1 \<le> counts k" using Cons.prems(3) [of k] ob by (simp add: kind_count_Cons)
      then show ?thesis by (auto simp: count_removed_def split: option.split)
    qed
    have "kind_count ?st as k \<le> ?counts k" for k
    proof -
      have "(if weak_record_count (body ob) = Some k then 1 else 0) + kind_count st as k \<le> counts k"
        using Cons.prems(3) [of k] ob by (simp add: kind_count_Cons)
      then show ?thesis using one [of k] by (simp only: same [OF a(1)])
    qed
    moreover have "set as \<subseteq> dom ?st" using Cons.prems(2) a(1) by auto
    ultimately obtain counts' where c: "sweep as ?st ?counts = Some (filter (is_marked ?st) as, (\<lambda>b. if b \<in> set as then survivors ?st b else ?st b), counts')"
      "\<forall>k. counts' k + kind_count ?st as k = ?counts k + kind_count ?st (filter (is_marked ?st) as) k"
      using Cons.IH [OF a(2), of ?st ?counts] by blast
    have st: "(\<lambda>b. if b \<in> set as then survivors ?st b else ?st b) = (\<lambda>b. if b \<in> set (a # as) then survivors st b else st b)"
      using surv a(1) ob False by (auto simp: fun_eq_iff survivors_def)
    have "counts' k + kind_count st (a # as) k = counts k + kind_count st (filter (is_marked st) (a # as)) k" for k
    proof -
      have "counts' k + kind_count st as k = ?counts k + kind_count st (filter (is_marked st) as) k"
        using c(2) [rule_format, of k] a(1) unfolding marks by (simp only: same set_filter mem_Collect_eq simp_thms)
      then show ?thesis using ob False one [of k] by (simp add: kind_count_Cons is_marked_def)
    qed
    moreover have "is_marked st a = marked ob" using ob by (simp add: is_marked_def)
    ultimately show ?thesis using c(1) ob False unfolding st marks by simp
  qed
qed (simp add: kind_count_def)

subsection \<open>What survives\<close>

definition collecting ::
  "oseo_value list \<Rightarrow> string_table option \<Rightarrow> u64 list \<Rightarrow> store \<Rightarrow> finalization_queue \<Rightarrow> (u64 \<Rightarrow> u64 list) \<Rightarrow> (u64 \<Rightarrow> u64 list) \<Rightarrow> u64 list \<Rightarrow>
    store \<Rightarrow> store \<Rightarrow> finalization_queue \<Rightarrow> store \<Rightarrow> (u64 \<Rightarrow> u64 list) \<Rightarrow> (u64 \<Rightarrow> u64 list) \<Rightarrow> u64 list \<Rightarrow> bool" where
  "collecting rs table os st q E C Q st2 st3 q' st4 E' C' Q' \<longleftrightarrow>
     store_ok st q table E C Q \<and> roots_ok st Q rs \<and> {queue_head q, queue_tail q} \<subseteq> set rs \<and>
     (\<forall>a. is_marked st a \<longleftrightarrow> reachable (bodies st) (refs rs) a) \<and> dom st = set os \<and> distinct os \<and>
     phased os st E C Q st2 st3 q' st4 E' C' Q'"

lemma collecting_parts:
  assumes "collecting rs table os st q E C Q st2 st3 q' st4 E' C' Q'"
  shows "store_ok st q table E C Q" "roots_ok st Q rs" "{queue_head q, queue_tail q} \<subseteq> set rs"
    "is_marked st a \<longleftrightarrow> reachable (bodies st) (refs rs) a" "dom st = set os" "phased os st E C Q st2 st3 q' st4 E' C' Q'" "distinct os"
  using assms unfolding collecting_def by blast+

lemma given_up_cell:
  assumes g: "collecting rs table os st q E C Q st2 st3 q' st4 E' C' Q'" and a: "a \<in> given_up os st3 C"
  shows "cell_of st a \<noteq> None"
proof -
  note p = collecting_parts [OF g] and v = phased_views [OF collecting_parts(1,6,5) [OF g]]
  obtain r where "registry_of st3 r \<noteq> None" "a \<in> set (C r)" using a by (auto simp: given_up_def)
  then show ?thesis using chains_in_store(2) [OF p(1)] v(12) by simp
qed

lemma dropped_entry:
  assumes g: "collecting rs table os st q E C Q st2 st3 q' st4 E' C' Q'" and a: "a \<in> dropped st E E'"
  shows "is_entry st a"
  using collecting_parts(1) [OF g] dropped_entries [OF _ a] by (simp add: store_ok_def)

lemma marked_survives:
  assumes g: "collecting rs table os st q E C Q st2 st3 q' st4 E' C' Q'"
  shows "is_marked st a \<Longrightarrow> \<not> internal st a \<Longrightarrow> is_marked st4 a" and "is_marked st4 a \<Longrightarrow> is_marked st a"
proof -
  note v = phased_views [OF collecting_parts(1,6,5) [OF g]]
  show "is_marked st4 a" if "is_marked st a" "\<not> internal st a"
    using that given_up_cell [OF g, of a] dropped_entry [OF g, of a] unfolding v(8) internal_def by blast
  show "is_marked st a" if "is_marked st4 a" using that unfolding v(8) by blast
qed

lemma internal_survivors:
  assumes g: "collecting rs table os st q E C Q st2 st3 q' st4 E' C' Q'"
  shows "internal (survivors st4) a \<Longrightarrow> internal st a" "is_table (survivors st4) a \<longleftrightarrow> is_marked st4 a \<and> is_table st a"
    "is_entry (survivors st4) a \<longleftrightarrow> is_marked st4 a \<and> is_entry st a"
    "registry_of (survivors st4) a \<noteq> None \<longleftrightarrow> is_marked st4 a \<and> registry_of st a \<noteq> None"
proof -
  note v = phased_views [OF collecting_parts(1,6,5) [OF g]]
  show t: "is_table (survivors st4) a \<longleftrightarrow> is_marked st4 a \<and> is_table st a"
    using fun_cong [OF v(1), of a] by (auto simp: is_table_def survivors_views(5))
  show e: "is_entry (survivors st4) a \<longleftrightarrow> is_marked st4 a \<and> is_entry st a"
    using fun_cong [OF v(2), of a] by (auto simp: is_entry_def survivors_views(6))
  show "registry_of (survivors st4) a \<noteq> None \<longleftrightarrow> is_marked st4 a \<and> registry_of st a \<noteq> None"
    using v(6) [of a] by (auto simp: survivors_views(8))
  show "internal st a" if "internal (survivors st4) a"
    using that v(7) [of a] e by (auto simp: internal_def survivors_views(7) split: if_splits)
qed

lemma program_survives:
  assumes g: "collecting rs table os st q E C Q st2 st3 q' st4 E' C' Q'"
    and v: "is_heap v \<Longrightarrow> is_marked st (heap_address v) \<and> \<not> internal st (heap_address v)"
  shows "program_value (survivors st4) v"
  using v marked_survives(1) [OF g] internal_survivors(1) [OF g] by (auto simp: program_value_def survivors_views(4))

lemma marked_closed:
  assumes g: "collecting rs table os st q E C Q st2 st3 q' st4 E' C' Q'"
    and a: "is_marked st a" "bodies st a = Some b" "v \<in> set (edges b)" "is_heap v"
  shows "is_marked st (heap_address v)"
proof -
  note p = collecting_parts [OF g]
  have "reachable (bodies st) (refs rs) a" using a(1) p(4) by simp
  then have "reachable (bodies st) (refs rs) (heap_address v)"
    using a(2) by (rule reachable.edge) (use a(3,4) in \<open>auto simp: refs_mem\<close>)
  then show ?thesis using p(4) by simp
qed

lemma held_program:
  assumes g: "collecting rs table os st q E C Q st2 st3 q' st4 E' C' Q'" and "bodies st a = Some b" "v \<in> set (held b)" "is_heap v"
  shows "\<not> internal st (heap_address v)"
  using collecting_parts(1) [OF g] assms(2-4) unfolding store_ok_def program_value_def by blast

lemma entries_survive:
  assumes g: "collecting rs table os st q E C Q st2 st3 q' st4 E' C' Q'" and t: "is_table st t" "is_marked st t"
  shows "E' t = kept st (E t)" "e \<in> set (E' t) \<Longrightarrow> is_marked st4 e"
proof -
  note p = collecting_parts [OF g] and v = phased_views [OF collecting_parts(1,6,5) [OF g]]
  have w: "weakened os st E st2 E'" using p(6) unfolding phased_def by blast
  have "t \<in> dom st" using t(2) by (rule marked_dom)
  then show k: "E' t = kept st (E t)" using w t p(5) unfolding weakened_def by auto
  show "is_marked st4 e" if e: "e \<in> set (E' t)"
  proof -
    have et: "e \<in> set (E t)" using k e kept_subset by auto
    have en: "is_entry st e" using chains_in_store(1) [OF p(1) t(1) et] .
    have "reachable (bodies st) (refs rs) e" using chains_reachable(1) [OF p(1,3) t(1) _ et] t(2) p(4) by simp
    then have "is_marked st e" using p(4) by simp
    moreover have "e \<notin> dropped st E E'"
    proof
      assume "e \<in> dropped st E E'"
      then obtain s where s: "is_table st s" "e \<in> set (E s)" "e \<notin> set (E' s)" by (auto simp: dropped_def)
      have "weak_ok st E" using p(1) by (simp add: store_ok_def)
      then have "s = t" using s t(1) et unfolding weak_ok_def by blast
      then show False using s e by simp
    qed
    moreover have "e \<notin> given_up os st3 C" using given_up_cell [OF g, of e] not_entry_cell [of st e] en by auto
    ultimately show ?thesis unfolding v(8) by blast
  qed
qed

lemma cells_survive:
  assumes g: "collecting rs table os st q E C Q st2 st3 q' st4 E' C' Q'" and r: "registry_of st r \<noteq> None" "is_marked st r"
  shows "C' r = live_cells st3 (C r)" "e \<in> set (C' r) \<Longrightarrow> is_marked st4 e"
proof -
  note p = collecting_parts [OF g] and v = phased_views [OF collecting_parts(1,6,5) [OF g]]
  have w: "weakened os st E st2 E'" and cp: "compacted os st3 C st4 C'" using p(6) unfolding phased_def by blast+
  have "\<not> is_entry st r" using not_entry_cell [of st r] r(1) by blast
  then have "r \<notin> dropped st E E'" using dropped_entry [OF g] by blast
  then have "is_marked st2 r" using w r(2) unfolding weakened_def by metis
  then have r3: "is_marked st3 r" "registry_of st3 r \<noteq> None" using v(12,15) r(1) by simp_all
  have os: "r \<in> set os" using marked_dom [OF r(2)] p(5) by simp
  have "C' = (\<lambda>r. if r \<in> set os \<and> registry_of st3 r \<noteq> None \<and> is_marked st3 r then live_cells st3 (C r) else C r)"
    using cp unfolding compacted_def by blast
  then show c: "C' r = live_cells st3 (C r)" using r3 os by simp
  show "is_marked st4 e" if e: "e \<in> set (C' r)"
  proof -
    have er: "e \<in> set (C r)" "\<not> consumed st3 e" using e c by (auto simp: live_cells_def)
    have ce: "cell_of st e \<noteq> None" using chains_in_store(2) [OF p(1) r(1) er(1)] .
    have "reachable (bodies st) (refs rs) e" using chains_reachable(2) [OF p(1,3) r(1) _ er(1)] r(2) p(4) by simp
    then have "is_marked st e" using p(4) by simp
    moreover have "e \<notin> dropped st E E'" using dropped_entry [OF g, of e] not_entry_cell [of st e] ce by blast
    moreover have "e \<notin> given_up os st3 C" 
    proof -
      have "released st3 e \<Longrightarrow> consumed st3 e" by (auto simp: released_def consumed_def split: option.splits simp del: record_of_None)
      then show ?thesis using er(2) by (auto simp: given_up_def)
    qed
    ultimately show ?thesis unfolding v(8) by blast
  qed
qed

lemma queue_survives:
  assumes g: "collecting rs table os st q E C Q st2 st3 q' st4 E' C' Q'" and e: "e \<in> set Q'"
  shows "is_marked st4 e"
proof -
  note p = collecting_parts [OF g] and v = phased_views [OF collecting_parts(1,6,5) [OF g]]
  note ph = p(6) [unfolded phased_def]
  have w: "weakened os st E st2 E'" and q3: "queue_ok st3 q' Q'" and Q': "Q' = Q @ candidates st2 os" using ph by blast+
  have "cell_of st3 e \<noteq> None" using q3 e unfolding queue_ok_def by simp
  then have "cell_of st4 e \<noteq> None" using v(13) by (metis record_of_None)
  then have ce: "cell_of st e \<noteq> None" using v(7) [of e] by simp
  have "is_marked st e"
  proof (cases "e \<in> set Q")
    case True
    then show ?thesis using chains_reachable(3) [OF p(1,3)] p(4) by blast
  next
    case False
    then have "newly_eligible st2 e" using e Q' candidates_props(1) [OF p(7), of st2] by simp
    then have "is_marked st2 e" by (auto simp: newly_eligible_def split: option.splits)
    moreover have "is_marked st2 = (\<lambda>b. is_marked st b \<and> b \<notin> dropped st E E')" using w unfolding weakened_def by blast
    ultimately show ?thesis by simp
  qed
  moreover have "e \<notin> dropped st E E'" using dropped_entry [OF g, of e] not_entry_cell [of st e] ce by blast
  moreover have "e \<notin> given_up os st3 C"
  proof -
    obtain c where c: "record_of st3 e = Some c" using q3 e unfolding queue_ok_def by fastforce
    moreover have "cell_queued c" using q3 e c unfolding queue_ok_def by blast
    ultimately show ?thesis by (simp add: given_up_def released_def)
  qed
  ultimately show ?thesis unfolding v(8) by blast
qed

lemma phased_content:
  assumes g: "collecting rs table os st q E C Q st2 st3 q' st4 E' C' Q'" and t: "is_table st t"
  shows "table_ok st4 t (E' t)" "content st4 (E' t) = content st (E' t)"
    "e \<in> set (E' t) \<Longrightarrow> \<exists>en en'. entry_of st e = Some en \<and> entry_of st4 e = Some en' \<and>
      entry_key en' = entry_key en \<and> entry_value en' = entry_value en"
proof -
  note p = collecting_parts [OF g] and v = phased_views [OF collecting_parts(1,6,5) [OF g]]
  have w: "weakened os st E st2 E'" using p(6) unfolding phased_def by blast
  note wv = weakened_views [OF w]
  show "table_ok st4 t (E' t)" using wv(4) [OF t] table_ok_views(1) [OF v(5,4)] by simp
  show c: "content st4 (E' t) = content st (E' t)" using wv(5) [OF t] table_ok_views(2) [OF v(4)] by simp
  show "\<exists>en en'. entry_of st e = Some en \<and> entry_of st4 e = Some en' \<and> entry_key en' = entry_key en \<and> entry_value en' = entry_value en"
    if e: "e \<in> set (E' t)"
  proof -
    have "e \<in> set (E t)" using weakened_subset [OF w] e by blast
    then have "is_entry st e" using chains_in_store(1) [OF p(1) t] by blast
    moreover have "is_entry st4 e" using calculation v(2) by simp
    ultimately obtain en en' where en: "entry_of st e = Some en" "entry_of st4 e = Some en'" by (auto simp: is_entry_def)
    have "the (bindings (entry_of st4) e) = the (bindings (entry_of st) e)" using c e by (auto simp: content_def)
    then show ?thesis using en by (simp add: bindings_def)
  qed
qed

lemma surviving_entry:
  assumes g: "collecting rs table os st q E C Q st2 st3 q' st4 E' C' Q'" and e: "is_marked st4 e" "is_entry st e"
  obtains t where "is_table st t" "is_marked st t" "e \<in> set (E' t)"
proof -
  note p = collecting_parts [OF g] and v = phased_views [OF collecting_parts(1,6,5) [OF g]]
  have m: "is_marked st e" "e \<notin> dropped st E E'" using e(1) unfolding v(8) by blast+
  then have "reachable (bodies st) (refs rs) e" using p(4) by simp
  then obtain t where t: "is_table st t" "reachable (bodies st) (refs rs) t" "e \<in> set (E t)"
    using reachable_kinds [OF p(1,2)] e(2) by blast
  have "e \<in> set (E' t)" using m(2) t by (auto simp: dropped_def)
  then show thesis using that t p(4) by simp
qed

text \<open>Every value a survivor holds is marked, and not internal.\<close>

lemma survivor_holds:
  assumes g: "collecting rs table os st q E C Q st2 st3 q' st4 E' C' Q'" and a: "is_marked st4 a" "bodies st4 a = Some b"
    and v: "v \<in> set (held b)" "is_heap v"
  shows "is_marked st (heap_address v) \<and> \<not> internal st (heap_address v)"
proof -
  note p = collecting_parts [OF g] and vw = phased_views [OF collecting_parts(1,6,5) [OF g]]
  have ma: "is_marked st a" using marked_survives(2) [OF g a(1)] .
  have edge: ?thesis if "bodies st a = Some b'" "v \<in> set (edges b')" "v \<in> set (held b')" for b'
    using marked_closed [OF g ma that(1,2) v(2)] held_program [OF g that(1,3) v(2)] by blast
  consider (table) "is_table st a" | (entry) "is_entry st a" | (registry) g' where "registry_of st a = Some g'"
    | (cell) c where "cell_of st a = Some c" | (other) "\<not> internal st a" "registry_of st a = None" "\<not> is_table st a"
    by (cases "registry_of st a"; cases "cell_of st a") (auto simp: internal_def)
  then show ?thesis
  proof cases
    case table
    then have "is_table st4 a" by (simp add: vw(1))
    then obtain t where "table_of st4 a = Some t" by (auto simp: is_table_def)
    then have "b = HEAP_EPHEMERON_TABLE t" using a(2) by (simp add: kind_Some)
    then show ?thesis using v(1) by simp
  next
    case entry
    obtain t where t: "is_table st t" "is_marked st t" "a \<in> set (E' t)" using surviving_entry [OF g a(1) entry] .
    obtain en en' where en: "entry_of st a = Some en" "entry_of st4 a = Some en'" "entry_key en' = entry_key en" "entry_value en' = entry_value en"
      using phased_content(3) [OF g t(1,3)] by blast
    have b: "b = HEAP_EPHEMERON_ENTRY en'" using en(2) a(2) by (simp add: kind_Some)
    have old: "bodies st a = Some (HEAP_EPHEMERON_ENTRY en)" using en(1) by (simp add: kind_Some)
    have key: "is_heap (entry_key en) \<and> is_marked st (heap_address (entry_key en))"
      using entries_survive(1) [OF g t(1,2)] t(3) en(1) by (simp add: kept_def keys_def value_is_marked_def is_heap_def)
    from v(1) consider "v = entry_key en" | "v = entry_value en" by (auto simp: b en)
    then show ?thesis
    proof cases
      case 1
      then show ?thesis using key held_program [OF g old _ v(2)] by simp
    next
      case 2
      have "reachable (bodies st) (refs rs) (heap_address v)"
      proof (rule reachable.ephemeron [where bodies = "bodies st" and a = a and entry = en])
        show "bodies st a = Some (HEAP_EPHEMERON_ENTRY en)" by (rule old)
        show "reachable (bodies st) (refs rs) a" "reachable (bodies st) (refs rs) (heap_address (entry_key en))" using ma key p(4) by simp_all
      qed (use key 2 v(2) in auto)
      then show ?thesis using p(4) held_program [OF g old _ v(2)] 2 by simp
    qed
  next
    case (registry g')
    then obtain g4 where g4: "registry_of st4 a = Some g4" "registry_callback g4 = registry_callback g'"
      using vw(10) [of a] by auto
    then have "b = HEAP_FINALIZATION_REGISTRY g4" using a(2) by (simp add: kind_Some)
    then have "v = registry_callback g'" using v(1) g4 by simp
    then show ?thesis using edge [of "HEAP_FINALIZATION_REGISTRY g'"] registry by (simp add: kind_Some)
  next
    case (cell c)
    then obtain c' where c': "cell_of st4 a = Some c'" "cell_registry c' = cell_registry c" "cell_holdings c' = cell_holdings c"
      "cell_processed c' = cell_processed c" "cell_token c' = (if is_marked st a then dead_reference st (cell_token c) else cell_token c)"
      "cell_target c' = (if is_candidate os st2 a then oseo_undefined else cell_target c)"
      by (rule phased_cell [OF p(1,6,5)])
    have b: "b = HEAP_FINALIZATION_CELL c'" using c'(1) a(2) by (simp add: kind_Some)
    have old: "bodies st a = Some (HEAP_FINALIZATION_CELL c)" using cell by (simp add: kind_Some)
    have ok: "cell_ok st Q C a c" using p(1) cell unfolding store_ok_def cells_linked_def by blast
    from v(1) consider (r) "v = cell_registry c" | (t) "v = cell_target c'" | (u) "v = cell_token c'" | (h) "v = cell_holdings c"
      by (auto simp: b c')
    then show ?thesis
    proof cases
      case r
      then show ?thesis using edge [OF old] by simp
    next
      case h
      then have "\<not> cell_processed c" using ok v(2) by (auto simp: cell_ok_def)
      then show ?thesis using edge [OF old] h by simp
    next
      case u
      then have "v = cell_token c" "value_is_marked st v" using c'(5) ma v(2) by (auto simp: dead_reference_def split: if_splits)
      then show ?thesis using held_program [OF g old _ v(2)] by (simp add: value_is_marked_def)
    next
      case t
      then have n: "\<not> is_candidate os st2 a" "v = cell_target c" using c'(6) v(2) by (auto split: if_splits)
      have w: "weakened os st E st2 E'" using p(6) unfolding phased_def by blast
      have c2: "cell_of st2 a = Some (c\<lparr>cell_token := dead_reference st (cell_token c)\<rparr>)"
        using weakened_cells(3) [OF w p(5), of a] cell ma by simp
      have "is_marked st2 a" using a(1) unfolding vw(8) using w unfolding weakened_def by metis
      moreover have "a \<in> set os" using marked_dom [OF ma] p(5) by simp
      moreover have "\<not> newly_eligible st2 a" using n(1) calculation(2) candidates_props(1) [OF p(7), of st2] by (simp add: is_candidate_def)
      moreover have "\<not> cell_processed c \<and> \<not> cell_queued c" using ok n(2) v(2) by (auto simp: cell_ok_def)
      ultimately have "value_is_marked st2 v" using c2 v(2) n(2) by (auto simp: newly_eligible_def)
      then have "is_marked st2 (heap_address v)" by (simp add: value_is_marked_def)
      then have "is_marked st (heap_address v)" using w unfolding weakened_def by metis
      then show ?thesis using held_program [OF g old _ v(2)] n(2) by simp
    qed
  next
    case other
    obtain b0 where b0: "bodies st a = Some b0" "b = weaken st b0" 
    proof -
      have "map_option (weaken st) (bodies st a) = Some b" using vw(9) [OF other] a(2) ma by simp
      then show ?thesis using that by auto
    qed
    show ?thesis
    proof (cases "\<exists>x. b0 = HEAP_WEAK_REFERENCE x")
      case True
      then obtain x where x: "b0 = HEAP_WEAK_REFERENCE x" ..
      then have "v = dead_reference st x" using v(1) b0 by simp
      then have "v = x" "value_is_marked st v" using v(2) by (auto simp: dead_reference_def split: if_splits)
      then show ?thesis using held_program [OF g b0(1) _ v(2)] x by (simp add: value_is_marked_def)
    next
      case False
      have kinds: "\<And>t. b0 \<noteq> HEAP_EPHEMERON_TABLE t" "\<And>e. b0 \<noteq> HEAP_EPHEMERON_ENTRY e" "\<And>r. b0 \<noteq> HEAP_FINALIZATION_REGISTRY r"
        "\<And>c. b0 \<noteq> HEAP_FINALIZATION_CELL c"
        using other b0(1) by (auto simp: internal_def is_table_def is_entry_def kind_Some kind_views)
      then have "held b0 = edges b0" using False by (intro held_edges) auto
      moreover have "b = b0" using b0(2) False kinds by (cases b0) auto
      ultimately show ?thesis using edge [OF b0(1)] v(1) by simp
    qed
  qed
qed


subsection \<open>The invariant after the sweep\<close>

lemma survivors_weak_ok:
  assumes g: "collecting rs table os st q E C Q st2 st3 q' st4 E' C' Q'"
  shows "weak_ok (survivors st4) E'" "entries_linked (survivors st4) E'"
proof -
  note p = collecting_parts [OF g] and s = internal_survivors [OF g]
  have w: "weak_ok st E" using p(1) by (simp add: store_ok_def)
  have wk: "weakened os st E st2 E'" using p(6) unfolding phased_def by blast
  have prog: "\<not> is_entry (survivors st4) (heap_address v)"
    if "is_marked st4 a" "bodies st4 a = Some b" "v \<in> set (held b)" "is_heap v" for a b v
    using survivor_holds [OF g that] s(3) by (simp add: internal_def)
  have bs: "bodies (survivors st4) a = Some b \<longleftrightarrow> is_marked st4 a \<and> bodies st4 a = Some b" for a b
    by (simp add: survivors_views(1))
  show "weak_ok (survivors st4) E'"
    unfolding weak_ok_def
  proof (intro conjI allI impI)
    fix a assume a: "is_table (survivors st4) a"
    then have t: "is_table st a" "is_marked st a" "is_marked st4 a" using s(2) marked_survives(2) [OF g] by blast+
    show "table_ok (survivors st4) a (E' a)"
    proof (rule table_ok_cong [OF _ _ phased_content(1) [OF g t(1)]])
      show "table_of (survivors st4) a = table_of st4 a" using t(3) by (simp add: survivors_views(5))
      show "entry_of (survivors st4) e = entry_of st4 e" if "e \<in> set (E' a)" for e
        using entries_survive(2) [OF g t(1,2) that] by (simp add: survivors_views(6))
    qed
    show "set (E' a) \<inter> set (E' b) = {}" if "is_table (survivors st4) b" "a \<noteq> b" for b
    proof -
      have "is_table st b" using that(1) s(2) by blast
      then have "set (E a) \<inter> set (E b) = {}" using w t(1) that(2) unfolding weak_ok_def by blast
      then show ?thesis using weakened_subset [OF wk, of a] weakened_subset [OF wk, of b] by blast
    qed
    show "\<not> is_entry (survivors st4) (heap_address v)" if e: "e \<in> set (E' a)" and k: "keys (entry_of (survivors st4)) e = Some v" for e v
    proof -
      have m: "is_marked st4 e" by (rule entries_survive(2) [OF g t(1,2) e])
      obtain en en' where en: "entry_of st e = Some en" "entry_of st4 e = Some en'" "entry_key en' = entry_key en"
        using phased_content(3) [OF g t(1) e] by blast
      then have v: "v = entry_key en'" using k m by (simp add: keys_def survivors_views(6))
      have "e \<in> set (E a)" using weakened_subset [OF wk] e by blast
      then obtain k' where "keys (entry_of st) e = Some k'" "is_heap k'" using weak_ok_key [OF w t(1)] by metis
      then have "is_heap v" using v en by (simp add: keys_def)
      then show ?thesis using prog [OF m, of "HEAP_EPHEMERON_ENTRY en'" v] en(2) v by (simp add: kind_Some)
    qed
  next
    fix a v assume "bodies (survivors st4) a = Some (HEAP_WEAK_REFERENCE v)" "is_heap v"
    then show "\<not> is_entry (survivors st4) (heap_address v)" using prog [of a "HEAP_WEAK_REFERENCE v" v] bs by simp
  next
    fix a c assume "bodies (survivors st4) a = Some (HEAP_FINALIZATION_CELL c)" "is_heap (cell_token c)"
    then show "\<not> is_entry (survivors st4) (heap_address (cell_token c))" using prog [of a "HEAP_FINALIZATION_CELL c" "cell_token c"] bs by simp
  qed
  show "entries_linked (survivors st4) E'"
    unfolding entries_linked_def
  proof (intro allI impI)
    fix e en assume en: "entry_of (survivors st4) e = Some en" and out: "\<forall>t. is_table (survivors st4) t \<longrightarrow> e \<notin> set (E' t)"
    have "is_entry (survivors st4) e" using en by (simp add: is_entry_def)
    then have e: "is_marked st4 e" "is_entry st e" using s(3) by blast+
    obtain t where t: "is_table st t" "is_marked st t" "e \<in> set (E' t)" using surviving_entry [OF g e] .
    have "\<not> is_entry st t" using table_not_entry t(1) by blast
    moreover have "cell_of st t = None" using not_entry_cell t(1) by blast
    ultimately have "is_marked st4 t" using marked_survives(1) [OF g t(2)] by (simp add: internal_def)
    then have False using out t s(2) by blast
    then show "\<not> is_heap (next_entry en)" ..
  qed
qed

lemma survivors_queue_ok:
  assumes g: "collecting rs table os st q E C Q st2 st3 q' st4 E' C' Q'"
  shows "queue_ok (survivors st4) q' Q'"
proof -
  note p = collecting_parts [OF g] and v = phased_views [OF collecting_parts(1,6,5) [OF g]]
  have "queue_ok st3 q' Q'" using p(6) unfolding phased_def by blast
  then show ?thesis
  proof (rule queue_ok_cong)
    fix a
    have c: "is_marked st4 a \<Longrightarrow> cell_of (survivors st4) a = cell_of st4 a" by (simp add: survivors_views(7))
    have rc: "is_marked st4 a \<Longrightarrow> record_of (survivors st4) a = record_of st3 a" using c v(13) by (metis record_of_def)
    show "\<exists>c. record_of st3 a = Some c \<and> cell_queued c = cell_queued c'" if "record_of (survivors st4) a = Some c'" for c'
    proof -
      have "is_marked st4 a" using that by (auto simp: record_of_def survivors_views(7) split: if_splits)
      then have "record_of st3 a = Some c'" using rc that by simp
      then show ?thesis by blast
    qed
    assume a: "a \<in> set Q'"
    have m: "is_marked st4 a" by (rule queue_survives [OF g a])
    show "queue_links (survivors st4) a = queue_links st3 a" using c [OF m] v(14) by (metis queue_links_def)
    have "record_of (survivors st4) a \<noteq> None" using \<open>queue_ok st3 q' Q'\<close> a unfolding rc [OF m] queue_ok_def by blast
    then have "cell_of (survivors st4) a \<noteq> None" by simp
    moreover have "waiting (survivors st4) a = waiting st3 a" unfolding waiting_def rc [OF m] ..
    ultimately show "cell_of (survivors st4) a \<noteq> None \<and> waiting (survivors st4) a = waiting st3 a" by blast
  qed
qed

lemma survivors_registries_ok:
  assumes g: "collecting rs table os st q E C Q st2 st3 q' st4 E' C' Q'"
  shows "registries_ok (survivors st4) C'" "cells_linked (survivors st4) Q' C'"
proof -
  note p = collecting_parts [OF g] and v = phased_views [OF collecting_parts(1,6,5) [OF g]] and s = internal_survivors [OF g]
  have cp: "compacted os st3 C st4 C'" and Q': "Q' = Q @ candidates st2 os" using p(6) unfolding phased_def by blast+
  then have r4: "registries_ok st4 C'" unfolding compacted_def by blast
  have C': "C' r = live_cells st3 (C r) \<or> C' r = C r" for r using cp unfolding compacted_def by metis
  have sub: "set (C' r) \<subseteq> set (C r)" for r using C' [of r] by (elim disjE) (auto simp: live_cells_def)
  have reg: "registry_of st r \<noteq> None \<and> is_marked st r \<and> is_marked st4 r" if "registry_of (survivors st4) r \<noteq> None" for r
    using that s(4) [of r] marked_survives(2) [OF g, of r] by blast
  show "registries_ok (survivors st4) C'"
    unfolding registries_ok_def
  proof (intro conjI allI impI)
    fix r assume r: "registry_of (survivors st4) r \<noteq> None"
    note rr = reg [OF r]
    have "registry_of st4 r \<noteq> None" using rr v(6) [of r] by simp
    then have ok: "registry_ok st4 r (C' r)" using r4 unfolding registries_ok_def by blast
    show "registry_ok (survivors st4) r (C' r)"
    proof (rule registry_ok_cong [OF _ _ ok])
      show "registry_of (survivors st4) r = registry_of st4 r" using rr by (simp add: survivors_views(8))
      show "cell_of (survivors st4) a = cell_of st4 a" if "a \<in> set (C' r)" for a
        using cells_survive(2) [OF g, of r a] rr that by (simp add: survivors_views(7))
    qed
    show "set (C' r) \<inter> set (C' t) = {}" if "registry_of (survivors st4) t \<noteq> None" "r \<noteq> t" for t
    proof -
      have "registry_of st4 r \<noteq> None" "registry_of st4 t \<noteq> None" using rr reg [OF that(1)] v(6) [of r] v(6) [of t] by simp_all
      then show ?thesis using r4 that(2) unfolding registries_ok_def by blast
    qed
  qed
  show "cells_linked (survivors st4) Q' C'"
    unfolding cells_linked_def
  proof (intro allI impI)
    fix a c' assume a: "cell_of (survivors st4) a = Some c'"
    then have m: "is_marked st4 a" "cell_of st4 a = Some c'" by (auto simp: survivors_views(7) split: if_splits)
    have ms: "is_marked st a" by (rule marked_survives(2) [OF g m(1)])
    have "cell_of st a \<noteq> None" using m(2) v(7) [of a] by simp
    then obtain c where c: "cell_of st a = Some c" by blast
    then have ok: "cell_ok st Q C a c" using p(1) unfolding store_ok_def cells_linked_def by blast
    have old: "bodies st a = Some (HEAP_FINALIZATION_CELL c)" using c by (simp add: kind_Some)
    obtain d where d: "cell_of st4 a = Some d" "cell_registry d = cell_registry c" "cell_holdings d = cell_holdings c"
      "cell_processed d = cell_processed c" "cell_target d = (if is_candidate os st2 a then oseo_undefined else cell_target c)"
      "cell_queued d = (cell_queued c \<or> is_candidate os st2 a)" "a \<notin> set Q' \<longrightarrow> cell_queue_next d = cell_queue_next c"
      "(\<forall>r. registry_of st r \<noteq> None \<longrightarrow> a \<notin> set (C r)) \<longrightarrow> next_cell d = next_cell c"
      "\<forall>r. registry_of st r \<noteq> None \<longrightarrow> is_marked st r \<longrightarrow> a \<in> set (C r) \<longrightarrow> cell_processed c \<longrightarrow> \<not> is_heap (next_cell d)"
      using c by (rule phased_cell [OF p(1,6,5)])
    have dc: "d = c'" using d(1) m(2) by simp
    have regm: "registry_of st r \<noteq> None \<Longrightarrow> a \<in> set (C r) \<Longrightarrow> is_marked st r \<and> is_marked st4 r" for r
    proof -
      assume r: "registry_of st r \<noteq> None" "a \<in> set (C r)"
      then have "is_heap (cell_registry c)" "heap_address (cell_registry c) = r" using ok unfolding cell_ok_def by blast+
      then have "is_marked st r" using marked_closed [OF g ms old, of "cell_registry c"] by simp
      moreover have "\<not> internal st r" using r(1) by (auto simp: internal_def is_entry_def kind_views split: option.splits heap_body.splits)
      ultimately show ?thesis using marked_survives(1) [OF g] by blast
    qed
    show "cell_ok (survivors st4) Q' C' a c'"
      unfolding cell_ok_def dc [symmetric]
    proof (intro conjI allI impI)
      show "is_heap (cell_registry d)" using ok d(2) by (simp add: cell_ok_def)
      show "heap_address (cell_registry d) = r" if "registry_of (survivors st4) r \<noteq> None" "a \<in> set (C' r)" for r
        using ok reg [OF that(1)] that(2) sub [of r] d(2) unfolding cell_ok_def by auto
      show "\<not> is_heap (next_cell d)" if out: "\<forall>r. registry_of (survivors st4) r \<noteq> None \<longrightarrow> a \<notin> set (C' r)"
      proof (cases "\<exists>r. registry_of st r \<noteq> None \<and> a \<in> set (C r)")
        case True
        then obtain r where r: "registry_of st r \<noteq> None" "a \<in> set (C r)" by blast
        have rm: "is_marked st r" "is_marked st4 r" using regm [OF r] by blast+
        have "a \<notin> set (C' r)" using out r(1) rm(2) s(4) [of r] by blast
        then have "consumed st3 a" using cells_survive(1) [OF g r(1) rm(1)] r(2) by (simp add: live_cells_def)
        then have "consumed st4 a" using v(13) by (simp add: consumed_def)
        then have "cell_processed d" using record_cell [OF d(1)] by (simp add: consumed_def)
        then show ?thesis using d(9) r(1) rm(1) r(2) d(4) by blast
      next
        case False
        then have none: "\<And>r. registry_of st r \<noteq> None \<Longrightarrow> a \<notin> set (C r)" by blast
        then have "next_cell d = next_cell c" using d(8) by blast
        moreover have "(\<forall>r. registry_of st r \<noteq> None \<longrightarrow> a \<notin> set (C r)) \<longrightarrow> \<not> is_heap (next_cell c)"
          using ok unfolding cell_ok_def by (elim conjE)
        then have "\<not> is_heap (next_cell c)" using none by simp
        ultimately show ?thesis by simp
      qed
      show "\<not> is_heap (cell_queue_next d)" if "a \<notin> set Q'"
        using d(7) ok that Q' unfolding cell_ok_def by auto
      show "\<not> is_heap (cell_holdings d)" if "cell_processed d" using that ok d(3,4) by (simp add: cell_ok_def)
      show "\<not> is_heap (cell_target d)" if "cell_processed d \<or> cell_queued d" using that ok d(4,5,6) by (auto simp: cell_ok_def)
    qed
  qed
qed

lemma string_units_survivors:
  assumes g: "collecting rs table os st q E C Q st2 st3 q' st4 E' C' Q'"
    and u: "string_units st v = Some us" and m: "value_is_marked st4 v"
  shows "string_units (survivors st4) v = Some us"
proof -
  note p = collecting_parts [OF g] and vw = phased_views [OF collecting_parts(1,6,5) [OF g]]
  have b: "is_heap v" "bodies st (heap_address v) = Some (HEAP_STRING us)"
    using u by (auto simp: string_units_def bodies_def split: if_splits option.splits heap_body.splits)
  have mk: "is_marked st4 (heap_address v)" using m by (simp add: value_is_marked_def)
  have k: "\<not> internal st (heap_address v)" "registry_of st (heap_address v) = None" "\<not> is_table st (heap_address v)"
    using b(2) by (simp_all add: internal_def is_entry_def is_table_def kind_views)
  have "bodies st4 (heap_address v) = Some (HEAP_STRING us)" using vw(9) [OF k] b(2) by simp
  then have "bodies (survivors st4) (heap_address v) = Some (HEAP_STRING us)" using mk by (simp add: survivors_views(1))
  then obtain ob where "survivors st4 (heap_address v) = Some ob" "body ob = HEAP_STRING us" by (auto simp: bodies_def)
  then show ?thesis using b(1) by (simp add: string_units_def)
qed

lemma sweep_strings:
  assumes g: "collecting rs table os st q E C Q st2 st3 q' st4 E' C' Q'"
  shows "\<exists>table'. string_table_sweep (value_is_marked st4) table = Some table' \<and>
    string_table_ok (string_units (survivors st4)) table' \<and>
    (\<forall>us. shared (string_units (survivors st4)) table' us =
      (case shared (string_units st) table us of None \<Rightarrow> None | Some v \<Rightarrow> if value_is_marked st4 v then Some v else None))"
proof (rule string_table_sweep_correct)
  show ok: "string_table_ok (string_units st) table" using collecting_parts(1) [OF g] by (simp add: store_ok_def)
  fix t v assume t: "table = Some t" "v \<in> set (entries t)" "value_is_marked st4 v"
  then obtain i where i: "i < length (entries t)" "entries t ! i = v" by (auto simp: in_set_conv_nth)
  then obtain us where us: "string_units st v = Some us" using ok t(1) by (auto simp: string_table_ok_def entries_ok_def)
  show "string_units (survivors st4) v = string_units st v" using string_units_survivors [OF g us t(3)] us by simp
qed

lemma survivors_store_ok:
  assumes g: "collecting rs table os st q E C Q st2 st3 q' st4 E' C' Q'"
    and t: "string_table_ok (string_units (survivors st4)) table'"
  shows "store_ok (survivors st4) q' table' E' C' Q'"
  unfolding store_ok_def
proof (intro conjI allI ballI impI)
  note p = collecting_parts [OF g]
  fix a assume "a \<in> dom (survivors st4)"
  then have "is_marked st4 a" by (simp add: survivors_views(4))
  then have "a \<in> dom st" using marked_survives(2) [OF g] marked_dom by blast
  then show "a \<noteq> 0" "a \<le> PAYLOAD_MASK" using p(1) unfolding store_ok_def by blast+
next
  fix a b v assume b: "bodies (survivors st4) a = Some b" and v: "v \<in> set (held b)"
  then have "is_marked st4 a" "bodies st4 a = Some b" by (auto simp: survivors_views(1) split: if_splits)
  then show "program_value (survivors st4) v" using survivor_holds [OF g _ _ v] by (intro program_survives [OF g]) blast
qed (use survivors_weak_ok [OF g] survivors_queue_ok [OF g] survivors_registries_ok [OF g] t in blast)+

subsection \<open>The collection\<close>

lemma store_ok_bodies:
  assumes b: "bodies st' = bodies st" shows "store_ok st' q table E C Q = store_ok st q table E C Q"
proof -
  note s = same_bodies [OF b]
  have w: "weak_ok st' E = weak_ok st E"
    unfolding weak_ok_def s(5,6) b s(2) using table_ok_views(1) [OF s(1,2)] by simp
  have l: "queue_links st' = queue_links st" "cell_links st' = cell_links st" "record_of st' = record_of st"
    by (simp_all add: fun_eq_iff queue_links_def cell_links_def record_of_def s)
  have wt: "waiting st' = waiting st" by (simp add: fun_eq_iff waiting_def l)
  have q: "queue_ok st' q Q = queue_ok st q Q" by (simp add: queue_ok_def l wt)
  have r: "registries_ok st' C = registries_ok st C" by (simp add: registries_ok_def registry_ok_def s l)
  have c: "cells_linked st' Q C = cells_linked st Q C" by (simp add: cells_linked_def cell_ok_def s)
  have e: "entries_linked st' E = entries_linked st E" by (simp add: entries_linked_def s)
  have pv: "program_value st' = program_value st" by (simp add: fun_eq_iff program_value_def internal_def s)
  show ?thesis unfolding store_ok_def w q r c e pv s(7,8) b ..
qed

lemma kind_count_0:
  assumes "kind_count st as k = 0" "a \<in> set as" "st a = Some ob"
  shows "weak_record_count (body ob) \<noteq> Some k"
  using assms by (auto simp: kind_count_def filter_empty_conv)

lemma weak_kinds:
  "weak_record_count b = Some WEAK_REFERENCE \<longleftrightarrow> (\<exists>v. b = HEAP_WEAK_REFERENCE v)"
  "weak_record_count b = Some EPHEMERON_TABLE \<longleftrightarrow> (\<exists>v. b = HEAP_EPHEMERON_TABLE v)"
  "weak_record_count b = Some FINALIZATION_REGISTRY \<longleftrightarrow> (\<exists>v. b = HEAP_FINALIZATION_REGISTRY v)"
  "weak_record_count b = Some FINALIZATION_CELL \<longleftrightarrow> (\<exists>v. b = HEAP_FINALIZATION_CELL v)"
  by (cases b; simp add: weak_record_count_def)+

lemma kind_count_bodies:
  assumes "bodies st' = bodies st" shows "kind_count st' as = kind_count st as"
  using assms by (intro kind_count_cong) (simp add: bodies_def fun_eq_iff)

lemma phased_kinds:
  assumes ok: "store_ok st q table E C Q" and p: "phased os st E C Q st2 st3 q' st4 E' C' Q'" and d: "dom st = set os"
  shows "kind_count st4 os = kind_count st os"
proof -
  note v = phased_views [OF ok p d]
  have kind: "(case s a of None \<Rightarrow> None | Some ob \<Rightarrow> weak_record_count (body ob)) = (case bodies s a of None \<Rightarrow> None | Some b \<Rightarrow> weak_record_count b)" for s a
    by (simp add: bodies_def split: option.split)
  have "(case bodies st4 a of None \<Rightarrow> None | Some b \<Rightarrow> weak_record_count b) = (case bodies st a of None \<Rightarrow> None | Some b \<Rightarrow> weak_record_count b)" for a
  proof -
    consider (table) "is_table st a" | (entry) "is_entry st a" | (registry) "registry_of st a \<noteq> None"
      | (cell) "cell_of st a \<noteq> None" | (other) "\<not> internal st a" "registry_of st a = None" "\<not> is_table st a"
      unfolding internal_def by blast
    then show ?thesis
    proof cases
      case table
      then have "is_table st4 a" by (simp add: v(1))
      then show ?thesis using table by (auto simp: is_table_def kind_Some weak_record_count_def)
    next
      case entry
      then have "is_entry st4 a" by (simp add: v(2))
      then show ?thesis using entry by (auto simp: is_entry_def kind_Some weak_record_count_def)
    next
      case registry
      then have "registry_of st4 a \<noteq> None" using v(6) [of a] by simp
      then show ?thesis using registry by (auto simp: kind_Some weak_record_count_def)
    next
      case cell
      then have "cell_of st4 a \<noteq> None" using v(7) [of a] by simp
      then show ?thesis using cell by (auto simp: kind_Some weak_record_count_def)
    next
      case other
      have "weak_record_count (weaken st b) = weak_record_count b" for b by (cases b) (simp_all add: weak_record_count_def)
      then show ?thesis using v(9) [OF other] by (cases "bodies st a") auto
    qed
  qed
  then show ?thesis unfolding kind_count_def kind by simp
qed

lemma registries_through:
  assumes r: "registries_ok st C" and w: "weakened os st E st2 E'" and d: "dom st = set os" and f: "queue_frame st2 st3"
  shows "registries_ok st3 C"
proof (rule registries_ok_cong [OF r])
  note wc = weakened_cells [OF w d] and f = f [unfolded queue_frame_def]
  show "registry_of st3 = registry_of st" using f wc(2) by simp
  have "cell_links st2 = cell_links st" by (simp add: fun_eq_iff cell_links_def wc(3) option.map_comp comp_def if_distrib cong: if_cong)
  then show "cell_links st3 = cell_links st" using f by simp
  have "cell_of st2 a = None \<longleftrightarrow> cell_of st a = None" for a by (simp add: wc(3))
  then show "cell_of st3 a = None \<longleftrightarrow> cell_of st a = None" for a using f by (metis domIff)
qed

lemma queue_through:
  assumes q: "queue_ok st q Q" and w: "weakened os st E st2 E'" and d: "dom st = set os"
  shows "queue_ok st2 q Q"
proof (rule queue_ok_cong [OF q])
  note wc = weakened_cells [OF w d]
  fix a
  show "queue_links st2 a = queue_links st a" by (simp add: queue_links_def wc(3) option.map_comp comp_def if_distrib cong: if_cong)
  show "\<exists>c. record_of st a = Some c \<and> cell_queued c = cell_queued c'" if "record_of st2 a = Some c'" for c'
    using that by (auto simp: record_of_def wc(3))
  assume a: "a \<in> set Q"
  have "record_of st a \<noteq> None" using q a unfolding queue_ok_def by blast
  then obtain c where "cell_of st a = Some c" by auto
  then show "cell_of st2 a \<noteq> None \<and> waiting st2 a = waiting st a" by (simp add: waiting_def record_of_def wc(3))
qed

lemma chain_length:
  assumes "distinct xs" "set xs \<subseteq> set os" "length os \<le> n" shows "length xs < Suc n"
proof -
  have "length xs = card (set xs)" using assms(1) by (simp add: distinct_card)
  also have "\<dots> \<le> card (set os)" using assms(2) by (intro card_mono) auto
  also have "\<dots> \<le> length os" by (rule card_length)
  finally show ?thesis using assms(3) by simp
qed

text \<open>Every collection of a well-formed heap ends, and \<open>collecting\<close> relates its stores.\<close>

lemma oseo_collect_run:
  assumes ok: "heap_ok h E C Q" and n: "length (heap_objects h) \<le> n"
  shows "\<exists>st1 st2 st3 q' st4 E' C' Q' table'.
    collecting (root_values h) (heap_strings h) (heap_objects h) st1 (heap_queue h) E C Q st2 st3 q' st4 E' C' Q' \<and>
    bodies st1 = bodies (heap_store h) \<and> (\<forall>a. is_marked st4 a \<longrightarrow> pending_of st4 a = 0) \<and>
    string_table_sweep (value_is_marked st4) (heap_strings h) = Some table' \<and>
    oseo_collect n h = Some (h\<lparr>collections := (if observe_specialization h then collections h + 1 else collections h),
      heap_store := survivors st4, heap_objects := filter (is_marked st4) (heap_objects h), heap_queue := q', heap_strings := table',
      weak_counts := kind_count st4 (filter (is_marked st4) (heap_objects h))\<rparr>)"
proof -
  define os where "os = heap_objects h"
  define rs where "rs = root_values h"
  define q where "q = heap_queue h"
  define counts where "counts = weak_counts h"
  note k = ok [unfolded heap_ok_def]
  have so: "store_ok (heap_store h) q (heap_strings h) E C Q" and os: "dom (heap_store h) = set os" "distinct os"
    using k unfolding q_def os_def by blast+
  have n: "length os \<le> n" using n by (simp add: os_def)
  have rs: "set rs = set (early_roots (heap_roots h) @ late_roots (heap_roots h)) \<union> {queue_head q, queue_tail q}"
    by (auto simp: rs_def root_values_def q_def)
  have qok: "queue_ok (heap_store h) q Q" using so by (simp add: store_ok_def)
  have roots: "roots_ok (heap_store h) Q rs"
    using k queue_links_closed(1) [OF qok] unfolding roots_ok_def rs by (auto split: if_splits)
  have c: "clean (heap_store h)" using k by blast
  have card: "card (dom (heap_store h)) \<le> n" using os n by (simp add: distinct_card)
  obtain s where s: "trace_ephemeron_fixed_point n n (mark_values rs \<lparr>store = heap_store h, worklist = 0\<rparr>) = Some s"
    "bodies (store s) = bodies (heap_store h)" "\<forall>a. is_marked (store s) a \<longleftrightarrow> reachable (bodies (heap_store h)) (refs rs) a"
    "\<forall>a. is_marked (store s) a \<longrightarrow> pending_of (store s) a = 0"
    using mark_phase [OF c reachable_sound [OF so roots] card] by blast
  define st1 where "st1 = store s"
  have b1: "bodies st1 = bodies (heap_store h)" using s(2) by (simp add: st1_def)
  have so1: "store_ok st1 q (heap_strings h) E C Q" using so store_ok_bodies [OF b1] by simp
  have d1: "dom st1 = set os" using same_bodies(7) [OF b1] os by simp
  have roots1: "roots_ok st1 Q rs" using roots same_bodies [OF b1] by (simp add: roots_ok_def program_value_def internal_def)
  have "\<forall>a \<in> dom st1. a \<noteq> 0 \<and> a \<le> PAYLOAD_MASK" using so1 unfolding store_ok_def by (elim conjE)
  then have low: "\<forall>a \<in> set os. a \<noteq> 0 \<and> a \<le> PAYLOAD_MASK" by (simp only: d1)
  have cnt: "counts = kind_count st1 os" using k kind_count_bodies [OF b1, of os] by (simp add: counts_def os_def)
  have none: "counts x = 0 \<Longrightarrow> a \<in> set os \<Longrightarrow> st1 a = Some ob \<Longrightarrow> weak_record_count (body ob) \<noteq> Some x" for x a ob
    unfolding cnt by (rule kind_count_0)
  have wok: "weak_ok st1 E" using so1 by (simp add: store_ok_def)
  obtain st2 E' where st2: "(if counts EPHEMERON_TABLE \<noteq> 0 \<or> counts WEAK_REFERENCE \<noteq> 0 \<or> counts FINALIZATION_CELL \<noteq> 0
      then clear_dead_weak_edges (Suc n) os st1 else Some st1) = Some st2" "weakened os st1 E st2 E'" "pending_of st2 = pending_of st1"
  proof -
    have "length (E a) < Suc n" if "is_table st1 a" for a
    proof (rule chain_length [OF _ _ n])
      have t: "table_ok st1 a (E a)" using wok that unfolding weak_ok_def by blast
      then show "distinct (E a)" unfolding table_ok_def table_core_def by blast
      show "set (E a) \<subseteq> set os" using chains_in_store(1,4) [OF so1] that d1 by blast
    qed
    then obtain st2 E' where x: "clear_dead_weak_edges (Suc n) os st1 = Some st2" "weakened os st1 E st2 E'"
      using clear_dead_weak_edges_correct [OF wok os(2)] d1 by blast
    have "clear_dead_weak_edges (Suc n) os st1 = Some st1"
      if z: "\<not> (counts EPHEMERON_TABLE \<noteq> 0 \<or> counts WEAK_REFERENCE \<noteq> 0 \<or> counts FINALIZATION_CELL \<noteq> 0)"
    proof (rule clear_without_weak)
      fix a assume a: "a \<in> set os"
      then have "a \<in> dom st1" by (simp only: d1)
      then obtain ob where "st1 a = Some ob" by (auto simp only: domIff not_None_eq)
      then show "\<exists>ob. st1 a = Some ob \<and> weak_record_count (body ob) \<notin> Some ` {EPHEMERON_TABLE, WEAK_REFERENCE, FINALIZATION_CELL}"
        using z none a by auto
    qed
    then have "(if counts EPHEMERON_TABLE \<noteq> 0 \<or> counts WEAK_REFERENCE \<noteq> 0 \<or> counts FINALIZATION_CELL \<noteq> 0
        then clear_dead_weak_edges (Suc n) os st1 else Some st1) = Some st2"
      using x(1) by (cases "counts EPHEMERON_TABLE \<noteq> 0 \<or> counts WEAK_REFERENCE \<noteq> 0 \<or> counts FINALIZATION_CELL \<noteq> 0") (simp_all only: if_True if_False simp_thms)
    then show thesis using that x(2) pending_clear_dead_weak_edges [OF x(1)] by blast
  qed
  have q2: "queue_ok st2 q Q" using so1 queue_through [OF _ st2(2) d1] by (simp add: store_ok_def)
  have d2: "dom st2 = set os" using weakened_views(3) [OF st2(2)] d1 by simp
  obtain st3 q' where st3: "(if counts FINALIZATION_CELL \<noteq> 0 then schedule_finalization os (st2, q) else (st2, q)) = (st3, q')"
    "schedule_finalization os (st2, q) = (st3, q')"
  proof (cases "counts FINALIZATION_CELL = 0")
    case True
    have "cell_of st2 a = None" if a: "a \<in> set os" for a
    proof -
      have "a \<in> dom st1" using a by (simp only: d1)
      then obtain ob where ob: "st1 a = Some ob" by (auto simp only: domIff not_None_eq)
      have "weak_record_count (body ob) \<noteq> Some FINALIZATION_CELL" using none [OF True a ob] .
      then have "cell_of st1 a = None" using ob by (cases "body ob") (simp_all add: weak_record_count_def cell_of_def)
      then show ?thesis using weakened_cells(3) [OF st2(2) d1] by simp
    qed
    then show thesis using that True schedule_without_cells [of os st2 q] by simp
  next
    case False
    then show thesis using that by (cases "schedule_finalization os (st2, q)") simp
  qed
  note sch = schedule_finalization_correct [OF q2 os(2) low st3(2)]
  have r3: "registries_ok st3 C" using so1 registries_through [OF _ st2(2) d1 sch(3)] by (simp add: store_ok_def)
  have d3: "dom st3 = set os" using sch(3) d2 unfolding queue_frame_def by blast
  have reg3: "registry_of st3 = registry_of st1" using sch(3) weakened_cells(2) [OF st2(2) d1] unfolding queue_frame_def by simp
  obtain st4 C' where st4: "(if counts FINALIZATION_REGISTRY \<noteq> 0 then compact_finalization_registries (Suc n) os st3 else Some st3) = Some st4"
    "compacted os st3 C st4 C'" "pending_of st4 = pending_of st3"
  proof -
    have "length (C r) < Suc n" if "registry_of st3 r \<noteq> None" for r
    proof (rule chain_length [OF _ _ n])
      have "registry_ok st3 r (C r)" using r3 that unfolding registries_ok_def by blast
      then show "distinct (C r)" by (simp add: registry_ok_def)
      show "set (C r) \<subseteq> set os"
      proof
        fix x assume "x \<in> set (C r)"
        then have "cell_of st3 x \<noteq> None" by (rule registry_cells [OF r3 that])
        then have "x \<in> dom st3" by (cases "st3 x") (simp_all add: cell_of_def domIff)
        then show "x \<in> set os" by (simp only: d3)
      qed
    qed
    then obtain st4 C' where x: "compact_finalization_registries (Suc n) os st3 = Some st4" "compacted os st3 C st4 C'"
      using compact_finalization_registries_correct [OF r3 os(2)] by blast
    have "compact_finalization_registries (Suc n) os st3 = Some st3" if z: "counts FINALIZATION_REGISTRY = 0"
    proof (rule compact_without_registries)
      fix a assume a: "a \<in> set os"
      then have "a \<in> dom st1" by (simp only: d1)
      then obtain ob where ob: "st1 a = Some ob" by (auto simp only: domIff not_None_eq)
      have "weak_record_count (body ob) \<noteq> Some FINALIZATION_REGISTRY" using none [OF z a ob] .
      then have "registry_of st1 a = None" using ob by (cases "body ob") (simp_all add: weak_record_count_def registry_of_def)
      then show "registry_of st3 a = None" by (simp add: reg3)
    qed
    then have "(if counts FINALIZATION_REGISTRY \<noteq> 0 then compact_finalization_registries (Suc n) os st3 else Some st3) = Some st4"
      using x(1) by (cases "counts FINALIZATION_REGISTRY \<noteq> 0") simp_all
    then show thesis using that x(2) pending_compact [OF x(1)] by blast
  qed
  have ph: "phased os st1 E C Q st2 st3 q' st4 E' C' (Q @ candidates st2 os)"
    unfolding phased_def using st2(2) sch st4(2) schedule_links [OF q2 os(2) low st3(2)] by blast
  have g: "collecting rs (heap_strings h) os st1 q E C Q st2 st3 q' st4 E' C' (Q @ candidates st2 os)"
    unfolding collecting_def using so1 roots1 ph d1 os(2) s(3) rs by (simp add: b1 st1_def [symmetric])
  obtain table' where table': "string_table_sweep (value_is_marked st4) (heap_strings h) = Some table'"
    using sweep_strings [OF g] by blast
  have cnt4: "kind_count st4 os = counts" using phased_kinds [OF so1 ph d1] cnt by simp
  have d4: "dom st4 = set os" using phased_views(3) [OF so1 ph d1] d1 by simp
  obtain counts' where sw: "sweep os st4 counts = Some (filter (is_marked st4) os, (\<lambda>a. if a \<in> set os then survivors st4 a else st4 a), counts')"
    "\<forall>k. counts' k + kind_count st4 os k = counts k + kind_count st4 (filter (is_marked st4) os) k"
    using sweep_correct [OF os(2), of st4 counts] d4 by (auto simp: cnt4)
  have st5: "(\<lambda>a. if a \<in> set os then survivors st4 a else st4 a) = survivors st4"
  proof
    fix a show "(if a \<in> set os then survivors st4 a else st4 a) = survivors st4 a"
    proof (cases "a \<in> set os")
      case False
      then have "st4 a = None" using d4 by blast
      then show ?thesis using False by (simp add: survivors_def)
    qed simp
  qed
  have counts': "counts' = kind_count st4 (filter (is_marked st4) os)" using sw(2) by (simp add: cnt4 fun_eq_iff)
  have "oseo_collect n h = Some (h\<lparr>collections := (if observe_specialization h then collections h + 1 else collections h),
      heap_store := survivors st4, heap_objects := filter (is_marked st4) os, heap_queue := q', heap_strings := table',
      weak_counts := kind_count st4 (filter (is_marked st4) os)\<rparr>)"
  proof -
    define h1 where "h1 = (if observe_specialization h then h\<lparr>collections := collections h + 1\<rparr> else h)"
    have f: "heap_store h1 = heap_store h" "heap_objects h1 = os" "heap_queue h1 = q" "heap_strings h1 = heap_strings h"
      "weak_counts h1 = counts" "root_values h1 = rs"
      by (simp_all add: h1_def os_def q_def counts_def rs_def root_values_def)
    show ?thesis
      unfolding oseo_collect_def Let_def h1_def [symmetric] f s(1) option.case st1_def [symmetric] st2(1) st3(1) prod.case st4(1) table' sw(1) st5 counts'
      by (simp add: h1_def)
  qed
  moreover have "\<forall>a. is_marked st4 a \<longrightarrow> pending_of st4 a = 0"
    using marked_survives(2) [OF g] s(4) st2(3) st4(3) pending_schedule [OF st3(2)] by (auto simp: st1_def)
  ultimately show ?thesis using g b1 table' unfolding os_def rs_def q_def by blast
qed

end
