(* ===== verification/Collector_Effect.thy ===== *)
theory Collector_Effect
  imports Collector_Correct
begin

text \<open>
  The properties of a collection, over the heap before and after it: \<open>live h a\<close> is reachability
  from the roots of \<open>h\<close>.
\<close>

definition live :: "'a heap_state_scheme \<Rightarrow> u64 \<Rightarrow> bool" where
  "live h a \<longleftrightarrow> reachable (bodies (heap_store h)) (refs (root_values h)) a"

definition live_value :: "'a heap_state_scheme \<Rightarrow> oseo_value \<Rightarrow> bool" where
  "live_value h v \<longleftrightarrow> is_heap v \<and> live h (heap_address v)"

text \<open>A cell a collection has to schedule: its target died.\<close>

definition due :: "'a heap_state_scheme \<Rightarrow> u64 \<Rightarrow> bool" where
  "due h a \<longleftrightarrow> live h a \<and> (\<exists>c. cell_of (heap_store h) a = Some c \<and> \<not> cell_processed c \<and> \<not> cell_queued c \<and>
     is_heap (cell_target c) \<and> \<not> live h (heap_address (cell_target c)))"

definition strong_body :: "heap_body \<Rightarrow> bool" where
  "strong_body b \<longleftrightarrow> weak_record_count b = None \<and> (\<forall>e. b \<noteq> HEAP_EPHEMERON_ENTRY e)"

definition collected :: "'a heap_state_scheme \<Rightarrow> u64 list \<Rightarrow> 'a heap_state_scheme \<Rightarrow> u64 list \<Rightarrow> bool" where
  "collected h Q h' Q' \<longleftrightarrow>
     (\<forall>a. a \<in> dom (heap_store h') \<longrightarrow> live h a) \<and>
     (\<forall>a. \<not> internal (heap_store h) a \<longrightarrow> live h a \<longrightarrow> a \<in> dom (heap_store h')) \<and>
     (\<forall>a b. live h a \<longrightarrow> bodies (heap_store h) a = Some b \<longrightarrow> strong_body b \<longrightarrow> bodies (heap_store h') a = Some b) \<and>
     (\<forall>a v. live h a \<longrightarrow> bodies (heap_store h) a = Some (HEAP_WEAK_REFERENCE v) \<longrightarrow>
        bodies (heap_store h') a = Some (HEAP_WEAK_REFERENCE (if is_heap v \<and> \<not> live_value h v then oseo_undefined else v))) \<and>
     (\<forall>a k. live h a \<longrightarrow> is_table (heap_store h) a \<longrightarrow>
        ephemeron_get (heap_value a) k (heap_store h') =
          (if live_value h k then ephemeron_get (heap_value a) k (heap_store h) else None)) \<and>
     (\<exists>B. Q' = Q @ B \<and> distinct B \<and> sorted (map (order_of (heap_store h)) B) \<and> set B = {a. due h a}) \<and>
     (\<forall>a c'. cell_of (heap_store h') a = Some c' \<longrightarrow> (\<exists>c. cell_of (heap_store h) a = Some c \<and>
        cell_registry c' = cell_registry c \<and> cell_holdings c' = cell_holdings c \<and> cell_processed c' = cell_processed c)) \<and>
     (\<forall>us. shared (string_units (heap_store h')) (heap_strings h') us =
        (case shared (string_units (heap_store h)) (heap_strings h) us of
           None \<Rightarrow> None | Some v \<Rightarrow> if live_value h v then Some v else None))"

lemma map_of_filter_keys: "map_of (filter (\<lambda>(k, v). P k) xs) k = (if P k then map_of xs k else None)"
  by (induction xs) auto

lemma content_kept: "content st (filter (\<lambda>e. P (the (keys (entry_of st) e))) E) = filter (\<lambda>(k, v). P k) (content st E)"
  if "\<And>e. e \<in> set E \<Longrightarrow> is_entry st e"
  using that
proof (induction E)
  case (Cons a E)
  have "is_entry st a" using Cons.prems by simp
  then obtain en where "entry_of st a = Some en" by (auto simp: is_entry_def)
  then show ?case using Cons by (simp add: content_def bindings_def keys_def)
qed (simp add: content_def)

lemma collecting_tables:
  assumes g: "collecting rs table os st q E C Q st2 st3 q' st4 E' C' Q'" and t: "is_table st a" "is_marked st a" and a: "a \<le> PAYLOAD_MASK"
  shows "ephemeron_get (heap_value a) k (survivors st4) = (if value_is_marked st k then ephemeron_get (heap_value a) k st else None)"
proof -
  note p = collecting_parts [OF g]
  have w: "weak_ok st E" using p(1) by (simp add: store_ok_def)
  have m4: "is_marked st4 a"
    using marked_survives(1) [OF g t(2)] table_not_entry [OF t(1)] not_entry_cell [of st a] t(1) by (simp add: internal_def)
  have "is_table (survivors st4) a" using internal_survivors(2) [OF g] t(1) m4 by blast
  then have ok: "table_ok (survivors st4) a (E' a)" using survivors_weak_ok(1) [OF g] unfolding weak_ok_def by blast
  have ok0: "table_ok st a (E a)" using w t(1) unfolding weak_ok_def by blast
  have "content (survivors st4) (E' a) = content st4 (E' a)"
    using entries_survive(2) [OF g t] by (simp add: content_def bindings_def survivors_views(6))
  also have "\<dots> = content st (E' a)" by (rule phased_content(2) [OF g t(1)])
  also have "\<dots> = filter (\<lambda>(k, v). value_is_marked st k) (content st (E a))"
    unfolding entries_survive(1) [OF g t] kept_def by (rule content_kept) (rule table_entries(1) [OF ok0])
  finally have "map_of (content (survivors st4) (E' a)) k = (if value_is_marked st k then map_of (content st (E a)) k else None)"
    by (simp only: map_of_filter_keys)
  then show ?thesis using ephemeron_get_content(1) [OF ok a] ephemeron_get_content(1) [OF ok0 a] by simp
qed

lemma collecting_due:
  assumes g: "collecting rs table os st q E C Q st2 st3 q' st4 E' C' Q'"
  shows "\<exists>B. Q' = Q @ B \<and> distinct B \<and> sorted (map (order_of st) B) \<and>
    set B = {a. is_marked st a \<and> (\<exists>c. cell_of st a = Some c \<and> \<not> cell_processed c \<and> \<not> cell_queued c \<and>
      is_heap (cell_target c) \<and> \<not> value_is_marked st (cell_target c))}"
proof (intro exI conjI)
  note p = collecting_parts [OF g]
  have w: "weakened os st E st2 E'" and Q': "Q' = Q @ candidates st2 os" using p(6) unfolding phased_def by blast+
  have wok: "weak_ok st E" using p(1) by (simp add: store_ok_def)
  note wc = weakened_cells [OF w p(5)] and cp = candidates_props [OF p(7), of st2]
  show "Q' = Q @ candidates st2 os" by (rule Q')
  show "distinct (candidates st2 os)" by (rule cp(2))
  have "order_of st2 = order_of st" by (simp add: fun_eq_iff order_of_def wc(3) split: option.split)
  then show "sorted (map (order_of st) (candidates st2 os))" using cp(3) by simp
  have cell: "\<not> is_entry st a \<and> a \<in> set os \<and> a \<in> dom st" if "cell_of st a = Some c" for a c
  proof -
    have "a \<in> dom st" using that by (auto simp: cell_of_def split: option.splits)
    then show ?thesis using not_entry_cell [of st a] that p(5) by auto
  qed
  have tgt: "value_is_marked st2 (cell_target c) = value_is_marked st (cell_target c)" if c: "cell_of st a = Some c" for a c
  proof (rule weakened_value_marked(1) [OF wok w])
    assume h: "is_heap (cell_target c)"
    have b: "bodies st a = Some (HEAP_FINALIZATION_CELL c)" using c by (simp add: kind_Some)
    show "\<not> is_entry st (heap_address (cell_target c))" using held_program [OF g b _ h] by (simp add: internal_def)
  qed
  have elig: "newly_eligible st2 a \<longleftrightarrow> is_marked st a \<and> (\<exists>c. cell_of st a = Some c \<and> \<not> cell_processed c \<and> \<not> cell_queued c \<and>
      is_heap (cell_target c) \<and> \<not> value_is_marked st (cell_target c))" for a
  proof (cases "cell_of st a")
    case None
    then show ?thesis by (simp add: newly_eligible_def wc(3))
  next
    case (Some c)
    then show ?thesis using weakened_mark [OF wok w, of a] cell [OF Some] tgt [OF Some]
      by (auto simp: newly_eligible_def wc(3))
  qed
  show "set (candidates st2 os) = {a. is_marked st a \<and> (\<exists>c. cell_of st a = Some c \<and> \<not> cell_processed c \<and> \<not> cell_queued c \<and>
      is_heap (cell_target c) \<and> \<not> value_is_marked st (cell_target c))}"
    unfolding cp(1) elig using cell by blast
qed

lemma oseo_collect_effect:
  assumes ok: "heap_ok h E C Q" and n: "length (heap_objects h) \<le> n"
  shows "\<exists>h' E' C' Q'. oseo_collect n h = Some h' \<and> heap_ok h' E' C' Q' \<and> collected h Q h' Q'"
proof -
  obtain st1 st2 st3 q' st4 E' C' Q' table' where
    g: "collecting (root_values h) (heap_strings h) (heap_objects h) st1 (heap_queue h) E C Q st2 st3 q' st4 E' C' Q'" and
    b1: "bodies st1 = bodies (heap_store h)" and pend: "\<forall>a. is_marked st4 a \<longrightarrow> pending_of st4 a = 0" and
    tab: "string_table_sweep (value_is_marked st4) (heap_strings h) = Some table'" and
    run: "oseo_collect n h = Some (h\<lparr>collections := (if observe_specialization h then collections h + 1 else collections h),
      heap_store := survivors st4, heap_objects := filter (is_marked st4) (heap_objects h), heap_queue := q', heap_strings := table',
      weak_counts := kind_count st4 (filter (is_marked st4) (heap_objects h))\<rparr>)"
    using oseo_collect_run [OF ok n] by blast
  define h' where "h' = h\<lparr>collections := (if observe_specialization h then collections h + 1 else collections h),
      heap_store := survivors st4, heap_objects := filter (is_marked st4) (heap_objects h), heap_queue := q', heap_strings := table',
      weak_counts := kind_count st4 (filter (is_marked st4) (heap_objects h))\<rparr>"
  have h': "heap_store h' = survivors st4" "heap_objects h' = filter (is_marked st4) (heap_objects h)" "heap_queue h' = q'"
    "heap_strings h' = table'" "weak_counts h' = kind_count st4 (filter (is_marked st4) (heap_objects h))" "heap_roots h' = heap_roots h"
    by (simp_all add: h'_def)
  note p = collecting_parts [OF g] and v = phased_views [OF collecting_parts(1,6,5) [OF g]] and s = same_bodies [OF b1]
  note k = ok [unfolded heap_ok_def]
  have lv: "live h a \<longleftrightarrow> is_marked st1 a" for a using p(4) by (simp add: live_def b1)
  have lvv: "live_value h x \<longleftrightarrow> value_is_marked st1 x" for x by (simp add: live_value_def value_is_marked_def lv is_heap_def)
  have int: "internal st1 = internal (heap_store h)" by (simp add: fun_eq_iff internal_def s)
  obtain sw: "string_table_ok (string_units (survivors st4)) table'"
    "\<forall>us. shared (string_units (survivors st4)) table' us =
      (case shared (string_units st1) (heap_strings h) us of None \<Rightarrow> None | Some x \<Rightarrow> if value_is_marked st4 x then Some x else None)"
    using sweep_strings [OF g] tab by auto
  have dom4: "{a. is_marked st4 a} = set (filter (is_marked st4) (heap_objects h))"
    using marked_survives(2) [OF g] marked_dom [of st1] p(5) by (auto simp only: set_filter)
  have "heap_ok h' E' C' Q'"
    unfolding heap_ok_def h'
  proof (intro conjI)
    show "clean (survivors st4)" using pend by (simp add: clean_def survivors_views(2,3))
    show "dom (survivors st4) = set (filter (is_marked st4) (heap_objects h))" using dom4 by (simp add: survivors_views(4))
    show "distinct (filter (is_marked st4) (heap_objects h))" using k by (intro distinct_filter) blast
    show "\<forall>x \<in> set (early_roots (heap_roots h) @ late_roots (heap_roots h)). program_value (survivors st4) x"
    proof
      fix x assume x: "x \<in> set (early_roots (heap_roots h) @ late_roots (heap_roots h))"
      show "program_value (survivors st4) x"
      proof (rule program_survives [OF g])
        assume hx: "is_heap x"
        have "heap_address x \<in> refs (root_values h)" using x hx by (auto simp: refs_mem root_values_def)
        then have "live h (heap_address x)" unfolding live_def by (rule reachable.root)
        moreover have "\<not> internal (heap_store h) (heap_address x)" using k x hx unfolding program_value_def by blast
        ultimately show "is_marked st1 (heap_address x) \<and> \<not> internal st1 (heap_address x)" by (simp add: lv int)
      qed
    qed
    show "store_ok (survivors st4) q' table' E' C' Q'" by (rule survivors_store_ok [OF g sw(1)])
    show "kind_count st4 (filter (is_marked st4) (heap_objects h)) = kind_count (survivors st4) (filter (is_marked st4) (heap_objects h))"
      by (rule kind_count_cong) (auto simp: survivors_def is_marked_def split: option.splits)
  qed
  moreover have "collected h Q h' Q'"
    unfolding collected_def h'
  proof (intro conjI allI impI)
    show "live h a" if "a \<in> dom (survivors st4)" for a
      using that marked_survives(2) [OF g] by (simp add: survivors_views(4) lv)
    show "a \<in> dom (survivors st4)" if "\<not> internal (heap_store h) a" "live h a" for a
      using that marked_survives(1) [OF g] by (simp add: survivors_views(4) lv int)
    have body: "bodies (survivors st4) a = Some (weaken st1 b)"
      if "live h a" "bodies (heap_store h) a = Some b" "strong_body b \<or> (\<exists>x. b = HEAP_WEAK_REFERENCE x)" for a b
    proof -
      have n: "\<not> internal st1 a" "registry_of st1 a = None" "\<not> is_table st1 a"
        using that(2,3) b1 by (auto simp: internal_def is_entry_def is_table_def kind_views strong_body_def weak_record_count_def split: option.splits heap_body.splits)
      then have "is_marked st4 a" using marked_survives(1) [OF g] that(1) by (simp add: lv)
      then show ?thesis using v(9) [OF n] that(1,2) by (simp add: survivors_views(1) lv b1)
    qed
    show "bodies (survivors st4) a = Some b" if "live h a" "bodies (heap_store h) a = Some b" "strong_body b" for a b
    proof -
      have "weaken st1 b = b" using that(3) by (cases b) (simp_all add: strong_body_def weak_record_count_def)
      then show ?thesis using body [OF that(1,2)] that(3) by simp
    qed
    show "bodies (survivors st4) a = Some (HEAP_WEAK_REFERENCE (if is_heap x \<and> \<not> live_value h x then oseo_undefined else x))"
      if "live h a" "bodies (heap_store h) a = Some (HEAP_WEAK_REFERENCE x)" for a x
      using body [OF that] by (simp add: dead_reference_def lvv)
    show "ephemeron_get (heap_value a) x (survivors st4) = (if live_value h x then ephemeron_get (heap_value a) x (heap_store h) else None)"
      if a: "live h a" "is_table (heap_store h) a" for a x
    proof -
      have "a \<in> dom st1" using a(1) marked_dom by (simp add: lv)
      then have "a \<le> PAYLOAD_MASK" using p(1) unfolding store_ok_def by blast
      then have "ephemeron_get (heap_value a) x (survivors st4) = (if value_is_marked st1 x then ephemeron_get (heap_value a) x st1 else None)"
        using collecting_tables [OF g] a by (simp add: lv s)
      moreover have "ephemeron_get (heap_value a) x st1 = ephemeron_get (heap_value a) x (heap_store h)" unfolding ephemeron_get_def s ..
      ultimately show ?thesis by (simp add: lvv)
    qed
    show "\<exists>B. Q' = Q @ B \<and> distinct B \<and> sorted (map (order_of (heap_store h)) B) \<and> set B = {a. due h a}"
    proof -
      have "order_of st1 = order_of (heap_store h)" by (simp add: fun_eq_iff order_of_def s)
      moreover have "due h a \<longleftrightarrow> is_marked st1 a \<and> (\<exists>c. cell_of st1 a = Some c \<and> \<not> cell_processed c \<and> \<not> cell_queued c \<and>
          is_heap (cell_target c) \<and> \<not> value_is_marked st1 (cell_target c))" for a
        by (auto simp: due_def lv s value_is_marked_def)
      ultimately show ?thesis using collecting_due [OF g] by simp
    qed
    show "\<exists>c. cell_of (heap_store h) a = Some c \<and> cell_registry c' = cell_registry c \<and> cell_holdings c' = cell_holdings c \<and>
        cell_processed c' = cell_processed c" if "cell_of (survivors st4) a = Some c'" for a c'
    proof -
      have c4: "cell_of st4 a = Some c'" using that by (simp add: survivors_views(7) split: if_splits)
      then have "cell_of st1 a \<noteq> None" using v(7) [of a] by simp
      then obtain c where c: "cell_of st1 a = Some c" by blast
      then obtain d where d: "cell_of st4 a = Some d" "cell_registry d = cell_registry c" "cell_holdings d = cell_holdings c" "cell_processed d = cell_processed c"
        by (rule phased_cell [OF p(1,6,5)])
      have "d = c'" using c4 d(1) by simp
      then show ?thesis using d c by (simp add: s)
    qed
    show "shared (string_units (survivors st4)) table' us =
        (case shared (string_units (heap_store h)) (heap_strings h) us of None \<Rightarrow> None | Some x \<Rightarrow> if live_value h x then Some x else None)" for us
    proof -
      have "value_is_marked st4 x = value_is_marked st1 x" if "shared (string_units st1) (heap_strings h) us = Some x" for x
      proof -
        have t: "string_units st1 x = Some us"
          using that by (auto simp: shared_def find_Some_iff split: option.splits)
        then have "bodies st1 (heap_address x) = Some (HEAP_STRING us)"
          by (auto simp: string_units_def bodies_def split: if_splits option.splits heap_body.splits)
        then have "\<not> internal st1 (heap_address x)" by (simp add: internal_def is_entry_def kind_views)
        then show ?thesis using marked_survives [OF g, of "heap_address x"] by (auto simp: value_is_marked_def)
      qed
      then show ?thesis using sw(2) by (simp add: s lvv split: option.split)
    qed
  qed
  ultimately show ?thesis using run h'_def by blast
qed

end
