(* ===== verification/Collector_Properties.thy ===== *)
theory Collector_Properties
  imports Collector_Effect
begin

text \<open>
  The properties of \<open>oseo_collect\<close>, each a part of \<open>oseo_collect_effect\<close>, with a small heap they are
  applied to.
\<close>

subsection \<open>A heap for the witnesses\<close>

text \<open>A weak reference and a registered cell, both on an object nothing else refers to.\<close>

definition example_realm :: realm where
  "example_realm = \<lparr>intrinsics = [], global_this = oseo_undefined, global_lexicals = oseo_undefined, template_cache = [],
     regexp_literal_cache = []\<rparr>"

definition example_roots :: collector_roots where
  "example_roots = \<lparr>frame_slots = [[heap_value 8, heap_value 24]], microtask_head = oseo_undefined,
     async_call_capability = oseo_undefined, microtask_tail = oseo_undefined, pending_rejections = oseo_undefined,
     pending_rejection_tail = oseo_undefined, initial_realm = example_realm, realm_record = oseo_undefined, activations = [],
     legacy_function_keys = [], well_known_symbols = [], registered_symbols = [], root_timer_head = oseo_undefined,
     atomics_waiter_head = oseo_undefined, atomics_waiter_tail = oseo_undefined, agent_broadcast_callback = oseo_undefined,
     kept_objects = [], module_table = None, pending_tail_call = None\<rparr>"

definition example_cell :: finalization_cell where
  "example_cell = \<lparr>next_cell = oseo_undefined, cell_queue_next = oseo_undefined, cell_registry = heap_value 24,
     cell_target = heap_value 16, cell_holdings = oseo_undefined, cell_token = oseo_undefined, cell_order = 1,
     cell_queued = False, cell_processed = False\<rparr>"

definition example_registry :: finalization_registry where
  "example_registry = \<lparr>registry_callback = oseo_undefined, cell_head = heap_value 32, cell_tail = heap_value 32\<rparr>"

definition example_block :: "heap_body \<Rightarrow> heap_object" where
  "example_block b = \<lparr>marked = False, trace_next = 0, ephemeron_pending = 0, body = b\<rparr>"

definition example_store :: store where
  "example_store = [8 \<mapsto> example_block (HEAP_WEAK_REFERENCE (heap_value 16)), 16 \<mapsto> example_block HEAP_PRIVATE_NAME,
     24 \<mapsto> example_block (HEAP_FINALIZATION_REGISTRY example_registry), 32 \<mapsto> example_block (HEAP_FINALIZATION_CELL example_cell)]"

definition example_heap :: heap_state where
  "example_heap = \<lparr>allocation_attempts = 0, fail_allocation_at = 0, host_malloc = \<lambda>n s. 64, heap_store = example_store,
     heap_objects = [8, 16, 24, 32], heap_roots = example_roots,
     heap_queue = \<lparr>queue_head = oseo_undefined, queue_tail = oseo_undefined, pending_count = 0\<rparr>, heap_strings = None,
     weak_counts = (\<lambda>k. 0)(WEAK_REFERENCE := 1, FINALIZATION_REGISTRY := 1, FINALIZATION_CELL := 1),
     observe_specialization = False, collect_every_safepoint = True, collections = 0, allocations = 0\<rparr>"

lemma example_bodies: "bodies example_store =
    [8 \<mapsto> HEAP_WEAK_REFERENCE (heap_value 16), 16 \<mapsto> HEAP_PRIVATE_NAME, 24 \<mapsto> HEAP_FINALIZATION_REGISTRY example_registry,
     32 \<mapsto> HEAP_FINALIZATION_CELL example_cell]"
  by (simp add: fun_eq_iff bodies_def example_store_def example_block_def)

lemma example_kinds:
  "table_of example_store a = None" "entry_of example_store a = None"
  "cell_of example_store a = (if a = 32 then Some example_cell else None)"
  "registry_of example_store a = (if a = 24 then Some example_registry else None)"
  by (simp_all add: kind_views example_bodies)

lemma example_address [simp]:
  "heap_address (heap_value 8) = 8" "heap_address (heap_value 16) = 16" "heap_address (heap_value 24) = 24" "heap_address (heap_value 32) = 32"
  by (simp_all add: PAYLOAD_MASK_def)

definition example_chains :: "u64 \<Rightarrow> u64 list" where
  "example_chains r = (if r = 24 then [32] else [])"

lemma example_program: "program_value example_store oseo_undefined"
  "program_value example_store (heap_value 16)" "program_value example_store (heap_value 24)" "program_value example_store (heap_value 8)"
  by (simp_all add: program_value_def internal_def is_entry_def example_kinds) (simp_all add: example_store_def)

lemma example_store_ok: "store_ok example_store (heap_queue example_heap) None (\<lambda>a. []) example_chains []"
  unfolding store_ok_def
proof (intro conjI)
  show "\<forall>a \<in> dom example_store. a \<noteq> 0 \<and> a \<le> PAYLOAD_MASK"
    by (auto simp: example_store_def PAYLOAD_MASK_def word_le_nat_alt split: if_splits)
  show "\<forall>a b v. bodies example_store a = Some b \<longrightarrow> v \<in> set (held b) \<longrightarrow> program_value example_store v"
    using example_program by (auto simp: example_bodies example_registry_def example_cell_def split: if_splits)
  show "weak_ok example_store (\<lambda>a. [])"
    by (simp add: weak_ok_def is_table_def is_entry_def example_kinds)
  show "entries_linked example_store (\<lambda>a. [])" by (simp add: entries_linked_def example_kinds)
  show "queue_ok example_store (heap_queue example_heap) []"
    by (simp add: queue_ok_def example_heap_def back_link_def last_of_def record_of_def example_kinds example_cell_def)
  show "registries_ok example_store example_chains"
    by (auto simp: registries_ok_def registry_ok_def example_kinds example_chains_def example_registry_def cell_links_def
        example_cell_def back_link_def last_of_def PAYLOAD_MASK_def word_le_nat_alt split: if_splits)
  show "cells_linked example_store [] example_chains"
    by (auto simp: cells_linked_def cell_ok_def example_kinds example_chains_def example_cell_def)
qed (simp add: string_table_ok_def)

lemma example_heap_ok: "heap_ok example_heap (\<lambda>a. []) example_chains []"
  unfolding heap_ok_def
proof (intro conjI)
  have f: "heap_store example_heap = example_store" "heap_objects example_heap = [8, 16, 24, 32]" "heap_roots example_heap = example_roots"
    "heap_strings example_heap = None" by (simp_all add: example_heap_def)
  show "clean (heap_store example_heap)"
    by (simp add: f clean_def is_marked_def pending_of_def example_store_def example_block_def)
  show "dom (heap_store example_heap) = set (heap_objects example_heap)" by (auto simp: f example_store_def)
  show "distinct (heap_objects example_heap)" by (simp add: f)
  show "\<forall>v \<in> set (early_roots (heap_roots example_heap) @ late_roots (heap_roots example_heap)). program_value (heap_store example_heap) v"
    using example_program by (simp add: f early_roots_def late_roots_def example_roots_def realm_edges_def example_realm_def)
  show "store_ok (heap_store example_heap) (heap_queue example_heap) (heap_strings example_heap) (\<lambda>a. []) example_chains []"
    using example_store_ok by (simp add: f)
  show "weak_counts example_heap = kind_count (heap_store example_heap) (heap_objects example_heap)"
  proof
    fix k show "weak_counts example_heap k = kind_count (heap_store example_heap) (heap_objects example_heap) k"
      by (cases k) (simp_all add: f example_heap_def kind_count_def example_store_def example_block_def weak_record_count_def)
  qed
qed

lemma example_live: "live example_heap a \<longleftrightarrow> a \<in> {8, 24, 32}"
proof
  have r: "refs (root_values example_heap) = {8, 24}"
    by (simp add: root_values_def example_heap_def early_roots_def late_roots_def example_roots_def realm_edges_def example_realm_def insert_commute)
  have b: "bodies (heap_store example_heap) = bodies example_store" by (simp add: example_heap_def)
  show "live example_heap a \<Longrightarrow> a \<in> {8, 24, 32}"
    unfolding live_def r b
  proof (induction rule: reachable.induct)
    case (edge a b c)
    then show ?case by (auto simp: example_bodies example_registry_def example_cell_def)
  qed (auto simp: example_bodies)
  have "live example_heap 8" "live example_heap 24" unfolding live_def r by (auto intro: reachable.root)
  moreover have "live example_heap 32"
    unfolding live_def
  proof (rule reachable.edge)
    show "reachable (bodies (heap_store example_heap)) (refs (root_values example_heap)) 24" using calculation(2) by (simp add: live_def)
    show "bodies (heap_store example_heap) 24 = Some (HEAP_FINALIZATION_REGISTRY example_registry)" by (simp add: b example_bodies)
  qed (simp add: example_registry_def)
  ultimately show "a \<in> {8, 24, 32} \<Longrightarrow> live example_heap a" by blast
qed


subsection \<open>The properties\<close>

text \<open>C20. A collection always ends and keeps the invariant of the heap: the store holds exactly the
  listed objects, nothing is left marked, every value an object or a root holds refers to a
  block, the ephemeron tables, the registries, the cleanup FIFO and the string table are well
  formed, and the four counts are exact. The number of objects is enough fuel.\<close>

theorem collection_keeps_heap_ok:
  assumes "heap_ok h E C Q" "length (heap_objects h) \<le> n"
  shows "\<exists>h' E' C' Q'. oseo_collect n h = Some h' \<and> heap_ok h' E' C' Q'"
  using oseo_collect_effect [OF assms] by blast

theorem collection_keeps_heap_ok_witness: "\<exists>h' E' C' Q'. oseo_collect 4 example_heap = Some h' \<and> heap_ok h' E' C' Q'"
proof -
  have "length (heap_objects example_heap) \<le> 4" by (simp add: example_heap_def)
  from collection_keeps_heap_ok [OF example_heap_ok this] show ?thesis .
qed

text \<open>C21. A collection frees only what is unreachable from the roots, frees every unreachable object,
  keeps every reachable object of the program, and leaves the body of every object without weak
  edges as it was.\<close>

theorem collection_frees_the_unreachable:
  assumes "heap_ok h E C Q" "length (heap_objects h) \<le> n"
  shows "\<exists>h'. oseo_collect n h = Some h' \<and> (\<forall>a. a \<in> dom (heap_store h') \<longrightarrow> live h a) \<and>
    (\<forall>a. \<not> internal (heap_store h) a \<longrightarrow> live h a \<longrightarrow> a \<in> dom (heap_store h')) \<and>
    (\<forall>a b. live h a \<longrightarrow> bodies (heap_store h) a = Some b \<longrightarrow> strong_body b \<longrightarrow> bodies (heap_store h') a = Some b)"
  using oseo_collect_effect [OF assms] unfolding collected_def by blast

theorem collection_frees_the_unreachable_witness:
  "\<exists>h'. oseo_collect 4 example_heap = Some h' \<and> 16 \<notin> dom (heap_store h') \<and> 8 \<in> dom (heap_store h') \<and> 24 \<in> dom (heap_store h')"
proof -
  have "length (heap_objects example_heap) \<le> 4" by (simp add: example_heap_def)
  from collection_frees_the_unreachable [OF example_heap_ok this] obtain h' where
    h': "oseo_collect 4 example_heap = Some h'" "\<forall>a. a \<in> dom (heap_store h') \<longrightarrow> live example_heap a"
      "\<forall>a. \<not> internal (heap_store example_heap) a \<longrightarrow> live example_heap a \<longrightarrow> a \<in> dom (heap_store h')" by blast
  have "\<not> internal (heap_store example_heap) 8" "\<not> internal (heap_store example_heap) 24"
    by (simp_all add: internal_def is_entry_def example_kinds example_heap_def)
  then show ?thesis using h' by (auto simp: example_live)
qed

text \<open>C22. After a collection a reachable weak reference holds its target if the target is reachable and
  \<open>undefined\<close> otherwise, and looking a key up in a reachable ephemeron table gives what it gave
  before when the key is reachable, and nothing otherwise.\<close>

theorem collection_clears_weak_edges:
  assumes "heap_ok h E C Q" "length (heap_objects h) \<le> n"
  shows "\<exists>h'. oseo_collect n h = Some h' \<and>
    (\<forall>a v. live h a \<longrightarrow> bodies (heap_store h) a = Some (HEAP_WEAK_REFERENCE v) \<longrightarrow>
        bodies (heap_store h') a = Some (HEAP_WEAK_REFERENCE (if is_heap v \<and> \<not> live_value h v then oseo_undefined else v))) \<and>
    (\<forall>a k. live h a \<longrightarrow> is_table (heap_store h) a \<longrightarrow>
        ephemeron_get (heap_value a) k (heap_store h') =
          (if live_value h k then ephemeron_get (heap_value a) k (heap_store h) else None))"
  using oseo_collect_effect [OF assms] unfolding collected_def by blast

theorem collection_clears_weak_edges_witness:
  "\<exists>h'. oseo_collect 4 example_heap = Some h' \<and> bodies (heap_store h') 8 = Some (HEAP_WEAK_REFERENCE oseo_undefined)"
proof -
  have "length (heap_objects example_heap) \<le> 4" by (simp add: example_heap_def)
  from collection_clears_weak_edges [OF example_heap_ok this] obtain h' where
    h': "oseo_collect 4 example_heap = Some h'"
      "\<forall>a v. live example_heap a \<longrightarrow> bodies (heap_store example_heap) a = Some (HEAP_WEAK_REFERENCE v) \<longrightarrow>
        bodies (heap_store h') a = Some (HEAP_WEAK_REFERENCE (if is_heap v \<and> \<not> live_value example_heap v then oseo_undefined else v))" by blast
  have "bodies (heap_store example_heap) 8 = Some (HEAP_WEAK_REFERENCE (heap_value 16))" by (simp add: example_heap_def example_bodies)
  then show ?thesis using h' by (auto simp: example_live live_value_def)
qed

text \<open>C23. A collection appends to the cleanup FIFO exactly the reachable, unprocessed and unqueued cells
  whose targets became unreachable, in the order of their registration, behind the cells already
  queued, and no cell loses its registry or its holdings.\<close>

theorem collection_schedules_cleanups:
  assumes "heap_ok h E C Q" "length (heap_objects h) \<le> n"
  shows "\<exists>h' B. oseo_collect n h = Some h' \<and> queue_ok (heap_store h') (heap_queue h') (Q @ B) \<and>
    set B = {a. due h a} \<and> distinct B \<and> sorted (map (order_of (heap_store h)) B) \<and>
    (\<forall>a c'. cell_of (heap_store h') a = Some c' \<longrightarrow> (\<exists>c. cell_of (heap_store h) a = Some c \<and>
        cell_registry c' = cell_registry c \<and> cell_holdings c' = cell_holdings c \<and> cell_processed c' = cell_processed c))"
proof -
  obtain h' E' C' Q' where h': "oseo_collect n h = Some h'" "heap_ok h' E' C' Q'" and c: "collected h Q h' Q'"
    using oseo_collect_effect [OF assms] by blast
  obtain B where B: "Q' = Q @ B" "distinct B" "sorted (map (order_of (heap_store h)) B)" "set B = {a. due h a}"
    using c unfolding collected_def by blast
  have "queue_ok (heap_store h') (heap_queue h') (Q @ B)" using h'(2) B(1) by (simp add: heap_ok_def store_ok_def)
  then show ?thesis using h'(1) B(2-4) c unfolding collected_def by blast
qed

theorem collection_schedules_cleanups_witness:
  "\<exists>h'. oseo_collect 4 example_heap = Some h' \<and> queue_ok (heap_store h') (heap_queue h') [32]"
proof -
  have "length (heap_objects example_heap) \<le> 4" by (simp add: example_heap_def)
  from collection_schedules_cleanups [OF example_heap_ok this] obtain h' B where
    h': "oseo_collect 4 example_heap = Some h'" "queue_ok (heap_store h') (heap_queue h') B" "set B = {a. due example_heap a}" "distinct B"
    by auto
  have st: "heap_store example_heap = example_store" by (simp add: example_heap_def)
  have "due example_heap a \<longleftrightarrow> a = 32" for a
    by (auto simp: due_def example_live st example_kinds example_cell_def split: if_splits)
  then have "set B = {32}" using h'(3) by auto
  moreover have "length B = card (set B)" using h'(4) by (simp only: distinct_card)
  ultimately have B: "set B = {32}" "length B = Suc 0" by simp_all
  then obtain b where "B = [b]" by (cases B) simp_all
  then have "B = [32]" using B(1) by simp
  then show ?thesis using h'(1,2) by blast
qed



end
