(* ===== verification/Weak_Records.thy ===== *)
theory Weak_Records
  imports Collector_Effect
begin

text \<open>
  The program's side of the weak records (the end of \<open>runtime_memory.c\<close>): creating ephemeron tables,
  weak references and finalization registries, setting a key of a table and registering a target.
  Each allocates, and so may collect, inside a root frame; the result carries the heap after it, or
  the diagnostic. \<open>None\<close> stands for a walk that does not end, as in \<open>oseo_collect\<close>.

  The first part has the operations, the second the effect of a root frame, an allocation and a
  publication on the invariant of the heap.
\<close>

subsection \<open>The code\<close>

text \<open>\<open>oseo_roots_push\<close> and \<open>oseo_roots_pop\<close> of a frame of the C stack, as the collector sees them
  (\<open>Core\<close> has the frames' own links).\<close>

definition push_frame :: "oseo_value list \<Rightarrow> 'a heap_state_scheme \<Rightarrow> 'a heap_state_scheme" where
  "push_frame vs h = h\<lparr>heap_roots := (heap_roots h)\<lparr>frame_slots := vs # frame_slots (heap_roots h)\<rparr>\<rparr>"

definition pop_frame :: "'a heap_state_scheme \<Rightarrow> 'a heap_state_scheme" where
  "pop_frame h = h\<lparr>heap_roots := (heap_roots h)\<lparr>frame_slots := tl (frame_slots (heap_roots h))\<rparr>\<rparr>"

definition diagnostic :: "string \<Rightarrow> rt_error" where
  "diagnostic message = Diagnostic ''OSEO2001'' message"

text \<open>The idiom of every constructor of a heap object: allocate the block, give up when it is
  refused, write its fields \<open>b\<close> and publish it.\<close>

definition allocate_object :: "nat \<Rightarrow> nat \<Rightarrow> string \<Rightarrow> heap_body \<Rightarrow> 'a heap_state_scheme \<Rightarrow>
    ((rt_error + oseo_value) \<times> 'a heap_state_scheme) option" where
  "allocate_object n bytes refused b h =
     (case allocate_heap_bytes n bytes h of
        None \<Rightarrow> None
      | Some (address, h) \<Rightarrow> Some (if address = 0 then (Inl (diagnostic refused), h) else publish address b h))"

definition empty_table :: ephemeron_table where
  "empty_table = \<lparr>table_head = oseo_undefined, table_tail = oseo_undefined, table_live = 0, table_index = [], table_used = 0\<rparr>"

definition ephemeron_table_create :: "nat \<Rightarrow> 'a heap_state_scheme \<Rightarrow> ((rt_error + oseo_value) \<times> 'a heap_state_scheme) option" where
  "ephemeron_table_create n h =
     allocate_object n 80 ''Ephemeron table allocation failed.'' (HEAP_EPHEMERON_TABLE empty_table) h"

text \<open>The capacity of a rebuilt index, \<open>2 ^ k\<close> the first tried; \<open>None\<close> when it is too large.\<close>

function index_capacity :: "nat \<Rightarrow> nat \<Rightarrow> nat option" where
  "index_capacity k needed =
     (if 2 ^ k div 2 < needed then
        if 2 ^ k > SIZE_MAX div 2 div 8 then None else index_capacity (Suc k) needed
      else Some (2 ^ k))"
  by auto

termination index_capacity
proof (relation "measure (\<lambda>(k, needed). 64 - k)")
  fix k needed :: nat
  assume "\<not> 2 ^ k > SIZE_MAX div 2 div 8"
  then have "(2::nat) ^ k < 2 ^ 64" by (simp add: SIZE_MAX_def)
  then have "k < 64" by (simp only: power_strict_increasing_iff)
  then show "((Suc k, needed), k, needed) \<in> measure (\<lambda>(k, needed). 64 - k)" by simp
qed simp

declare index_capacity.simps [simp del]

text \<open>The rebuilt index, from the chain at \<open>cursor\<close>, and the number of its entries.\<close>

fun index_rebuild :: "nat \<Rightarrow> (u64 \<rightharpoonup> ephemeron_entry) \<Rightarrow> oseo_value \<Rightarrow> oseo_value list \<Rightarrow> nat \<Rightarrow> (oseo_value list \<times> nat) option" where
  "index_rebuild 0 ent cursor index used = None"
| "index_rebuild (Suc n) ent cursor index used =
     (if \<not> is_heap cursor then Some (index, used)
      else case ent (heap_address cursor) of
             None \<Rightarrow> None
           | Some entry \<Rightarrow>
               (case ephemeron_index_insert index (entry_key entry) cursor of
                  None \<Rightarrow> None
                | Some (index, vacant) \<Rightarrow> index_rebuild n ent (next_entry entry) index (used + 1)))"

definition ephemeron_index_reserve :: "nat \<Rightarrow> u64 \<Rightarrow> 'a heap_state_scheme \<Rightarrow> ((rt_error + oseo_value) \<times> 'a heap_state_scheme) option" where
  "ephemeron_index_reserve n a h =
     (case table_of (heap_store h) a of
        None \<Rightarrow> None
      | Some table \<Rightarrow>
          if length (table_index table) \<noteq> 0 \<and> table_used table + 1 \<le> length (table_index table) div 4 * 3
          then Some (Inr (heap_value a), h)
          else case index_capacity 3 (table_live table + 1) of
            None \<Rightarrow> Some (Inl (diagnostic ''Ephemeron index is too large.''), h)
          | Some capacity \<Rightarrow>
              let (block, h) = allocate_bytes (capacity * 8) h
              in if block = 0 then Some (Inl (diagnostic ''Ephemeron index allocation failed.''), h)
                 else case index_rebuild n (entry_of (heap_store h)) (table_head table) (replicate capacity 0) 0 of
                   None \<Rightarrow> None
                 | Some (index, used) \<Rightarrow>
                     Some (Inr (heap_value a),
                       h\<lparr>heap_store := update_table a (\<lambda>t. t\<lparr>table_index := index, table_used := used\<rparr>) (heap_store h)\<rparr>))"

text \<open>Linking the published entry \<open>e\<close> at the end of the table \<open>a\<close>.\<close>

definition entry_at :: "store \<Rightarrow> oseo_value \<Rightarrow> ephemeron_entry option" where
  "entry_at st v = (if is_heap v then entry_of st (heap_address v) else None)"

definition link_entry :: "u64 \<Rightarrow> u64 \<Rightarrow> oseo_value \<Rightarrow> store \<Rightarrow> store option" where
  "link_entry a e key st =
     (case table_of st a of
        None \<Rightarrow> None
      | Some table \<Rightarrow>
          let st = (if entry_at st (table_tail table) \<noteq> None
                    then update_entry e (\<lambda>n. n\<lparr>previous_entry := table_tail table\<rparr>)
                      (update_entry (heap_address (table_tail table)) (\<lambda>p. p\<lparr>next_entry := heap_value e\<rparr>) st)
                    else update_table a (\<lambda>t. t\<lparr>table_head := heap_value e\<rparr>) st);
              st = update_table a (\<lambda>t. t\<lparr>table_tail := heap_value e, table_live := table_live t + 1\<rparr>) st
          in case ephemeron_index_insert (table_index table) key (heap_value e) of
               None \<Rightarrow> None
             | Some (index, vacant) \<Rightarrow>
                 Some (update_table a (\<lambda>t. t\<lparr>table_index := index, table_used := (if vacant then table_used t + 1 else table_used t)\<rparr>) st))"

definition table_at :: "store \<Rightarrow> oseo_value \<Rightarrow> ephemeron_table option" where
  "table_at st v = (if is_heap v then table_of st (heap_address v) else None)"

definition ephemeron_set :: "nat \<Rightarrow> oseo_value \<Rightarrow> oseo_value \<Rightarrow> oseo_value \<Rightarrow> 'a heap_state_scheme \<Rightarrow>
    ((rt_error + oseo_value) \<times> 'a heap_state_scheme) option" where
  "ephemeron_set n table_value key v h =
     (case table_at (heap_store h) table_value of
        None \<Rightarrow> Some (Inl (diagnostic ''Value is not an ephemeron table.''), h)
      | Some table \<Rightarrow>
          if \<not> is_heap key then Some (Inl (diagnostic ''Ephemeron key is not a heap value.''), h)
          else
            let a = heap_address table_value
            in case ephemeron_index_find (entry_of (heap_store h)) table key of
              Some slot \<Rightarrow>
                Some (Inr table_value,
                  h\<lparr>heap_store := update_entry (heap_address (table_index table ! slot)) (\<lambda>e. e\<lparr>entry_value := v\<rparr>) (heap_store h)\<rparr>)
            | None \<Rightarrow>
                (case ephemeron_index_reserve n a (push_frame [table_value, key, v] h) of
                   None \<Rightarrow> None
                 | Some (Inl err, h) \<Rightarrow> Some (Inl err, pop_frame h)
                 | Some (Inr _, h) \<Rightarrow>
                     (case allocate_object n 64 ''Ephemeron entry allocation failed.''
                         (HEAP_EPHEMERON_ENTRY \<lparr>next_entry = oseo_undefined, previous_entry = oseo_undefined,
                            entry_key = key, entry_value = v\<rparr>) h of
                        None \<Rightarrow> None
                      | Some (Inl err, h) \<Rightarrow> Some (Inl err, pop_frame h)
                      | Some (Inr published, h) \<Rightarrow>
                          map_option (\<lambda>st. (Inr table_value, pop_frame (h\<lparr>heap_store := st\<rparr>)))
                            (link_entry a (heap_address published) key (heap_store h)))))"

definition weak_reference_create :: "nat \<Rightarrow> oseo_value \<Rightarrow> 'a heap_state_scheme \<Rightarrow> ((rt_error + oseo_value) \<times> 'a heap_state_scheme) option" where
  "weak_reference_create n target h =
     (if \<not> is_heap target then Some (Inl (diagnostic ''Weak target is not a heap value.''), h)
      else map_option (\<lambda>(r, h). (r, pop_frame h))
        (allocate_object n 40 ''Weak reference allocation failed.'' (HEAP_WEAK_REFERENCE target) (push_frame [target] h)))"

definition weak_reference_target :: "oseo_value \<Rightarrow> store \<Rightarrow> oseo_value" where
  "weak_reference_target reference st =
     (case (if is_heap reference then st (heap_address reference) else None) of
        None \<Rightarrow> oseo_undefined
      | Some ob \<Rightarrow> (case body ob of HEAP_WEAK_REFERENCE target \<Rightarrow> target | _ \<Rightarrow> oseo_undefined))"

definition finalization_registry_create :: "nat \<Rightarrow> oseo_value \<Rightarrow> 'a heap_state_scheme \<Rightarrow>
    ((rt_error + oseo_value) \<times> 'a heap_state_scheme) option" where
  "finalization_registry_create n callback h =
     map_option (\<lambda>(r, h). (r, pop_frame h))
       (allocate_object n 56 ''Finalization registry allocation failed.''
          (HEAP_FINALIZATION_REGISTRY \<lparr>registry_callback = callback, cell_head = oseo_undefined, cell_tail = oseo_undefined\<rparr>)
          (push_frame [callback] h))"

text \<open>The context with its counter of registrations.\<close>

record weak_context = heap_state +
  next_finalization_order :: u64

definition registry_at :: "store \<Rightarrow> oseo_value \<Rightarrow> finalization_registry option" where
  "registry_at st v = (if is_heap v then registry_of st (heap_address v) else None)"

definition link_cell :: "u64 \<Rightarrow> oseo_value \<Rightarrow> store \<Rightarrow> store" where
  "link_cell r published st =
     (case registry_of st r of
        None \<Rightarrow> st
      | Some registry \<Rightarrow>
          let st = (if cell_at st (cell_tail registry) \<noteq> None
                    then update_cell (heap_address (cell_tail registry)) (\<lambda>c. c\<lparr>next_cell := published\<rparr>) st
                    else update_registry r (\<lambda>g. g\<lparr>cell_head := published\<rparr>) st)
          in update_registry r (\<lambda>g. g\<lparr>cell_tail := published\<rparr>) st)"

definition finalization_register_token ::
  "nat \<Rightarrow> oseo_value \<Rightarrow> oseo_value \<Rightarrow> oseo_value \<Rightarrow> oseo_value \<Rightarrow> weak_context \<Rightarrow> ((rt_error + oseo_value) \<times> weak_context) option" where
  "finalization_register_token n registry_value target holdings unregister_token h =
     (if registry_at (heap_store h) registry_value = None then Some (Inl (diagnostic ''Value is not a finalization registry.''), h)
      else if \<not> is_heap target \<or> target = holdings then Some (Inl (diagnostic ''Finalization target is invalid.''), h)
      else if next_finalization_order h = - 1 then Some (Inl (diagnostic ''Finalization registration limit exceeded.''), h)
      else case allocate_object n 96 ''Finalization cell allocation failed.''
          (HEAP_FINALIZATION_CELL \<lparr>next_cell = oseo_undefined, cell_queue_next = oseo_undefined, cell_registry = registry_value,
             cell_target = target, cell_holdings = holdings, cell_token = unregister_token,
             cell_order = next_finalization_order h, cell_queued = False, cell_processed = False\<rparr>)
          (push_frame [registry_value, target, holdings, unregister_token] h) of
        None \<Rightarrow> None
      | Some (Inl err, h) \<Rightarrow> Some (Inl err, pop_frame h)
      | Some (Inr published, h) \<Rightarrow>
          Some (Inr registry_value,
            pop_frame (h\<lparr>heap_store := link_cell (heap_address registry_value) published (heap_store h),
              next_finalization_order := next_finalization_order h + 1\<rparr>)))"

definition finalization_register ::
  "nat \<Rightarrow> oseo_value \<Rightarrow> oseo_value \<Rightarrow> oseo_value \<Rightarrow> weak_context \<Rightarrow> ((rt_error + oseo_value) \<times> weak_context) option" where
  "finalization_register n registry_value target holdings h =
     finalization_register_token n registry_value target holdings oseo_undefined h"

subsection \<open>Frames and allocation\<close>

lemma frame_fields [simp]:
  "heap_store (push_frame vs h) = heap_store h" "heap_objects (push_frame vs h) = heap_objects h"
  "heap_queue (push_frame vs h) = heap_queue h" "heap_strings (push_frame vs h) = heap_strings h"
  "weak_counts (push_frame vs h) = weak_counts h" "collect_every_safepoint (push_frame vs h) = collect_every_safepoint h"
  "host_malloc (push_frame vs h) = host_malloc h" "allocation_attempts (push_frame vs h) = allocation_attempts h"
  "heap_store (pop_frame h) = heap_store h" "heap_objects (pop_frame h) = heap_objects h"
  "heap_queue (pop_frame h) = heap_queue h" "heap_strings (pop_frame h) = heap_strings h"
  "weak_counts (pop_frame h) = weak_counts h"
  by (simp_all add: push_frame_def pop_frame_def)

lemma frame_roots:
  "set (early_roots (heap_roots (push_frame vs h))) = set vs \<union> set (early_roots (heap_roots h))"
  "late_roots (heap_roots (push_frame vs h)) = late_roots (heap_roots h)"
  "late_roots (heap_roots (pop_frame h)) = late_roots (heap_roots h)"
  "set (early_roots (heap_roots (pop_frame h))) \<subseteq> set (early_roots (heap_roots h))"
proof -
  have "set (concat (tl xs)) \<subseteq> set (concat xs)" for xs :: "oseo_value list list" by (cases xs) auto
  then show "set (early_roots (heap_roots (pop_frame h))) \<subseteq> set (early_roots (heap_roots h))"
    by (auto simp: pop_frame_def early_roots_def simp del: set_concat)
qed (simp_all add: push_frame_def pop_frame_def early_roots_def late_roots_def Un_assoc)

lemma push_frame_ok: "heap_ok h E C Q \<Longrightarrow> \<forall>v \<in> set vs. program_value (heap_store h) v \<Longrightarrow> heap_ok (push_frame vs h) E C Q"
  by (auto simp: heap_ok_def frame_roots)

lemma pop_frame_ok: "heap_ok h E C Q \<Longrightarrow> heap_ok (pop_frame h) E C Q"
  using frame_roots(4) [of h] by (auto simp: heap_ok_def frame_roots(3))

lemma frame_program: "heap_ok h E C Q \<Longrightarrow> v \<in> set (early_roots (heap_roots h)) \<Longrightarrow> program_value (heap_store h) v"
  by (auto simp: heap_ok_def)

lemma heap_sound:
  assumes ok: "heap_ok h E C Q"
  shows "sound_heap (bodies (heap_store h)) (refs (root_values h))"
proof -
  note k = ok [unfolded heap_ok_def]
  have s: "store_ok (heap_store h) (heap_queue h) (heap_strings h) E C Q" using k by blast
  have q: "queue_ok (heap_store h) (heap_queue h) Q" using s by (simp add: store_ok_def)
  have "heap_address v \<in> set Q" if "is_heap v" "v = queue_head (heap_queue h) \<or> v = queue_tail (heap_queue h)" for v
    using that q forward_head [of "queue_links (heap_store h)" "queue_head (heap_queue h)" Q]
      last_link [of "queue_tail (heap_queue h)" Q] unfolding queue_ok_def by blast
  then have "roots_ok (heap_store h) Q (root_values h)" using k unfolding roots_ok_def root_values_def by auto
  then show ?thesis by (rule reachable_sound [OF s])
qed

lemma live_in_heap: "heap_ok h E C Q \<Longrightarrow> live h a \<Longrightarrow> a \<in> dom (heap_store h)"
  using heap_sound [of h E C Q] by (simp add: sound_heap_def live_def)

text \<open>What an allocation does to the heap: nothing, or a collection.\<close>

definition safepoint :: "'a heap_state_scheme \<Rightarrow> u64 list \<Rightarrow> 'a heap_state_scheme \<Rightarrow> u64 list \<Rightarrow> bool" where
  "safepoint h Q h' Q' \<longleftrightarrow>
     (if collect_every_safepoint h then collected h Q h' Q'
      else heap_store h' = heap_store h \<and> heap_strings h' = heap_strings h \<and> Q' = Q)"

lemma oseo_collect_roots:
  "oseo_collect n h = Some h' \<Longrightarrow> heap_roots h' = heap_roots h"
  "oseo_collect n h = Some h' \<Longrightarrow> host_malloc h' = host_malloc h"
  "oseo_collect n h = Some h' \<Longrightarrow> allocation_attempts h' = allocation_attempts h"
  by (auto simp: oseo_collect_def Let_def split: option.splits prod.splits if_splits)

lemma oseo_collect_order:
  "oseo_collect n h = Some h' \<Longrightarrow> next_finalization_order h' = next_finalization_order h"
  by (auto simp: oseo_collect_def Let_def split: option.splits prod.splits if_splits)

lemma allocate_bytes_fields [simp]:
  "heap_store (snd (allocate_bytes k h)) = heap_store h" "heap_objects (snd (allocate_bytes k h)) = heap_objects h"
  "heap_queue (snd (allocate_bytes k h)) = heap_queue h" "heap_strings (snd (allocate_bytes k h)) = heap_strings h"
  "weak_counts (snd (allocate_bytes k h)) = weak_counts h" "heap_roots (snd (allocate_bytes k h)) = heap_roots h"
  "collect_every_safepoint (snd (allocate_bytes k h)) = collect_every_safepoint h"
  "host_malloc (snd (allocate_bytes k h)) = host_malloc h"
  "allocation_attempts (snd (allocate_bytes k h)) = allocation_attempts h + 1"
  by (simp_all add: allocate_bytes_def Let_def)

lemma heap_ok_fields:
  "heap_store h' = heap_store h \<Longrightarrow> heap_objects h' = heap_objects h \<Longrightarrow> heap_roots h' = heap_roots h \<Longrightarrow>
   heap_queue h' = heap_queue h \<Longrightarrow> heap_strings h' = heap_strings h \<Longrightarrow> weak_counts h' = weak_counts h \<Longrightarrow>
   heap_ok h' E C Q \<longleftrightarrow> heap_ok h E C Q"
  by (simp add: heap_ok_def)

lemma allocate_heap_bytes_effect:
  assumes ok: "heap_ok h E C Q" and n: "length (heap_objects h) \<le> n"
  shows "\<exists>address h' E' C' Q'. allocate_heap_bytes n bytes h = Some (address, h') \<and> heap_ok h' E' C' Q' \<and> safepoint h Q h' Q' \<and>
    (\<not> collect_every_safepoint h \<longrightarrow> E' = E \<and> C' = C) \<and>
    heap_roots h' = heap_roots h \<and> dom (heap_store h') \<subseteq> dom (heap_store h) \<and>
    (address = 0 \<or> address = host_malloc h (allocation_attempts h + 1) bytes)"
proof -
  obtain h1 E' C' Q' where h1: "(if collect_every_safepoint h then oseo_collect n h else Some h) = Some h1" "heap_ok h1 E' C' Q'"
    "safepoint h Q h1 Q'" "\<not> collect_every_safepoint h \<longrightarrow> E' = E \<and> C' = C" "dom (heap_store h1) \<subseteq> dom (heap_store h)"
  proof (cases "collect_every_safepoint h")
    case True
    obtain h1 E' C' Q' where c: "oseo_collect n h = Some h1" "heap_ok h1 E' C' Q'" "collected h Q h1 Q'"
      using oseo_collect_effect [OF ok n] by blast
    have "dom (heap_store h1) \<subseteq> dom (heap_store h)" using c(3) live_in_heap [OF ok] unfolding collected_def by blast
    with that True c show ?thesis by (simp add: safepoint_def)
  next
    case False
    with that ok show ?thesis by (simp add: safepoint_def)
  qed
  have same: "heap_roots h1 = heap_roots h" "host_malloc h1 = host_malloc h" "allocation_attempts h1 = allocation_attempts h"
    using h1(1) oseo_collect_roots [of n h h1] by (auto split: if_splits)
  define r where "r = allocate_bytes bytes h1"
  have "allocate_heap_bytes n bytes h = Some (fst r, snd r)" using h1(1) by (simp add: allocate_heap_bytes_def r_def)
  moreover have "heap_ok (snd r) E' C' Q'" using h1(2) by (subst heap_ok_fields [of _ h1]) (simp_all add: r_def)
  moreover have "safepoint h Q (snd r) Q'" using h1(3) unfolding safepoint_def collected_def r_def allocate_bytes_fields .
  moreover have "fst r = 0 \<or> fst r = host_malloc h (allocation_attempts h + 1) bytes"
    by (simp add: r_def allocate_bytes_def Let_def same)
  moreover have "heap_roots (snd r) = heap_roots h" "dom (heap_store (snd r)) \<subseteq> dom (heap_store h)"
    using h1(5) by (simp_all add: r_def same)
  ultimately show ?thesis using h1(4) by blast
qed

subsection \<open>Publication\<close>

text \<open>A body a constructor writes: what it holds are values of the program, and it is in no chain.\<close>

definition fresh_body :: "store \<Rightarrow> heap_body \<Rightarrow> bool" where
  "fresh_body st b \<longleftrightarrow>
     (\<forall>v \<in> set (held b). program_value st v) \<and>
     (case b of
        HEAP_EPHEMERON_TABLE t \<Rightarrow> t = empty_table
      | HEAP_EPHEMERON_ENTRY e \<Rightarrow> \<not> is_heap (next_entry e)
      | HEAP_FINALIZATION_REGISTRY r \<Rightarrow> \<not> is_heap (cell_head r) \<and> \<not> is_heap (cell_tail r)
      | HEAP_FINALIZATION_CELL c \<Rightarrow> is_heap (cell_registry c) \<and> \<not> is_heap (next_cell c) \<and> \<not> is_heap (cell_queue_next c) \<and>
          \<not> cell_queued c \<and> \<not> cell_processed c
      | _ \<Rightarrow> True)"

definition block_of :: "heap_body \<Rightarrow> heap_object" where
  "block_of b = \<lparr>marked = False, trace_next = 0, ephemeron_pending = 0, body = b\<rparr>"

lemma added_views:
  "bodies (st(a \<mapsto> block_of b)) = (bodies st)(a \<mapsto> b)"
  "table_of (st(a \<mapsto> block_of b)) x = (if x = a then case b of HEAP_EPHEMERON_TABLE t \<Rightarrow> Some t | _ \<Rightarrow> None else table_of st x)"
  "entry_of (st(a \<mapsto> block_of b)) x = (if x = a then case b of HEAP_EPHEMERON_ENTRY t \<Rightarrow> Some t | _ \<Rightarrow> None else entry_of st x)"
  "cell_of (st(a \<mapsto> block_of b)) x = (if x = a then case b of HEAP_FINALIZATION_CELL t \<Rightarrow> Some t | _ \<Rightarrow> None else cell_of st x)"
  "registry_of (st(a \<mapsto> block_of b)) x =
     (if x = a then case b of HEAP_FINALIZATION_REGISTRY t \<Rightarrow> Some t | _ \<Rightarrow> None else registry_of st x)"
  by (simp_all add: fun_eq_iff bodies_def block_of_def table_of_def entry_of_def cell_of_def registry_of_def)

lemma program_value_added:
  assumes "a \<notin> dom st" "program_value st v"
  shows "program_value (st(a \<mapsto> block_of b)) v"
  using assms by (auto simp: program_value_def internal_def is_entry_def added_views)

lemma chain_blocks:
  assumes "store_ok st q table E C Q"
  shows "is_table st t \<Longrightarrow> set (E t) \<subseteq> dom st" "registry_of st r \<noteq> None \<Longrightarrow> set (C r) \<subseteq> dom st" "set Q \<subseteq> dom st"
    and "is_table st t \<Longrightarrow> e \<in> set (E t) \<Longrightarrow> is_entry st e" "registry_of st r \<noteq> None \<Longrightarrow> a \<in> set (C r) \<Longrightarrow> cell_of st a \<noteq> None"
    and "a \<in> set Q \<Longrightarrow> cell_of st a \<noteq> None"
  using chains_in_store [OF assms] by blast+

lemma is_kind_dom:
  "is_table st a \<Longrightarrow> a \<in> dom st" "is_entry st a \<Longrightarrow> a \<in> dom st" "cell_of st a \<noteq> None \<Longrightarrow> a \<in> dom st" "registry_of st a \<noteq> None \<Longrightarrow> a \<in> dom st"
  by (auto simp: is_table_def is_entry_def table_of_def entry_of_def cell_of_def registry_of_def split: option.splits)

lemma weak_ok_added:
  assumes ok: "store_ok st q table E C Q" and a: "a \<notin> dom st" "a \<noteq> 0" "a \<le> PAYLOAD_MASK" and b: "fresh_body st b"
  shows "weak_ok (st(a \<mapsto> block_of b)) (E(a := []))"
proof -
  let ?st = "st(a \<mapsto> block_of b)"
  have w: "weak_ok st E" using ok by (simp add: store_ok_def)
  have no: "table_of st a = None" "entry_of st a = None" using a(1) by (simp_all add: table_of_def entry_of_def domIff)
  have old: "is_table st x" if "is_table ?st x" "x \<noteq> a" for x using that by (simp add: is_table_def added_views)
  have entry: "is_entry ?st x \<longleftrightarrow> is_entry st x" if "x \<noteq> a" for x using that by (simp add: is_entry_def added_views)
  have prog: "\<not> is_entry ?st (heap_address v)" if "program_value st v" "is_heap v" for v
    using program_value_added [OF a(1) that(1)] that(2) by (simp add: program_value_def internal_def)
  show ?thesis unfolding weak_ok_def
  proof (intro conjI allI impI)
    fix x assume x: "is_table ?st x"
    show "table_ok ?st x ((E(a := [])) x)"
    proof (cases "x = a")
      case True
      then obtain t where "b = HEAP_EPHEMERON_TABLE t" using x by (auto simp: is_table_def added_views split: heap_body.splits)
      then have "table_of ?st a = Some empty_table" using b by (simp add: added_views fresh_body_def)
      then show ?thesis using True
        by (simp add: table_ok_def table_core_def empty_table_def index_ok_def back_link_def last_of_def)
    next
      case False
      then have t: "is_table st x" using old x by blast
      have "table_ok st x (E x)" using w t unfolding weak_ok_def by blast
      then have "table_ok ?st x (E x)"
      proof (rule table_ok_cong [rotated 2])
        show "entry_of ?st e = entry_of st e" if "e \<in> set (E x)" for e
          using chain_blocks(1) [OF ok t] that a(1) by (auto simp: added_views)
      qed (simp add: added_views False)
      then show ?thesis using False by simp
    qed
  next
    fix x y assume "is_table ?st x" "is_table ?st y" "x \<noteq> y"
    then show "set ((E(a := [])) x) \<inter> set ((E(a := [])) y) = {}" using old w unfolding weak_ok_def by auto
  next
    fix x e v assume x: "is_table ?st x" "e \<in> set ((E(a := [])) x)" "keys (entry_of ?st) e = Some v"
    then have xa: "x \<noteq> a" "e \<in> set (E x)" by (auto split: if_splits)
    then have t: "is_table st x" using old x by blast
    have ea: "e \<noteq> a" using chain_blocks(1) [OF ok t] xa(2) a(1) by blast
    then have k: "keys (entry_of st) e = Some v" using x(3) by (simp add: keys_def added_views)
    then obtain en where en: "entry_of st e = Some en" "entry_key en = v" by (auto simp: keys_def)
    have hv: "is_heap v"
      using w t xa(2) k unfolding weak_ok_def table_ok_def table_core_def by (metis option.inject)
    have "program_value st v" using ok en unfolding store_ok_def kind_Some by fastforce
    then show "\<not> is_entry ?st (heap_address v)" using prog hv by blast
  next
    fix x v assume x: "bodies ?st x = Some (HEAP_WEAK_REFERENCE v)" "is_heap v"
    have "program_value st v"
    proof (cases "x = a")
      case True
      then show ?thesis using x(1) b by (auto simp: added_views fresh_body_def)
    next
      case False
      then have "bodies st x = Some (HEAP_WEAK_REFERENCE v)" using x(1) by (simp add: added_views)
      then show ?thesis using ok unfolding store_ok_def by fastforce
    qed
    then show "\<not> is_entry ?st (heap_address v)" using prog x(2) by blast
  next
    fix x c assume x: "bodies ?st x = Some (HEAP_FINALIZATION_CELL c)" "is_heap (cell_token c)"
    have "program_value st (cell_token c)"
    proof (cases "x = a")
      case True
      then show ?thesis using x(1) b by (auto simp: added_views fresh_body_def)
    next
      case False
      then have "bodies st x = Some (HEAP_FINALIZATION_CELL c)" using x(1) by (simp add: added_views)
      then show ?thesis using ok unfolding store_ok_def by fastforce
    qed
    then show "\<not> is_entry ?st (heap_address (cell_token c))" using prog x(2) by blast
  qed
qed

lemma entries_linked_added:
  assumes ok: "store_ok st q table E C Q" and a: "a \<notin> dom st" and b: "fresh_body st b"
  shows "entries_linked (st(a \<mapsto> block_of b)) (E(a := []))"
  unfolding entries_linked_def
proof (intro allI impI)
  let ?st = "st(a \<mapsto> block_of b)"
  fix e en assume e: "entry_of ?st e = Some en" and no: "\<forall>t. is_table ?st t \<longrightarrow> e \<notin> set ((E(a := [])) t)"
  show "\<not> is_heap (next_entry en)"
  proof (cases "e = a")
    case True
    then show ?thesis using e b by (auto simp: added_views fresh_body_def split: heap_body.splits)
  next
    case False
    have "e \<notin> set (E t)" if "is_table st t" for t
    proof -
      have "t \<noteq> a" using that is_kind_dom(1) a by blast
      then have "is_table ?st t" "(E(a := [])) t = E t" using that by (simp_all add: is_table_def added_views)
      then show ?thesis using no by metis
    qed
    moreover have "entry_of st e = Some en" using e False by (simp add: added_views)
    ultimately show ?thesis using ok unfolding store_ok_def entries_linked_def by blast
  qed
qed

lemma cells_added:
  assumes ok: "store_ok st q table E C Q" and a: "a \<notin> dom st" "a \<noteq> 0" "a \<le> PAYLOAD_MASK" and b: "fresh_body st b"
  shows "queue_ok (st(a \<mapsto> block_of b)) q Q" and "registries_ok (st(a \<mapsto> block_of b)) (C(a := []))"
    and "cells_linked (st(a \<mapsto> block_of b)) Q (C(a := []))"
proof -
  let ?st = "st(a \<mapsto> block_of b)"
  have aQ: "a \<notin> set Q" using chain_blocks(3) [OF ok] a(1) by blast
  have aC: "a \<notin> set (C r)" if "registry_of st r \<noteq> None" for r using chain_blocks(2) [OF ok that] a(1) by blast
  have no: "cell_of st a = None" "registry_of st a = None" using a(1) by (simp_all add: cell_of_def registry_of_def domIff)
  have cell: "cell_of ?st x = cell_of st x" if "x \<noteq> a" for x using that by (simp add: added_views)
  have reg: "registry_of ?st x = registry_of st x" if "x \<noteq> a" for x using that by (simp add: added_views)
  have new: "cell_ok ?st Q (C(a := [])) a c \<and> \<not> cell_queued c" if c: "cell_of ?st a = Some c" for c
  proof -
    obtain "b = HEAP_FINALIZATION_CELL c" using c by (auto simp: added_views split: heap_body.splits)
    then have "is_heap (cell_registry c) \<and> \<not> is_heap (next_cell c) \<and> \<not> is_heap (cell_queue_next c) \<and> \<not> cell_queued c \<and> \<not> cell_processed c"
      using b by (simp add: fresh_body_def)
    moreover have "a \<notin> set ((C(a := [])) r)" if "registry_of ?st r \<noteq> None" for r
      using aC [of r] that reg by (cases "r = a") auto
    ultimately show ?thesis by (auto simp: cell_ok_def)
  qed
  show "queue_ok ?st q Q"
  proof -
    have k: "queue_ok st q Q" using ok by (simp add: store_ok_def)
    have l: "queue_links ?st x = queue_links st x" "record_of ?st x = record_of st x" "waiting ?st x = waiting st x" if "x \<in> set Q" for x
    proof -
      have "x \<noteq> a" using that aQ by blast
      then have "cell_of ?st x = cell_of st x" by (rule cell)
      then show "queue_links ?st x = queue_links st x" "record_of ?st x = record_of st x" "waiting ?st x = waiting st x"
        by (simp_all add: queue_links_def record_of_def waiting_def)
    qed
    have f: "forward (queue_links ?st) (queue_head q) Q = forward (queue_links st) (queue_head q) Q" by (rule forward_cong) (rule l)
    have w: "filter (waiting ?st) Q = filter (waiting st) Q" by (rule filter_cong [OF refl]) (rule l)
    have "cell_queued c \<longleftrightarrow> x \<in> set Q" if x: "record_of ?st x = Some c" for x c
    proof (cases "x = a")
      case True
      then obtain c0 where "cell_of ?st a = Some c0" "cell_queued c0 = cell_queued c" using x by (auto simp: record_of_def)
      then show ?thesis using new aQ True by simp
    next
      case False
      then have "record_of st x = Some c" using x by (simp add: record_of_def cell)
      then show ?thesis using k unfolding queue_ok_def by blast
    qed
    moreover have "\<forall>x \<in> set Q. record_of ?st x \<noteq> None" using k l unfolding queue_ok_def by metis
    ultimately show ?thesis using k unfolding queue_ok_def f w by blast
  qed
  show "registries_ok ?st (C(a := []))" unfolding registries_ok_def
  proof (intro conjI allI impI)
    fix r assume r: "registry_of ?st r \<noteq> None"
    show "registry_ok ?st r ((C(a := [])) r)"
    proof (cases "r = a")
      case True
      then obtain g where "b = HEAP_FINALIZATION_REGISTRY g" using r by (auto simp: added_views split: heap_body.splits)
      then show ?thesis using True b by (simp add: registry_ok_def added_views fresh_body_def back_link_def last_of_def)
    next
      case False
      then have r': "registry_of st r \<noteq> None" using r reg by simp
      then have k: "registry_ok st r (C r)" using ok by (simp add: store_ok_def registries_ok_def)
      have l: "cell_links ?st x = cell_links st x" "cell_of ?st x = cell_of st x" if "x \<in> set (C r)" for x
      proof -
        have "x \<noteq> a" using aC [OF r'] that by blast
        then show "cell_of ?st x = cell_of st x" by (rule cell)
        then show "cell_links ?st x = cell_links st x" by (simp add: cell_links_def)
      qed
      have "forward (cell_links ?st) v (C r) = forward (cell_links st) v (C r)" for v by (rule forward_cong) (rule l)
      then show ?thesis using k l(2) False reg by (auto simp: registry_ok_def)
    qed
  next
    fix r s assume "registry_of ?st r \<noteq> None" "registry_of ?st s \<noteq> None" "r \<noteq> s"
    then have "r \<noteq> a \<Longrightarrow> s \<noteq> a \<Longrightarrow> set (C r) \<inter> set (C s) = {}"
      using ok reg [of r] reg [of s] unfolding store_ok_def registries_ok_def by metis
    then show "set ((C(a := [])) r) \<inter> set ((C(a := [])) s) = {}" by auto
  qed
  show "cells_linked ?st Q (C(a := []))" unfolding cells_linked_def
  proof (intro allI impI)
    fix x c assume x: "cell_of ?st x = Some c"
    show "cell_ok ?st Q (C(a := [])) x c"
    proof (cases "x = a")
      case True
      then show ?thesis using new x by blast
    next
      case False
      then have "cell_ok st Q C x c" using ok x cell unfolding store_ok_def cells_linked_def by simp
      moreover have "registry_of ?st r \<noteq> None \<and> x \<in> set ((C(a := [])) r) \<longleftrightarrow> registry_of st r \<noteq> None \<and> x \<in> set (C r)" for r
        using no(2) reg [of r] by (cases "r = a") auto
      ultimately show ?thesis by (simp only: cell_ok_def) metis
    qed
  qed
qed

lemma string_table_ok_mono:
  assumes ok: "string_table_ok strings table" and le: "\<And>v us. strings v = Some us \<Longrightarrow> strings' v = Some us"
  shows "string_table_ok strings' table" and "shared strings' table us = shared strings table us"
proof -
  have same: "strings' v = strings v" if t: "table = Some t" and v: "v \<in> set (entries t)" for t v
  proof -
    have "entries_ok strings t" using ok t by (simp add: string_table_ok_def)
    then obtain us where "strings v = Some us" using v unfolding entries_ok_def by (metis in_set_conv_nth)
    then show ?thesis using le by simp
  qed
  show "string_table_ok strings' table"
  proof (cases table)
    case None
    then show ?thesis by (simp add: string_table_ok_def)
  next
    case (Some t)
    have nth: "strings' (entries t ! i) = strings (entries t ! i)" if "i < length (entries t)" for i using same [OF Some] that by simp
    have m: "map strings' (entries t) = map strings (entries t)" using same [OF Some] by simp
    have e: "entries_ok strings' t = entries_ok strings t" using nth by (simp add: entries_ok_def m)
    show ?thesis
    proof (cases "table_slots t = []")
      case True
      then show ?thesis using ok e Some by (simp add: string_table_ok_def)
    next
      case False
      then have so: "slots_ok strings t (length (entries t))" and en: "entries_ok strings t" using ok Some by (simp_all add: string_table_ok_def)
      have occ: "string_occupant strings' (entries t) p = string_occupant strings (entries t) p" if p: "p \<in> set (table_slots t)" for p
      proof (cases "p = 0")
        case False
        then have "p \<in> of_nat ` {1..length (entries t)}" using so p unfolding slots_ok_def by blast
        then obtain m where m: "p = of_nat m" "1 \<le> m" "m \<le> length (entries t)" by auto
        then have "m < 2 ^ 32" using en by (simp add: entries_ok_def)
        then have "unat p = m" unfolding m(1) by (rule position_value)
        then show ?thesis using False nth [of "m - 1"] m(2,3) by (simp add: string_occupant_def)
      qed (simp add: string_occupant_def)
      have "indexed (\<lambda>p. p = 0) (string_occupant strings' (entries t)) string_home (table_slots t) =
          indexed (\<lambda>p. p = 0) (string_occupant strings (entries t)) string_home (table_slots t)"
        by (rule indexed_cong) (rule occ)
      then have "slots_ok strings' t (length (entries t))" using so by (simp add: slots_ok_def)
      then show ?thesis using ok e Some False by (simp add: string_table_ok_def)
    qed
  qed
  have "List.find (\<lambda>v. strings' v = Some us) (entries t) = List.find (\<lambda>v. strings v = Some us) (entries t)" if "table = Some t" for t
    by (rule find_cong [OF refl]) (simp add: same [OF that])
  then show "shared strings' table us = shared strings table us" by (simp add: shared_def split: option.split)
qed

lemma string_units_added:
  assumes "a \<notin> dom st" "string_units st v = Some us"
  shows "string_units (st(a \<mapsto> block_of b)) v = Some us"
proof -
  have "heap_address v \<noteq> a" using assms by (auto simp: string_units_def domIff split: if_splits)
  then show ?thesis using assms(2) by (cases "is_heap v") (simp_all add: string_units_def)
qed

lemma held_added:
  assumes ok: "store_ok st q table E C Q" and a: "a \<notin> dom st" "a \<noteq> 0" "a \<le> PAYLOAD_MASK" and b: "fresh_body st b"
  shows "store_ok (st(a \<mapsto> block_of b)) q table (E(a := [])) (C(a := [])) Q"
  unfolding store_ok_def
proof (intro conjI)
  let ?st = "st(a \<mapsto> block_of b)"
  note k = ok [unfolded store_ok_def]
  show "\<forall>x \<in> dom ?st. x \<noteq> 0 \<and> x \<le> PAYLOAD_MASK" using k a(2,3) by auto
  show "\<forall>x c v. bodies ?st x = Some c \<longrightarrow> v \<in> set (held c) \<longrightarrow> program_value ?st v"
  proof (intro allI impI)
    fix x c v assume x: "bodies ?st x = Some c" "v \<in> set (held c)"
    have "program_value st v"
    proof (cases "x = a")
      case True
      then show ?thesis using x b by (simp add: added_views fresh_body_def)
    next
      case False
      then have "bodies st x = Some c" using x(1) by (simp add: added_views)
      then show ?thesis using k x(2) by blast
    qed
    then show "program_value ?st v" by (rule program_value_added [OF a(1)])
  qed
  show "weak_ok ?st (E(a := []))" by (rule weak_ok_added [OF ok a b])
  show "entries_linked ?st (E(a := []))" by (rule entries_linked_added [OF ok a(1) b])
  show "queue_ok ?st q Q" "registries_ok ?st (C(a := []))" "cells_linked ?st Q (C(a := []))" by (rule cells_added [OF ok a b])+
  show "string_table_ok (string_units ?st) table"
  proof (rule string_table_ok_mono(1))
    show "string_table_ok (string_units st) table" using k by blast
  qed (rule string_units_added [OF a(1)])
qed

lemma publish_heap_ok:
  assumes ok: "heap_ok h E C Q" and a: "a \<notin> dom (heap_store h)" and b: "fresh_body (heap_store h) b"
    and p: "publish a b h = (Inr v, h')"
  shows "v = heap_value a" and "a \<noteq> 0" and "a \<le> PAYLOAD_MASK" and "heap_ok h' (E(a := [])) (C(a := [])) Q"
    and "heap_store h' = (heap_store h)(a \<mapsto> block_of b)" and "heap_roots h' = heap_roots h" and "heap_queue h' = heap_queue h"
    and "heap_strings h' = heap_strings h"
proof -
  note k = ok [unfolded heap_ok_def]
  show r: "v = heap_value a" "a \<noteq> 0" "a \<le> PAYLOAD_MASK"
    and s: "heap_store h' = (heap_store h)(a \<mapsto> block_of b)" and t: "heap_roots h' = heap_roots h" "heap_queue h' = heap_queue h"
      "heap_strings h' = heap_strings h"
    using p by (auto simp: publish_def Let_def block_of_def not_less split: if_splits option.splits)
  have o: "heap_objects h' = a # heap_objects h" and w: "weak_counts h' = (case weak_record_count b of None \<Rightarrow> weak_counts h
      | Some k \<Rightarrow> (weak_counts h)(k := weak_counts h k + 1))"
    using p by (auto simp: publish_def Let_def split: if_splits option.splits)
  have n: "a \<notin> set (heap_objects h)" using k a by blast
  show "heap_ok h' (E(a := [])) (C(a := [])) Q" unfolding heap_ok_def s t o
  proof (intro conjI)
    show "clean ((heap_store h)(a \<mapsto> block_of b))"
      using k by (auto simp: clean_def is_marked_def pending_of_def block_of_def)
    show "dom ((heap_store h)(a \<mapsto> block_of b)) = set (a # heap_objects h)" using k by simp
    show "distinct (a # heap_objects h)" using k n by simp
    show "\<forall>v \<in> set (early_roots (heap_roots h) @ late_roots (heap_roots h)). program_value ((heap_store h)(a \<mapsto> block_of b)) v"
      using k program_value_added [OF a] by blast
    show "store_ok ((heap_store h)(a \<mapsto> block_of b)) (heap_queue h) (heap_strings h) (E(a := [])) (C(a := [])) Q"
      using k held_added [OF _ a r(2,3) b] by blast
    show "weak_counts h' = kind_count ((heap_store h)(a \<mapsto> block_of b)) (a # heap_objects h)"
    proof
      fix x
      have "kind_count ((heap_store h)(a \<mapsto> block_of b)) (heap_objects h) x = kind_count (heap_store h) (heap_objects h) x"
        unfolding kind_count_def using n by (intro arg_cong [where f = length] filter_cong) auto
      then show "weak_counts h' x = kind_count ((heap_store h)(a \<mapsto> block_of b)) (a # heap_objects h) x"
        unfolding w using k by (auto simp: kind_count_def block_of_def split: option.split)
    qed
  qed
qed

subsection \<open>Allocating an object\<close>

definition refused_object :: "string \<Rightarrow> 'a heap_state_scheme \<Rightarrow> rt_error \<Rightarrow> bool" where
  "refused_object refused h e \<longleftrightarrow> e = too_many_records \<or> (e = diagnostic refused \<or> e = unrepresentable) \<and> \<not> never_refuses h"

text \<open>\<open>h1\<close> is the heap after the safepoint, \<open>h'\<close> the heap after the publication.\<close>

definition allocated :: "'a heap_state_scheme \<Rightarrow> (u64 \<Rightarrow> u64 list) \<Rightarrow> (u64 \<Rightarrow> u64 list) \<Rightarrow> u64 list \<Rightarrow> string \<Rightarrow> heap_body \<Rightarrow>
    rt_error + oseo_value \<Rightarrow> 'a heap_state_scheme \<Rightarrow> 'a heap_state_scheme \<Rightarrow> (u64 \<Rightarrow> u64 list) \<Rightarrow> (u64 \<Rightarrow> u64 list) \<Rightarrow> u64 list \<Rightarrow> bool" where
  "allocated h E C Q refused b r h1 h' E1 C1 Q' \<longleftrightarrow>
     (\<exists>n bytes address. length (heap_objects h) \<le> n \<and> allocate_heap_bytes n bytes h = Some (address, h1)) \<and>
     heap_ok h1 E1 C1 Q' \<and> safepoint h Q h1 Q' \<and> (\<not> collect_every_safepoint h \<longrightarrow> E1 = E \<and> C1 = C) \<and>
     heap_roots h1 = heap_roots h \<and> heap_roots h' = heap_roots h \<and> heap_strings h' = heap_strings h1 \<and>
     (case r of
        Inl e \<Rightarrow> refused_object refused h e \<and> heap_store h' = heap_store h1 \<and> heap_ok h' E1 C1 Q'
      | Inr v \<Rightarrow> \<exists>a. v = heap_value a \<and> a \<noteq> 0 \<and> a \<le> PAYLOAD_MASK \<and> a \<notin> dom (heap_store h1) \<and> fresh_body (heap_store h1) b \<and>
          heap_store h' = (heap_store h1)(a \<mapsto> block_of b) \<and> heap_ok h' (E1(a := [])) (C1(a := [])) Q')"

lemma publish_refused:
  "publish a b h = (Inl e, h') \<Longrightarrow> h' = h \<and> (e = too_many_records \<or> e = unrepresentable \<and> (a = 0 \<or> a > PAYLOAD_MASK))"
  by (auto simp: publish_def Let_def split: if_splits)

lemma oseo_collect_host: "oseo_collect n h = Some h' \<Longrightarrow> never_refuses h' = never_refuses h"
  by (auto simp: oseo_collect_def Let_def never_refuses_def split: option.splits prod.splits if_splits)

lemma allocate_heap_bytes_host:
  "allocate_heap_bytes n bytes h = Some (a, h') \<Longrightarrow> never_refuses h \<Longrightarrow> a \<noteq> 0 \<and> a \<le> PAYLOAD_MASK"
  using oseo_collect_host [of n h]
  by (auto simp: allocate_heap_bytes_def allocate_bytes_def never_refuses_def Let_def split: if_splits)

lemma allocate_object_effect:
  assumes ok: "heap_ok h E C Q" and n: "length (heap_objects h) \<le> n"
    and free: "host_malloc h (allocation_attempts h + 1) bytes \<notin> dom (heap_store h)"
    and held: "set (held b) \<subseteq> set (early_roots (heap_roots h))"
    and shape: "\<And>st. \<forall>v \<in> set (held b). program_value st v \<Longrightarrow> fresh_body st b"
  shows "\<exists>r h1 h' E1 C1 Q'. allocate_object n bytes refused b h = Some (r, h') \<and> allocated h E C Q refused b r h1 h' E1 C1 Q'"
proof -
  obtain address h1 E1 C1 Q' where al: "allocate_heap_bytes n bytes h = Some (address, h1)" and ok1: "heap_ok h1 E1 C1 Q'"
    and sp: "safepoint h Q h1 Q'" "\<not> collect_every_safepoint h \<longrightarrow> E1 = E \<and> C1 = C"
    and r1: "heap_roots h1 = heap_roots h" and d1: "dom (heap_store h1) \<subseteq> dom (heap_store h)"
    and ad: "address = 0 \<or> address = host_malloc h (allocation_attempts h + 1) bytes"
    using allocate_heap_bytes_effect [OF ok n, of bytes] by blast
  note host = allocate_heap_bytes_host [OF al]
  have run: "\<exists>n bytes address. length (heap_objects h) \<le> n \<and> allocate_heap_bytes n bytes h = Some (address, h1)" using n al by blast
  show ?thesis
  proof (cases "address = 0")
    case True
    then have "allocate_object n bytes refused b h = Some (Inl (diagnostic refused), h1)" by (simp add: allocate_object_def al)
    moreover have "allocated h E C Q refused b (Inl (diagnostic refused)) h1 h1 E1 C1 Q'"
      using run ok1 sp r1 host True unfolding allocated_def refused_object_def by auto
    ultimately show ?thesis by blast
  next
    case False
    then have new: "address \<notin> dom (heap_store h1)" using ad free d1 by blast
    have "\<forall>v \<in> set (held b). program_value (heap_store h1) v" using held frame_program [OF ok1] r1 by auto
    then have fb: "fresh_body (heap_store h1) b" by (rule shape)
    obtain r h' where p: "publish address b h1 = (r, h')" by (cases "publish address b h1")
    have go: "allocate_object n bytes refused b h = Some (r, h')" using False by (simp add: allocate_object_def al p)
    have "allocated h E C Q refused b r h1 h' E1 C1 Q'"
    proof (cases r)
      case (Inl e)
      then have "h' = h1" "e = too_many_records \<or> e = unrepresentable \<and> (address = 0 \<or> address > PAYLOAD_MASK)"
        using publish_refused [of address b h1 e h'] p by auto
      then show ?thesis using run ok1 sp r1 host Inl unfolding allocated_def refused_object_def by auto
    next
      case (Inr v)
      note f = publish_heap_ok [OF ok1 new fb p [unfolded Inr]]
      show ?thesis using run f ok1 sp r1 new fb Inr unfolding allocated_def by auto
    qed
    then show ?thesis using go by blast
  qed
qed

end
