(* ===== verification/Ephemeron_Set.thy ===== *)
theory Ephemeron_Set
  imports Weak_Records
begin

text \<open>
  Setting a key of an ephemeron table: reserving a slot of the index (rebuilding the index when it is
  too full), the collection the allocation of the entry may run, and the linking of the entry. The
  result is that \<open>oseo_internal_ephemeron_set\<close> updates the map a table stands for.
\<close>

subsection \<open>The index\<close>

text \<open>The index an insertion extends, apart from its table.\<close>

definition index_holds :: "(u64 \<rightharpoonup> ephemeron_entry) \<Rightarrow> oseo_value list \<Rightarrow> u64 list \<Rightarrow> nat \<Rightarrow> bool" where
  "index_holds ent index P used \<longleftrightarrow>
     indexed (\<lambda>slot. slot = 0) (occupant ent) ephemeron_index_start index \<and>
     {s \<in> set index. s \<noteq> 0 \<and> s \<noteq> TOMBSTONE} = heap_value ` set P \<and> used = length (filter (\<lambda>s. s \<noteq> 0) index)"

definition keyed :: "(u64 \<rightharpoonup> ephemeron_entry) \<Rightarrow> u64 list \<Rightarrow> bool" where
  "keyed ent P \<longleftrightarrow> distinct (map (keys ent) P) \<and> (\<forall>e \<in> set P. e \<le> PAYLOAD_MASK \<and> keys ent e \<noteq> None)"

lemma ephemeron_index_insert_correct:
  assumes holds: "index_holds ent index P used" and room: "used < length index" and keyed: "keyed ent (P @ [e])"
    and key: "keys ent e = Some key"
  shows "\<exists>index' vacant. ephemeron_index_insert index key (heap_value e) = Some (index', vacant) \<and>
    index_holds ent index' (P @ [e]) (if vacant then used + 1 else used) \<and> length index' = length index \<and>
    (TOMBSTONE \<notin> set index \<longrightarrow> vacant \<and> TOMBSTONE \<notin> set index')"
proof -
  have ix: "indexed (\<lambda>slot. slot = 0) (occupant ent) ephemeron_index_start index"
    and held: "{s \<in> set index. s \<noteq> 0 \<and> s \<noteq> TOMBSTONE} = heap_value ` set P" and used: "used = length (filter (\<lambda>s. s \<noteq> 0) index)"
    using holds by (auto simp: index_holds_def)
  have eM: "e \<le> PAYLOAD_MASK" using keyed by (simp add: keyed_def)
  have occ: "occupant ent (heap_value d) = keys ent d" if "d \<in> set P" for d
    using keyed that by (intro occupant_value) (simp add: keyed_def)
  have old: "keys ent d \<noteq> None" if "d \<in> set P" for d using keyed that by (simp add: keyed_def)
  have new: "keys ent d \<noteq> Some key" if "d \<in> set P" for d using keyed key that unfolding keyed_def by (force simp: image_iff)
  obtain n where n: "length index = 2 ^ n" using ix by (auto simp: indexed_def)
  have home: "ephemeron_index_start key (length index) < length index" unfolding n by (rule ephemeron_slots.home_in_range)
  have none: "occupant ent s = None \<longleftrightarrow> s = 0 \<or> s = TOMBSTONE" if "s \<in> set index" for s
  proof (cases "s = 0 \<or> s = TOMBSTONE")
    case False
    have "s \<in> heap_value ` set P" using that False unfolding held [symmetric] by simp
    then obtain d where d: "d \<in> set P" "s = heap_value d" by (rule imageE)
    then have "occupant ent s \<noteq> None" using old [OF d(1)] unfolding d(2) occ [OF d(1)] by simp
    then show ?thesis using False by simp
  qed (auto simp: occupant_def)
  have absent: "occupant ent (index ! j) \<noteq> Some key" if "j < length index" for j
  proof (cases "index ! j = 0 \<or> index ! j = TOMBSTONE")
    case False
    then have "index ! j \<in> heap_value ` set P" using held nth_mem [OF that] by blast
    then obtain d where d: "d \<in> set P" "index ! j = heap_value d" by blast
    show ?thesis unfolding d(2) occ [OF d(1)] by (rule new [OF d(1)])
  qed (auto simp: occupant_def)
  obtain j0 where "j0 < length index" "index ! j0 = 0" using exists_vacant [of "\<lambda>s. s = 0" index] room used by auto
  then obtain slot where slot: "probe (length index) (length index) (\<lambda>s. index ! s = 0 \<or> index ! s = TOMBSTONE)
      (ephemeron_index_start key (length index)) = Some slot" "index ! slot = 0 \<or> index ! slot = TOMBSTONE" "slot < length index"
    using probe_total [OF n home, of "\<lambda>s. index ! s = 0 \<or> index ! s = TOMBSTONE"] by blast
  have "probe (length index) (length index) (\<lambda>s. occupant ent (index ! s) = None) (ephemeron_index_start key (length index)) = Some slot"
    unfolding slot(1) [symmetric] by (rule probe_cong [OF n _ home]) (simp add: none)
  then have ix': "indexed (\<lambda>slot. slot = 0) (occupant ent) ephemeron_index_start (index[slot := heap_value e])"
    using ephemeron_slots.indexed_insert [OF ix absent] occupant_value [OF eM, of ent] key by simp
  have run: "ephemeron_index_insert index key (heap_value e) = Some (index[slot := heap_value e], index ! slot = 0)"
    by (simp add: ephemeron_index_insert_def Let_def slot(1))
  have set': "{s \<in> set (index[slot := heap_value e]). s \<noteq> 0 \<and> s \<noteq> TOMBSTONE} = heap_value ` set (P @ [e])"
  proof -
    have "{s \<in> set (index[slot := heap_value e]). s \<noteq> 0 \<and> s \<noteq> TOMBSTONE} = insert (heap_value e) {s \<in> set index. s \<noteq> 0 \<and> s \<noteq> TOMBSTONE}"
    proof (intro equalityI subsetI)
      fix s assume "s \<in> {s \<in> set (index[slot := heap_value e]). s \<noteq> 0 \<and> s \<noteq> TOMBSTONE}"
      then show "s \<in> insert (heap_value e) {s \<in> set index. s \<noteq> 0 \<and> s \<noteq> TOMBSTONE}"
        using set_update_subset_insert [of index slot "heap_value e"] by blast
    next
      fix s assume s: "s \<in> insert (heap_value e) {s \<in> set index. s \<noteq> 0 \<and> s \<noteq> TOMBSTONE}"
      show "s \<in> {s \<in> set (index[slot := heap_value e]). s \<noteq> 0 \<and> s \<noteq> TOMBSTONE}"
      proof (cases "s = heap_value e")
        case True
        then show ?thesis using set_update_memI [OF slot(3)] heap_value_not_slot [of e] by simp
      next
        case False
        then obtain i where i: "i < length index" "index ! i = s" "s \<noteq> 0" "s \<noteq> TOMBSTONE" using s by (auto simp: in_set_conv_nth)
        then have "i \<noteq> slot" using slot(2) by auto
        then have "index[slot := heap_value e] ! i = s" using i by simp
        then show ?thesis using i by (metis (mono_tags, lifting) length_list_update mem_Collect_eq nth_mem)
      qed
    qed
    then show ?thesis using held by auto
  qed
  have used': "(if index ! slot = 0 then used + 1 else used) = length (filter (\<lambda>s. s \<noteq> 0) (index[slot := heap_value e]))"
  proof (cases "index ! slot = 0")
    case True
    then show ?thesis using length_filter_update [OF slot(3), of "\<lambda>s. s \<noteq> 0"] heap_value_not_slot [of e] used by simp
  next
    case False
    have "{i. i < length (index[slot := heap_value e]) \<and> index[slot := heap_value e] ! i \<noteq> 0} = {i. i < length index \<and> index ! i \<noteq> 0}"
      using False heap_value_not_slot(1) [of e] slot(3) by (intro Collect_cong) (metis length_list_update nth_list_update_eq nth_list_update_neq)
    then show ?thesis using False used by (simp add: length_filter_conv_card)
  qed
  have "TOMBSTONE \<notin> set index \<longrightarrow> index ! slot = 0 \<and> TOMBSTONE \<notin> set (index[slot := heap_value e])"
    using slot(2) nth_mem [OF slot(3)] set_update_subset_insert [of index slot "heap_value e"] heap_value_not_slot(2) [of e] by auto
  then show ?thesis using run ix' set' used' by (auto simp: index_holds_def)
qed

lemma index_rebuild_correct:
  assumes "forward (nexts ent) cursor R" "keyed ent (P @ R)" "index_holds ent index P (length P)" "TOMBSTONE \<notin> set index"
    "length P + length R < length index" "length R < n"
  shows "\<exists>index'. index_rebuild n ent cursor index (length P) = Some (index', length (P @ R)) \<and>
    index_holds ent index' (P @ R) (length (P @ R)) \<and> length index' = length index"
  using assms
proof (induction R arbitrary: cursor P index n)
  case Nil
  then obtain m where "n = Suc m" by (cases n) auto
  then show ?case using Nil by simp
next
  case (Cons e R)
  obtain m where m: "n = Suc m" using Cons.prems(6) by (cases n) auto
  have eM: "e \<le> PAYLOAD_MASK" and "keys ent e \<noteq> None" using Cons.prems(2) by (simp_all add: keyed_def)
  then obtain en where en: "ent e = Some en" by (auto simp: keys_def)
  have c: "cursor = heap_value e" and f: "forward (nexts ent) (next_entry en) R" using Cons.prems(1) en by (auto simp: nexts_def [of _ e])
  have k: "keys ent e = Some (entry_key en)" using en by (simp add: keys_def)
  have pe: "keyed ent (P @ [e])" using Cons.prems(2) by (auto simp: keyed_def)
  have "length P < length index" using Cons.prems(5) by simp
  from ephemeron_index_insert_correct [OF Cons.prems(3) this pe k] obtain index' where
    i: "ephemeron_index_insert index (entry_key en) (heap_value e) = Some (index', True)" "index_holds ent index' (P @ [e]) (length (P @ [e]))"
      "length index' = length index" "TOMBSTONE \<notin> set index'"
    using Cons.prems(4) by auto
  have "\<exists>index''. index_rebuild m ent (next_entry en) index' (length (P @ [e])) = Some (index'', length ((P @ [e]) @ R)) \<and>
      index_holds ent index'' ((P @ [e]) @ R) (length ((P @ [e]) @ R)) \<and> length index'' = length index'"
    by (rule Cons.IH [OF f _ i(2,4)]) (use Cons.prems i(3) m in auto)
  then show ?case using i eM en by (simp add: m c)
qed

lemma index_capacity_correct:
  "index_capacity k needed = Some c \<Longrightarrow> \<exists>m\<ge>k. c = 2 ^ m \<and> needed \<le> c div 2"
proof (induction k needed rule: index_capacity.induct)
  case (1 k needed)
  show ?case
  proof (cases "2 ^ k div 2 < needed")
    case True
    then have "\<not> 2 ^ k > SIZE_MAX div 2 div 8 \<and> index_capacity (Suc k) needed = Some c"
      using 1(2) by (subst (asm) index_capacity.simps) (auto split: if_splits)
    then show ?thesis using 1(1) [OF True] Suc_leD by blast
  next
    case False
    then show ?thesis using 1(2) by (subst (asm) index_capacity.simps) auto
  qed
qed

text \<open>Changes to tables and entries only.\<close>

lemma heap_ok_tables:
  assumes ok: "heap_ok h E C Q"
    and st: "h' = h\<lparr>heap_store := st'\<rparr>" "dom st' = dom (heap_store h)"
      "\<And>b. \<not> is_table (heap_store h) b \<Longrightarrow> \<not> is_entry (heap_store h) b \<Longrightarrow> st' b = heap_store h b"
      "is_table st' = is_table (heap_store h)" "is_entry st' = is_entry (heap_store h)" "clean st'"
    and new: "weak_ok st' E'" "entries_linked st' E'"
    and held: "\<And>e en. entry_of st' e = Some en \<Longrightarrow> program_value (heap_store h) (entry_key en) \<and> program_value (heap_store h) (entry_value en)"
  shows "heap_ok h' E' C Q"
proof -
  let ?st = "heap_store h"
  note k = ok [unfolded heap_ok_def]
  have s: "store_ok ?st (heap_queue h) (heap_strings h) E C Q" using k by blast
  have te: "cell_of s x = None \<and> registry_of s x = None" if "is_table s x \<or> is_entry s x" for s x
    using not_entry_cell that by blast
  have views: "cell_of st' = cell_of ?st" "registry_of st' = registry_of ?st"
  proof -
    have "cell_of st' x = cell_of ?st x \<and> registry_of st' x = registry_of ?st x" for x
    proof (cases "is_table ?st x \<or> is_entry ?st x")
      case True
      then show ?thesis using te [of ?st x] te [of st' x] st(4,5) by simp
    next
      case False
      then show ?thesis using st(3) by (simp add: cell_of_def registry_of_def)
    qed
    then show "cell_of st' = cell_of ?st" "registry_of st' = registry_of ?st" by auto
  qed
  have int: "internal st' = internal ?st" by (simp add: fun_eq_iff internal_def views st(5))
  then have prog: "program_value st' = program_value ?st" by (simp add: fun_eq_iff program_value_def st(2))
  have kind: "weak_record_count (body ob') = weak_record_count (body ob)" if ob: "?st x = Some ob" "st' x = Some ob'" for x ob ob'
  proof -
    consider "is_table ?st x" | "is_entry ?st x" | "\<not> is_table ?st x \<and> \<not> is_entry ?st x" by blast
    then show ?thesis
    proof cases
      case 1
      then have "is_table st' x" using st(4) by simp
      with 1 ob show ?thesis by (auto simp: is_table_def table_of_def weak_record_count_def split: heap_body.splits)
    next
      case 2
      then have "is_entry st' x" using st(5) by simp
      with 2 ob show ?thesis by (auto simp: is_entry_def entry_of_def weak_record_count_def split: heap_body.splits)
    next
      case 3
      then show ?thesis using st(3) ob by simp
    qed
  qed
  have counts: "kind_count st' os = kind_count ?st os" if os: "set os = dom ?st" for os
  proof
    fix x
    have "(case st' a of None \<Rightarrow> None | Some ob \<Rightarrow> weak_record_count (body ob)) =
        (case ?st a of None \<Rightarrow> None | Some ob \<Rightarrow> weak_record_count (body ob))" if "a \<in> set os" for a
    proof -
      have "a \<in> dom ?st" "a \<in> dom st'" using that os st(2) by auto
      then obtain ob ob' where "?st a = Some ob" "st' a = Some ob'" by blast
      then show ?thesis using kind by simp
    qed
    then show "kind_count st' os x = kind_count ?st os x"
      unfolding kind_count_def by (intro arg_cong [where f = length] filter_cong) auto
  qed
  have units: "string_units ?st v = Some us \<Longrightarrow> string_units st' v = Some us" for v us
  proof -
    assume u: "string_units ?st v = Some us"
    then have h: "is_heap v" by (simp add: string_units_def split: if_splits)
    have "\<not> is_table ?st (heap_address v)" "\<not> is_entry ?st (heap_address v)"
      using u by (auto simp: string_units_def is_table_def is_entry_def table_of_def entry_of_def split: if_splits option.splits heap_body.splits)
    then have "st' (heap_address v) = ?st (heap_address v)" by (rule st(3))
    then show ?thesis using u h by (simp add: string_units_def)
  qed
  have f: "heap_store h' = st'" "heap_objects h' = heap_objects h" "heap_roots h' = heap_roots h" "heap_queue h' = heap_queue h"
    "heap_strings h' = heap_strings h" "weak_counts h' = weak_counts h" by (simp_all add: st(1))
  show ?thesis
    unfolding heap_ok_def f
  proof (intro conjI)
    show "clean st'" by fact
    show "dom st' = set (heap_objects h)" "distinct (heap_objects h)" using k st(2) by auto
    show "\<forall>v \<in> set (early_roots (heap_roots h) @ late_roots (heap_roots h)). program_value st' v" using k prog by metis
    show "weak_counts h = kind_count st' (heap_objects h)" using k counts by auto
    show "store_ok st' (heap_queue h) (heap_strings h) E' C Q" unfolding store_ok_def
    proof (intro conjI)
      show "\<forall>a \<in> dom st'. a \<noteq> 0 \<and> a \<le> PAYLOAD_MASK" using s st(2) unfolding store_ok_def by auto
      show "\<forall>a b v. bodies st' a = Some b \<longrightarrow> v \<in> set (held b) \<longrightarrow> program_value st' v"
      proof (intro allI impI)
        fix a b v assume b: "bodies st' a = Some b" "v \<in> set (held b)"
        consider t where "b = HEAP_EPHEMERON_TABLE t" | e where "b = HEAP_EPHEMERON_ENTRY e"
          | "\<not> is_table st' a \<and> \<not> is_entry st' a" using not_table_entry [OF b(1)] by blast
        then show "program_value st' v"
        proof cases
          case 1
          then show ?thesis using b(2) by simp
        next
          case 2
          then have "entry_of st' a = Some e" using b(1) by (simp add: kind_Some)
          then show ?thesis using held b(2) 2 prog by auto
        next
          case 3
          then have "st' a = ?st a" using st(3-5) by simp
          then have "bodies ?st a = Some b" using b(1) by (simp add: bodies_def)
          then show ?thesis using s b(2) prog unfolding store_ok_def by simp
        qed
      qed
      show "weak_ok st' E'" "entries_linked st' E'" by fact+
      have q: "queue_links st' = queue_links ?st" "record_of st' = record_of ?st" "waiting st' = waiting ?st"
        by (simp_all add: fun_eq_iff queue_links_def record_of_def waiting_def views)
      show "queue_ok st' (heap_queue h) Q" using s by (simp add: store_ok_def queue_ok_def q)
      have l: "cell_links st' = cell_links ?st" by (simp add: fun_eq_iff cell_links_def views)
      have "registries_ok ?st C" using s by (simp add: store_ok_def)
      from registries_ok_cong [OF this views(2) l] show "registries_ok st' C" by (simp only: views(1))
      show "cells_linked st' Q C" using s by (simp add: store_ok_def cells_linked_def cell_ok_def views)
      show "string_table_ok (string_units st') (heap_strings h)"
      proof (rule string_table_ok_mono(1))
        show "string_table_ok (string_units ?st) (heap_strings h)" using s by (simp add: store_ok_def)
      qed (rule units)
    qed
  qed
qed

lemma update_table_kinds [simp]:
  "is_table (update_table a f st) = is_table st" "is_entry (update_table a f st) = is_entry st" "is_entry (update_entry e g st) = is_entry st"
  "is_table (update_entry e g st) = is_table st"
  by (auto simp: fun_eq_iff is_table_def is_entry_def split: option.split)

lemma pending_of_updates [simp]: "pending_of (update_table a f st) = pending_of st" "pending_of (update_entry a g st) = pending_of st"
  by (auto simp: fun_eq_iff pending_of_def update_table_def update_entry_def split: option.splits)

lemma clean_update [simp]: "clean (update_table a f st) = clean st" "clean (update_entry a g st) = clean st"
  by (simp_all add: clean_def)

lemma never_refuses_store [simp]: "never_refuses (h\<lparr>heap_store := st\<rparr>) = never_refuses h"
  by (simp add: never_refuses_def)

lemma table_core_keyed: "table_core ent t E \<Longrightarrow> keyed ent E"
  by (auto simp: table_core_def keyed_def)

lemma table_core_holds:
  "table_core ent t E \<Longrightarrow> table_index t \<noteq> [] \<Longrightarrow> index_holds ent (table_index t) E (table_used t)"
  by (simp add: table_core_def index_ok_def index_holds_def)

lemma index_ok_holds:
  "index_holds ent (table_index t) E (table_used t) \<Longrightarrow> table_used t \<le> length (table_index t) div 4 * 3 \<Longrightarrow> table_index t \<noteq> [] \<Longrightarrow>
   index_ok ent t E"
  by (simp add: index_ok_def index_holds_def)

lemma chain_shorter:
  assumes ok: "heap_ok h E C Q" and a: "is_table (heap_store h) a"
  shows "length (E a) < length (heap_objects h)"
proof -
  have s: "store_ok (heap_store h) (heap_queue h) (heap_strings h) E C Q" using ok by (simp add: heap_ok_def)
  have "distinct (E a)" using s a unfolding store_ok_def weak_ok_def table_ok_def table_core_def by blast
  moreover have "a \<notin> set (E a)" using chain_blocks(4) [OF s a, of a] table_not_entry [OF a] by blast
  moreover have "insert a (set (E a)) \<subseteq> set (heap_objects h)"
    using chain_blocks(1) [OF s a] is_kind_dom(1) [OF a] ok unfolding heap_ok_def by blast
  then have "card (insert a (set (E a))) \<le> card (set (heap_objects h))" by (intro card_mono) simp_all
  moreover have "card (insert a (set (E a))) = Suc (length (E a))" using calculation(1,2) by (simp add: distinct_card)
  ultimately show ?thesis using card_length [of "heap_objects h"] by linarith
qed

text \<open>Another index for the same chain.\<close>

lemma weak_ok_table_update:
  assumes w: "weak_ok st E" and a: "is_table st a" and st': "st' = update_table a f st" and t: "table_ok st' a (E a)"
  shows "weak_ok st' E"
proof -
  have other: "st' b = st b" if "b \<noteq> a" for b using that st' by (simp add: other_blocks)
  have views: "entry_of st' = entry_of st" "is_table st' = is_table st" "is_entry st' = is_entry st" by (simp_all add: st')
  have ok: "table_ok st' b (E b)" if b: "is_table st b" for b
  proof (cases "b = a")
    case True
    then show ?thesis using t by simp
  next
    case False
    have "table_ok st b (E b)" using w b unfolding weak_ok_def by blast
    then show ?thesis by (rule table_ok_cong [rotated 2]) (simp_all add: views table_of_def other [OF False])
  qed
  have body: "bodies st b = Some v" if "bodies st' b = Some v" "\<And>t. v \<noteq> HEAP_EPHEMERON_TABLE t" for b v
  proof -
    have "b \<noteq> a" using that not_table_entry(1) [OF that(1)] a views(2) by auto
    then show ?thesis using that(1) other by (simp add: bodies_def)
  qed
  show ?thesis using w ok body unfolding weak_ok_def views by blast
qed

lemma entries_linked_tables:
  "entry_of st' = entry_of st \<Longrightarrow> is_table st' = is_table st \<Longrightarrow> entries_linked st' E = entries_linked st E"
  by (simp add: entries_linked_def)

definition reserved :: "'a heap_state_scheme \<Rightarrow> u64 \<Rightarrow> 'a heap_state_scheme \<Rightarrow> bool" where
  "reserved h a h' \<longleftrightarrow>
     (\<exists>t t'. table_of (heap_store h) a = Some t \<and> table_of (heap_store h') a = Some t' \<and>
        table_head t' = table_head t \<and> table_tail t' = table_tail t \<and> table_used t' < length (table_index t') div 4 * 3) \<and>
     (\<forall>b. b \<noteq> a \<longrightarrow> heap_store h' b = heap_store h b) \<and> entry_of (heap_store h') = entry_of (heap_store h) \<and>
     is_table (heap_store h') = is_table (heap_store h) \<and> is_entry (heap_store h') = is_entry (heap_store h)"

lemma ephemeron_index_reserve_correct:
  assumes ok: "heap_ok h E C Q" and n: "length (heap_objects h) \<le> n" and a: "is_table (heap_store h) a"
  shows "\<exists>r h'. ephemeron_index_reserve n a h = Some (r, h') \<and> heap_ok h' E C Q \<and> dom (heap_store h') = dom (heap_store h) \<and>
    heap_roots h' = heap_roots h \<and> heap_objects h' = heap_objects h \<and> heap_strings h' = heap_strings h \<and> heap_queue h' = heap_queue h \<and>
    host_malloc h' = host_malloc h \<and> never_refuses h' = never_refuses h \<and> collect_every_safepoint h' = collect_every_safepoint h \<and>
    (allocation_attempts h' = allocation_attempts h \<or> allocation_attempts h' = allocation_attempts h + 1) \<and>
    (case r of
       Inl e \<Rightarrow> (e = diagnostic ''Ephemeron index is too large.'' \<or>
         e = diagnostic ''Ephemeron index allocation failed.'' \<and> \<not> never_refuses h) \<and> heap_store h' = heap_store h
     | Inr v \<Rightarrow> reserved h a h')"
proof -
  note k = ok [unfolded heap_ok_def store_ok_def]
  obtain t where t: "table_of (heap_store h) a = Some t" using a by (auto simp: is_table_def)
  have tok: "table_ok (heap_store h) a (E a)" using k a unfolding weak_ok_def by blast
  then have core: "table_core (entry_of (heap_store h)) t (E a)" and tl: "back_link (table_tail t) (last_of (E a))"
    using t by (auto simp: table_ok_def)
  define h1 where "h1 = snd (allocate_bytes (the (index_capacity 3 (table_live t + 1)) * 8) h)"
  have f1: "heap_store h1 = heap_store h" "heap_objects h1 = heap_objects h" "heap_roots h1 = heap_roots h" "heap_queue h1 = heap_queue h"
    "heap_strings h1 = heap_strings h" "weak_counts h1 = weak_counts h" "never_refuses h1 = never_refuses h" "host_malloc h1 = host_malloc h"
    "allocation_attempts h1 = allocation_attempts h + 1" "collect_every_safepoint h1 = collect_every_safepoint h"
    by (simp_all add: h1_def)
  have ok1: "heap_ok h1 E C Q" using ok by (subst heap_ok_fields [of _ h]) (simp_all add: f1)
  consider (room) "length (table_index t) \<noteq> 0 \<and> table_used t + 1 \<le> length (table_index t) div 4 * 3"
    | (large) "\<not> (length (table_index t) \<noteq> 0 \<and> table_used t + 1 \<le> length (table_index t) div 4 * 3)" "index_capacity 3 (table_live t + 1) = None"
    | (refused) c where "\<not> (length (table_index t) \<noteq> 0 \<and> table_used t + 1 \<le> length (table_index t) div 4 * 3)"
        "index_capacity 3 (table_live t + 1) = Some c" "fst (allocate_bytes (c * 8) h) = 0"
    | (rebuilt) c where "\<not> (length (table_index t) \<noteq> 0 \<and> table_used t + 1 \<le> length (table_index t) div 4 * 3)"
        "index_capacity 3 (table_live t + 1) = Some c" "fst (allocate_bytes (c * 8) h) \<noteq> 0"
    by blast
  then show ?thesis
  proof cases
    case room
    then have "ephemeron_index_reserve n a h = Some (Inr (heap_value a), h)" by (simp add: ephemeron_index_reserve_def t)
    then show ?thesis using ok t room by (auto simp: reserved_def)
  next
    case large
    then have "ephemeron_index_reserve n a h = Some (Inl (diagnostic ''Ephemeron index is too large.''), h)"
      by (auto simp: ephemeron_index_reserve_def t)
    then show ?thesis using ok by auto
  next
    case refused
    then have "ephemeron_index_reserve n a h = Some (Inl (diagnostic ''Ephemeron index allocation failed.''), h1)"
      by (auto simp: ephemeron_index_reserve_def t h1_def Let_def split: prod.splits)
    moreover have "\<not> never_refuses h" using refused(3) allocate_bytes_granted(1) by blast
    ultimately show ?thesis using ok1 f1 by auto
  next
    case (rebuilt c)
    obtain m where m: "3 \<le> m" "c = 2 ^ m" "table_live t + 1 \<le> c div 2" using index_capacity_correct [OF rebuilt(2)] by blast
    have len: "length (E a) < n" using chain_shorter [OF ok a] n by simp
    have live: "table_live t = length (E a)" and fw: "forward (nexts (entry_of (heap_store h))) (table_head t) (E a)"
      using core unfolding table_core_def by blast+
    have c8: "8 \<le> c" using m(1) power_increasing [of 3 m "2::nat"] by (simp add: m(2))
    have hold: "index_holds (entry_of (heap_store h)) (replicate c 0) [] (length [])"
      using ephemeron_slots.indexed_empty [of "replicate c 0" m] m(2) c8 by (simp add: index_holds_def)
    have "0 + length (E a) < length (replicate c (0 :: oseo_value))" using m(3) live by simp
    moreover have "TOMBSTONE \<notin> set (replicate c 0)" by (simp add: TOMBSTONE_def)
    ultimately obtain index' where idx: "index_rebuild n (entry_of (heap_store h)) (table_head t) (replicate c 0) 0 = Some (index', length (E a))"
      "index_holds (entry_of (heap_store h)) index' (E a) (length (E a))" "length index' = c"
      using index_rebuild_correct [OF fw _ hold, of n] table_core_keyed [OF core] len by auto
    define st' where "st' = update_table a (\<lambda>t. t\<lparr>table_index := index', table_used := length (E a)\<rparr>) (heap_store h)"
    define h' where "h' = h1\<lparr>heap_store := st'\<rparr>"
    have run: "ephemeron_index_reserve n a h = Some (Inr (heap_value a), h')"
    proof -
      obtain block h2 where ab: "allocate_bytes (c * 8) h = (block, h2)" by (cases "allocate_bytes (c * 8) h")
      then have "h1 = h2" "heap_store h2 = heap_store h" "block \<noteq> 0" using rebuilt f1(1) by (simp_all add: h1_def)
      then show ?thesis using rebuilt(1,2) idx(1) ab unfolding ephemeron_index_reserve_def h'_def st'_def by (auto simp add: t)
    qed
    define t' where "t' = t\<lparr>table_index := index', table_used := length (E a)\<rparr>"
    have t': "table_of st' a = Some t'" using t by (simp add: st'_def t'_def)
    have quarter: "c div 2 \<le> c div 4 * 3" using c8 by linarith
    then have rm: "table_used t' < length (table_index t') div 4 * 3" using m(3) live idx(3) by (simp add: t'_def)
    have "index_ok (entry_of (heap_store h)) t' (E a)"
      using idx rm c8 by (intro index_ok_holds) (auto simp: t'_def)
    then have core': "table_core (entry_of (heap_store h)) t' (E a)" using core by (simp add: table_core_def t'_def)
    have e: "entry_of st' = entry_of (heap_store h)" by (simp add: st'_def)
    have tok': "table_ok st' a (E a)" using t' core' tl by (simp add: table_ok_def e) (simp add: t'_def)
    have "heap_ok h' E C Q"
    proof (rule heap_ok_tables [OF ok1 h'_def])
      have "weak_ok (heap_store h) E" using k by blast
      from weak_ok_table_update [where f = "\<lambda>t. t\<lparr>table_index := index', table_used := length (E a)\<rparr>", OF this a st'_def tok']
      show "weak_ok st' E" .
      show "entries_linked st' E"
        by (subst entries_linked_tables [where st = "heap_store h"]) (use k in \<open>simp_all add: st'_def\<close>)
      show "st' b = heap_store h1 b" if "\<not> is_table (heap_store h1) b" for b
        using that a f1(1) by (cases "b = a") (simp_all add: st'_def other_blocks)
      show "program_value (heap_store h1) (entry_key en) \<and> program_value (heap_store h1) (entry_value en)"
        if en: "entry_of st' x = Some en" for x en
      proof -
        have "bodies (heap_store h) x = Some (HEAP_EPHEMERON_ENTRY en)" using en e by (simp add: kind_Some)
        then show ?thesis using k f1(1) by fastforce
      qed
    qed (use k f1 in \<open>simp_all add: st'_def\<close>)
    moreover have "table_head t' = table_head t" "table_tail t' = table_tail t" by (simp_all add: t'_def)
    then have "reserved h a h'" using t t' rm e unfolding reserved_def by (auto simp: h'_def st'_def other_blocks)
    ultimately show ?thesis using run f1 by (auto simp: h'_def st'_def)
  qed
qed

lemma backward_snoc:
  "backward pv p (es @ [e]) \<longleftrightarrow>
     backward pv p es \<and> (\<exists>w. pv e = Some w \<and> back_link w (if es = [] then p else Some (last es)))"
  by (induction es arbitrary: p) auto

definition linked :: "u64 \<Rightarrow> u64 list \<Rightarrow> u64 \<Rightarrow> store \<Rightarrow> store \<Rightarrow> bool" where
  "linked a E e st st' \<longleftrightarrow>
     table_ok st' a (E @ [e]) \<and> bindings (entry_of st') = bindings (entry_of st) \<and>
     (\<forall>b. b \<noteq> a \<longrightarrow> b \<notin> set E \<longrightarrow> b \<noteq> e \<longrightarrow> st' b = st b) \<and> (\<forall>b. b \<noteq> a \<longrightarrow> table_of st' b = table_of st b) \<and>
     dom st' = dom st \<and> is_table st' = is_table st \<and> is_entry st' = is_entry st \<and> clean st' = clean st"

lemma link_entry_correct:
  assumes ok: "table_ok st a E" and t: "table_of st a = Some t" and room: "table_used t < length (table_index t) div 4 * 3"
    and e: "e \<notin> set E" "e \<noteq> 0" "e \<le> PAYLOAD_MASK" "entry_of st e = Some en" "\<not> is_heap (next_entry en)" "\<not> is_heap (previous_entry en)"
    and key: "entry_key en = key" "is_heap key" "\<And>d. d \<in> set E \<Longrightarrow> keys (entry_of st) d \<noteq> Some key"
  shows "\<exists>st'. link_entry a e key st = Some st' \<and> linked a E e st st'"
proof -
  let ?ent = "entry_of st"
  have core: "table_core ?ent t E" and tl: "back_link (table_tail t) (last_of E)" using ok t by (auto simp: table_ok_def)
  have E: "distinct E" "distinct (map (keys ?ent) E)" "\<forall>d \<in> set E. d \<noteq> 0 \<and> d \<le> PAYLOAD_MASK \<and> (\<exists>k. keys ?ent d = Some k \<and> is_heap k)"
    "forward (nexts ?ent) (table_head t) E" "backward (prevs ?ent) None E" "table_live t = length E"
    using core unfolding table_core_def by blast+
  have some: "\<exists>en. ?ent d = Some en" if "d \<in> set E" for d using core_entry [OF core that] .
  have lk: "E \<noteq> [] \<Longrightarrow> \<exists>en. ?ent (last E) = Some en" using some by simp
  have le: "E \<noteq> [] \<Longrightarrow> last E \<noteq> e" using e(1) by auto
  have tail: "table_tail t = heap_value (last E) \<and> heap_address (table_tail t) = last E" if "E \<noteq> []"
    using tl that E(3) by (simp add: back_link_def last_of_def)
  have no_tail: "\<not> is_heap (table_tail t)" if "E = []" using tl that by (simp add: back_link_def last_of_def)
  have at: "entry_at st (table_tail t) \<noteq> None \<longleftrightarrow> E \<noteq> []"
    using lk tail no_tail by (cases "E = []") (auto simp: entry_at_def)
  define s1 where "s1 = (if E \<noteq> []
      then update_entry e (\<lambda>n. n\<lparr>previous_entry := table_tail t\<rparr>)
        (update_entry (heap_address (table_tail t)) (\<lambda>p. p\<lparr>next_entry := heap_value e\<rparr>) st)
      else update_table a (\<lambda>t. t\<lparr>table_head := heap_value e\<rparr>) st)"
  have e1: "entry_of s1 = (if E = [] then ?ent
      else ?ent(last E \<mapsto> the (?ent (last E))\<lparr>next_entry := heap_value e\<rparr>, e \<mapsto> en\<lparr>previous_entry := heap_value (last E)\<rparr>))"
    using lk le tail e(4) by (auto simp: s1_def)
  have ke: "keys ?ent e = Some key" using e(4) key(1) by (simp add: keys_def)
  have "keys ?ent e \<notin> keys ?ent ` set E" using key(3) ke by force
  then have keyed: "keyed ?ent (E @ [e])" using E(2,3) e(3) ke by (auto simp: keyed_def)
  have ne: "table_index t \<noteq> []" and less: "table_used t < length (table_index t)" using room by auto
  obtain index vacant where ins: "ephemeron_index_insert (table_index t) key (heap_value e) = Some (index, vacant)"
    "index_holds ?ent index (E @ [e]) (if vacant then table_used t + 1 else table_used t)" "length index = length (table_index t)"
    using ephemeron_index_insert_correct [OF table_core_holds [OF core ne] less keyed ke] by blast
  define s2 where "s2 = update_table a (\<lambda>t. t\<lparr>table_tail := heap_value e, table_live := table_live t + 1\<rparr>) s1"
  define s3 where "s3 = update_table a (\<lambda>t. t\<lparr>table_index := index, table_used := (if vacant then table_used t + 1 else table_used t)\<rparr>) s2"
  have run: "link_entry a e key st = Some s3"
    unfolding link_entry_def t option.case Let_def at s1_def [symmetric] s2_def [symmetric] ins(1) prod.case s3_def [symmetric] ..
  define t' where "t' = t\<lparr>table_head := if E = [] then heap_value e else table_head t, table_tail := heap_value e,
    table_live := table_live t + 1, table_index := index, table_used := (if vacant then table_used t + 1 else table_used t)\<rparr>"
  have t': "table_of s3 = (table_of st)(a \<mapsto> t')"
    using t by (auto simp: s3_def s2_def s1_def t'_def)
  have e3: "entry_of s3 = entry_of s1" by (simp add: s3_def s2_def)
  have nx: "nexts (entry_of s3) = (if E = [] then nexts ?ent else (nexts ?ent)(last E \<mapsto> heap_value e))"
    unfolding e3 e1 using lk le e(4) by (auto simp: fun_eq_iff nexts_def)
  have pv: "prevs (entry_of s3) = (if E = [] then prevs ?ent else (prevs ?ent)(e \<mapsto> heap_value (last E)))"
    unfolding e3 e1 using lk le e(4) by (auto simp: fun_eq_iff prevs_def)
  have bd: "bindings (entry_of s3) = bindings ?ent"
    unfolding e3 e1 using lk le e(4) by (auto simp: fun_eq_iff bindings_def)
  have ks: "keys (entry_of s3) = keys ?ent"
    unfolding e3 e1 using lk le e(4) by (auto simp: fun_eq_iff keys_def)
  have fw: "forward (nexts (entry_of s3)) (table_head t') (E @ [e])"
  proof -
    have ne: "nexts ?ent e = Some (next_entry en)" using e(4) by (simp add: nexts_def)
    have "(nexts (entry_of s3))(e \<mapsto> next_entry en) = nexts (entry_of s3)" using ne le by (auto simp: nx)
    then show ?thesis using forward_snoc [OF E(4) e(1,5) E(1)] by (cases "E = []") (auto simp: t'_def nx)
  qed
  have bw: "backward (prevs (entry_of s3)) None (E @ [e])"
  proof (cases "E = []")
    case True
    then show ?thesis using e(4,6) by (simp add: pv prevs_def back_link_def)
  next
    case False
    have "backward (prevs (entry_of s3)) None E = backward (prevs ?ent) None E"
      using e(1) by (intro backward_cong) (auto simp: pv)
    then show ?thesis using False E(5) by (simp add: backward_snoc pv back_link_def)
  qed
  have "table_core (entry_of s3) t' (E @ [e])"
    unfolding table_core_def ks
  proof (intro conjI)
    show "forward (nexts (entry_of s3)) (table_head t') (E @ [e])" "backward (prevs (entry_of s3)) None (E @ [e])" by fact+
    show "distinct (E @ [e])" using E(1) e(1) by simp
    show "distinct (map (keys ?ent) (E @ [e]))" using keyed by (simp add: keyed_def)
    show "\<forall>d \<in> set (E @ [e]). d \<noteq> 0 \<and> d \<le> PAYLOAD_MASK \<and> (\<exists>k. keys ?ent d = Some k \<and> is_heap k)"
      using E(3) e(2,3) ke key(2) by auto
    show "table_live t' = length (E @ [e])" using E(6) by (simp add: t'_def)
    have "index_ok ?ent t' (E @ [e])"
      using ins room by (intro index_ok_holds) (auto simp: t'_def)
    moreover have "occupant (entry_of s3) = occupant ?ent" using ks by (auto simp: fun_eq_iff occupant_def keys_def)
    ultimately show "index_ok (entry_of s3) t' (E @ [e])" by (simp add: index_ok_def)
  qed
  then have "table_ok s3 a (E @ [e])" using t' by (simp add: table_ok_def t'_def back_link_def last_of_def)
  moreover have "s3 b = st b" if "b \<noteq> a" "b \<notin> set E" "b \<noteq> e" for b
  proof -
    have "E \<noteq> [] \<Longrightarrow> b \<noteq> heap_address (table_tail t)" using that tail by auto
    then show ?thesis using that by (simp add: s3_def s2_def s1_def other_blocks)
  qed
  moreover have "dom s3 = dom st" "is_table s3 = is_table st" "is_entry s3 = is_entry st" "clean s3 = clean st"
    by (simp_all add: s3_def s2_def s1_def)
  ultimately have "linked a E e st s3" using bd t' by (simp add: linked_def)
  then show ?thesis using run by blast
qed

subsection \<open>A collection keeps the reservation\<close>

text \<open>The size of a table's index and the number of its used slots.\<close>

definition room :: "store \<Rightarrow> u64 \<Rightarrow> (nat \<times> nat) option" where
  "room st a = map_option (\<lambda>t. (length (table_index t), table_used t)) (table_of st a)"

lemma room_update_table:
  "(\<And>t. length (table_index (f t)) = length (table_index t) \<and> table_used (f t) = table_used t) \<Longrightarrow> room (update_table a f st) = room st"
  by (auto simp: fun_eq_iff room_def split: option.split)

lemma room_other [simp]:
  "room (update_entry a g st) = room st" "room (unmark a st) = room st"
  "room (update_cell a c st) = room st" "room (update_registry a r st) = room st" "room (clear_trace_next a st) = room st"
proof -
  have "table_of (update_cell a c st) = table_of st" "table_of (update_registry a r st) = table_of st" "table_of (clear_trace_next a st) = table_of st"
    by (auto simp: fun_eq_iff table_of_def update_cell_def cell_of_def update_registry_def registry_of_def clear_trace_next_def
        split: option.splits heap_body.splits)
  then show "room (update_entry a g st) = room st" "room (unmark a st) = room st"
    "room (update_cell a c st) = room st" "room (update_registry a r st) = room st" "room (clear_trace_next a st) = room st"
    by (simp_all add: fun_eq_iff room_def)
qed

lemma room_unlink: "room (unlink_dead a k e entry st) = room st"
  by (simp add: unlink_dead_def Let_def room_update_table count_down_def write_link_def remove_from_index_def split: option.split)

lemma room_clear_dead_entries: "clear_dead_entries n a k st = Some st' \<Longrightarrow> room st' = room st"
proof (induction n a k st arbitrary: st' rule: clear_dead_entries.induct)
  case (2 n a k st)
  then show ?case
    by (auto simp: Let_def room_unlink room_update_table split: option.splits if_splits)
qed simp

lemma room_weak_step:
  assumes run: "clear_dead_weak_edges n (a # as) st = Some st'"
  shows "\<exists>st1. room st1 = room st \<and> clear_dead_weak_edges n as st1 = Some st'"
proof -
  obtain ob where ob: "st a = Some ob" using run by (cases "st a") auto
  have same: "room (st(a \<mapsto> ob\<lparr>body := b\<rparr>)) = room st"
    if "\<And>t. body ob \<noteq> HEAP_EPHEMERON_TABLE t" "\<And>t. b \<noteq> HEAP_EPHEMERON_TABLE t" for b
    using that ob by (auto simp: fun_eq_iff room_def table_of_def split: heap_body.splits)
  show ?thesis
  proof (cases "marked ob")
    case False
    then show ?thesis using run ob by auto
  next
    case True
    consider (reference) v where "body ob = HEAP_WEAK_REFERENCE v" | (cell) c where "body ob = HEAP_FINALIZATION_CELL c"
      | (table) t where "body ob = HEAP_EPHEMERON_TABLE t" | (other) "clear_dead_weak_edges n (a # as) st = clear_dead_weak_edges n as st"
      using ob True by (cases "body ob") simp_all
    then show ?thesis
    proof cases
      case reference
      then show ?thesis using run ob True same [of "HEAP_WEAK_REFERENCE (dead_reference st v)"] by auto
    next
      case cell
      then show ?thesis using run ob True same [of "HEAP_FINALIZATION_CELL (c\<lparr>cell_token := dead_reference st (cell_token c)\<rparr>)"] by auto
    next
      case table
      then show ?thesis using run ob True by (auto split: option.splits) (use room_clear_dead_entries in blast)
    next
      case other
      then show ?thesis using run by auto
    qed
  qed
qed

lemma room_clear_dead_weak_edges: "clear_dead_weak_edges n as st = Some st' \<Longrightarrow> room st' = room st"
proof (induction as arbitrary: st)
  case (Cons a as)
  then show ?case using room_weak_step by metis
qed simp

lemma room_enqueue: "room (fst (enqueue_cell a s)) = room (fst s)"
  by (simp add: enqueue_cell_def Let_def split: prod.split)

lemma room_schedule: "room (fst (schedule_finalization os s)) = room (fst s)"
proof -
  have "room (fst (fold enqueue_cell as s)) = room (fst s)" for as s
    by (induction as arbitrary: s) (simp_all add: room_enqueue)
  then show ?thesis by (simp add: schedule_finalization_def Let_def split: prod.split)
qed

lemma room_schedule_pair: "schedule_finalization os (st, q) = (st', q') \<Longrightarrow> room st' = room st"
  using room_schedule [of os "(st, q)"] by simp

lemma room_compact_cells: "compact_cells n a k st = Some st' \<Longrightarrow> room st' = room st"
proof (induction n a k st arbitrary: st' rule: compact_cells.induct)
  case (2 n a k st)
  then show ?case by (auto simp: Let_def split: option.splits if_splits)
qed simp

lemma room_compact: "compact_finalization_registries n as st = Some st' \<Longrightarrow> room st' = room st"
proof (induction n as st arbitrary: st' rule: compact_finalization_registries.induct)
  case (2 n a as st)
  then show ?case using room_compact_cells by (auto split: option.splits if_splits)
qed simp

lemma sweep_dom: "sweep as st counts = Some (ss, st', counts') \<Longrightarrow> dom st' \<subseteq> dom st"
proof (induction as st counts arbitrary: ss st' counts' rule: sweep.induct)
  case (2 b as st counts)
  obtain ob where ob: "st b = Some ob" using 2(3) by (cases "st b") auto
  show ?case
  proof (cases "marked ob")
    case True
    then obtain ss' where "sweep as (st(b \<mapsto> ob\<lparr>marked := False\<rparr>)) counts = Some (ss', st', counts')"
      using 2(3) ob by (auto split: option.splits)
    then show ?thesis using 2(1) [OF ob True] ob by fastforce
  next
    case False
    then have "sweep as (st(b := None)) (count_removed (body ob) counts) = Some (ss, st', counts')" using 2(3) ob by simp
    then show ?thesis using 2(2) [OF ob False] by fastforce
  qed
qed simp

lemma room_sweep: "sweep as st counts = Some (ss, st', counts') \<Longrightarrow> a \<in> dom st' \<Longrightarrow> room st' a = room st a"
proof (induction as st counts arbitrary: ss st' counts' rule: sweep.induct)
  case (2 b as st counts)
  obtain ob where ob: "st b = Some ob" using 2(3) by (cases "st b") auto
  show ?case
  proof (cases "marked ob")
    case True
    have m: "room (st(b \<mapsto> ob\<lparr>marked := False\<rparr>)) = room st" using ob by (simp add: fun_eq_iff room_def table_of_def)
    obtain ss' where "sweep as (st(b \<mapsto> ob\<lparr>marked := False\<rparr>)) counts = Some (ss', st', counts')"
      using 2(3) ob True by (auto split: option.splits)
    then show ?thesis using 2(1) [OF ob True] 2(4) m by metis
  next
    case False
    then have sw: "sweep as (st(b := None)) (count_removed (body ob) counts) = Some (ss, st', counts')" using 2(3) ob by simp
    then have "dom st' \<subseteq> dom (st(b := None))" by (rule sweep_dom)
    then have "a \<noteq> b" using 2(4) by auto
    then have "room (st(b := None)) a = room st a" by (simp add: room_def table_of_def)
    then show ?thesis by (rule trans [OF 2(2) [OF ob False sw 2(4)]])
  qed
qed simp

lemma collect_keeps_room:
  assumes ok: "heap_ok h E C Q" and n: "length (heap_objects h) \<le> n" and run: "oseo_collect n h = Some h'"
    and a: "a \<in> dom (heap_store h')"
  shows "room (heap_store h') a = room (heap_store h) a"
proof -
  note k = ok [unfolded heap_ok_def]
  have sound: "sound_heap (bodies (heap_store h)) (refs (root_values h))" by (rule heap_sound [OF ok])
  have "card (dom (heap_store h)) \<le> n" using k n card_length [of "heap_objects h"] by simp
  then obtain s where s: "trace_ephemeron_fixed_point n n (mark_values (root_values h) \<lparr>store = heap_store h, worklist = 0\<rparr>) = Some s"
    "bodies (store s) = bodies (heap_store h)"
    using mark_phase [OF _ sound, of n] k by blast
  have r0: "room (store s) = room (heap_store h)" using same_bodies(1) [OF s(2)] by (simp add: fun_eq_iff room_def)
  define g where "g = (if observe_specialization h then h\<lparr>collections := collections h + 1\<rparr> else h)"
  have g: "root_values g = root_values h" "heap_objects g = heap_objects h" "heap_store g = heap_store h" "heap_queue g = heap_queue h"
    "heap_strings g = heap_strings h" "weak_counts g = weak_counts h"
    by (simp_all add: g_def root_values_def)
  have "a \<in> dom (heap_store h') \<longrightarrow> room (heap_store h') a = room (store s) a"
    using run unfolding oseo_collect_def g_def [symmetric]
    by (auto simp: Let_def g s(1) split: option.splits prod.splits if_splits
        dest!: room_clear_dead_weak_edges room_compact room_sweep [where a = a] room_schedule_pair)
  then show ?thesis using a r0 by simp
qed

lemma room_table: "is_table st a \<longleftrightarrow> room st a \<noteq> None"
  by (simp add: room_def is_table_def)

subsection \<open>The map of a table\<close>

lemma ephemeron_get_iff:
  assumes ok: "table_ok st a E" and a: "a \<le> PAYLOAD_MASK"
  shows "ephemeron_get (heap_value a) k st = Some x \<longleftrightarrow> (\<exists>e \<in> set E. bindings (entry_of st) e = Some (k, x))"
proof -
  obtain t where core: "table_core (entry_of st) t E" using ok by (auto simp: table_ok_def)
  have d: "distinct (map (keys (entry_of st)) E)" and some: "\<And>e. e \<in> set E \<Longrightarrow> \<exists>en. entry_of st e = Some en"
    using core core_entry [OF core] unfolding table_core_def by blast+
  have "map (keys (entry_of st)) E = map (Some \<circ> fst) (content st E)"
    using some by (force simp: content_def bindings_def keys_def)
  then have "distinct (map fst (content st E))" using d by (simp add: distinct_map inj_on_def)
  then have "map_of (content st E) k = Some x \<longleftrightarrow> (k, x) \<in> set (content st E)" by (rule map_of_eq_Some_iff)
  also have "\<dots> \<longleftrightarrow> (\<exists>e \<in> set E. bindings (entry_of st) e = Some (k, x))"
    using some by (force simp: content_def bindings_def)
  finally show ?thesis by (simp add: ephemeron_get_content(1) [OF ok a])
qed

lemma option_eqI: "(\<And>x. a = Some x \<longleftrightarrow> b = Some x) \<Longrightarrow> a = b"
  by (cases a; cases b) auto

lemma ephemeron_get_eq:
  assumes "table_ok st a E" "table_ok st' a E'" "a \<le> PAYLOAD_MASK"
    and "\<And>k x. (\<exists>e \<in> set E'. bindings (entry_of st') e = Some (k, x)) \<longleftrightarrow> (if P k then f k = Some x else \<exists>e \<in> set E. bindings (entry_of st) e = Some (k, x))"
  shows "ephemeron_get (heap_value a) k st' = (if P k then f k else ephemeron_get (heap_value a) k st)"
proof -
  have "ephemeron_get (heap_value a) k st' = Some x \<longleftrightarrow> (if P k then f k else ephemeron_get (heap_value a) k st) = Some x" for x
    using assms(4) by (simp add: ephemeron_get_iff [OF assms(1,3)] ephemeron_get_iff [OF assms(2,3)])
  then show ?thesis by (rule option_eqI)
qed

text \<open>A table depends on the links and the keys of its entries, not on their values.\<close>

lemma table_core_fields:
  assumes "nexts ent' = nexts ent" "prevs ent' = prevs ent" "keys ent' = keys ent"
  shows "table_core ent' t E = table_core ent t E"
proof -
  have "occupant ent' = occupant ent" using assms(3) by (simp add: fun_eq_iff occupant_def keys_def)
  then show ?thesis by (simp add: table_core_def index_ok_def assms)
qed

lemma heap_table:
  assumes ok: "heap_ok h E C Q" and a: "is_table (heap_store h) a"
  shows "table_ok (heap_store h) a (E a)" "a \<le> PAYLOAD_MASK" "program_value (heap_store h) (heap_value a)"
proof -
  note k = ok [unfolded heap_ok_def store_ok_def weak_ok_def]
  show "table_ok (heap_store h) a (E a)" using k a by blast
  have d: "a \<in> dom (heap_store h)" by (rule is_kind_dom(1) [OF a])
  then show m: "a \<le> PAYLOAD_MASK" using k by blast
  show "program_value (heap_store h) (heap_value a)"
    using d m table_not_entry [OF a] not_entry_cell [of "heap_store h" a] a by (simp add: program_value_def internal_def)
qed

lemma heap_entry:
  assumes ok: "heap_ok h E C Q" and e: "entry_of (heap_store h) e = Some en"
  shows "program_value (heap_store h) (entry_key en)" "program_value (heap_store h) (entry_value en)"
proof -
  have "bodies (heap_store h) e = Some (HEAP_EPHEMERON_ENTRY en)" using e by (simp add: kind_Some)
  then have "\<forall>v \<in> set (held (HEAP_EPHEMERON_ENTRY en)). program_value (heap_store h) v"
    using ok unfolding heap_ok_def store_ok_def by blast
  then show "program_value (heap_store h) (entry_key en)" "program_value (heap_store h) (entry_value en)" by simp_all
qed

text \<open>Overwriting the value of an entry.\<close>

lemma update_value_correct:
  assumes ok: "heap_ok h E C Q" and a: "is_table (heap_store h) a" and e: "e \<in> set (E a)" "keys (entry_of (heap_store h)) e = Some key"
    and v: "program_value (heap_store h) v"
    and h': "h' = h\<lparr>heap_store := update_entry e (\<lambda>e. e\<lparr>entry_value := v\<rparr>) (heap_store h)\<rparr>"
  shows "heap_ok h' E C Q"
    and "ephemeron_get (heap_value a) k (heap_store h') = (if k = key then Some v else ephemeron_get (heap_value a) k (heap_store h))"
proof -
  define st' where "st' = update_entry e (\<lambda>e. e\<lparr>entry_value := v\<rparr>) (heap_store h)"
  let ?ent = "entry_of (heap_store h)"
  note k = ok [unfolded heap_ok_def store_ok_def]
  have w: "weak_ok (heap_store h) E" using k by blast
  obtain en where en: "?ent e = Some en" "entry_key en = key" using e(2) by (auto simp: keys_def)
  have ent: "entry_of st' = ?ent(e \<mapsto> en\<lparr>entry_value := v\<rparr>)" using en by (simp add: st'_def)
  have f: "nexts (entry_of st') = nexts ?ent" "prevs (entry_of st') = prevs ?ent" "keys (entry_of st') = keys ?ent"
    using en by (auto simp: ent fun_eq_iff nexts_def prevs_def keys_def)
  have tb: "table_of st' = table_of (heap_store h)" "is_table st' = is_table (heap_store h)" "is_entry st' = is_entry (heap_store h)"
    by (simp_all add: st'_def)
  have tok: "table_ok st' b B = table_ok (heap_store h) b B" for b B
    by (simp add: table_ok_def tb(1) table_core_fields [OF f])
  have other: "st' b = heap_store h b" if "\<not> is_entry (heap_store h) b" for b
    using that en by (cases "b = e") (auto simp: st'_def other_blocks is_entry_def)
  have body: "bodies (heap_store h) b = Some x" if "bodies st' b = Some x" "\<And>t. x \<noteq> HEAP_EPHEMERON_ENTRY t" for b x
    using that not_table_entry(2) [OF that(1)] tb(3) other by (simp add: bodies_def)
  have h'': "h' = h\<lparr>heap_store := st'\<rparr>" by (simp add: h' st'_def)
  show "heap_ok h' E C Q"
  proof (rule heap_ok_tables [OF ok h''])
    show "weak_ok st' E" using w body unfolding weak_ok_def tb(2,3) tok f(3) by blast
    have "\<not> is_heap (next_entry x)" if x: "entry_of st' d = Some x" "\<forall>t. is_table st' t \<longrightarrow> d \<notin> set (E t)" for d x
    proof -
      have "nexts ?ent d = Some (next_entry x)" using x(1) f(1) by (metis nexts_def option.simps(9))
      then obtain y where "?ent d = Some y" "next_entry y = next_entry x" by (auto simp: nexts_def)
      then show ?thesis using k x(2) unfolding entries_linked_def tb(2) by metis
    qed
    then show "entries_linked st' E" unfolding entries_linked_def by blast
    show "program_value (heap_store h) (entry_key x) \<and> program_value (heap_store h) (entry_value x)" if x: "entry_of st' d = Some x" for d x
      using x heap_entry [OF ok, of d x] heap_entry(1) [OF ok en(1)] v by (cases "d = e") (auto simp: ent)
  qed (use other k in \<open>simp_all add: st'_def\<close>)
  note ta = heap_table(1,2) [OF ok a]
  have "distinct (map (keys ?ent) (E a))" using ta(1) unfolding table_ok_def table_core_def by blast
  then have only: "d = e" if "d \<in> set (E a)" "keys ?ent d = Some key" for d
    using that e unfolding distinct_map inj_on_def by metis
  show "ephemeron_get (heap_value a) k (heap_store h') = (if k = key then Some v else ephemeron_get (heap_value a) k (heap_store h))"
  proof (rule ephemeron_get_eq [OF ta(1) _ ta(2), where E' = "E a"])
    show "table_ok (heap_store h') a (E a)" using ta(1) tok by (simp add: h'')
    fix k x
    show "(\<exists>d \<in> set (E a). bindings (entry_of (heap_store h')) d = Some (k, x)) \<longleftrightarrow>
        (if k = key then Some v = Some x else \<exists>d \<in> set (E a). bindings ?ent d = Some (k, x))"
    proof (cases "k = key")
      case True
      have "d = e" if "d \<in> set (E a)" "bindings (entry_of st') d = Some (key, x)" for d
        using only [OF that(1)] that(2) en by (cases "d = e") (auto simp: ent bindings_def keys_def)
      moreover have b: "bindings (entry_of st') e = Some (key, v)" using en by (simp add: ent bindings_def)
      ultimately have "(\<exists>d \<in> set (E a). bindings (entry_of st') d = Some (key, x)) \<longleftrightarrow> v = x" using e(1) by (metis option.inject prod.inject)
      then show ?thesis using True by (simp add: h'')
    next
      case False
      have "bindings (entry_of st') d = Some (k, x) \<longleftrightarrow> bindings ?ent d = Some (k, x)" for d
        using False en by (cases "d = e") (auto simp: ent bindings_def)
      then show ?thesis using False by (simp add: h'')
    qed
  qed
qed

text \<open>Linking a fresh entry.\<close>

lemma linked_heap_ok:
  assumes ok: "heap_ok h E C Q" and a: "is_table (heap_store h) a" and l: "linked a (E a) e (heap_store h) st'"
    and e: "is_entry (heap_store h) e" "\<And>b. is_table (heap_store h) b \<Longrightarrow> e \<notin> set (E b)"
  shows "heap_ok (h\<lparr>heap_store := st'\<rparr>) (E(a := E a @ [e])) C Q"
proof (rule heap_ok_tables [OF ok refl])
  let ?st = "heap_store h" and ?E = "E(a := E a @ [e])"
  note k = ok [unfolded heap_ok_def store_ok_def]
  have w: "weak_ok ?st E" using k by blast
  have tok: "table_ok st' a (E a @ [e])" and bd: "bindings (entry_of st') = bindings (entry_of ?st)"
    and other: "\<And>b. b \<noteq> a \<Longrightarrow> b \<notin> set (E a) \<Longrightarrow> b \<noteq> e \<Longrightarrow> st' b = ?st b" and tabs: "\<And>b. b \<noteq> a \<Longrightarrow> table_of st' b = table_of ?st b"
    and f: "dom st' = dom ?st" "is_table st' = is_table ?st" "is_entry st' = is_entry ?st" "clean st' = clean ?st"
    using l unfolding linked_def by blast+
  have ks: "keys (entry_of st') = keys (entry_of ?st)"
  proof
    fix d show "keys (entry_of st') d = keys (entry_of ?st) d"
      using fun_cong [OF bd, of d] by (cases "entry_of st' d"; cases "entry_of ?st d") (simp_all add: bindings_def keys_def)
  qed
  have s: "store_ok ?st (heap_queue h) (heap_strings h) E C Q" using ok by (simp add: heap_ok_def)
  show oth: "st' b = ?st b" if b: "\<not> is_table ?st b" "\<not> is_entry ?st b" for b
  proof (rule other)
    show "b \<noteq> a" "b \<noteq> e" using b a e(1) by auto
    show "b \<notin> set (E a)" using b(2) chain_blocks(4) [OF s a] by blast
  qed
  have body: "bodies ?st b = Some v" if v: "bodies st' b = Some v" "\<And>t. v \<noteq> HEAP_EPHEMERON_TABLE t" "\<And>t. v \<noteq> HEAP_EPHEMERON_ENTRY t" for b v
  proof -
    have "\<not> is_table ?st b" "\<not> is_entry ?st b" using v not_table_entry [OF v(1)] f(2,3) by simp_all
    then show ?thesis using v(1) oth by (simp add: bodies_def)
  qed
  show "weak_ok st' ?E" unfolding weak_ok_def f(2,3)
  proof (intro conjI allI impI)
    fix b assume b: "is_table ?st b"
    show "table_ok st' b (?E b)"
    proof (cases "b = a")
      case True
      then show ?thesis using tok by simp
    next
      case False
      have "set (E b) \<inter> set (E a) = {}" using w a b False unfolding weak_ok_def by blast
      have "table_ok st' b (E b)"
      proof (rule table_ok_cong)
        show "table_of st' b = table_of ?st b" by (rule tabs [OF False])
        show "table_ok ?st b (E b)" using w b unfolding weak_ok_def by blast
        fix d assume d: "d \<in> set (E b)"
        have "is_entry ?st d" by (rule chain_blocks(4) [OF s b d])
        then have "d \<noteq> a" using table_not_entry [OF a] by blast
        moreover have "d \<notin> set (E a)" "d \<noteq> e" using d \<open>set (E b) \<inter> set (E a) = {}\<close> e(2) [OF b] by auto
        ultimately have "st' d = ?st d" by (rule other)
        then show "entry_of st' d = entry_of ?st d" by (simp add: entry_of_def)
      qed
      then show ?thesis using False by simp
    qed
  next
    fix b c assume bc: "is_table ?st b" "is_table ?st c" "b \<noteq> c"
    then have "set (E b) \<inter> set (E c) = {}" using w unfolding weak_ok_def by blast
    then show "set (?E b) \<inter> set (?E c) = {}" using e(2) [OF bc(1)] e(2) [OF bc(2)] bc(3) by auto
  next
    fix b d v assume b: "is_table ?st b" "d \<in> set (?E b)" "keys (entry_of st') d = Some v"
    show "\<not> is_entry ?st (heap_address v)"
    proof (cases "d \<in> set (E b)")
      case True
      then show ?thesis using w b(1,3) ks unfolding weak_ok_def by metis
    next
      case False
      then have "d = e" "d \<in> set (E a @ [e])" using b(2) by (auto split: if_splits)
      then have h: "is_heap v" using tok b(3) unfolding table_ok_def table_core_def by (metis option.inject)
      obtain en where "entry_of ?st d = Some en" "entry_key en = v" using b(3) ks by (auto simp: keys_def)
      then show ?thesis using heap_entry(1) [OF ok] h by (auto simp: program_value_def internal_def)
    qed
  next
    fix b v assume "bodies st' b = Some (HEAP_WEAK_REFERENCE v)" "is_heap v"
    then show "\<not> is_entry ?st (heap_address v)" using body w unfolding weak_ok_def by blast
  next
    fix b c assume "bodies st' b = Some (HEAP_FINALIZATION_CELL c)" "is_heap (cell_token c)"
    then show "\<not> is_entry ?st (heap_address (cell_token c))" using body w unfolding weak_ok_def by blast
  qed
  show "entries_linked st' ?E" unfolding entries_linked_def f(2)
  proof (intro allI impI)
    fix d x assume x: "entry_of st' d = Some x" and no: "\<forall>t. is_table ?st t \<longrightarrow> d \<notin> set (?E t)"
    have "d \<notin> set (E a @ [e])" using no a by (metis fun_upd_same)
    moreover have "is_entry ?st d" using x f(3) by (metis is_entry_def option.distinct(1))
    then have "d \<noteq> a" using table_not_entry [OF a] by blast
    ultimately have "st' d = ?st d" using other by simp
    then have "entry_of ?st d = Some x" using x by (simp add: entry_of_def)
    moreover have "d \<notin> set (E t)" if "is_table ?st t" for t using no that by (cases "t = a") auto
    ultimately show "\<not> is_heap (next_entry x)" using k unfolding entries_linked_def by blast
  qed
  show "program_value ?st (entry_key x) \<and> program_value ?st (entry_value x)" if x: "entry_of st' d = Some x" for d x
  proof -
    obtain y where "entry_of ?st d = Some y" "entry_key y = entry_key x" "entry_value y = entry_value x"
      using fun_cong [OF bd, of d] x by (cases "entry_of ?st d") (simp_all add: bindings_def)
    then show ?thesis using heap_entry [OF ok] by metis
  qed
  show "dom st' = dom ?st" "is_table st' = is_table ?st" "is_entry st' = is_entry ?st" by fact+
  show "clean st'" using f(4) k by blast
qed

lemma linked_get:
  assumes ok: "table_ok st a E" and l: "linked a E e st st'" and e: "bindings (entry_of st) e = Some (key, v)"
    and a: "a \<le> PAYLOAD_MASK" and new: "ephemeron_get (heap_value a) key st = None"
  shows "ephemeron_get (heap_value a) k st' = (if k = key then Some v else ephemeron_get (heap_value a) k st)"
proof (rule ephemeron_get_eq [OF ok _ a, where E' = "E @ [e]"])
  have l': "table_ok st' a (E @ [e])" "bindings (entry_of st') = bindings (entry_of st)" using l unfolding linked_def by blast+
  then show "table_ok st' a (E @ [e])" by blast
  fix k x
  have "bindings (entry_of st) d \<noteq> Some (key, y)" if "d \<in> set E" for d y
    using new ephemeron_get_iff [OF ok a, of key y] that by auto
  then show "(\<exists>d \<in> set (E @ [e]). bindings (entry_of st') d = Some (k, x)) \<longleftrightarrow>
      (if k = key then Some v = Some x else \<exists>d \<in> set E. bindings (entry_of st) d = Some (k, x))"
    using e unfolding l'(2) by auto
qed

subsection \<open>Setting a key\<close>

lemma reachable_mono:
  assumes "\<And>b x. bs b = Some x \<Longrightarrow> \<exists>y. bs' b = Some y \<and> refs (edges x) \<subseteq> refs (edges y) \<and> (\<forall>e. x = HEAP_EPHEMERON_ENTRY e \<longrightarrow> y = x)"
    and "reachable bs R a"
  shows "reachable bs' R a"
  using assms(2)
proof induction
  case (root a)
  then show ?case by (rule reachable.root)
next
  case (edge a b c)
  then show ?case using assms(1) [OF edge(2)] by (auto intro: reachable.edge)
next
  case (ephemeron a entry c)
  then have "bs' a = Some (HEAP_EPHEMERON_ENTRY entry)" using assms(1) [OF ephemeron(2)] by auto
  with ephemeron show ?case by (blast intro: reachable.ephemeron)
qed

lemma reserved_live:
  assumes r: "reserved h a h'" "heap_roots h' = heap_roots h" "heap_queue h' = heap_queue h" and l: "live h b"
  shows "live h' b"
proof -
  have "root_values h' = root_values h" by (simp add: root_values_def r(2,3))
  moreover have "reachable (bodies (heap_store h')) (refs (root_values h)) b"
  proof (rule reachable_mono [OF _ l [unfolded live_def]])
    fix c x assume x: "bodies (heap_store h) c = Some x"
    show "\<exists>y. bodies (heap_store h') c = Some y \<and> refs (edges x) \<subseteq> refs (edges y) \<and> (\<forall>e. x = HEAP_EPHEMERON_ENTRY e \<longrightarrow> y = x)"
    proof (cases "c = a")
      case True
      obtain t t' where t: "table_of (heap_store h) a = Some t" "table_of (heap_store h') a = Some t'"
        "table_head t' = table_head t" "table_tail t' = table_tail t"
        using r(1) unfolding reserved_def by blast
      then have "x = HEAP_EPHEMERON_TABLE t" "bodies (heap_store h') c = Some (HEAP_EPHEMERON_TABLE t')"
        using x True by (simp_all add: kind_Some)
      then show ?thesis using t by simp
    next
      case False
      then have "heap_store h' c = heap_store h c" using r(1) unfolding reserved_def by blast
      then have "bodies (heap_store h') c = Some x" using x by (simp add: bodies_def)
      then show ?thesis by blast
    qed
  qed
  ultimately show ?thesis by (simp add: live_def)
qed

text \<open>What the safepoint of an allocation leaves of a rooted table.\<close>

lemma safepoint_table:
  assumes ok: "heap_ok h E C Q" and sp: "allocate_heap_bytes n bytes h = Some (address, h1)" and n: "length (heap_objects h) \<le> n"
    and a: "is_table (heap_store h) a" "heap_value a \<in> set (early_roots (heap_roots h))"
  shows "room (heap_store h1) a = room (heap_store h) a"
    and "safepoint h Q h1 Q' \<Longrightarrow> ephemeron_get (heap_value a) k (heap_store h1) =
      (if collect_every_safepoint h \<and> \<not> live_value h k then None else ephemeron_get (heap_value a) k (heap_store h))"
proof -
  note m = heap_table(2,3) [OF ok a(1)]
  have "a \<in> refs (root_values h)" using a(2) m(1) by (auto simp: refs_mem root_values_def intro!: bexI [of _ "heap_value a"])
  then have lv: "live h a" unfolding live_def by (rule reachable.root)
  show "room (heap_store h1) a = room (heap_store h) a"
  proof (cases "collect_every_safepoint h")
    case False
    then show ?thesis using sp allocate_bytes_fields(1) [of bytes h] by (auto simp: allocate_heap_bytes_def)
  next
    case True
    then obtain h2 where h2: "oseo_collect n h = Some h2" "h1 = snd (allocate_bytes bytes h2)"
      using sp by (auto simp: allocate_heap_bytes_def)
    obtain h3 Q3 where h3: "oseo_collect n h = Some h3" "collected h Q h3 Q3"
      using oseo_collect_effect [OF ok n] by blast
    have "\<not> internal (heap_store h) a" using m by (simp add: program_value_def)
    then have "a \<in> dom (heap_store h2)" using h3 h2(1) lv unfolding collected_def by auto
    then show ?thesis using collect_keeps_room [OF ok n h2(1)] h2(2) by simp
  qed
  show "ephemeron_get (heap_value a) k (heap_store h1) =
      (if collect_every_safepoint h \<and> \<not> live_value h k then None else ephemeron_get (heap_value a) k (heap_store h))"
    if "safepoint h Q h1 Q'"
  proof (cases "collect_every_safepoint h")
    case True
    then have "collected h Q h1 Q'" using that by (simp add: safepoint_def)
    then have "\<forall>a k. live h a \<longrightarrow> is_table (heap_store h) a \<longrightarrow> ephemeron_get (heap_value a) k (heap_store h1) =
        (if live_value h k then ephemeron_get (heap_value a) k (heap_store h) else None)"
      unfolding collected_def by (elim conjE)
    then show ?thesis using lv a(1) True by simp
  next
    case False
    then show ?thesis using that by (simp add: safepoint_def)
  qed
qed


text \<open>The reasons for a refusal; all but the last two need a host that refuses memory or limits of
  the address space.\<close>

definition set_refused :: "'a heap_state_scheme \<Rightarrow> rt_error \<Rightarrow> bool" where
  "set_refused h e \<longleftrightarrow>
     e = diagnostic ''Ephemeron index is too large.'' \<or> e = too_many_records \<or>
     (e = diagnostic ''Ephemeron index allocation failed.'' \<or> e = diagnostic ''Ephemeron entry allocation failed.'' \<or> e = unrepresentable)
       \<and> \<not> never_refuses h"

lemma never_refuses_push [simp]: "never_refuses (push_frame vs h) = never_refuses h"
  by (simp add: never_refuses_def push_frame_def)

lemma pop_push_roots: "heap_roots h' = heap_roots (push_frame vs h) \<Longrightarrow> heap_roots (pop_frame h') = heap_roots h"
  by (simp add: push_frame_def pop_frame_def)

lemma bindings_get: "table_ok st a E \<Longrightarrow> a \<le> PAYLOAD_MASK \<Longrightarrow> ephemeron_get (heap_value a) k st = None \<Longrightarrow> e \<in> set E \<Longrightarrow>
  keys (entry_of st) e \<noteq> Some k"
  using ephemeron_get_iff [of st a E k] by (auto simp: keys_def bindings_def)

lemma ephemeron_set_new:
  assumes ok: "heap_ok h E C Q" and n: "length (heap_objects h) \<le> n" and a: "is_table (heap_store h) a" and key: "is_heap key"
    and vals: "program_value (heap_store h) key" "program_value (heap_store h) v"
    and free: "host_malloc h (allocation_attempts h + 1) 64 \<notin> dom (heap_store h)" "host_malloc h (allocation_attempts h + 2) 64 \<notin> dom (heap_store h)"
    and miss: "ephemeron_get (heap_value a) key (heap_store h) = None"
  shows "\<exists>r h' E' C' Q'. ephemeron_set n (heap_value a) key v h = Some (r, h') \<and> heap_ok h' E' C' Q' \<and> heap_roots h' = heap_roots h \<and>
    (\<forall>e. r = Inl e \<longrightarrow> set_refused h e) \<and>
    (\<exists>L. (\<forall>k \<in> L. collect_every_safepoint h \<and> \<not> live_value (push_frame [heap_value a, key, v] h) k) \<and>
      (\<forall>k. ephemeron_get (heap_value a) k (heap_store h') =
        (if k = key \<and> r = Inr (heap_value a) then Some v
         else if k \<in> L then None else ephemeron_get (heap_value a) k (heap_store h)))) \<and>
    (\<forall>w. r = Inr w \<longrightarrow> w = heap_value a)"
proof -
  define frame where "frame = [heap_value a, key, v]"
  define h0 where "h0 = push_frame frame h"
  define b where "b = HEAP_EPHEMERON_ENTRY \<lparr>next_entry = oseo_undefined, previous_entry = oseo_undefined, entry_key = key, entry_value = v\<rparr>"
  note ta = heap_table [OF ok a]
  have s0: "heap_store h0 = heap_store h" by (simp add: h0_def)
  have ok0: "heap_ok h0 E C Q" unfolding h0_def by (rule push_frame_ok [OF ok]) (use ta vals in \<open>simp add: frame_def\<close>)
  have n0: "length (heap_objects h0) \<le> n" using n by (simp add: h0_def)
  obtain t where t: "table_of (heap_store h) a = Some t" and core: "table_core (entry_of (heap_store h)) t (E a)"
    using ta(1) by (auto simp: table_ok_def)
  have find: "ephemeron_index_find (entry_of (heap_store h)) t key = None"
    using index_find_Some [OF core] bindings_get [OF ta(1,2) miss] by (metis not_None_eq)
  have f0: "heap_store h0 = heap_store h" "host_malloc h0 = host_malloc h" "never_refuses h0 = never_refuses h"
    "collect_every_safepoint h0 = collect_every_safepoint h" "allocation_attempts h0 = allocation_attempts h"
    by (simp_all add: h0_def)
  define rs where "rs = ephemeron_index_reserve n a h0"
  have unfold: "ephemeron_set n (heap_value a) key v h =
      (case rs of None \<Rightarrow> None
       | Some (Inl err, h) \<Rightarrow> Some (Inl err, pop_frame h)
       | Some (Inr _, h) \<Rightarrow>
           (case allocate_object n 64 ''Ephemeron entry allocation failed.'' b h of
              None \<Rightarrow> None
            | Some (Inl err, h) \<Rightarrow> Some (Inl err, pop_frame h)
            | Some (Inr published, h) \<Rightarrow>
                map_option (\<lambda>st. (Inr (heap_value a), pop_frame (h\<lparr>heap_store := st\<rparr>)))
                  (link_entry a (heap_address published) key (heap_store h))))"
    using t find key ta(2) unfolding ephemeron_set_def rs_def h0_def frame_def b_def by (simp add: table_at_def Let_def)
  obtain r1 h1 where r1: "rs = Some (r1, h1)" and ok1: "heap_ok h1 E C Q" and d1: "dom (heap_store h1) = dom (heap_store h)"
    and f1: "heap_queue h1 = heap_queue h0" "heap_roots h1 = heap_roots h0" "heap_objects h1 = heap_objects h0" "host_malloc h1 = host_malloc h" "never_refuses h1 = never_refuses h"
      "collect_every_safepoint h1 = collect_every_safepoint h"
    and at1: "allocation_attempts h1 = allocation_attempts h \<or> allocation_attempts h1 = allocation_attempts h + 1"
    and c1: "case r1 of Inl e \<Rightarrow> (e = diagnostic ''Ephemeron index is too large.'' \<or>
         e = diagnostic ''Ephemeron index allocation failed.'' \<and> \<not> never_refuses h) \<and> heap_store h1 = heap_store h
     | Inr v \<Rightarrow> reserved h0 a h1"
    using ephemeron_index_reserve_correct [OF ok0 n0, of a, unfolded f0, OF a] unfolding rs_def by blast
  show ?thesis
  proof (cases r1)
    case (Inl e)
    have "ephemeron_set n (heap_value a) key v h = Some (Inl e, pop_frame h1)" by (simp add: unfold r1 Inl)
    moreover have "heap_ok (pop_frame h1) E C Q" by (rule pop_frame_ok [OF ok1])
    moreover have "heap_roots (pop_frame h1) = heap_roots h" by (rule pop_push_roots) (simp add: f1(2) h0_def)
    moreover have "set_refused h e" "heap_store (pop_frame h1) = heap_store h" using c1 Inl by (auto simp: set_refused_def)
    ultimately show ?thesis by (intro exI [of _ "Inl e"] exI [of _ "pop_frame h1"] exI [of _ E] exI [of _ C] exI [of _ Q]) auto
  next
    case (Inr u)
    then have rsv: "reserved h0 a h1" using c1 by simp
    have a1: "is_table (heap_store h1) a" using rsv a s0 unfolding reserved_def by metis
    have roots1: "set frame \<subseteq> set (early_roots (heap_roots h1))" by (simp add: f1(2) h0_def frame_roots(1))
    have "host_malloc h1 (allocation_attempts h1 + 1) 64 \<notin> dom (heap_store h1)"
      using at1 free d1 f1(4) by (auto simp: add.assoc)
    then obtain r h2 h3 E1 C1 Q1 where al: "allocate_object n 64 ''Ephemeron entry allocation failed.'' b h1 = Some (r, h3)"
      and ald: "allocated h1 E C Q ''Ephemeron entry allocation failed.'' b r h2 h3 E1 C1 Q1"
      using allocate_object_effect [OF ok1 _ _ _, of n 64 b] n0 f1(3) roots1
      by (force simp: b_def frame_def fresh_body_def)
    have a2: "room (heap_store h2) a = room (heap_store h1) a" and
      g2: "ephemeron_get (heap_value a) k (heap_store h2) =
        (if collect_every_safepoint h1 \<and> \<not> live_value h1 k then None else ephemeron_get (heap_value a) k (heap_store h1))" for k
    proof -
      have va: "heap_value a \<in> set (early_roots (heap_roots h1))" using roots1 by (simp add: frame_def)
      obtain n' bytes' address where "length (heap_objects h1) \<le> n'" "allocate_heap_bytes n' bytes' h1 = Some (address, h2)"
        and sp: "safepoint h1 Q h2 Q1"
        using ald unfolding allocated_def by blast
      note t2 = safepoint_table [OF ok1 this(2,1) a1 va]
      show "room (heap_store h2) a = room (heap_store h1) a" by (rule t2(1))
      show "ephemeron_get (heap_value a) k (heap_store h2) =
        (if collect_every_safepoint h1 \<and> \<not> live_value h1 k then None else ephemeron_get (heap_value a) k (heap_store h1))" for k
        by (rule t2(2) [OF sp])
    qed
    define L where "L = {k. collect_every_safepoint h \<and> \<not> live_value h1 k}"
    have dead: "\<not> live_value h0 k" if "k \<in> L" for k
    proof -
      show ?thesis using reserved_live [OF rsv f1(2,1)] that by (auto simp: L_def live_value_def)
    qed
    have g1: "ephemeron_get (heap_value a) k (heap_store h1) = ephemeron_get (heap_value a) k (heap_store h)" for k
    proof (rule option_eqI)
      fix x
      have "entry_of (heap_store h1) = entry_of (heap_store h)" using rsv s0 unfolding reserved_def by metis
      then show "ephemeron_get (heap_value a) k (heap_store h1) = Some x \<longleftrightarrow> ephemeron_get (heap_value a) k (heap_store h) = Some x"
        by (simp only: ephemeron_get_iff [OF ta(1,2)] ephemeron_get_iff [OF heap_table(1) [OF ok1 a1] ta(2)])
    qed
    have g2': "ephemeron_get (heap_value a) k (heap_store h2) = (if k \<in> L then None else ephemeron_get (heap_value a) k (heap_store h))" for k
      unfolding g2 g1 by (simp add: L_def f1(6))
    have L: "\<forall>k \<in> L. collect_every_safepoint h \<and> \<not> live_value (push_frame [heap_value a, key, v] h) k"
      using dead by (auto simp: h0_def frame_def L_def)
    have ok2: "heap_ok h2 E1 C1 Q1" and r3: "heap_roots h3 = heap_roots h1" using ald by (simp_all add: allocated_def)
    show ?thesis
    proof (cases r)
      case (Inl e)
      have "ephemeron_set n (heap_value a) key v h = Some (Inl e, pop_frame h3)" by (simp add: unfold r1 Inr al Inl)
      moreover have "heap_ok (pop_frame h3) E1 C1 Q1" using ald Inl by (intro pop_frame_ok) (simp add: allocated_def)
      moreover have "heap_roots (pop_frame h3) = heap_roots h" by (rule pop_push_roots) (simp add: r3 f1(2) h0_def)
      moreover have "heap_store (pop_frame h3) = heap_store h2" using ald Inl by (simp add: allocated_def)
      moreover have "set_refused h e" using ald Inl f1(5) by (auto simp: allocated_def refused_object_def set_refused_def)
      ultimately show ?thesis using L g2' by (intro exI [of _ "Inl e"] exI [of _ "pop_frame h3"] exI [of _ E1] exI [of _ C1] exI [of _ Q1]) auto
    next
      case (Inr w)
      obtain e where e: "w = heap_value e" "e \<noteq> 0" "e \<le> PAYLOAD_MASK" "e \<notin> dom (heap_store h2)" "heap_store h3 = (heap_store h2)(e \<mapsto> block_of b)"
        "heap_ok h3 (E1(e := [])) (C1(e := [])) Q1"
        using ald Inr by (auto simp: allocated_def)
      define st where "st = heap_store h3"
      have st: "st = (heap_store h2)(e \<mapsto> block_of b)" by (simp add: st_def e(5))
      have s2: "store_ok (heap_store h2) (heap_queue h2) (heap_strings h2) E1 C1 Q1" using ok2 by (simp add: heap_ok_def)
      have t2: "is_table (heap_store h2) a" using a1 a2 by (simp add: room_table)
      have ae: "a \<noteq> e" using is_kind_dom(1) [OF t2] e(4) by blast
      have a3: "is_table st a" using t2 ae by (simp add: is_table_def st added_views)
      have notin: "e \<notin> set ((E1(e := [])) c)" if c: "is_table st c" for c
      proof (cases "c = e")
        case False
        then have "is_table (heap_store h2) c" using c by (simp add: is_table_def st added_views)
        then show ?thesis using chain_blocks(1) [OF s2] e(4) False by auto
      qed simp
      have chain: "(E1(e := [])) a = E1 a" using ae by simp
      have eE: "e \<notin> set (E1 a)" using notin [OF a3] chain by simp
      have tok3: "table_ok st a (E1 a)" using heap_table(1) [OF e(6) a3 [unfolded st_def]] unfolding chain st_def .
      have same: "ephemeron_get (heap_value a) k st = ephemeron_get (heap_value a) k (heap_store h2)" for k
      proof (rule option_eqI)
        have "bindings (entry_of st) d = bindings (entry_of (heap_store h2)) d" if "d \<in> set (E1 a)" for d
          using that eE by (auto simp: bindings_def st added_views)
        then show "ephemeron_get (heap_value a) k st = Some x \<longleftrightarrow> ephemeron_get (heap_value a) k (heap_store h2) = Some x" for x
          by (simp add: ephemeron_get_iff [OF tok3 ta(2)] ephemeron_get_iff [OF heap_table(1) [OF ok2 t2] ta(2)])
      qed
      have miss3: "ephemeron_get (heap_value a) key st = None" by (simp add: same g2' miss)
      obtain tr where tr: "table_of st a = Some tr" "table_used tr < length (table_index tr) div 4 * 3"
      proof -
        have "room st a = room (heap_store h1) a" using a2 ae by (simp add: room_def st added_views)
        moreover obtain t1 where "table_of (heap_store h1) a = Some t1" "table_used t1 < length (table_index t1) div 4 * 3"
          using rsv unfolding reserved_def by blast
        ultimately show ?thesis using that by (auto simp: room_def)
      qed
      have en: "entry_of st e = Some \<lparr>next_entry = oseo_undefined, previous_entry = oseo_undefined, entry_key = key, entry_value = v\<rparr>"
        by (simp add: st added_views b_def)
      obtain st4 where l4: "link_entry a e key st = Some st4" "linked a (E1 a) e st st4"
        using link_entry_correct [OF tok3 tr eE e(2,3) en] bindings_get [OF tok3 ta(2) miss3] key by auto
      define h4 where "h4 = h3\<lparr>heap_store := st4\<rparr>"
      have "ephemeron_set n (heap_value a) key v h = Some (Inr (heap_value a), pop_frame h4)"
        using l4(1) by (simp add: unfold r1 al \<open>r1 = Inr u\<close> Inr e(1) heap_address_value [OF e(3)] h4_def flip: st_def)
      moreover have "heap_ok (pop_frame h4) ((E1(e := []))(a := (E1(e := [])) a @ [e])) (C1(e := [])) Q1"
        unfolding h4_def
      proof (intro pop_frame_ok linked_heap_ok [OF e(6)])
        show "is_table (heap_store h3) a" using a3 by (simp add: st_def)
        show "linked a ((E1(e := [])) a) e (heap_store h3) st4" using l4(2) chain by (simp add: st_def)
        show "is_entry (heap_store h3) e" using en by (simp add: is_entry_def st_def)
      qed (use notin in \<open>simp add: st_def\<close>)
      moreover have "heap_roots (pop_frame h4) = heap_roots h" by (rule pop_push_roots) (simp add: h4_def r3 f1(2) h0_def)
      moreover have "ephemeron_get (heap_value a) k (heap_store (pop_frame h4)) =
          (if k = key then Some v else if k \<in> L then None else ephemeron_get (heap_value a) k (heap_store h))" for k
        using linked_get [OF tok3 l4(2) _ ta(2) miss3, of v] en by (simp add: h4_def bindings_def same g2')
      ultimately show ?thesis using L
        by (intro exI [of _ "Inr (heap_value a)"] exI [of _ "pop_frame h4"] exI [of _ "(E1(e := []))(a := (E1(e := [])) a @ [e])"]
            exI [of _ "C1(e := [])"] exI [of _ Q1]) auto
    qed
  qed
qed

subsection \<open>Deleting a key\<close>

lemma delete_views:
  "is_table (snd (ephemeron_delete v key st)) = is_table st" "is_entry (snd (ephemeron_delete v key st)) = is_entry st"
  "clean (snd (ephemeron_delete v key st)) = clean st"
  by (simp_all add: ephemeron_delete_def Let_def split: option.split)

lemma unlinked_heap_ok:
  assumes ok: "heap_ok h E C Q" and a: "is_table (heap_store h) a" and E: "E a = xs @ e # ys"
    and u: "unlinked a xs e ys (heap_store h) st'" and t: "table_ok st' a (xs @ ys)"
    and v: "is_table st' = is_table (heap_store h)" "is_entry st' = is_entry (heap_store h)" "clean st' = clean (heap_store h)"
  shows "heap_ok (h\<lparr>heap_store := st'\<rparr>) (E(a := xs @ ys)) C Q"
proof (rule heap_ok_tables [OF ok refl])
  let ?st = "heap_store h" and ?E = "E(a := xs @ ys)"
  note k = ok [unfolded heap_ok_def store_ok_def]
  have w: "weak_ok ?st E" using k by blast
  have s: "store_ok ?st (heap_queue h) (heap_strings h) E C Q" using ok by (simp add: heap_ok_def)
  have cont: "content st' (xs @ ys) = content ?st (xs @ ys)" and ks: "\<And>d. d \<noteq> e \<Longrightarrow> keys (entry_of st') d = keys (entry_of ?st) d"
    and wiped: "entry_of st' e = Some wiped_entry" and other: "\<And>b. b \<noteq> a \<Longrightarrow> b \<notin> set (E a) \<Longrightarrow> st' b = ?st b"
    and tabs: "\<And>b. b \<noteq> a \<Longrightarrow> table_of st' b = table_of ?st b" and dom: "dom st' = dom ?st"
    using u unfolding unlinked_def E by blast+
  have chain: "is_entry ?st d" if "d \<in> set (E a)" for d by (rule chain_blocks(4) [OF s a that])
  show oth: "st' b = ?st b" if b: "\<not> is_table ?st b" "\<not> is_entry ?st b" for b
    using other b a chain by metis
  have d: "distinct (E a)" using heap_table(1) [OF ok a] unfolding table_ok_def table_core_def by blast
  have sub: "set (xs @ ys) \<subseteq> set (E a)" "e \<in> set (E a)" "e \<notin> set (xs @ ys)" using d by (auto simp: E)
  have far: "st' x = ?st x" if "x \<in> set (E b)" "is_table ?st b" "b \<noteq> a" for x b
  proof (rule other)
    show "x \<notin> set (E a)" using w a that unfolding weak_ok_def by blast
    show "x \<noteq> a" using chain_blocks(4) [OF s that(2,1)] table_not_entry [OF a] by blast
  qed
  have body: "bodies ?st b = Some v" if v': "bodies st' b = Some v" "\<And>t. v \<noteq> HEAP_EPHEMERON_TABLE t" "\<And>t. v \<noteq> HEAP_EPHEMERON_ENTRY t" for b v
  proof -
    have "\<not> is_table ?st b" "\<not> is_entry ?st b" using v' not_table_entry [OF v'(1)] v(1,2) by simp_all
    then show ?thesis using v'(1) oth by (simp add: bodies_def)
  qed
  show "weak_ok st' ?E" unfolding weak_ok_def v(1,2)
  proof (intro conjI allI impI)
    fix b assume b: "is_table ?st b"
    show "table_ok st' b (?E b)"
    proof (cases "b = a")
      case True
      then show ?thesis using t by simp
    next
      case False
      have "table_ok st' b (E b)"
        by (rule table_ok_cong [OF tabs [OF False]]) (use far b False w in \<open>auto simp: entry_of_def weak_ok_def\<close>)
      then show ?thesis using False by simp
    qed
  next
    fix b c assume bc: "is_table ?st b" "is_table ?st c" "b \<noteq> c"
    then have "set (E b) \<inter> set (E c) = {}" using w unfolding weak_ok_def by blast
    then show "set (?E b) \<inter> set (?E c) = {}" using sub(1) bc(3) by auto
  next
    fix b x v assume b: "is_table ?st b" "x \<in> set (?E b)" "keys (entry_of st') x = Some v"
    have x: "x \<in> set (E b)" "x \<noteq> e"
    proof -
      show "x \<in> set (E b)" using b(2) sub(1) by (auto split: if_splits)
      then show "x \<noteq> e" using b sub(2,3) w a unfolding weak_ok_def by (cases "b = a") auto
    qed
    then show "\<not> is_entry ?st (heap_address v)" using w b(1,3) ks unfolding weak_ok_def by metis
  next
    fix b v assume "bodies st' b = Some (HEAP_WEAK_REFERENCE v)" "is_heap v"
    then show "\<not> is_entry ?st (heap_address v)" using body w unfolding weak_ok_def by blast
  next
    fix b c assume "bodies st' b = Some (HEAP_FINALIZATION_CELL c)" "is_heap (cell_token c)"
    then show "\<not> is_entry ?st (heap_address (cell_token c))" using body w unfolding weak_ok_def by blast
  qed
  show "entries_linked st' ?E" unfolding entries_linked_def v(1)
  proof (intro allI impI)
    fix x en assume x: "entry_of st' x = Some en" and no: "\<forall>t. is_table ?st t \<longrightarrow> x \<notin> set (?E t)"
    show "\<not> is_heap (next_entry en)"
    proof (cases "x = e")
      case True
      then show ?thesis using x wiped by (auto simp: wiped_entry_def)
    next
      case False
      have "x \<notin> set (xs @ ys)" using no a by (metis fun_upd_same)
      then have xa: "x \<notin> set (E a)" using False by (auto simp: E)
      have "is_entry ?st x" using x v(2) by (metis is_entry_def option.distinct(1))
      then have "x \<noteq> a" using table_not_entry [OF a] by blast
      then have "entry_of ?st x = Some en" using x other [OF _ xa] by (simp add: entry_of_def)
      moreover have "x \<notin> set (E t)" if "is_table ?st t" for t using no that xa by (cases "t = a") auto
      ultimately show ?thesis using k unfolding entries_linked_def by blast
    qed
  qed
  show "program_value ?st (entry_key en) \<and> program_value ?st (entry_value en)" if x: "entry_of st' x = Some en" for x en
  proof -
    have "is_entry ?st x" using x v(2) by (metis is_entry_def option.distinct(1))
    then have "x \<noteq> a" using table_not_entry [OF a] by blast
    then consider "x = e" | "x \<in> set (xs @ ys)" | "x \<noteq> a \<and> x \<notin> set (E a)" by (auto simp: E)
    then show ?thesis
    proof cases
      case 1
      then show ?thesis using x wiped by (auto simp: wiped_entry_def program_value_def)
    next
      case 2
      then have "bindings (entry_of st') x = bindings (entry_of ?st) x \<or> entry_of ?st x = None"
        using cont x by (auto simp: content_def bindings_def)
      moreover have "entry_of ?st x \<noteq> None" using chain sub(1) 2 by (auto simp: is_entry_def)
      ultimately have "bindings (entry_of ?st) x = Some (entry_key en, entry_value en)" using x by (auto simp: bindings_def)
      then obtain y where "entry_of ?st x = Some y" "entry_key y = entry_key en" "entry_value y = entry_value en" by (auto simp: bindings_def)
      then show ?thesis using heap_entry [OF ok] by metis
    next
      case 3
      then have "entry_of ?st x = Some en" using x other by (simp add: entry_of_def)
      then show ?thesis using heap_entry [OF ok] by blast
    qed
  qed
  show "dom st' = dom ?st" "is_table st' = is_table ?st" "is_entry st' = is_entry ?st" by fact+
  show "clean st'" using v(3) k by blast
qed

lemma ephemeron_delete_correct:
  assumes ok: "heap_ok h E C Q" and a: "is_table (heap_store h) a"
    and r: "ephemeron_delete (heap_value a) key (heap_store h) = (found, st')"
  shows "found \<longleftrightarrow> ephemeron_get (heap_value a) key (heap_store h) \<noteq> None"
    and "\<exists>E'. heap_ok (h\<lparr>heap_store := st'\<rparr>) E' C Q"
    and "ephemeron_get (heap_value a) k st' = (if k = key then None else ephemeron_get (heap_value a) k (heap_store h))"
proof -
  note ta = heap_table(1,2) [OF ok a]
  have "(found \<longleftrightarrow> ephemeron_get (heap_value a) key (heap_store h) \<noteq> None) \<and> (\<exists>E'. heap_ok (h\<lparr>heap_store := st'\<rparr>) E' C Q) \<and>
    (\<forall>k. ephemeron_get (heap_value a) k st' = (if k = key then None else ephemeron_get (heap_value a) k (heap_store h)))"
  proof (cases "ephemeron_get (heap_value a) key (heap_store h)")
    case None
    have "ephemeron_delete (heap_value a) key (heap_store h) = (False, heap_store h)"
      by (rule ephemeron_delete_miss [OF ta]) (rule bindings_get [OF ta None])
    then have "found = False" "st' = heap_store h" using r by simp_all
    moreover have "h\<lparr>heap_store := heap_store h\<rparr> = h" by simp
    ultimately show ?thesis using None ok by auto
  next
    case (Some x)
    then obtain e where e: "e \<in> set (E a)" "bindings (entry_of (heap_store h)) e = Some (key, x)" using ephemeron_get_iff [OF ta] by blast
    then obtain xs ys where E: "E a = xs @ e # ys" by (meson split_list)
    have ke: "keys (entry_of (heap_store h)) e = Some key" using e(2) by (auto simp: bindings_def keys_def)
    note del = ephemeron_delete_hit [OF ta(1) [unfolded E] ta(2) ke, unfolded r fst_conv snd_conv]
    have v: "is_table st' = is_table (heap_store h)" "is_entry st' = is_entry (heap_store h)" "clean st' = clean (heap_store h)"
      using delete_views [of "heap_value a" key "heap_store h"] r by simp_all
    have "ephemeron_get (heap_value a) k st' = (if k = key then None else ephemeron_get (heap_value a) k (heap_store h))" for k
    proof (rule ephemeron_get_eq [OF ta(1) del(3) ta(2)])
      fix k x
      have d: "distinct (map (keys (entry_of (heap_store h))) (E a))" using ta(1) unfolding table_ok_def table_core_def by blast
      have b: "bindings (entry_of st') y = bindings (entry_of (heap_store h)) y" if "y \<in> set (xs @ ys)" for y
      proof -
        have "dom (entry_of st') = dom (entry_of (heap_store h))" "content st' (xs @ ys) = content (heap_store h) (xs @ ys)"
          using del(2) unfolding unlinked_def by blast+
        then show ?thesis using that unfolding content_def bindings_def map_eq_conv
          by (cases "entry_of st' y"; cases "entry_of (heap_store h) y") (auto simp: domIff dest!: fun_cong [where x = y] bspec [where x = y])
      qed
      have n: "bindings (entry_of (heap_store h)) y \<noteq> Some (key, z)" if "y \<in> set (xs @ ys)" for y z
        using that d ke by (force simp: E bindings_def keys_def)
      show "(\<exists>e \<in> set (xs @ ys). bindings (entry_of st') e = Some (k, x)) \<longleftrightarrow>
          (if k = key then None = Some x else \<exists>e \<in> set (E a). bindings (entry_of (heap_store h)) e = Some (k, x))"
        using b n e(2) by (auto simp: E)
    qed
    then show ?thesis using del(1) Some unlinked_heap_ok [OF ok a E del(2,3) v] by auto
  qed
  then show "found \<longleftrightarrow> ephemeron_get (heap_value a) key (heap_store h) \<noteq> None" "\<exists>E'. heap_ok (h\<lparr>heap_store := st'\<rparr>) E' C Q"
    "ephemeron_get (heap_value a) k st' = (if k = key then None else ephemeron_get (heap_value a) k (heap_store h))" by blast+
qed

end
