(* ===== verification/Weak_Properties.thy ===== *)
theory Weak_Properties
  imports Ephemeron_Set
begin

text \<open>
  The properties of the weak records as the program sees them: setting and deleting the keys of an
  ephemeron table, the cleanup FIFO of finalization registries, and the sharing of strings.
\<close>

subsection \<open>A heap for the witnesses\<close>

text \<open>Two private names, both rooted, and an empty table.\<close>

definition table_roots :: collector_roots where
  "table_roots = \<lparr>frame_slots = [[heap_value 8, heap_value 16, heap_value 24]], microtask_head = oseo_undefined,
     async_call_capability = oseo_undefined, microtask_tail = oseo_undefined, pending_rejections = oseo_undefined,
     pending_rejection_tail = oseo_undefined,
     initial_realm = \<lparr>intrinsics = [], global_this = oseo_undefined, global_lexicals = oseo_undefined, template_cache = [],
       regexp_literal_cache = []\<rparr>,
     realm_record = oseo_undefined, activations = [],
     legacy_function_keys = [], well_known_symbols = [], registered_symbols = [], root_timer_head = oseo_undefined,
     atomics_waiter_head = oseo_undefined, atomics_waiter_tail = oseo_undefined, agent_broadcast_callback = oseo_undefined,
     kept_objects = [], module_table = None, pending_tail_call = None\<rparr>"

definition table_store :: store where
  "table_store = [8 \<mapsto> block_of HEAP_PRIVATE_NAME, 16 \<mapsto> block_of HEAP_PRIVATE_NAME, 24 \<mapsto> block_of (HEAP_EPHEMERON_TABLE empty_table)]"

definition table_heap :: heap_state where
  "table_heap = \<lparr>allocation_attempts = 0, fail_allocation_at = 0, host_malloc = \<lambda>n s. 64, heap_store = table_store,
     heap_objects = [8, 16, 24], heap_roots = table_roots,
     heap_queue = \<lparr>queue_head = oseo_undefined, queue_tail = oseo_undefined, pending_count = 0\<rparr>, heap_strings = None,
     weak_counts = (\<lambda>k. 0)(EPHEMERON_TABLE := 1),
     observe_specialization = False, collect_every_safepoint = True, collections = 0, allocations = 0\<rparr>"

lemma table_views:
  "table_of table_store a = (if a = 24 then Some empty_table else None)" "entry_of table_store a = None"
  "cell_of table_store a = None" "registry_of table_store a = None"
  "bodies table_store = [8 \<mapsto> HEAP_PRIVATE_NAME, 16 \<mapsto> HEAP_PRIVATE_NAME, 24 \<mapsto> HEAP_EPHEMERON_TABLE empty_table]"
  by (simp_all add: table_of_def entry_of_def cell_of_def registry_of_def fun_eq_iff bodies_def table_store_def block_of_def)

lemma table_addresses [simp]:
  "heap_address (heap_value 8) = 8" "heap_address (heap_value 16) = 16" "heap_address (heap_value 24) = 24"
  by (simp_all add: PAYLOAD_MASK_def)

lemma table_program: "program_value table_store oseo_undefined" "program_value table_store (heap_value 8)"
  "program_value table_store (heap_value 16)" "program_value table_store (heap_value 24)"
  by (simp_all add: program_value_def internal_def is_entry_def table_views) (simp_all add: table_store_def)

lemma table_empty_ok: "table_ok table_store 24 []"
  by (simp add: table_ok_def table_core_def table_views empty_table_def index_ok_def back_link_def last_of_def)

lemma table_heap_ok: "heap_ok table_heap (\<lambda>a. []) (\<lambda>a. []) []"
proof -
  have f: "heap_store table_heap = table_store" "heap_objects table_heap = [8, 16, 24]" "heap_roots table_heap = table_roots"
    "heap_strings table_heap = None" "heap_queue table_heap = \<lparr>queue_head = oseo_undefined, queue_tail = oseo_undefined, pending_count = 0\<rparr>"
    by (simp_all add: table_heap_def)
  have s: "store_ok table_store (heap_queue table_heap) None (\<lambda>a. []) (\<lambda>a. []) []"
    unfolding store_ok_def
  proof (intro conjI)
    show "\<forall>a \<in> dom table_store. a \<noteq> 0 \<and> a \<le> PAYLOAD_MASK"
      by (auto simp: table_store_def PAYLOAD_MASK_def word_le_nat_alt split: if_splits)
    show "\<forall>a b v. bodies table_store a = Some b \<longrightarrow> v \<in> set (held b) \<longrightarrow> program_value table_store v"
      by (auto simp: table_views split: if_splits)
    show "weak_ok table_store (\<lambda>a. [])"
      using table_empty_ok by (auto simp: weak_ok_def is_table_def is_entry_def table_views split: if_splits)
  qed (simp_all add: entries_linked_def queue_ok_def registries_ok_def cells_linked_def table_views f back_link_def last_of_def
      record_of_def string_table_ok_def)
  show ?thesis unfolding heap_ok_def
  proof (intro conjI)
    show "clean (heap_store table_heap)" by (simp add: f clean_def is_marked_def pending_of_def table_store_def block_of_def)
    show "dom (heap_store table_heap) = set (heap_objects table_heap)" by (auto simp: f table_store_def)
    show "distinct (heap_objects table_heap)" by (simp add: f)
    show "\<forall>v \<in> set (early_roots (heap_roots table_heap) @ late_roots (heap_roots table_heap)). program_value (heap_store table_heap) v"
      using table_program by (simp add: f early_roots_def late_roots_def table_roots_def realm_edges_def)
    show "store_ok (heap_store table_heap) (heap_queue table_heap) (heap_strings table_heap) (\<lambda>a. []) (\<lambda>a. []) []"
      using s by (simp add: f)
    show "weak_counts table_heap = kind_count (heap_store table_heap) (heap_objects table_heap)"
    proof
      fix k show "weak_counts table_heap k = kind_count (heap_store table_heap) (heap_objects table_heap) k"
        by (cases k) (simp_all add: f table_heap_def kind_count_def table_store_def block_of_def weak_record_count_def)
    qed
  qed
qed

lemma table_heap_fields: "length (heap_objects table_heap) \<le> 3" "is_table (heap_store table_heap) 24"
  "program_value (heap_store table_heap) (heap_value 8)" "program_value (heap_store table_heap) (heap_value 16)"
  "\<And>k. host_malloc table_heap k 64 \<notin> dom (heap_store table_heap)"
  using table_program by (simp_all add: table_heap_def is_table_def table_views) (simp add: table_store_def)

lemma table_heap_get: "ephemeron_get (heap_value 24) k (heap_store table_heap) = None"
  using ephemeron_get_content(1) [OF table_empty_ok, of k] by (simp add: table_heap_def content_def PAYLOAD_MASK_def)

subsection \<open>The properties\<close>



text \<open>C26. \<open>oseo_internal_ephemeron_delete\<close> answers whether the table had the key, removes that key and no
  other, and keeps the invariant of the heap.\<close>

theorem ephemeron_delete_removes:
  assumes "heap_ok h E C Q" "is_table (heap_store h) a"
  shows "fst (ephemeron_delete (heap_value a) key (heap_store h)) = (ephemeron_get (heap_value a) key (heap_store h) \<noteq> None)
    \<and> (\<exists>E'. heap_ok (h\<lparr>heap_store := snd (ephemeron_delete (heap_value a) key (heap_store h))\<rparr>) E' C Q)
    \<and> ephemeron_get (heap_value a) k (snd (ephemeron_delete (heap_value a) key (heap_store h))) =
      (if k = key then None else ephemeron_get (heap_value a) k (heap_store h))"
  using ephemeron_delete_correct [OF assms surjective_pairing] by blast

theorem ephemeron_delete_removes_witness:
  "\<not> fst (ephemeron_delete (heap_value 24) (heap_value 8) (heap_store table_heap)) \<and>
   ephemeron_get (heap_value 24) (heap_value 16) (snd (ephemeron_delete (heap_value 24) (heap_value 8) (heap_store table_heap))) = None"
  using ephemeron_delete_removes [OF table_heap_ok table_heap_fields(2), of "heap_value 8" "heap_value 16"]
  by (simp add: table_heap_get)

text \<open>C27. \<open>oseo_internal_finalization_take_cleanup\<close> delivers the first record of the FIFO that no
  unregistration has consumed, and \<open>oseo_internal_finalization_take_registry_cleanup\<close> the first of its
  registry. The record leaves the FIFO and is consumed, so that it is never delivered again; the
  other waiting records stay in their order, and no other record changes but for the queued flag of the
  consumed ones it drops.\<close>

theorem cleanup_delivered_in_order:
  assumes "queue_ok st q Q" "length Q < n" "is_heap registry \<Longrightarrow> registry_of st (heap_address registry) \<noteq> None"
  shows "\<exists>st' q'. (if is_heap registry then finalization_take_registry_cleanup n registry (st, q) else finalization_take_cleanup n (st, q)) =
      Some (result_of st (List.find (matches st (if is_heap registry then registry else oseo_undefined)) Q), st', q') \<and>
    queue_ok st' q' (staying st (if is_heap registry then registry else oseo_undefined) Q) \<and>
    record_of st' = records_after st (if is_heap registry then registry else oseo_undefined) Q"
proof -
  define r where "r = (if is_heap registry then registry else oseo_undefined)"
  have "forward (queue_links st) (queue_head q) Q" using assms(1) by (simp add: queue_ok_def)
  moreover have "queue_ok st q ([] @ Q)" "\<forall>a \<in> set []. waiting st a \<and> \<not> matches st r a" "back_link oseo_undefined (last_of [])"
    using assms(1) by (simp_all add: back_link_def last_of_def)
  ultimately obtain st' q' where "take_queued_cleanup n r oseo_undefined (queue_head q) (st, q) = Some (result_of st (List.find (matches st r) Q), st', q')"
    "queue_ok st' q' (staying st r Q)" "record_of st' = records_after st r Q"
    using take_queued_cleanup_correct [where xs = "[]", OF _ _ _ _ assms(2)] by fastforce
  then show ?thesis using assms(3)
    by (auto simp: r_def finalization_take_registry_cleanup_def finalization_take_cleanup_def split: if_splits)
qed

definition queued_cell :: "oseo_value \<Rightarrow> oseo_value \<Rightarrow> bool \<Rightarrow> finalization_cell" where
  "queued_cell following holdings processed = \<lparr>next_cell = oseo_undefined, cell_queue_next = following, cell_registry = heap_value 24,
     cell_target = oseo_undefined, cell_holdings = holdings, cell_token = oseo_undefined, cell_order = 1,
     cell_queued = True, cell_processed = processed\<rparr>"

definition queued_store :: store where
  "queued_store = [8 \<mapsto> block_of (HEAP_FINALIZATION_CELL (queued_cell (heap_value 16) oseo_undefined True)),
     16 \<mapsto> block_of (HEAP_FINALIZATION_CELL (queued_cell oseo_undefined (heap_value 16) False))]"

text \<open>The first of two queued records was unregistered, so the second is delivered.\<close>

theorem cleanup_delivered_in_order_witness:
  "\<exists>st' q'. finalization_take_cleanup 3 (queued_store, \<lparr>queue_head = heap_value 8, queue_tail = heap_value 16, pending_count = 1\<rparr>) =
     Some (Some (heap_value 24, heap_value 16), st', q') \<and> queue_ok st' q' []"
proof -
  define q where "q = \<lparr>queue_head = heap_value 8, queue_tail = heap_value 16, pending_count = 1\<rparr>"
  have cells: "cell_of queued_store a = (if a = 8 then Some (queued_cell (heap_value 16) oseo_undefined True)
      else if a = 16 then Some (queued_cell oseo_undefined (heap_value 16) False) else None)" for a
    by (simp add: cell_of_def queued_store_def block_of_def)
  have rec: "record_of queued_store a = (if a = 8 then Some (queued_cell oseo_undefined oseo_undefined True)
      else if a = 16 then Some (queued_cell oseo_undefined (heap_value 16) False) else None)" for a
    by (simp add: record_of_def cells queued_cell_def)
  have ok: "queue_ok queued_store q [8, 16]"
    by (simp add: queue_ok_def q_def queue_links_def cells rec back_link_def last_of_def waiting_def queued_cell_def)
      (simp add: PAYLOAD_MASK_def word_le_nat_alt)
  have m: "\<not> matches queued_store oseo_undefined 8" "matches queued_store oseo_undefined 16" "\<not> waiting queued_store 8"
    by (simp_all add: matches_def waiting_def rec queued_cell_def oseo_undefined_def tag_of_tagged tag_defs)
  show ?thesis
    using cleanup_delivered_in_order [OF ok, of 3 oseo_undefined] m
    by (auto simp: q_def result_of_def rec queued_cell_def)
qed

text \<open>C28. Looking up the string table finds exactly the string shared for the units, by identity, and after
  an insertion that the host grants the new string is the one found for its units while every other
  lookup answers as before.\<close>

theorem strings_shared_by_units:
  assumes "string_table_ok strings table" "v \<noteq> 0" "strings v = Some units" "shared strings table units = None"
  shows "string_table_find strings table (string_table_hash units') units' =
      Some (case shared strings table units' of None \<Rightarrow> 0 | Some w \<Rightarrow> w)
    \<and> (\<exists>table'. string_table_insert host table v (string_table_hash units) = Some table' \<and> string_table_ok strings table' \<and>
      (shares host \<longrightarrow> (\<forall>t. table = Some t \<longrightarrow> length (entries t) < 2 ^ 32 - 2 \<and> length (entries t) \<le> entry_capacity t) \<longrightarrow>
        string_table_find strings table' (string_table_hash units) units = Some v) \<and>
      (units' \<noteq> units \<longrightarrow>
        string_table_find strings table' (string_table_hash units') units' = string_table_find strings table (string_table_hash units') units'))"
proof -
  have found: "string_table_find strings table (string_table_hash units') units' =
      Some (case shared strings table units' of None \<Rightarrow> 0 | Some w \<Rightarrow> w)"
    by (rule string_table_find_correct [OF assms(1)])
  obtain table' where t: "string_table_insert host table v (string_table_hash units) = Some table'" "string_table_ok strings table'"
    "shared strings table' = shared strings table \<or> shared strings table' = (shared strings table)(units \<mapsto> v)"
    "shares host \<longrightarrow> (\<forall>t. table = Some t \<longrightarrow> length (entries t) < 2 ^ 32 - 2 \<and> length (entries t) \<le> entry_capacity t) \<longrightarrow>
      shared strings table' = (shared strings table)(units \<mapsto> v)"
    using string_table_insert_correct [OF assms, of host] by blast
  have "units' \<noteq> units \<Longrightarrow> shared strings table' units' = shared strings table units'" using t(3) by auto
  then have "\<exists>table'. string_table_insert host table v (string_table_hash units) = Some table' \<and> string_table_ok strings table' \<and>
      (shares host \<longrightarrow> (\<forall>t. table = Some t \<longrightarrow> length (entries t) < 2 ^ 32 - 2 \<and> length (entries t) \<le> entry_capacity t) \<longrightarrow>
        string_table_find strings table' (string_table_hash units) units = Some v) \<and>
      (units' \<noteq> units \<longrightarrow>
        string_table_find strings table' (string_table_hash units') units' = string_table_find strings table (string_table_hash units') units')"
    using t(1,2,4) by (intro exI [of _ table']) (simp add: string_table_find_correct [OF t(2)] string_table_find_correct [OF assms(1)])
  with found show ?thesis by blast
qed

theorem strings_shared_by_units_witness:
  "\<exists>table'. string_table_insert \<lparr>grants_table = True, grants_entries = True, grants_hashes = True, grants_slots = True\<rparr> None (heap_value 8)
       (string_table_hash [0x61]) = Some table' \<and>
     string_table_find [heap_value 8 \<mapsto> [0x61]] table' (string_table_hash [0x61]) [0x61] = Some (heap_value 8) \<and>
     string_table_find [heap_value 8 \<mapsto> [0x61]] None (string_table_hash [0x61]) [0x61] = Some 0"
proof -
  have a: "string_table_ok [heap_value 8 \<mapsto> [0x61]] None" "[heap_value 8 \<mapsto> [0x61 :: u16]] (heap_value 8) = Some [0x61]"
    "shared [heap_value 8 \<mapsto> [0x61]] None [0x61] = None" by (simp_all add: string_table_ok_def shared_def)
  show ?thesis
    using strings_shared_by_units [OF a(1) heap_value_not_slot(1) a(2,3), of "[0x61]"
        "\<lparr>grants_table = True, grants_entries = True, grants_hashes = True, grants_slots = True\<rparr>"]
    by (auto simp: shares_def shared_def)
qed

end
