(* ===== verification/Keyed_Log.thy ===== *)
theory Keyed_Log
  imports Oseo_Prelude
begin

text \<open>
  Insertion-ordered logs with tombstones, the representation that \<open>runtime_map.c\<close> and \<open>runtime_set.c\<close>
  share: an array of records, searched in order for a live record with the same key, where a removal
  marks a record dead in place and an insertion appends. The contract of a record is the locale
  \<open>keyed_log\<close>; a log stands for an association list in insertion order, and the operations on it
  implement lookup, update and removal of association lists up to the equivalence \<open>same\<close> of keys.
\<close>

subsection \<open>The search loop\<close>

fun first_index :: "('e \<Rightarrow> bool) \<Rightarrow> 'e list \<Rightarrow> nat option" where
  "first_index p [] = None"
| "first_index p (e # es) = (if p e then Some 0 else map_option Suc (first_index p es))"

lemma first_index_None: "first_index p es = None \<longleftrightarrow> (\<forall>e \<in> set es. \<not> p e)"
  by (induction es) auto

lemma first_index_Some:
  "first_index p es = Some i \<Longrightarrow> i < length es \<and> p (es ! i) \<and> (\<forall>e \<in> set (take i es). \<not> p e)"
  by (induction es arbitrary: i) (auto split: if_splits)

lemma first_index_cong: "(\<And>e. e \<in> set es \<Longrightarrow> p e = q e) \<Longrightarrow> first_index p es = first_index q es"
  by (induction es) auto

subsection \<open>Association lists up to an equivalence of keys\<close>

definition assoc_get :: "('k \<Rightarrow> 'k \<Rightarrow> bool) \<Rightarrow> ('k \<times> 'v) list \<Rightarrow> 'k \<Rightarrow> 'v option" where
  "assoc_get same l k = map_option snd (List.find (\<lambda>p. same (fst p) k) l)"

lemma find_two: "List.find p (xs @ ys) = (case List.find p xs of None \<Rightarrow> List.find p ys | Some x \<Rightarrow> Some x)"
  by (induction xs) auto

definition assoc_put :: "('k \<Rightarrow> 'k \<Rightarrow> bool) \<Rightarrow> 'k \<Rightarrow> 'v \<Rightarrow> ('k \<times> 'v) list \<Rightarrow> ('k \<times> 'v) list" where
  "assoc_put same k v l =
     (if \<exists>p \<in> set l. same (fst p) k then map (\<lambda>p. if same (fst p) k then (fst p, v) else p) l else l @ [(k, v)])"

definition assoc_delete :: "('k \<Rightarrow> 'k \<Rightarrow> bool) \<Rightarrow> 'k \<Rightarrow> ('k \<times> 'v) list \<Rightarrow> ('k \<times> 'v) list" where
  "assoc_delete same k l = filter (\<lambda>p. \<not> same (fst p) k) l"

fun apart :: "('k \<Rightarrow> 'k \<Rightarrow> bool) \<Rightarrow> 'k list \<Rightarrow> bool" where
  "apart same [] = True"
| "apart same (k # ks) = ((\<forall>k' \<in> set ks. \<not> same k k') \<and> apart same ks)"

lemma apart_append: "apart same (xs @ ys) \<longleftrightarrow> apart same xs \<and> apart same ys \<and> (\<forall>x \<in> set xs. \<forall>y \<in> set ys. \<not> same x y)"
  by (induction xs) auto

lemma apart_cong: "(\<And>x y. x \<in> set ks \<Longrightarrow> y \<in> set ks \<Longrightarrow> same x y = same' x y) \<Longrightarrow> apart same ks = apart same' ks"
  by (induction ks) auto

lemma apart_filter: "apart same (map f l) \<Longrightarrow> apart same (map f (filter p l))"
  by (induction l) auto

definition log_content :: "('e \<Rightarrow> 'k \<times> 'v) \<Rightarrow> ('e \<Rightarrow> bool) \<Rightarrow> 'e list \<Rightarrow> ('k \<times> 'v) list" where
  "log_content view alive es = map view (filter alive es)"

lemma log_content_simps [simp]:
  "log_content view alive [] = []"
  "log_content view alive (e # es) = (if alive e then [view e] else []) @ log_content view alive es"
  "log_content view alive (xs @ ys) = log_content view alive xs @ log_content view alive ys"
  by (simp_all add: log_content_def)

lemma log_content_update:
  "i < length es \<Longrightarrow> log_content view alive (es[i := e]) =
     log_content view alive (take i es) @ (if alive e then [view e] else []) @ log_content view alive (drop (Suc i) es)"
  by (simp add: upd_conv_take_nth_drop)

lemma log_content_split:
  assumes "i < length es"
  shows "log_content view alive es =
    log_content view alive (take i es) @ (if alive (es ! i) then [view (es ! i)] else []) @ log_content view alive (drop (Suc i) es)"
  using log_content_update [OF assms, of view alive "es ! i"] by simp

subsection \<open>Records with a key\<close>

locale keyed_log =
  fixes same :: "'k \<Rightarrow> 'k \<Rightarrow> bool" and view :: "'e \<Rightarrow> 'k \<times> 'v" and alive :: "'e \<Rightarrow> bool"
  assumes same_refl: "same k k"
    and same_sym: "same k l \<Longrightarrow> same l k"
    and same_trans: "same k l \<Longrightarrow> same l m \<Longrightarrow> same k m"
begin

abbreviation content :: "'e list \<Rightarrow> ('k \<times> 'v) list" where
  "content \<equiv> log_content view alive"

abbreviation search :: "'k \<Rightarrow> 'e list \<Rightarrow> nat option" where
  "search k \<equiv> first_index (\<lambda>e. alive e \<and> same (fst (view e)) k)"

lemma search_None: "search k es = None \<Longrightarrow> p \<in> set (content es) \<Longrightarrow> \<not> same (fst p) k"
  by (auto simp: first_index_None log_content_def)

lemma find_absent: "\<forall>p \<in> set l. \<not> same (fst p) k \<Longrightarrow> List.find (\<lambda>p. same (fst p) k) l = None"
  by (auto simp: find_None_iff)

lemma get_absent: "search k es = None \<Longrightarrow> assoc_get same (content es) k = None"
  using search_None [of k es] by (simp add: assoc_get_def find_absent)

text \<open>The record found, with the records before and after it.\<close>

lemma search_Some:
  assumes "search k es = Some i"
  shows "i < length es" "alive (es ! i)" "same (fst (view (es ! i))) k"
    and "content es = content (take i es) @ view (es ! i) # content (drop (Suc i) es)"
    and "p \<in> set (content (take i es)) \<Longrightarrow> \<not> same (fst p) k"
proof -
  note f = first_index_Some [OF assms]
  then show i: "i < length es" "alive (es ! i)" "same (fst (view (es ! i))) k" by simp_all
  show "content es = content (take i es) @ view (es ! i) # content (drop (Suc i) es)"
    using log_content_split [OF i(1), of view alive] i(2) by simp
  show "\<not> same (fst p) k" if "p \<in> set (content (take i es))"
    using that f by (auto simp: log_content_def)
qed

lemma others_apart:
  assumes "search k es = Some i" "apart same (map fst (content es))"
  shows "\<forall>p \<in> set (content (drop (Suc i) es)). \<not> same (fst p) k"
proof
  fix p assume p: "p \<in> set (content (drop (Suc i) es))"
  note s = search_Some [OF assms(1)]
  have "\<not> same (fst (view (es ! i))) (fst p)"
    using assms(2) p unfolding s(4) by (auto simp: apart_append)
  then show "\<not> same (fst p) k" using s(3) by (blast intro: same_sym same_trans)
qed

lemma get_found: "search k es = Some i \<Longrightarrow> assoc_get same (content es) k = Some (snd (view (es ! i)))"
  using search_Some [of k es i] by (simp add: assoc_get_def find_two find_absent)

lemma update_found:
  assumes "search k es = Some i" "apart same (map fst (content es))" "alive e" "view e = (fst (view (es ! i)), v)"
  shows "content (es[i := e]) = assoc_put same k v (content es)" "map fst (content (es[i := e])) = map fst (content es)"
proof -
  note s = search_Some [OF assms(1)]
  have c: "content (es[i := e]) = content (take i es) @ (fst (view (es ! i)), v) # content (drop (Suc i) es)"
    using log_content_update [OF s(1), of view alive e] assms(3,4) by simp
  show "map fst (content (es[i := e])) = map fst (content es)" unfolding c by (subst s(4)) simp
  have "map (\<lambda>p. if same (fst p) k then (fst p, v) else p) l = l" if "\<forall>p \<in> set l. \<not> same (fst p) k" for l
    using that by (induction l) auto
  then have "map (\<lambda>p. if same (fst p) k then (fst p, v) else p) (content es) = content (es[i := e])"
    unfolding c using s(3,5) others_apart [OF assms(1,2)] by (subst s(4)) simp
  moreover have "\<exists>p \<in> set (content es). same (fst p) k" using s(3) by (subst s(4)) auto
  ultimately show "content (es[i := e]) = assoc_put same k v (content es)" by (simp add: assoc_put_def)
qed

lemma delete_found:
  assumes "search k es = Some i" "apart same (map fst (content es))" "\<not> alive d"
  shows "content (es[i := d]) = assoc_delete same k (content es)"
    and "length (content es) = Suc (length (content (es[i := d])))"
proof -
  note s = search_Some [OF assms(1)]
  have c: "content (es[i := d]) = content (take i es) @ content (drop (Suc i) es)"
    using log_content_update [OF s(1), of view alive d] assms(3) by simp
  have "filter (\<lambda>p. \<not> same (fst p) k) (content (take i es)) = content (take i es)"
    "filter (\<lambda>p. \<not> same (fst p) k) (content (drop (Suc i) es)) = content (drop (Suc i) es)"
    using s(5) others_apart [OF assms(1,2)] by (auto intro: filter_True)
  then show "content (es[i := d]) = assoc_delete same k (content es)"
    unfolding c assoc_delete_def using s(3) by (subst s(4)) simp
  show "length (content es) = Suc (length (content (es[i := d])))" unfolding c by (subst s(4)) simp
qed

lemma delete_absent: "search k es = None \<Longrightarrow> assoc_delete same k (content es) = content es"
  using search_None [of k es] by (auto simp: assoc_delete_def intro: filter_True)

lemma delete_apart: "apart same (map fst l) \<Longrightarrow> apart same (map fst (assoc_delete same k l))"
  by (simp add: assoc_delete_def apart_filter)

lemma append_absent:
  assumes "search k es = None" "apart same (map fst (content es))" "alive e" "view e = (k', v)" "same k' k"
  shows "content (es @ [e]) = assoc_put same k' v (content es)" "apart same (map fst (content (es @ [e])))"
proof -
  have none: "\<not> same (fst p) k'" if "p \<in> set (content es)" for p
    using search_None [OF assms(1) that] assms(5) by (blast intro: same_trans)
  then show "content (es @ [e]) = assoc_put same k' v (content es)" using assms(3,4) by (auto simp: assoc_put_def)
  show "apart same (map fst (content (es @ [e])))" using assms(2-4) none by (auto simp: apart_append)
qed

lemma get_put:
  fixes l :: "('k \<times> 'w) list"
  shows "assoc_get same (assoc_put same k v l) k' = (if same k k' then Some v else assoc_get same l k')"
proof (cases "\<exists>p \<in> set l. same (fst p) k")
  case False
  then have "\<forall>p \<in> set l. \<not> same (fst p) k'" if "same k k'" using that by (blast intro: same_sym same_trans)
  then show ?thesis using False by (auto simp: assoc_put_def assoc_get_def find_two find_absent split: option.split)
next
  case True
  let ?f = "\<lambda>p. if same (fst p) k then (fst p, v) else p"
  have "List.find (\<lambda>p. same (fst p) k') (map ?f xs) = map_option ?f (List.find (\<lambda>p. same (fst p) k') xs)" for xs :: "('k \<times> 'w) list"
    by (induction xs) auto
  then have g: "assoc_get same (assoc_put same k v l) k' = map_option (\<lambda>p. snd (?f p)) (List.find (\<lambda>p. same (fst p) k') l)"
    using True by (simp add: assoc_put_def assoc_get_def option.map_comp comp_def)
  show ?thesis
  proof (cases "same k k'")
    case same: True
    from True same obtain p where "p \<in> set l" "same (fst p) k'" by (blast intro: same_trans)
    then have "List.find (\<lambda>p. same (fst p) k') l \<noteq> None" unfolding find_None_iff by blast
    then obtain q where q: "List.find (\<lambda>p. same (fst p) k') l = Some q" by blast
    then have "same (fst q) k'" by (auto simp: find_Some_iff)
    then have "same (fst q) k" using same by (blast intro: same_sym same_trans)
    with g q same show ?thesis by simp
  next
    case False
    have "\<not> same (fst q) k" if "List.find (\<lambda>p. same (fst p) k') l = Some q" for q
    proof -
      have "same (fst q) k'" using that by (auto simp: find_Some_iff)
      then show ?thesis using False by (blast intro: same_sym same_trans)
    qed
    with g False show ?thesis by (cases "List.find (\<lambda>p. same (fst p) k') l") (auto simp: assoc_get_def)
  qed
qed

lemma get_delete:
  fixes l :: "('k \<times> 'w) list"
  shows "assoc_get same (assoc_delete same k l) k' = (if same k k' then None else assoc_get same l k')"
proof -
  have "List.find (\<lambda>p. same (fst p) k') (filter (\<lambda>p. \<not> same (fst p) k) xs) =
      (if same k k' then None else List.find (\<lambda>p. same (fst p) k') xs)" for xs :: "('k \<times> 'w) list"
    by (induction xs) (auto intro: same_sym same_trans)
  from this [of l] show ?thesis by (simp add: assoc_get_def assoc_delete_def)
qed

end

end
