(* ===== verification/Same_Value.thy ===== *)
theory Same_Value
  imports Heap_Objects BigInt_Arith
begin

text \<open>
  The identities of values: SameValue and SameValueZero (\<open>runtime_descriptor.c\<close>), strict equality
  (\<open>runtime_primitive.c\<close>) and the equality of property keys (\<open>runtime_string.c\<close>). A string or a
  BigInt is compared by its content, a symbol by its address or by the entry of the global symbol
  registry it represents. \<open>registry\<close> reads the field \<open>registry_entry\<close> of a symbol by its address, 0 for a
  symbol without an entry.
\<close>

subsection \<open>The code\<close>

definition body_at :: "store \<Rightarrow> oseo_value \<Rightarrow> heap_body option" where
  "body_at st v = (if is_heap v then map_option body (st (heap_address v)) else None)"

definition string_at :: "store \<Rightarrow> oseo_value \<Rightarrow> u16 list option" where
  "string_at st v = (case body_at st v of Some (HEAP_STRING us) \<Rightarrow> Some us | _ \<Rightarrow> None)"

definition bigint_at :: "store \<Rightarrow> oseo_value \<Rightarrow> bigint option" where
  "bigint_at st v = (case body_at st v of Some (HEAP_BIGINT b) \<Rightarrow> Some b | _ \<Rightarrow> None)"

definition is_string :: "store \<Rightarrow> oseo_value \<Rightarrow> bool" where
  "is_string st v \<longleftrightarrow> string_at st v \<noteq> None"

definition is_bigint :: "store \<Rightarrow> oseo_value \<Rightarrow> bool" where
  "is_bigint st v \<longleftrightarrow> bigint_at st v \<noteq> None"

definition is_symbol :: "store \<Rightarrow> oseo_value \<Rightarrow> bool" where
  "is_symbol st v \<longleftrightarrow> (case body_at st v of Some (HEAP_SYMBOL description) \<Rightarrow> True | _ \<Rightarrow> False)"

definition same_registered_symbol :: "(u64 \<Rightarrow> u64) \<Rightarrow> store \<Rightarrow> oseo_value \<Rightarrow> oseo_value \<Rightarrow> bool" where
  "same_registered_symbol registry st left right \<longleftrightarrow>
     is_symbol st left \<and> is_symbol st right \<and>
     registry (heap_address left) \<noteq> 0 \<and> registry (heap_address left) = registry (heap_address right)"

definition string_equal :: "store \<Rightarrow> oseo_value \<Rightarrow> oseo_value \<Rightarrow> bool" where
  "string_equal st left right \<longleftrightarrow> is_string st left \<and> is_string st right \<and> string_at st left = string_at st right"

text \<open>The part the comparisons share, after the case of two numbers.\<close>

definition same_reference :: "(u64 \<Rightarrow> u64) \<Rightarrow> store \<Rightarrow> oseo_value \<Rightarrow> oseo_value \<Rightarrow> bool" where
  "same_reference registry st left right \<longleftrightarrow>
     (if is_string st left \<and> is_string st right then string_equal st left right
      else if is_bigint st left \<and> is_bigint st right
        then bigint_equal (the (bigint_at st left)) (the (bigint_at st right))
      else left = right \<or> same_registered_symbol registry st left right)"

definition same_value :: "(u64 \<Rightarrow> u64) \<Rightarrow> store \<Rightarrow> oseo_value \<Rightarrow> oseo_value \<Rightarrow> bool" where
  "same_value registry st left right \<longleftrightarrow>
     (if is_number left \<and> is_number right then
        let left_number = number_value left; right_number = number_value right
        in if isnan left_number \<and> isnan right_number then True
           else if dbl_eq left_number dbl_zero \<and> dbl_eq right_number dbl_zero
             then signbit left_number = signbit right_number
           else dbl_eq left_number right_number
      else same_reference registry st left right)"

definition same_value_zero :: "(u64 \<Rightarrow> u64) \<Rightarrow> store \<Rightarrow> oseo_value \<Rightarrow> oseo_value \<Rightarrow> bool" where
  "same_value_zero registry st left right \<longleftrightarrow>
     (if is_number left \<and> is_number right then
        let left_number = number_value left; right_number = number_value right
        in if isnan left_number \<and> isnan right_number then True else dbl_eq left_number right_number
      else same_reference registry st left right)"

definition strict_equal_value :: "(u64 \<Rightarrow> u64) \<Rightarrow> store \<Rightarrow> oseo_value \<Rightarrow> oseo_value \<Rightarrow> bool" where
  "strict_equal_value registry st left right \<longleftrightarrow>
     (if is_number left \<and> is_number right then
        let left_number = number_value left; right_number = number_value right
        in \<not> isnan left_number \<and> \<not> isnan right_number \<and> dbl_eq left_number right_number
      else if is_bigint st left \<and> is_bigint st right
        then bigint_equal (the (bigint_at st left)) (the (bigint_at st right))
      else let left_tag = tag_of left
      in if left_tag \<noteq> tag_of right then False
         else if left_tag = TAG_UNDEFINED \<or> left_tag = TAG_NULL then True
         else if left_tag = TAG_BOOLEAN then left AND 1 = right AND 1
         else if is_string st left \<and> is_string st right then string_at st left = string_at st right
         else if left_tag = TAG_HEAP then left = right \<or> same_registered_symbol registry st left right
         else False)"

definition property_key_equal :: "(u64 \<Rightarrow> u64) \<Rightarrow> store \<Rightarrow> oseo_value \<Rightarrow> oseo_value \<Rightarrow> bool" where
  "property_key_equal registry st left right \<longleftrightarrow>
     (if is_string st left \<and> is_string st right then string_equal st left right
      else left = right \<or> same_registered_symbol registry st left right)"

subsection \<open>Kinds of values exclude each other\<close>

lemma kind_excl:
  "is_number v \<Longrightarrow> body_at st v = None"
  "is_string st v \<Longrightarrow> \<not> is_bigint st v \<and> \<not> is_symbol st v \<and> \<not> is_number v"
  "is_bigint st v \<Longrightarrow> \<not> is_symbol st v \<and> \<not> is_number v"
  "is_symbol st v \<Longrightarrow> \<not> is_number v"
  by (auto simp: is_number_def body_at_def is_heap_def tag_defs is_string_def is_bigint_def is_symbol_def string_at_def bigint_at_def
      split: option.splits heap_body.splits)

text \<open>What the identities compare, as one datatype: two values are the same exactly when their
  identities are equal.\<close>

datatype identity = Number_Identity "double option" | Text_Identity "u16 list" | BigInt_Identity bigint
  | Registered_Identity u64 | Address_Identity oseo_value

definition zero_identity :: "double \<Rightarrow> double option" where
  "zero_identity d = (if isnan d then None else Some (if scaled d = 0 then dbl_zero else d))"

definition exact_identity :: "double \<Rightarrow> double option" where
  "exact_identity d = (if isnan d then None else Some d)"

definition identity_of :: "(double \<Rightarrow> double option) \<Rightarrow> (u64 \<Rightarrow> u64) \<Rightarrow> store \<Rightarrow> oseo_value \<Rightarrow> identity" where
  "identity_of num registry st v =
     (if is_number v then Number_Identity (num (number_value v))
      else case body_at st v of
        Some (HEAP_STRING us) \<Rightarrow> Text_Identity us
      | Some (HEAP_BIGINT b) \<Rightarrow> BigInt_Identity b
      | Some (HEAP_SYMBOL d) \<Rightarrow> if registry (heap_address v) \<noteq> 0 then Registered_Identity (registry (heap_address v)) else Address_Identity v
      | _ \<Rightarrow> Address_Identity v)"

lemma dbl_eq_zero: "dbl_eq d dbl_zero \<longleftrightarrow> \<not> isnan d \<and> scaled d = 0"
  by (simp add: dbl_eq_def)

lemma zero_identity_eq: "zero_identity d = zero_identity e \<longleftrightarrow> isnan d \<and> isnan e \<or> dbl_eq d e"
  by (auto simp: zero_identity_def dbl_eq_def dest: scaled_inj)

lemma zeros_by_sign: "scaled d = 0 \<Longrightarrow> scaled e = 0 \<Longrightarrow> signbit d = signbit e \<Longrightarrow> d = e"
  by (rule double_eqI) (simp_all add: scaled_0_iff signbit_def)

lemma exact_identity_eq:
  "exact_identity d = exact_identity e \<longleftrightarrow>
     isnan d \<and> isnan e \<or> (if dbl_eq d dbl_zero \<and> dbl_eq e dbl_zero then signbit d = signbit e else dbl_eq d e)"
  using zeros_by_sign [of d e] scaled_inj [of d e]
  by (auto simp: exact_identity_def dbl_eq_zero dbl_eq_def)

lemma body_kinds:
  "string_at st v = (case body_at st v of Some (HEAP_STRING us) \<Rightarrow> Some us | _ \<Rightarrow> None)"
  "is_string st v \<longleftrightarrow> (\<exists>us. body_at st v = Some (HEAP_STRING us))"
  "is_bigint st v \<longleftrightarrow> (\<exists>b. body_at st v = Some (HEAP_BIGINT b))"
  "is_symbol st v \<longleftrightarrow> (\<exists>d. body_at st v = Some (HEAP_SYMBOL d))"
  by (auto simp: is_string_def is_bigint_def is_symbol_def string_at_def bigint_at_def split: option.splits heap_body.splits)

text \<open>The identity of a value that is no number.\<close>

definition reference_identity :: "(u64 \<Rightarrow> u64) \<Rightarrow> oseo_value \<Rightarrow> heap_body option \<Rightarrow> identity" where
  "reference_identity registry v b =
     (case b of
        Some (HEAP_STRING us) \<Rightarrow> Text_Identity us
      | Some (HEAP_BIGINT b) \<Rightarrow> BigInt_Identity b
      | Some (HEAP_SYMBOL d) \<Rightarrow> if registry (heap_address v) \<noteq> 0 then Registered_Identity (registry (heap_address v)) else Address_Identity v
      | _ \<Rightarrow> Address_Identity v)"

lemma identity_of_cases:
  "identity_of num registry st v =
     (if is_number v then Number_Identity (num (number_value v)) else reference_identity registry v (body_at st v))"
  by (simp add: identity_of_def reference_identity_def)

lemma reference_identity_simps [simp]:
  "reference_identity registry v (Some (HEAP_STRING us)) = Text_Identity us"
  "reference_identity registry v (Some (HEAP_BIGINT b)) = BigInt_Identity b"
  "reference_identity registry v (Some (HEAP_SYMBOL d)) =
     (if registry (heap_address v) \<noteq> 0 then Registered_Identity (registry (heap_address v)) else Address_Identity v)"
  by (simp_all add: reference_identity_def)

lemma reference_identity_other:
  "(\<And>us. b \<noteq> Some (HEAP_STRING us)) \<Longrightarrow> (\<And>n. b \<noteq> Some (HEAP_BIGINT n)) \<Longrightarrow> (\<And>d. b \<noteq> Some (HEAP_SYMBOL d)) \<Longrightarrow>
   reference_identity registry v b = Address_Identity v"
  by (auto simp: reference_identity_def split: option.split heap_body.split)

lemma bigint_equal_eq: "bigint_equal a b \<longleftrightarrow> a = b"
  by (auto simp: bigint_equal_def intro: bigint.equality)

lemma body_class:
  "(\<And>us. b = Some (HEAP_STRING us) \<Longrightarrow> P) \<Longrightarrow> (\<And>n. b = Some (HEAP_BIGINT n) \<Longrightarrow> P) \<Longrightarrow> (\<And>d. b = Some (HEAP_SYMBOL d) \<Longrightarrow> P) \<Longrightarrow>
   ((\<forall>us. b \<noteq> Some (HEAP_STRING us)) \<Longrightarrow> (\<forall>n. b \<noteq> Some (HEAP_BIGINT n)) \<Longrightarrow> (\<forall>d. b \<noteq> Some (HEAP_SYMBOL d)) \<Longrightarrow> P) \<Longrightarrow> P"
  by blast

lemma same_reference_identity:
  "same_reference registry st left right \<longleftrightarrow>
     reference_identity registry left (body_at st left) = reference_identity registry right (body_at st right)"
proof (cases "left = right")
  case True
  then show ?thesis by (auto simp: same_reference_def string_equal_def bigint_equal_eq)
next
  case False
  then show ?thesis
    by (rule_tac body_class [of "body_at st left"]; rule_tac body_class [of "body_at st right"])
      (auto simp: same_reference_def string_equal_def body_kinds same_registered_symbol_def reference_identity_other
        bigint_at_def bigint_equal_eq)
qed

lemma reference_not_number: "reference_identity registry v b \<noteq> Number_Identity d"
  by (auto simp: reference_identity_def split: option.split heap_body.split)

lemma number_reference: "is_number left \<Longrightarrow> \<not> is_number right \<Longrightarrow> \<not> same_reference registry st left right"
  by (rule body_class [of "body_at st right"])
    (auto simp: same_reference_identity kind_excl(1) reference_identity_other)

lemma same_reference_sym: "same_reference registry st left right = same_reference registry st right left"
  by (auto simp: same_reference_identity)

lemma same_value_identity:
  "same_value registry st left right \<longleftrightarrow> identity_of exact_identity registry st left = identity_of exact_identity registry st right"
  using number_reference [of left right registry st] number_reference [of right left registry st] same_reference_sym [of registry st left right]
  unfolding same_value_def identity_of_cases Let_def
  by (auto simp: exact_identity_eq same_reference_identity reference_not_number reference_not_number [symmetric])

lemma same_value_zero_identity:
  "same_value_zero registry st left right \<longleftrightarrow> identity_of zero_identity registry st left = identity_of zero_identity registry st right"
  using number_reference [of left right registry st] number_reference [of right left registry st] same_reference_sym [of registry st left right]
  unfolding same_value_zero_def identity_of_cases Let_def
  by (auto simp: zero_identity_eq same_reference_identity reference_not_number reference_not_number [symmetric])

text \<open>A value of the language: no payload but the one its tag gives it.\<close>

definition language_value :: "oseo_value \<Rightarrow> bool" where
  "language_value v \<longleftrightarrow> is_number v \<or> is_heap v \<or> v = oseo_undefined \<or> v = oseo_null \<or> v = oseo_boolean False \<or> v = oseo_boolean True"

lemma boolean_bits: "oseo_boolean b AND 1 = (if b then 1 else 0)" "oseo_boolean True \<noteq> oseo_boolean False"
proof -
  show "oseo_boolean b AND 1 = (if b then 1 else 0)"
    by (cases b) (simp_all add: oseo_boolean_def tagged_def CANONICAL_NAN_def TAG_BOOLEAN_def PAYLOAD_MASK_def)
  show "oseo_boolean True \<noteq> oseo_boolean False"
    by (simp add: oseo_boolean_def tagged_def CANONICAL_NAN_def TAG_BOOLEAN_def PAYLOAD_MASK_def)
qed

lemma constant_tags [simp]:
  "tag_of oseo_undefined = TAG_UNDEFINED" "tag_of oseo_null = TAG_NULL" "tag_of (oseo_boolean b) = TAG_BOOLEAN"
  by (simp_all add: oseo_undefined_def oseo_null_def oseo_boolean_def tag_of_tagged tag_defs)

lemma no_body: "tag_of v \<noteq> TAG_HEAP \<Longrightarrow> body_at st v = None"
  by (simp add: body_at_def is_heap_def)

lemma same_reference_tags: "same_reference registry st left right \<Longrightarrow> tag_of left = tag_of right"
  by (cases "tag_of left = TAG_HEAP"; cases "tag_of right = TAG_HEAP")
    (auto simp: same_reference_def body_kinds no_body same_registered_symbol_def)

lemma strict_equal_reference:
  assumes "language_value left" "language_value right" "\<not> (is_number left \<and> is_number right)"
  shows "strict_equal_value registry st left right = same_reference registry st left right"
proof (cases "tag_of left = TAG_HEAP \<and> tag_of right = TAG_HEAP")
  case True
  then show ?thesis using assms(3) unfolding strict_equal_value_def same_reference_def Let_def
    by (auto simp: tag_defs string_equal_def dest: kind_excl)
next
  case False
  then have b: "body_at st left = None \<or> body_at st right = None" by (auto simp: no_body)
  then have k: "\<not> (is_bigint st left \<and> is_bigint st right)" "\<not> (is_string st left \<and> is_string st right)"
    "\<not> same_registered_symbol registry st left right" by (auto simp: body_kinds same_registered_symbol_def)
  have "strict_equal_value registry st left right = (left = right)" if t: "tag_of left = tag_of right"
  proof -
    have n: "\<not> is_heap left" "\<not> is_heap right" "\<not> is_number left" "\<not> is_number right"
      using assms(3) t False by (auto simp: is_heap_def is_number_def)
    then have l: "left = oseo_undefined \<or> left = oseo_null \<or> left = oseo_boolean False \<or> left = oseo_boolean True"
      and r: "right = oseo_undefined \<or> right = oseo_null \<or> right = oseo_boolean False \<or> right = oseo_boolean True"
      using assms(1,2) by (simp_all add: language_value_def)
    have "strict_equal_value registry st left right \<longleftrightarrow>
        tag_of left = TAG_UNDEFINED \<or> tag_of left = TAG_NULL \<or> tag_of left = TAG_BOOLEAN \<and> left AND 1 = right AND 1"
      using n k t unfolding strict_equal_value_def Let_def by (auto simp: is_heap_def tag_defs)
    with l r t show ?thesis by (elim disjE) (simp_all add: boolean_bits boolean_bits(2) [symmetric], simp_all add: tag_defs)
  qed
  moreover have "\<not> strict_equal_value registry st left right" if t: "tag_of left \<noteq> tag_of right"
    using assms(3) k t unfolding strict_equal_value_def Let_def by auto
  moreover have "same_reference registry st left right = (left = right)" using k by (simp only: same_reference_def if_False) simp
  ultimately show ?thesis by blast
qed

lemma strict_equal_zero:
  assumes "language_value left" "language_value right"
  shows "strict_equal_value registry st left right \<longleftrightarrow>
    same_value_zero registry st left right \<and> \<not> (is_number left \<and> isnan (number_value left))"
proof (cases "is_number left \<and> is_number right")
  case True
  then show ?thesis by (auto simp: strict_equal_value_def same_value_zero_def Let_def dbl_eq_def)
next
  case False
  then show ?thesis using strict_equal_reference [OF assms False, of registry st] number_reference [of left right registry st]
    by (auto simp: same_value_zero_def)
qed

lemma property_key_same:
  assumes "\<not> is_number left" "\<not> is_bigint st left"
  shows "property_key_equal registry st left right = same_value registry st left right"
  using assms by (auto simp: property_key_equal_def same_value_def same_reference_def)

end
