(* ===== verification/Keyed_Data.thy ===== *)
theory Keyed_Data
  imports Keyed_Log Same_Value Ephemeron_Set
begin

text \<open>
  The keyed collections: \<open>[[MapData]]\<close> and the methods of Map (\<open>runtime_map.c\<close>), \<open>[[SetData]]\<close> and the
  methods of Set (\<open>runtime_set.c\<close>), on objects of the heap. The records of an object are the list its
  body holds, up to \<open>entry_count\<close>; the capacity of its block and its counter of live records are kept
  beside the heap, by address. Growing the storage of a collection is a safepoint, and may collect.

  \<open>represent\<close> stands for \<open>context_representative\<close> of \<open>runtime_symbol.c\<close>, which gives the context's own
  symbol for an entry of the process-wide registry.
\<close>

subsection \<open>The context\<close>

record keyed_context = heap_state +
  registry_entry :: "u64 \<Rightarrow> u64"
  map_capacity :: "u64 \<Rightarrow> nat"
  map_live_count :: "u64 \<Rightarrow> nat"
  set_capacity :: "u64 \<Rightarrow> nat"
  set_size_of :: "u64 \<Rightarrow> nat"

type_synonym 'r keyed = "keyed_context \<Rightarrow> (rt_error + 'r) \<times> keyed_context"

text \<open>Writing the records of an object; \<open>update_exotic\<close> leaves every other field of it.\<close>

definition update_exotic :: "u64 \<Rightarrow> exotic \<Rightarrow> store \<Rightarrow> store" where
  "update_exotic a x st =
     (case st a of
        None \<Rightarrow> st
      | Some ob \<Rightarrow> (case body ob of HEAP_ORDINARY o' kind \<Rightarrow> st(a \<mapsto> ob\<lparr>body := HEAP_ORDINARY o' x\<rparr>) | _ \<Rightarrow> st))"

definition write_records :: "u64 \<Rightarrow> exotic \<Rightarrow> keyed_context \<Rightarrow> keyed_context" where
  "write_records a x c = c\<lparr>heap_store := update_exotic a x (heap_store c)\<rparr>"

definition incompatible :: "string \<Rightarrow> rt_error" where
  "incompatible method = LanguageError ERROR_TYPE (''Method '' @ method @ '' called on incompatible receiver.'')"

definition SIZE_OF_MAP_ENTRY :: nat where "SIZE_OF_MAP_ENTRY = 24"
definition SIZE_OF_SET_ELEMENT :: nat where "SIZE_OF_SET_ELEMENT = 16"

subsection \<open>Shared steps\<close>

text \<open>\<open>oseo_internal_local_symbol\<close>.\<close>

definition local_symbol :: "(u64 \<Rightarrow> oseo_value keyed) \<Rightarrow> oseo_value \<Rightarrow> oseo_value keyed" where
  "local_symbol represent v c =
     (if \<not> is_symbol (heap_store c) v then (Inr v, c)
      else if registry_entry c (heap_address v) = 0 then (Inr v, c)
      else represent (registry_entry c (heap_address v)) c)"

text \<open>The zeros of \<open>map_normalize_key\<close> and \<open>normalize_set_value\<close>.\<close>

definition normalize_key :: "oseo_value \<Rightarrow> oseo_value" where
  "normalize_key key = (if is_number key \<and> dbl_eq (number_value key) dbl_zero then oseo_number dbl_zero else key)"

text \<open>The new capacity of \<open>map_grow_entries\<close> and \<open>grow_set\<close>, records of
  \<open>record_bytes\<close> bytes.\<close>

definition next_capacity :: "nat \<Rightarrow> nat \<Rightarrow> nat option" where
  "next_capacity record_bytes old =
     (let capacity = (if old = 0 then 4 else (old * 2) mod 2 ^ 64)
      in if capacity < old \<or> capacity > SIZE_MAX div record_bytes then None else Some capacity)"

text \<open>The growth both share: the capacity afterwards.\<close>

definition grow_records :: "nat \<Rightarrow> string \<Rightarrow> nat \<Rightarrow> nat \<Rightarrow> nat \<Rightarrow> keyed_context \<Rightarrow> ((rt_error + nat) \<times> keyed_context) option" where
  "grow_records record_bytes what n count capacity c =
     (if count < capacity then Some (Inr capacity, c)
      else case next_capacity record_bytes capacity of
        None \<Rightarrow> Some (Inl (diagnostic (what @ '' storage is too large.'')), c)
      | Some new \<Rightarrow>
          map_option (\<lambda>(block, c).
              (if block = 0 then Inl (diagnostic (what @ '' storage allocation failed.'')) else Inr new, c))
            (allocate_heap_bytes n (new * record_bytes) c))"

subsection \<open>Map\<close>

definition map_at :: "store \<Rightarrow> oseo_value \<Rightarrow> map_entry list option" where
  "map_at st v = (case body_at st v of Some (HEAP_ORDINARY ob (HEAP_MAP es)) \<Rightarrow> Some es | _ \<Rightarrow> None)"

definition map_entry_find :: "keyed_context \<Rightarrow> map_entry list \<Rightarrow> oseo_value \<Rightarrow> nat option" where
  "map_entry_find c es key =
     first_index (\<lambda>e. map_live e \<and> same_value_zero (registry_entry c) (heap_store c) (map_key e) key) es"

definition map_grow_entries :: "nat \<Rightarrow> u64 \<Rightarrow> map_entry list \<Rightarrow> keyed_context \<Rightarrow> ((rt_error + unit) \<times> keyed_context) option" where
  "map_grow_entries n a es c =
     map_option (\<lambda>(r, c). case r of
         Inl err \<Rightarrow> (Inl err, c)
       | Inr capacity \<Rightarrow> (Inr (), c\<lparr>map_capacity := (map_capacity c)(a := capacity)\<rparr>))
       (grow_records SIZE_OF_MAP_ENTRY ''Map'' n (length es) (map_capacity c a) c)"

definition map_append_entry :: "(u64 \<Rightarrow> oseo_value keyed) \<Rightarrow> nat \<Rightarrow> oseo_value \<Rightarrow> oseo_value \<Rightarrow> oseo_value \<Rightarrow>
    keyed_context \<Rightarrow> ((rt_error + oseo_value) \<times> keyed_context) option" where
  "map_append_entry represent n receiver key v c =
     (let a = heap_address receiver
      in case local_symbol represent key (push_frame [receiver, key, v] c) of
        (Inl err, c) \<Rightarrow> Some (Inl err, pop_frame c)
      | (Inr key, c) \<Rightarrow>
          let c = push_frame [receiver, key, v] (pop_frame c)
          in case map_at (heap_store c) receiver of
            None \<Rightarrow> None
          | Some es \<Rightarrow>
              map_option (\<lambda>(grown, c). case grown of
                  Inl err \<Rightarrow> (Inl err, pop_frame c)
                | Inr _ \<Rightarrow>
                    let c = write_records a (HEAP_MAP (es @ [\<lparr>map_key = key, map_value = v, map_live = True\<rparr>])) c
                    in (Inr receiver, pop_frame (c\<lparr>map_live_count := (map_live_count c)(a := map_live_count c a + 1)\<rparr>)))
                (map_grow_entries n a es c))"

definition map_prototype_get :: "oseo_value \<Rightarrow> oseo_value \<Rightarrow> oseo_value keyed" where
  "map_prototype_get receiver key c =
     (case map_at (heap_store c) receiver of
        None \<Rightarrow> (Inl (incompatible ''Map.prototype.get''), c)
      | Some es \<Rightarrow>
          (case map_entry_find c es key of
             None \<Rightarrow> (Inr oseo_undefined, c)
           | Some index \<Rightarrow> (Inr (map_value (es ! index)), c)))"

definition map_prototype_has :: "oseo_value \<Rightarrow> oseo_value \<Rightarrow> oseo_value keyed" where
  "map_prototype_has receiver key c =
     (case map_at (heap_store c) receiver of
        None \<Rightarrow> (Inl (incompatible ''Map.prototype.has''), c)
      | Some es \<Rightarrow> (Inr (oseo_boolean (map_entry_find c es key \<noteq> None)), c))"

definition map_prototype_set :: "(u64 \<Rightarrow> oseo_value keyed) \<Rightarrow> nat \<Rightarrow> oseo_value \<Rightarrow> oseo_value \<Rightarrow> oseo_value \<Rightarrow>
    keyed_context \<Rightarrow> ((rt_error + oseo_value) \<times> keyed_context) option" where
  "map_prototype_set represent n receiver key v c =
     (case map_at (heap_store c) receiver of
        None \<Rightarrow> Some (Inl (incompatible ''Map.prototype.set''), c)
      | Some es \<Rightarrow>
          let normalized_key = normalize_key key
          in case map_entry_find c es normalized_key of
            Some index \<Rightarrow>
              Some (Inr receiver, write_records (heap_address receiver) (HEAP_MAP (es[index := (es ! index)\<lparr>map_value := v\<rparr>])) c)
          | None \<Rightarrow>
              map_option (\<lambda>(r, c). (case r of Inl err \<Rightarrow> Inl err | Inr _ \<Rightarrow> Inr receiver, c))
                (map_append_entry represent n receiver normalized_key v c))"

definition map_prototype_get_or_insert :: "(u64 \<Rightarrow> oseo_value keyed) \<Rightarrow> nat \<Rightarrow> oseo_value \<Rightarrow> oseo_value \<Rightarrow> oseo_value \<Rightarrow>
    keyed_context \<Rightarrow> ((rt_error + oseo_value) \<times> keyed_context) option" where
  "map_prototype_get_or_insert represent n receiver key v c =
     (case map_at (heap_store c) receiver of
        None \<Rightarrow> Some (Inl (incompatible ''Map.prototype.getOrInsert''), c)
      | Some es \<Rightarrow>
          let normalized_key = normalize_key key
          in case map_entry_find c es normalized_key of
            Some index \<Rightarrow> Some (Inr (map_value (es ! index)), c)
          | None \<Rightarrow>
              map_option (\<lambda>(r, c). (case r of Inl err \<Rightarrow> Inl err | Inr _ \<Rightarrow> Inr v, c))
                (map_append_entry represent n receiver normalized_key v c))"

definition dead_entry :: map_entry where
  "dead_entry = \<lparr>map_key = oseo_undefined, map_value = oseo_undefined, map_live = False\<rparr>"

definition map_prototype_delete :: "oseo_value \<Rightarrow> oseo_value \<Rightarrow> oseo_value keyed" where
  "map_prototype_delete receiver key c =
     (case map_at (heap_store c) receiver of
        None \<Rightarrow> (Inl (incompatible ''Map.prototype.delete''), c)
      | Some es \<Rightarrow>
          (case map_entry_find c es key of
             None \<Rightarrow> (Inr (oseo_boolean False), c)
           | Some index \<Rightarrow>
               let a = heap_address receiver; c = write_records a (HEAP_MAP (es[index := dead_entry])) c
               in (Inr (oseo_boolean True), c\<lparr>map_live_count := (map_live_count c)(a := map_live_count c a - 1)\<rparr>)))"

definition map_prototype_clear :: "oseo_value \<Rightarrow> oseo_value keyed" where
  "map_prototype_clear receiver c =
     (case map_at (heap_store c) receiver of
        None \<Rightarrow> (Inl (incompatible ''Map.prototype.clear''), c)
      | Some es \<Rightarrow>
          let a = heap_address receiver; c = write_records a (HEAP_MAP (map (\<lambda>e. dead_entry) es)) c
          in (Inr oseo_undefined, c\<lparr>map_live_count := (map_live_count c)(a := 0)\<rparr>))"

definition map_prototype_size :: "oseo_value \<Rightarrow> oseo_value keyed" where
  "map_prototype_size receiver c =
     (case map_at (heap_store c) receiver of
        None \<Rightarrow> (Inl (incompatible ''get Map.prototype.size''), c)
      | Some es \<Rightarrow> (Inr (oseo_number (double_of_nat (map_live_count c (heap_address receiver)))), c))"

subsection \<open>Set\<close>

definition set_at :: "store \<Rightarrow> oseo_value \<Rightarrow> set_element list option" where
  "set_at st v = (case body_at st v of Some (HEAP_ORDINARY ob (HEAP_SET es)) \<Rightarrow> Some es | _ \<Rightarrow> None)"

definition not_a_set :: rt_error where
  "not_a_set = LanguageError ERROR_TYPE ''Set method receiver is not a Set.''"

definition set_find :: "keyed_context \<Rightarrow> set_element list \<Rightarrow> oseo_value \<Rightarrow> nat option" where
  "set_find c es v =
     first_index (\<lambda>e. set_present e \<and> same_value_zero (registry_entry c) (heap_store c) (set_value e) v) es"

definition grow_set :: "nat \<Rightarrow> u64 \<Rightarrow> set_element list \<Rightarrow> keyed_context \<Rightarrow> ((rt_error + unit) \<times> keyed_context) option" where
  "grow_set n a es c =
     map_option (\<lambda>(r, c). case r of
         Inl err \<Rightarrow> (Inl err, c)
       | Inr capacity \<Rightarrow> (Inr (), c\<lparr>set_capacity := (set_capacity c)(a := capacity)\<rparr>))
       (grow_records SIZE_OF_SET_ELEMENT ''Set'' n (length es) (set_capacity c a) c)"

definition set_append :: "(u64 \<Rightarrow> oseo_value keyed) \<Rightarrow> nat \<Rightarrow> oseo_value \<Rightarrow> oseo_value \<Rightarrow>
    keyed_context \<Rightarrow> ((rt_error + oseo_value) \<times> keyed_context) option" where
  "set_append represent n receiver v c =
     (let a = heap_address receiver
      in case local_symbol represent v (push_frame [receiver, v] c) of
        (Inl err, c) \<Rightarrow> Some (Inl err, pop_frame c)
      | (Inr v, c) \<Rightarrow>
          let c = push_frame [receiver, v] (pop_frame c)
          in case set_at (heap_store c) receiver of
            None \<Rightarrow> None
          | Some es \<Rightarrow>
              map_option (\<lambda>(grown, c). case grown of
                  Inl err \<Rightarrow> (Inl err, pop_frame c)
                | Inr _ \<Rightarrow>
                    let c = write_records a (HEAP_SET (es @ [\<lparr>set_value = v, set_present = True\<rparr>])) c
                    in (Inr receiver, pop_frame (c\<lparr>set_size_of := (set_size_of c)(a := set_size_of c a + 1)\<rparr>)))
                (grow_set n a es c))"

definition set_add :: "(u64 \<Rightarrow> oseo_value keyed) \<Rightarrow> nat \<Rightarrow> oseo_value \<Rightarrow> oseo_value \<Rightarrow>
    keyed_context \<Rightarrow> ((rt_error + oseo_value) \<times> keyed_context) option" where
  "set_add represent n receiver v c =
     (case set_at (heap_store c) receiver of
        None \<Rightarrow> Some (Inl not_a_set, c)
      | Some es \<Rightarrow>
          let v = normalize_key v
          in if set_find c es v \<noteq> None then Some (Inr receiver, c)
             else set_append represent n receiver v c)"

definition dead_element :: set_element where
  "dead_element = \<lparr>set_value = oseo_undefined, set_present = False\<rparr>"

definition set_remove_at :: "u64 \<Rightarrow> set_element list \<Rightarrow> nat \<Rightarrow> keyed_context \<Rightarrow> keyed_context" where
  "set_remove_at a es index c =
     (let c = write_records a (HEAP_SET (es[index := dead_element])) c
      in c\<lparr>set_size_of := (set_size_of c)(a := set_size_of c a - 1)\<rparr>)"

definition set_delete :: "oseo_value \<Rightarrow> oseo_value \<Rightarrow> oseo_value keyed" where
  "set_delete receiver v c =
     (case set_at (heap_store c) receiver of
        None \<Rightarrow> (Inl not_a_set, c)
      | Some es \<Rightarrow>
          (case set_find c es v of
             None \<Rightarrow> (Inr (oseo_boolean False), c)
           | Some index \<Rightarrow> (Inr (oseo_boolean True), set_remove_at (heap_address receiver) es index c)))"

definition set_clear :: "oseo_value \<Rightarrow> oseo_value keyed" where
  "set_clear receiver c =
     (case set_at (heap_store c) receiver of
        None \<Rightarrow> (Inl not_a_set, c)
      | Some es \<Rightarrow>
          let a = heap_address receiver; c = write_records a (HEAP_SET (map (\<lambda>e. dead_element) es)) c
          in (Inr oseo_undefined, c\<lparr>set_size_of := (set_size_of c)(a := 0)\<rparr>))"

definition set_has :: "oseo_value \<Rightarrow> oseo_value \<Rightarrow> oseo_value keyed" where
  "set_has receiver v c =
     (case set_at (heap_store c) receiver of
        None \<Rightarrow> (Inl not_a_set, c)
      | Some es \<Rightarrow> (Inr (oseo_boolean (set_find c es v \<noteq> None)), c))"

definition set_size :: "oseo_value \<Rightarrow> oseo_value keyed" where
  "set_size receiver c =
     (case set_at (heap_store c) receiver of
        None \<Rightarrow> (Inl not_a_set, c)
      | Some es \<Rightarrow> (Inr (oseo_number (double_of_nat (set_size_of c (heap_address receiver)))), c))"

end
