(* ===== verification/Keyed_Heap.thy ===== *)
theory Keyed_Heap
  imports Keyed_Data
begin

text \<open>
  The keyed collections on the heap: writing the records of a collection keeps the invariant of the
  heap, the safepoint of a growing collection keeps every value it holds and their identities, and
  the operations of Map and Set implement those of insertion-ordered association lists.
\<close>

subsection \<open>Writing records keeps the heap\<close>

lemma ordinary_uncounted: "weak_record_count (HEAP_ORDINARY ob kind) = None"
  by (simp add: weak_record_count_def)

lemma exotic_views:
  fixes x :: exotic
  assumes a: "bodies st a = Some (HEAP_ORDINARY ob kind)"
  defines "st' \<equiv> update_exotic a x st"
  shows "bodies st' = (bodies st)(a \<mapsto> HEAP_ORDINARY ob x)"
    and "table_of st' = table_of st" "entry_of st' = entry_of st" "cell_of st' = cell_of st" "registry_of st' = registry_of st"
    and "dom st' = dom st" "string_units st' = string_units st" "clean st' = clean st"
    and "kind_count st' = kind_count st"
proof -
  obtain ob' where ob': "st a = Some ob'" "body ob' = HEAP_ORDINARY ob kind" using a by (auto simp: bodies_def)
  then have st': "st' = st(a \<mapsto> ob'\<lparr>body := HEAP_ORDINARY ob x\<rparr>)" by (simp add: st'_def update_exotic_def)
  show b: "bodies st' = (bodies st)(a \<mapsto> HEAP_ORDINARY ob x)" by (simp add: st' bodies_def fun_eq_iff)
  show "table_of st' = table_of st" "entry_of st' = entry_of st" "cell_of st' = cell_of st" "registry_of st' = registry_of st"
    using a by (simp_all add: fun_eq_iff kind_views b)
  show "dom st' = dom st" using ob' by (auto simp: st')
  show "string_units st' = string_units st" using ob' by (simp add: fun_eq_iff st' string_units_def)
  have "is_marked st' = is_marked st" "pending_of st' = pending_of st"
    using ob' by (simp_all add: fun_eq_iff st' is_marked_def pending_of_def)
  then show "clean st' = clean st" by (simp only: clean_def)
  show "kind_count st' = kind_count st"
  proof (intro ext)
    fix as k
    show "kind_count st' as k = kind_count st as k" unfolding kind_count_def
      by (intro arg_cong [where f = length] filter_cong) (use ob' in \<open>simp_all add: st' ordinary_uncounted\<close>)
  qed
qed

lemma exotic_heap_ok:
  assumes ok: "heap_ok h E C Q" and a: "bodies (heap_store h) a = Some (HEAP_ORDINARY ob kind)"
    and v: "\<forall>v \<in> set (exotic_edges x). program_value (heap_store h) v"
    and h': "heap_store h' = update_exotic a x (heap_store h)" "heap_objects h' = heap_objects h" "heap_roots h' = heap_roots h"
      "heap_queue h' = heap_queue h" "heap_strings h' = heap_strings h" "weak_counts h' = weak_counts h"
  shows "heap_ok h' E C Q"
proof -
  let ?st = "heap_store h"
  note k = ok [unfolded heap_ok_def store_ok_def]
  note w = exotic_views [OF a, of x]
  let ?st' = "update_exotic a x ?st"
  have i: "is_table ?st' = is_table ?st" "is_entry ?st' = is_entry ?st" by (simp_all add: fun_eq_iff is_table_def is_entry_def w)
  have int: "internal ?st' = internal ?st" by (simp add: fun_eq_iff internal_def w i)
  have prog: "program_value ?st' = program_value ?st" by (simp add: fun_eq_iff program_value_def w int)
  have q: "queue_links ?st' = queue_links ?st" "record_of ?st' = record_of ?st" "waiting ?st' = waiting ?st"
    by (simp_all add: fun_eq_iff queue_links_def record_of_def waiting_def w)
  have l: "cell_links ?st' = cell_links ?st" by (simp add: fun_eq_iff cell_links_def w)
  have tok: "table_ok ?st' = table_ok ?st" by (simp add: fun_eq_iff table_ok_def w)
  have held: "program_value ?st u" if b: "bodies ?st' c = Some b" "u \<in> set (held b)" for c b u
  proof (cases "c = a")
    case True
    then have "b = HEAP_ORDINARY ob x" using b(1) by (simp add: w(1))
    then have "u \<in> set (ordinary_edges ob) \<union> set (exotic_edges x)" using b(2) by simp
    moreover have "program_value ?st u" if "u \<in> set (ordinary_edges ob)" for u using k a that by force
    ultimately show ?thesis using v by blast
  next
    case False
    then show ?thesis using b k by (auto simp: w(1))
  qed
  show ?thesis unfolding heap_ok_def store_ok_def h' prog w
  proof (intro conjI)
    show "weak_ok ?st' E" using k a unfolding weak_ok_def i tok w by (auto split: if_splits)
    show "entries_linked ?st' E" using k by (simp add: entries_linked_def w i)
    show "queue_ok ?st' (heap_queue h) Q" using k by (simp add: queue_ok_def q)
    have "registries_ok ?st C" using k by blast
    from registries_ok_cong [OF this w(5) l] show "registries_ok ?st' C" by (simp only: w)
    show "cells_linked ?st' Q C" using k by (simp add: cells_linked_def cell_ok_def w)
    show "\<forall>c b u. ((bodies ?st)(a \<mapsto> HEAP_ORDINARY ob x)) c = Some b \<longrightarrow> u \<in> set (held b) \<longrightarrow> program_value ?st u"
      using held unfolding w(1) by blast
  qed (use k in blast)+
qed

subsection \<open>Values a collection may hold\<close>

text \<open>Objects, strings, symbols and BigInts, not the internal records of the heap.\<close>

definition storable :: "store \<Rightarrow> oseo_value \<Rightarrow> bool" where
  "storable st v \<longleftrightarrow> (is_heap v \<longrightarrow> (\<exists>b. bodies st (heap_address v) = Some b \<and> strong_body b))"

lemma storable_program: "storable st v \<Longrightarrow> program_value st v"
proof -
  have "\<not> internal st a" if "bodies st a = Some b" "strong_body b" for a b
    using that by (auto simp: internal_def is_entry_def kind_views strong_body_def weak_record_count_def split: heap_body.splits)
  then show "storable st v \<Longrightarrow> program_value st v" by (auto simp: storable_def program_value_def dest: bodies_dom)
qed

lemma body_at_bodies: "body_at st v = (if is_heap v then bodies st (heap_address v) else None)"
  by (simp add: body_at_def bodies_def)

lemma identity_by_body: "body_at st' v = body_at st v \<Longrightarrow> identity_of num registry st' v = identity_of num registry st v"
  by (simp add: identity_of_cases)

lemma ordinary_strong: "strong_body (HEAP_ORDINARY ob kind)"
  by (simp add: strong_body_def ordinary_uncounted)

lemma exotic_identity:
  assumes "bodies st a = Some (HEAP_ORDINARY ob kind)"
  shows "identity_of num registry (update_exotic a x st) v = identity_of num registry st v"
    and "storable (update_exotic a x st) v = storable st v"
proof -
  note w = exotic_views(1) [OF assms, of x]
  show "identity_of num registry (update_exotic a x st) v = identity_of num registry st v"
  proof (cases "is_heap v \<and> heap_address v = a")
    case True
    then show ?thesis using assms by (simp add: identity_of_cases body_at_bodies w reference_identity_other)
  next
    case False
    then show ?thesis by (intro identity_by_body) (auto simp: body_at_bodies w)
  qed
  show "storable (update_exotic a x st) v = storable st v"
    using assms by (auto simp: storable_def w ordinary_strong)
qed

subsection \<open>What a safepoint keeps\<close>

definition kept_by_safepoint :: "keyed_context \<Rightarrow> keyed_context \<Rightarrow> bool" where
  "kept_by_safepoint c c' \<longleftrightarrow>
     heap_roots c' = heap_roots c \<and> registry_entry c' = registry_entry c \<and> never_refuses c' = never_refuses c \<and>
     map_capacity c' = map_capacity c \<and> map_live_count c' = map_live_count c \<and>
     set_capacity c' = set_capacity c \<and> set_size_of c' = set_size_of c \<and>
     length (heap_objects c') \<le> length (heap_objects c) \<and>
     (\<forall>a b. live c a \<longrightarrow> bodies (heap_store c) a = Some b \<longrightarrow> strong_body b \<longrightarrow> bodies (heap_store c') a = Some b)"

lemma oseo_collect_keyed:
  fixes h :: keyed_context
  assumes "oseo_collect n h = Some h'"
  shows "registry_entry h' = registry_entry h" "map_capacity h' = map_capacity h" "map_live_count h' = map_live_count h"
    "set_capacity h' = set_capacity h" "set_size_of h' = set_size_of h"
  using assms by (auto simp: oseo_collect_def Let_def split: option.splits prod.splits if_splits)

lemma allocate_bytes_keyed:
  fixes h :: keyed_context
  shows "registry_entry (snd (allocate_bytes k h)) = registry_entry h" "map_capacity (snd (allocate_bytes k h)) = map_capacity h"
    "map_live_count (snd (allocate_bytes k h)) = map_live_count h" "set_capacity (snd (allocate_bytes k h)) = set_capacity h"
    "set_size_of (snd (allocate_bytes k h)) = set_size_of h" "never_refuses (snd (allocate_bytes k h)) = never_refuses h"
  by (simp_all add: allocate_bytes_def Let_def never_refuses_def)

lemma heap_objects_card:
  assumes "heap_ok h E C Q"
  shows "length (heap_objects h) = card (dom (heap_store h))" "finite (dom (heap_store h))"
proof -
  have "dom (heap_store h) = set (heap_objects h)" using assms by (simp add: heap_ok_def)
  moreover have "distinct (heap_objects h)" using assms by (simp add: heap_ok_def)
  ultimately show "length (heap_objects h) = card (dom (heap_store h))" "finite (dom (heap_store h))" by (simp_all add: distinct_card)
qed

lemma safepoint_keeps:
  assumes ok: "heap_ok c E C Q" and n: "length (heap_objects c) \<le> n"
  shows "\<exists>block c' E' C' Q'. allocate_heap_bytes n bytes c = Some (block, c') \<and> heap_ok c' E' C' Q' \<and>
    kept_by_safepoint c c' \<and> (never_refuses c \<longrightarrow> block \<noteq> 0)"
proof -
  obtain block c' E' C' Q' where al: "allocate_heap_bytes n bytes c = Some (block, c')" and ok': "heap_ok c' E' C' Q'"
    and sp: "safepoint c Q c' Q'" and r: "heap_roots c' = heap_roots c" and d: "dom (heap_store c') \<subseteq> dom (heap_store c)"
    using allocate_heap_bytes_effect [OF ok n, of bytes] by blast
  have "length (heap_objects c') \<le> length (heap_objects c)"
  proof -
    have "card (dom (heap_store c')) \<le> card (dom (heap_store c))"
      by (rule card_mono [OF heap_objects_card(2) [OF ok] d])
    then show ?thesis by (simp only: heap_objects_card(1) [OF ok] heap_objects_card(1) [OF ok'])
  qed
  moreover have "bodies (heap_store c') a = Some b" if "live c a" "bodies (heap_store c) a = Some b" "strong_body b" for a b
  proof (cases "collect_every_safepoint c")
    case True
    then have "collected c Q c' Q'" using sp by (simp add: safepoint_def)
    then have "\<forall>a b. live c a \<longrightarrow> bodies (heap_store c) a = Some b \<longrightarrow> strong_body b \<longrightarrow> bodies (heap_store c') a = Some b"
      unfolding collected_def by (elim conjE)
    then show ?thesis using that by blast
  next
    case False
    then show ?thesis using sp that by (simp add: safepoint_def)
  qed
  moreover obtain c1 where c1: "(if collect_every_safepoint c then oseo_collect n c else Some c) = Some c1" "c' = snd (allocate_bytes bytes c1)"
    using al by (auto simp: allocate_heap_bytes_def)
  have "registry_entry c1 = registry_entry c \<and> map_capacity c1 = map_capacity c \<and> map_live_count c1 = map_live_count c \<and>
      set_capacity c1 = set_capacity c \<and> set_size_of c1 = set_size_of c \<and> never_refuses c1 = never_refuses c"
    using c1(1) oseo_collect_keyed [of n c c1] oseo_collect_host [of n c c1] by (simp split: if_splits)
  ultimately have "kept_by_safepoint c c'" using r unfolding kept_by_safepoint_def by (simp add: c1(2) allocate_bytes_keyed)
  then show ?thesis using al ok' allocate_heap_bytes_host [OF al] by blast
qed

lemma kept_storable:
  assumes "kept_by_safepoint c c'" "storable (heap_store c) v" "is_heap v \<longrightarrow> live_value c v"
  shows "storable (heap_store c') v"
    and "identity_of num (registry_entry c') (heap_store c') v = identity_of num (registry_entry c) (heap_store c) v"
proof -
  have b: "is_heap v \<Longrightarrow> \<exists>b. bodies (heap_store c) (heap_address v) = Some b \<and> bodies (heap_store c') (heap_address v) = Some b \<and> strong_body b"
    using assms unfolding kept_by_safepoint_def storable_def live_value_def by blast
  then show "storable (heap_store c') v" unfolding storable_def by blast
  have r: "registry_entry c' = registry_entry c" using assms(1) unfolding kept_by_safepoint_def by blast
  have same: "body_at (heap_store c') v = body_at (heap_store c) v" using b by (auto simp: body_at_bodies)
  show "identity_of num (registry_entry c') (heap_store c') v = identity_of num (registry_entry c) (heap_store c) v"
    by (simp only: r identity_by_body [OF same])
qed

lemma rooted_live: "v \<in> set (early_roots (heap_roots c)) \<Longrightarrow> is_heap v \<Longrightarrow> live_value c v"
  unfolding live_value_def live_def by (auto intro!: reachable.root simp: refs_mem root_values_def)

lemma held_live:
  assumes "live c a" "bodies (heap_store c) a = Some (HEAP_ORDINARY ob kind)" "v \<in> set (exotic_edges kind)" "is_heap v"
  shows "live_value c v"
  using assms unfolding live_value_def live_def by (auto intro!: reachable.edge [of _ _ a] simp: refs_mem)

subsection \<open>Keys\<close>

abbreviation key_same :: "keyed_context \<Rightarrow> oseo_value \<Rightarrow> oseo_value \<Rightarrow> bool" where
  "key_same c \<equiv> same_value_zero (registry_entry c) (heap_store c)"

definition map_view :: "map_entry \<Rightarrow> oseo_value \<times> oseo_value" where
  "map_view e = (map_key e, map_value e)"

definition set_view :: "set_element \<Rightarrow> oseo_value \<times> unit" where
  "set_view e = (set_value e, ())"

interpretation map_log: keyed_log "same_value_zero registry st" map_view map_live for registry st
  by unfold_locales (auto simp: same_value_zero_identity)

interpretation set_log: keyed_log "same_value_zero registry st" set_view set_present for registry st
  by unfold_locales (auto simp: same_value_zero_identity)

lemma find_by_log:
  "map_entry_find c es key = first_index (\<lambda>e. map_live e \<and> key_same c (fst (map_view e)) key) es"
  "set_find c us key = first_index (\<lambda>e. set_present e \<and> key_same c (fst (set_view e)) key) us"
  by (simp_all add: map_entry_find_def set_find_def map_view_def set_view_def)

text \<open>The keys of a collection: apart, storable and normalized.\<close>

definition keys_ok :: "keyed_context \<Rightarrow> oseo_value list \<Rightarrow> bool" where
  "keys_ok c ks \<longleftrightarrow> apart (key_same c) ks \<and> (\<forall>k \<in> set ks. storable (heap_store c) k \<and> normalize_key k = k)"

definition map_ok :: "keyed_context \<Rightarrow> u64 \<Rightarrow> map_entry list \<Rightarrow> bool" where
  "map_ok c a es \<longleftrightarrow>
     map_at (heap_store c) (heap_value a) = Some es \<and> keys_ok c (map fst (log_content map_view map_live es)) \<and>
     map_live_count c a = length (log_content map_view map_live es) \<and> length es \<le> map_capacity c a \<and>
     (\<forall>e \<in> set es. \<not> map_live e \<longrightarrow> e = dead_entry)"

definition set_ok :: "keyed_context \<Rightarrow> u64 \<Rightarrow> set_element list \<Rightarrow> bool" where
  "set_ok c a es \<longleftrightarrow>
     set_at (heap_store c) (heap_value a) = Some es \<and> keys_ok c (map fst (log_content set_view set_present es)) \<and>
     set_size_of c a = length (log_content set_view set_present es) \<and> length es \<le> set_capacity c a \<and>
     (\<forall>e \<in> set es. \<not> set_present e \<longrightarrow> e = dead_element)"

lemma zero_value: "number_value (oseo_number dbl_zero) = dbl_zero" "is_number (oseo_number dbl_zero)" "\<not> is_heap (oseo_number dbl_zero)"
proof -
  show "number_value (oseo_number dbl_zero) = dbl_zero" by (simp add: number_round_trip(1))
  show n: "is_number (oseo_number dbl_zero)" by (rule number_round_trip(2))
  then show "\<not> is_heap (oseo_number dbl_zero)" by (auto simp: is_number_def is_heap_def tag_defs)
qed

lemma normalize_same: "key_same c (normalize_key k) k"
  and normalize_idem: "normalize_key (normalize_key k) = normalize_key k"
  and normalize_heap: "is_heap k \<Longrightarrow> normalize_key k = k"
proof -
  note z = zero_value
  show "key_same c (normalize_key k) k"
    using z by (auto simp: normalize_key_def same_value_zero_def Let_def dbl_eq_def same_reference_identity)
  show "normalize_key (normalize_key k) = normalize_key k" using z by (simp add: normalize_key_def)
  show "is_heap k \<Longrightarrow> normalize_key k = k" by (auto simp: normalize_key_def is_heap_def is_number_def tag_defs)
qed

lemma storable_normalize: "storable st k \<Longrightarrow> storable st (normalize_key k)"
  by (simp add: normalize_key_def storable_def zero_value)

subsection \<open>Steps that change one collection\<close>

text \<open>From \<open>c\<close> to \<open>c'\<close> nothing that was live changed but the records of the object at \<open>a\<close> and its
  counters; objects that were not live may be gone.\<close>

definition same_counts :: "u64 \<Rightarrow> keyed_context \<Rightarrow> keyed_context \<Rightarrow> bool" where
  "same_counts b c c' \<longleftrightarrow> map_capacity c' b = map_capacity c b \<and> map_live_count c' b = map_live_count c b \<and>
     set_capacity c' b = set_capacity c b \<and> set_size_of c' b = set_size_of c b"

definition body_evolves :: "bool \<Rightarrow> heap_body \<Rightarrow> heap_body option \<Rightarrow> bool" where
  "body_evolves changed b b' \<longleftrightarrow> b' = Some b \<or> changed \<and> (\<exists>ob kind kind'. b = HEAP_ORDINARY ob kind \<and> b' = Some (HEAP_ORDINARY ob kind'))"

definition changes_only :: "u64 \<Rightarrow> keyed_context \<Rightarrow> keyed_context \<Rightarrow> bool" where
  "changes_only a c c' \<longleftrightarrow>
     heap_roots c' = heap_roots c \<and> registry_entry c' = registry_entry c \<and> never_refuses c' = never_refuses c \<and>
     length (heap_objects c') \<le> length (heap_objects c) \<and> (\<forall>b. b \<noteq> a \<longrightarrow> same_counts b c c') \<and>
     (\<forall>b body. live c b \<longrightarrow> bodies (heap_store c) b = Some body \<longrightarrow> strong_body body \<longrightarrow>
        body_evolves (b = a) body (bodies (heap_store c') b))"

lemma evolves_identity:
  assumes "body_evolves changed b b'" "bodies st (heap_address v) = Some b" "bodies st' (heap_address v) = b'" "is_heap v" "strong_body b"
  shows "identity_of num registry st' v = identity_of num registry st v" "storable st' v"
proof -
  consider "b' = Some b" | ob kind kind' where "b = HEAP_ORDINARY ob kind" "b' = Some (HEAP_ORDINARY ob kind')"
    using assms(1) by (auto simp: body_evolves_def)
  then show "identity_of num registry st' v = identity_of num registry st v" "storable st' v"
    by (cases; use assms in \<open>simp add: identity_of_cases body_at_bodies reference_identity_other storable_def ordinary_strong\<close>)+
qed

lemma changes_storable:
  assumes "changes_only a c c'" "storable (heap_store c) v" "is_heap v \<longrightarrow> live_value c v"
  shows "storable (heap_store c') v"
    and "identity_of num (registry_entry c') (heap_store c') v = identity_of num (registry_entry c) (heap_store c) v"
proof -
  have r: "registry_entry c' = registry_entry c" using assms(1) unfolding changes_only_def by blast
  have "storable (heap_store c') v \<and> identity_of num reg (heap_store c') v = identity_of num reg (heap_store c) v" for reg
  proof (cases "is_heap v")
    case False
    then show ?thesis by (simp add: storable_def identity_of_cases body_at_bodies)
  next
    case True
    then obtain b where "bodies (heap_store c) (heap_address v) = Some b" "strong_body b"
      "body_evolves (heap_address v = a) b (bodies (heap_store c') (heap_address v))"
      using assms unfolding changes_only_def storable_def live_value_def by blast
    then show ?thesis using evolves_identity [OF _ _ refl True] by blast
  qed
  then show "storable (heap_store c') v"
    and "identity_of num (registry_entry c') (heap_store c') v = identity_of num (registry_entry c) (heap_store c) v"
    unfolding r by blast+
qed

text \<open>The identities of values that stay do not change.\<close>

lemma changes_same:
  assumes "changes_only a c c'" "storable (heap_store c) v" "is_heap v \<longrightarrow> live_value c v"
    "storable (heap_store c) w" "is_heap w \<longrightarrow> live_value c w"
  shows "key_same c' v w = key_same c v w"
  unfolding same_value_zero_identity by (simp only: changes_storable(2) [OF assms(1,2,3)] changes_storable(2) [OF assms(1,4,5)])

lemma keys_ok_changes:
  assumes "changes_only a c c'" "keys_ok c ks" "\<forall>k \<in> set ks. is_heap k \<longrightarrow> live_value c k"
  shows "keys_ok c' ks"
proof -
  have "apart (key_same c') ks = apart (key_same c) ks"
    by (rule apart_cong) (use assms changes_same [OF assms(1)] in \<open>auto simp: keys_ok_def\<close>)
  then show ?thesis using assms changes_storable(1) [OF assms(1)] by (auto simp: keys_ok_def)
qed

lemma reachable_more_roots: "reachable bs R a \<Longrightarrow> R \<subseteq> R' \<Longrightarrow> reachable bs R' a"
  by (induction rule: reachable.induct) (blast intro: reachable.intros)+

lemma push_live: "live c a \<Longrightarrow> live (push_frame vs c) a"
proof -
  have "refs (root_values c) \<subseteq> refs (root_values (push_frame vs c))"
    by (auto simp: refs_mem root_values_def frame_roots)
  then show "live c a \<Longrightarrow> live (push_frame vs c) a" unfolding live_def frame_fields using reachable_more_roots by blast
qed

lemma pushed_live: "v \<in> set vs \<Longrightarrow> is_heap v \<Longrightarrow> live_value (push_frame vs c) v"
  by (rule rooted_live) (simp_all add: frame_roots)

lemma frame_keyed [simp]:
  "registry_entry (push_frame vs c) = registry_entry c" "map_capacity (push_frame vs c) = map_capacity c"
  "map_live_count (push_frame vs c) = map_live_count c" "set_capacity (push_frame vs c) = set_capacity c"
  "set_size_of (push_frame vs c) = set_size_of c"
  "registry_entry (pop_frame c) = registry_entry c" "map_capacity (pop_frame c) = map_capacity c"
  "map_live_count (pop_frame c) = map_live_count c" "set_capacity (pop_frame c) = set_capacity c"
  "set_size_of (pop_frame c) = set_size_of c" "never_refuses (pop_frame c) = never_refuses c"
  by (simp_all add: push_frame_def pop_frame_def never_refuses_def)

lemma pop_push [simp]: "pop_frame (push_frame vs c) = c"
  by (simp add: push_frame_def pop_frame_def)

lemma records_fields [simp]:
  "heap_store (write_records a x c) = update_exotic a x (heap_store c)"
  "heap_objects (write_records a x c) = heap_objects c" "heap_roots (write_records a x c) = heap_roots c"
  "heap_queue (write_records a x c) = heap_queue c" "heap_strings (write_records a x c) = heap_strings c"
  "weak_counts (write_records a x c) = weak_counts c" "registry_entry (write_records a x c) = registry_entry c"
  "map_capacity (write_records a x c) = map_capacity c" "map_live_count (write_records a x c) = map_live_count c"
  "set_capacity (write_records a x c) = set_capacity c" "set_size_of (write_records a x c) = set_size_of c"
  "never_refuses (write_records a x c) = never_refuses c"
  by (simp_all add: write_records_def never_refuses_def)

lemma kept_changes: "kept_by_safepoint c c' \<Longrightarrow> changes_only a c c'"
  unfolding kept_by_safepoint_def changes_only_def same_counts_def body_evolves_def by simp

lemma changes_framed:
  assumes "changes_only a (push_frame vs c) c'"
  shows "changes_only a c (pop_frame c')"
proof -
  note d = assms [unfolded changes_only_def frame_fields frame_keyed never_refuses_push]
  have "heap_roots (pop_frame c') = heap_roots c" using d pop_push_roots by blast
  then show ?thesis using d push_live [of c _ vs] unfolding changes_only_def same_counts_def by simp
qed

lemma changes_capacity:
  assumes "changes_only a c c'" "heap_roots c'' = heap_roots c'" "registry_entry c'' = registry_entry c'"
    "never_refuses c'' = never_refuses c'" "heap_objects c'' = heap_objects c'" "\<And>b. b \<noteq> a \<Longrightarrow> same_counts b c' c''"
    "heap_store c'' = heap_store c'"
  shows "changes_only a c c''"
  using assms unfolding changes_only_def same_counts_def by simp

lemma changes_write:
  assumes "changes_only a c c'" "bodies (heap_store c') a = Some (HEAP_ORDINARY ob kind)" "heap_roots c'' = heap_roots c'"
    "registry_entry c'' = registry_entry c'" "never_refuses c'' = never_refuses c'" "heap_objects c'' = heap_objects c'"
    "\<And>b. b \<noteq> a \<Longrightarrow> same_counts b c' c''" "heap_store c'' = update_exotic a x (heap_store c')"
  shows "changes_only a c c''"
proof -
  note w = exotic_views(1) [OF assms(2), of x]
  have "body_evolves (b = a) body (bodies (heap_store c'') b)" if "body_evolves (b = a) body (bodies (heap_store c') b)" for b body
    using that assms(2) by (cases "b = a") (auto simp: body_evolves_def assms(8) w)
  then show ?thesis using assms(1,3-7) unfolding changes_only_def same_counts_def by simp
qed

lemma next_capacity_grows: "next_capacity record_bytes old = Some new \<Longrightarrow> old < new"
proof -
  assume a: "next_capacity record_bytes old = Some new"
  show "old < new"
  proof (cases "old = 0")
    case False
    then have n: "new = old * 2 mod 2 ^ 64" "old \<le> new" using a by (auto simp: next_capacity_def Let_def split: if_splits)
    have "new < 2 ^ 64" unfolding n(1) by (rule mod_less_divisor) simp
    then have "old < 2 ^ 64" using n(2) by (rule le_less_trans [rotated])
    then have "old * 2 mod 2 ^ 64 = (if old * 2 < 2 ^ 64 then old * 2 else old * 2 - 2 ^ 64)"
      by (auto simp: mod_if le_mod_geq)
    then show ?thesis using n False \<open>old < 2 ^ 64\<close> by (auto split: if_splits)
  qed (use a in \<open>auto simp: next_capacity_def split: if_splits\<close>)
qed

definition storage_refused :: "string \<Rightarrow> keyed_context \<Rightarrow> rt_error \<Rightarrow> bool" where
  "storage_refused what c e \<longleftrightarrow>
     e = diagnostic (what @ '' storage is too large.'') \<or> e = diagnostic (what @ '' storage allocation failed.'') \<and> \<not> never_refuses c"

lemma grow_records_effect:
  assumes ok: "heap_ok c E C Q" and n: "length (heap_objects c) \<le> n" and len: "count \<le> capacity"
  shows "\<exists>r c' E' C' Q'. grow_records record_bytes what n count capacity c = Some (r, c') \<and> heap_ok c' E' C' Q' \<and>
    kept_by_safepoint c c' \<and> (case r of Inl e \<Rightarrow> storage_refused what c e | Inr new \<Rightarrow> count < new)"
proof -
  have here: "kept_by_safepoint c c" by (simp add: kept_by_safepoint_def)
  consider "count < capacity" | "\<not> count < capacity" "next_capacity record_bytes capacity = None"
    | new where "\<not> count < capacity" "next_capacity record_bytes capacity = Some new" by fastforce
  then show ?thesis
  proof cases
    case 1
    then have "grow_records record_bytes what n count capacity c = Some (Inr capacity, c)" by (simp add: grow_records_def)
    with ok here 1 show ?thesis by fastforce
  next
    case 2
    then have "grow_records record_bytes what n count capacity c = Some (Inl (diagnostic (what @ '' storage is too large.'')), c)"
      by (simp add: grow_records_def)
    with ok here show ?thesis by (fastforce simp: storage_refused_def)
  next
    case 3
    obtain block c' E' C' Q' where al: "allocate_heap_bytes n (new * record_bytes) c = Some (block, c')" and ok': "heap_ok c' E' C' Q'"
      and kp: "kept_by_safepoint c c'" "never_refuses c \<longrightarrow> block \<noteq> 0" using safepoint_keeps [OF ok n] by blast
    have "grow_records record_bytes what n count capacity c =
        Some (if block = 0 then Inl (diagnostic (what @ '' storage allocation failed.'')) else Inr new, c')"
      using 3 by (simp add: grow_records_def al)
    with ok' kp len next_capacity_grows [OF 3(2)] show ?thesis by (fastforce simp: storage_refused_def)
  qed
qed

lemma counts_never [simp]:
  "never_refuses (c\<lparr>map_live_count := f\<rparr>) = never_refuses c" "never_refuses (c\<lparr>set_size_of := f\<rparr>) = never_refuses c"
  "never_refuses (c\<lparr>map_capacity := f\<rparr>) = never_refuses c" "never_refuses (c\<lparr>set_capacity := f\<rparr>) = never_refuses c"
  for c :: keyed_context
  by (simp_all add: never_refuses_def)

subsection \<open>Registered symbols\<close>

text \<open>The context has its own symbol for the entry of \<open>key\<close>, when \<open>key\<close> is a registered symbol.\<close>

definition represented :: "(u64 \<Rightarrow> oseo_value keyed) \<Rightarrow> keyed_context \<Rightarrow> oseo_value \<Rightarrow> bool" where
  "represented represent c key \<longleftrightarrow>
     (is_symbol (heap_store c) key \<longrightarrow> registry_entry c (heap_address key) \<noteq> 0 \<longrightarrow>
       (\<exists>w. is_symbol (heap_store c) w \<and> registry_entry c (heap_address w) = registry_entry c (heap_address key) \<and>
         (\<forall>vs. represent (registry_entry c (heap_address key)) (push_frame vs c) = (Inr w, push_frame vs c))))"

lemma symbol_storable: "is_symbol st w \<Longrightarrow> is_heap w \<and> storable st w"
  by (auto simp: is_symbol_def body_at_bodies storable_def strong_body_def weak_record_count_def split: if_splits option.splits heap_body.splits)

lemma local_symbol_represented:
  assumes "represented represent c key" "storable (heap_store c) key" "normalize_key key = key"
  obtains w where "local_symbol represent key (push_frame vs c) = (Inr w, push_frame vs c)" "key_same c w key"
    "storable (heap_store c) w" "normalize_key w = w"
proof (cases "is_symbol (heap_store c) key \<and> registry_entry c (heap_address key) \<noteq> 0")
  case True
  then obtain w where w: "is_symbol (heap_store c) w" "registry_entry c (heap_address w) = registry_entry c (heap_address key)"
    "represent (registry_entry c (heap_address key)) (push_frame vs c) = (Inr w, push_frame vs c)"
    using assms(1) unfolding represented_def by blast
  have s: "same_registered_symbol (registry_entry c) (heap_store c) w key" using True w by (simp add: same_registered_symbol_def)
  have "\<not> is_number w \<and> \<not> is_bigint (heap_store c) w \<and> \<not> is_string (heap_store c) w"
    using kind_excl(2-4) w(1) by blast
  then have "key_same c w key" using s by (auto simp: same_value_zero_def same_reference_def)
  then show ?thesis using that [of w] w True symbol_storable [OF w(1)] normalize_heap by (simp add: local_symbol_def)
next
  case False
  then show ?thesis using that [of key] assms(2,3) by (auto simp: local_symbol_def map_log.same_refl)
qed

subsection \<open>Appending a record\<close>

lemma map_at_bodies: "a \<le> PAYLOAD_MASK \<Longrightarrow>
  map_at st (heap_value a) = Some es \<longleftrightarrow> (\<exists>ob. bodies st a = Some (HEAP_ORDINARY ob (HEAP_MAP es)))"
  by (simp add: map_at_def body_at_bodies split: option.split heap_body.split exotic.split)

lemma set_at_bodies: "a \<le> PAYLOAD_MASK \<Longrightarrow>
  set_at st (heap_value a) = Some es \<longleftrightarrow> (\<exists>ob. bodies st a = Some (HEAP_ORDINARY ob (HEAP_SET es)))"
  by (simp add: set_at_def body_at_bodies split: option.split heap_body.split exotic.split)

lemma heap_address_bound: "heap_ok h E C Q \<Longrightarrow> bodies (heap_store h) a = Some b \<Longrightarrow> a \<le> PAYLOAD_MASK"
  by (auto simp: heap_ok_def store_ok_def dest: bodies_dom)

lemma heap_held: "heap_ok h E C Q \<Longrightarrow> bodies (heap_store h) a = Some (HEAP_ORDINARY ob kind) \<Longrightarrow> v \<in> set (exotic_edges kind) \<Longrightarrow>
  program_value (heap_store h) v"
  unfolding heap_ok_def store_ok_def by force

lemma map_edges: "set (exotic_edges (HEAP_MAP es)) = fst ` set (log_content map_view map_live es) \<union> snd ` set (log_content map_view map_live es)"
  by (induction es) (auto simp: map_view_def)

lemma set_edges: "set (exotic_edges (HEAP_SET es)) = fst ` set (log_content set_view set_present es)"
  by (induction es) (auto simp: set_view_def)

definition map_entry_of :: "oseo_value \<Rightarrow> oseo_value \<Rightarrow> map_entry" where
  "map_entry_of k v = \<lparr>map_key = k, map_value = v, map_live = True\<rparr>"

text \<open>Writing the records of a collection whose frame \<open>vs\<close> is pushed, after the safepoint of its growth:
  \<open>c2\<close> is the context after the safepoint, \<open>c3\<close> the one after the write.\<close>

lemma framed_records:
  assumes ok: "heap_ok c E C Q" and b: "bodies (heap_store c) a = Some (HEAP_ORDINARY ob kind)"
    and vs: "heap_value a \<in> set vs" "\<forall>v \<in> set vs. program_value (heap_store c) v"
    and ok2: "heap_ok c2 E2 C2 Q2" and kp: "kept_by_safepoint (push_frame vs c) c2"
    and c3: "heap_store c3 = update_exotic a kind' (heap_store c2)" "heap_objects c3 = heap_objects c2"
      "heap_roots c3 = heap_roots c2" "heap_queue c3 = heap_queue c2" "heap_strings c3 = heap_strings c2"
      "weak_counts c3 = weak_counts c2" "registry_entry c3 = registry_entry c2" "never_refuses c3 = never_refuses c2"
      "\<And>b. b \<noteq> a \<Longrightarrow> same_counts b c2 c3"
    and held: "set (exotic_edges kind') \<subseteq> set (exotic_edges kind) \<union> set vs"
  shows "heap_ok (pop_frame c3) E2 C2 Q2" "changes_only a c (pop_frame c3)"
    "bodies (heap_store (pop_frame c3)) a = Some (HEAP_ORDINARY ob kind')"
    "keys_ok c ks \<Longrightarrow> set ks \<subseteq> set (exotic_edges kind) \<union> set vs \<Longrightarrow> keys_ok (pop_frame c3) ks"
proof -
  have a: "a \<le> PAYLOAD_MASK" by (rule heap_address_bound [OF ok b])
  define c1 where "c1 = push_frame vs c"
  note k = kp [folded c1_def, unfolded kept_by_safepoint_def]
  have lv: "is_heap u \<longrightarrow> live_value c1 u" if "u \<in> set vs" for u using pushed_live [OF that, of c] unfolding c1_def by blast
  have la: "live c1 a" using lv [OF vs(1)] a by (simp add: live_value_def)
  then have b2: "bodies (heap_store c2) a = Some (HEAP_ORDINARY ob kind)" using k b by (simp add: c1_def ordinary_strong)
  have ch3: "changes_only a c1 c3"
    by (rule changes_write [OF kept_changes [OF kp [folded c1_def]] b2]) (use c3 in simp_all)
  then show "changes_only a c (pop_frame c3)" unfolding c1_def by (rule changes_framed)
  have "program_value (heap_store c2) u" if "u \<in> set vs" for u
    using frame_program [OF ok2, of u] that k by (simp add: c1_def frame_roots)
  then have "\<forall>u \<in> set (exotic_edges kind'). program_value (heap_store c2) u" using held heap_held [OF ok2 b2] by blast
  then have "heap_ok c3 E2 C2 Q2" by (rule exotic_heap_ok [OF ok2 b2]) (use c3 in simp_all)
  then show "heap_ok (pop_frame c3) E2 C2 Q2" by (rule pop_frame_ok)
  show "bodies (heap_store (pop_frame c3)) a = Some (HEAP_ORDINARY ob kind')" using exotic_views(1) [OF b2] by (simp add: c3)
  show "keys_ok (pop_frame c3) ks" if ks: "keys_ok c ks" "set ks \<subseteq> set (exotic_edges kind) \<union> set vs"
  proof -
    have "live_value c1 u" if "u \<in> set ks" "is_heap u" for u
      using that ks(2) lv held_live [OF la _ _ that(2), of ob kind] b by (auto simp: c1_def)
    moreover have "keys_ok c1 ks" using ks(1) by (simp add: keys_ok_def c1_def)
    ultimately have "keys_ok c3 ks" using keys_ok_changes [OF ch3] by blast
    then show ?thesis by (simp add: keys_ok_def)
  qed
qed

lemma update_exotic_same: "bodies st a = Some (HEAP_ORDINARY ob kind) \<Longrightarrow> update_exotic a kind st = st"
  by (auto simp: update_exotic_def bodies_def fun_eq_iff intro: heap_object.equality)

lemma same_counts_refl: "same_counts b c c"
  by (simp add: same_counts_def)

definition element_of :: "oseo_value \<Rightarrow> set_element" where
  "element_of v = \<lparr>set_value = v, set_present = True\<rparr>"

lemma map_append_effect:
  assumes ok: "heap_ok c E C Q" and n: "length (heap_objects c) \<le> n" and a: "a \<le> PAYLOAD_MASK" and m: "map_ok c a es"
    and key: "storable (heap_store c) key" "normalize_key key = key" "represented represent c key" and v: "program_value (heap_store c) v"
    and absent: "map_entry_find c es key = None"
  shows "\<exists>r c' E' C' Q'. map_append_entry represent n (heap_value a) key v c = Some (r, c') \<and> heap_ok c' E' C' Q' \<and>
    changes_only a c c' \<and>
    (case r of Inl e \<Rightarrow> storage_refused ''Map'' c e \<and> map_ok c' a es
     | Inr w \<Rightarrow> w = heap_value a \<and> (\<exists>k. key_same c k key \<and> map_ok c' a (es @ [map_entry_of k v])))"
proof -
  note mm = m [unfolded map_ok_def]
  obtain ob where b: "bodies (heap_store c) a = Some (HEAP_ORDINARY ob (HEAP_MAP es))" using mm a by (auto simp: map_at_bodies)
  obtain k where k: "local_symbol represent key (push_frame [heap_value a, key, v] c) = (Inr k, push_frame [heap_value a, key, v] c)"
    "key_same c k key" "storable (heap_store c) k" "normalize_key k = k"
    using local_symbol_represented [OF key(3,1,2)] by blast
  define vs where "vs = [heap_value a, k, v]"
  have "storable (heap_store c) (heap_value a)" using b a by (simp add: storable_def ordinary_strong)
  then have pv: "heap_value a \<in> set vs" "\<forall>v \<in> set vs. program_value (heap_store c) v" using k(3) v by (simp_all add: vs_def storable_program)
  have n1: "length (heap_objects (push_frame vs c)) \<le> n" "length es \<le> map_capacity c a" using n mm by simp_all
  obtain r c2 E2 C2 Q2 where g: "grow_records SIZE_OF_MAP_ENTRY ''Map'' n (length es) (map_capacity c a) (push_frame vs c) = Some (r, c2)"
    and ok2: "heap_ok c2 E2 C2 Q2" and kp: "kept_by_safepoint (push_frame vs c) c2"
    and r: "case r of Inl e \<Rightarrow> storage_refused ''Map'' (push_frame vs c) e | Inr new \<Rightarrow> length es < new"
    using grow_records_effect [OF push_frame_ok [OF ok pv(2)] n1] by blast
  note k2 = kp [unfolded kept_by_safepoint_def frame_keyed]
  note fr = framed_records [OF ok b pv ok2 kp]
  let ?es = "es @ [map_entry_of k v]"
  have keys: "set (map fst (log_content map_view map_live es)) \<subseteq> set (exotic_edges (HEAP_MAP es)) \<union> set vs"
    unfolding map_edges set_map by blast
  have run: "map_append_entry represent n (heap_value a) key v c = Some (case r of Inl e \<Rightarrow> (Inl e, pop_frame c2)
      | Inr new \<Rightarrow> (Inr (heap_value a), pop_frame ((write_records a (HEAP_MAP ?es) (c2\<lparr>map_capacity := (map_capacity c2)(a := new)\<rparr>))
          \<lparr>map_live_count := (map_live_count c2)(a := map_live_count c2 a + 1)\<rparr>)))"
    using k(1) mm a by (simp add: map_append_entry_def map_grow_entries_def Let_def vs_def [symmetric] g map_entry_of_def
        write_records_def split: sum.split)
  show ?thesis
  proof (cases r)
    case (Inl e)
    have s: "heap_store c2 = update_exotic a (HEAP_MAP es) (heap_store c2)"
      using kept_changes [OF kp, of a] pushed_live [of "heap_value a" vs c] pv(1) a b k2
      by (intro update_exotic_same [symmetric]) (auto simp: live_value_def ordinary_strong)
    note f = fr [of c2 "HEAP_MAP es", OF s refl refl refl refl refl refl refl same_counts_refl Un_upper1]
    have "keys_ok (pop_frame c2) (map fst (log_content map_view map_live es))"
      by (rule f(4)) (use mm keys in \<open>simp_all only: simp_thms\<close>)
    then have "map_ok (pop_frame c2) a es" using mm k2 a f(3) by (simp add: map_ok_def map_at_bodies)
    then show ?thesis using Inl run f(1,2) r by (fastforce simp: storage_refused_def)
  next
    case (Inr new)
    define c3 where "c3 = (write_records a (HEAP_MAP ?es) (c2\<lparr>map_capacity := (map_capacity c2)(a := new)\<rparr>))
        \<lparr>map_live_count := (map_live_count c2)(a := map_live_count c2 a + 1)\<rparr>"
    have held: "set (exotic_edges (HEAP_MAP ?es)) \<subseteq> set (exotic_edges (HEAP_MAP es)) \<union> set vs" by (auto simp: vs_def map_entry_of_def)
    have f: "heap_ok (pop_frame c3) E2 C2 Q2" "changes_only a c (pop_frame c3)"
      "bodies (heap_store (pop_frame c3)) a = Some (HEAP_ORDINARY ob (HEAP_MAP ?es))"
      "keys_ok c ks \<Longrightarrow> set ks \<subseteq> set (exotic_edges (HEAP_MAP es)) \<union> set vs \<Longrightarrow> keys_ok (pop_frame c3) ks" for ks
      by (rule fr [of c3 "HEAP_MAP ?es"]; use held in \<open>simp add: c3_def same_counts_def\<close>)+
    have absent': "first_index (\<lambda>e. map_live e \<and> key_same c (fst (map_view e)) key) es = None" using absent by (simp add: find_by_log)
    note ap = map_log.append_absent [OF absent' _ _ _ k(2), of "map_entry_of k v" v]
    have "keys_ok (pop_frame c3) (map fst (log_content map_view map_live ?es))"
    proof (rule f(4))
      show "keys_ok c (map fst (log_content map_view map_live ?es))"
        using mm ap(2) k(3,4) by (auto simp: keys_ok_def map_entry_of_def map_view_def)
      have "set (map fst (log_content map_view map_live ?es)) = set (map fst (log_content map_view map_live es)) \<union> {k}"
        by (simp add: map_entry_of_def map_view_def)
      then show "set (map fst (log_content map_view map_live ?es)) \<subseteq> set (exotic_edges (HEAP_MAP es)) \<union> set vs"
        using keys by (simp only: vs_def) auto
    qed
    then have "map_ok (pop_frame c3) a ?es"
      using mm f(3) k2 r Inr a by (auto simp: map_ok_def c3_def map_entry_of_def map_at_bodies)
    then show ?thesis using Inr run f(1,2) k(2) by (fastforce simp: c3_def)
  qed
qed

lemma set_append_effect:
  assumes ok: "heap_ok c E C Q" and n: "length (heap_objects c) \<le> n" and a: "a \<le> PAYLOAD_MASK" and m: "set_ok c a es"
    and key: "storable (heap_store c) key" "normalize_key key = key" "represented represent c key" and absent: "set_find c es key = None"
  shows "\<exists>r c' E' C' Q'. set_append represent n (heap_value a) key c = Some (r, c') \<and> heap_ok c' E' C' Q' \<and>
    changes_only a c c' \<and>
    (case r of Inl e \<Rightarrow> storage_refused ''Set'' c e \<and> set_ok c' a es
     | Inr w \<Rightarrow> w = heap_value a \<and> (\<exists>k. key_same c k key \<and> set_ok c' a (es @ [element_of k])))"
proof -
  note mm = m [unfolded set_ok_def]
  obtain ob where b: "bodies (heap_store c) a = Some (HEAP_ORDINARY ob (HEAP_SET es))" using mm a by (auto simp: set_at_bodies)
  obtain k where k: "local_symbol represent key (push_frame [heap_value a, key] c) = (Inr k, push_frame [heap_value a, key] c)"
    "key_same c k key" "storable (heap_store c) k" "normalize_key k = k"
    using local_symbol_represented [OF key(3,1,2)] by blast
  define vs where "vs = [heap_value a, k]"
  have "storable (heap_store c) (heap_value a)" using b a by (simp add: storable_def ordinary_strong)
  then have pv: "heap_value a \<in> set vs" "\<forall>v \<in> set vs. program_value (heap_store c) v" using k(3) by (simp_all add: vs_def storable_program)
  have n1: "length (heap_objects (push_frame vs c)) \<le> n" "length es \<le> set_capacity c a" using n mm by simp_all
  obtain r c2 E2 C2 Q2 where g: "grow_records SIZE_OF_SET_ELEMENT ''Set'' n (length es) (set_capacity c a) (push_frame vs c) = Some (r, c2)"
    and ok2: "heap_ok c2 E2 C2 Q2" and kp: "kept_by_safepoint (push_frame vs c) c2"
    and r: "case r of Inl e \<Rightarrow> storage_refused ''Set'' (push_frame vs c) e | Inr new \<Rightarrow> length es < new"
    using grow_records_effect [OF push_frame_ok [OF ok pv(2)] n1] by blast
  note k2 = kp [unfolded kept_by_safepoint_def frame_keyed]
  note fr = framed_records [OF ok b pv ok2 kp]
  let ?es = "es @ [element_of k]"
  have keys: "set (map fst (log_content set_view set_present es)) \<subseteq> set (exotic_edges (HEAP_SET es)) \<union> set vs"
    unfolding set_edges set_map by blast
  have run: "set_append represent n (heap_value a) key c = Some (case r of Inl e \<Rightarrow> (Inl e, pop_frame c2)
      | Inr new \<Rightarrow> (Inr (heap_value a), pop_frame ((write_records a (HEAP_SET ?es) (c2\<lparr>set_capacity := (set_capacity c2)(a := new)\<rparr>))
          \<lparr>set_size_of := (set_size_of c2)(a := set_size_of c2 a + 1)\<rparr>)))"
    using k(1) mm a by (simp add: set_append_def grow_set_def Let_def vs_def [symmetric] g element_of_def
        write_records_def split: sum.split)
  show ?thesis
  proof (cases r)
    case (Inl e)
    have s: "heap_store c2 = update_exotic a (HEAP_SET es) (heap_store c2)"
      using kept_changes [OF kp, of a] pushed_live [of "heap_value a" vs c] pv(1) a b k2
      by (intro update_exotic_same [symmetric]) (auto simp: live_value_def ordinary_strong)
    note f = fr [of c2 "HEAP_SET es", OF s refl refl refl refl refl refl refl same_counts_refl Un_upper1]
    have "keys_ok (pop_frame c2) (map fst (log_content set_view set_present es))"
      by (rule f(4)) (use mm keys in \<open>simp_all only: simp_thms\<close>)
    then have "set_ok (pop_frame c2) a es" using mm k2 a f(3) by (simp add: set_ok_def set_at_bodies)
    then show ?thesis using Inl run f(1,2) r by (fastforce simp: storage_refused_def)
  next
    case (Inr new)
    define c3 where "c3 = (write_records a (HEAP_SET ?es) (c2\<lparr>set_capacity := (set_capacity c2)(a := new)\<rparr>))
        \<lparr>set_size_of := (set_size_of c2)(a := set_size_of c2 a + 1)\<rparr>"
    have held: "set (exotic_edges (HEAP_SET ?es)) \<subseteq> set (exotic_edges (HEAP_SET es)) \<union> set vs" by (auto simp: vs_def element_of_def)
    have f: "heap_ok (pop_frame c3) E2 C2 Q2" "changes_only a c (pop_frame c3)"
      "bodies (heap_store (pop_frame c3)) a = Some (HEAP_ORDINARY ob (HEAP_SET ?es))"
      "keys_ok c ks \<Longrightarrow> set ks \<subseteq> set (exotic_edges (HEAP_SET es)) \<union> set vs \<Longrightarrow> keys_ok (pop_frame c3) ks" for ks
      by (rule fr [of c3 "HEAP_SET ?es"]; use held in \<open>simp add: c3_def same_counts_def\<close>)+
    have absent': "first_index (\<lambda>e. set_present e \<and> key_same c (fst (set_view e)) key) es = None" using absent by (simp add: find_by_log)
    note ap = set_log.append_absent [OF absent' _ _ _ k(2), of "element_of k" "()"]
    have "keys_ok (pop_frame c3) (map fst (log_content set_view set_present ?es))"
    proof (rule f(4))
      show "keys_ok c (map fst (log_content set_view set_present ?es))"
        using mm ap(2) k(3,4) by (auto simp: keys_ok_def element_of_def set_view_def)
      have "set (map fst (log_content set_view set_present ?es)) = set (map fst (log_content set_view set_present es)) \<union> {k}"
        by (simp add: element_of_def set_view_def)
      then show "set (map fst (log_content set_view set_present ?es)) \<subseteq> set (exotic_edges (HEAP_SET es)) \<union> set vs"
        using keys by (simp only: vs_def) auto
    qed
    then have "set_ok (pop_frame c3) a ?es"
      using mm f(3) k2 r Inr a by (auto simp: set_ok_def c3_def element_of_def set_at_bodies)
    then show ?thesis using Inr run f(1,2) k(2) by (fastforce simp: c3_def)
  qed
qed

subsection \<open>Writing records in place\<close>

lemma written_records:
  assumes ok: "heap_ok c E C Q" and b: "bodies (heap_store c) a = Some (HEAP_ORDINARY ob kind)"
    and c3: "heap_store c3 = update_exotic a kind' (heap_store c)" "heap_objects c3 = heap_objects c"
      "heap_roots c3 = heap_roots c" "heap_queue c3 = heap_queue c" "heap_strings c3 = heap_strings c"
      "weak_counts c3 = weak_counts c" "registry_entry c3 = registry_entry c" "never_refuses c3 = never_refuses c"
      "\<And>b. b \<noteq> a \<Longrightarrow> same_counts b c c3"
    and held: "\<forall>v \<in> set (exotic_edges kind'). v \<in> set (exotic_edges kind) \<or> program_value (heap_store c) v"
  shows "heap_ok c3 E C Q" "changes_only a c c3" "bodies (heap_store c3) a = Some (HEAP_ORDINARY ob kind')"
    "keys_ok c3 ks = keys_ok c ks"
proof -
  have "\<forall>u \<in> set (exotic_edges kind'). program_value (heap_store c) u" using held heap_held [OF ok b] by blast
  then show "heap_ok c3 E C Q" by (rule exotic_heap_ok [OF ok b]) (use c3 in simp_all)
  have "changes_only a c c" by (simp add: changes_only_def same_counts_def body_evolves_def)
  then show "changes_only a c c3" by (rule changes_write [OF _ b]) (use c3 in simp_all)
  show "bodies (heap_store c3) a = Some (HEAP_ORDINARY ob kind')" using exotic_views(1) [OF b] by (simp add: c3)
  have "key_same c3 = key_same c"
    by (simp add: fun_eq_iff same_value_zero_identity c3 exotic_identity(1) [OF b])
  then show "keys_ok c3 ks = keys_ok c ks" by (simp only: keys_ok_def c3(1) exotic_identity(2) [OF b])
qed

lemma map_found:
  assumes "map_entry_find c es key = Some i"
  shows "first_index (\<lambda>e. map_live e \<and> key_same c (fst (map_view e)) key) es = Some i" "i < length es" "map_live (es ! i)"
    "key_same c (map_key (es ! i)) key"
  using assms first_index_Some [OF assms [unfolded map_entry_find_def]] by (simp_all add: find_by_log)

lemma set_found:
  assumes "set_find c es key = Some i"
  shows "first_index (\<lambda>e. set_present e \<and> key_same c (fst (set_view e)) key) es = Some i" "i < length es" "set_present (es ! i)"
    "key_same c (set_value (es ! i)) key"
  using assms first_index_Some [OF assms [unfolded set_find_def]] by (simp_all add: find_by_log)

lemma map_ok_object:
  assumes "map_ok c a es" "a \<le> PAYLOAD_MASK"
  obtains ob where "bodies (heap_store c) a = Some (HEAP_ORDINARY ob (HEAP_MAP es))"
  using assms by (auto simp: map_ok_def map_at_bodies)

lemma set_ok_object:
  assumes "set_ok c a es" "a \<le> PAYLOAD_MASK"
  obtains ob where "bodies (heap_store c) a = Some (HEAP_ORDINARY ob (HEAP_SET es))"
  using assms by (auto simp: set_ok_def set_at_bodies)

text \<open>Overwriting the value of a record.\<close>

lemma map_update_effect:
  assumes ok: "heap_ok c E C Q" and a: "a \<le> PAYLOAD_MASK" and m: "map_ok c a es" and v: "program_value (heap_store c) v"
    and f: "map_entry_find c es key = Some i"
  defines "es' \<equiv> es[i := (es ! i)\<lparr>map_value := v\<rparr>]"
  defines "c' \<equiv> write_records a (HEAP_MAP es') c"
  shows "heap_ok c' E C Q" "changes_only a c c'" "map_ok c' a es'"
    "log_content map_view map_live es' = assoc_put (key_same c) key v (log_content map_view map_live es)"
proof -
  note mm = m [unfolded map_ok_def] and ff = map_found [OF f]
  obtain ob where b: "bodies (heap_store c) a = Some (HEAP_ORDINARY ob (HEAP_MAP es))" by (rule map_ok_object [OF m a])
  have ap: "apart (key_same c) (map fst (log_content map_view map_live es))" using mm by (simp add: keys_ok_def)
  note u = map_log.update_found [OF ff(1) ap, of "(es ! i)\<lparr>map_value := v\<rparr>" v]
  show t: "log_content map_view map_live es' = assoc_put (key_same c) key v (log_content map_view map_live es)"
    using u(1) ff by (simp add: es'_def map_view_def)
  have keys: "map fst (log_content map_view map_live es') = map fst (log_content map_view map_live es)"
    using u(2) ff by (simp add: es'_def map_view_def)
  have sub: "set es' \<subseteq> insert ((es ! i)\<lparr>map_value := v\<rparr>) (set es)" unfolding es'_def by (rule set_update_subset_insert)
  have mem: "es ! i \<in> set es" using ff by simp
  have "\<forall>w \<in> set (exotic_edges (HEAP_MAP es')). w \<in> set (exotic_edges (HEAP_MAP es)) \<or> program_value (heap_store c) w"
  proof
    fix w assume "w \<in> set (exotic_edges (HEAP_MAP es'))"
    then obtain e where e: "e \<in> set es'" "map_live e" "w = map_key e \<or> w = map_value e" by auto
    consider "e \<in> set es" | "e = (es ! i)\<lparr>map_value := v\<rparr>" using e(1) sub by blast
    then show "w \<in> set (exotic_edges (HEAP_MAP es)) \<or> program_value (heap_store c) w"
    proof cases
      case 1
      then show ?thesis using e by auto
    next
      case 2
      then have "w = map_key (es ! i) \<or> w = v" using e(3) by simp
      then show ?thesis using mem ff(3) v by auto
    qed
  qed
  note w = written_records [OF ok b, of c' "HEAP_MAP es'", OF _ _ _ _ _ _ _ _ _ this]
  show "heap_ok c' E C Q" "changes_only a c c'" by (rule w; simp add: c'_def same_counts_def)+
  have "bodies (heap_store c') a = Some (HEAP_ORDINARY ob (HEAP_MAP es'))" by (rule w(3)) (simp_all add: c'_def same_counts_def)
  moreover have "keys_ok c' (map fst (log_content map_view map_live es'))"
    by (subst w(4)) (use mm in \<open>simp_all add: c'_def same_counts_def keys\<close>)
  moreover have "length (log_content map_view map_live es') = length (log_content map_view map_live es)"
    using keys by (metis length_map)
  ultimately show "map_ok c' a es'" using mm a sub ff(3) by (auto simp: map_ok_def map_at_bodies c'_def es'_def)
qed

lemma map_delete_effect:
  assumes ok: "heap_ok c E C Q" and a: "a \<le> PAYLOAD_MASK" and m: "map_ok c a es" and f: "map_entry_find c es key = Some i"
  defines "es' \<equiv> es[i := dead_entry]"
  defines "c' \<equiv> (write_records a (HEAP_MAP es') c)\<lparr>map_live_count := (map_live_count c)(a := map_live_count c a - 1)\<rparr>"
  shows "heap_ok c' E C Q" "changes_only a c c'" "map_ok c' a es'"
    "log_content map_view map_live es' = assoc_delete (key_same c) key (log_content map_view map_live es)"
proof -
  note mm = m [unfolded map_ok_def] and ff = map_found [OF f]
  obtain ob where b: "bodies (heap_store c) a = Some (HEAP_ORDINARY ob (HEAP_MAP es))" by (rule map_ok_object [OF m a])
  have ap: "apart (key_same c) (map fst (log_content map_view map_live es))" using mm by (simp add: keys_ok_def)
  have dead: "\<not> map_live dead_entry" by (simp add: dead_entry_def)
  note u = map_log.delete_found [OF ff(1) ap dead, folded es'_def]
  show t: "log_content map_view map_live es' = assoc_delete (key_same c) key (log_content map_view map_live es)" by (rule u(1))
  have sub: "set es' \<subseteq> insert dead_entry (set es)" unfolding es'_def by (rule set_update_subset_insert)
  have "\<forall>w \<in> set (exotic_edges (HEAP_MAP es')). w \<in> set (exotic_edges (HEAP_MAP es)) \<or> program_value (heap_store c) w"
    using sub dead by auto
  note w = written_records [OF ok b, of c' "HEAP_MAP es'", OF _ _ _ _ _ _ _ _ _ this]
  show "heap_ok c' E C Q" "changes_only a c c'" by (rule w; simp add: c'_def same_counts_def)+
  have "bodies (heap_store c') a = Some (HEAP_ORDINARY ob (HEAP_MAP es'))" by (rule w(3)) (simp_all add: c'_def same_counts_def)
  moreover have "keys_ok c (map fst (log_content map_view map_live es'))"
    using mm map_log.delete_apart [OF ap] unfolding t keys_ok_def by (auto simp: assoc_delete_def)
  then have "keys_ok c' (map fst (log_content map_view map_live es'))"
    by (subst w(4)) (simp_all add: c'_def same_counts_def)
  ultimately show "map_ok c' a es'" using mm a sub u(2) by (auto simp: map_ok_def map_at_bodies c'_def es'_def)
qed

lemma map_clear_effect:
  assumes ok: "heap_ok c E C Q" and a: "a \<le> PAYLOAD_MASK" and m: "map_ok c a es"
  defines "es' \<equiv> map (\<lambda>e. dead_entry) es"
  defines "c' \<equiv> (write_records a (HEAP_MAP es') c)\<lparr>map_live_count := (map_live_count c)(a := 0)\<rparr>"
  shows "heap_ok c' E C Q" "changes_only a c c'" "map_ok c' a es'" "log_content map_view map_live es' = []"
proof -
  note mm = m [unfolded map_ok_def]
  obtain ob where b: "bodies (heap_store c) a = Some (HEAP_ORDINARY ob (HEAP_MAP es))" by (rule map_ok_object [OF m a])
  have sub: "\<forall>e \<in> set es'. e = dead_entry" by (simp add: es'_def)
  then show t: "log_content map_view map_live es' = []" by (auto simp: log_content_def filter_empty_conv dead_entry_def)
  have "\<forall>w \<in> set (exotic_edges (HEAP_MAP es')). w \<in> set (exotic_edges (HEAP_MAP es)) \<or> program_value (heap_store c) w"
    unfolding map_edges t by simp
  note w = written_records [OF ok b, of c' "HEAP_MAP es'", OF _ _ _ _ _ _ _ _ _ this]
  show "heap_ok c' E C Q" "changes_only a c c'" by (rule w; simp add: c'_def same_counts_def)+
  have "bodies (heap_store c') a = Some (HEAP_ORDINARY ob (HEAP_MAP es'))" by (rule w(3)) (simp_all add: c'_def same_counts_def)
  then show "map_ok c' a es'" using mm a sub t by (auto simp: map_ok_def keys_ok_def map_at_bodies c'_def es'_def)
qed

text \<open>The same for sets.\<close>

lemma set_delete_effect:
  assumes ok: "heap_ok c E C Q" and a: "a \<le> PAYLOAD_MASK" and m: "set_ok c a es" and f: "set_find c es key = Some i"
  defines "es' \<equiv> es[i := dead_element]"
  defines "c' \<equiv> (write_records a (HEAP_SET es') c)\<lparr>set_size_of := (set_size_of c)(a := set_size_of c a - 1)\<rparr>"
  shows "heap_ok c' E C Q" "changes_only a c c'" "set_ok c' a es'"
    "log_content set_view set_present es' = assoc_delete (key_same c) key (log_content set_view set_present es)"
proof -
  note mm = m [unfolded set_ok_def] and ff = set_found [OF f]
  obtain ob where b: "bodies (heap_store c) a = Some (HEAP_ORDINARY ob (HEAP_SET es))" by (rule set_ok_object [OF m a])
  have ap: "apart (key_same c) (map fst (log_content set_view set_present es))" using mm by (simp add: keys_ok_def)
  have dead: "\<not> set_present dead_element" by (simp add: dead_element_def)
  note u = set_log.delete_found [OF ff(1) ap dead, folded es'_def]
  show t: "log_content set_view set_present es' = assoc_delete (key_same c) key (log_content set_view set_present es)" by (rule u(1))
  have sub: "set es' \<subseteq> insert dead_element (set es)" unfolding es'_def by (rule set_update_subset_insert)
  have "\<forall>w \<in> set (exotic_edges (HEAP_SET es')). w \<in> set (exotic_edges (HEAP_SET es)) \<or> program_value (heap_store c) w"
    using sub dead by auto
  note w = written_records [OF ok b, of c' "HEAP_SET es'", OF _ _ _ _ _ _ _ _ _ this]
  show "heap_ok c' E C Q" "changes_only a c c'" by (rule w; simp add: c'_def same_counts_def)+
  have "bodies (heap_store c') a = Some (HEAP_ORDINARY ob (HEAP_SET es'))" by (rule w(3)) (simp_all add: c'_def same_counts_def)
  moreover have "keys_ok c (map fst (log_content set_view set_present es'))"
    using mm set_log.delete_apart [OF ap] unfolding t keys_ok_def by (auto simp: assoc_delete_def)
  then have "keys_ok c' (map fst (log_content set_view set_present es'))"
    by (subst w(4)) (simp_all add: c'_def same_counts_def)
  ultimately show "set_ok c' a es'" using mm a sub u(2) by (auto simp: set_ok_def set_at_bodies c'_def es'_def)
qed
lemma set_clear_effect:
  assumes ok: "heap_ok c E C Q" and a: "a \<le> PAYLOAD_MASK" and m: "set_ok c a es"
  defines "es' \<equiv> map (\<lambda>e. dead_element) es"
  defines "c' \<equiv> (write_records a (HEAP_SET es') c)\<lparr>set_size_of := (set_size_of c)(a := 0)\<rparr>"
  shows "heap_ok c' E C Q" "changes_only a c c'" "set_ok c' a es'" "log_content set_view set_present es' = []"
proof -
  note mm = m [unfolded set_ok_def]
  obtain ob where b: "bodies (heap_store c) a = Some (HEAP_ORDINARY ob (HEAP_SET es))" by (rule set_ok_object [OF m a])
  have sub: "\<forall>e \<in> set es'. e = dead_element" by (simp add: es'_def)
  then show t: "log_content set_view set_present es' = []" by (auto simp: log_content_def filter_empty_conv dead_element_def)
  have "\<forall>w \<in> set (exotic_edges (HEAP_SET es')). w \<in> set (exotic_edges (HEAP_SET es)) \<or> program_value (heap_store c) w"
    unfolding set_edges t by simp
  note w = written_records [OF ok b, of c' "HEAP_SET es'", OF _ _ _ _ _ _ _ _ _ this]
  show "heap_ok c' E C Q" "changes_only a c c'" by (rule w; simp add: c'_def same_counts_def)+
  have "bodies (heap_store c') a = Some (HEAP_ORDINARY ob (HEAP_SET es'))" by (rule w(3)) (simp_all add: c'_def same_counts_def)
  then show "set_ok c' a es'" using mm a sub t by (auto simp: set_ok_def keys_ok_def set_at_bodies c'_def es'_def)
qed

end
