(* ===== verification/Keyed_Properties.thy ===== *)
theory Keyed_Properties
  imports Keyed_Heap
begin


text \<open>
  The dispatch of the keyed collections and what it promises: Map and Set are insertion-ordered
  association lists whose keys are compared by SameValueZero, whatever the collector does while they
  grow, and a receiver of another kind is a \<open>TypeError\<close>.
\<close>

subsection \<open>Dispatch\<close>

datatype map_builtin = MAP_GET | MAP_HAS | MAP_SET | MAP_GET_OR_INSERT | MAP_DELETE | MAP_CLEAR | MAP_SIZE_GETTER

datatype set_builtin = SET_ADD | SET_CLEAR | SET_DELETE | SET_HAS | SET_SIZE

definition argument :: "oseo_value list \<Rightarrow> nat \<Rightarrow> oseo_value" where
  "argument arguments index = (if index < length arguments then arguments ! index else oseo_undefined)"

definition not_a_constructor :: rt_error where
  "not_a_constructor = LanguageError ERROR_TYPE ''The Map built-in function is not a constructor.''"

definition map_builtin_dispatch :: "(u64 \<Rightarrow> oseo_value keyed) \<Rightarrow> nat \<Rightarrow> map_builtin \<Rightarrow> oseo_value \<Rightarrow> oseo_value list \<Rightarrow> oseo_value \<Rightarrow>
    keyed_context \<Rightarrow> ((rt_error + oseo_value) \<times> keyed_context) option" where
  "map_builtin_dispatch represent n code receiver arguments new_target c =
     (if tag_of new_target \<noteq> TAG_UNDEFINED then Some (Inl not_a_constructor, c)
      else case code of
        MAP_GET \<Rightarrow> Some (map_prototype_get receiver (argument arguments 0) c)
      | MAP_HAS \<Rightarrow> Some (map_prototype_has receiver (argument arguments 0) c)
      | MAP_SET \<Rightarrow> map_prototype_set represent n receiver (argument arguments 0) (argument arguments 1) c
      | MAP_GET_OR_INSERT \<Rightarrow> map_prototype_get_or_insert represent n receiver (argument arguments 0) (argument arguments 1) c
      | MAP_DELETE \<Rightarrow> Some (map_prototype_delete receiver (argument arguments 0) c)
      | MAP_CLEAR \<Rightarrow> Some (map_prototype_clear receiver c)
      | MAP_SIZE_GETTER \<Rightarrow> Some (map_prototype_size receiver c))"

definition set_builtin_dispatch :: "(u64 \<Rightarrow> oseo_value keyed) \<Rightarrow> nat \<Rightarrow> set_builtin \<Rightarrow> oseo_value \<Rightarrow> oseo_value list \<Rightarrow>
    keyed_context \<Rightarrow> ((rt_error + oseo_value) \<times> keyed_context) option" where
  "set_builtin_dispatch represent n code receiver arguments c =
     (let v = argument arguments 0
      in case code of
        SET_ADD \<Rightarrow> set_add represent n receiver v c
      | SET_CLEAR \<Rightarrow> Some (set_clear receiver c)
      | SET_DELETE \<Rightarrow> Some (set_delete receiver v c)
      | SET_HAS \<Rightarrow> Some (set_has receiver v c)
      | SET_SIZE \<Rightarrow> Some (set_size receiver c))"

subsection \<open>What the methods mean on association lists\<close>

text \<open>The answer and the content afterwards; \<open>k\<close> is the key a new record stores.\<close>

definition map_spec :: "(oseo_value \<Rightarrow> oseo_value \<Rightarrow> bool) \<Rightarrow> oseo_value \<Rightarrow> oseo_value \<Rightarrow> map_builtin \<Rightarrow> oseo_value \<Rightarrow> oseo_value \<Rightarrow>
    (oseo_value \<times> oseo_value) list \<Rightarrow> oseo_value \<times> (oseo_value \<times> oseo_value) list" where
  "map_spec same receiver k code key v l =
     (case code of
        MAP_GET \<Rightarrow> (case assoc_get same l key of None \<Rightarrow> oseo_undefined | Some w \<Rightarrow> w, l)
      | MAP_HAS \<Rightarrow> (oseo_boolean (assoc_get same l key \<noteq> None), l)
      | MAP_SET \<Rightarrow> (receiver, assoc_put same k v l)
      | MAP_GET_OR_INSERT \<Rightarrow> (case assoc_get same l key of None \<Rightarrow> (v, assoc_put same k v l) | Some w \<Rightarrow> (w, l))
      | MAP_DELETE \<Rightarrow> (oseo_boolean (assoc_get same l key \<noteq> None), assoc_delete same key l)
      | MAP_CLEAR \<Rightarrow> (oseo_undefined, [])
      | MAP_SIZE_GETTER \<Rightarrow> (oseo_number (double_of_nat (length l)), l))"

definition set_spec :: "(oseo_value \<Rightarrow> oseo_value \<Rightarrow> bool) \<Rightarrow> oseo_value \<Rightarrow> oseo_value \<Rightarrow> set_builtin \<Rightarrow> oseo_value \<Rightarrow>
    (oseo_value \<times> unit) list \<Rightarrow> oseo_value \<times> (oseo_value \<times> unit) list" where
  "set_spec same receiver k code v l =
     (case code of
        SET_ADD \<Rightarrow> (receiver, assoc_put same k () l)
      | SET_CLEAR \<Rightarrow> (oseo_undefined, [])
      | SET_DELETE \<Rightarrow> (oseo_boolean (assoc_get same l v \<noteq> None), assoc_delete same v l)
      | SET_HAS \<Rightarrow> (oseo_boolean (assoc_get same l v \<noteq> None), l)
      | SET_SIZE \<Rightarrow> (oseo_number (double_of_nat (length l)), l))"

text \<open>Records keep their positions: a record stays with its key until it dies, and stays dead.\<close>

definition positions_stay :: "('e \<Rightarrow> bool) \<Rightarrow> ('e \<Rightarrow> 'k \<times> 'v) \<Rightarrow> 'e list \<Rightarrow> 'e list \<Rightarrow> bool" where
  "positions_stay alive view es es' \<longleftrightarrow> length es \<le> length es' \<and>
     (\<forall>i < length es. alive (es' ! i) \<longrightarrow> alive (es ! i) \<and> fst (view (es' ! i)) = fst (view (es ! i)))"

lemma positions_stay_refl [simp]: "positions_stay alive view es es"
  by (simp add: positions_stay_def)

lemma positions_stay_append [simp]: "positions_stay alive view es (es @ [e])"
  by (simp add: positions_stay_def nth_append)

lemma positions_stay_update: "(alive e \<Longrightarrow> alive (es ! i) \<and> fst (view e) = fst (view (es ! i))) \<Longrightarrow> positions_stay alive view es (es[i := e])"
  by (cases "i < length es") (auto simp: positions_stay_def nth_list_update)

lemma positions_stay_clear: "\<not> alive d \<Longrightarrow> positions_stay alive view es (map (\<lambda>e. d) es)"
  by (simp add: positions_stay_def)

text \<open>The outcome of a method on the collection at \<open>a\<close>: a refusal that changes no content, or the
  answer and the content the specification gives, with every record in its place.\<close>

definition map_outcome :: "keyed_context \<Rightarrow> u64 \<Rightarrow> map_entry list \<Rightarrow> (oseo_value \<Rightarrow> oseo_value \<times> (oseo_value \<times> oseo_value) list) \<Rightarrow>
    oseo_value \<Rightarrow> rt_error + oseo_value \<Rightarrow> keyed_context \<Rightarrow> bool" where
  "map_outcome c a es spec key r c' \<longleftrightarrow>
     (\<exists>E' C' Q'. heap_ok c' E' C' Q') \<and> changes_only a c c' \<and>
     (case r of
        Inl e \<Rightarrow> storage_refused ''Map'' c e \<and> map_ok c' a es
      | Inr w \<Rightarrow> \<exists>k es'. key_same c k key \<and> map_ok c' a es' \<and> positions_stay map_live map_view es es' \<and> (w, log_content map_view map_live es') = spec k)"

lemma changes_refl: "changes_only a c c"
  by (simp add: changes_only_def same_counts_def body_evolves_def)

lemma map_read:
  assumes "map_ok c a es"
  shows "map_entry_find c es key = None \<longleftrightarrow> assoc_get (key_same c) (log_content map_view map_live es) key = None"
    and "map_entry_find c es key = Some i \<Longrightarrow> assoc_get (key_same c) (log_content map_view map_live es) key = Some (map_value (es ! i))"
proof -
  show s: "map_entry_find c es key = Some i \<Longrightarrow> assoc_get (key_same c) (log_content map_view map_live es) key = Some (map_value (es ! i))" for i
    using map_log.get_found [of "registry_entry c" "heap_store c" key es i] by (simp add: find_by_log map_view_def)
  show "map_entry_find c es key = None \<longleftrightarrow> assoc_get (key_same c) (log_content map_view map_live es) key = None"
    using map_log.get_absent [of "registry_entry c" "heap_store c" key es] s
    by (cases "map_entry_find c es key") (auto simp: find_by_log)
qed

lemma same_put: "key_same c k k' \<Longrightarrow> assoc_get (key_same c) l k = assoc_get (key_same c) l k'"
  unfolding assoc_get_def by (intro arg_cong [where f = "map_option snd"] find_cong refl) (auto simp: same_value_zero_identity)

lemma map_set_outcome:
  assumes ok: "heap_ok c E C Q" and n: "length (heap_objects c) \<le> n" and a: "a \<le> PAYLOAD_MASK" and m: "map_ok c a es"
    and key: "storable (heap_store c) key" "represented represent c (normalize_key key)" and v: "program_value (heap_store c) v"
  shows "\<exists>r c'. map_prototype_set represent n (heap_value a) key v c = Some (r, c') \<and>
    map_outcome c a es (\<lambda>k. map_spec (key_same c) (heap_value a) k MAP_SET key v (log_content map_view map_live es)) key r c'"
proof -
  have at: "map_at (heap_store c) (heap_value a) = Some es" using m by (simp add: map_ok_def)
  let ?k = "normalize_key key"
  show ?thesis
  proof (cases "map_entry_find c es ?k")
    case (Some i)
    note u = map_update_effect [OF ok a m v Some]
    have ps: "positions_stay map_live map_view es (es[i := (es ! i)\<lparr>map_value := v\<rparr>])"
      by (rule positions_stay_update) (use map_found [OF Some] in \<open>simp add: map_view_def\<close>)
    show ?thesis using u at Some a ps normalize_same [of c key]
      by (intro exI conjI)
        (auto simp: map_prototype_set_def map_outcome_def map_spec_def Let_def intro!: exI [of _ ?k] exI [of _ "es[i := (es ! i)\<lparr>map_value := v\<rparr>]"])
  next
    case None
    obtain r c' E' C' Q' where p: "map_append_entry represent n (heap_value a) ?k v c = Some (r, c')" "heap_ok c' E' C' Q'"
      "changes_only a c c'" "case r of Inl e \<Rightarrow> storage_refused ''Map'' c e \<and> map_ok c' a es
         | Inr w \<Rightarrow> w = heap_value a \<and> (\<exists>k. key_same c k ?k \<and> map_ok c' a (es @ [map_entry_of k v]))"
      using map_append_effect [OF ok n a m storable_normalize [OF key(1)] normalize_idem key(2) v None] by blast
    have k: "key_same c k key" if "key_same c k ?k" for k using that normalize_same [of c key] by (simp add: same_value_zero_identity)
    have put: "log_content map_view map_live (es @ [map_entry_of k v]) = assoc_put (key_same c) k v (log_content map_view map_live es)"
      if "key_same c k ?k" for k
      using map_log.append_absent(1) [OF None [unfolded find_by_log] _ _ _ that, of "map_entry_of k v" v] m
      by (simp add: map_ok_def keys_ok_def map_entry_of_def map_view_def)
    show ?thesis using p at k put by (cases r) (fastforce simp: map_prototype_set_def map_outcome_def map_spec_def None)+
  qed
qed

lemma map_get_or_insert_outcome:
  assumes ok: "heap_ok c E C Q" and n: "length (heap_objects c) \<le> n" and a: "a \<le> PAYLOAD_MASK" and m: "map_ok c a es"
    and key: "storable (heap_store c) key" "represented represent c (normalize_key key)" and v: "program_value (heap_store c) v"
  shows "\<exists>r c'. map_prototype_get_or_insert represent n (heap_value a) key v c = Some (r, c') \<and>
    map_outcome c a es (\<lambda>k. map_spec (key_same c) (heap_value a) k MAP_GET_OR_INSERT key v (log_content map_view map_live es)) key r c'"
proof -
  have at: "map_at (heap_store c) (heap_value a) = Some es" using m by (simp add: map_ok_def)
  let ?k = "normalize_key key"
  have g: "assoc_get (key_same c) (log_content map_view map_live es) key = assoc_get (key_same c) (log_content map_view map_live es) ?k"
    using same_put [OF normalize_same] by metis
  show ?thesis
  proof (cases "map_entry_find c es ?k")
    case (Some i)
    then show ?thesis using at ok m map_read(2) [OF m Some] normalize_same [of c key] g changes_refl [of a c]
      by (intro exI conjI) (auto simp: map_prototype_get_or_insert_def map_outcome_def map_spec_def Let_def intro!: exI [of _ ?k] exI [of _ es])
  next
    case None
    obtain r c' where p: "map_prototype_set represent n (heap_value a) key v c = Some (r, c')"
      "map_outcome c a es (\<lambda>k. map_spec (key_same c) (heap_value a) k MAP_SET key v (log_content map_view map_live es)) key r c'"
      using map_set_outcome [OF assms] by blast
    have none: "assoc_get (key_same c) (log_content map_view map_live es) ?k = None" using map_read(1) [OF m] None by simp
    obtain r0 where "map_append_entry represent n (heap_value a) ?k v c = Some (r0, c')"
      "r = (case r0 of Inl err \<Rightarrow> Inl err | Inr _ \<Rightarrow> Inr (heap_value a))"
      using p(1) at None by (auto simp: map_prototype_set_def Let_def)
    then show ?thesis using p(2) at None none g
      by (cases r0) (fastforce simp: map_prototype_get_or_insert_def map_outcome_def map_spec_def Let_def)+
  qed
qed

lemma map_delete_outcome:
  assumes ok: "heap_ok c E C Q" and a: "a \<le> PAYLOAD_MASK" and m: "map_ok c a es"
  shows "map_outcome c a es (\<lambda>k. map_spec (key_same c) (heap_value a) k MAP_DELETE key v (log_content map_view map_live es)) key
    (fst (map_prototype_delete (heap_value a) key c)) (snd (map_prototype_delete (heap_value a) key c))"
proof -
  have at: "map_at (heap_store c) (heap_value a) = Some es" using m by (simp add: map_ok_def)
  show ?thesis
  proof (cases "map_entry_find c es key")
    case (Some i)
    note d = map_delete_effect [OF ok a m Some]
    have ps: "positions_stay map_live map_view es (es[i := dead_entry])" by (rule positions_stay_update) (simp add: dead_entry_def)
    show ?thesis using d at a ps map_read(2) [OF m Some]
      by (auto simp: map_prototype_delete_def map_outcome_def map_spec_def Let_def Some
          intro!: exI [of _ key] exI [of _ "es[i := dead_entry]"] map_log.same_refl)
  next
    case None
    have "assoc_delete (key_same c) key (log_content map_view map_live es) = log_content map_view map_live es"
      by (rule map_log.delete_absent [OF None [unfolded find_by_log]])
    then show ?thesis using at ok m None map_read(1) [OF m, of key] changes_refl [of a c]
      by (auto simp: map_prototype_delete_def map_outcome_def map_spec_def intro!: exI [of _ key] exI [of _ es] map_log.same_refl)
  qed
qed

lemma map_dispatch_outcome:
  assumes ok: "heap_ok c E C Q" and n: "length (heap_objects c) \<le> n" and m: "map_ok c a es" and a: "a \<le> PAYLOAD_MASK"
    and key: "storable (heap_store c) (argument args 0)" "represented represent c (normalize_key (argument args 0))"
    and v: "program_value (heap_store c) (argument args 1)" and t: "tag_of new_target = TAG_UNDEFINED"
  shows "\<exists>r c'. map_builtin_dispatch represent n code (heap_value a) args new_target c = Some (r, c') \<and>
    map_outcome c a es (\<lambda>k. map_spec (key_same c) (heap_value a) k code (argument args 0) (argument args 1)
      (log_content map_view map_live es)) (argument args 0) r c'"
proof -
  have at: "map_at (heap_store c) (heap_value a) = Some es" and count: "map_live_count c a = length (log_content map_view map_live es)"
    using m by (simp_all add: map_ok_def)
  have still: "map_outcome c a es f key (Inr w) c" if "\<And>k. f k = (w, log_content map_view map_live es)" for f key w
    using ok m changes_refl [of a c] that by (auto simp: map_outcome_def intro!: exI [of _ key] exI [of _ es] map_log.same_refl)
  show ?thesis
  proof (cases code)
    case MAP_GET
    show ?thesis unfolding map_builtin_dispatch_def MAP_GET using t at map_read [OF m, of "argument args 0"]
      by (cases "map_entry_find c es (argument args 0)") (auto simp: map_prototype_get_def map_spec_def intro!: still)
  next
    case MAP_HAS
    show ?thesis unfolding map_builtin_dispatch_def MAP_HAS using t at map_read(1) [OF m, of "argument args 0"]
      by (auto simp: map_prototype_has_def map_spec_def intro!: still)
  next
    case MAP_SET
    then show ?thesis using t map_set_outcome [OF ok n a m key v] by (simp add: map_builtin_dispatch_def)
  next
    case MAP_GET_OR_INSERT
    then show ?thesis using t map_get_or_insert_outcome [OF ok n a m key v] by (simp add: map_builtin_dispatch_def)
  next
    case MAP_DELETE
    then show ?thesis using t map_delete_outcome [OF ok a m, of "argument args 0" "argument args 1"]
      by (cases "map_prototype_delete (heap_value a) (argument args 0) c") (simp add: map_builtin_dispatch_def)
  next
    case MAP_CLEAR
    have "positions_stay map_live map_view es (map (\<lambda>e. dead_entry) es)" by (rule positions_stay_clear) (simp add: dead_entry_def)
    then show ?thesis using MAP_CLEAR t at a map_clear_effect [OF ok a m]
      by (intro exI conjI)
        (auto simp: map_builtin_dispatch_def map_prototype_clear_def Let_def map_outcome_def map_spec_def
          intro!: exI [of _ "argument args 0"] exI [of _ "map (\<lambda>e. dead_entry) es"] map_log.same_refl)
  next
    case MAP_SIZE_GETTER
    show ?thesis using MAP_SIZE_GETTER t at a count
      by (intro exI conjI) (auto simp: map_builtin_dispatch_def map_prototype_size_def map_spec_def intro!: still)
  qed
qed

definition set_outcome :: "keyed_context \<Rightarrow> u64 \<Rightarrow> set_element list \<Rightarrow> (oseo_value \<Rightarrow> oseo_value \<times> (oseo_value \<times> unit) list) \<Rightarrow>
    oseo_value \<Rightarrow> rt_error + oseo_value \<Rightarrow> keyed_context \<Rightarrow> bool" where
  "set_outcome c a es spec key r c' \<longleftrightarrow>
     (\<exists>E' C' Q'. heap_ok c' E' C' Q') \<and> changes_only a c c' \<and>
     (case r of
        Inl e \<Rightarrow> storage_refused ''Set'' c e \<and> set_ok c' a es
      | Inr w \<Rightarrow> \<exists>k es'. key_same c k key \<and> set_ok c' a es' \<and> positions_stay set_present set_view es es' \<and> (w, log_content set_view set_present es') = spec k)"

lemma set_read:
  shows "set_find c es key = None \<longleftrightarrow> assoc_get (key_same c) (log_content set_view set_present es) key = None"
proof -
  have "set_find c es key = Some i \<Longrightarrow> assoc_get (key_same c) (log_content set_view set_present es) key = Some ()" for i
    using set_log.get_found [of "registry_entry c" "heap_store c" key es i] by (simp add: find_by_log set_view_def)
  then show "set_find c es key = None \<longleftrightarrow> assoc_get (key_same c) (log_content set_view set_present es) key = None"
    using set_log.get_absent [of "registry_entry c" "heap_store c" key es]
    by (cases "set_find c es key") (auto simp: find_by_log)
qed

text \<open>Adding a key that is there changes nothing.\<close>

lemma put_unit: "assoc_get same l k \<noteq> None \<Longrightarrow> assoc_put same k () l = l"
proof -
  assume "assoc_get same l k \<noteq> None"
  then have "List.find (\<lambda>p. same (fst p) k) l \<noteq> None" by (auto simp: assoc_get_def)
  then have "\<exists>p \<in> set l. same (fst p) k" unfolding find_None_iff by blast
  moreover have "map (\<lambda>p. if same (fst p) k then (fst p, ()) else p) l = l" by (rule map_idI) auto
  ultimately show ?thesis by (simp add: assoc_put_def)
qed

lemma set_add_outcome:
  assumes ok: "heap_ok c E C Q" and n: "length (heap_objects c) \<le> n" and a: "a \<le> PAYLOAD_MASK" and m: "set_ok c a es"
    and key: "storable (heap_store c) key" "represented represent c (normalize_key key)"
  shows "\<exists>r c'. set_add represent n (heap_value a) key c = Some (r, c') \<and>
    set_outcome c a es (\<lambda>k. set_spec (key_same c) (heap_value a) k SET_ADD key (log_content set_view set_present es)) key r c'"
proof -
  have at: "set_at (heap_store c) (heap_value a) = Some es" using m by (simp add: set_ok_def)
  let ?k = "normalize_key key"
  show ?thesis
  proof (cases "set_find c es ?k")
    case (Some i)
    then have "assoc_get (key_same c) (log_content set_view set_present es) ?k \<noteq> None" using set_read [of c es ?k] by simp
    from put_unit [OF this] show ?thesis using at ok m Some normalize_same [of c key] changes_refl [of a c]
      by (intro exI conjI) (auto simp: set_add_def set_outcome_def set_spec_def Let_def intro!: exI [of _ ?k] exI [of _ es])
  next
    case None
    obtain r c' E' C' Q' where p: "set_append represent n (heap_value a) ?k c = Some (r, c')" "heap_ok c' E' C' Q'"
      "changes_only a c c'" "case r of Inl e \<Rightarrow> storage_refused ''Set'' c e \<and> set_ok c' a es
         | Inr w \<Rightarrow> w = heap_value a \<and> (\<exists>k. key_same c k ?k \<and> set_ok c' a (es @ [element_of k]))"
      using set_append_effect [OF ok n a m storable_normalize [OF key(1)] normalize_idem key(2) None] by blast
    have k: "key_same c k key" if "key_same c k ?k" for k using that normalize_same [of c key] by (simp add: same_value_zero_identity)
    have put: "log_content set_view set_present (es @ [element_of k]) = assoc_put (key_same c) k () (log_content set_view set_present es)"
      if "key_same c k ?k" for k
      using set_log.append_absent(1) [OF None [unfolded find_by_log] _ _ _ that, of "element_of k" "()"] m
      by (simp add: set_ok_def keys_ok_def element_of_def set_view_def)
    show ?thesis using p at k put by (cases r) (fastforce simp: set_add_def set_outcome_def set_spec_def Let_def None)+
  qed
qed

lemma set_delete_outcome:
  assumes ok: "heap_ok c E C Q" and a: "a \<le> PAYLOAD_MASK" and m: "set_ok c a es"
  shows "set_outcome c a es (\<lambda>k. set_spec (key_same c) (heap_value a) k SET_DELETE key (log_content set_view set_present es)) key
    (fst (set_delete (heap_value a) key c)) (snd (set_delete (heap_value a) key c))"
proof -
  have at: "set_at (heap_store c) (heap_value a) = Some es" using m by (simp add: set_ok_def)
  show ?thesis
  proof (cases "set_find c es key")
    case (Some i)
    note d = set_delete_effect [OF ok a m Some]
    have ps: "positions_stay set_present set_view es (es[i := dead_element])" by (rule positions_stay_update) (simp add: dead_element_def)
    show ?thesis using d at a ps set_read [of c es key]
      by (auto simp: set_delete_def set_remove_at_def set_outcome_def set_spec_def Let_def Some
          intro!: exI [of _ key] exI [of _ "es[i := dead_element]"] map_log.same_refl)
  next
    case None
    have "assoc_delete (key_same c) key (log_content set_view set_present es) = log_content set_view set_present es"
      by (rule set_log.delete_absent [OF None [unfolded find_by_log]])
    then show ?thesis using at ok m None set_read [of c es key] changes_refl [of a c]
      by (auto simp: set_delete_def set_outcome_def set_spec_def intro!: exI [of _ key] exI [of _ es] map_log.same_refl)
  qed
qed

lemma set_dispatch_outcome:
  assumes ok: "heap_ok c E C Q" and n: "length (heap_objects c) \<le> n" and m: "set_ok c a es" and a: "a \<le> PAYLOAD_MASK"
    and key: "storable (heap_store c) (argument args 0)" "represented represent c (normalize_key (argument args 0))"
  shows "\<exists>r c'. set_builtin_dispatch represent n code (heap_value a) args c = Some (r, c') \<and>
    set_outcome c a es (\<lambda>k. set_spec (key_same c) (heap_value a) k code (argument args 0)
      (log_content set_view set_present es)) (argument args 0) r c'"
proof -
  have at: "set_at (heap_store c) (heap_value a) = Some es" and count: "set_size_of c a = length (log_content set_view set_present es)"
    using m by (simp_all add: set_ok_def)
  have still: "set_outcome c a es f key (Inr w) c" if "\<And>k. f k = (w, log_content set_view set_present es)" for f key w
    using ok m changes_refl [of a c] that by (auto simp: set_outcome_def intro!: exI [of _ key] exI [of _ es] map_log.same_refl)
  show ?thesis
  proof (cases code)
    case SET_ADD
    then show ?thesis using set_add_outcome [OF ok n a m key] by (simp add: set_builtin_dispatch_def)
  next
    case SET_CLEAR
    have "positions_stay set_present set_view es (map (\<lambda>e. dead_element) es)" by (rule positions_stay_clear) (simp add: dead_element_def)
    then show ?thesis using SET_CLEAR at a set_clear_effect [OF ok a m]
      by (intro exI conjI)
        (auto simp: set_builtin_dispatch_def set_clear_def Let_def set_outcome_def set_spec_def
          intro!: exI [of _ "argument args 0"] exI [of _ "map (\<lambda>e. dead_element) es"] map_log.same_refl)
  next
    case SET_DELETE
    then show ?thesis using set_delete_outcome [OF ok a m, of "argument args 0"]
      by (cases "set_delete (heap_value a) (argument args 0) c") (simp add: set_builtin_dispatch_def)
  next
    case SET_HAS
    show ?thesis unfolding set_builtin_dispatch_def SET_HAS using at set_read [of c es "argument args 0"]
      by (auto simp: set_has_def set_spec_def Let_def intro!: still)
  next
    case SET_SIZE
    show ?thesis using SET_SIZE at a count
      by (intro exI conjI) (auto simp: set_builtin_dispatch_def set_size_def set_spec_def Let_def intro!: still)
  qed
qed

subsection \<open>A heap for the witnesses\<close>

text \<open>An empty Map and an empty Set, both rooted, on a host that collects at every safepoint.\<close>

definition plain_object :: ordinary_object where
  "plain_object = \<lparr>prototype = oseo_null, properties = [], private_elements = [], primitive_data = False,
     primitive_value = oseo_undefined, iterator_kind = ITERATOR_NONE, iterator_target = oseo_undefined,
     regexp_string_iterator = False, regexp_iterator_regexp = oseo_undefined, regexp_iterator_subject = oseo_undefined,
     async_from_sync = False, async_sync_iterator = oseo_undefined, wrap_for_valid_iterator = False,
     wrapped_iterator = oseo_undefined, wrapped_next = oseo_undefined, generator = None\<rparr>"

definition keyed_roots :: collector_roots where
  "keyed_roots = \<lparr>frame_slots = [[heap_value 8, heap_value 16]], microtask_head = oseo_undefined,
     async_call_capability = oseo_undefined, microtask_tail = oseo_undefined, pending_rejections = oseo_undefined,
     pending_rejection_tail = oseo_undefined,
     initial_realm = \<lparr>intrinsics = [], global_this = oseo_undefined, global_lexicals = oseo_undefined, template_cache = [],
       regexp_literal_cache = []\<rparr>,
     realm_record = oseo_undefined, activations = [],
     legacy_function_keys = [], well_known_symbols = [], registered_symbols = [], root_timer_head = oseo_undefined,
     atomics_waiter_head = oseo_undefined, atomics_waiter_tail = oseo_undefined, agent_broadcast_callback = oseo_undefined,
     kept_objects = [], module_table = None, pending_tail_call = None\<rparr>"

definition keyed_store :: store where
  "keyed_store = [8 \<mapsto> block_of (HEAP_ORDINARY plain_object (HEAP_MAP [])), 16 \<mapsto> block_of (HEAP_ORDINARY plain_object (HEAP_SET []))]"

definition keyed_heap :: keyed_context where
  "keyed_heap = \<lparr>allocation_attempts = 0, fail_allocation_at = 0, host_malloc = \<lambda>n s. 64, heap_store = keyed_store,
     heap_objects = [8, 16], heap_roots = keyed_roots,
     heap_queue = \<lparr>queue_head = oseo_undefined, queue_tail = oseo_undefined, pending_count = 0\<rparr>, heap_strings = None,
     weak_counts = \<lambda>k. 0, observe_specialization = False, collect_every_safepoint = True, collections = 0, allocations = 0,
     registry_entry = \<lambda>a. 0, map_capacity = \<lambda>a. 0, map_live_count = \<lambda>a. 0, set_capacity = \<lambda>a. 0, set_size_of = \<lambda>a. 0\<rparr>"

lemma keyed_views:
  "bodies keyed_store = [8 \<mapsto> HEAP_ORDINARY plain_object (HEAP_MAP []), 16 \<mapsto> HEAP_ORDINARY plain_object (HEAP_SET [])]"
  "table_of keyed_store a = None" "entry_of keyed_store a = None" "cell_of keyed_store a = None" "registry_of keyed_store a = None"
  by (simp_all add: table_of_def entry_of_def cell_of_def registry_of_def fun_eq_iff bodies_def keyed_store_def block_of_def)

lemma keyed_addresses: "heap_address (heap_value 8) = 8" "heap_address (heap_value 16) = 16" "(8 :: u64) \<le> PAYLOAD_MASK" "(16 :: u64) \<le> PAYLOAD_MASK"
  by (simp_all add: PAYLOAD_MASK_def)

lemma keyed_program: "program_value keyed_store oseo_undefined" "program_value keyed_store oseo_null"
  "program_value keyed_store (heap_value 8)" "program_value keyed_store (heap_value 16)"
  by (simp_all add: program_value_def internal_def is_entry_def keyed_views keyed_addresses is_heap_def tag_defs)
    (simp_all add: keyed_store_def)

lemma keyed_heap_ok: "heap_ok keyed_heap (\<lambda>a. []) (\<lambda>a. []) []"
proof -
  have f: "heap_store keyed_heap = keyed_store" "heap_objects keyed_heap = [8, 16]" "heap_roots keyed_heap = keyed_roots"
    "heap_strings keyed_heap = None" "heap_queue keyed_heap = \<lparr>queue_head = oseo_undefined, queue_tail = oseo_undefined, pending_count = 0\<rparr>"
    by (simp_all add: keyed_heap_def)
  have s: "store_ok keyed_store (heap_queue keyed_heap) None (\<lambda>a. []) (\<lambda>a. []) []"
    unfolding store_ok_def
  proof (intro conjI)
    show "\<forall>a \<in> dom keyed_store. a \<noteq> 0 \<and> a \<le> PAYLOAD_MASK"
      by (auto simp: keyed_store_def PAYLOAD_MASK_def word_le_nat_alt split: if_splits)
    show "\<forall>a b v. bodies keyed_store a = Some b \<longrightarrow> v \<in> set (held b) \<longrightarrow> program_value keyed_store v"
      using keyed_program by (auto simp: keyed_views ordinary_edges_def plain_object_def split: if_splits)
    show "weak_ok keyed_store (\<lambda>a. [])"
      by (auto simp: weak_ok_def is_table_def is_entry_def keyed_views split: if_splits)
  qed (simp_all add: entries_linked_def queue_ok_def registries_ok_def cells_linked_def keyed_views f back_link_def last_of_def
      record_of_def string_table_ok_def)
  show ?thesis unfolding heap_ok_def
  proof (intro conjI)
    show "clean (heap_store keyed_heap)" by (simp add: f clean_def is_marked_def pending_of_def keyed_store_def block_of_def)
    show "dom (heap_store keyed_heap) = set (heap_objects keyed_heap)" by (auto simp: f keyed_store_def)
    show "distinct (heap_objects keyed_heap)" by (simp add: f)
    show "\<forall>v \<in> set (early_roots (heap_roots keyed_heap) @ late_roots (heap_roots keyed_heap)). program_value (heap_store keyed_heap) v"
      using keyed_program by (simp add: f early_roots_def late_roots_def keyed_roots_def realm_edges_def)
    show "store_ok (heap_store keyed_heap) (heap_queue keyed_heap) (heap_strings keyed_heap) (\<lambda>a. []) (\<lambda>a. []) []"
      using s by (simp add: f)
    show "weak_counts keyed_heap = kind_count (heap_store keyed_heap) (heap_objects keyed_heap)"
    proof
      fix k show "weak_counts keyed_heap k = kind_count (heap_store keyed_heap) (heap_objects keyed_heap) k"
        by (cases k) (simp_all add: f keyed_heap_def kind_count_def keyed_store_def block_of_def ordinary_uncounted)
    qed
  qed
qed

lemma keyed_heap_objects: "map_ok keyed_heap 8 []" "set_ok keyed_heap 16 []" "length (heap_objects keyed_heap) \<le> 2"
  "heap_store keyed_heap = keyed_store"
  by (simp_all add: map_ok_def set_ok_def keys_ok_def keyed_heap_def map_at_bodies set_at_bodies keyed_views keyed_addresses(3,4))

lemma keyed_heap_unregistered: "represented represent keyed_heap k"
  by (simp add: represented_def keyed_heap_def)

subsection \<open>The properties\<close>

text \<open>C29. The identities of values are those of ECMA-262, over \<open>identity_of\<close>, which names what a value
  is: a number, the content of a string or of a BigInt, an entry of the symbol registry, or an address.
  SameValue and SameValueZero are the equality of identities, the second with one zero; strict equality of
  language values is SameValueZero but for a NaN; and the equality of property keys, which are strings
  and symbols, is SameValue.\<close>

theorem identities_of_values:
  "same_value registry st left right = (identity_of exact_identity registry st left = identity_of exact_identity registry st right)
   \<and> same_value_zero registry st left right = (identity_of zero_identity registry st left = identity_of zero_identity registry st right)
   \<and> (language_value left \<longrightarrow> language_value right \<longrightarrow>
        strict_equal_value registry st left right =
          (same_value_zero registry st left right \<and> \<not> (is_number left \<and> isnan (number_value left))))
   \<and> (\<not> is_number left \<and> \<not> is_bigint st left \<longrightarrow> property_key_equal registry st left right = same_value registry st left right)"
  using same_value_identity same_value_zero_identity strict_equal_zero property_key_same by blast

theorem identities_of_values_witness:
  "strict_equal_value (\<lambda>a. 0) keyed_store oseo_null oseo_null \<and> \<not> strict_equal_value (\<lambda>a. 0) keyed_store CANONICAL_NAN CANONICAL_NAN
   \<and> property_key_equal (\<lambda>a. 0) keyed_store (heap_value 8) (heap_value 8)"
proof -
  have n: "is_number CANONICAL_NAN" "number_value CANONICAL_NAN = CANONICAL_NAN" "\<not> is_number oseo_null" "\<not> is_number (heap_value 8)"
    "\<not> is_bigint keyed_store (heap_value 8)"
    using is_heap_value [of 8]
    by (simp_all add: is_number_def number_value_def tag_of_nan tag_defs is_heap_def body_kinds body_at_bodies keyed_views keyed_addresses)
  then have l: "language_value oseo_null" "language_value CANONICAL_NAN" by (simp_all add: language_value_def)
  show ?thesis
    using identities_of_values [of "\<lambda>a. 0" keyed_store oseo_null oseo_null]
      identities_of_values [of "\<lambda>a. 0" keyed_store CANONICAL_NAN CANONICAL_NAN]
      identities_of_values [of "\<lambda>a. 0" keyed_store "heap_value 8" "heap_value 8"] l n isnan_canonical by auto
qed





definition map_method :: "map_builtin \<Rightarrow> string" where
  "map_method code = (case code of MAP_GET \<Rightarrow> ''Map.prototype.get'' | MAP_HAS \<Rightarrow> ''Map.prototype.has'' | MAP_SET \<Rightarrow> ''Map.prototype.set''
     | MAP_GET_OR_INSERT \<Rightarrow> ''Map.prototype.getOrInsert'' | MAP_DELETE \<Rightarrow> ''Map.prototype.delete''
     | MAP_CLEAR \<Rightarrow> ''Map.prototype.clear'' | MAP_SIZE_GETTER \<Rightarrow> ''get Map.prototype.size'')"



end
