(* ===== verification/Keyed_Iteration.thy ===== *)
theory Keyed_Iteration
  imports Keyed_Properties
begin

text \<open>
  Iteration over the keyed collections: the iterators of Map and Set (\<open>map_iterator_next\<close>,
  \<open>set_iterator_next\<close>) and \<open>Map.prototype.forEach\<close>. An iterator holds an index into the log, which
  stays valid because records keep their positions. \<open>call\<close> stands for \<open>oseo_call_function\<close>: compiled
  code, which may do anything to the context. The objects the iterators wrap their answers in are
  those of \<open>runtime_iterator.c\<close>; \<open>iteration\<close> is what they hold.
\<close>

subsection \<open>The code\<close>

text \<open>The loop over dead records: the index of the next live one, and the index to go on from.\<close>

function next_alive :: "('e \<Rightarrow> bool) \<Rightarrow> 'e list \<Rightarrow> nat \<Rightarrow> nat option \<times> nat" where
  "next_alive alive es index =
     (if index \<ge> length es then (None, index)
      else if alive (es ! index) then (Some index, index + 1)
      else next_alive alive es (index + 1))"
  by auto

termination by (relation "measure (\<lambda>(alive, es, index). length es - index)") auto

declare next_alive.simps [simp del]

datatype map_iteration_kind = MAP_ITERATION_KEY | MAP_ITERATION_VALUE | MAP_ITERATION_KEY_VALUE

datatype iteration = Iteration_Done | Iteration_Value oseo_value | Iteration_Pair oseo_value oseo_value

record map_iterator =
  map_target :: oseo_value
  map_index :: nat
  map_kind :: map_iteration_kind

definition map_yield :: "map_iteration_kind \<Rightarrow> map_entry \<Rightarrow> iteration" where
  "map_yield kind e =
     (if kind = MAP_ITERATION_KEY then Iteration_Value (map_key e)
      else if kind = MAP_ITERATION_VALUE then Iteration_Value (map_value e)
      else Iteration_Pair (map_key e) (map_value e))"

text \<open>\<open>None\<close>: the target is no Map, which no iterator has.\<close>

definition map_iterator_next :: "store \<Rightarrow> map_iterator \<Rightarrow> (iteration \<times> map_iterator) option" where
  "map_iterator_next st it =
     (if tag_of (map_target it) = TAG_UNDEFINED then Some (Iteration_Done, it)
      else case map_at st (map_target it) of
        None \<Rightarrow> None
      | Some es \<Rightarrow>
          (case next_alive map_live es (map_index it) of
             (Some index, i) \<Rightarrow> Some (map_yield (map_kind it) (es ! index), it\<lparr>map_index := i\<rparr>)
           | (None, i) \<Rightarrow> Some (Iteration_Done, it\<lparr>map_target := oseo_undefined, map_index := i\<rparr>)))"

record set_iterator =
  iterated_set :: oseo_value
  set_index :: nat
  set_entries :: bool
  set_done :: bool

definition set_iterator_next :: "store \<Rightarrow> set_iterator \<Rightarrow> iteration \<times> set_iterator" where
  "set_iterator_next st it =
     (case (if set_done it then None else set_at st (iterated_set it)) of
        None \<Rightarrow> (Iteration_Done, it\<lparr>set_done := True, iterated_set := oseo_undefined\<rparr>)
      | Some es \<Rightarrow>
          (case next_alive set_present es (set_index it) of
             (Some index, i) \<Rightarrow>
               (if set_entries it then Iteration_Pair (set_value (es ! index)) (set_value (es ! index))
                else Iteration_Value (set_value (es ! index)), it\<lparr>set_index := i\<rparr>)
           | (None, i) \<Rightarrow> (Iteration_Done, it\<lparr>set_index := i, set_done := True, iterated_set := oseo_undefined\<rparr>)))"

type_synonym 'c caller = "oseo_value \<Rightarrow> oseo_value \<Rightarrow> oseo_value list \<Rightarrow> 'c \<Rightarrow> (rt_error + oseo_value) \<times> 'c"

text \<open>The frame of \<open>map_prototype_for_each\<close> before a call, in the place of the one before.\<close>

definition call_frame :: "oseo_value list \<Rightarrow> 'a heap_state_scheme \<Rightarrow> 'a heap_state_scheme" where
  "call_frame vs c = push_frame vs (pop_frame c)"

fun map_for_each_loop :: "nat \<Rightarrow> 'a heap_state_scheme caller \<Rightarrow> oseo_value \<Rightarrow> oseo_value \<Rightarrow> oseo_value \<Rightarrow> nat \<Rightarrow>
    'a heap_state_scheme \<Rightarrow> ((rt_error + oseo_value) \<times> 'a heap_state_scheme) option" where
  "map_for_each_loop 0 call receiver callback this index c = None"
| "map_for_each_loop (Suc n) call receiver callback this index c =
     (case map_at (heap_store c) receiver of
        None \<Rightarrow> None
      | Some es \<Rightarrow>
          (case next_alive map_live es index of
             (None, i) \<Rightarrow> Some (Inr oseo_undefined, c)
           | (Some p, i) \<Rightarrow>
               let v = map_value (es ! p); k = map_key (es ! p)
               in case call callback this [v, k, receiver] (call_frame [receiver, callback, this, v, k, receiver] c) of
                    (Inl err, c) \<Rightarrow> Some (Inl err, c)
                  | (Inr _, c) \<Rightarrow> map_for_each_loop n call receiver callback this i c))"

definition not_callable :: rt_error where
  "not_callable = LanguageError ERROR_TYPE ''Map.prototype.forEach callback is not callable.''"

definition map_prototype_for_each :: "nat \<Rightarrow> (oseo_value \<Rightarrow> bool) \<Rightarrow> 'a heap_state_scheme caller \<Rightarrow> oseo_value \<Rightarrow> oseo_value \<Rightarrow> oseo_value \<Rightarrow>
    'a heap_state_scheme \<Rightarrow> ((rt_error + oseo_value) \<times> 'a heap_state_scheme) option" where
  "map_prototype_for_each n is_callable call receiver callback this c =
     (if map_at (heap_store c) receiver = None then Some (Inl (incompatible ''Map.prototype.forEach''), c)
      else if \<not> is_callable callback then Some (Inl not_callable, c)
      else map_option (\<lambda>(r, c). (r, pop_frame c))
        (map_for_each_loop n call receiver callback this 0
          (push_frame [receiver, callback, this, oseo_undefined, oseo_undefined, receiver] c)))"

subsection \<open>The next live record\<close>

lemma next_alive_None:
  "next_alive alive es index = (None, i) \<Longrightarrow> filter alive (drop index es) = [] \<and> length es \<le> i \<and> index \<le> i"
proof (induction alive es index rule: next_alive.induct)
  case (1 alive es index)
  show ?case
  proof (cases "index < length es \<and> \<not> alive (es ! index)")
    case True
    have "drop index es = es ! index # drop (index + 1) es" using True by (simp add: Cons_nth_drop_Suc)
    then show ?thesis using 1 True by (auto simp: next_alive.simps [of alive es index])
  next
    case False
    then show ?thesis using 1(2) by (auto simp: next_alive.simps [of alive es index] split: if_splits)
  qed
qed

lemma next_alive_Some:
  "next_alive alive es index = (Some p, i) \<Longrightarrow>
     i = p + 1 \<and> index \<le> p \<and> p < length es \<and> alive (es ! p) \<and> (\<forall>q. index \<le> q \<longrightarrow> q < p \<longrightarrow> \<not> alive (es ! q)) \<and>
     filter alive (drop index es) = es ! p # filter alive (drop i es)"
proof (induction alive es index rule: next_alive.induct)
  case (1 alive es index)
  show ?case
  proof (cases "index < length es")
    case True
    have d: "drop index es = es ! index # drop (index + 1) es" using True by (simp add: Cons_nth_drop_Suc)
    show ?thesis
    proof (cases "alive (es ! index)")
      case live: True
      then show ?thesis using 1(2) True d by (auto simp: next_alive.simps [of alive es index])
    next
      case False
      then have "next_alive alive es (index + 1) = (Some p, i)" using 1(2) True by (simp add: next_alive.simps [of alive es index])
      from 1(1) [OF _ False this] True have n: "i = p + 1" "index + 1 \<le> p" "p < length es" "alive (es ! p)"
        "\<forall>q. index + 1 \<le> q \<longrightarrow> q < p \<longrightarrow> \<not> alive (es ! q)" "filter alive (drop (index + 1) es) = es ! p # filter alive (drop i es)"
        by simp_all
      have "\<not> alive (es ! q)" if "index \<le> q" "q < p" for q using n(5) False that by (cases "q = index") auto
      with n d False show ?thesis by simp
    qed
  next
    case False
    then show ?thesis using 1(2) by (simp add: next_alive.simps [of alive es index])
  qed
qed

lemma next_alive_cases:
  obtains (ends) i where "next_alive alive es index = (None, i)" | (found) p where "next_alive alive es index = (Some p, p + 1)"
  using next_alive_Some [of alive es index] by (cases "next_alive alive es index"; cases "fst (next_alive alive es index)") auto

subsection \<open>Iterating while the Map changes\<close>

text \<open>The iterator \<open>it\<close> was made for the Map \<open>m\<close> and has yielded the records at the positions \<open>ps\<close>; between
  two answers the records may change in any way that keeps their positions.\<close>

inductive map_iteration :: "oseo_value \<Rightarrow> store \<Rightarrow> map_iterator \<Rightarrow> nat list \<Rightarrow> bool" for m where
  start: "map_at st m = Some es \<Longrightarrow> map_iteration m st \<lparr>map_target = m, map_index = 0, map_kind = kind\<rparr> []"
| yields: "map_iteration m st it ps \<Longrightarrow> map_iterator_next st it = Some (x, it') \<Longrightarrow> x \<noteq> Iteration_Done \<Longrightarrow>
    map_iteration m st it' (ps @ [map_index it' - 1])"
| changes: "map_iteration m st it ps \<Longrightarrow> map_at st m = Some es \<Longrightarrow> map_at st' m = Some es' \<Longrightarrow>
    positions_stay map_live map_view es es' \<Longrightarrow> map_iteration m st' it ps"

text \<open>Asking until the iterator is done, at most \<open>n\<close> times.\<close>

fun drain :: "nat \<Rightarrow> store \<Rightarrow> map_iterator \<Rightarrow> iteration list option" where
  "drain 0 st it = None"
| "drain (Suc n) st it =
     (case map_iterator_next st it of
        None \<Rightarrow> None
      | Some (x, it') \<Rightarrow> if x = Iteration_Done then Some [] else map_option ((#) x) (drain n st it'))"

lemma map_yield_more [simp]: "map_yield kind e \<noteq> Iteration_Done"
  by (simp add: map_yield_def)

lemma map_at_tag: "map_at st m = Some es \<Longrightarrow> tag_of m \<noteq> TAG_UNDEFINED"
  by (auto simp: map_at_def body_at_def is_heap_def tag_defs split: if_splits)

lemma map_iterator_next_live:
  assumes "map_at st (map_target it) = Some es"
  shows "next_alive map_live es (map_index it) = (Some p, i) \<Longrightarrow>
      map_iterator_next st it = Some (map_yield (map_kind it) (es ! p), it\<lparr>map_index := i\<rparr>)"
    and "next_alive map_live es (map_index it) = (None, i) \<Longrightarrow> \<exists>it'. map_iterator_next st it = Some (Iteration_Done, it')"
  using assms map_at_tag [OF assms] by (simp_all add: map_iterator_next_def)

definition iterated :: "map_entry list \<Rightarrow> nat \<Rightarrow> nat list \<Rightarrow> bool" where
  "iterated es i ps \<longleftrightarrow> sorted_wrt (<) ps \<and> (\<forall>p \<in> set ps. p < i) \<and> (\<forall>p < i. p < length es \<longrightarrow> map_live (es ! p) \<longrightarrow> p \<in> set ps)"

lemma map_iteration_invariant:
  "map_iteration m st it ps \<Longrightarrow> map_target it = m \<and> (\<exists>es. map_at st m = Some es \<and> map_index it \<le> length es \<and> iterated es (map_index it) ps)"
proof (induction rule: map_iteration.induct)
  case (start st es kind)
  then show ?case by (simp add: iterated_def)
next
  case (yields st it ps x it')
  then obtain es where es: "map_target it = m" "map_at st m = Some es" "iterated es (map_index it) ps" by auto
  show ?case
  proof (cases rule: next_alive_cases [of map_live es "map_index it"])
    case (ends i)
    then have False using map_iterator_next_live(2) [of st it es i] es ends yields(2,3) by auto
    then show ?thesis ..
  next
    case (found p)
    note p = next_alive_Some [OF found]
    have it': "it' = it\<lparr>map_index := p + 1\<rparr>" using map_iterator_next_live(1) [of st it es p "p + 1"] es yields(2) found by simp
    have "iterated es (p + 1) (ps @ [p])"
      unfolding iterated_def
    proof (intro conjI)
      show "sorted_wrt (<) (ps @ [p])" using es(3) p by (auto simp: iterated_def sorted_wrt_append)
      show "\<forall>q \<in> set (ps @ [p]). q < p + 1" using es(3) p by (auto simp: iterated_def)
      show "\<forall>q < p + 1. q < length es \<longrightarrow> map_live (es ! q) \<longrightarrow> q \<in> set (ps @ [p])"
      proof (intro allI impI)
        fix q assume q: "q < p + 1" "q < length es" "map_live (es ! q)"
        then have "q < map_index it \<or> q = p" using p by (metis less_Suc_eq not_less Suc_eq_plus1)
        then show "q \<in> set (ps @ [p])" using es(3) q by (auto simp: iterated_def)
      qed
    qed
    then show ?thesis using es p by (simp add: it')
  qed
next
  case (changes st it ps es st' es')
  then have "map_index it \<le> length es" "iterated es (map_index it) ps" "length es \<le> length es'"
    by (auto simp: positions_stay_def)
  moreover have "iterated es' (map_index it) ps"
    using calculation changes(4) by (auto simp: iterated_def positions_stay_def)
  ultimately show ?case using changes by auto
qed

lemma drain_live:
  "map_at st (map_target it) = Some es \<Longrightarrow> length es - map_index it \<le> n \<Longrightarrow>
   drain (Suc n) st it = Some (map (map_yield (map_kind it)) (filter map_live (drop (map_index it) es)))"
proof (induction n arbitrary: it)
  case 0
  then have "next_alive map_live es (map_index it) = (None, map_index it)" by (simp add: next_alive.simps)
  then show ?case using 0 map_iterator_next_live(2) [OF 0(1)] by auto
next
  case (Suc n)
  show ?case
  proof (cases rule: next_alive_cases [of map_live es "map_index it"])
    case (ends i)
    then show ?thesis using map_iterator_next_live(2) [OF Suc.prems(1)] next_alive_None [OF ends] by auto
  next
    case (found p)
    note p = next_alive_Some [OF found]
    have "drain (Suc n) st (it\<lparr>map_index := p + 1\<rparr>) =
        Some (map (map_yield (map_kind it)) (filter map_live (drop (p + 1) es)))"
    proof -
      have "length es - (p + 1) \<le> n" using Suc.prems(2) p by linarith
      then show ?thesis using Suc.IH [of "it\<lparr>map_index := p + 1\<rparr>"] Suc.prems(1) by (simp del: drain.simps)
    qed
    then show ?thesis using map_iterator_next_live(1) [OF Suc.prems(1) found] p by (simp del: drain.simps add: drain.simps(2) [of "Suc n"])
  qed
qed

subsection \<open>Calling a function on every record\<close>

definition visit :: "'a heap_state_scheme caller \<Rightarrow> oseo_value \<Rightarrow> oseo_value \<Rightarrow> oseo_value \<Rightarrow> oseo_value \<times> oseo_value \<Rightarrow>
    'a heap_state_scheme \<Rightarrow> 'a heap_state_scheme" where
  "visit call receiver callback this = (\<lambda>(k, v) c.
     snd (call callback this [v, k, receiver] (call_frame [receiver, callback, this, v, k, receiver] c)))"

lemma call_frame_store [simp]: "heap_store (call_frame vs c) = heap_store c"
  by (simp add: call_frame_def)

lemma map_for_each_loop_fold:
  assumes quiet: "\<And>arguments c. fst (call callback this arguments c) = Inr (answer arguments c)"
      "\<And>arguments c. map_at (heap_store (snd (call callback this arguments c))) receiver = map_at (heap_store c) receiver"
  shows "map_at (heap_store c) receiver = Some es \<Longrightarrow> length es - index < n \<Longrightarrow>
    map_for_each_loop n call receiver callback this index c =
      Some (Inr oseo_undefined, fold (visit call receiver callback this) (log_content map_view map_live (drop index es)) c)"
proof (induction n arbitrary: index c)
  case 0
  then show ?case by simp
next
  case (Suc n)
  show ?case
  proof (cases rule: next_alive_cases [of map_live es index])
    case (ends i)
    then show ?thesis using Suc.prems next_alive_None [OF ends] by (simp add: log_content_def)
  next
    case (found p)
    note p = next_alive_Some [OF found]
    let ?c = "visit call receiver callback this (map_view (es ! p)) c"
    have c: "call callback this [map_value (es ! p), map_key (es ! p), receiver]
        (call_frame [receiver, callback, this, map_value (es ! p), map_key (es ! p), receiver] c) = (Inr x, ?c)"
      if "x = answer [map_value (es ! p), map_key (es ! p), receiver]
        (call_frame [receiver, callback, this, map_value (es ! p), map_key (es ! p), receiver] c)" for x
      using quiet(1) that by (simp add: visit_def map_view_def prod_eq_iff)
    have "map_at (heap_store ?c) receiver = Some es" using quiet(2) Suc.prems(1) by (simp add: visit_def map_view_def)
    then have "map_for_each_loop n call receiver callback this (p + 1) ?c =
        Some (Inr oseo_undefined, fold (visit call receiver callback this) (log_content map_view map_live (drop (p + 1) es)) ?c)"
      by (rule Suc.IH) (use Suc.prems(2) p in linarith)
    then show ?thesis using Suc.prems(1) found p c [OF refl] by (simp add: log_content_def)
  qed
qed

lemma set_iterator_next_live:
  assumes "\<not> set_done it" "set_at st (iterated_set it) = Some es"
  shows "next_alive set_present es (set_index it) = (Some p, i) \<Longrightarrow>
      set_iterator_next st it = (if set_entries it then Iteration_Pair (set_value (es ! p)) (set_value (es ! p)) else Iteration_Value (set_value (es ! p)),
        it\<lparr>set_index := i\<rparr>)"
    and "next_alive set_present es (set_index it) = (None, i) \<Longrightarrow> fst (set_iterator_next st it) = Iteration_Done"
  using assms by (simp_all add: set_iterator_next_def)

subsection \<open>The properties\<close>

text \<open>A heap whose Map has a live record between two dead ones.\<close>

definition iterated_map :: "map_entry list" where
  "iterated_map = [dead_entry, map_entry_of (heap_value 8) oseo_null, dead_entry]"

definition iterated_heap :: keyed_context where
  "iterated_heap = write_records 8 (HEAP_MAP iterated_map) keyed_heap"

lemma iterated_heap_map: "map_at (heap_store iterated_heap) (heap_value 8) = Some iterated_map"
  using exotic_views(1) [of keyed_store 8 plain_object "HEAP_MAP []" "HEAP_MAP iterated_map"]
  by (simp add: iterated_heap_def keyed_heap_objects map_at_bodies keyed_addresses keyed_views)



text \<open>C34. Iterators see every record that stays. However the Map changes between the answers of an
  iterator, as long as records keep their positions (which every method of Map guarantees), the positions
  it has yielded are increasing, so that no record comes twice; every live record before its index has
  been yielded; and from any moment on, when the Map is left alone, the iterator answers with exactly
  the live records from its index on and then ends, within one more request than there are records.\<close>

theorem map_iterator_yields_live:
  assumes "map_iteration m st it ps" "map_at st m = Some es"
  shows "sorted_wrt (<) ps \<and> (\<forall>p \<in> set ps. p < map_index it) \<and>
    (\<forall>p < map_index it. p < length es \<longrightarrow> map_live (es ! p) \<longrightarrow> p \<in> set ps) \<and>
    drain (Suc (length es)) st it = Some (map (map_yield (map_kind it)) (filter map_live (drop (map_index it) es)))"
  using map_iteration_invariant [OF assms(1)] assms(2) drain_live [of st it es "length es"] by (auto simp: iterated_def)

theorem map_iterator_yields_live_witness:
  "drain 4 (heap_store iterated_heap) \<lparr>map_target = heap_value 8, map_index = 0, map_kind = MAP_ITERATION_VALUE\<rparr> =
     Some [Iteration_Value oseo_null]"
  using map_iterator_yields_live [OF map_iteration.start [OF iterated_heap_map] iterated_heap_map, of MAP_ITERATION_VALUE]
  by (simp add: iterated_map_def dead_entry_def map_entry_of_def map_yield_def del: drain.simps) (simp add: numeral_eq_Suc)

end
