(* ===== verification/Binary64_Arith.thy ===== *)
theory Binary64_Arith
  imports Values
begin

text \<open>
  The arithmetic of the C type \<open>double\<close> that the Date component uses: \<open>+\<close>, \<open>-\<close>, \<open>*\<close>, \<open>/\<close>, \<open>fmod\<close>
  and \<open>floor\<close> of IEEE 754 binary64, rounding to nearest with ties to even. Exact results are
  rationals over the unit \<open>2^-1074\<close>, and \<open>round_ratio\<close> rounds them once.

  The lemmas say when a computation on doubles that hold integers is the computation on integers:
  \<open>holds d n\<close> is the relation between a double and the integer it represents, with either sign for
  zero.
\<close>

subsection \<open>Rounding a quotient\<close>

text \<open>The multiple of \<open>2 ^ k\<close> nearest to \<open>num / den\<close>, divided by \<open>2 ^ k\<close>.\<close>

definition round_units :: "nat \<Rightarrow> nat \<Rightarrow> nat \<Rightarrow> nat" where
  "round_units num den k =
     (let q = num div (den * 2 ^ k); r = num mod (den * 2 ^ k)
      in if den * 2 ^ k < 2 * r \<or> 2 * r = den * 2 ^ k \<and> odd q then q + 1 else q)"

definition ratio_exponent :: "nat \<Rightarrow> nat \<Rightarrow> nat" where
  "ratio_exponent num den = nbits (num div den) - 53"

text \<open>The double nearest to \<open>num / den * 2^-1074\<close>. The field of the exponent and that of the
  fraction are one number, so that a carry out of the fraction moves to the next binade.\<close>

definition round_ratio :: "bool \<Rightarrow> nat \<Rightarrow> nat \<Rightarrow> double" where
  "round_ratio s num den =
     (let k = ratio_exponent num den; u = k * 2 ^ 52 + round_units num den k
      in if 2047 * 2 ^ 52 \<le> u then make_double s 2047 0 else make_double s (u div 2 ^ 52) (u mod 2 ^ 52))"

subsection \<open>The operations\<close>

abbreviation NAN :: double where
  "NAN \<equiv> CANONICAL_NAN"

definition is_zero :: "double \<Rightarrow> bool" where
  "is_zero d \<longleftrightarrow> dbl_exp d = 0 \<and> dbl_frac d = 0"

definition dbl_add :: "double \<Rightarrow> double \<Rightarrow> double" where
  "dbl_add a b =
     (if isnan a \<or> isnan b then NAN
      else if isinf a then (if isinf b \<and> dbl_sign a \<noteq> dbl_sign b then NAN else a)
      else if isinf b then b
      else
        let v = scaled a + scaled b
        in if v = 0 then make_double (dbl_sign a \<and> dbl_sign b) 0 0 else round_ratio (v < 0) (nat \<bar>v\<bar>) 1)"

definition dbl_sub :: "double \<Rightarrow> double \<Rightarrow> double" where
  "dbl_sub a b = dbl_add a (dbl_neg b)"

definition dbl_mul :: "double \<Rightarrow> double \<Rightarrow> double" where
  "dbl_mul a b =
     (let s = (dbl_sign a \<noteq> dbl_sign b)
      in if isnan a \<or> isnan b then NAN
         else if isinf a \<or> isinf b then (if is_zero a \<or> is_zero b then NAN else make_double s 2047 0)
         else round_ratio s (magnitude_of a * magnitude_of b) (2 ^ 1074))"

definition dbl_div :: "double \<Rightarrow> double \<Rightarrow> double" where
  "dbl_div a b =
     (let s = (dbl_sign a \<noteq> dbl_sign b)
      in if isnan a \<or> isnan b then NAN
         else if isinf a then (if isinf b then NAN else make_double s 2047 0)
         else if isinf b then make_double s 0 0
         else if is_zero b then (if is_zero a then NAN else make_double s 2047 0)
         else round_ratio s (magnitude_of a * 2 ^ 1074) (magnitude_of b))"

text \<open>The remainder of a division truncated toward zero is exact and has the sign of the dividend.\<close>

definition fmod :: "double \<Rightarrow> double \<Rightarrow> double" where
  "fmod a b =
     (if isnan a \<or> isnan b \<or> isinf a \<or> is_zero b then NAN
      else if isinf b then a
      else round_ratio (dbl_sign a) (magnitude_of a mod magnitude_of b) 1)"

text \<open>A result of zero keeps the sign of the operand.\<close>

definition dbl_floor :: "double \<Rightarrow> double" where
  "dbl_floor d =
     (if 1075 \<le> dbl_exp d then d
      else let n = scaled d div 2 ^ 1074
           in if n = 0 then make_double (dbl_sign d) 0 0 else double_of_int n)"

subsection \<open>The rounded quotient\<close>

lemma round_units_range: "num div (den * 2 ^ k) \<le> round_units num den k" "round_units num den k \<le> num div (den * 2 ^ k) + 1"
  by (simp_all add: round_units_def Let_def)

lemma round_units_near:
  assumes "0 < den"
  shows "2 * \<bar>int (round_units num den k * (den * 2 ^ k)) - int num\<bar> \<le> int (den * 2 ^ k)"
proof -
  define w where "w = den * 2 ^ k"
  define q where "q = num div w"
  define r where "r = num mod w"
  have "r < w" using assms unfolding r_def w_def by (intro mod_less_divisor) simp
  then have r: "int r < int w" by (simp only: of_nat_less_iff)
  have n: "int num = int q * int w + int r" unfolding q_def r_def by (metis div_mult_mod_eq of_nat_add of_nat_mult)
  have u: "round_units num den k = (if w < 2 * r \<or> 2 * r = w \<and> odd q then q + 1 else q)"
    unfolding round_units_def Let_def w_def q_def r_def ..
  show ?thesis
  proof (cases "w < 2 * r \<or> 2 * r = w \<and> odd q")
    case True
    then have "int w \<le> 2 * int r" by linarith
    moreover have e: "int ((q + 1) * w) - int num = int w - int r" unfolding n by (simp add: algebra_simps)
    ultimately show ?thesis unfolding u if_P [OF True] w_def [symmetric] e using r by (simp add: abs_if)
  next
    case False
    then have "2 * int r \<le> int w" by linarith
    moreover have e: "int (q * w) - int num = - int r" unfolding n by simp
    ultimately show ?thesis unfolding u if_not_P [OF False] w_def [symmetric] e by linarith
  qed
qed

lemma ratio_window:
  fixes num den :: nat
  assumes "0 < den"
  defines "k \<equiv> ratio_exponent num den"
  shows "round_units num den k \<le> 2 ^ 53" "0 < k \<Longrightarrow> 2 ^ 52 \<le> round_units num den k"
    "0 < k \<Longrightarrow> den * 2 ^ k * 2 ^ 52 \<le> num"
proof -
  let ?b = "nbits (num div den)"
  have e: "num div (den * 2 ^ k) = num div den div 2 ^ k" by (rule div_mult2_eq)
  have "num div den < 2 ^ ?b" by (rule less_two_pow_nbits)
  also have "(2::nat) ^ ?b \<le> 2 ^ (53 + k)" by (rule power_increasing) (simp_all add: k_def ratio_exponent_def)
  finally have "num div den div 2 ^ k < 2 ^ 53"
    unfolding power_add by (rule less_mult_imp_div_less)
  then show "round_units num den k \<le> 2 ^ 53" using round_units_range(2) [of num den k] unfolding e by linarith
  assume k: "0 < k"
  then have b: "?b - 1 = 52 + k" by (simp add: k_def ratio_exponent_def)
  then have z: "num div den \<noteq> 0" by (metis nbits_0 diff_0_eq_0 add_is_0 zero_neq_numeral)
  have lo: "2 ^ 52 * 2 ^ k \<le> num div den" using nbits_range [of "num div den"] z unfolding b power_add by simp
  from div_le_mono [OF lo, of "2 ^ k"] have "2 ^ 52 \<le> num div den div 2 ^ k" by simp
  then show "2 ^ 52 \<le> round_units num den k" using round_units_range(1) [of num den k] unfolding e by linarith
  have "den * 2 ^ k * 2 ^ 52 = den * (2 ^ 52 * 2 ^ k)" by (simp only: ac_simps)
  also have "\<dots> \<le> den * (num div den)" using lo by (rule mult_left_mono) simp
  also have "\<dots> \<le> num" by simp
  finally show "den * 2 ^ k * 2 ^ 52 \<le> num" .
qed

lemma magnitude_make: "e < 2048 \<Longrightarrow> f < 2 ^ 52 \<Longrightarrow>
    magnitude_of (make_double s e f) = (if e = 0 then f else (2 ^ 52 + f) * 2 ^ (e - 1))"
  by (cases "e = 0") (simp_all add: scaled_make magnitude_of_def dbl_significand_def make_double_fields)

lemma round_ratio_finite:
  assumes "0 < den" "ratio_exponent num den < 2045"
  shows "isfinite (round_ratio s num den)" "dbl_sign (round_ratio s num den) = s"
    "magnitude_of (round_ratio s num den) = round_units num den (ratio_exponent num den) * 2 ^ ratio_exponent num den"
proof -
  let ?k = "ratio_exponent num den" and ?q = "round_units num den (ratio_exponent num den)"
  let ?u = "?k * 2 ^ 52 + ?q"
  note w = ratio_window [OF assms(1), of num]
  have "?k * 2 ^ 52 \<le> 2044 * 2 ^ 52" using assms(2) by (intro mult_right_mono) simp_all
  then have "?u \<le> 2044 * 2 ^ 52 + 2 ^ 53" using w(1) by (rule add_mono)
  then have u: "?u < 2047 * 2 ^ 52" by (rule le_less_trans) simp
  then have e: "?u div 2 ^ 52 < 2047" by (rule less_mult_imp_div_less)
  have f: "?u mod 2 ^ 52 < 2 ^ 52" by simp
  have r: "round_ratio s num den = make_double s (?u div 2 ^ 52) (?u mod 2 ^ 52)"
    unfolding round_ratio_def Let_def using u by simp
  note fields = make_double_fields [OF less_trans [OF e] f, of s] magnitude_make [OF less_trans [OF e] f, of s]
  show "isfinite (round_ratio s num den)" "dbl_sign (round_ratio s num den) = s"
    unfolding r isfinite_def using fields e by simp_all
  have m: "magnitude_of (round_ratio s num den)
      = (if ?u div 2 ^ 52 = 0 then ?u mod 2 ^ 52 else (2 ^ 52 + ?u mod 2 ^ 52) * 2 ^ (?u div 2 ^ 52 - 1))"
    unfolding r using fields by simp
  consider (low) "?q < 2 ^ 52" | (mid) "2 ^ 52 \<le> ?q" "?q < 2 ^ 53" | (carry) "?q = 2 ^ 53" using w(1) by linarith
  then show "magnitude_of (round_ratio s num den) = ?q * 2 ^ ?k"
  proof cases
    case low
    then have "?k = 0" using w(2) by (cases "?k = 0") simp_all
    then show ?thesis unfolding m using low by simp
  next
    case mid
    define f where "f = ?q - 2 ^ 52"
    have q: "?q = 2 ^ 52 + f" "f < 2 ^ 52" using mid by (simp_all add: f_def)
    have "?u = f + (?k + 1) * 2 ^ 52" unfolding q(1) by simp
    then have "?u div 2 ^ 52 = ?k + 1" "?u mod 2 ^ 52 = f" using q(2) by simp_all
    then show ?thesis unfolding m using q(1) by simp
  next
    case carry
    have "?u = (?k + 2) * 2 ^ 52" unfolding carry by simp
    then have "?u div 2 ^ 52 = ?k + 2" "?u mod 2 ^ 52 = 0" by simp_all
    then show ?thesis unfolding m carry by simp
  qed
qed

subsection \<open>Doubles that hold integers\<close>

definition holds :: "double \<Rightarrow> int \<Rightarrow> bool" where
  "holds d n \<longleftrightarrow> isfinite d \<and> scaled d = n * 2 ^ 1074"

text \<open>Up to \<open>2 ^ 53\<close> all integers have doubles.\<close>

definition exact :: "int \<Rightarrow> bool" where
  "exact n \<longleftrightarrow> \<bar>n\<bar> < 2 ^ 53"

named_theorems exactness \<open>operations on doubles that are operations on integers\<close>

lemma holds_double_of_int [exactness]: "exact n \<Longrightarrow> holds (double_of_int n) n"
  unfolding holds_def exact_def using double_of_int_exact by blast

lemma holds_finite: "holds d n \<Longrightarrow> isfinite d" "holds d n \<Longrightarrow> \<not> isnan d" "holds d n \<Longrightarrow> \<not> isinf d"
  by (simp_all add: holds_def isfinite_iff)

lemma holds_magnitude: "holds d n \<Longrightarrow> magnitude_of d = nat \<bar>n\<bar> * 2 ^ 1074"
proof -
  assume "holds d n"
  then have "int (magnitude_of d) = \<bar>n * 2 ^ 1074\<bar>" unfolding holds_def by (metis abs_scaled)
  also have "\<dots> = int (nat \<bar>n\<bar> * 2 ^ 1074)" by (simp add: abs_mult)
  finally show ?thesis by (simp only: of_nat_eq_iff)
qed

lemma holds_sign: "holds d n \<Longrightarrow> n < 0 \<Longrightarrow> dbl_sign d" "holds d n \<Longrightarrow> 0 < n \<Longrightarrow> \<not> dbl_sign d"
  by (auto simp: holds_def scaled_magnitude split: if_splits)

lemma holds_I:
  assumes "isfinite d" "magnitude_of d = nat \<bar>n\<bar> * 2 ^ 1074" "n < 0 \<Longrightarrow> dbl_sign d" "0 < n \<Longrightarrow> \<not> dbl_sign d"
  shows "holds d n"
  using assms by (cases n "0 :: int" rule: linorder_cases) (auto simp: holds_def scaled_magnitude)

lemma holds_inject: "holds d m \<Longrightarrow> holds d n \<Longrightarrow> m = n"
  by (simp add: holds_def)

lemma holds_unique: "holds a n \<Longrightarrow> holds b n \<Longrightarrow> n \<noteq> 0 \<Longrightarrow> a = b"
  unfolding holds_def by (intro scaled_inj) simp_all

lemma holds_to_int [exactness]: "holds d n \<Longrightarrow> dbl_to_int d = n"
  unfolding holds_def by (intro dbl_to_int_exact) simp

lemma holds_zero [simp]: "holds (make_double s 0 0) 0"
  by (rule holds_I) (simp_all add: isfinite_def make_double_fields)

lemma holds_is_zero: "holds d n \<Longrightarrow> is_zero d \<longleftrightarrow> n = 0"
  unfolding is_zero_def scaled_0_iff [symmetric] by (simp add: holds_def)

lemma holds_compare [exactness]:
  assumes "holds a m" "holds b n"
  shows "dbl_eq a b \<longleftrightarrow> m = n" "dbl_less a b \<longleftrightarrow> m < n" "dbl_le a b \<longleftrightarrow> m \<le> n"
  using assms holds_finite(2) [OF assms(1)] holds_finite(2) [OF assms(2)]
  by (simp_all add: dbl_eq_def dbl_less_def dbl_le_def holds_def)

lemma exact_nat: "exact n \<Longrightarrow> nat \<bar>n\<bar> < 2 ^ 53"
  unfolding exact_def by (metis nat_less_iff abs_ge_zero of_nat_power of_nat_numeral)

text \<open>A quotient that is an integer below \<open>2 ^ 53\<close> times the unit is not rounded.\<close>

lemma nbits_units: "N < 2 ^ 53 \<Longrightarrow> nbits (N * 2 ^ 1074) \<le> 1127"
proof -
  assume "N < 2 ^ 53"
  then have "N * 2 ^ 1074 < 2 ^ 53 * 2 ^ 1074" by (rule mult_strict_right_mono) simp
  then show ?thesis unfolding power_add [symmetric] by (simp only: nbits_le_iff) simp
qed

lemma round_units_exact: "0 < den \<Longrightarrow> round_units (c * (den * 2 ^ k)) den k = c"
  by (simp add: round_units_def)

lemma round_ratio_exact:
  assumes "N < 2 ^ 53" "0 < den" "n < 0 \<Longrightarrow> s" "0 < n \<Longrightarrow> \<not> s" "N = nat \<bar>n\<bar>"
  shows "holds (round_ratio s (N * 2 ^ 1074 * den) den) n"
proof -
  let ?k = "ratio_exponent (N * 2 ^ 1074 * den) den"
  have k: "?k \<le> 1074" unfolding ratio_exponent_def using nbits_units [OF assms(1)] assms(2) by simp
  have p: "(2::nat) ^ 1074 = 2 ^ (1074 - ?k) * 2 ^ ?k" unfolding power_add [symmetric] using k by simp
  have e: "N * 2 ^ 1074 * den = N * 2 ^ (1074 - ?k) * (den * 2 ^ ?k)" by (subst p) (simp only: ac_simps)
  have "?k < 2045" using k by simp
  note f = round_ratio_finite [OF assms(2) this, of s]
  have u: "round_units (N * 2 ^ 1074 * den) den ?k = N * 2 ^ (1074 - ?k)"
    by (subst e) (rule round_units_exact [OF assms(2)])
  show ?thesis
  proof (rule holds_I)
    show "isfinite (round_ratio s (N * 2 ^ 1074 * den) den)" by (rule f)
    show "magnitude_of (round_ratio s (N * 2 ^ 1074 * den) den) = nat \<bar>n\<bar> * 2 ^ 1074"
      unfolding f(3) u by (subst (2) p) (simp only: assms(5) mult.assoc)
  qed (use f(2) assms in auto)
qed

lemma holds_add [exactness]:
  assumes "holds a m" "holds b n" "exact (m + n)"
  shows "holds (dbl_add a b) (m + n)"
proof -
  note fin = holds_finite [OF assms(1)] holds_finite [OF assms(2)]
  have v: "scaled a + scaled b = (m + n) * 2 ^ 1074" using assms by (simp add: holds_def algebra_simps)
  show ?thesis
  proof (cases "m + n = 0")
    case True
    then show ?thesis using fin v by (simp add: dbl_add_def)
  next
    case False
    have N: "nat \<bar>(m + n) * 2 ^ 1074\<bar> = nat \<bar>m + n\<bar> * 2 ^ 1074" by (simp add: abs_mult nat_mult_distrib nat_power_eq)
    have s: "(m + n) * 2 ^ 1074 < 0 \<longleftrightarrow> m + n < 0"
      by (simp only: mult_less_0_iff zero_less_power zero_less_numeral) simp
    have "dbl_add a b = round_ratio (m + n < 0) (nat \<bar>m + n\<bar> * 2 ^ 1074 * 1) 1"
      unfolding dbl_add_def Let_def v N s using fin False by simp
    then show ?thesis using round_ratio_exact [OF exact_nat [OF assms(3)], of 1 "m + n" "m + n < 0"] by simp
  qed
qed

lemma holds_neg [exactness]: "holds d n \<Longrightarrow> holds (dbl_neg d) (- n)"
  by (simp add: holds_def)

lemma holds_sub [exactness]: "holds a m \<Longrightarrow> holds b n \<Longrightarrow> exact (m - n) \<Longrightarrow> holds (dbl_sub a b) (m - n)"
  unfolding dbl_sub_def using holds_add [of a m "dbl_neg b" "- n"] holds_neg by simp

lemma holds_mul [exactness]:
  assumes "holds a m" "holds b n" "exact (m * n)"
  shows "holds (dbl_mul a b) (m * n)"
proof -
  note fin = holds_finite [OF assms(1)] holds_finite [OF assms(2)]
  let ?s = "dbl_sign a \<noteq> dbl_sign b"
  have M: "magnitude_of a * magnitude_of b = nat \<bar>m * n\<bar> * 2 ^ 1074 * 2 ^ 1074"
    unfolding holds_magnitude [OF assms(1)] holds_magnitude [OF assms(2)] by (simp only: abs_mult nat_mult_distrib abs_ge_zero ac_simps)
  have d: "dbl_mul a b = round_ratio ?s (nat \<bar>m * n\<bar> * 2 ^ 1074 * 2 ^ 1074) (2 ^ 1074)"
    unfolding dbl_mul_def Let_def M using fin by simp
  have s: "m * n < 0 \<Longrightarrow> ?s" "0 < m * n \<Longrightarrow> \<not> ?s"
    using holds_sign [OF assms(1)] holds_sign [OF assms(2)] by (auto simp: mult_less_0_iff zero_less_mult_iff)
  show ?thesis unfolding d by (rule round_ratio_exact [OF exact_nat [OF assms(3)] _ s refl]) (rule zero_less_power, simp)
qed

lemma trunc_finite: "isfinite d \<Longrightarrow> isfinite (trunc d)"
proof -
  assume f: "isfinite d"
  show ?thesis
  proof (cases "dbl_exp d < 1023")
    case True
    then show ?thesis by (simp add: trunc_def isfinite_def make_double_fields)
  next
    case False
    then show ?thesis using f trunc_exp [of d] by (simp add: isfinite_def)
  qed
qed

lemma holds_trunc: "isfinite d \<Longrightarrow> holds (trunc d) (dbl_to_int d)"
proof -
  assume f: "isfinite d"
  have q: "magnitude_of (trunc d) = dbl_to_nat d * 2 ^ 1074" unfolding dbl_to_nat_def by (rule trunc_magnitude)
  have i: "\<bar>dbl_to_int d\<bar> = int (dbl_to_nat d)" by (simp add: dbl_to_int_def)
  show ?thesis
    by (rule holds_I [OF trunc_finite [OF f]]) (auto simp: i q trunc_sign dbl_to_int_def split: if_splits)
qed

lemma holds_trunc_same [exactness]: "holds d n \<Longrightarrow> holds (trunc d) n"
  using holds_trunc [OF holds_finite(1)] holds_to_int by metis

lemma holds_fabs [exactness]: "holds d n \<Longrightarrow> holds (fabs d) \<bar>n\<bar>"
  by (simp add: holds_def abs_mult)

lemma exact_minus [simp]: "exact (- n) = exact n" and exact_abs [simp]: "exact \<bar>n\<bar> = exact n"
  by (simp_all add: exact_def)

lemma exact_between: "exact m \<Longrightarrow> \<bar>n\<bar> \<le> \<bar>m\<bar> \<Longrightarrow> exact n"
  by (simp add: exact_def)

text \<open>The remainder.\<close>

definition int_fmod :: "int \<Rightarrow> int \<Rightarrow> int" where
  "int_fmod m n = sgn m * (\<bar>m\<bar> mod \<bar>n\<bar>)"

lemma holds_fmod [exactness]:
  assumes "holds a m" "holds b n" "n \<noteq> 0" "exact m"
  shows "holds (fmod a b) (int_fmod m n)"
proof -
  note fin = holds_finite [OF assms(1)] holds_finite [OF assms(2)]
  let ?N = "nat \<bar>m\<bar> mod nat \<bar>n\<bar>"
  have M: "magnitude_of a mod magnitude_of b = ?N * 2 ^ 1074 * 1"
    unfolding holds_magnitude [OF assms(1)] holds_magnitude [OF assms(2)] mod_mult_mult2 by (rule mult_1_right [symmetric])
  have d: "fmod a b = round_ratio (dbl_sign a) (?N * 2 ^ 1074 * 1) 1"
    unfolding fmod_def M using fin holds_is_zero [OF assms(2)] assms(3) by simp
  have z: "\<bar>m\<bar> mod \<bar>n\<bar> = int ?N" by (simp add: zmod_int)
  have N: "?N = nat \<bar>int_fmod m n\<bar>"
  proof (cases "m = 0")
    case False
    then show ?thesis unfolding int_fmod_def z abs_mult by (simp add: abs_sgn_eq)
  qed (simp add: int_fmod_def)
  have "?N \<le> nat \<bar>m\<bar>" by (rule mod_less_eq_dividend)
  then have lt: "?N < 2 ^ 53" using exact_nat [OF assms(4)] by (rule le_less_trans)
  have s: "int_fmod m n < 0 \<Longrightarrow> dbl_sign a" "0 < int_fmod m n \<Longrightarrow> \<not> dbl_sign a"
    using holds_sign [OF assms(1)] unfolding int_fmod_def z by (auto simp: mult_less_0_iff zero_less_mult_iff sgn_if split: if_splits)
  show ?thesis unfolding d by (rule round_ratio_exact [OF lt _ s N]) simp
qed

subsection \<open>The floor of a rounded quotient\<close>

text \<open>The quotient of two integers below \<open>2 ^ 53\<close> is rounded, but never across an integer: an integer
  that is not the quotient differs from it by more than the rounding can move it.\<close>

lemma quotient_bounds:
  fixes A B :: nat and s :: bool
  assumes "A < 2 ^ 53" "0 < B" "B < 2 ^ 53"
  defines "d \<equiv> round_ratio s (A * 2 ^ 1074 * 2 ^ 1074) (B * 2 ^ 1074)"
  shows "isfinite d" "dbl_sign d = s"
    "c * B \<le> A \<Longrightarrow> c * 2 ^ 1074 \<le> magnitude_of d" "A \<le> c * B \<Longrightarrow> magnitude_of d \<le> c * 2 ^ 1074"
    "c * B < A \<Longrightarrow> c * 2 ^ 1074 < magnitude_of d" "A < c * B \<Longrightarrow> magnitude_of d < c * 2 ^ 1074"
proof -
  define U :: nat where "U = 2 ^ 1074"
  define num where "num = A * U * U"
  define den where "den = B * U"
  define k where "k = ratio_exponent num den"
  define q where "q = round_units num den k"
  define w where "w = den * 2 ^ k"
  have U: "0 < U" and den: "0 < den" using assms by (simp_all add: U_def den_def)
  have d: "d = round_ratio s num den" unfolding d_def num_def den_def U_def ..
  have "num div den = A * U div B" unfolding num_def den_def using U by (subst mult.commute [of B]) simp
  also have "\<dots> \<le> A * U" by (rule div_le_dividend)
  finally have "nbits (num div den) \<le> nbits (A * U)" by (rule nbits_mono)
  also have "\<dots> \<le> 1127" unfolding U_def by (rule nbits_units [OF assms(1)])
  finally have k: "k \<le> 1074" by (simp add: k_def ratio_exponent_def)
  then have "ratio_exponent num den < 2045" by (simp add: k_def)
  note fin = round_ratio_finite [OF den this, of s]
  show "isfinite d" "dbl_sign d = s" unfolding d by (rule fin)+
  have m: "magnitude_of d = q * 2 ^ k" unfolding d q_def k_def by (rule fin)
  have p: "U = 2 ^ (1074 - k) * 2 ^ k" unfolding U_def power_add [symmetric] using k by simp
  have cw: "c * 2 ^ (1074 - k) * w = c * B * (U * U)" for c
    unfolding w_def den_def by (subst (2) p) (simp only: ac_simps)
  have AU: "num = A * (U * U)" unfolding num_def by (simp only: ac_simps)
  have wp: "0 < w" using den by (simp add: w_def)
  have e: "c * U = c * 2 ^ (1074 - k) * 2 ^ k" for c by (subst p) (simp only: ac_simps)
  have r: "num div w \<le> q" "q \<le> num div w + 1" unfolding q_def w_def by (rule round_units_range)+
  have low: "c * U \<le> magnitude_of d" if "c * B \<le> A" for c
  proof -
    have "c * 2 ^ (1074 - k) * w \<le> num" unfolding cw AU using that by (rule mult_right_mono) simp
    then have "c * 2 ^ (1074 - k) \<le> num div w" using wp by (simp only: less_eq_div_iff_mult_less_eq)
    then have "c * 2 ^ (1074 - k) \<le> q" using r(1) by (rule order_trans)
    then show ?thesis unfolding m e by (rule mult_right_mono) simp
  qed
  have high: "magnitude_of d \<le> c * U" if "A \<le> c * B" for c
  proof -
    have n: "num \<le> c * 2 ^ (1074 - k) * w" unfolding cw AU using that by (rule mult_right_mono) simp
    have "q \<le> c * 2 ^ (1074 - k)"
    proof (cases "num = c * 2 ^ (1074 - k) * w")
      case True
      then show ?thesis unfolding q_def w_def using round_units_exact [OF den] by simp
    next
      case False
      then have "num < c * 2 ^ (1074 - k) * w" using n by simp
      then have "num div w < c * 2 ^ (1074 - k)" by (rule less_mult_imp_div_less)
      then have "num div w + 1 \<le> c * 2 ^ (1074 - k)" by simp
      with r(2) show ?thesis by (rule order_trans)
    qed
    then show ?thesis unfolding m e by (rule mult_right_mono) simp
  qed
  have w_small: "w < 2 * (U * U)"
  proof (cases "k = 0")
    case True
    have "w < 2 ^ 53 * U" unfolding w_def den_def True using assms(3) U by simp
    also have "2 ^ 53 * U \<le> 2 * (U * U)"
    proof -
      have "(2::nat) ^ 53 \<le> U" unfolding U_def by (rule power_increasing) simp_all
      then have "2 ^ 53 * U \<le> U * U" by (rule mult_right_mono) simp
      then show ?thesis unfolding mult_2 by (rule trans_le_add1)
    qed
    finally show ?thesis .
  next
    case False
    then have "w * 2 ^ 52 \<le> A * (U * U)" using ratio_window(3) [OF den, of num] unfolding w_def k_def AU by simp
    also have "\<dots> < 2 ^ 53 * (U * U)" using assms(1) U by simp
    finally show ?thesis by simp
  qed
  have apart: "magnitude_of d \<noteq> c * U" if "A \<noteq> c * B" for c
  proof
    assume eq: "magnitude_of d = c * U"
    then have "q = c * 2 ^ (1074 - k)" unfolding m e by simp
    then have qw: "q * w = c * B * (U * U)" using cw by simp
    have "2 * \<bar>int (q * w) - int num\<bar> \<le> int w" unfolding q_def w_def by (rule round_units_near [OF den])
    then have "2 * (\<bar>int (c * B) - int A\<bar> * int (U * U)) \<le> int w"
      unfolding qw AU of_nat_mult [of _ "U * U"] left_diff_distrib [symmetric] abs_mult by simp
    moreover have "1 * int (U * U) \<le> \<bar>int (c * B) - int A\<bar> * int (U * U)"
      by (rule mult_right_mono) (use that in linarith, simp)
    moreover have "int w < int (2 * (U * U))" using w_small by (simp only: of_nat_less_iff)
    ultimately show False by simp
  qed
  show "c * B \<le> A \<Longrightarrow> c * 2 ^ 1074 \<le> magnitude_of d" "A \<le> c * B \<Longrightarrow> magnitude_of d \<le> c * 2 ^ 1074"
    using low [of c] high [of c] unfolding U_def by blast+
  have "c * U < magnitude_of d" if "c * B < A"
    using low [OF less_imp_le [OF that]] apart [of c] that by (intro le_neq_implies_less) auto
  then show "c * B < A \<Longrightarrow> c * 2 ^ 1074 < magnitude_of d" unfolding U_def .
  have "magnitude_of d < c * U" if "A < c * B"
    using high [OF less_imp_le [OF that]] apart [of c] that by (intro le_neq_implies_less) auto
  then show "A < c * B \<Longrightarrow> magnitude_of d < c * 2 ^ 1074" unfolding U_def .
qed

lemma quotient_bounds_int:
  fixes A B c :: nat and s :: bool
  assumes "A < 2 ^ 53" "0 < B" "B < 2 ^ 53"
  defines "d \<equiv> round_ratio s (A * 2 ^ 1074 * 2 ^ 1074) (B * 2 ^ 1074)"
  shows "int c * int B \<le> int A \<Longrightarrow> int c * 2 ^ 1074 \<le> int (magnitude_of d)"
    "int A \<le> int c * int B \<Longrightarrow> int (magnitude_of d) \<le> int c * 2 ^ 1074"
    "int c * int B < int A \<Longrightarrow> int c * 2 ^ 1074 < int (magnitude_of d)"
    "int A < int c * int B \<Longrightarrow> int (magnitude_of d) < int c * 2 ^ 1074"
  using quotient_bounds(3-6) [OF assms(1-3), of c s, folded d_def]
  unfolding of_nat_le_iff [where 'a = int, symmetric] of_nat_less_iff [where 'a = int, symmetric] of_nat_mult of_nat_power of_nat_numeral
  by blast+

lemma div_unique:
  fixes x U q :: int
  assumes "0 < U" "q * U \<le> x" "x < (q + 1) * U"
  shows "x div U = q"
  by (rule int_div_pos_eq [of _ _ _ "x - q * U"]) (use assms in \<open>simp_all add: algebra_simps\<close>)

lemma holds_floor:
  assumes "isfinite d" "exact (scaled d div 2 ^ 1074)"
  shows "holds (dbl_floor d) (scaled d div 2 ^ 1074)"
proof (cases "1075 \<le> dbl_exp d")
  case True
  have "(2::nat) ^ 1074 dvd 2 ^ (dbl_exp d - 1)" using True by (intro le_imp_power_dvd) simp
  then have "2 ^ 1074 dvd magnitude_of d" unfolding magnitude_of_def by (rule dvd_mult)
  then have "int (2 ^ 1074) dvd int (magnitude_of d)" by (simp only: int_dvd_int_iff)
  then have "2 ^ 1074 dvd scaled d" unfolding scaled_magnitude by (simp only: of_nat_power of_nat_numeral) auto
  then have "scaled d div 2 ^ 1074 * 2 ^ 1074 = scaled d" by (rule dvd_div_mult_self)
  then show ?thesis using True assms(1) by (simp only: dbl_floor_def holds_def if_True)
next
  case False
  then show ?thesis using assms(2) holds_double_of_int [OF assms(2)] by (simp only: dbl_floor_def Let_def if_False holds_zero) simp
qed

lemma holds_floor_div [exactness]:
  assumes "holds a m" "holds b n" "0 < n" "exact m" "exact n"
  shows "holds (dbl_floor (dbl_div a b)) (m div n)"
proof -
  note fin = holds_finite [OF assms(1)] holds_finite [OF assms(2)]
  let ?s = "dbl_sign a \<noteq> dbl_sign b"
  define A where "A = nat \<bar>m\<bar>"
  define B where "B = nat n"
  define q where "q = dbl_div a b"
  define U :: int where "U = 2 ^ 1074"
  have U: "0 < U" by (simp add: U_def)
  have B: "0 < B" "B < 2 ^ 53" "int B = n" using exact_nat [OF assms(5)] assms(3) by (simp_all add: B_def)
  have A: "A < 2 ^ 53" "int A = \<bar>m\<bar>" using exact_nat [OF assms(4)] by (simp_all add: A_def)
  have M: "magnitude_of a = A * 2 ^ 1074" "magnitude_of b = B * 2 ^ 1074"
    unfolding holds_magnitude [OF assms(1)] holds_magnitude [OF assms(2)] using assms(3) by (simp_all only: A_def B_def abs_of_pos)
  have q: "q = round_ratio ?s (A * 2 ^ 1074 * 2 ^ 1074) (B * 2 ^ 1074)"
    unfolding q_def dbl_div_def Let_def M using fin holds_is_zero [OF assms(2)] assms(3) by simp
  note bounds = quotient_bounds [OF A(1) B(1,2), where s = ?s, folded q]
  note edges = quotient_bounds_int [OF A(1) B(1,2), where s = ?s, folded q U_def, unfolded A(2) B(3)]
  have sb: "\<not> dbl_sign b" by (rule holds_sign(2) [OF assms(2,3)])
  have fl: "scaled q div U = m div n"
  proof (rule div_unique [OF U])
    have e: "m div n * n + m mod n = m" by (rule div_mult_mod_eq)
    have d: "m div n * n \<le> m" "m < (m div n + 1) * n"
      unfolding distrib_right mult_1_left using e pos_mod_bound [OF assms(3), of m] pos_mod_sign [OF assms(3), of m] by linarith+
    consider (pos) "0 < m" | (zero) "m = 0" | (neg) "m < 0" by linarith
    then have "m div n * U \<le> scaled q \<and> scaled q < (m div n + 1) * U"
    proof cases
      case pos
      have "\<not> dbl_sign q" unfolding bounds(2) using holds_sign(2) [OF assms(1) pos] sb by simp
      moreover have c: "0 \<le> m div n" using pos assms(3) by (simp add: pos_imp_zdiv_nonneg_iff)
      then have "int (nat (m div n)) = m div n" "int (nat (m div n + 1)) = m div n + 1" by simp_all
      ultimately show ?thesis using edges(1) [of "nat (m div n)"] edges(4) [of "nat (m div n + 1)"] d pos by (simp add: scaled_magnitude)
    next
      case zero
      have "magnitude_of q = 0" using edges(2) [of 0] zero by simp
      then show ?thesis using zero U by (simp add: scaled_magnitude)
    next
      case neg
      have "dbl_sign q" unfolding bounds(2) using holds_sign(1) [OF assms(1) neg] sb by simp
      moreover have c: "m div n < 0" using neg assms(3) by (simp add: pos_imp_zdiv_neg_iff)
      then have i: "int (nat (- (m div n))) = - (m div n)" "int (nat (- (m div n) - 1)) = - (m div n) - 1" by simp_all
      have "\<bar>m\<bar> \<le> - (m div n) * n" "(- (m div n) - 1) * n < \<bar>m\<bar>" using d neg by (simp_all add: left_diff_distrib distrib_right)
      then have "int (magnitude_of q) \<le> - (m div n) * U" "(- (m div n) - 1) * U < int (magnitude_of q)"
        using edges(2) [of "nat (- (m div n))", unfolded i] edges(3) [of "nat (- (m div n) - 1)", unfolded i] by blast+
      ultimately show ?thesis unfolding scaled_magnitude by (simp add: left_diff_distrib distrib_right)
    qed
    then show "m div n * U \<le> scaled q" "scaled q < (m div n + 1) * U" by simp_all
  qed
  have "\<bar>m div n\<bar> \<le> \<bar>m\<bar>"
  proof (cases "0 \<le> m")
    case True
    then have "0 \<le> m div n" "m div n \<le> m" using assms(3) using zdiv_mono2 [of m 1 n] by (simp_all add: pos_imp_zdiv_nonneg_iff)
    then show ?thesis by simp
  next
    case False
    then have "m div 1 \<le> m div n" "m div n < 0" using assms(3) zdiv_mono2_neg [of m 1 n] by (simp_all add: pos_imp_zdiv_neg_iff)
    then show ?thesis by simp
  qed
  then have "exact (scaled q div 2 ^ 1074)" using exact_between [OF assms(4)] fl unfolding U_def by simp
  from holds_floor [OF bounds(1) this] show ?thesis unfolding q_def fl [unfolded U_def q_def] .
qed

end
