(* ===== verification/Date_Civil.thy ===== *)
theory Date_Civil
  imports Oseo_Prelude "HOL-Library.Signed_Division"
begin

text \<open>
  The civil calendar of \<open>runtime_date.c\<close>: the conversions between day numbers and dates of the
  proleptic Gregorian calendar, against the calendar itself (leap years, lengths of months, the date
  after a date).

  An \<open>int64_t\<close> is an \<open>int\<close> here, with the division of C, which truncates toward zero (\<open>sdiv\<close>). The
  callers bound the day number by \<open>10 ^ 8\<close> and the year by \<open>10 ^ 9 + 1\<close>, so that every intermediate
  stays below \<open>2 ^ 40\<close> in absolute value (\<open>days_from_civil_width\<close>).
\<close>

subsection \<open>The conversions\<close>

definition date_civil_from_days :: "int \<Rightarrow> int \<times> int \<times> int" where
  "date_civil_from_days days =
     (let shifted = days + 719468;
          era = (if shifted \<ge> 0 then shifted else shifted - 146096) sdiv 146097;
          day_of_era = shifted - era * 146097;
          year_of_era = (day_of_era - day_of_era sdiv 1460 + day_of_era sdiv 36524 - day_of_era sdiv 146096) sdiv 365;
          civil_year = year_of_era + era * 400;
          day_of_year = day_of_era - (365 * year_of_era + year_of_era sdiv 4 - year_of_era sdiv 100);
          shifted_month = (5 * day_of_year + 2) sdiv 153;
          day = day_of_year - (153 * shifted_month + 2) sdiv 5 + 1;
          month = (if shifted_month < 10 then shifted_month + 3 else shifted_month - 9);
          year = civil_year + (if month \<le> 2 then 1 else 0)
      in (year, month, day))"

definition date_days_from_civil :: "int \<Rightarrow> int \<Rightarrow> int \<Rightarrow> int" where
  "date_days_from_civil year month day =
     (let shifted_year = year - (if month \<le> 2 then 1 else 0);
          era = (if shifted_year \<ge> 0 then shifted_year else shifted_year - 399) sdiv 400;
          year_of_era = shifted_year - era * 400;
          day_of_year = (153 * (if month > 2 then month - 3 else month + 9) + 2) sdiv 5 + day - 1;
          day_of_era = year_of_era * 365 + year_of_era sdiv 4 - year_of_era sdiv 100 + day_of_year
      in era * 146097 + day_of_era - 719468)"

subsection \<open>The calendar\<close>

definition leap_year :: "int \<Rightarrow> bool" where
  "leap_year y \<longleftrightarrow> 4 dvd y \<and> (100 dvd y \<longrightarrow> 400 dvd y)"

definition month_length :: "int \<Rightarrow> int \<Rightarrow> int" where
  "month_length y m = (if m = 2 then (if leap_year y then 29 else 28) else if m \<in> {4, 6, 9, 11} then 30 else 31)"

definition valid_date :: "int \<Rightarrow> int \<Rightarrow> int \<Rightarrow> bool" where
  "valid_date y m d \<longleftrightarrow> 1 \<le> m \<and> m \<le> 12 \<and> 1 \<le> d \<and> d \<le> month_length y m"

definition next_date :: "int \<times> int \<times> int \<Rightarrow> int \<times> int \<times> int" where
  "next_date = (\<lambda>(y, m, d). if d < month_length y m then (y, m, d + 1) else if m < 12 then (y, m + 1, 1) else (y + 1, 1, 1))"

subsection \<open>Floor division\<close>

lemma sdiv_nonneg: "0 \<le> (a :: int) \<Longrightarrow> 0 < b \<Longrightarrow> a sdiv b = a div b"
  by (cases "a = 0") (simp_all add: signed_divide_int_def)

lemma sdiv_floor:
  fixes a b k :: int
  assumes b: "0 < b" and k: "k = b - 1"
  shows "(if a \<ge> 0 then a else a - k) sdiv b = a div b"
proof (cases "a \<ge> 0")
  case False
  from False b have "(a - (b - 1)) sdiv b = - ((b - 1 - a) div b)" by (simp add: signed_divide_int_def)
  also have "(b - 1 - a) div b = - (a div b)"
  proof -
    have "b - 1 - a = (b - 1 - a mod b) + (- (a div b)) * b"
      using div_mult_mod_eq [of a b] by (simp add: algebra_simps)
    then have "(b - 1 - a) div b = - (a div b) + (b - 1 - a mod b) div b" using b by (metis div_mult_self1 less_irrefl)
    moreover have "(b - 1 - a mod b) div b = 0" using pos_mod_bound [OF b, of a] pos_mod_sign [OF b, of a] by (intro div_pos_pos_trivial) linarith+
    ultimately show ?thesis by simp
  qed
  finally show ?thesis using False k by simp
qed (use b in \<open>simp add: sdiv_nonneg\<close>)

text \<open>The day number without eras.\<close>

definition month_start :: "int \<Rightarrow> int" where
  "month_start m = (153 * (if m > 2 then m - 3 else m + 9) + 2) div 5"

definition year_start :: "int \<Rightarrow> int" where
  "year_start y = 365 * y + y div 4 - y div 100 + y div 400 - 719468"

lemma era_split:
  fixes y :: int
  shows "y div 4 = 100 * (y div 400) + (y mod 400) div 4" "y div 100 = 4 * (y div 400) + (y mod 400) div 100"
proof -
  have y: "y = y mod 400 + (y div 400) * 400" by simp
  have "(y mod 400 + (100 * (y div 400)) * 4) div 4 = 100 * (y div 400) + (y mod 400) div 4"
    by (rule div_mult_self1) simp
  then show "y div 4 = 100 * (y div 400) + (y mod 400) div 4" using y by (simp only: mult.assoc mult.commute) simp
  have "(y mod 400 + (4 * (y div 400)) * 100) div 100 = 4 * (y div 400) + (y mod 400) div 100"
    by (rule div_mult_self1) simp
  then show "y div 100 = 4 * (y div 400) + (y mod 400) div 100" using y by (simp only: mult.assoc mult.commute) simp
qed

lemma days_from_civil_era:
  fixes y m d :: int
  assumes "1 \<le> m"
  defines "y' \<equiv> y - (if m \<le> 2 then 1 else 0)"
  shows "date_days_from_civil y m d =
    (y' div 400) * 146097 + ((y' mod 400) * 365 + (y' mod 400) div 4 - (y' mod 400) div 100 + (month_start m + d - 1)) - 719468"
proof -
  have e: "(if y' \<ge> 0 then y' else y' - 399) sdiv 400 = y' div 400" by (rule sdiv_floor) simp_all
  have m: "y' - y' div 400 * 400 = y' mod 400" by (rule minus_div_mult_eq_mod)
  have "0 \<le> 153 * (if m > 2 then m - 3 else m + 9) + 2" using assms(1) by simp
  then show ?thesis
    unfolding date_days_from_civil_def Let_def y'_def [symmetric] e m month_start_def
    by (simp only: sdiv_nonneg pos_mod_sign zero_less_numeral)
qed

lemma days_from_civil_floor:
  assumes "1 \<le> m"
  shows "date_days_from_civil y m d = year_start (y - (if m \<le> 2 then 1 else 0)) + month_start m + d - 1"
proof -
  let ?y = "y - (if m \<le> 2 then 1 else 0)"
  have "(?y mod 400) * 365 = 365 * ?y - 146000 * (?y div 400)" by (simp add: minus_div_mult_eq_mod [symmetric])
  then show ?thesis
    unfolding days_from_civil_era [OF assms] year_start_def using era_split [of ?y] by linarith
qed

subsection \<open>Counting\<close>

lemma dvd_step: "0 < k \<Longrightarrow> y div k - (y - 1) div k = (if k dvd y then 1 else 0)" for y k :: int
proof -
  assume k: "0 < k"
  have y: "y = y div k * k + y mod k" by simp
  show ?thesis
  proof (cases "k dvd y")
    case True
    then obtain q where "y = k * q" ..
    moreover have "(k * q - 1) div k = q - 1"
    proof -
      have "k * q - 1 = (k - 1) + (q - 1) * k" by (simp add: algebra_simps)
      then have "(k * q - 1) div k = q - 1 + (k - 1) div k" using k by (metis div_mult_self1 less_irrefl)
      then show ?thesis using k by (simp add: div_pos_pos_trivial)
    qed
    ultimately show ?thesis using k by simp
  next
    case False
    then have m: "0 < y mod k" using k by (metis dvd_eq_mod_eq_0 order_le_less pos_mod_sign)
    have "y - 1 = (y mod k - 1) + y div k * k" using y by simp
    then have "(y - 1) div k = y div k + (y mod k - 1) div k" using k by (metis div_mult_self1 less_irrefl)
    moreover have "(y mod k - 1) div k = 0" using k m pos_mod_bound [OF k, of y] by (intro div_pos_pos_trivial) auto
    ultimately show ?thesis using False by simp
  qed
qed

lemma leap_dvd: "leap_year y \<Longrightarrow> 4 dvd y" "leap_year y \<Longrightarrow> 100 dvd y \<Longrightarrow> 400 dvd y"
  "400 dvd (y :: int) \<Longrightarrow> 100 dvd y" "100 dvd (y :: int) \<Longrightarrow> 4 dvd y"
  by (auto simp: leap_year_def elim!: dvd_trans [rotated])

text \<open>A year that begins with March has one day more when the calendar year it ends in is a leap year.\<close>

lemma year_start_step: "year_start y - year_start (y - 1) = (if leap_year y then 366 else 365)"
proof -
  note step = dvd_step [OF zero_less_numeral, where y = y]
  have "year_start y - year_start (y - 1) = 365 + (if 4 dvd y then 1 else 0) - (if 100 dvd y then 1 else 0) + (if 400 dvd y then 1 else 0)"
    unfolding year_start_def step [symmetric] by simp
  then show ?thesis using leap_dvd(3,4) [of y] unfolding leap_year_def by (cases "4 dvd y"; cases "100 dvd y"; cases "400 dvd y") simp_all
qed

lemma month_cases: "1 \<le> m \<Longrightarrow> m \<le> 12 \<Longrightarrow> (m :: int) \<in> {1, 2, 3, 4, 5, 6, 7, 8, 9, 10, 11, 12}"
  by (simp, presburger)

lemma days_next_date:
  assumes "valid_date y m d" "next_date (y, m, d) = (y', m', d')"
  shows "valid_date y' m' d'" "date_days_from_civil y' m' d' = date_days_from_civil y m d + 1"
proof -
  have r: "1 \<le> m" "m \<le> 12" "1 \<le> d" "d \<le> month_length y m" using assms(1) by (simp_all add: valid_date_def)
  have len: "1 \<le> month_length y' m'" by (simp add: month_length_def)
  have "valid_date y' m' d' \<and> date_days_from_civil y' m' d' = date_days_from_civil y m d + 1"
  proof (cases "d < month_length y m")
    case True
    then have "y' = y" "m' = m" "d' = d + 1" using assms(2) by (simp_all add: next_date_def)
    with True r show ?thesis by (simp add: valid_date_def days_from_civil_floor)
  next
    case False
    then have d: "d = month_length y m" using r by simp
    then have n: "(y', m', d') = (if m < 12 then (y, m + 1, 1) else (y + 1, 1, 1))" using assms(2) by (simp add: next_date_def)
    have "date_days_from_civil y' m' d' = date_days_from_civil y m d + 1"
      using month_cases [OF r(1,2)] n year_start_step [of y]
      by (auto simp: days_from_civil_floor d month_start_def month_length_def)
    with n r len show ?thesis by (auto simp: valid_date_def split: if_splits)
  qed
  then show "valid_date y' m' d'" "date_days_from_civil y' m' d' = date_days_from_civil y m d + 1" by simp_all
qed

subsection \<open>The inverse\<close>

text \<open>A year of a 400-year era that begins with March 1: century, leap cycle and year in it.\<close>

lemma year_of_era_split:
  fixes Y :: int
  assumes "0 \<le> Y" "Y < 400"
  obtains c q r where "Y = 100 * c + 4 * q + r" "0 \<le> c" "c \<le> 3" "0 \<le> q" "q \<le> 24" "0 \<le> r" "r \<le> 3"
    "Y div 4 = 25 * c + q" "Y div 100 = c"
proof -
  define c R q r where "c = Y div 100" and "R = Y mod 100" and "q = R div 4" and "r = R mod 4"
  have Y: "Y = 100 * c + R" and R: "0 \<le> R" "R < 100" "R = 4 * q + r" "0 \<le> r" "r < 4"
    by (simp_all add: c_def R_def q_def r_def)
  have b: "0 \<le> c" "c \<le> 3" "0 \<le> q" "q \<le> 24" using assms Y R by linarith+
  have "Y div 4 = 25 * c + q" by (rule int_div_pos_eq [of _ _ _ r]) (use Y R in simp_all)
  with Y R b show thesis by (intro that [of c q r]) (simp_all add: c_def)
qed

lemma year_of_era_recovered:
  fixes Y D E :: int
  assumes Y: "0 \<le> Y" "Y < 400" and D: "0 \<le> D" "D \<le> 365" "D = 365 \<Longrightarrow> leap_year (Y + 1)"
  defines "E \<equiv> Y * 365 + Y div 4 - Y div 100 + D"
  shows "0 \<le> E" "E < 146097" "(E - E div 1460 + E div 36524 - E div 146096) div 365 = Y"
proof -
  obtain c q r where s: "Y = 100 * c + 4 * q + r" "0 \<le> c" "c \<le> 3" "0 \<le> q" "q \<le> 24" "0 \<le> r" "r \<le> 3"
    "Y div 4 = 25 * c + q" "Y div 100 = c" using year_of_era_split [OF Y] .
  have E: "E = 36524 * c + 1461 * q + 365 * r + D" unfolding E_def s(8,9) by (subst s(1)) simp
  have leap: "r = 3 \<and> (q = 24 \<longrightarrow> c = 3)" if "D = 365"
  proof -
    have l: "4 dvd Y + 1" "100 dvd Y + 1 \<Longrightarrow> 400 dvd Y + 1" using leap_dvd(1,2) D(3) [OF that] by blast+
    have "r = 3" using l(1) s(6,7) unfolding s(1) by presburger
    moreover have "c = 3" if "q = 24"
    proof -
      have "100 dvd Y + 1" unfolding s(1) \<open>r = 3\<close> that by presburger
      from l(2) [OF this] show ?thesis using s(2,3) unfolding s(1) \<open>r = 3\<close> that by presburger
    qed
    ultimately show ?thesis by blast
  qed
  show "0 \<le> E" using E s D by simp
  show "E < 146097" using E s(1-7) D(1,2) by linarith
  define x where "x = E div 36524 - E div 146096"
  have x: "x = c"
  proof (cases "1461 * q + 365 * r + D = 36524")
    case True
    then have "D = 365" "q = 24" using s(3-7) D by linarith+
    then have "c = 3" using leap by blast
    then have "E = 146096" using E True by simp
    then show ?thesis using \<open>c = 3\<close> by (simp add: x_def)
  next
    case False
    then have lt: "1461 * q + 365 * r + D < 36524" using s D by linarith
    have "E div 36524 = c" by (rule int_div_pos_eq [of _ _ _ "1461 * q + 365 * r + D"]) (use E lt s(1-7) D(1,2) in simp_all)
    moreover have "E div 146096 = 0" using E lt s(1-7) D(1,2) by (intro div_pos_pos_trivial) linarith+
    ultimately show ?thesis by (simp add: x_def)
  qed
  define z where "z = E div 1460"
  have low: "25 * c + q \<le> z" and high: "z \<le> 25 * c + q + 1"
  proof -
    have "36500 * c + 1460 * q \<le> E" "E < 36500 * c + 1460 * q + 2920" using E s(1-7) D(1,2) by linarith+
    then show "25 * c + q \<le> z" "z \<le> 25 * c + q + 1"
      unfolding z_def using mult_div_mod_eq [of 1460 E] pos_mod_bound [of 1460 E] pos_mod_sign [of 1460 E] by linarith+
  qed
  have z: "365 * Y \<le> E - z + c" "E - z + c < 365 * Y + 365"
  proof -
    have e: "E - z + c = 365 * Y + (25 * c + q - z) + D" using E s(1) by simp
    have w: "1460 * z \<le> E" "E < 1460 * z + 1460"
      unfolding z_def using mult_div_mod_eq [of 1460 E] pos_mod_bound [of 1460 E] pos_mod_sign [of 1460 E] by linarith+
    show "365 * Y \<le> E - z + c" using e w E s(1-7) D(1,2) low high by linarith
    show "E - z + c < 365 * Y + 365"
    proof (cases "D = 365")
      case True
      then have "r = 3" using leap by blast
      then show ?thesis using True e w E s(1-7) high by linarith
    next
      case False
      then show ?thesis using e D(1,2) low by linarith
    qed
  qed
  have "(E - z + c) div 365 = Y"
    using z by (intro int_div_pos_eq [of _ _ _ "E - z + c - 365 * Y"]) linarith+
  moreover have "E - E div 1460 + E div 36524 - E div 146096 = E - z + c" using x by (simp add: x_def z_def)
  ultimately show "(E - E div 1460 + E div 36524 - E div 146096) div 365 = Y" by simp
qed

text \<open>The month of a day of such a year; its months have the indexes 0 (March) to 11.\<close>

definition month_index :: "int \<Rightarrow> int" where
  "month_index m = (if m > 2 then m - 3 else m + 9)"

lemma month_length_range: "28 \<le> month_length y m" "month_length y m \<le> 31"
  by (simp_all add: month_length_def)

lemma month_recovered:
  assumes "1 \<le> m" "m \<le> 12" "1 \<le> d" "d \<le> month_length y m"
  shows "(5 * (month_start m + d - 1) + 2) div 153 = month_index m"
proof -
  let ?x = "5 * (month_start m + d - 1) + 2"
  have "153 * month_index m \<le> ?x \<and> ?x < 153 * month_index m + 153"
    using month_cases [OF assms(1,2)] assms(3,4)
    by (auto simp: month_start_def month_index_def month_length_def split: if_splits)
  then show ?thesis by (intro int_div_pos_eq [of _ _ _ "?x - 153 * month_index m"]) simp_all
qed

lemma day_of_year_range:
  assumes "valid_date y m d"
  shows "0 \<le> month_start m + d - 1" "month_start m + d - 1 \<le> 365"
    "month_start m + d - 1 = 365 \<Longrightarrow> m = 2 \<and> leap_year y"
proof -
  have r: "1 \<le> m" "m \<le> 12" "1 \<le> d" "d \<le> month_length y m" using assms by (simp_all add: valid_date_def)
  have "0 \<le> month_start m + d - 1 \<and> month_start m + d - 1 \<le> 365 \<and> (month_start m + d - 1 = 365 \<longrightarrow> m = 2 \<and> leap_year y)"
    using month_cases [OF r(1,2)] r(3,4) by (auto simp: month_start_def month_length_def split: if_splits)
  then show "0 \<le> month_start m + d - 1" "month_start m + d - 1 \<le> 365"
    "month_start m + d - 1 = 365 \<Longrightarrow> m = 2 \<and> leap_year y" by simp_all
qed

lemma leap_year_era: "leap_year (y - 400 * e) = leap_year y"
proof -
  have "k dvd 400 * e \<Longrightarrow> k dvd y - 400 * e \<longleftrightarrow> k dvd y" for k by (simp add: dvd_diff_left_iff)
  then show ?thesis unfolding leap_year_def by (simp add: dvd_mult2)
qed

lemma civil_from_days_of_civil:
  assumes "valid_date y m d"
  shows "date_civil_from_days (date_days_from_civil y m d) = (y, m, d)"
proof -
  have r: "1 \<le> m" "m \<le> 12" "1 \<le> d" "d \<le> month_length y m" using assms by (simp_all add: valid_date_def)
  define y' where "y' = y - (if m \<le> 2 then 1 else 0)"
  define e Y D where "e = y' div 400" and "Y = y' mod 400" and "D = month_start m + d - 1"
  define E where "E = Y * 365 + Y div 4 - Y div 100 + D"
  have Y: "0 \<le> Y" "Y < 400" "y' = Y + e * 400" by (simp_all add: Y_def e_def)
  note D = day_of_year_range [OF assms, folded D_def]
  have "leap_year (Y + 1)" if "D = 365"
  proof -
    have "m = 2" "leap_year y" using D(3) [OF that] by simp_all
    moreover have "Y + 1 = y - 400 * e" using Y(3) \<open>m = 2\<close> by (simp add: y'_def)
    ultimately show ?thesis by (simp add: leap_year_era)
  qed
  note E = year_of_era_recovered [OF Y(1,2) D(1,2) this, folded E_def]
  have days: "date_days_from_civil y m d + 719468 = e * 146097 + E"
    unfolding days_from_civil_era [OF r(1)] y'_def [symmetric] Y_def [symmetric] e_def [symmetric] E_def D_def by simp
  have era: "(if e * 146097 + E \<ge> 0 then e * 146097 + E else e * 146097 + E - 146096) sdiv 146097 = e"
    by (subst sdiv_floor) (use E in simp_all)
  have doe: "e * 146097 + E - e * 146097 = E" by simp
  have nonneg: "0 \<le> E - E div 1460 + E div 36524 - E div 146096"
  proof -
    have "E div 1460 \<le> E" "E div 146096 \<le> E div 36524" using E(1) zdiv_mono2 [of E 1 1460] zdiv_mono2 [of E 36524 146096] by simp_all
    then show ?thesis by linarith
  qed
  have yoe: "(E - E sdiv 1460 + E sdiv 36524 - E sdiv 146096) sdiv 365 = Y"
    by (simp only: sdiv_nonneg [OF E(1)] sdiv_nonneg [OF nonneg] zero_less_numeral E(3))
  have doy: "E - (365 * Y + Y sdiv 4 - Y sdiv 100) = D" 
    unfolding E_def by (simp only: sdiv_nonneg [OF Y(1)] zero_less_numeral)
  have mp: "(5 * D + 2) sdiv 153 = month_index m"
  proof -
    have "0 \<le> 5 * D + 2" using D(1) by simp
    then show ?thesis using month_recovered [OF r, folded D_def] by (simp only: sdiv_nonneg zero_less_numeral)
  qed
  have mi: "0 \<le> month_index m" "(153 * month_index m + 2) sdiv 5 = month_start m"
    using r by (simp_all add: month_index_def month_start_def sdiv_nonneg)
  have mo: "(if month_index m < 10 then month_index m + 3 else month_index m - 9) = m"
    using r by (simp add: month_index_def)
  have dd: "D - month_start m + 1 = d" by (simp add: D_def)
  have yy: "Y + e * 400 + (if m \<le> 2 then 1 else 0) = y" unfolding Y(3) [symmetric] by (simp add: y'_def)
  show ?thesis unfolding date_civil_from_days_def Let_def days era doe yoe doy mp mi(2) mo dd yy ..
qed

text \<open>Every day number is the day of a date: counting up from a year that is far enough back.\<close>

lemma floor_bounds:
  fixes y k :: int
  assumes "0 < k"
  shows "k * (y div k) \<le> y" "y < k * (y div k) + k"
proof -
  have "k * (y div k) + y mod k = y" by (rule mult_div_mod_eq)
  with pos_mod_sign [OF assms, of y] pos_mod_bound [OF assms, of y]
  show "k * (y div k) \<le> y" "y < k * (y div k) + k" by linarith+
qed

lemma year_start_bounds:
  obtains a b c where "year_start y = 365 * y + a - b + c - 719468"
    "4 * a \<le> y" "y < 4 * a + 4" "100 * b \<le> y" "y < 100 * b + 100" "400 * c \<le> y" "y < 400 * c + 400"
  by (rule that [of "y div 4" "y div 100" "y div 400"]) (simp only: year_start_def, simp_all only: floor_bounds zero_less_numeral)

lemma year_start_low: "y \<le> 0 \<Longrightarrow> year_start y \<le> 364 * y"
  by (rule year_start_bounds [of y]) linarith

lemma days_from_civil_onto: "\<exists>y m d. valid_date y m d \<and> date_days_from_civil y m d = n"
proof -
  define y0 where "y0 = - \<bar>n\<bar> - 1"
  define n0 where "n0 = date_days_from_civil y0 3 1"
  have "year_start y0 \<le> 364 * y0" by (rule year_start_low) (simp add: y0_def)
  then have n0: "n0 \<le> n" by (simp add: n0_def days_from_civil_floor month_start_def y0_def)
  have "\<exists>y m d. valid_date y m d \<and> date_days_from_civil y m d = n0 + int k" for k
  proof (induction k)
    case 0
    have "valid_date y0 3 1" by (simp add: valid_date_def month_length_def)
    then show ?case by (auto simp: n0_def)
  next
    case (Suc k)
    then obtain y m d where v: "valid_date y m d" "date_days_from_civil y m d = n0 + int k" by blast
    obtain y' m' d' where "next_date (y, m, d) = (y', m', d')" by (cases "next_date (y, m, d)")
    from days_next_date [OF v(1) this] v(2) show ?case by (intro exI conjI) auto
  qed
  from this [of "nat (n - n0)"] n0 show ?thesis by simp
qed

lemma civil_from_days_valid:
  obtains y m d where "date_civil_from_days n = (y, m, d)" "valid_date y m d" "date_days_from_civil y m d = n"
proof -
  obtain y m d where "valid_date y m d" "date_days_from_civil y m d = n" using days_from_civil_onto by blast
  with civil_from_days_of_civil [of y m d] show thesis by (intro that) auto
qed

lemma year_start_range: "year_start y \<le> 366 * \<bar>y\<bar> + 719471" "- (366 * \<bar>y\<bar> + 719471) \<le> year_start y"
proof -
  define z where "z = \<bar>y\<bar>"
  have z: "y \<le> z" "- y \<le> z" by (simp_all add: z_def)
  obtain a b c where "year_start y = 365 * y + a - b + c - 719468"
    "4 * a \<le> y" "y < 4 * a + 4" "100 * b \<le> y" "y < 100 * b + 100" "400 * c \<le> y" "y < 400 * c + 400"
    by (rule year_start_bounds [of y])
  then show "year_start y \<le> 366 * \<bar>y\<bar> + 719471" "- (366 * \<bar>y\<bar> + 719471) \<le> year_start y"
    unfolding z_def [symmetric] using z by linarith+
qed

text \<open>The bounds of the callers keep the day number below \<open>2 ^ 40\<close>.\<close>

lemma days_from_civil_width:
  assumes "\<bar>y\<bar> \<le> 10 ^ 9 + 1" "1 \<le> m" "m \<le> 12" "\<bar>d\<bar> \<le> 31"
  shows "\<bar>date_days_from_civil y m d\<bar> < 2 ^ 40"
proof -
  define t where "t = (if m \<le> 2 then 1 else 0 :: int)"
  have m: "0 \<le> month_start m" "month_start m \<le> 337" using month_cases [OF assms(2,3)] by (auto simp: month_start_def)
  have "\<bar>y - t\<bar> \<le> 10 ^ 9 + 2" using assms(1) abs_triangle_ineq4 [of y t] by (simp add: t_def split: if_splits)
  moreover have "\<bar>x + s + d - 1\<bar> < 2 ^ 40"
    if "x \<le> 366 * z + 719471" "- (366 * z + 719471) \<le> x" "0 \<le> s" "s \<le> 337" "z \<le> 10 ^ 9 + 2" for x s z
    using that assms(4) unfolding abs_less_iff abs_le_iff by (elim conjE) (intro conjI; simp)
  ultimately show ?thesis
    unfolding days_from_civil_floor [OF assms(2)] t_def [symmetric] using year_start_range [of "y - t"] m by blast
qed

subsection \<open>Properties\<close>

text \<open>C35. The day number counts the days of the Gregorian calendar: it is 0 on 1 January 1970, and the
  date after a date (28 or 29 February, and the ends of months and years included) is a date whose day
  number is the next.\<close>

theorem day_number_counts_days:
  assumes "valid_date y m d"
  shows "date_days_from_civil 1970 1 1 = 0 \<and>
    (case next_date (y, m, d) of (y', m', d') \<Rightarrow>
       valid_date y' m' d' \<and> date_days_from_civil y' m' d' = date_days_from_civil y m d + 1)"
proof -
  obtain y' m' d' where n: "next_date (y, m, d) = (y', m', d')" by (cases "next_date (y, m, d)")
  have "date_days_from_civil 1970 1 1 = 0" by (simp add: days_from_civil_floor month_start_def year_start_def)
  with days_next_date [OF assms n] n show ?thesis by simp
qed

theorem day_number_counts_days_witness:
  "date_days_from_civil 2000 3 1 = date_days_from_civil 2000 2 29 + 1"
  using day_number_counts_days [of 2000 2 29] by (simp add: valid_date_def next_date_def month_length_def leap_year_def)

text \<open>C36. The two conversions are inverse to each other: every date comes back from its day number, and
  every day number, before the epoch too, is the day number of the date computed from it.\<close>

theorem civil_conversions_inverse:
  "(\<forall>y m d. valid_date y m d \<longrightarrow> date_civil_from_days (date_days_from_civil y m d) = (y, m, d))
   \<and> (\<forall>n. case date_civil_from_days n of (y, m, d) \<Rightarrow> valid_date y m d \<and> date_days_from_civil y m d = n)"
proof (intro conjI allI impI)
  show "valid_date y m d \<Longrightarrow> date_civil_from_days (date_days_from_civil y m d) = (y, m, d)" for y m d
    by (rule civil_from_days_of_civil)
  show "case date_civil_from_days n of (y, m, d) \<Rightarrow> valid_date y m d \<and> date_days_from_civil y m d = n" for n
    by (rule civil_from_days_valid [of n]) simp
qed

theorem civil_conversions_inverse_witness:
  "date_civil_from_days (date_days_from_civil 1900 2 28) = (1900, 2, 28)"
  using civil_conversions_inverse by (simp add: valid_date_def month_length_def)

end
