(* ===== verification/Date_Time.thy ===== *)
theory Date_Time
  imports Binary64_Arith Date_Civil
begin

text \<open>
  Time values of \<open>runtime_date.c\<close>: the broken-down fields of a time value and the operations
  MakeTime, MakeDay, MakeDate, TimeClip and MakeFullYear of ECMA-262, in the \<open>double\<close> arithmetic of the
  C code. On integers up to \<open>2 ^ 53\<close> that arithmetic is exact (\<open>exactness\<close>), which carries every
  statement over to integer arithmetic and the civil calendar.
\<close>

subsection \<open>Definitions\<close>

definition MS_PER_SECOND :: double where "MS_PER_SECOND = double_of_int 1000"
definition MS_PER_MINUTE :: double where "MS_PER_MINUTE = double_of_int 60000"
definition MS_PER_HOUR :: double where "MS_PER_HOUR = double_of_int 3600000"
definition MS_PER_DAY :: double where "MS_PER_DAY = double_of_int 86400000"
definition TIME_VALUE_LIMIT :: double where "TIME_VALUE_LIMIT = double_of_int 8640000000000000"

record date_fields =
  field_year :: int
  field_month :: int
  field_day :: int
  field_weekday :: int
  field_hour :: int
  field_minute :: int
  field_second :: int
  field_millisecond :: int

definition date_modulo :: "double \<Rightarrow> double \<Rightarrow> double" where
  "date_modulo v divisor =
     (let remainder = fmod v divisor
      in if \<not> dbl_eq remainder dbl_zero \<and> dbl_less remainder dbl_zero \<noteq> dbl_less divisor dbl_zero
         then dbl_add remainder divisor else remainder)"

definition date_day :: "double \<Rightarrow> double" where
  "date_day t = dbl_floor (dbl_div t MS_PER_DAY)"

definition date_time_within_day :: "double \<Rightarrow> double" where
  "date_time_within_day t = date_modulo t MS_PER_DAY"

definition fields_of_time :: "double \<Rightarrow> date_fields" where
  "fields_of_time t =
     (let day_number = date_day t; within_day = date_time_within_day t
      in case date_civil_from_days (dbl_to_int day_number) of (y, m, d) \<Rightarrow>
         \<lparr>field_year = y, field_month = m - 1, field_day = d,
          field_weekday = dbl_to_int (date_modulo (dbl_add day_number (double_of_int 4)) (double_of_int 7)),
          field_hour = dbl_to_int (dbl_floor (dbl_div within_day MS_PER_HOUR)),
          field_minute = dbl_to_int (date_modulo (dbl_floor (dbl_div within_day MS_PER_MINUTE)) (double_of_int 60)),
          field_second = dbl_to_int (date_modulo (dbl_floor (dbl_div within_day MS_PER_SECOND)) (double_of_int 60)),
          field_millisecond = dbl_to_int (date_modulo within_day (double_of_int 1000))\<rparr>)"

text \<open>The realm's time zone is UTC.\<close>

definition local_time_zone_adjustment :: double where
  "local_time_zone_adjustment = dbl_zero"

definition date_local_time :: "double \<Rightarrow> double" where
  "date_local_time t = (if \<not> isfinite t then NAN else dbl_add t local_time_zone_adjustment)"

definition date_utc_time :: "double \<Rightarrow> double" where
  "date_utc_time t = (if \<not> isfinite t then NAN else dbl_sub t local_time_zone_adjustment)"

definition date_to_integer :: "double \<Rightarrow> double" where
  "date_to_integer v =
     (if isnan v then dbl_zero
      else if \<not> isfinite v then v
      else let truncated = trunc v in if dbl_eq truncated dbl_zero then dbl_zero else truncated)"

definition date_make_time :: "double \<Rightarrow> double \<Rightarrow> double \<Rightarrow> double \<Rightarrow> double" where
  "date_make_time hour minute second millisecond =
     (if \<not> isfinite hour \<or> \<not> isfinite minute \<or> \<not> isfinite second \<or> \<not> isfinite millisecond then NAN
      else dbl_add (dbl_add (dbl_add (dbl_mul (date_to_integer hour) MS_PER_HOUR)
                                     (dbl_mul (date_to_integer minute) MS_PER_MINUTE))
                            (dbl_mul (date_to_integer second) MS_PER_SECOND))
                   (date_to_integer millisecond))"

definition date_make_day :: "double \<Rightarrow> double \<Rightarrow> double \<Rightarrow> double" where
  "date_make_day year month day =
     (if \<not> isfinite year \<or> \<not> isfinite month \<or> \<not> isfinite day then NAN
      else
        let integral_year = date_to_integer year;
            integral_month = date_to_integer month;
            integral_day = date_to_integer day;
            resolved_year = dbl_add integral_year (dbl_floor (dbl_div integral_month (double_of_int 12)))
        in if \<not> isfinite resolved_year \<or> dbl_less (double_of_int 1000000000) (fabs resolved_year) then NAN
           else
             let resolved_month = date_modulo integral_month (double_of_int 12);
                 days = date_days_from_civil (dbl_to_int resolved_year) (dbl_to_int resolved_month + 1) 1
             in dbl_sub (dbl_add (double_of_int days) integral_day) (double_of_int 1))"

definition date_make_date :: "double \<Rightarrow> double \<Rightarrow> double" where
  "date_make_date day time =
     (if \<not> isfinite day \<or> \<not> isfinite time then NAN
      else let v = dbl_add (dbl_mul day MS_PER_DAY) time in if \<not> isfinite v then NAN else v)"

definition date_time_clip :: "double \<Rightarrow> double" where
  "date_time_clip time =
     (if \<not> isfinite time then NAN
      else if dbl_less TIME_VALUE_LIMIT (fabs time) then NAN
      else date_to_integer time)"

definition date_make_full_year :: "double \<Rightarrow> double" where
  "date_make_full_year year =
     (if isnan year then NAN
      else
        let truncated = date_to_integer year
        in if dbl_le dbl_zero truncated \<and> dbl_le truncated (double_of_int 99)
           then dbl_add (double_of_int 1900) truncated else truncated)"

subsection \<open>Exactness\<close>

lemma exact_small: "\<bar>n\<bar> \<le> 8640000000000000 \<Longrightarrow> exact n"
  by (simp add: exact_def)

lemma holds_constants [exactness]:
  "holds dbl_zero 0" "holds MS_PER_SECOND 1000" "holds MS_PER_MINUTE 60000" "holds MS_PER_HOUR 3600000"
  "holds MS_PER_DAY 86400000" "holds TIME_VALUE_LIMIT 8640000000000000" "holds local_time_zone_adjustment 0"
proof -
  show z: "holds dbl_zero 0" using holds_zero [of False] by (simp add: dbl_zero_def make_double_def)
  show "holds MS_PER_SECOND 1000" "holds MS_PER_MINUTE 60000" "holds MS_PER_HOUR 3600000"
    "holds MS_PER_DAY 86400000" "holds TIME_VALUE_LIMIT 8640000000000000"
    unfolding MS_PER_SECOND_def MS_PER_MINUTE_def MS_PER_HOUR_def MS_PER_DAY_def TIME_VALUE_LIMIT_def
    by (rule holds_double_of_int; simp add: exact_def)+
  show "holds local_time_zone_adjustment 0" unfolding local_time_zone_adjustment_def by (rule z)
qed

lemma holds_modulo [exactness]:
  assumes "holds a m" "holds b n" "0 < n" "exact m" "exact n"
  shows "holds (date_modulo a b) (m mod n)"
proof -
  note f = holds_fmod [OF assms(1,2) _ assms(4)]
  have r: "holds (fmod a b) (int_fmod m n)" using f assms(3) by simp
  have pos: "int_fmod m n = m mod n" if "0 \<le> m"
    using that assms(3) by (cases "m = 0") (simp_all add: int_fmod_def)
  have neg: "int_fmod m n = (if n dvd m then 0 else m mod n - n)" if "m < 0"
    using that assms(3) by (simp add: int_fmod_def zmod_zminus1_eq_if mod_eq_0_iff_dvd)
  have rng: "0 \<le> m mod n" "m mod n < n" using assms(3) by simp_all
  show ?thesis
  proof (cases "m < 0 \<and> \<not> n dvd m")
    case True
    then have v: "int_fmod m n = m mod n - n" using neg by simp
    have ne: "m mod n \<noteq> n" using rng(2) by (rule less_imp_neq)
    have "exact (m mod n - n + n)" using rng assms(5) by (simp add: exact_def)
    from holds_add [OF r [unfolded v] assms(2) this] have "holds (dbl_add (fmod a b) b) (m mod n)" by simp
    moreover have "\<not> dbl_eq (fmod a b) dbl_zero" "dbl_less (fmod a b) dbl_zero" "\<not> dbl_less b dbl_zero"
      using holds_compare [OF r holds_constants(1)] holds_compare [OF assms(2) holds_constants(1)] v ne rng assms(3) by linarith+
    ultimately show ?thesis unfolding date_modulo_def Let_def by simp
  next
    case False
    then have v: "int_fmod m n = m mod n" using pos neg by (cases "m < 0") auto
    moreover have "\<not> dbl_less (fmod a b) dbl_zero" "\<not> dbl_less b dbl_zero"
      using holds_compare [OF r holds_constants(1)] holds_compare [OF assms(2) holds_constants(1)] v rng assms(3) by linarith+
    ultimately show ?thesis unfolding date_modulo_def Let_def using r by simp
  qed
qed

lemma to_integer_exact: "holds d n \<Longrightarrow> exact n \<Longrightarrow> date_to_integer d = double_of_int n"
proof -
  assume d: "holds d n" "exact n"
  have t: "holds (trunc d) n" by (rule holds_trunc_same [OF d(1)])
  show ?thesis
  proof (cases "n = 0")
    case True
    then show ?thesis using holds_finite [OF d(1)] holds_compare(1) [OF t holds_constants(1)]
      by (simp add: date_to_integer_def double_of_int_def double_of_nat_def)
  next
    case False
    then show ?thesis using holds_finite [OF d(1)] holds_compare(1) [OF t holds_constants(1)]
        holds_unique [OF t holds_double_of_int [OF d(2)]]
      by (simp add: date_to_integer_def Let_def)
  qed
qed

lemma holds_to_integer [exactness]: "holds d n \<Longrightarrow> exact n \<Longrightarrow> holds (date_to_integer d) n"
  by (simp add: to_integer_exact holds_double_of_int)

subsection \<open>Fields\<close>

abbreviation time_limit :: int where
  "time_limit \<equiv> 8640000000000000"

text \<open>What the fields of a time are: a date of the calendar and a time of the day.\<close>

definition fields_ok :: "date_fields \<Rightarrow> bool" where
  "fields_ok f \<longleftrightarrow> valid_date (field_year f) (field_month f + 1) (field_day f)
     \<and> 0 \<le> field_hour f \<and> field_hour f < 24 \<and> 0 \<le> field_minute f \<and> field_minute f < 60
     \<and> 0 \<le> field_second f \<and> field_second f < 60 \<and> 0 \<le> field_millisecond f \<and> field_millisecond f < 1000"

definition fields_day :: "date_fields \<Rightarrow> int" where
  "fields_day f = date_days_from_civil (field_year f) (field_month f + 1) (field_day f)"

definition fields_within_day :: "date_fields \<Rightarrow> int" where
  "fields_within_day f = field_hour f * 3600000 + field_minute f * 60000 + field_second f * 1000 + field_millisecond f"

lemma day_time_range:
  assumes "\<bar>t\<bar> \<le> time_limit"
  shows "- 100000000 \<le> t div 86400000" "t div 86400000 \<le> 100000000" "0 \<le> t mod 86400000" "t mod 86400000 < 86400000"
proof -
  note b = floor_bounds [of 86400000 t]
  show "- 100000000 \<le> t div 86400000" "t div 86400000 \<le> 100000000"
    using zdiv_mono1 [of "- time_limit" t 86400000] zdiv_mono1 [of t time_limit 86400000] assms by simp_all
qed simp_all

lemma holds_day:
  assumes "holds d t" "\<bar>t\<bar> \<le> time_limit"
  shows "holds (date_day d) (t div 86400000)" "holds (date_time_within_day d) (t mod 86400000)"
proof -
  have e: "exact t" "exact 86400000" using assms(2) by (simp_all add: exact_def)
  show "holds (date_day d) (t div 86400000)" unfolding date_day_def
    by (rule holds_floor_div [OF assms(1) holds_constants(5) _ e]) simp
  show "holds (date_time_within_day d) (t mod 86400000)" unfolding date_time_within_day_def
    by (rule holds_modulo [OF assms(1) holds_constants(5) _ e]) simp
qed

text \<open>The fields, computed on integers.\<close>

lemma fields_exact:
  assumes d: "holds d t" and t: "\<bar>t\<bar> \<le> time_limit"
  defines "w \<equiv> t mod 86400000"
  shows "fields_of_time d = (case date_civil_from_days (t div 86400000) of (y, m, dd) \<Rightarrow>
    \<lparr>field_year = y, field_month = m - 1, field_day = dd, field_weekday = (t div 86400000 + 4) mod 7,
     field_hour = w div 3600000, field_minute = w div 60000 mod 60, field_second = w div 1000 mod 60,
     field_millisecond = w mod 1000\<rparr>)"
proof -
  let ?day = "t div 86400000"
  note day = holds_day(1) [OF d t] and within = holds_day(2) [OF d t, folded w_def]
  note rng = day_time_range [OF t, folded w_def]
  have e: "exact 4" "exact 7" "exact 60" "exact 1000" "exact 60000" "exact 3600000" "exact (?day + 4)" "exact w"
    using rng by (simp_all add: exact_def)
  have i: "holds (double_of_int n) n" if "exact n" for n using that by (rule holds_double_of_int)
  have wd: "holds (date_modulo (dbl_add (date_day d) (double_of_int 4)) (double_of_int 7)) ((?day + 4) mod 7)"
    by (rule holds_modulo [OF holds_add [OF day i] i]) (use e in simp_all)
  have q: "holds (dbl_floor (dbl_div (date_time_within_day d) b)) (w div n)" if "holds b n" "0 < n" "exact n" for b n
    by (rule holds_floor_div [OF within that(1,2) e(8) that(3)])
  have small: "exact (w div 60000)" "exact (w div 1000)"
    using rng zdiv_mono2 [of w 1 60000] zdiv_mono2 [of w 1 1000] by (simp_all add: exact_def pos_imp_zdiv_nonneg_iff)
  have ho: "dbl_to_int (dbl_floor (dbl_div (date_time_within_day d) MS_PER_HOUR)) = w div 3600000"
    by (rule holds_to_int [OF q [OF holds_constants(4)]]) (use e in simp_all)
  have mi: "dbl_to_int (date_modulo (dbl_floor (dbl_div (date_time_within_day d) MS_PER_MINUTE)) (double_of_int 60)) = w div 60000 mod 60"
    by (rule holds_to_int [OF holds_modulo [OF q [OF holds_constants(3)] i]]) (use e small in simp_all)
  have se: "dbl_to_int (date_modulo (dbl_floor (dbl_div (date_time_within_day d) MS_PER_SECOND)) (double_of_int 60)) = w div 1000 mod 60"
    by (rule holds_to_int [OF holds_modulo [OF q [OF holds_constants(2)] i]]) (use e small in simp_all)
  have ms: "dbl_to_int (date_modulo (date_time_within_day d) (double_of_int 1000)) = w mod 1000"
    by (rule holds_to_int [OF holds_modulo [OF within i]]) (use e in simp_all)
  show ?thesis
    unfolding fields_of_time_def Let_def holds_to_int [OF day] holds_to_int [OF wd] ho mi se ms ..
qed

lemma clock_parts:
  fixes w :: int
  assumes "0 \<le> w" "w < 86400000"
  shows "0 \<le> w div 3600000" "w div 3600000 < 24"
    "w div 3600000 * 3600000 + w div 60000 mod 60 * 60000 + w div 1000 mod 60 * 1000 + w mod 1000 = w"
proof -
  have d: "w div 60000 = w div 1000 div 60" "w div 3600000 = w div 1000 div 60 div 60" by (simp_all add: zdiv_zmult2_eq [symmetric])
  define s where "s = w div 1000"
  define q h m e where "q = s div 60" and "h = q div 60" and "m = q mod 60" and "e = s mod 60"
  have "q = h * 60 + m" "s = q * 60 + e" "w = s * 1000 + w mod 1000"
    by (simp_all add: q_def h_def m_def e_def s_def)
  then have "h * 3600000 + m * 60000 + e * 1000 + w mod 1000 = w" by simp
  then show "w div 3600000 * 3600000 + w div 60000 mod 60 * 60000 + w div 1000 mod 60 * 1000 + w mod 1000 = w"
    unfolding d s_def [symmetric] q_def [symmetric] h_def [symmetric] m_def [symmetric] e_def [symmetric] .
  show "0 \<le> w div 3600000" using assms by (simp add: pos_imp_zdiv_nonneg_iff)
  show "w div 3600000 < 24" using floor_bounds(1) [of 3600000 w] assms by simp
qed

lemma fields_exact_ok:
  assumes d: "holds d t" and t: "\<bar>t\<bar> \<le> time_limit"
  shows "fields_ok (fields_of_time d)" "fields_day (fields_of_time d) = t div 86400000"
    "fields_within_day (fields_of_time d) = t mod 86400000" "field_weekday (fields_of_time d) = (t div 86400000 + 4) mod 7"
proof -
  obtain y m dd where c: "date_civil_from_days (t div 86400000) = (y, m, dd)" "valid_date y m dd"
    "date_days_from_civil y m dd = t div 86400000" by (rule civil_from_days_valid)
  note f = fields_exact [OF d t, unfolded c(1) prod.case]
  note w = clock_parts [OF day_time_range(3,4) [OF t]]
  show "fields_ok (fields_of_time d)" unfolding f fields_ok_def date_fields.simps using c(2) w(1,2) by simp
  show "fields_day (fields_of_time d) = t div 86400000" unfolding f fields_day_def date_fields.simps using c(3) by simp
  show "fields_within_day (fields_of_time d) = t mod 86400000" unfolding f fields_within_day_def date_fields.simps by (rule w(3))
  show "field_weekday (fields_of_time d) = (t div 86400000 + 4) mod 7" unfolding f date_fields.simps ..
qed

text \<open>The years of time values.\<close>

lemma year_of_day:
  assumes "valid_date y m d" "\<bar>date_days_from_civil y m d\<bar> \<le> 100000000"
  shows "\<bar>y\<bar> \<le> 400000"
proof -
  have r: "1 \<le> m" "m \<le> 12" "1 \<le> d" "d \<le> month_length y m" using assms(1) by (simp_all add: valid_date_def)
  note day = day_of_year_range(1,2) [OF assms(1)]
  define t where "t = (if m \<le> 2 then 1 else 0 :: int)"
  have t: "0 \<le> t" "t \<le> 1" by (simp_all add: t_def)
  obtain a b c where s: "year_start (y - t) = 365 * (y - t) + a - b + c - 719468"
    "4 * a \<le> y - t" "y - t < 4 * a + 4" "100 * b \<le> y - t" "y - t < 100 * b + 100" "400 * c \<le> y - t" "y - t < 400 * c + 400"
    by (rule year_start_bounds)
  have "date_days_from_civil y m d = year_start (y - t) + (month_start m + d - 1)"
    unfolding days_from_civil_floor [OF r(1)] t_def by simp
  then have "365 * y - 365 * t + a - b + c - 719468 + (month_start m + d - 1) \<le> 100000000"
    "- 100000000 \<le> 365 * y - 365 * t + a - b + c - 719468 + (month_start m + d - 1)"
    using assms(2) s(1) by simp_all
  then show ?thesis using t s(2-) day by (intro abs_leI) linarith+
qed

subsection \<open>Composition\<close>

lemma holds_make_time:
  assumes "holds h H" "holds m M" "holds s S" "holds ms MS"
    and "\<bar>H\<bar> \<le> 1000000" "\<bar>M\<bar> \<le> 1000000" "\<bar>S\<bar> \<le> 1000000" "\<bar>MS\<bar> \<le> 1000000"
  shows "holds (date_make_time h m s ms) (H * 3600000 + M * 60000 + S * 1000 + MS)"
proof -
  note fin = assms(1-4) [THEN holds_finite(1)]
  have e: "exact H" "exact M" "exact S" "exact MS" "exact (H * 3600000)" "exact (M * 60000)" "exact (S * 1000)"
    "exact (H * 3600000 + M * 60000)" "exact (H * 3600000 + M * 60000 + S * 1000)" "exact (H * 3600000 + M * 60000 + S * 1000 + MS)"
    using assms(5-) unfolding exact_def by simp_all
  show ?thesis
    unfolding date_make_time_def using fin e assms(1-4) by (simp add: exactness)
qed

lemma holds_make_day:
  assumes "holds y Y" "holds m M" "holds d D"
    and "\<bar>Y\<bar> \<le> 100000000" "\<bar>M\<bar> \<le> 100000000" "\<bar>D\<bar> \<le> 1000000000"
  shows "holds (date_make_day y m d) (date_days_from_civil (Y + M div 12) (M mod 12 + 1) 1 + D - 1)"
proof -
  note fin = assms(1-3) [THEN holds_finite(1)]
  let ?Y = "Y + M div 12" and ?n = "date_days_from_civil (Y + M div 12) (M mod 12 + 1) 1"
  have q: "\<bar>M div 12\<bar> \<le> 100000000"
    using floor_bounds [of 12 M] assms(5) by (intro abs_leI; cases "0 \<le> M"; simp)
  have Y: "\<bar>?Y\<bar> \<le> 200000000" using q assms(4) abs_triangle_ineq [of Y "M div 12"] by simp
  have e: "exact Y" "exact M" "exact D" "exact 12" "exact 1" "exact ?Y" "exact 1000000000"
    using assms(4-6) Y unfolding exact_def by simp_all
  have "\<bar>?n\<bar> < 2 ^ 40" by (rule days_from_civil_width) (use Y in simp_all)
  then have n: "exact ?n" "exact (?n + D)" "exact (?n + D - 1)"
    using assms(6) unfolding exact_def by simp_all
  have ty: "holds (date_to_integer y) Y" "holds (date_to_integer m) M" "holds (date_to_integer d) D"
    using assms e by (simp_all add: exactness)
  have twelve: "holds (double_of_int 12) 12" by (rule holds_double_of_int [OF e(4)])
  have ry: "holds (dbl_add (date_to_integer y) (dbl_floor (dbl_div (date_to_integer m) (double_of_int 12)))) ?Y" (is "holds ?ry _")
    by (rule holds_add [OF ty(1) holds_floor_div [OF ty(2) twelve _ e(2,4)] e(6)]) simp
  have rm: "holds (date_modulo (date_to_integer m) (double_of_int 12)) (M mod 12)"
    by (rule holds_modulo [OF ty(2) twelve _ e(2,4)]) simp
  have guard: "isfinite ?ry" "\<not> dbl_less (double_of_int 1000000000) (fabs ?ry)"
    using holds_finite [OF ry] holds_compare(2) [OF holds_double_of_int [OF e(7)] holds_fabs [OF ry]] Y by simp_all
  have res: "holds (dbl_sub (dbl_add (double_of_int ?n) (date_to_integer d)) (double_of_int 1)) (?n + D - 1)"
    by (rule holds_sub [OF holds_add [OF holds_double_of_int [OF n(1)] ty(3) n(2)] holds_double_of_int [OF e(5)] n(3)])
  show ?thesis
    unfolding date_make_day_def Let_def holds_to_int [OF ry] holds_to_int [OF rm] using fin guard res by simp
qed

lemma holds_make_date:
  assumes "holds d D" "holds w W" "exact (D * 86400000)" "exact (D * 86400000 + W)"
  shows "holds (date_make_date d w) (D * 86400000 + W)"
proof -
  have v: "holds (dbl_add (dbl_mul d MS_PER_DAY) w) (D * 86400000 + W)"
    by (rule holds_add [OF holds_mul [OF assms(1) holds_constants(5) assms(3)] assms(2,4)])
  show ?thesis unfolding date_make_date_def Let_def
    using holds_finite(1) [OF assms(1)] holds_finite(1) [OF assms(2)] holds_finite(1) [OF v] v by simp
qed

lemma time_clip_exact:
  assumes "holds d n"
  shows "date_time_clip d = (if \<bar>n\<bar> \<le> time_limit then double_of_int n else NAN)"
  using holds_finite(1) [OF assms] holds_compare(2) [OF holds_constants(6) holds_fabs [OF assms]]
    to_integer_exact [OF assms] exact_small [of n]
  by (simp add: date_time_clip_def)

text \<open>The time value of fields that are in range.\<close>

definition time_of_fields :: "date_fields \<Rightarrow> double" where
  "time_of_fields f = date_make_date
     (date_make_day (double_of_int (field_year f)) (double_of_int (field_month f)) (double_of_int (field_day f)))
     (date_make_time (double_of_int (field_hour f)) (double_of_int (field_minute f))
        (double_of_int (field_second f)) (double_of_int (field_millisecond f)))"

lemma days_from_civil_day: "1 \<le> m \<Longrightarrow> date_days_from_civil y m 1 + d - 1 = date_days_from_civil y m d"
  by (simp add: days_from_civil_floor)

lemma month_length_pos [simp]: "1 \<le> month_length y m"
  using month_length_range(1) [of y m] by linarith

lemma holds_time_of_fields:
  assumes "fields_ok f" "\<bar>fields_day f\<bar> \<le> 100000000"
  shows "holds (time_of_fields f) (fields_day f * 86400000 + fields_within_day f)"
proof -
  note ok = assms(1) [unfolded fields_ok_def valid_date_def]
  have y: "\<bar>field_year f\<bar> \<le> 400000"
    using year_of_day assms unfolding fields_ok_def fields_day_def by blast
  have "month_length (field_year f) (field_month f + 1) \<le> 31" by (rule month_length_range)
  then have m: "0 \<le> field_month f" "field_month f < 12" "1 \<le> field_day f" "field_day f \<le> 31" using ok by simp_all
  have i: "holds (double_of_int n) n" if "\<bar>n\<bar> \<le> 1000000" for n using that by (intro holds_double_of_int) (simp add: exact_def)
  have day: "holds (date_make_day (double_of_int (field_year f)) (double_of_int (field_month f)) (double_of_int (field_day f))) (fields_day f)"
    using holds_make_day [OF i i i, of "field_year f" "field_month f" "field_day f"] y m
    by (simp add: fields_day_def days_from_civil_day)
  have time: "holds (date_make_time (double_of_int (field_hour f)) (double_of_int (field_minute f))
      (double_of_int (field_second f)) (double_of_int (field_millisecond f))) (fields_within_day f)"
    unfolding fields_within_day_def by (rule holds_make_time [OF i i i i]) (use ok in simp_all)
  have w: "0 \<le> fields_within_day f" "fields_within_day f < 86400000"
    using ok unfolding fields_within_day_def by simp_all
  show ?thesis unfolding time_of_fields_def
    by (rule holds_make_date [OF day time]) (use w assms(2) in \<open>simp_all add: exact_def\<close>)
qed

subsection \<open>Time values\<close>

text \<open>What a \<open>[[DateValue]]\<close> may hold: the canonical NaN, or an integer number of milliseconds within
  100,000,000 days of the epoch, never a negative zero.\<close>

definition time_value_ok :: "double \<Rightarrow> bool" where
  "time_value_ok d \<longleftrightarrow> d = NAN \<or> \<bar>dbl_to_int d\<bar> \<le> time_limit \<and> d = double_of_int (dbl_to_int d)"

lemma time_value_of_int: "\<bar>n\<bar> \<le> time_limit \<Longrightarrow> time_value_ok (double_of_int n)"
  using holds_to_int [OF holds_double_of_int [OF exact_small]] by (simp add: time_value_ok_def)

lemma time_value_cases:
  assumes "time_value_ok d"
  obtains "d = NAN" | t where "d = double_of_int t" "\<bar>t\<bar> \<le> time_limit" "holds d t"
proof (cases "d = NAN")
  case False
  then have "\<bar>dbl_to_int d\<bar> \<le> time_limit" "d = double_of_int (dbl_to_int d)" using assms by (simp_all add: time_value_ok_def)
  then show thesis using that(2) holds_double_of_int [OF exact_small] by metis
qed (rule that(1))

text \<open>TimeClip gives a time value for every \<open>double\<close>: infinities, subnormal numbers and NaNs included.\<close>

lemma time_clip_ok [simp]: "time_value_ok (date_time_clip d)"
proof (cases "isfinite d \<and> \<not> dbl_less TIME_VALUE_LIMIT (fabs d)")
  case True
  let ?n = "dbl_to_int d"
  have fin: "isfinite d" "\<not> isnan d" using True by (simp_all add: isfinite_iff)
  have l: "holds TIME_VALUE_LIMIT time_limit" by (rule holds_constants)
  have "\<bar>scaled d\<bar> \<le> time_limit * 2 ^ 1074"
    using True holds_finite(2) [OF l] l fin by (simp add: dbl_less_def holds_def)
  then have "int (magnitude_of d) \<le> int (8640000000000000 * 2 ^ 1074)" unfolding abs_scaled by simp
  then have "magnitude_of d \<le> 8640000000000000 * 2 ^ 1074" by (simp only: of_nat_le_iff)
  then have "magnitude_of d div 2 ^ 1074 \<le> 8640000000000000 * 2 ^ 1074 div 2 ^ 1074" by (rule div_le_mono)
  then have "dbl_to_nat d \<le> 8640000000000000" unfolding dbl_to_nat_def by simp
  then have n: "\<bar>?n\<bar> \<le> time_limit" unfolding dbl_to_int_def by (auto split: if_splits)
  have t: "holds (trunc d) ?n" by (rule holds_trunc [OF fin(1)])
  have "date_to_integer d = double_of_int ?n"
  proof (cases "?n = 0")
    case True
    then show ?thesis using fin t holds_compare(1) [OF t holds_constants(1)]
      by (simp add: date_to_integer_def double_of_int_def double_of_nat_def)
  next
    case False
    then show ?thesis using fin holds_compare(1) [OF t holds_constants(1)]
        holds_unique [OF t holds_double_of_int [OF exact_small [OF n]]]
      by (simp add: date_to_integer_def Let_def)
  qed
  then have "date_time_clip d = double_of_int ?n" unfolding date_time_clip_def using True by simp
  then show ?thesis using time_value_of_int [OF n] by simp
next
  case False
  then show ?thesis by (auto simp: date_time_clip_def time_value_ok_def)
qed

text \<open>With the time zone UTC, local time is the time.\<close>

lemma local_time_same: "holds d n \<Longrightarrow> exact n \<Longrightarrow> holds (date_local_time d) n" "holds d n \<Longrightarrow> exact n \<Longrightarrow> holds (date_utc_time d) n"
  using holds_add [of d n local_time_zone_adjustment 0] holds_sub [of d n local_time_zone_adjustment 0] holds_constants(7)
  by (simp_all add: date_local_time_def date_utc_time_def holds_finite)

subsection \<open>Properties\<close>

text \<open>C37. The fields of a time value are a date of the Gregorian calendar and a time of the day: the date
  has the day number of the day the time falls in, the hours, minutes, seconds and milliseconds are in
  their ranges and add up to the time since midnight, and the weekday counts from Sunday with Thursday on
  1 January 1970. The code divides in floating point; before and after the epoch, for every time value, no
  quotient is rounded to the wrong day, hour, minute or second.\<close>

theorem fields_of_time_correct:
  assumes "\<bar>t\<bar> \<le> 8640000000000000"
  defines "f \<equiv> fields_of_time (double_of_int t)"
  shows "valid_date (field_year f) (field_month f + 1) (field_day f)
    \<and> date_days_from_civil (field_year f) (field_month f + 1) (field_day f) = t div 86400000
    \<and> 0 \<le> field_hour f \<and> field_hour f < 24 \<and> 0 \<le> field_minute f \<and> field_minute f < 60
    \<and> 0 \<le> field_second f \<and> field_second f < 60 \<and> 0 \<le> field_millisecond f \<and> field_millisecond f < 1000
    \<and> field_hour f * 3600000 + field_minute f * 60000 + field_second f * 1000 + field_millisecond f = t mod 86400000
    \<and> field_weekday f = (t div 86400000 + 4) mod 7"
  using fields_exact_ok [OF holds_double_of_int [OF exact_small [OF assms(1)]] assms(1), folded f_def]
  unfolding fields_ok_def fields_day_def fields_within_day_def by blast

theorem fields_of_time_correct_witness:
  "field_weekday (fields_of_time (double_of_int (- 1))) = 3"
  using fields_of_time_correct [of "- 1"] by simp

text \<open>C38. Composing the fields of a time value again gives that time value: MakeDay of its year, month and
  day and MakeTime of its hour, minute, second and millisecond, joined by MakeDate and TimeClip. This is
  what every component setter computes for the components it was not given.\<close>

theorem fields_recompose:
  assumes "\<bar>t\<bar> \<le> 8640000000000000"
  defines "f \<equiv> fields_of_time (double_of_int t)"
  shows "date_time_clip (date_make_date
     (date_make_day (double_of_int (field_year f)) (double_of_int (field_month f)) (double_of_int (field_day f)))
     (date_make_time (double_of_int (field_hour f)) (double_of_int (field_minute f))
        (double_of_int (field_second f)) (double_of_int (field_millisecond f)))) = double_of_int t"
proof -
  note f = fields_exact_ok [OF holds_double_of_int [OF exact_small [OF assms(1)]] assms(1), folded f_def]
  have "\<bar>fields_day f\<bar> \<le> 100000000" using day_time_range(1,2) [OF assms(1)] f(2) by simp
  from holds_time_of_fields [OF f(1) this] have "holds (time_of_fields f) t" unfolding f by simp
  from time_clip_exact [OF this] show ?thesis using assms(1) by (simp add: time_of_fields_def)
qed

lemma last_millisecond_of_1969: "fields_of_time (double_of_int (- 1)) =
  \<lparr>field_year = 1969, field_month = 11, field_day = 31, field_weekday = 3,
   field_hour = 23, field_minute = 59, field_second = 59, field_millisecond = 999\<rparr>"
proof -
  have d: "holds (double_of_int (- 1)) (- 1)" by (intro holds_double_of_int) (simp add: exact_def)
  have "date_days_from_civil 1969 12 31 = - 1" by (simp add: days_from_civil_floor month_start_def year_start_def)
  then have c: "date_civil_from_days (- 1) = (1969, 12, 31)"
    using civil_from_days_of_civil [of 1969 12 31] by (simp add: valid_date_def month_length_def)
  have q: "- 1 div 86400000 = (- 1 :: int)" "- 1 mod 86400000 = (86399999 :: int)" by simp_all
  show ?thesis unfolding fields_exact [OF d, simplified abs_minus abs_one, OF one_le_numeral] q c prod.case by simp
qed

theorem fields_recompose_witness:
  "date_time_clip (date_make_date (date_make_day (double_of_int 1969) (double_of_int 11) (double_of_int 31))
     (date_make_time (double_of_int 23) (double_of_int 59) (double_of_int 59) (double_of_int 999))) = double_of_int (- 1)"
  using fields_recompose [of "- 1"] unfolding last_millisecond_of_1969 date_fields.simps by simp

end
