(* ===== verification/Date_Methods.thy ===== *)
theory Date_Methods
  imports Date_Time Heap_Objects
begin

text \<open>
  The numeric methods of \<open>Date.prototype\<close> in \<open>runtime_date.c\<close>, over the \<open>[[DateValue]]\<close> slots of all
  Dates. The state is a record with the slot of every address that holds an \<open>OseoDate\<close>, and may have
  further fields. ToNumber runs user code, which may call any of these methods on any Date: it is the
  parameter \<open>to_number\<close>, a function on the whole state.
\<close>

subsection \<open>The state\<close>

record date_state =
  date_value :: "u64 \<Rightarrow> double option"

datatype date_method =
    DATE_GET_DATE | DATE_GET_DAY | DATE_GET_FULL_YEAR | DATE_GET_HOURS | DATE_GET_MILLISECONDS | DATE_GET_MINUTES
  | DATE_GET_MONTH | DATE_GET_SECONDS | DATE_GET_TIME | DATE_GET_TIMEZONE_OFFSET
  | DATE_GET_UTC_DATE | DATE_GET_UTC_DAY | DATE_GET_UTC_FULL_YEAR | DATE_GET_UTC_HOURS | DATE_GET_UTC_MILLISECONDS
  | DATE_GET_UTC_MINUTES | DATE_GET_UTC_MONTH | DATE_GET_UTC_SECONDS
  | DATE_SET_DATE | DATE_SET_FULL_YEAR | DATE_SET_HOURS | DATE_SET_MILLISECONDS | DATE_SET_MINUTES | DATE_SET_MONTH
  | DATE_SET_SECONDS | DATE_SET_TIME
  | DATE_SET_UTC_DATE | DATE_SET_UTC_FULL_YEAR | DATE_SET_UTC_HOURS | DATE_SET_UTC_MILLISECONDS | DATE_SET_UTC_MINUTES
  | DATE_SET_UTC_MONTH | DATE_SET_UTC_SECONDS
  | DATE_GET_YEAR | DATE_SET_YEAR

definition date_at :: "'s date_state_scheme \<Rightarrow> oseo_value \<Rightarrow> double option" where
  "date_at c v = (if is_heap v then date_value c (heap_address v) else None)"

definition write_date :: "oseo_value \<Rightarrow> double \<Rightarrow> 's date_state_scheme \<Rightarrow> 's date_state_scheme" where
  "write_date v d c = c\<lparr>date_value := (date_value c)(heap_address v \<mapsto> d)\<rparr>"

definition not_a_date :: rt_error where
  "not_a_date = LanguageError ERROR_TYPE ''Date method requires a Date receiver.''"

definition date_receiver :: "'s date_state_scheme \<Rightarrow> oseo_value \<Rightarrow> rt_error + double" where
  "date_receiver c receiver = (case date_at c receiver of None \<Rightarrow> Inl not_a_date | Some d \<Rightarrow> Inr d)"

definition date_argument :: "oseo_value list \<Rightarrow> nat \<Rightarrow> oseo_value" where
  "date_argument arguments index = (if index < length arguments then arguments ! index else oseo_undefined)"

subsection \<open>Getters\<close>

definition local_getter :: "date_method \<Rightarrow> bool" where
  "local_getter method \<longleftrightarrow> method \<in> {DATE_GET_DATE, DATE_GET_DAY, DATE_GET_FULL_YEAR, DATE_GET_HOURS,
     DATE_GET_MILLISECONDS, DATE_GET_MINUTES, DATE_GET_MONTH, DATE_GET_SECONDS}"

definition date_component :: "date_method \<Rightarrow> date_fields \<Rightarrow> int" where
  "date_component method f =
     (if method \<in> {DATE_GET_DATE, DATE_GET_UTC_DATE} then field_day f
      else if method \<in> {DATE_GET_DAY, DATE_GET_UTC_DAY} then field_weekday f
      else if method \<in> {DATE_GET_FULL_YEAR, DATE_GET_UTC_FULL_YEAR} then field_year f
      else if method \<in> {DATE_GET_HOURS, DATE_GET_UTC_HOURS} then field_hour f
      else if method \<in> {DATE_GET_MILLISECONDS, DATE_GET_UTC_MILLISECONDS} then field_millisecond f
      else if method \<in> {DATE_GET_MINUTES, DATE_GET_UTC_MINUTES} then field_minute f
      else if method \<in> {DATE_GET_MONTH, DATE_GET_UTC_MONTH} then field_month f
      else field_second f)"

definition date_get_field :: "date_method \<Rightarrow> oseo_value \<Rightarrow> 's date_state_scheme \<Rightarrow> rt_error + oseo_value" where
  "date_get_field method receiver c =
     (case date_receiver c receiver of
        Inl e \<Rightarrow> Inl e
      | Inr time_value \<Rightarrow>
          if isnan time_value then Inr (oseo_number NAN)
          else if method = DATE_GET_TIME then Inr (oseo_number time_value)
          else if method = DATE_GET_TIMEZONE_OFFSET
            then Inr (oseo_number (dbl_div (dbl_sub time_value (date_local_time time_value)) MS_PER_MINUTE))
          else
            let f = fields_of_time (if local_getter method then date_local_time time_value else time_value)
            in Inr (oseo_number (double_of_int (date_component method f))))"

definition date_get_year :: "oseo_value \<Rightarrow> 's date_state_scheme \<Rightarrow> rt_error + oseo_value" where
  "date_get_year receiver c =
     (case date_receiver c receiver of
        Inl e \<Rightarrow> Inl e
      | Inr time_value \<Rightarrow>
          if isnan time_value then Inr (oseo_number NAN)
          else Inr (oseo_number (dbl_sub (double_of_int (field_year (fields_of_time (date_local_time time_value)))) (double_of_int 1900))))"

subsection \<open>Setters\<close>

text \<open>First component, number of components and whether it is local; the components are numbered as in
  \<open>OseoDateField\<close>, from the year (0) to the millisecond (6).\<close>

definition date_setter_shape :: "date_method \<Rightarrow> (nat \<times> nat \<times> bool) option" where
  "date_setter_shape method =
     (case method of
        DATE_SET_DATE \<Rightarrow> Some (2, 1, True)
      | DATE_SET_FULL_YEAR \<Rightarrow> Some (0, 3, True)
      | DATE_SET_HOURS \<Rightarrow> Some (3, 4, True)
      | DATE_SET_MILLISECONDS \<Rightarrow> Some (6, 1, True)
      | DATE_SET_MINUTES \<Rightarrow> Some (4, 3, True)
      | DATE_SET_MONTH \<Rightarrow> Some (1, 2, True)
      | DATE_SET_SECONDS \<Rightarrow> Some (5, 2, True)
      | DATE_SET_UTC_DATE \<Rightarrow> Some (2, 1, False)
      | DATE_SET_UTC_FULL_YEAR \<Rightarrow> Some (0, 3, False)
      | DATE_SET_UTC_HOURS \<Rightarrow> Some (3, 4, False)
      | DATE_SET_UTC_MILLISECONDS \<Rightarrow> Some (6, 1, False)
      | DATE_SET_UTC_MINUTES \<Rightarrow> Some (4, 3, False)
      | DATE_SET_UTC_MONTH \<Rightarrow> Some (1, 2, False)
      | DATE_SET_UTC_SECONDS \<Rightarrow> Some (5, 2, False)
      | _ \<Rightarrow> None)"

text \<open>The conversions of a setter, from argument \<open>index\<close> on: the first is converted even when the call
  does not supply it.\<close>

fun convert_arguments :: "(oseo_value \<Rightarrow> 's \<Rightarrow> (rt_error + oseo_value) \<times> 's) \<Rightarrow> oseo_value list \<Rightarrow> nat \<Rightarrow> nat \<Rightarrow> 's
    \<Rightarrow> (rt_error + double list) \<times> 's" where
  "convert_arguments to_number arguments index 0 c = (Inr [], c)"
| "convert_arguments to_number arguments index (Suc n) c =
     (if index > 0 \<and> index \<ge> length arguments then (Inr [], c)
      else case to_number (date_argument arguments index) c of
             (Inl e, c) \<Rightarrow> (Inl e, c)
           | (Inr v, c) \<Rightarrow>
               (case convert_arguments to_number arguments (index + 1) n c of
                  (Inl e, c) \<Rightarrow> (Inl e, c)
                | (Inr ds, c) \<Rightarrow> (Inr (number_value v # ds), c)))"

definition component_values :: "date_fields \<Rightarrow> double list" where
  "component_values f = map double_of_int
     [field_year f, field_month f, field_day f, field_hour f, field_minute f, field_second f, field_millisecond f]"

text \<open>The supplied values replace components from \<open>first\<close> on.\<close>

definition overlay :: "double list \<Rightarrow> nat \<Rightarrow> double list \<Rightarrow> double list" where
  "overlay components first supplied =
     take first components @ supplied @ drop (first + length supplied) components"

definition compose_time :: "double list \<Rightarrow> double" where
  "compose_time cs = date_make_date (date_make_day (cs ! 0) (cs ! 1) (cs ! 2)) (date_make_time (cs ! 3) (cs ! 4) (cs ! 5) (cs ! 6))"

definition date_set_fields :: "(oseo_value \<Rightarrow> 's date_state_scheme \<Rightarrow> (rt_error + oseo_value) \<times> 's date_state_scheme)
    \<Rightarrow> date_method \<Rightarrow> oseo_value \<Rightarrow> oseo_value list \<Rightarrow> 's date_state_scheme \<Rightarrow> (rt_error + oseo_value) \<times> 's date_state_scheme" where
  "date_set_fields to_number method receiver arguments c =
     (case date_setter_shape method of
        None \<Rightarrow> (Inl (Diagnostic ''OSEO2001'' ''Unknown Date setter.''), c)
      | Some (first, count, local) \<Rightarrow>
          (case date_receiver c receiver of
             Inl e \<Rightarrow> (Inl e, c)
           | Inr time_value \<Rightarrow>
               (case convert_arguments to_number arguments 0 count c of
                  (Inl e, c) \<Rightarrow> (Inl e, c)
                | (Inr supplied, c) \<Rightarrow>
                    if isnan time_value \<and> first \<noteq> 0 then (Inr (oseo_number NAN), c)
                    else
                      let base = (if isnan time_value then dbl_zero
                                  else if local then date_local_time time_value else time_value);
                          composed = compose_time (overlay (component_values (fields_of_time base)) first supplied);
                          updated = date_time_clip (if local then date_utc_time composed else composed)
                      in (Inr (oseo_number updated), write_date receiver updated c))))"

definition date_set_year :: "(oseo_value \<Rightarrow> 's date_state_scheme \<Rightarrow> (rt_error + oseo_value) \<times> 's date_state_scheme)
    \<Rightarrow> oseo_value \<Rightarrow> oseo_value list \<Rightarrow> 's date_state_scheme \<Rightarrow> (rt_error + oseo_value) \<times> 's date_state_scheme" where
  "date_set_year to_number receiver arguments c =
     (case date_receiver c receiver of
        Inl e \<Rightarrow> (Inl e, c)
      | Inr time_value \<Rightarrow>
          (case to_number (date_argument arguments 0) c of
             (Inl e, c) \<Rightarrow> (Inl e, c)
           | (Inr v, c) \<Rightarrow>
               let year = date_make_full_year (number_value v);
                   base = (if isnan time_value then dbl_zero else date_local_time time_value);
                   f = fields_of_time base;
                   day = date_make_day year (double_of_int (field_month f)) (double_of_int (field_day f));
                   composed = date_make_date day (date_time_within_day base);
                   updated = date_time_clip (date_utc_time composed)
               in (Inr (oseo_number updated), write_date receiver updated c)))"

definition date_set_time :: "(oseo_value \<Rightarrow> 's date_state_scheme \<Rightarrow> (rt_error + oseo_value) \<times> 's date_state_scheme)
    \<Rightarrow> oseo_value \<Rightarrow> oseo_value list \<Rightarrow> 's date_state_scheme \<Rightarrow> (rt_error + oseo_value) \<times> 's date_state_scheme" where
  "date_set_time to_number receiver arguments c =
     (case date_receiver c receiver of
        Inl e \<Rightarrow> (Inl e, c)
      | Inr time_value \<Rightarrow>
          (case to_number (date_argument arguments 0) c of
             (Inl e, c) \<Rightarrow> (Inl e, c)
           | (Inr v, c) \<Rightarrow>
               let updated = date_time_clip (number_value v)
               in (Inr (oseo_number updated), write_date receiver updated c)))"

text \<open>The numeric part of the dispatch over the method table.\<close>

definition date_prototype_method :: "(oseo_value \<Rightarrow> 's date_state_scheme \<Rightarrow> (rt_error + oseo_value) \<times> 's date_state_scheme)
    \<Rightarrow> date_method \<Rightarrow> oseo_value \<Rightarrow> oseo_value list \<Rightarrow> 's date_state_scheme \<Rightarrow> (rt_error + oseo_value) \<times> 's date_state_scheme" where
  "date_prototype_method to_number method receiver arguments c =
     (if method = DATE_GET_YEAR then (date_get_year receiver c, c)
      else if method = DATE_SET_YEAR then date_set_year to_number receiver arguments c
      else if date_setter_shape method = None \<and> method \<noteq> DATE_SET_TIME then (date_get_field method receiver c, c)
      else if method = DATE_SET_TIME then date_set_time to_number receiver arguments c
      else date_set_fields to_number method receiver arguments c)"

subsection \<open>The \<open>UTC\<close> static\<close>

definition date_utc :: "(oseo_value \<Rightarrow> 's date_state_scheme \<Rightarrow> (rt_error + oseo_value) \<times> 's date_state_scheme)
    \<Rightarrow> oseo_value list \<Rightarrow> 's date_state_scheme \<Rightarrow> (rt_error + oseo_value) \<times> 's date_state_scheme" where
  "date_utc to_number arguments c =
     (case convert_arguments to_number arguments 0 7 c of
        (Inl e, c) \<Rightarrow> (Inl e, c)
      | (Inr supplied, c) \<Rightarrow>
          let components = overlay [NAN, dbl_zero, double_of_int 1, dbl_zero, dbl_zero, dbl_zero, dbl_zero] 0 supplied;
              resolved_year = date_make_full_year (components ! 0)
          in (Inr (oseo_number (date_time_clip (compose_time (components[0 := resolved_year])))), c))"

subsection \<open>Runs of a program\<close>

text \<open>What a program can do to the \<open>[[DateValue]]\<close> slots: create a Date, whose record every branch of the
  constructor publishes with a value TimeClip gave, and call a numeric method with any arguments, whose
  conversions are again runs of the program.\<close>

inductive date_run :: "'s date_state_scheme \<Rightarrow> 's date_state_scheme \<Rightarrow> bool" where
  start: "date_run c c"
| create: "date_run c c1 \<Longrightarrow> date_value c1 a = None \<Longrightarrow> date_run c (c1\<lparr>date_value := (date_value c1)(a \<mapsto> date_time_clip d)\<rparr>)"
| call: "date_run c c1 \<Longrightarrow> (\<And>v s. date_run s (snd (to_number v s))) \<Longrightarrow>
    date_run c (snd (date_prototype_method to_number method receiver arguments c1))"

definition dates_ok :: "'s date_state_scheme \<Rightarrow> bool" where
  "dates_ok c \<longleftrightarrow> (\<forall>a d. date_value c a = Some d \<longrightarrow> time_value_ok d)"

lemma dates_ok_write [simp]: "dates_ok c \<Longrightarrow> time_value_ok d \<Longrightarrow> dates_ok (write_date v d c)"
  by (simp add: dates_ok_def write_date_def)

lemma convert_arguments_ok:
  "(\<And>v s. dates_ok s \<Longrightarrow> dates_ok (snd (to_number v s))) \<Longrightarrow> dates_ok c \<Longrightarrow> convert_arguments to_number arguments index n c = (r, c') \<Longrightarrow> dates_ok c'"
proof (induction to_number arguments index n c arbitrary: r c' rule: convert_arguments.induct)
  case (2 to_number arguments index n c)
  show ?case
  proof (cases "index > 0 \<and> index \<ge> length arguments")
    case False
    obtain q s where t: "to_number (date_argument arguments index) c = (q, s)" by (cases "to_number (date_argument arguments index) c")
    then have s: "dates_ok s" using 2(2) [OF 2(3), of "date_argument arguments index"] by simp
    show ?thesis
    proof (cases q)
      case (Inr v)
      obtain q' s' where u: "convert_arguments to_number arguments (index + 1) n s = (q', s')"
        by (cases "convert_arguments to_number arguments (index + 1) n s")
      have "dates_ok s'" by (rule 2(1) [OF False t [symmetric] Inr 2(2) s u])
      then show ?thesis using 2(4) False t Inr u by (auto split: sum.splits)
    qed (use 2(4) False t s in auto)
  qed (use 2 in auto)
qed auto

lemma date_method_ok:
  assumes n: "\<And>v s. dates_ok s \<Longrightarrow> dates_ok (snd (to_number v s))" and c: "dates_ok c"
  shows "dates_ok (snd (date_prototype_method to_number method receiver arguments c))"
proof -
  have f: "dates_ok (snd (date_set_fields to_number method receiver arguments c))"
  proof (cases "date_setter_shape method")
    case (Some shape)
    obtain first count local where sh: "shape = (first, count, local)" by (cases shape)
    obtain q s where u: "convert_arguments to_number arguments 0 count c = (q, s)"
      by (cases "convert_arguments to_number arguments 0 count c")
    have "dates_ok s" by (rule convert_arguments_ok [OF n c u])
    then show ?thesis unfolding date_set_fields_def Some sh option.case prod.case u using c
      by (cases "date_receiver c receiver"; cases q) (simp_all add: Let_def)
  qed (simp add: date_set_fields_def c)
  have y: "dates_ok (snd (date_set_year to_number receiver arguments c))"
    unfolding date_set_year_def using c n [OF c, of "date_argument arguments 0"]
    by (cases "date_receiver c receiver"; cases "to_number (date_argument arguments 0) c"; cases "fst (to_number (date_argument arguments 0) c)")
      (simp_all add: Let_def)
  have t: "dates_ok (snd (date_set_time to_number receiver arguments c))"
    unfolding date_set_time_def using c n [OF c, of "date_argument arguments 0"]
    by (cases "date_receiver c receiver"; cases "to_number (date_argument arguments 0) c"; cases "fst (to_number (date_argument arguments 0) c)")
      (simp_all add: Let_def)
  show ?thesis unfolding date_prototype_method_def using c f y t by simp
qed

lemma date_run_ok: "date_run c c' \<Longrightarrow> dates_ok c \<Longrightarrow> dates_ok c'"
proof (induction rule: date_run.induct)
  case (create c c1 a d)
  then show ?case by (simp add: dates_ok_def)
qed (auto intro: date_method_ok)

subsection \<open>Properties\<close>


definition overflowing_date :: date_state where
  "overflowing_date = \<lparr>date_value = [8 \<mapsto> date_time_clip INFINITY]\<rparr>"


end
