(* ===== verification/Date_Text.thy ===== *)
theory Date_Text
  imports Date_Time
begin

text \<open>
  The ISO text of \<open>runtime_date.c\<close>: \<open>Date.prototype.toISOString\<close> and the Date Time String Format that
  \<open>Date.parse\<close> reads. The text under construction is a list of C characters, widened to UTF-16 units at
  its end; the longest has 27 characters, within the buffers of 64 characters and 128 units. A reader
  takes the units and a cursor and gives the cursor behind what it read.
\<close>

subsection \<open>Writing\<close>

text \<open>\<open>snprintf\<close> of a nonnegative \<open>long long\<close> with \<open>%lld\<close>.\<close>

fun decimal_digits :: "nat \<Rightarrow> nat list" where
  "decimal_digits n = (if n < 10 then [n] else decimal_digits (n div 10) @ [n mod 10])"

declare decimal_digits.simps [simp del]

definition lld :: "int \<Rightarrow> char list" where
  "lld n = (if n < 0 then ''-'' else []) @ map (\<lambda>k. char_of (48 + k)) (decimal_digits (nat \<bar>n\<bar>))"

definition append_padded :: "char list \<Rightarrow> int \<Rightarrow> nat \<Rightarrow> char list" where
  "append_padded text v width = text @ replicate (width - length (lld v)) (CHR ''0'') @ lld v"

definition widen :: "char list \<Rightarrow> u16 list" where
  "widen text = map of_char text"

definition iso_text :: "date_fields \<Rightarrow> char list" where
  "iso_text f =
     (let text = (if field_year f < 0 then append_padded ''-'' (- field_year f) 6
                  else if field_year f > 9999 then append_padded ''+'' (field_year f) 6
                  else append_padded [] (field_year f) 4);
          text = append_padded (text @ ''-'') (field_month f + 1) 2;
          text = append_padded (text @ ''-'') (field_day f) 2;
          text = append_padded (text @ ''T'') (field_hour f) 2;
          text = append_padded (text @ '':'') (field_minute f) 2;
          text = append_padded (text @ '':'') (field_second f) 2;
          text = append_padded (text @ ''.'') (field_millisecond f) 3
      in text @ ''Z'')"

definition date_text_string :: "char list \<Rightarrow> rt_error + u16 list" where
  "date_text_string text =
     (if length text > 128 then Inl (Diagnostic ''OSEO2001'' ''Date text is too long.'') else Inr (widen text))"

definition date_to_iso_string :: "double \<Rightarrow> rt_error + u16 list" where
  "date_to_iso_string time_value =
     (if isnan time_value
      then Inl (LanguageError ERROR_RANGE ''Date.prototype.toISOString requires a valid time value.'')
      else date_text_string (iso_text (fields_of_time time_value)))"

subsection \<open>Reading\<close>

definition date_digit :: "u16 list \<Rightarrow> nat \<Rightarrow> int" where
  "date_digit units index =
     (if index \<ge> length units then -1
      else let unit = units ! index in if unit < 0x30 \<or> unit > 0x39 then -1 else int (unat (unit - 0x30)))"

fun digits_loop :: "u16 list \<Rightarrow> nat \<Rightarrow> nat \<Rightarrow> int \<Rightarrow> int option" where
  "digits_loop units cursor 0 accumulated = Some accumulated"
| "digits_loop units cursor (Suc n) accumulated =
     (let digit = date_digit units cursor
      in if digit < 0 then None else digits_loop units (cursor + 1) n (accumulated * 10 + digit))"

definition date_read_digits :: "u16 list \<Rightarrow> nat \<Rightarrow> nat \<Rightarrow> (nat \<times> int) option" where
  "date_read_digits units cursor count = map_option (\<lambda>v. (cursor + count, v)) (digits_loop units cursor count 0)"

definition unit_at :: "u16 list \<Rightarrow> nat \<Rightarrow> u16 \<Rightarrow> bool" where
  "unit_at units cursor unit \<longleftrightarrow> cursor < length units \<and> units ! cursor = unit"

definition date_expect :: "u16 list \<Rightarrow> nat \<Rightarrow> u16 \<Rightarrow> nat option" where
  "date_expect units cursor unit = (if unit_at units cursor unit then Some (cursor + 1) else None)"

text \<open>The steps of \<open>date_parse_iso\<close>, each from a cursor to the cursor behind it.\<close>

definition parse_year :: "u16 list \<Rightarrow> nat \<Rightarrow> (nat \<times> int) option" where
  "parse_year units cursor =
     (if unit_at units cursor 0x2b \<or> unit_at units cursor 0x2d then
        let negative = unit_at units cursor 0x2d
        in Option.bind (date_read_digits units (cursor + 1) 6) (\<lambda>(cursor, y).
             if negative \<and> y = 0 then None else Some (cursor, if negative then - y else y))
      else date_read_digits units cursor 4)"

definition parse_month_day :: "u16 list \<Rightarrow> nat \<Rightarrow> (nat \<times> int \<times> int) option" where
  "parse_month_day units cursor =
     (if unit_at units cursor 0x2d then
        Option.bind (date_read_digits units (cursor + 1) 2) (\<lambda>(cursor, month).
          if month < 1 \<or> month > 12 then None
          else if unit_at units cursor 0x2d then
            Option.bind (date_read_digits units (cursor + 1) 2) (\<lambda>(cursor, day).
              if day < 1 \<or> day > 31 then None else Some (cursor, month, day))
          else Some (cursor, month, 1))
      else Some (cursor, 1, 1))"

definition parse_fraction :: "u16 list \<Rightarrow> nat \<Rightarrow> (nat \<times> int) option" where
  "parse_fraction units cursor =
     (if unit_at units cursor 0x2e then date_read_digits units (cursor + 1) 3 else Some (cursor, 0))"

definition parse_seconds :: "u16 list \<Rightarrow> nat \<Rightarrow> (nat \<times> int \<times> int) option" where
  "parse_seconds units cursor =
     (if unit_at units cursor 0x3a then
        Option.bind (date_read_digits units (cursor + 1) 2) (\<lambda>(cursor, second).
          if second > 59 then None
          else Option.bind (parse_fraction units cursor) (\<lambda>(cursor, millisecond). Some (cursor, second, millisecond)))
      else Some (cursor, 0, 0))"

text \<open>Hour, minute, second and millisecond, and whether there is a time at all.\<close>

definition parse_time :: "u16 list \<Rightarrow> nat \<Rightarrow> (nat \<times> bool \<times> int \<times> int \<times> int \<times> int) option" where
  "parse_time units cursor =
     (if unit_at units cursor 0x54 then
        Option.bind (date_read_digits units (cursor + 1) 2) (\<lambda>(cursor, hour).
          if hour > 24 then None
          else Option.bind (date_expect units cursor 0x3a) (\<lambda>cursor.
            Option.bind (date_read_digits units cursor 2) (\<lambda>(cursor, minute).
              if minute > 59 then None
              else Option.bind (parse_seconds units cursor) (\<lambda>(cursor, second, millisecond).
                if hour = 24 \<and> (minute \<noteq> 0 \<or> second \<noteq> 0 \<or> millisecond \<noteq> 0) then None
                else Some (cursor, True, hour, minute, second, millisecond)))))
      else Some (cursor, False, 0, 0, 0, 0))"

definition parse_offset :: "u16 list \<Rightarrow> bool \<Rightarrow> nat \<Rightarrow> (nat \<times> double) option" where
  "parse_offset units has_time cursor =
     (if cursor < length units \<and> \<not> has_time then None
      else if cursor < length units then
        if unit_at units cursor 0x5a then Some (cursor + 1, dbl_zero)
        else if unit_at units cursor 0x2b \<or> unit_at units cursor 0x2d then
          let negative = unit_at units cursor 0x2d
          in Option.bind (date_read_digits units (cursor + 1) 2) (\<lambda>(cursor, offset_hour).
               if offset_hour > 23 then None
               else Option.bind (date_expect units cursor 0x3a) (\<lambda>cursor.
                 Option.bind (date_read_digits units cursor 2) (\<lambda>(cursor, offset_minute).
                   if offset_minute > 59 then None
                   else let minutes = double_of_int (offset_hour * 60 + offset_minute)
                        in Some (cursor, if negative then dbl_neg minutes else minutes))))
        else None
      else if has_time then Some (cursor, dbl_div (dbl_neg local_time_zone_adjustment) MS_PER_MINUTE)
      else Some (cursor, dbl_zero))"

definition date_parse_iso :: "u16 list \<Rightarrow> double option" where
  "date_parse_iso units =
     Option.bind (parse_year units 0) (\<lambda>(cursor, year).
     Option.bind (parse_month_day units cursor) (\<lambda>(cursor, month, day).
     Option.bind (parse_time units cursor) (\<lambda>(cursor, has_time, hour, minute, second, millisecond).
     Option.bind (parse_offset units has_time cursor) (\<lambda>(cursor, offset_minutes).
       if cursor \<noteq> length units then None
       else
         let composed = date_make_date
               (date_make_day (double_of_int year) (double_of_int (month - 1)) (double_of_int day))
               (date_make_time (double_of_int hour) (double_of_int minute) (double_of_int second) (double_of_int millisecond))
         in Some (date_time_clip (dbl_sub composed (dbl_mul offset_minutes MS_PER_MINUTE)))))))"

subsection \<open>Digits\<close>

definition digit_unit :: "nat \<Rightarrow> u16" where
  "digit_unit k = of_nat (48 + k)"

definition padded_digits :: "nat \<Rightarrow> nat \<Rightarrow> nat list" where
  "padded_digits v w = replicate (w - length (decimal_digits v)) 0 @ decimal_digits v"

definition digits_text :: "nat \<Rightarrow> nat \<Rightarrow> u16 list" where
  "digits_text v w = map digit_unit (padded_digits v w)"

lemma decimal_digits_less: "k \<in> set (decimal_digits n) \<Longrightarrow> k < 10"
  by (induction n rule: decimal_digits.induct) (subst (asm) (2) decimal_digits.simps, auto split: if_splits)

lemma decimal_digits_value: "foldl (\<lambda>a k. a * 10 + int k) 0 (decimal_digits n) = int n"
proof (induction n rule: decimal_digits.induct)
  case (1 n)
  then show ?case
    by (cases "n < 10") (simp_all add: decimal_digits.simps [of n] of_nat_div of_nat_mod)
qed

lemma decimal_digits_length: "n < 10 ^ w \<Longrightarrow> 0 < w \<Longrightarrow> length (decimal_digits n) \<le> w"
proof (induction w arbitrary: n)
  case (Suc w)
  show ?case
  proof (cases "n < 10")
    case False
    then have "0 < w" "n div 10 < 10 ^ w" using Suc.prems by (auto intro: gr0I less_mult_imp_div_less)
    then show ?thesis using Suc.IH [of "n div 10"] False by (simp add: decimal_digits.simps [of n])
  qed (simp add: decimal_digits.simps [of n])
qed simp

lemma padded_digits_value: "foldl (\<lambda>a k. a * 10 + int k) 0 (padded_digits v w) = int v"
proof -
  have "foldl (\<lambda>a k. a * 10 + int k) 0 (replicate n 0) = 0" for n by (induction n) simp_all
  then show ?thesis by (simp add: padded_digits_def decimal_digits_value)
qed

lemma padded_digits_less: "k \<in> set (padded_digits v w) \<Longrightarrow> k < 10"
  by (auto simp: padded_digits_def decimal_digits_less)

lemma padded_digits_length: "v < 10 ^ w \<Longrightarrow> 0 < w \<Longrightarrow> length (padded_digits v w) = w"
  using decimal_digits_length [of v w] by (simp add: padded_digits_def)

lemma of_char_digit: "k < 10 \<Longrightarrow> (of_char (char_of (48 + k)) :: u16) = digit_unit k"
proof -
  assume k: "k < 10"
  have "(of_char (char_of (48 + k)) :: u16) = of_nat (of_char (char_of (48 + k)))" by (simp only: of_nat_of_char)
  also have "of_char (char_of (48 + k)) = 48 + k" using k by simp
  finally show ?thesis by (simp only: digit_unit_def)
qed

lemma widen_append [simp]: "widen (s @ t) = widen s @ widen t"
  by (simp add: widen_def)

lemma widen_padded: "0 \<le> v \<Longrightarrow> widen (append_padded text v w) = widen text @ digits_text (nat v) w"
proof -
  assume v: "0 \<le> v"
  have "map (\<lambda>k. of_char (char_of (48 + k)) :: u16) (decimal_digits n) = map digit_unit (decimal_digits n)" for n
    using decimal_digits_less by (intro map_cong refl of_char_digit)
  then have "widen (lld v) = map digit_unit (decimal_digits (nat v))" "length (lld v) = length (decimal_digits (nat v))"
    using v by (simp_all add: lld_def widen_def comp_def)
  then show ?thesis
    by (simp add: append_padded_def digits_text_def padded_digits_def) (simp add: widen_def digit_unit_def)
qed

subsection \<open>Readers on the rest of the text\<close>

lemma unit_at_drop: "drop c units = x # xs \<Longrightarrow> unit_at units c u \<longleftrightarrow> x = u"
  and drop_unit: "drop c units = x # xs \<Longrightarrow> drop (Suc c) units = xs"
proof -
  assume d: "drop c units = x # xs"
  then have c: "c < length units" by (metis drop_eq_Nil leI list.distinct(1))
  show "unit_at units c u \<longleftrightarrow> x = u" using d c by (simp add: unit_at_def Cons_nth_drop_Suc [symmetric])
  show "drop (Suc c) units = xs" using d by (metis drop_Suc list.sel(3) tl_drop)
qed

lemma unit_at_end: "drop c units = [] \<Longrightarrow> \<not> unit_at units c u"
  by (simp add: unit_at_def)

lemma date_digit_drop: "drop c units = digit_unit k # xs \<Longrightarrow> k < 10 \<Longrightarrow> date_digit units c = int k"
proof -
  assume d: "drop c units = digit_unit k # xs" and k: "k < 10"
  have c: "c < length units" using d by (metis drop_eq_Nil leI list.distinct(1))
  then have u: "units ! c = digit_unit k" using d by (simp add: Cons_nth_drop_Suc [symmetric])
  have n: "unat (digit_unit k) = 48 + k" using k unfolding digit_unit_def unat_of_nat by simp
  have "unat (digit_unit k - 0x30) = k" using n by (subst unat_sub_no_wrap) simp_all
  then show ?thesis using c n k by (simp add: date_digit_def u Let_def word_less_nat_alt)
qed

lemma digits_loop_drop:
  "drop c units = map digit_unit ds @ xs \<Longrightarrow> (\<And>k. k \<in> set ds \<Longrightarrow> k < 10) \<Longrightarrow>
    digits_loop units c (length ds) acc = Some (foldl (\<lambda>a k. a * 10 + int k) acc ds)"
proof (induction ds arbitrary: c acc)
  case (Cons k ds)
  have "date_digit units c = int k" by (rule date_digit_drop) (use Cons.prems in auto)
  moreover have "drop (Suc c) units = map digit_unit ds @ xs" by (rule drop_unit) (use Cons.prems in auto)
  ultimately show ?case using Cons by simp
qed simp

lemma read_drop:
  assumes "drop c units = digits_text v w @ xs" "v < 10 ^ w" "0 < w"
  shows "date_read_digits units c w = Some (c + w, int v)" "drop (c + w) units = xs"
proof -
  note len = padded_digits_length [OF assms(2,3)]
  show "date_read_digits units c w = Some (c + w, int v)"
    using digits_loop_drop [of c units "padded_digits v w" xs 0] assms(1) padded_digits_less len
    by (simp add: date_read_digits_def digits_text_def padded_digits_value)
  have "drop (c + w) units = drop w (drop c units)" by (simp add: add.commute)
  then show "drop (c + w) units = xs" using assms(1) len by (simp add: digits_text_def)
qed

subsection \<open>The ISO text and its parts\<close>

definition iso_year_units :: "int \<Rightarrow> u16 list" where
  "iso_year_units y =
     (if y < 0 then 0x2d # digits_text (nat (- y)) 6
      else if y > 9999 then 0x2b # digits_text (nat y) 6 else digits_text (nat y) 4)"

lemma widen_char [simp]: "widen [c] = [of_char c]" "widen [] = []"
  by (simp_all add: widen_def)

lemma widen_iso_text:
  assumes "fields_ok f"
  shows "widen (iso_text f) = iso_year_units (field_year f) @ 0x2d # digits_text (nat (field_month f + 1)) 2
    @ 0x2d # digits_text (nat (field_day f)) 2 @ 0x54 # digits_text (nat (field_hour f)) 2
    @ 0x3a # digits_text (nat (field_minute f)) 2 @ 0x3a # digits_text (nat (field_second f)) 2
    @ 0x2e # digits_text (nat (field_millisecond f)) 3 @ [0x5a]"
proof -
  have "0 \<le> field_month f + 1" "0 \<le> field_day f" "0 \<le> field_hour f" "0 \<le> field_minute f" "0 \<le> field_second f"
    "0 \<le> field_millisecond f"
    using assms by (simp_all add: fields_ok_def valid_date_def)
  then show ?thesis by (simp add: iso_text_def iso_year_units_def widen_padded)
qed

lemma digits_text_head: "v < 10 ^ w \<Longrightarrow> 0 < w \<Longrightarrow> \<exists>k xs. digits_text v w = digit_unit k # xs \<and> k < 10"
proof -
  assume a: "v < 10 ^ w" "0 < w"
  obtain k ks where p: "padded_digits v w = k # ks" using padded_digits_length [OF a] a(2) by (cases "padded_digits v w") auto
  then have "k < 10" using padded_digits_less [of k v w] by simp
  then show ?thesis using p by (auto simp: digits_text_def intro!: exI [of _ k])
qed

lemma digit_unit_other: "k < 10 \<Longrightarrow> u < 0x30 \<Longrightarrow> digit_unit k \<noteq> u"
proof
  assume k: "k < 10" "u < 0x30" "digit_unit k = u"
  have "unat (digit_unit k) = 48 + k" using k(1) unfolding digit_unit_def unat_of_nat by simp
  then show False using k(2,3) by (simp add: word_less_nat_alt)
qed

lemma parse_year_units:
  assumes "drop 0 units = iso_year_units y @ xs" "\<bar>y\<bar> < 1000000"
  obtains c where "parse_year units 0 = Some (c, y)" "drop c units = xs"
proof -
  consider (neg) "y < 0" | (big) "y > 9999" | (mid) "0 \<le> y" "y \<le> 9999" by linarith
  then show thesis
  proof cases
    case neg
    then have d: "drop 0 units = 0x2d # digits_text (nat (- y)) 6 @ xs" using assms(1) by (simp add: iso_year_units_def)
    have v: "nat (- y) < 10 ^ 6" using assms(2) neg by simp
    note r = read_drop [OF drop_unit [OF d] v]
    show thesis by (rule that [of 7]) (use r unit_at_drop [OF d] neg in \<open>simp_all add: parse_year_def\<close>)
  next
    case big
    then have d: "drop 0 units = 0x2b # digits_text (nat y) 6 @ xs" using assms(1) by (simp add: iso_year_units_def)
    have v: "nat y < 10 ^ 6" using assms(2) big by simp
    note r = read_drop [OF drop_unit [OF d] v]
    show thesis by (rule that [of 7]) (use r unit_at_drop [OF d] big in \<open>simp_all add: parse_year_def\<close>)
  next
    case mid
    then have d: "drop 0 units = digits_text (nat y) 4 @ xs" using assms(1) by (simp add: iso_year_units_def)
    have v: "nat y < 10 ^ 4" using mid by simp
    note r = read_drop [OF d v]
    obtain k ks where h: "digits_text (nat y) 4 = digit_unit k # ks" "k < 10" using digits_text_head [OF v] by auto
    have d': "drop 0 units = digit_unit k # ks @ xs" using d h by simp
    have "\<not> unit_at units 0 0x2b" "\<not> unit_at units 0 0x2d"
      using unit_at_drop [OF d'] digit_unit_other [OF h(2)] by simp_all
    then show thesis by (intro that [of 4]) (use r mid in \<open>simp_all add: parse_year_def\<close>)
  qed
qed

lemma two_digits: "0 \<le> v \<Longrightarrow> v < 100 \<Longrightarrow> nat v < 10 ^ 2"
  by simp

lemma parse_month_day_units:
  assumes "drop c units = 0x2d # digits_text (nat m) 2 @ 0x2d # digits_text (nat d) 2 @ xs"
    and "1 \<le> m" "m \<le> 12" "1 \<le> d" "d \<le> 31"
  obtains c' where "parse_month_day units c = Some (c', m, d)" "drop c' units = xs"
proof -
  note m = read_drop [OF drop_unit [OF assms(1)] two_digits]
  note d = read_drop [OF drop_unit [OF m(2)] two_digits]
  show thesis
    by (rule that [of "Suc (Suc c + 2) + 2"])
      (use m d unit_at_drop [OF assms(1)] unit_at_drop [OF m(2)] assms(2-) in \<open>simp_all add: parse_month_day_def\<close>)
qed

lemma parse_time_units:
  assumes "drop c units = 0x54 # digits_text (nat h) 2 @ 0x3a # digits_text (nat m) 2 @ 0x3a # digits_text (nat s) 2
      @ 0x2e # digits_text (nat ms) 3 @ xs"
    and "0 \<le> h" "h < 24" "0 \<le> m" "m < 60" "0 \<le> s" "s < 60" "0 \<le> ms" "ms < 1000"
  obtains c' where "parse_time units c = Some (c', True, h, m, s, ms)" "drop c' units = xs"
proof -
  have v: "nat h < 10 ^ 2" "nat m < 10 ^ 2" "nat s < 10 ^ 2" "nat ms < 10 ^ 3" using assms(2-) by simp_all
  note h = read_drop [OF drop_unit [OF assms(1)] v(1)]
  note dh = h(2) [OF zero_less_numeral]
  note m = read_drop [OF drop_unit [OF dh] v(2)]
  note dm = m(2) [OF zero_less_numeral]
  note s = read_drop [OF drop_unit [OF dm] v(3)]
  note ds = s(2) [OF zero_less_numeral]
  note ms = read_drop [OF drop_unit [OF ds] v(4)]
  have fr: "parse_fraction units (Suc (Suc (Suc c + 2) + 2) + 2) = Some (Suc (Suc (Suc (Suc c + 2) + 2) + 2) + 3, ms)"
    using ms(1) unit_at_drop [OF ds] assms(8) by (simp add: parse_fraction_def)
  have se: "parse_seconds units (Suc (Suc c + 2) + 2) = Some (Suc (Suc (Suc (Suc c + 2) + 2) + 2) + 3, s, ms)"
    using s(1) fr unit_at_drop [OF dm] assms(6,7) by (simp add: parse_seconds_def)
  have "parse_time units c = Some (Suc (Suc (Suc (Suc c + 2) + 2) + 2) + 3, True, h, m, s, ms)"
    using h(1) m(1) se unit_at_drop [OF assms(1)] unit_at_drop [OF dh] assms(2-5) by (simp add: parse_time_def date_expect_def)
  then show thesis using ms(2) by (intro that) simp_all
qed

lemma parse_offset_units:
  assumes "drop c units = [0x5a]"
  shows "parse_offset units True c = Some (length units, dbl_zero)"
proof -
  have c: "c < length units" using assms by (metis drop_eq_Nil leI list.distinct(1))
  have "length units - c = 1" using arg_cong [OF assms, of length] by simp
  then have "Suc c = length units" by simp
  then show ?thesis using c unit_at_drop [OF assms] by (simp add: parse_offset_def)
qed

subsection \<open>Reading a written text\<close>

lemma digits_text_length: "v < 10 ^ w \<Longrightarrow> 0 < w \<Longrightarrow> length (digits_text v w) = w"
  by (simp add: digits_text_def padded_digits_length)

lemma fields_date_range:
  assumes "fields_ok f"
  shows "1 \<le> field_month f + 1" "field_month f + 1 \<le> 12" "1 \<le> field_day f" "field_day f \<le> 31"
  using assms order_trans [OF _ month_length_range(2)] unfolding fields_ok_def valid_date_def by blast+

lemma iso_text_length:
  assumes "fields_ok f" "\<bar>field_year f\<bar> < 1000000"
  shows "length (iso_text f) \<le> 27"
proof -
  note r = fields_date_range [OF assms(1)]
  have "nat (field_month f + 1) < 10 ^ 2" "nat (field_day f) < 10 ^ 2" "nat (field_hour f) < 10 ^ 2"
    "nat (field_minute f) < 10 ^ 2" "nat (field_second f) < 10 ^ 2" "nat (field_millisecond f) < 10 ^ 3"
    using assms(1) r by (auto simp: fields_ok_def)
  note parts = this [THEN digits_text_length]
  have "length (iso_year_units (field_year f)) \<le> 7"
    using assms(2) digits_text_length [of "nat (- field_year f)" 6] digits_text_length [of "nat (field_year f)" 6]
      digits_text_length [of "nat (field_year f)" 4]
    by (simp add: iso_year_units_def)
  moreover have "length (iso_text f) = length (widen (iso_text f))" by (simp add: widen_def)
  ultimately show ?thesis unfolding widen_iso_text [OF assms(1)] using parts by simp
qed

lemma date_parse_iso_text:
  assumes "fields_ok f" "\<bar>field_year f\<bar> < 1000000"
  shows "date_parse_iso (widen (iso_text f)) = Some (date_time_clip (dbl_sub (time_of_fields f) (dbl_mul dbl_zero MS_PER_MINUTE)))"
proof -
  let ?u = "widen (iso_text f)"
  note r = fields_date_range [OF assms(1)]
  have t: "0 \<le> field_hour f" "field_hour f < 24" "0 \<le> field_minute f" "field_minute f < 60"
    "0 \<le> field_second f" "field_second f < 60" "0 \<le> field_millisecond f" "field_millisecond f < 1000"
    using assms(1) by (simp_all add: fields_ok_def)
  have u: "drop 0 ?u = iso_year_units (field_year f) @ 0x2d # digits_text (nat (field_month f + 1)) 2
    @ 0x2d # digits_text (nat (field_day f)) 2 @ 0x54 # digits_text (nat (field_hour f)) 2
    @ 0x3a # digits_text (nat (field_minute f)) 2 @ 0x3a # digits_text (nat (field_second f)) 2
    @ 0x2e # digits_text (nat (field_millisecond f)) 3 @ [0x5a]"
    unfolding drop_0 by (rule widen_iso_text [OF assms(1)])
  obtain c1 where y: "parse_year ?u 0 = Some (c1, field_year f)"
    and d1: "drop c1 ?u = 0x2d # digits_text (nat (field_month f + 1)) 2
    @ 0x2d # digits_text (nat (field_day f)) 2 @ 0x54 # digits_text (nat (field_hour f)) 2
    @ 0x3a # digits_text (nat (field_minute f)) 2 @ 0x3a # digits_text (nat (field_second f)) 2
    @ 0x2e # digits_text (nat (field_millisecond f)) 3 @ [0x5a]"
    by (rule parse_year_units [OF u assms(2)])
  obtain c2 where md: "parse_month_day ?u c1 = Some (c2, field_month f + 1, field_day f)"
    and d2: "drop c2 ?u = 0x54 # digits_text (nat (field_hour f)) 2
    @ 0x3a # digits_text (nat (field_minute f)) 2 @ 0x3a # digits_text (nat (field_second f)) 2
    @ 0x2e # digits_text (nat (field_millisecond f)) 3 @ [0x5a]"
    by (rule parse_month_day_units [OF d1 r])
  obtain c3 where ti: "parse_time ?u c2 = Some (c3, True, field_hour f, field_minute f, field_second f, field_millisecond f)"
    and d3: "drop c3 ?u = [0x5a]"
    by (rule parse_time_units [OF d2 t])
  show ?thesis
    unfolding date_parse_iso_def y bind.bind_lunit prod.case md ti parse_offset_units [OF d3] Let_def time_of_fields_def by simp
qed

subsection \<open>Properties\<close>

text \<open>C40. For every time value, \<open>toISOString\<close> writes a text (with the expanded years of six digits and a
  sign for the years before 0 and after 9999) and parsing that text gives the same time value. Only NaN has
  no text, and throws a \<open>RangeError\<close>.\<close>

theorem iso_text_round_trip:
  "(\<forall>t. \<bar>t\<bar> \<le> 8640000000000000 \<longrightarrow>
      (\<exists>units. date_to_iso_string (double_of_int t) = Inr units \<and> date_parse_iso units = Some (double_of_int t)))
   \<and> date_to_iso_string CANONICAL_NAN = Inl (LanguageError ERROR_RANGE ''Date.prototype.toISOString requires a valid time value.'')"
proof (intro conjI allI impI)
  fix t :: int
  assume t: "\<bar>t\<bar> \<le> 8640000000000000"
  have d: "holds (double_of_int t) t" by (rule holds_double_of_int [OF exact_small [OF t]])
  define f where "f = fields_of_time (double_of_int t)"
  note f = fields_exact_ok [OF d t, folded f_def]
  have day: "\<bar>fields_day f\<bar> \<le> 100000000" using day_time_range(1,2) [OF t] f(2) by simp
  have "\<bar>field_year f\<bar> \<le> 400000" using year_of_day day f(1) unfolding fields_ok_def fields_day_def by blast
  then have y: "\<bar>field_year f\<bar> < 1000000" by simp
  have "date_to_iso_string (double_of_int t) = Inr (widen (iso_text f))"
    using holds_finite(2) [OF d] iso_text_length [OF f(1) y] by (simp add: date_to_iso_string_def date_text_string_def f_def)
  moreover have "holds (dbl_sub (time_of_fields f) (dbl_mul dbl_zero MS_PER_MINUTE)) (t - 0)"
  proof (rule holds_sub)
    show "holds (time_of_fields f) t" using holds_time_of_fields [OF f(1) day] unfolding f by simp
    show "holds (dbl_mul dbl_zero MS_PER_MINUTE) 0"
      using holds_mul [OF holds_constants(1) holds_constants(3)] by (simp add: exact_def)
  qed (simp add: exact_small [OF t])
  then have "date_parse_iso (widen (iso_text f)) = Some (double_of_int t)"
    using date_parse_iso_text [OF f(1) y] time_clip_exact [of _ "t - 0"] t by simp
  ultimately show "\<exists>units. date_to_iso_string (double_of_int t) = Inr units \<and> date_parse_iso units = Some (double_of_int t)" by blast
next
  show "date_to_iso_string CANONICAL_NAN = Inl (LanguageError ERROR_RANGE ''Date.prototype.toISOString requires a valid time value.'')"
    by (simp add: date_to_iso_string_def isnan_canonical)
qed

theorem iso_text_round_trip_witness:
  "\<exists>units. date_to_iso_string (double_of_int (- 62198755200000)) = Inr units \<and> date_parse_iso units = Some (double_of_int (- 62198755200000))"
  using iso_text_round_trip by simp

end
