(* ===== verification/Spec2Isabelle.thy ===== *)
theory Spec2Isabelle
  imports BigInt_Ops BigInt_Width Values Core Ephemeron_Table String_Table Weak_Edges Finalization Strings Uri Uri_Text Collector_Properties Weak_Properties Keyed_Iteration Date_Methods Date_Text
begin

text \<open>
  A model of the core of the Oseo runtime: the C library under
  \<open>src/packages/runtime-c/native\<close> that executes compiled ECMAScript. The C files and functions a
  definition translates are named in the text of its theory; a definition has the name of its C
  function without the prefix \<open>oseo_\<close> or \<open>oseo_internal_\<close> where that is free in HOL.

  Parts and theories, in the order of their imports:

  \<^item> \<open>Oseo_Prelude\<close>: machine types, the errors of the runtime (\<open>rt_error\<close>: a host \<open>Diagnostic\<close> or a
    thrown error object), the allocation context that every allocating function threads (attempt
    counter, injected failure, and the answer of the C allocator as the parameter \<open>host_malloc\<close>), and
    the generic lemmas on lists and words.
  \<^item> \<open>BigInt_Magnitude\<close>, \<open>BigInt_Division\<close>, \<open>BigInt_Value\<close>, \<open>BigInt_Arith\<close>, \<open>BigInt_Bits\<close>,
    \<open>BigInt_Bitwise\<close>, \<open>BigInt_Ops\<close>, \<open>BigInt_Digits\<close>, \<open>BigInt_Number\<close>, \<open>BigInt_Convert\<close>,
    \<open>BigInt_Width\<close>: \<open>runtime_bigint.c\<close>. A magnitude is its list of 30-bit limbs in \<open>uint32_t\<close> cells;
    every intermediate has the width of the C code. \<open>limbs_val\<close> and \<open>bigint_val\<close> are the abstraction,
    and every operation is shown to deliver the integer ECMA-262 specifies or the specified
    \<open>RangeError\<close>, whatever the allocator answers (\<open>delivers\<close>).
  \<^item> \<open>Binary64\<close>, \<open>Values\<close>: the C \<open>double\<close> as its bit pattern with \<open>scaled\<close>, its exact value times
    \<open>2 ^ 1074\<close>, and the NaN-boxed \<open>OseoValue\<close> of \<open>runtime_internal.h\<close> and \<open>runtime_core.c\<close>.
  \<^item> \<open>Core\<close>: the budgets, the stack of root frames and the random generator of a realm
    (\<open>runtime_core.c\<close>, \<open>runtime_math.c\<close>), as a step relation with invariants.
  \<^item> \<open>Heap_Objects\<close>, \<open>Collector_Mark\<close>, \<open>Collector\<close>, \<open>Heap_Invariant\<close>, \<open>Collector_Passes\<close>,
    \<open>Collector_Correct\<close>, \<open>Collector_Effect\<close>, \<open>Collector_Properties\<close>: the heap and the collector of
    \<open>runtime_memory.c\<close>. The heap is a map from addresses to objects; the intrusive lists of the code
    (worklist, pending lists, entry chains, queues) are the links stored in the objects, and the
    predicates \<open>heap_ok\<close>, \<open>table_ok\<close>, \<open>queue_ok\<close> say which lists they form. \<open>heap_ok\<close> is preserved by a
    collection, which frees exactly the objects not reachable from the roots, where an ephemeron
    value is reachable through its key only.
  \<^item> \<open>Probing\<close>: open addressing as a locale (\<open>open_addressing\<close>) over the start of a probe sequence and
    the reading of a slot, interpreted on the index of ephemeron tables and on the string table.
  \<^item> \<open>Ephemeron_Table\<close>, \<open>Weak_Edges\<close>, \<open>Finalization\<close>, \<open>Weak_Records\<close>, \<open>Ephemeron_Set\<close>,
    \<open>Weak_Properties\<close>: the weak records the heap offers to the rest of the runtime, each operation with
    the collection its allocations may run.
  \<^item> \<open>String_Table\<close>, \<open>Strings\<close>: the table that shares equal strings, the string builder and the
    canonical array index (\<open>runtime_string.c\<close>).
  \<^item> \<open>Uri\<close>, \<open>Uri_Text\<close>: \<open>runtime_uri.c\<close>, with the UTF-8 decoder against the encoder, and the round
    trips of the coding functions.
  \<^item> \<open>Same_Value\<close>: the equalities of \<open>runtime_core.c\<close> (SameValue, SameValueZero, strict equality), read
    off the bodies of strings and BigInts in the heap, and \<open>identity_of\<close>, the identity they decide.
  \<^item> \<open>Keyed_Log\<close>: the contract of an insertion-ordered collection with tombstones (locale
    \<open>keyed_log\<close>): its live entries are an association list that an insertion extends at its end.
  \<^item> \<open>Keyed_Data\<close>, \<open>Keyed_Heap\<close>, \<open>Keyed_Properties\<close>, \<open>Keyed_Iteration\<close>: \<open>Map\<close> and \<open>Set\<close> of
    \<open>runtime_map.c\<close> and \<open>runtime_set.c\<close>: the record arrays and their growth, the built-in methods with
    their receiver checks and allocations, the locale interpreted on them, iterators and \<open>forEach\<close>.
  \<^item> \<open>Binary64_Arith\<close>: the operations \<open>+\<close>, \<open>-\<close>, \<open>*\<close>, \<open>/\<close>, \<open>fmod\<close> and \<open>floor\<close> of binary64, and when they are the
    operations on integers (\<open>holds\<close>).
  \<^item> \<open>Date_Civil\<close>, \<open>Date_Time\<close>, \<open>Date_Methods\<close>, \<open>Date_Text\<close>: \<open>runtime_date.c\<close>: the Gregorian
    calendar, the fields of a time value and the time arithmetic of ECMA-262 in floating point, the
    getters and setters over the slots of all Dates, and the ISO text with its parser.

  Bounds and fuel. Loops over intrusive lists carry fuel and return \<open>None\<close> when it ends or when a
  link leaves the heap, which is undefined behaviour in C; the theorems show that a well-formed heap
  with fuel above its number of objects never gives \<open>None\<close>. All other loops are total functions.
  Allocation failures are values. Sizes that C keeps in \<open>size_t\<close> are natural numbers where a
  guard of the code keeps them below \<open>2 ^ 64\<close>, and the guard is modelled.

  Properties. C1 to C9 are about BigInts, C10 to C14 about values and context, C15 to C19 about
  strings and URIs, C20 to C24 about collections, C25 to C28 about weak records and shared
  strings, C29 about the identity of values, C30 to C34 about Map and Set,
  C35 to C40 about dates. Each stands in the theory of its part after a text block with its number, followed
  by a theorem that applies it to a concrete input.

  Not modelled: property tables, shapes and the object built-ins, arrays and typed arrays, functions
  and calls, iterators and generators, promises, regular expressions, JSON and number formatting,
  atomics and agents. Their steps call back into compiled code, so that a faithful model needs an
  object model and a model of compiled functions first; the collector reads their objects through
  \<open>edges\<close> in \<open>Heap_Objects\<close>. Host clocks are I/O, and the Unicode tables are generated data.
\<close>

subsection \<open>BigInt arithmetic\<close>

text \<open>The contexts of the witnesses: one that grants every allocation.\<close>

definition granting :: alloc_context where
  "granting = \<lparr>allocation_attempts = 0, fail_allocation_at = 0, host_malloc = \<lambda>n s. 4096\<rparr>"

lemma granting_never_refuses [simp]: "never_refuses granting"
  by (simp add: granting_def never_refuses_def PAYLOAD_MASK_def)

lemma bigint_ok_small: "\<bar>n\<bar> < 2 ^ 30 \<Longrightarrow> bigint_ok (bigint_of n)"
proof (rule bigint_ok_of)
  assume "\<bar>n\<bar> < 2 ^ 30"
  then have "nat \<bar>n\<bar> < 2 ^ 30" by simp
  then have "nbits (nat \<bar>n\<bar>) \<le> 30" by (simp only: nbits_le_iff)
  then show "nbits (nat \<bar>n\<bar>) \<le> BIGINT_MAX_BITS" by (simp add: BIGINT_MAX_BITS_def)
qed

lemma fits_small: "\<bar>n\<bar> < 2 ^ 30 \<Longrightarrow> fits n = Inr (bigint_of n)"
  using fits_ok [OF bigint_ok_small] by simp

lemma computes_result: "computes refused m x \<Longrightarrow> fst (m ctx) = x \<or> refused (fst (m ctx)) \<and> \<not> never_refuses ctx"
  by (auto simp: computes_def)

lemma delivers_result:
  "delivers m r \<Longrightarrow> fst (m ctx) = r \<or>
     (fst (m ctx) = Inl allocation_failure \<or> fst (m ctx) = Inl unrepresentable) \<and> \<not> never_refuses ctx"
  using computes_result [of "refused_with bigint_refusals" m r ctx] by (auto simp: refused_with_def bigint_refusals_def)

text \<open>C1. The binary operators of BigInt (addition, subtraction, multiplication, division, remainder,
  exponentiation, the bitwise operators and both shifts) compute exactly the result ECMA-262 gives
  the integers: a canonical BigInt of the exact integer when it has at most 65,536 bits, and the
  specified \<open>RangeError\<close> otherwise (limit, division by zero, negative exponent). The only other
  result is one of two host diagnostics, when the host refused an allocation.\<close>

theorem bigint_binary_exact:
  assumes "bigint_ok a" "bigint_ok b"
  shows "fst (bigint_binary a b op ctx) = bigint_binary_spec op (bigint_val a) (bigint_val b) \<or>
    (fst (bigint_binary a b op ctx) = Inl allocation_failure \<or> fst (bigint_binary a b op ctx) = Inl unrepresentable)
      \<and> \<not> never_refuses ctx"
  by (rule delivers_result [OF bigint_binary_delivers [OF assms]])

theorem bigint_binary_exact_witness:
  "fst (bigint_binary (bigint_of 7) (bigint_of (-3)) BIGINT_REMAINDER granting) = Inr (bigint_of 1)"
  using bigint_binary_exact [of "bigint_of 7" "bigint_of (-3)" BIGINT_REMAINDER granting]
  by (simp add: bigint_ok_small bigint_binary_spec_def fits_small signed_modulo_int_def)

text \<open>C2. \<open>oseo_internal_bigint_compare\<close> and \<open>oseo_internal_bigint_equal\<close> order and identify BigInts
  exactly as their integers.\<close>

theorem bigint_order_exact:
  assumes "bigint_ok a" "bigint_ok b"
  shows "bigint_compare a b = sgn (bigint_val a - bigint_val b) \<and> bigint_equal a b = (bigint_val a = bigint_val b)
    \<and> bigint_is_zero a = (bigint_val a = 0)"
  using assms by (simp add: bigint_compare_val bigint_equal_val bigint_is_zero_val)

theorem bigint_order_exact_witness:
  "bigint_compare (bigint_of (-5)) (bigint_of 7) = -1"
  using bigint_order_exact [of "bigint_of (-5)" "bigint_of 7"] by (simp add: bigint_ok_small)

text \<open>C3. Unary minus and bitwise complement deliver the exact negation and complement, or the limit
  error when it has more than 65,536 bits; the complement of a BigInt of 65,536 one-bits is one.\<close>

theorem bigint_unary_exact:
  assumes "bigint_ok b"
  shows "delivers (bigint_negate b :: (rt_error + bigint, 'c) run) (fits (- bigint_val b))
    \<and> delivers (bigint_not b :: (rt_error + bigint, 'c) run) (fits (NOT (bigint_val b)))"
  using bigint_negate_fits [OF assms] bigint_not_fits [OF assms] by blast

theorem bigint_unary_exact_witness: "fst (bigint_not (bigint_of 6) granting) = Inr (bigint_of (-7))"
proof -
  have "delivers (bigint_not (bigint_of 6) :: (rt_error + bigint, unit) run) (fits (NOT (bigint_val (bigint_of 6))))"
    using bigint_unary_exact [where 'c = unit, of "bigint_of 6"] by (simp add: bigint_ok_small)
  from computes_granted [OF this, of granting] show ?thesis by (simp add: fits_small not_int_def)
qed

text \<open>C4. \<open>oseo_internal_bigint_compare_number\<close> compares a BigInt with a double that is not a NaN
  exactly, without converting either: the sign of the difference of their mathematical values
  (\<open>scaled d\<close> is the value of a finite double times \<open>2 ^ 1074\<close>), and every BigInt lies
  between the infinities.\<close>

theorem bigint_compare_number_exact:
  assumes "bigint_ok b" "\<not> isnan d"
  shows "bigint_compare_number b d =
    (if isinf d then (if signbit d then 1 else -1) else sgn (bigint_val b * 2 ^ 1074 - scaled d))"
proof (cases "isinf d")
  case True
  then have "scaled d \<noteq> 0" by (simp add: scaled_def isinf_def dbl_significand_def)
  then have "dbl_less dbl_zero d \<longleftrightarrow> \<not> signbit d"
    using assms(2) unfolding dbl_less_def dbl_constants signbit_def
    by (cases "dbl_sign d") (auto simp: scaled_magnitude [of d])
  with True show ?thesis by (simp add: bigint_compare_number_def)
next
  case False
  with assms(2) have "isfinite d" by (auto simp: isfinite_def isnan_def isinf_def)
  from bigint_compare_number_correct [OF assms(1) this] False show ?thesis by simp
qed

theorem bigint_compare_number_exact_witness: "bigint_compare_number (bigint_of 3) (dbl_neg dbl_one) = 1"
proof -
  have "isfinite dbl_one" by (simp add: isfinite_def dbl_one_def make_double_fields)
  then have "\<not> isinf (dbl_neg dbl_one)" by (simp add: isfinite_def isinf_def)
  then show ?thesis
    using bigint_compare_number_exact [of "bigint_of 3" "dbl_neg dbl_one"] by (simp add: bigint_ok_small)
qed

text \<open>C5. \<open>oseo_internal_bigint_to_number\<close> rounds to nearest, ties to even: it is finite exactly
  when the magnitude is below \<open>2 ^ 1024 - 2 ^ 970\<close>, and then no double is nearer to the integer
  and a tie has gone to the even significand.\<close>

theorem bigint_to_number_nearest:
  assumes "bigint_ok b"
  shows "(isfinite (bigint_to_number b) \<longleftrightarrow> \<bar>bigint_val b\<bar> < 2 ^ 1024 - 2 ^ 970)
    \<and> (isfinite (bigint_to_number b) \<longrightarrow>
        \<bar>scaled (bigint_to_number b) - bigint_val b * 2 ^ 1074\<bar> \<le> \<bar>scaled d - bigint_val b * 2 ^ 1074\<bar> \<and>
        (\<bar>scaled (bigint_to_number b) - bigint_val b * 2 ^ 1074\<bar> = \<bar>scaled d - bigint_val b * 2 ^ 1074\<bar> \<longrightarrow>
          scaled d = scaled (bigint_to_number b) \<or> even (dbl_frac (bigint_to_number b))))"
  using bigint_to_number_near [OF assms] bigint_to_number_finite [OF assms] by blast

theorem bigint_to_number_nearest_witness: "isfinite (bigint_to_number (bigint_of 9))"
  using bigint_to_number_nearest [of "bigint_of 9" dbl_zero] by (simp add: bigint_ok_small)

text \<open>C6. \<open>oseo_internal_bigint_from_integral_number\<close> is exact on every integral double, and
  converting its result back gives the double it came from (zero loses its sign).\<close>

theorem bigint_number_round_trip:
  assumes "isfinite d" "scaled d = n * 2 ^ 1074"
  shows "delivers (bigint_from_integral_number d :: (rt_error + bigint, 'c) run) (Inr (bigint_of n))
    \<and> bigint_val (bigint_of n) = n
    \<and> bigint_to_number (bigint_of n) = (if n = 0 then dbl_zero else d)"
  using bigint_number_trip [OF assms] by simp

theorem bigint_number_round_trip_witness:
  "bigint_to_number (bigint_of 1) = dbl_one"
proof -
  have "isfinite dbl_one" by (simp add: isfinite_def dbl_one_def make_double_fields)
  from bigint_number_round_trip [where 'c = unit, OF this, of 1] show ?thesis by simp
qed

text \<open>C7. \<open>BigInt.asIntN\<close> and \<open>BigInt.asUintN\<close> reduce modulo \<open>2 ^ w\<close> into the signed or the
  unsigned range of the width, for every width the caller can pass; the limit error is raised
  only when the reduced integer has more than 65,536 bits.\<close>

theorem bigint_as_width_exact:
  assumes "bigint_ok a" "isfinite bits" "scaled bits = int w * 2 ^ 1074"
  shows "delivers (bigint_as_width a bits s :: (rt_error + bigint, 'c) run) (fits (as_width_int w s (bigint_val a)))"
  by (rule bigint_as_width_fits [OF assms])

theorem bigint_as_width_exact_witness:
  "fst (bigint_as_width (bigint_of (-1)) (double_of_nat 8) False granting) = Inr (bigint_of 255)"
proof -
  have d: "isfinite (double_of_nat 8)" "scaled (double_of_nat 8) = int 8 * 2 ^ 1074"
    by (rule double_of_nat_exact; simp)+
  have ok: "bigint_ok (bigint_of (-1))" by (rule bigint_ok_small) simp
  have "delivers (bigint_as_width (bigint_of (-1)) (double_of_nat 8) False :: (rt_error + bigint, unit) run)
     (fits (as_width_int 8 False (bigint_val (bigint_of (-1)))))"
    using ok d by (rule bigint_as_width_exact)
  from computes_granted [OF this, of granting] show ?thesis by (simp add: as_width_int_def Let_def fits_small)
qed


text \<open>C9. \<open>oseo_internal_integer_digits_to_number\<close> turns any run of valid digits in radix 2 to 36,
  however long, into the double nearest to the integer they spell (\<open>double_of_nat\<close>, the infinity
  past the largest double), with no intermediate rounding.\<close>

theorem integer_digits_exact:
  assumes "2 \<le> unat radix" "unat radix \<le> 36" "valid_digits radix units"
  shows "integer_digits_to_number units radix = double_of_nat (digits_val (unat radix) (unit_digits units))"
  using integer_digits_loop_correct [OF assms(1,2,3), of "[0]"]
  by (simp add: integer_digits_to_number_def trimmed_def limbs_ok_def)

theorem integer_digits_exact_witness:
  "integer_digits_to_number [0x66, 0x30] 16 = double_of_nat 240"
  using integer_digits_exact [of 16 "[0x66, 0x30]"]
  by (simp add: valid_digits_def unit_digits_def digit_of_unit_def digits_val_def)

subsection \<open>Values and context\<close>

text \<open>C10. Boxing a number loses nothing: \<open>number_value\<close> of \<open>oseo_number d\<close> is \<open>d\<close> (every NaN becomes
  the canonical one, \<open>-0\<close> keeps its sign), the value is a number, and two doubles have the same
  representation exactly when they are equal or both NaN.\<close>

theorem number_boxing:
  "number_value (oseo_number d) = (if isnan d then CANONICAL_NAN else d)
   \<and> is_number (oseo_number d)
   \<and> (oseo_number d = oseo_number e) = (d = e \<or> isnan d \<and> isnan e)"
  using number_round_trip [of d] oseo_number_inj [of d e] by blast

text \<open>C11. A tagged value gives back its tag and its 48-bit payload, and a tagged value is never the
  representation of a number that is not a small integer.\<close>

theorem tagged_fields:
  assumes "unat t < 8"
  shows "tag_of (tagged t p) = t \<and> tagged t p AND PAYLOAD_MASK = p AND PAYLOAD_MASK
    \<and> (t \<noteq> 0 \<and> t \<noteq> TAG_SMI \<longrightarrow> tagged t p \<noteq> oseo_number d)"
  by (rule tagged_not_number [OF assms])

theorem tagged_fields_witness: "tag_of (tagged TAG_HEAP 4096) = TAG_HEAP"
  using tagged_fields [of TAG_HEAP 4096] by (simp add: TAG_HEAP_def)

text \<open>C12. Every realm seeds its own generator: different realm ordinals never share a first word,
  no realm starts from the all-zero state, \<open>Math.random\<close> never reaches it, and every draw is a
  finite double in \<open>[0, 1)\<close>.\<close>

theorem realm_random_sound:
  "(word0 (fst (realm_init a)) = word0 (fst (realm_init b))) = (a = b)
   \<and> random_live (((snd \<circ> math_random) ^^ n) (fst (realm_init a)))
   \<and> (let draw = fst (math_random s)
      in isfinite draw \<and> 0 \<le> scaled draw \<and> scaled draw < scaled dbl_one)"
  by (rule realm_random)

text \<open>C13. No sequence of call and frame entries and exits takes the call depth past 256 or the
  active frame slots past 65,536.\<close>

theorem core_budgets:
  assumes "core_step\<^sup>*\<^sup>* ctx ctx'" "core_budget ctx"
  shows "core_budget ctx'"
  by (rule core_reachable_budget [OF assms])

theorem core_budgets_witness:
  "core_budget (snd (oseo_call_enter \<lparr>call_depth = 255, active_frame_slots = 0, roots = 0, root_frames = \<lambda>f. \<lparr>previous = 0, slots = []\<rparr>\<rparr>))"
proof -
  let ?c = "\<lparr>call_depth = 255, active_frame_slots = 0, roots = 0, root_frames = \<lambda>f. \<lparr>previous = 0, slots = []\<rparr>\<rparr>"
  have "core_step\<^sup>*\<^sup>* ?c (snd (oseo_call_enter ?c))" by (rule r_into_rtranclp) (rule core_step.call_enter)
  then show ?thesis by (rule core_budgets) (simp add: core_budget_def MAX_CALL_DEPTH_def MAX_ACTIVE_FRAME_SLOTS_def)
qed

text \<open>C14. Root frames nest: allocating a frame that is not on the chain pushes it with every slot
  zero, and releasing it leaves the chain as it was.\<close>

theorem roots_nest:
  assumes "root_chain (root_frames ctx) (roots ctx) fs" "f \<noteq> 0" "f \<notin> set fs"
    "fst (oseo_roots_allocate ctx f n g) = None"
  defines "ctx' \<equiv> snd (oseo_roots_allocate ctx f n g)"
  shows "root_chain (root_frames ctx') (roots ctx') (f # fs)
    \<and> slots (root_frames ctx' f) = replicate n 0
    \<and> root_chain (root_frames (oseo_roots_release ctx' f)) (roots (oseo_roots_release ctx' f)) fs"
  using roots_allocate_chain [OF assms(1-4)] roots_release_chain [OF roots_allocate_chain(1) [OF assms(1-4)]]
  unfolding ctx'_def by blast

theorem roots_nest_witness:
  "root_chain (root_frames (oseo_roots_release (snd (oseo_roots_allocate
     \<lparr>call_depth = 0, active_frame_slots = 0, roots = 0, root_frames = \<lambda>f. \<lparr>previous = 0, slots = []\<rparr>\<rparr> 7 2 True)) 7))
     0 []"
  using roots_nest [of "\<lparr>call_depth = 0, active_frame_slots = 0, roots = 0, root_frames = \<lambda>f. \<lparr>previous = 0, slots = []\<rparr>\<rparr>" "[]" 7 2 True]
  by (simp add: root_chain.root_nil oseo_roots_allocate_def SIZE_MAX_def)

end
